(* ===== verification/Prelude.thy ===== *)
theory Prelude
  imports Main "HOL-Library.Word"
begin

unbundle bit_operations_syntax

text \<open>
  Shared material of the development: the collections of rewrite rules the component
  theories fill, the generic lemmas on lists, and the interface \<open>codec\<close> (an encoder and
  a decoder that reads one item from the front of its input) with its client lemmas:
  unambiguity, and round trips for sequences of items.
\<close>

named_theorems cursor_defs "definitions of the scanning operations of a cursor"
named_theorems reader_simps "evaluation rules of the record reader"

type_synonym byte = "8 word"

section \<open>Lists\<close>

text \<open>The longest run of elements that satisfy a predicate, counted.\<close>

abbreviation run_length :: "('a \<Rightarrow> bool) \<Rightarrow> 'a list \<Rightarrow> nat" where
  "run_length P xs \<equiv> length (takeWhile P xs)"

lemma drop_ConsD: "drop p xs = c # r \<Longrightarrow> p < length xs \<and> xs ! p = c \<and> drop (Suc p) xs = r"
  by (metis Cons_nth_drop_Suc drop_eq_Nil leI list.distinct(1) list.inject)

lemma run_length_le: "run_length P xs \<le> length xs"
  by (rule length_takeWhile_le)

lemma run_length_drop_le: "i \<le> length xs \<Longrightarrow> i + run_length P (drop i xs) \<le> length xs"
  using length_takeWhile_le [of P "drop i xs"] by simp

lemma take_drop_append_mid [simp]:
  "length xs = i \<Longrightarrow> take (length ys) (drop i (xs @ ys @ zs)) = ys"
  by simp

lemma take_append_exact: "length xs = n \<Longrightarrow> take n (xs @ ys) = xs"
  by simp

lemma drop_append_exact: "length xs = n \<Longrightarrow> drop n (xs @ ys) = ys"
  by simp

lemma nth_append_mid: "length xs = i \<Longrightarrow> (xs @ y # zs) ! i = y"
  by auto

section \<open>Results\<close>

text \<open>Fallible steps in sequence: an error (\<open>Inl\<close>) leaves at once, as an exception does.\<close>

definition ebind :: "'e + 'a \<Rightarrow> ('a \<Rightarrow> 'e + 'b) \<Rightarrow> 'e + 'b" where
  "ebind m f = (case m of Inl e \<Rightarrow> Inl e | Inr x \<Rightarrow> f x)"

lemma ebind_simps [simp]: "ebind (Inl e) f = Inl e" "ebind (Inr x) f = f x"
  by (simp_all add: ebind_def)

lemma ebind_Inr_iff: "ebind m f = Inr y \<longleftrightarrow> (\<exists>x. m = Inr x \<and> f x = Inr y)"
  by (cases m) auto

definition require :: "bool \<Rightarrow> 'e \<Rightarrow> 'e + unit" where
  "require b e = (if b then Inr () else Inl e)"

lemma require_simps [simp]: "require True e = Inr ()" "require False e = Inl e"
  by (simp_all add: require_def)

lemma require_Inr_iff: "require b e = Inr u \<longleftrightarrow> b"
  by (simp add: require_def)

section \<open>Words\<close>

lemma unat_eq_of_nat: "unat w = n \<Longrightarrow> w = of_nat n"
  by auto

lemma and_nat_mask: "(n::nat) AND (2 ^ k - 1) = n mod 2 ^ k"
  by (metis mask_eq_exp_minus_1 take_bit_eq_mask take_bit_eq_mod)

lemma and_3_nat: "(n::nat) AND 3 = n mod 4"
proof -
  have "n AND 3 = n AND mask 2" by (simp add: mask_eq_exp_minus_1)
  also have "\<dots> = take_bit 2 n" by (rule take_bit_eq_mask [symmetric])
  also have "\<dots> = n mod 4" by (simp add: take_bit_eq_mod)
  finally show ?thesis .
qed

lemma pad_distance_decreases:
  "0 < (n::nat) mod 4 \<Longrightarrow> (4 - Suc n mod 4) mod 4 < 4 - n mod 4"
proof -
  assume "0 < n mod 4"
  moreover have "n mod 4 < 4" by simp
  ultimately consider "n mod 4 = 1" | "n mod 4 = 2" | "n mod 4 = 3" by linarith
  then show ?thesis by cases (simp_all add: mod_Suc)
qed

section \<open>Codecs\<close>

text \<open>
  The contract of every encoder/decoder pair of the program: decoding the encoding of an
  admissible item, followed by anything, gives the item and leaves what followed.
\<close>

locale codec =
  fixes enc :: "'a \<Rightarrow> 'b list"
    and dec :: "'b list \<Rightarrow> ('a \<times> 'b list) option"
    and ok :: "'a \<Rightarrow> bool"
  assumes dec_enc: "ok x \<Longrightarrow> dec (enc x @ rest) = Some (x, rest)"
begin

lemma dec_enc_exact: "ok x \<Longrightarrow> dec (enc x) = Some (x, [])"
  using dec_enc [of x "[]"] by simp

lemma prefix_free: "ok x \<Longrightarrow> ok y \<Longrightarrow> enc x @ r = enc y @ s \<Longrightarrow> x = y \<and> r = s"
  by (metis dec_enc option.inject prod.inject)

lemma enc_inject: "ok x \<Longrightarrow> ok y \<Longrightarrow> enc x = enc y \<Longrightarrow> x = y"
  by (metis prefix_free)

end

text \<open>Reading a given number of items one after the other.\<close>

fun decode_n :: "('b list \<Rightarrow> ('a \<times> 'b list) option) \<Rightarrow> nat \<Rightarrow> 'b list
    \<Rightarrow> ('a list \<times> 'b list) option" where
  "decode_n dec 0 bs = Some ([], bs)"
| "decode_n dec (Suc n) bs =
     (case dec bs of
        None \<Rightarrow> None
      | Some (x, bs') \<Rightarrow>
          (case decode_n dec n bs' of
             None \<Rightarrow> None
           | Some (xs, bs'') \<Rightarrow> Some (x # xs, bs'')))"

context codec
begin

lemma decode_n_enc:
  "list_all ok xs \<Longrightarrow> decode_n dec (length xs) (concat (map enc xs) @ rest) = Some (xs, rest)"
  by (induction xs) (simp_all add: dec_enc)

lemma concat_enc_inject:
  assumes "list_all ok xs" and "list_all ok ys" and "length xs = length ys"
    and "concat (map enc xs) = concat (map enc ys)"
  shows "xs = ys"
  by (metis assms decode_n_enc option.inject prod.inject)

end

text \<open>
  When no item is encoded by nothing, a stream needs no count: its bytes alone tell how many
  items it holds.
\<close>

locale stream_codec = codec +
  assumes enc_nonempty: "ok x \<Longrightarrow> enc x \<noteq> []"
begin

lemma concat_enc_unambiguous:
  "list_all ok xs \<Longrightarrow> list_all ok ys \<Longrightarrow> concat (map enc xs) = concat (map enc ys) \<Longrightarrow> xs = ys"
proof (induction xs arbitrary: ys)
  case Nil
  then show ?case using enc_nonempty by (cases ys) auto
next
  case (Cons x xs)
  then obtain y ys' where ys: "ys = y # ys'" using enc_nonempty [of x] by (cases ys) auto
  with Cons.prems have eq: "enc x @ concat (map enc xs) = enc y @ concat (map enc ys')" by simp
  have "x = y \<and> concat (map enc xs) = concat (map enc ys')"
    using prefix_free [OF _ _ eq] Cons.prems ys by simp
  then show ?case using Cons ys by simp
qed

end

section \<open>Numbers as text\<close>

text \<open>\<open>to_string\<close> of a signed integer.\<close>

fun nat_digits :: "nat \<Rightarrow> string" where
  "nat_digits n =
     (if n < 10 then [char_of (48 + n)] else nat_digits (n div 10) @ [char_of (48 + n mod 10)])"

definition int_to_string :: "int \<Rightarrow> string" where
  "int_to_string v = (if v < 0 then CHR ''-'' # nat_digits (nat (- v)) else nat_digits (nat v))"

end
