(* ===== verification/Dqm_If.thy ===== *)
theory Dqm_If
  imports Prelude "HOL-Library.Monad_Syntax"
begin

unbundle bit_operations_syntax

text \<open>
  The binary module interface format of \<open>compiler/ast/dqm_if.{h,cpp}\<close>: the writer that
  appends records to a payload and wraps it in a header, and the reader that checks a file and
  walks its records. Bytes are \<open>8 word\<close>, the fixed-width integers of the code are words of
  their width, \<open>size_t\<close> positions are \<open>nat\<close>. A read outside a byte vector, undefined in the
  code, is \<open>None\<close>; every operation of the reader is therefore an \<open>option\<close>, and the lemmas
  show that it is \<open>Some\<close> under the reader's invariant.
\<close>

section \<open>Constants and errors\<close>

type_synonym recid = "16 word"

definition DQMIF_VERSION :: "32 word" where
  "DQMIF_VERSION = push_bit 16 1 OR 25"

definition DQMIF_MIN_VERSION :: "32 word" where
  "DQMIF_MIN_VERSION = push_bit 16 1 OR 25"

definition UINT16_MAX :: nat where "UINT16_MAX = 2 ^ 16 - 1"
definition UINT32_MAX :: nat where "UINT32_MAX = 2 ^ 32 - 1"

text \<open>The magic: the characters of \<open>DQMIF\<close> and a zero byte.\<close>

definition DQMIF_MAGIC :: "byte list" where
  "DQMIF_MAGIC = [0x44, 0x51, 0x4D, 0x49, 0x46, 0x00]"

text \<open>The sizes of \<open>TDqmIfHeader\<close> and \<open>TDqmIfRec\<close>, as the code's static assertions state them.\<close>

definition DQMIF_HEADER_SIZE :: nat where "DQMIF_HEADER_SIZE = 32"
definition DQMIF_REC_SIZE :: nat where "DQMIF_REC_SIZE = 4"

text \<open>One constructor per message of the code, with the values the message shows.\<close>

datatype dqm_error =
    RecTooLarge recid nat
  | RecNullPayload recid
  | EmptyTypeSpec
  | PayloadTooLarge nat
  | FileTooSmall
  | InvalidMagic
  | UnsupportedHeaderSize "16 word"
  | UnsupportedVersion "32 word"
  | PayloadSizeMismatch "32 word" nat
  | HeaderChecksumMismatch
  | PayloadChecksumMismatch
  | UnexpectedEnd
  | TruncatedRecHeader
  | TruncatedRec recid
  | TruncatedPadding recid
  | ExpectedRec recid recid
  | RecNotEmpty recid
  | NoPairSeparator recid
  | EmptyPairItem recid
  | NotUint8 recid
  | NotUint32 recid
  | NotUint64 recid
  | ExpectedGroup recid recid

section \<open>Little-endian integers\<close>

definition AddU8 :: "byte list \<Rightarrow> 8 word \<Rightarrow> byte list" where
  "AddU8 rdst v = rdst @ [v]"

definition AddU16 :: "byte list \<Rightarrow> 16 word \<Rightarrow> byte list" where
  "AddU16 rdst v = rdst @ [ucast v, ucast (drop_bit 8 v)]"

definition AddU32 :: "byte list \<Rightarrow> 32 word \<Rightarrow> byte list" where
  "AddU32 rdst v =
     rdst @ [ucast v, ucast (drop_bit 8 v), ucast (drop_bit 16 v), ucast (drop_bit 24 v)]"

definition AddU64 :: "byte list \<Rightarrow> 64 word \<Rightarrow> byte list" where
  "AddU64 rdst v = AddU32 (AddU32 rdst (ucast v)) (ucast (drop_bit 32 v))"

definition DqmIfReadU16At :: "byte list \<Rightarrow> nat \<Rightarrow> 16 word option" where
  "DqmIfReadU16At data pos =
     (if pos + 2 \<le> length data
      then Some (ucast (data ! pos) OR push_bit 8 (ucast (data ! (pos + 1))))
      else None)"

definition DqmIfReadU32At :: "byte list \<Rightarrow> nat \<Rightarrow> 32 word option" where
  "DqmIfReadU32At data pos =
     (if pos + 4 \<le> length data
      then Some (ucast (data ! pos)
              OR push_bit 8 (ucast (data ! (pos + 1)))
              OR push_bit 16 (ucast (data ! (pos + 2)))
              OR push_bit 24 (ucast (data ! (pos + 3))))
      else None)"

definition DqmIfReadU64At :: "byte list \<Rightarrow> nat \<Rightarrow> 64 word option" where
  "DqmIfReadU64At data pos = do {
     lo \<leftarrow> DqmIfReadU32At data pos;
     hi \<leftarrow> DqmIfReadU32At data (pos + 4);
     Some (ucast lo OR push_bit 32 (ucast hi))
   }"

text \<open>The checksum of writer and reader: the sum of the bytes, wrapping at 64 bits.\<close>

definition Checksum :: "byte list \<Rightarrow> 64 word" where
  "Checksum adata = fold (\<lambda>b result. result + ucast b) adata 0"

section \<open>The writer\<close>

record dqm_writer =
  wr_payload :: "byte list"
  wr_error :: "dqm_error option"

definition new_writer :: dqm_writer where
  "new_writer = \<lparr>wr_payload = [], wr_error = None\<rparr>"

definition wr_Ok :: "dqm_writer \<Rightarrow> bool" where
  "wr_Ok w \<longleftrightarrow> wr_error w = None"

definition wr_Fail :: "dqm_error \<Rightarrow> dqm_writer \<Rightarrow> bool \<times> dqm_writer" where
  "wr_Fail e w = (False, if wr_error w = None then w\<lparr>wr_error := Some e\<rparr> else w)"

text \<open>The padding loop: zero bytes until the size is a multiple of four.\<close>

function pad4 :: "byte list \<Rightarrow> byte list" where
  "pad4 p = (if length p AND 3 \<noteq> 0 then pad4 (p @ [0]) else p)"
  by pat_completeness auto

termination
  by (relation "measure (\<lambda>p. (4 - length p mod 4) mod 4)")
    (simp_all add: and_3_nat pad_distance_decreases)

declare pad4.simps [simp del]

definition AddRec :: "recid \<Rightarrow> byte list option \<Rightarrow> nat \<Rightarrow> dqm_writer \<Rightarrow> bool \<times> dqm_writer" where
  "AddRec arecid adata alen w =
     (if \<not> wr_Ok w then (False, w)
      else if alen > UINT16_MAX then wr_Fail (RecTooLarge arecid alen) w
      else if alen \<noteq> 0 \<and> adata = None then wr_Fail (RecNullPayload arecid) w
      else
        let p = AddU16 (AddU16 (wr_payload w) arecid) (of_nat alen);
            src = (case adata of None \<Rightarrow> [] | Some d \<Rightarrow> d)
        in (True, w\<lparr>wr_payload := pad4 (p @ take alen src)\<rparr>))"

definition AddRecVec :: "recid \<Rightarrow> byte list \<Rightarrow> dqm_writer \<Rightarrow> bool \<times> dqm_writer" where
  "AddRecVec arecid adata w = AddRec arecid (Some adata) (length adata) w"

text \<open>Strings are their bytes.\<close>

definition AddRecStr :: "recid \<Rightarrow> byte list \<Rightarrow> dqm_writer \<Rightarrow> bool \<times> dqm_writer" where
  "AddRecStr arecid avalue w = AddRec arecid (Some avalue) (length avalue) w"

definition AddRecStringPair ::
    "recid \<Rightarrow> byte list \<Rightarrow> byte list \<Rightarrow> dqm_writer \<Rightarrow> bool \<times> dqm_writer" where
  "AddRecStringPair arecid afirst asecond w =
     (let data = (afirst @ [0]) @ asecond in AddRec arecid (Some data) (length data) w)"

definition AddRecEmpty :: "recid \<Rightarrow> dqm_writer \<Rightarrow> bool \<times> dqm_writer" where
  "AddRecEmpty arecid w = AddRec arecid None 0 w"

definition AddRecU8 :: "recid \<Rightarrow> 8 word \<Rightarrow> dqm_writer \<Rightarrow> bool \<times> dqm_writer" where
  "AddRecU8 arecid avalue w = AddRec arecid (Some [avalue]) 1 w"

definition AddRecU32 :: "recid \<Rightarrow> 32 word \<Rightarrow> dqm_writer \<Rightarrow> bool \<times> dqm_writer" where
  "AddRecU32 arecid avalue w = AddRecVec arecid (AddU32 [] avalue) w"

text \<open>Signed values are converted to the unsigned type of the same width, as the casts do.\<close>

definition AddRecI32 :: "recid \<Rightarrow> int \<Rightarrow> dqm_writer \<Rightarrow> bool \<times> dqm_writer" where
  "AddRecI32 arecid avalue w = AddRecU32 arecid (word_of_int avalue) w"

definition AddRecU64 :: "recid \<Rightarrow> 64 word \<Rightarrow> dqm_writer \<Rightarrow> bool \<times> dqm_writer" where
  "AddRecU64 arecid avalue w = AddRecVec arecid (AddU64 [] avalue) w"

definition AddRecI64 :: "recid \<Rightarrow> int \<Rightarrow> dqm_writer \<Rightarrow> bool \<times> dqm_writer" where
  "AddRecI64 arecid avalue w = AddRecU64 arecid (word_of_int avalue) w"

definition AddTypeSpecRec :: "recid \<Rightarrow> byte list \<Rightarrow> dqm_writer \<Rightarrow> bool \<times> dqm_writer" where
  "AddTypeSpecRec arecid atypename w =
     (if atypename = [] then wr_Fail EmptyTypeSpec w else AddRecStr arecid atypename w)"

text \<open>The header bytes for a given checksum field, in the order the code appends them.\<close>

definition header_bytes :: "byte list \<Rightarrow> 64 word \<Rightarrow> byte list" where
  "header_bytes payload csum =
     AddU64 (AddU64 (AddU32 (AddU32 (AddU16 (fold (\<lambda>c h. AddU8 h c) DQMIF_MAGIC [])
       (of_nat DQMIF_HEADER_SIZE)) DQMIF_VERSION) (of_nat (length payload))) (Checksum payload)) csum"

definition BuildFileData :: "dqm_writer \<Rightarrow> bool \<times> byte list \<times> dqm_writer" where
  "BuildFileData w =
     (if \<not> wr_Ok w then (False, [], w)
      else if length (wr_payload w) > UINT32_MAX
      then (let (b, w') = wr_Fail (PayloadTooLarge (length (wr_payload w))) w in (b, [], w'))
      else
        let csum = Checksum (header_bytes (wr_payload w) 0)
        in (True, header_bytes (wr_payload w) csum @ wr_payload w, w))"

section \<open>The reader\<close>

record dqm_reader =
  rd_payload :: "byte list"
  rd_error :: "dqm_error option"
  rd_pos :: nat
  rd_recid :: recid
  rd_reclen :: "16 word"
  rd_recpos :: nat

definition new_reader :: dqm_reader where
  "new_reader = \<lparr>rd_payload = [], rd_error = None, rd_pos = 0, rd_recid = 0, rd_reclen = 0,
     rd_recpos = 0\<rparr>"

definition rd_Ok :: "dqm_reader \<Rightarrow> bool" where
  "rd_Ok r \<longleftrightarrow> rd_error r = None"

definition rd_Fail :: "dqm_error \<Rightarrow> dqm_reader \<Rightarrow> bool \<times> dqm_reader" where
  "rd_Fail e r = (False, if rd_error r = None then r\<lparr>rd_error := Some e\<rparr> else r)"

definition rd_Eof :: "dqm_reader \<Rightarrow> bool" where
  "rd_Eof r \<longleftrightarrow> rd_pos r \<ge> length (rd_payload r)"

text \<open>Zeroing the checksum field: the loop over the bytes 24 to 31 of the header copy.\<close>

definition clear_csum :: "byte list \<Rightarrow> byte list" where
  "clear_csum header = fold (\<lambda>i h. h[i := 0]) [24..<32] header"

definition ReadFromData :: "byte list \<Rightarrow> dqm_reader \<Rightarrow> (bool \<times> dqm_reader) option" where
  "ReadFromData data r =
     (if length data < DQMIF_HEADER_SIZE then Some (rd_Fail FileTooSmall r)
      else if take 6 data \<noteq> DQMIF_MAGIC then Some (rd_Fail InvalidMagic r)
      else do {
        header_size \<leftarrow> DqmIfReadU16At data 6;
        if unat header_size \<noteq> DQMIF_HEADER_SIZE
        then Some (rd_Fail (UnsupportedHeaderSize header_size) r)
        else do {
          version \<leftarrow> DqmIfReadU32At data 8;
          if version < DQMIF_MIN_VERSION \<or> version > DQMIF_VERSION
          then Some (rd_Fail (UnsupportedVersion version) r)
          else do {
            payload_size \<leftarrow> DqmIfReadU32At data 12;
            if unat header_size + unat payload_size \<noteq> length data
            then Some (rd_Fail (PayloadSizeMismatch payload_size
                   (length data - unat header_size)) r)
            else do {
              payload_hash \<leftarrow> DqmIfReadU64At data 16;
              header_csum \<leftarrow> DqmIfReadU64At data 24;
              if Checksum (clear_csum (take (unat header_size) data)) \<noteq> header_csum
              then Some (rd_Fail HeaderChecksumMismatch r)
              else
                let r1 = r\<lparr>rd_payload := drop (unat header_size) data\<rparr>
                in if Checksum (rd_payload r1) \<noteq> payload_hash
                   then Some (rd_Fail PayloadChecksumMismatch r1)
                   else Some (True, r1\<lparr>rd_pos := 0, rd_recid := 0, rd_reclen := 0,
                                       rd_recpos := 0\<rparr>)
            }
          }
        }
      })"

text \<open>The loop \<open>while (nextpos & 3) ++nextpos\<close>.\<close>

function align4 :: "nat \<Rightarrow> nat" where
  "align4 n = (if n AND 3 \<noteq> 0 then align4 (Suc n) else n)"
  by pat_completeness auto
termination
  by (relation "measure (\<lambda>n. (4 - n mod 4) mod 4)")
    (simp_all add: and_3_nat pad_distance_decreases)

declare align4.simps [simp del]

definition NextRec :: "dqm_reader \<Rightarrow> (bool \<times> dqm_reader) option" where
  "NextRec r =
     (if \<not> rd_Ok r then Some (False, r)
      else if rd_Eof r then Some (rd_Fail UnexpectedEnd r)
      else if rd_pos r + DQMIF_REC_SIZE > length (rd_payload r)
      then Some (rd_Fail TruncatedRecHeader r)
      else do {
        rid \<leftarrow> DqmIfReadU16At (rd_payload r) (rd_pos r);
        rlen \<leftarrow> DqmIfReadU16At (rd_payload r) (rd_pos r + 2);
        let r1 = r\<lparr>rd_recid := rid, rd_reclen := rlen, rd_recpos := rd_pos r + DQMIF_REC_SIZE\<rparr>;
            nextpos = rd_recpos r1 + unat rlen
        in if nextpos > length (rd_payload r) then Some (rd_Fail (TruncatedRec rid) r1)
           else let nextpos = align4 nextpos
             in if nextpos > length (rd_payload r) then Some (rd_Fail (TruncatedPadding rid) r1)
                else Some (True, r1\<lparr>rd_pos := nextpos\<rparr>)
      })"

definition ExpectEmpty :: "recid \<Rightarrow> dqm_reader \<Rightarrow> bool \<times> dqm_reader" where
  "ExpectEmpty arecid r =
     (if rd_recid r \<noteq> arecid then rd_Fail (ExpectedRec arecid (rd_recid r)) r
      else if rd_reclen r \<noteq> 0 then rd_Fail (RecNotEmpty (rd_recid r)) r
      else (True, r))"

text \<open>
  The operations with an output argument take its value before the call and return the value
  after it: where the code returns without assigning, the old value stays.
\<close>

definition ReadString :: "byte list \<Rightarrow> dqm_reader \<Rightarrow> (bool \<times> byte list \<times> dqm_reader) option" where
  "ReadString rvalue r =
     (if rd_recpos r + unat (rd_reclen r) \<le> length (rd_payload r)
      then Some (True, take (unat (rd_reclen r)) (drop (rd_recpos r) (rd_payload r)), r)
      else None)"

definition ReadStringPair :: "byte list \<Rightarrow> byte list \<Rightarrow> dqm_reader
    \<Rightarrow> (bool \<times> byte list \<times> byte list \<times> dqm_reader) option" where
  "ReadStringPair rfirst rsecond r =
     (if rd_recpos r + unat (rd_reclen r) \<le> length (rd_payload r)
      then
        let rec = take (unat (rd_reclen r)) (drop (rd_recpos r) (rd_payload r));
            sep = run_length (\<lambda>b. b \<noteq> 0) rec
        in if sep = length rec
           then let (b, r') = rd_Fail (NoPairSeparator (rd_recid r)) r
                in Some (b, rfirst, rsecond, r')
           else
             let first = take sep rec; second = drop (sep + 1) rec
             in if first = [] \<or> second = []
                then let (b, r') = rd_Fail (EmptyPairItem (rd_recid r)) r
                     in Some (b, first, second, r')
                else Some (True, first, second, r)
      else None)"

definition ReadU8 :: "8 word \<Rightarrow> dqm_reader \<Rightarrow> (bool \<times> 8 word \<times> dqm_reader) option" where
  "ReadU8 rvalue r =
     (if rd_reclen r \<noteq> 1
      then let (b, r') = rd_Fail (NotUint8 (rd_recid r)) r in Some (b, rvalue, r')
      else if rd_recpos r < length (rd_payload r)
      then Some (True, rd_payload r ! rd_recpos r, r)
      else None)"

definition ReadU32 :: "32 word \<Rightarrow> dqm_reader \<Rightarrow> (bool \<times> 32 word \<times> dqm_reader) option" where
  "ReadU32 rvalue r =
     (if rd_reclen r \<noteq> 4
      then let (b, r') = rd_Fail (NotUint32 (rd_recid r)) r in Some (b, rvalue, r')
      else do { v \<leftarrow> DqmIfReadU32At (rd_payload r) (rd_recpos r); Some (True, v, r) })"

definition ReadI32 :: "int \<Rightarrow> dqm_reader \<Rightarrow> (bool \<times> int \<times> dqm_reader) option" where
  "ReadI32 rvalue r = do {
     (ok, value, r') \<leftarrow> ReadU32 0 r;
     Some (if ok then (True, sint value, r') else (False, rvalue, r'))
   }"

definition ReadU64 :: "64 word \<Rightarrow> dqm_reader \<Rightarrow> (bool \<times> 64 word \<times> dqm_reader) option" where
  "ReadU64 rvalue r =
     (if rd_reclen r \<noteq> 8
      then let (b, r') = rd_Fail (NotUint64 (rd_recid r)) r in Some (b, rvalue, r')
      else do { v \<leftarrow> DqmIfReadU64At (rd_payload r) (rd_recpos r); Some (True, v, r) })"

definition ReadI64 :: "int \<Rightarrow> dqm_reader \<Rightarrow> (bool \<times> int \<times> dqm_reader) option" where
  "ReadI64 rvalue r = do {
     (ok, value, r') \<leftarrow> ReadU64 0 r;
     Some (if ok then (True, sint value, r') else (False, rvalue, r'))
   }"

definition ReadBlob :: "byte list \<Rightarrow> dqm_reader \<Rightarrow> (bool \<times> byte list \<times> dqm_reader) option" where
  "ReadBlob rvalue r =
     (if rd_recpos r + unat (rd_reclen r) \<le> length (rd_payload r)
      then Some (True, take (unat (rd_reclen r)) (drop (rd_recpos r) (rd_payload r)), r)
      else None)"

text \<open>What a successful \<open>NextRec\<close> guarantees, whatever the payload holds.\<close>

lemma align4_eq: "align4 n = (n + 3) div 4 * 4"
proof (induction n rule: align4.induct)
  case (1 n)
  show ?case
  proof (cases "n AND 3 \<noteq> 0")
    case True
    then have "align4 n = (Suc n + 3) div 4 * 4" using 1 by (simp add: align4.simps [of n])
    with True show ?thesis unfolding and_3_nat by presburger
  next
    case False
    then show ?thesis by (subst align4.simps) (simp only: and_3_nat, presburger)
  qed
qed

lemma align4_ge: "n \<le> align4 n"
  unfolding align4_eq by presburger

lemma align4_mod: "align4 n mod 4 = 0"
  unfolding align4_eq by simp

lemma align4_le: "align4 n \<le> n + 3"
  unfolding align4_eq by presburger

lemma NextRec_success:
  assumes "NextRec r = Some (True, r')"
  shows "rd_payload r' = rd_payload r" and "rd_error r' = None" and "rd_error r = None"
    and "rd_pos r + 4 \<le> rd_pos r'" and "rd_pos r' \<le> length (rd_payload r)"
    and "rd_recpos r' = rd_pos r + 4"
    and "rd_recpos r' + unat (rd_reclen r') \<le> rd_pos r'" and "rd_pos r' mod 4 = 0"
proof -
  obtain rid rlen where
    v: "DqmIfReadU16At (rd_payload r) (rd_pos r) = Some rid"
       "DqmIfReadU16At (rd_payload r) (rd_pos r + 2) = Some rlen"
    using assms
    by (auto simp: NextRec_def rd_Fail_def Let_def split: if_splits bind_splits)
  let ?n = "align4 (rd_pos r + 4 + unat rlen)"
  have r': "r' = r\<lparr>rd_recid := rid, rd_reclen := rlen, rd_recpos := rd_pos r + 4, rd_pos := ?n\<rparr>"
    and le: "?n \<le> length (rd_payload r)" and ok: "rd_Ok r"
    using assms v
    by (auto simp: NextRec_def rd_Fail_def Let_def DQMIF_REC_SIZE_def split: if_splits)
  show "rd_payload r' = rd_payload r" "rd_error r' = None" "rd_error r = None"
    "rd_recpos r' = rd_pos r + 4" "rd_pos r' \<le> length (rd_payload r)"
    using r' le ok by (simp_all add: rd_Ok_def)
  show "rd_pos r + 4 \<le> rd_pos r'" "rd_recpos r' + unat (rd_reclen r') \<le> rd_pos r'"
    "rd_pos r' mod 4 = 0"
    using r' align4_ge [of "rd_pos r + 4 + unat rlen"] align4_mod by simp_all
qed

text \<open>The loop of \<open>SkipGroup\<close>: it ends because every record read moves the position.\<close>

function skip_loop :: "recid \<Rightarrow> recid \<Rightarrow> int \<Rightarrow> dqm_reader \<Rightarrow> (bool \<times> dqm_reader) option" where
  "skip_loop abegin aend depth r =
     (if depth > 0
      then (case NextRec r of
              None \<Rightarrow> None
            | Some (ok, r') \<Rightarrow>
                if \<not> ok then Some (False, r')
                else if rd_recid r' = abegin then skip_loop abegin aend (depth + 1) r'
                else if rd_recid r' = aend then skip_loop abegin aend (depth - 1) r'
                else skip_loop abegin aend depth r')
      else Some (True, r))"
  by pat_completeness auto
termination
proof (relation "measure (\<lambda>(_, _, _, r). length (rd_payload r) - rd_pos r)", goal_cases)
  case 1
  show ?case by simp
next
  case (2 abegin aend depth r x2 ok r')
  then have "NextRec r = Some (True, r')" by simp
  from NextRec_success [OF this] show ?case by simp
next
  case (3 abegin aend depth r x2 ok r')
  then have "NextRec r = Some (True, r')" by simp
  from NextRec_success [OF this] show ?case by simp
next
  case (4 abegin aend depth r x2 ok r')
  then have "NextRec r = Some (True, r')" by simp
  from NextRec_success [OF this] show ?case by simp
qed

declare skip_loop.simps [simp del]

definition SkipGroup :: "recid \<Rightarrow> recid \<Rightarrow> dqm_reader \<Rightarrow> (bool \<times> dqm_reader) option" where
  "SkipGroup abegin aend r =
     (if rd_recid r \<noteq> abegin then Some (rd_Fail (ExpectedGroup abegin (rd_recid r)) r)
      else skip_loop abegin aend 1 r)"

end
