(* ===== verification/Dqm_Stream.thy ===== *)
theory Dqm_Stream
  imports Dqm_If
begin

text \<open>
  The record stream of the module interface format as an abstract data type: a list of pairs of
  a record id and its bytes. The encoders and decoders of \<open>Dqm_If\<close> are interpretations of
  the interface \<open>codec\<close>; the writer appends encodings, the reader walks them, and a file
  built from a list of records reads back as that list.
\<close>

section \<open>Integers\<close>

lemma u16_bytes:
  "ucast (ucast v :: byte) OR push_bit 8 (ucast (ucast (drop_bit 8 v) :: byte)) = (v :: 16 word)"
  by (rule bit_word_eqI) (auto simp: bit_simps)

lemma u32_bytes:
  "ucast (ucast v :: byte) OR push_bit 8 (ucast (ucast (drop_bit 8 v) :: byte))
     OR push_bit 16 (ucast (ucast (drop_bit 16 v) :: byte))
     OR push_bit 24 (ucast (ucast (drop_bit 24 v) :: byte)) = (v :: 32 word)"
  (is "?l = v")
proof (rule bit_word_eqI)
  fix n
  assume "n < LENGTH(32)"
  then show "bit ?l n = bit v n" by (cases "24 \<le> n"; cases "16 \<le> n") (auto simp: bit_simps)
qed

lemma u64_halves:
  "ucast (ucast v :: 32 word) OR push_bit 32 (ucast (ucast (drop_bit 32 v) :: 32 word))
     = (v :: 64 word)"
  by (rule bit_word_eqI) (auto simp: bit_simps)

lemma AddU16_app: "AddU16 xs v = xs @ AddU16 [] v" by (simp add: AddU16_def)
lemma AddU32_app: "AddU32 xs v = xs @ AddU32 [] v" by (simp add: AddU32_def)
lemma AddU64_app: "AddU64 xs v = xs @ AddU64 [] v" by (simp add: AddU64_def AddU32_def)

lemma length_AddU [simp]:
  "length (AddU16 xs a) = length xs + 2"
  "length (AddU32 xs b) = length xs + 4"
  "length (AddU64 xs c) = length xs + 8"
  by (simp_all add: AddU16_def AddU32_def AddU64_def)

text \<open>Reading at the place where a value was appended gives the value.\<close>

lemma DqmIfReadU16At_mid:
  "length pre = pos \<Longrightarrow> DqmIfReadU16At (pre @ AddU16 [] v @ post) pos = Some v"
  by (auto simp: DqmIfReadU16At_def AddU16_def nth_append u16_bytes)

lemma DqmIfReadU32At_mid:
  "length pre = pos \<Longrightarrow> DqmIfReadU32At (pre @ AddU32 [] v @ post) pos = Some v"
  using u32_bytes [of v]
  by (auto simp: DqmIfReadU32At_def AddU32_def nth_append numeral_eq_Suc)

lemma AddU64_halves: "AddU64 [] v = AddU32 [] (ucast v) @ AddU32 [] (ucast (drop_bit 32 v))"
  by (simp add: AddU64_def AddU32_def)

lemma DqmIfReadU64At_mid:
  assumes "length pre = pos"
  shows "DqmIfReadU64At (pre @ AddU64 [] v @ post) pos = Some v"
proof -
  let ?lo = "AddU32 [] (ucast v :: 32 word)" and ?hi = "AddU32 [] (ucast (drop_bit 32 v) :: 32 word)"
  have "DqmIfReadU32At (pre @ ?lo @ ?hi @ post) pos = Some (ucast v)"
    by (rule DqmIfReadU32At_mid [OF assms])
  moreover have "DqmIfReadU32At ((pre @ ?lo) @ ?hi @ post) (pos + 4) = Some (ucast (drop_bit 32 v))"
    by (rule DqmIfReadU32At_mid) (simp add: assms)
  ultimately show ?thesis
    by (simp add: DqmIfReadU64At_def AddU64_halves u64_halves)
qed

text \<open>The decoder that belongs to a positional read: read at 0 and drop what was read.\<close>

definition read_front :: "(byte list \<Rightarrow> nat \<Rightarrow> 'a option) \<Rightarrow> nat \<Rightarrow> byte list
    \<Rightarrow> ('a \<times> byte list) option" where
  "read_front rd n bs = map_option (\<lambda>v. (v, drop n bs)) (rd bs 0)"

interpretation u16: codec "AddU16 []" "read_front DqmIfReadU16At 2" "\<lambda>_. True"
  using DqmIfReadU16At_mid [of "[]" 0] by unfold_locales (simp add: read_front_def)

interpretation u32: codec "AddU32 []" "read_front DqmIfReadU32At 4" "\<lambda>_. True"
  using DqmIfReadU32At_mid [of "[]" 0] by unfold_locales (simp add: read_front_def)

interpretation u64: codec "AddU64 []" "read_front DqmIfReadU64At 8" "\<lambda>_. True"
  using DqmIfReadU64At_mid [of "[]" 0] by unfold_locales (simp add: read_front_def)

section \<open>Records\<close>

type_synonym rec_item = "recid \<times> byte list"

definition rec_padding :: "nat \<Rightarrow> byte list" where
  "rec_padding n = replicate (align4 n - n) 0"

definition rec_bytes :: "rec_item \<Rightarrow> byte list" where
  "rec_bytes x = AddU16 [] (fst x) @ AddU16 [] (of_nat (length (snd x))) @ snd x
     @ rec_padding (length (snd x))"

definition rec_fits :: "rec_item \<Rightarrow> bool" where
  "rec_fits x \<longleftrightarrow> length (snd x) \<le> UINT16_MAX"

definition read_rec :: "byte list \<Rightarrow> (rec_item \<times> byte list) option" where
  "read_rec bs = do {
     (rid, bs1) \<leftarrow> read_front DqmIfReadU16At 2 bs;
     (len, bs2) \<leftarrow> read_front DqmIfReadU16At 2 bs1;
     if align4 (unat len) \<le> length bs2
     then Some ((rid, take (unat len) bs2), drop (align4 (unat len)) bs2) else None }"

abbreviation stream_bytes :: "rec_item list \<Rightarrow> byte list" where
  "stream_bytes xs \<equiv> concat (map rec_bytes xs)"

lemma align4_add4: "align4 (n + 4 * k) = align4 n + 4 * k"
  unfolding align4_eq by presburger

lemma align4_add_mod: "m mod 4 = 0 \<Longrightarrow> align4 (m + n) = m + align4 n"
proof -
  assume "m mod 4 = 0"
  then obtain k where "m = 4 * k" by auto
  then show ?thesis using align4_add4 [of n k] by (simp add: add.commute)
qed

lemma length_rec_padding: "n + length (rec_padding n) = align4 n"
  using align4_ge [of n] by (simp add: rec_padding_def)

lemma length_rec_bytes: "length (rec_bytes x) = 4 + align4 (length (snd x))"
  using length_rec_padding [of "length (snd x)"] by (simp add: rec_bytes_def)

lemma length_rec_bytes_mod: "length (rec_bytes x) mod 4 = 0"
  using align4_mod [of "length (snd x)"] by (simp add: length_rec_bytes mod_add_eq)

lemma length_stream_mod: "length (stream_bytes xs) mod 4 = 0"
  by (induction xs) (simp_all add: length_rec_bytes_mod mod_add_eq [symmetric])

lemma unat_u16_length: "rec_fits x \<Longrightarrow> unat (of_nat (length (snd x)) :: 16 word) = length (snd x)"
  by (simp add: rec_fits_def UINT16_MAX_def unat_of_nat)

interpretation recs: stream_codec rec_bytes read_rec rec_fits
proof unfold_locales
  fix x rest
  assume x: "rec_fits x"
  note u = unat_u16_length [OF x] and p = length_rec_padding [of "length (snd x)"]
  show "read_rec (rec_bytes x @ rest) = Some (x, rest)"
    using p by (simp add: read_rec_def rec_bytes_def u16.dec_enc u del: length_AddU)
  show "rec_bytes x \<noteq> []" by (simp add: rec_bytes_def AddU16_def)
qed

section \<open>The writer appends records\<close>

text \<open>The stream a writer holds, and the effect of a record on it.\<close>

definition wr_stream :: "dqm_writer \<Rightarrow> rec_item list \<Rightarrow> bool" where
  "wr_stream w xs \<longleftrightarrow> list_all rec_fits xs \<and> wr_payload w = stream_bytes xs"

lemma pad4_eq: "pad4 p = p @ rec_padding (length p)"
proof (induction p rule: pad4.induct)
  case (1 p)
  show ?case
  proof (cases "length p AND 3 \<noteq> 0")
    case True
    then have a: "align4 (length p) = align4 (Suc (length p))" by (simp add: align4.simps [of "length p"])
    have "align4 (length p) - length p = Suc (align4 (length p) - Suc (length p))"
      using align4_ge [of "Suc (length p)"] a by simp
    with True 1 a show ?thesis by (simp add: pad4.simps [of p] rec_padding_def)
  next
    case False
    then show ?thesis by (simp add: pad4.simps [of p] align4.simps [of "length p"] rec_padding_def)
  qed
qed

lemma rec_padding_add: "m mod 4 = 0 \<Longrightarrow> rec_padding (m + n) = rec_padding n"
  by (simp add: rec_padding_def align4_add_mod)

lemma AddRec_appends:
  assumes "wr_Ok w" and "length d \<le> UINT16_MAX" and "length (wr_payload w) mod 4 = 0"
  shows "AddRec rid (Some d) (length d) w
    = (True, w\<lparr>wr_payload := wr_payload w @ rec_bytes (rid, d)\<rparr>)"
proof -
  let ?p = "AddU16 (AddU16 (wr_payload w) rid) (of_nat (length d))"
  have p: "?p = wr_payload w @ AddU16 [] rid @ AddU16 [] (of_nat (length d))"
    by (metis AddU16_app append.assoc)
  have "length (?p @ d) = (length (wr_payload w) + 4) + length d" by simp
  then have "pad4 (?p @ d) = (?p @ d) @ rec_padding (length d)"
    using rec_padding_add [of "length (wr_payload w) + 4" "length d"] assms(3)
    by (simp only: pad4_eq) simp
  then show ?thesis using assms(1,2) by (simp add: AddRec_def Let_def p rec_bytes_def)
qed

lemma AddRec_None: "AddRec rid None 0 w = AddRec rid (Some []) 0 w"
  by (simp add: AddRec_def)

lemmas writer_recs = AddRecVec_def AddRecStr_def AddRecStringPair_def AddRecEmpty_def AddRecU8_def
  AddRecU32_def AddRecU64_def AddRecI32_def AddRecI64_def AddRec_None

lemma AddRec_stream:
  assumes "wr_Ok w" and "wr_stream w xs" and "rec_fits (rid, d)"
  shows "\<exists>w'. AddRec rid (Some d) (length d) w = (True, w') \<and> wr_Ok w' \<and> wr_stream w' (xs @ [(rid, d)])"
  using assms AddRec_appends [of w d rid] length_stream_mod [of xs]
  by (simp add: wr_stream_def rec_fits_def wr_Ok_def)

lemma AddRec_too_long:
  "wr_Ok w \<Longrightarrow> \<not> rec_fits (rid, d) \<Longrightarrow>
     AddRec rid (Some d) (length d) w = (False, w\<lparr>wr_error := Some (RecTooLarge rid (length d))\<rparr>)"
  by (simp add: AddRec_def wr_Ok_def wr_Fail_def rec_fits_def)

lemma AddRec_after_error: "\<not> wr_Ok w \<Longrightarrow> AddRec rid d n w = (False, w)"
  by (simp add: AddRec_def)

section \<open>The reader walks records\<close>

text \<open>A reader that stands between the records \<open>done\<close> and \<open>todo\<close> of its payload.\<close>

definition rd_stream :: "dqm_reader \<Rightarrow> rec_item list \<Rightarrow> rec_item list \<Rightarrow> bool" where
  "rd_stream r past todo \<longleftrightarrow> list_all rec_fits past \<and> list_all rec_fits todo
     \<and> rd_payload r = stream_bytes past @ stream_bytes todo
     \<and> rd_pos r = length (stream_bytes past) \<and> rd_Ok r"

text \<open>The record a reader has last read.\<close>

definition rd_current :: "dqm_reader \<Rightarrow> rec_item \<Rightarrow> bool" where
  "rd_current r x \<longleftrightarrow> rd_recid r = fst x \<and> unat (rd_reclen r) = length (snd x)
     \<and> take (length (snd x)) (drop (rd_recpos r) (rd_payload r)) = snd x
     \<and> rd_recpos r + length (snd x) \<le> length (rd_payload r)"

lemma NextRec_stream:
  assumes "rd_stream r past (x # todo)"
  shows "\<exists>r'. NextRec r = Some (True, r') \<and> rd_stream r' (past @ [x]) todo \<and> rd_current r' x"
proof -
  let ?pre = "stream_bytes past" and ?d = "snd x" and ?post = "stream_bytes todo"
  let ?tail = "?d @ rec_padding (length ?d) @ ?post"
  have x: "rec_fits x" and p: "rd_payload r = ?pre @ rec_bytes x @ ?post"
    and pos: "rd_pos r = length ?pre" and ok: "rd_Ok r"
    using assms by (simp_all add: rd_stream_def)
  have p1: "rd_payload r = ?pre @ AddU16 [] (fst x) @ AddU16 [] (of_nat (length ?d)) @ ?tail"
    using p by (simp add: rec_bytes_def)
  have p2: "rd_payload r = (?pre @ AddU16 [] (fst x)) @ AddU16 [] (of_nat (length ?d)) @ ?tail"
    using p1 by simp
  have rid: "DqmIfReadU16At (rd_payload r) (rd_pos r) = Some (fst x)"
    unfolding p1 pos by (rule DqmIfReadU16At_mid) simp
  have len: "DqmIfReadU16At (rd_payload r) (rd_pos r + 2) = Some (of_nat (length ?d))"
    unfolding p2 pos by (rule DqmIfReadU16At_mid) simp
  have m: "length ?pre mod 4 = 0" by (rule length_stream_mod)
  have al: "align4 (rd_pos r + 4 + length ?d) = rd_pos r + 4 + align4 (length ?d)"
    using align4_add_mod [of "rd_pos r + 4" "length ?d"] m pos by simp
  have total: "rd_pos r + 4 + align4 (length ?d) + length ?post = length (rd_payload r)"
    using p pos by (simp add: length_rec_bytes)
  note ge = align4_ge [of "length ?d"]
  define r' where "r' = r\<lparr>rd_recid := fst x, rd_reclen := of_nat (length ?d),
    rd_recpos := rd_pos r + 4, rd_pos := rd_pos r + 4 + align4 (length ?d)\<rparr>"
  have "NextRec r = Some (True, r')"
    using ok rid len al total ge unat_u16_length [OF x]
    by (simp add: NextRec_def rd_Eof_def DQMIF_REC_SIZE_def r'_def Let_def)
  moreover have "rd_stream r' (past @ [x]) todo"
    using assms pos by (simp add: rd_stream_def r'_def rd_Ok_def length_rec_bytes)
  moreover have "rd_current r' x"
  proof -
    have "drop (rd_pos r + 4) (rd_payload r) = ?tail" unfolding p1 pos by simp
    then show ?thesis using unat_u16_length [OF x] total ge
      by (simp add: rd_current_def r'_def)
  qed
  ultimately show ?thesis by blast
qed

lemma NextRec_at_end: "rd_stream r past [] \<Longrightarrow> rd_Eof r"
  by (simp add: rd_stream_def rd_Eof_def)

lemma not_Eof_stream: "rd_stream r past (x # todo) \<Longrightarrow> \<not> rd_Eof r"
  by (simp add: rd_stream_def rd_Eof_def length_rec_bytes)

section \<open>Values in records\<close>

lemma AddU8_eq: "AddU8 h c = h @ [c]" by (simp add: AddU8_def)

text \<open>The bytes of the current record, read at the places the operations read.\<close>

lemma rd_current_split:
  assumes "rd_current r (rid, d)"
  shows "rd_payload r = take (rd_recpos r) (rd_payload r) @ d
    @ drop (rd_recpos r + length d) (rd_payload r)"
    and "length (take (rd_recpos r) (rd_payload r)) = rd_recpos r"
proof -
  have "take (length d) (drop (rd_recpos r) (rd_payload r)) = d"
    using assms by (simp add: rd_current_def)
  then have "drop (rd_recpos r) (rd_payload r) = d @ drop (rd_recpos r + length d) (rd_payload r)"
    by (metis append_take_drop_id drop_drop add.commute)
  then show "rd_payload r = take (rd_recpos r) (rd_payload r) @ d
    @ drop (rd_recpos r + length d) (rd_payload r)"
    by (metis append_take_drop_id)
  show "length (take (rd_recpos r) (rd_payload r)) = rd_recpos r"
    using assms by (simp add: rd_current_def)
qed

lemma ReadBlob_current: "rd_current r (rid, d) \<Longrightarrow> ReadBlob v r = Some (True, d, r)"
  by (simp add: rd_current_def ReadBlob_def)

lemma ReadString_current: "rd_current r (rid, d) \<Longrightarrow> ReadString v r = Some (True, d, r)"
  by (simp add: rd_current_def ReadString_def)

lemma ReadU32_current: "rd_current r (rid, AddU32 [] v) \<Longrightarrow> ReadU32 x r = Some (True, v, r)"
proof -
  assume r: "rd_current r (rid, AddU32 [] v)"
  then have "rd_reclen r = 4" using unat_eq_of_nat [of "rd_reclen r" 4] by (simp add: rd_current_def)
  moreover have "DqmIfReadU32At (rd_payload r) (rd_recpos r) = Some v"
    using rd_current_split [OF r] DqmIfReadU32At_mid by metis
  ultimately show ?thesis by (simp add: ReadU32_def)
qed

lemma ReadU64_current: "rd_current r (rid, AddU64 [] v) \<Longrightarrow> ReadU64 x r = Some (True, v, r)"
proof -
  assume r: "rd_current r (rid, AddU64 [] v)"
  then have "rd_reclen r = 8" using unat_eq_of_nat [of "rd_reclen r" 8] by (simp add: rd_current_def)
  moreover have "DqmIfReadU64At (rd_payload r) (rd_recpos r) = Some v"
    using rd_current_split [OF r] DqmIfReadU64At_mid by metis
  ultimately show ?thesis by (simp add: ReadU64_def)
qed

lemma ReadU8_current: "rd_current r (rid, [v]) \<Longrightarrow> ReadU8 x r = Some (True, v, r)"
proof -
  assume r: "rd_current r (rid, [v])"
  then have "rd_reclen r = 1" using unat_eq_of_nat [of "rd_reclen r" 1] by (simp add: rd_current_def)
  moreover have "rd_payload r ! rd_recpos r = v"
    using rd_current_split [OF r] nth_append_mid by (metis append_Cons append_Nil)
  ultimately show ?thesis using r by (simp add: ReadU8_def rd_current_def)
qed

lemma ReadStringPair_current:
  assumes r: "rd_current r (rid, a @ 0 # b)" and "0 \<notin> set a" and "a \<noteq> []" and "b \<noteq> []"
  shows "ReadStringPair x y r = Some (True, a, b, r)"
proof -
  have t: "takeWhile (\<lambda>c. c \<noteq> 0) (a @ 0 # b) = a"
    using assms(2) by (subst takeWhile_append2) auto
  then show ?thesis using r assms(3,4)
    by (simp add: ReadStringPair_def rd_current_def)
qed

section \<open>Nested groups\<close>

text \<open>
  A record stream as a tree: single records, and groups between a begin and an end record.
  \<open>flat\<close> gives the records in stream order.
\<close>

datatype group_item = Single rec_item | Group "byte list" "group_item list" "byte list"

fun flat :: "recid \<Rightarrow> recid \<Rightarrow> group_item \<Rightarrow> rec_item list" where
  "flat b e (Single x) = [x]"
| "flat b e (Group d items d') = (b, d) # concat (map (flat b e) items) @ [(e, d')]"

text \<open>No single record carries an id of the group, and every record fits.\<close>

fun group_ok :: "recid \<Rightarrow> recid \<Rightarrow> group_item \<Rightarrow> bool" where
  "group_ok b e (Single x) \<longleftrightarrow> fst x \<noteq> b \<and> fst x \<noteq> e"
| "group_ok b e (Group d items d') \<longleftrightarrow> list_all (group_ok b e) items"

abbreviation flats :: "recid \<Rightarrow> recid \<Rightarrow> group_item list \<Rightarrow> rec_item list" where
  "flats b e items \<equiv> concat (map (flat b e) items)"

text \<open>The loop runs through a balanced part of the stream and keeps its depth.\<close>

lemma skip_loop_step:
  assumes "rd_stream r past (x # todo)" and "0 < depth"
  shows "\<exists>r'. rd_stream r' (past @ [x]) todo \<and> rd_current r' x
    \<and> skip_loop b e depth r = skip_loop b e
        (if fst x = b then depth + 1 else if fst x = e then depth - 1 else depth) r'"
proof -
  obtain r' where r': "NextRec r = Some (True, r')" "rd_stream r' (past @ [x]) todo" "rd_current r' x"
    using NextRec_stream [OF assms(1)] by blast
  then have "rd_recid r' = fst x" by (simp add: rd_current_def)
  with r' assms(2) show ?thesis
    by (intro exI [of _ r']) (auto simp: skip_loop.simps [of b e depth r])
qed

lemma skip_loop_flat:
  assumes "group_ok b e g" and "b \<noteq> e" and "rd_stream r past (flat b e g @ todo)" and "0 < depth"
  shows "\<exists>r'. rd_stream r' (past @ flat b e g) todo \<and> skip_loop b e depth r = skip_loop b e depth r'"
  using assms
proof (induction g arbitrary: past todo depth r)
  case (Single x)
  then show ?case using skip_loop_step [of r past x todo depth b e] by auto
next
  case (Group d items d')
  have items: "\<exists>r'. rd_stream r' (past @ flats b e gs) todo \<and> skip_loop b e k r = skip_loop b e k r'"
    if "set gs \<subseteq> set items" "rd_stream r past (flats b e gs @ todo)" "0 < k" for gs past todo r k
    using that
  proof (induction gs arbitrary: past r)
    case Nil
    then show ?case by auto
  next
    case (Cons g gs)
    then have "g \<in> set items" and "group_ok b e g" using Group.prems(1) by (auto simp: list_all_iff)
    then obtain r1 where r1: "rd_stream r1 (past @ flat b e g) (flats b e gs @ todo)"
      "skip_loop b e k r = skip_loop b e k r1"
      using Group.IH [of g r past "flats b e gs @ todo" k] Cons.prems \<open>b \<noteq> e\<close> by auto
    then obtain r2 where "rd_stream r2 ((past @ flat b e g) @ flats b e gs) todo"
      "skip_loop b e k r1 = skip_loop b e k r2"
      using Cons.IH [of r1 "past @ flat b e g"] Cons.prems by auto
    then show ?case using r1 by auto
  qed
  obtain r1 where r1: "rd_stream r1 (past @ [(b, d)]) (flats b e items @ (e, d') # todo)"
      "skip_loop b e depth r = skip_loop b e (depth + 1) r1"
    using skip_loop_step [of r past "(b, d)" "flats b e items @ (e, d') # todo" depth b e] Group.prems
    by auto
  obtain r2 where r2: "rd_stream r2 ((past @ [(b, d)]) @ flats b e items) ((e, d') # todo)"
      "skip_loop b e (depth + 1) r1 = skip_loop b e (depth + 1) r2"
    using items [OF subset_refl r1(1), of "depth + 1"] Group.prems by auto
  obtain r3 where "rd_stream r3 (((past @ [(b, d)]) @ flats b e items) @ [(e, d')]) todo"
      "skip_loop b e (depth + 1) r2 = skip_loop b e depth r3"
    using skip_loop_step [OF r2(1), of "depth + 1" b e] Group.prems by auto
  then show ?case using r1 r2 by auto
qed

lemma skip_loop_flats:
  assumes "list_all (group_ok b e) gs" and "b \<noteq> e" and "rd_stream r past (flats b e gs @ todo)"
    and "0 < depth"
  shows "\<exists>r'. rd_stream r' (past @ flats b e gs) todo \<and> skip_loop b e depth r = skip_loop b e depth r'"
  using assms
proof (induction gs arbitrary: past r)
  case Nil
  then show ?case by auto
next
  case (Cons g gs)
  then obtain r1 where r1: "rd_stream r1 (past @ flat b e g) (flats b e gs @ todo)"
    "skip_loop b e depth r = skip_loop b e depth r1"
    using skip_loop_flat [of b e g r past "flats b e gs @ todo" depth] by auto
  then obtain r2 where "rd_stream r2 ((past @ flat b e g) @ flats b e gs) todo"
    "skip_loop b e depth r1 = skip_loop b e depth r2"
    using Cons.IH [of r1 "past @ flat b e g"] Cons.prems by auto
  then show ?case using r1 by auto
qed

end
