(* ===== verification/Dqm_File.thy ===== *)
theory Dqm_File
  imports Dqm_Stream
begin

text \<open>
  Whole files of the module interface format: the header that \<open>BuildFileData\<close> puts before
  the payload, the exact set of files \<open>ReadFromData\<close> accepts, the round trip from the writer's
  operations to the reader's, and the theorems of the format.
\<close>

section \<open>The header\<close>

text \<open>A read determines the bytes it reads.\<close>

lemma u16_bytes_inv:
  "ucast (ucast (a :: byte) OR push_bit 8 (ucast (b :: byte)) :: 16 word) = a"
  "ucast (drop_bit 8 (ucast (a :: byte) OR push_bit 8 (ucast (b :: byte)) :: 16 word)) = b"
  by (rule bit_word_eqI; auto simp: bit_simps dest: bit_imp_le_length)+

lemma u32_bytes_inv:
  fixes a b c d :: byte
  defines "v \<equiv> ucast a OR push_bit 8 (ucast b) OR push_bit 16 (ucast c) OR push_bit 24 (ucast d) :: 32 word"
  shows "ucast v = a" "ucast (drop_bit 8 v) = b" "ucast (drop_bit 16 v) = c"
    "ucast (drop_bit 24 v) = d"
  unfolding v_def
  by (rule bit_word_eqI; auto simp: bit_simps dest: bit_imp_le_length)+

lemma u64_halves_inv:
  "ucast (ucast (a :: 32 word) OR push_bit 32 (ucast (b :: 32 word)) :: 64 word) = a"
  "ucast (drop_bit 32 (ucast (a :: 32 word) OR push_bit 32 (ucast (b :: 32 word)) :: 64 word)) = b"
  by (rule bit_word_eqI; auto simp: bit_simps dest: bit_imp_le_length)+

lemma take_drop_Suc: "p < length xs \<Longrightarrow> take (Suc n) (drop p xs) = xs ! p # take n (drop (Suc p) xs)"
  by (metis Cons_nth_drop_Suc take_Suc_Cons)

lemma AddU16_join: "AddU16 [] (ucast a OR push_bit 8 (ucast b)) = [a, b]"
  by (simp only: AddU16_def u16_bytes_inv append_Nil)

lemma AddU32_join:
  "AddU32 [] (ucast a OR push_bit 8 (ucast b) OR push_bit 16 (ucast c) OR push_bit 24 (ucast d))
     = [a, b, c, d]"
  by (simp only: AddU32_def u32_bytes_inv append_Nil)

lemma AddU64_join: "AddU64 [] (ucast a OR push_bit 32 (ucast b)) = AddU32 [] a @ AddU32 [] b"
  by (simp only: AddU64_halves u64_halves_inv)

lemma DqmIfReadU16At_bytes:
  assumes "DqmIfReadU16At data p = Some v"
  shows "take 2 (drop p data) = AddU16 [] v \<and> p + 2 \<le> length data"
proof -
  have le: "p + 2 \<le> length data" and v: "v = ucast (data ! p) OR push_bit 8 (ucast (data ! (p + 1)))"
    using assms by (auto simp: DqmIfReadU16At_def split: if_splits)
  have "AddU16 [] v = [data ! p, data ! (p + 1)]" by (simp only: v AddU16_join)
  with le show ?thesis by (simp add: numeral_eq_Suc take_drop_Suc)
qed

lemma DqmIfReadU32At_bytes:
  assumes "DqmIfReadU32At data p = Some v"
  shows "take 4 (drop p data) = AddU32 [] v \<and> p + 4 \<le> length data"
proof -
  have le: "p + 4 \<le> length data"
    and v: "v = ucast (data ! p) OR push_bit 8 (ucast (data ! (p + 1)))
      OR push_bit 16 (ucast (data ! (p + 2))) OR push_bit 24 (ucast (data ! (p + 3)))"
    using assms by (auto simp: DqmIfReadU32At_def split: if_splits)
  have "AddU32 [] v = [data ! p, data ! (p + 1), data ! (p + 2), data ! (p + 3)]"
    by (simp only: v AddU32_join)
  with le show ?thesis by (simp add: numeral_eq_Suc take_drop_Suc)
qed

lemma take_drop_add: "take (m + n) (drop p xs) = take m (drop p xs) @ take n (drop (p + m) xs)"
  by (simp add: take_add add.commute)

lemma DqmIfReadU64At_bytes:
  assumes "DqmIfReadU64At data p = Some v"
  shows "take 8 (drop p data) = AddU64 [] v" and "p + 8 \<le> length data"
proof -
  obtain lo hi where r: "DqmIfReadU32At data p = Some lo" "DqmIfReadU32At data (p + 4) = Some hi"
    and v: "v = ucast lo OR push_bit 32 (ucast hi)"
    using assms by (auto simp: DqmIfReadU64At_def split: bind_splits)
  have "take (4 + 4) (drop p data) = AddU32 [] lo @ AddU32 [] hi"
    using DqmIfReadU32At_bytes [OF r(1)] DqmIfReadU32At_bytes [OF r(2)] by (simp only: take_drop_add)
  then show "take 8 (drop p data) = AddU64 [] v"
    unfolding v AddU64_join by simp
  show "p + 8 \<le> length data" using DqmIfReadU32At_bytes [OF r(2)] by simp
qed

text \<open>The header as the concatenation of its fields.\<close>

lemma magic_bytes: "fold (\<lambda>c h. AddU8 h c) DQMIF_MAGIC [] = DQMIF_MAGIC"
  by (simp add: DQMIF_MAGIC_def AddU8_def)

lemma header_fields:
  "header_bytes p c = DQMIF_MAGIC @ AddU16 [] 32 @ AddU32 [] DQMIF_VERSION
     @ AddU32 [] (of_nat (length p)) @ AddU64 [] (Checksum p) @ AddU64 [] c"
  unfolding header_bytes_def magic_bytes DQMIF_HEADER_SIZE_def
  by (metis AddU16_app AddU32_app AddU64_app append.assoc of_nat_numeral)

lemma length_MAGIC: "length DQMIF_MAGIC = 6"
  by (simp add: DQMIF_MAGIC_def)

lemma length_header [simp]: "length (header_bytes p c) = 32"
  by (simp add: header_fields length_MAGIC)

lemma clear_csum_eq: "length h = 32 \<Longrightarrow> clear_csum h = take 24 h @ replicate 8 0"
proof -
  assume h: "length h = 32"
  have "[24..<32] = [24, 25, 26, 27, 28, 29, 30, 31::nat]" by (simp add: upt_rec)
  then have "clear_csum h = h[24 := 0, 25 := 0, 26 := 0, 27 := 0, 28 := 0, 29 := 0, 30 := 0, 31 := 0]"
    by (simp add: clear_csum_def)
  also have "\<dots> = take 24 h @ replicate 8 0"
    by (rule nth_equalityI) (auto simp: h nth_list_update nth_append less_Suc_eq numeral_eq_Suc)
  finally show ?thesis .
qed

lemma clear_csum_header: "clear_csum (header_bytes p c) = header_bytes p 0"
proof -
  have "AddU64 [] 0 = replicate 8 0" by (simp add: AddU64_def AddU32_def numeral_eq_Suc)
  moreover have "take 24 (header_bytes p c) = DQMIF_MAGIC @ AddU16 [] 32 @ AddU32 [] DQMIF_VERSION
     @ AddU32 [] (of_nat (length p)) @ AddU64 [] (Checksum p)"
    by (simp add: header_fields length_MAGIC)
  ultimately show ?thesis
    unfolding clear_csum_eq [OF length_header] by (simp add: header_fields)
qed

text \<open>The file for a payload.\<close>

definition file_bytes :: "byte list \<Rightarrow> byte list" where
  "file_bytes p = header_bytes p (Checksum (header_bytes p 0)) @ p"

lemma BuildFileData_ok:
  "wr_Ok w \<Longrightarrow> length (wr_payload w) \<le> UINT32_MAX \<Longrightarrow>
     BuildFileData w = (True, file_bytes (wr_payload w), w)"
  by (simp add: BuildFileData_def file_bytes_def Let_def)

lemma header_reads:
  assumes "data = header_bytes p c @ post"
  shows "take 6 data = DQMIF_MAGIC" and "DqmIfReadU16At data 6 = Some 32"
    and "DqmIfReadU32At data 8 = Some DQMIF_VERSION"
    and "DqmIfReadU32At data 12 = Some (of_nat (length p))"
    and "DqmIfReadU64At data 16 = Some (Checksum p)" and "DqmIfReadU64At data 24 = Some c"
proof -
  let ?m = "DQMIF_MAGIC" and ?h = "AddU16 [] 32" and ?v = "AddU32 [] DQMIF_VERSION"
    and ?l = "AddU32 [] (of_nat (length p))" and ?k = "AddU64 [] (Checksum p)" and ?c = "AddU64 [] c"
  have d: "data = ?m @ ?h @ ?v @ ?l @ ?k @ ?c @ post" by (simp add: assms header_fields)
  show "take 6 data = ?m" by (simp add: d length_MAGIC)
  show "DqmIfReadU16At data 6 = Some 32"
    using DqmIfReadU16At_mid [of ?m 6 32 "?v @ ?l @ ?k @ ?c @ post"] by (simp add: d length_MAGIC)
  show "DqmIfReadU32At data 8 = Some DQMIF_VERSION"
    using DqmIfReadU32At_mid [of "?m @ ?h" 8 DQMIF_VERSION "?l @ ?k @ ?c @ post"]
    by (simp add: d length_MAGIC)
  show "DqmIfReadU32At data 12 = Some (of_nat (length p))"
    using DqmIfReadU32At_mid [of "?m @ ?h @ ?v" 12 "of_nat (length p)" "?k @ ?c @ post"]
    by (simp add: d length_MAGIC)
  show "DqmIfReadU64At data 16 = Some (Checksum p)"
    using DqmIfReadU64At_mid [of "?m @ ?h @ ?v @ ?l" 16 "Checksum p" "?c @ post"]
    by (simp add: d length_MAGIC)
  show "DqmIfReadU64At data 24 = Some c"
    using DqmIfReadU64At_mid [of "?m @ ?h @ ?v @ ?l @ ?k" 24 c post] by (simp add: d length_MAGIC)
qed

definition rd_loaded :: "byte list \<Rightarrow> dqm_reader \<Rightarrow> dqm_reader" where
  "rd_loaded p r = r\<lparr>rd_payload := p, rd_pos := 0, rd_recid := 0, rd_reclen := 0, rd_recpos := 0\<rparr>"

lemma unat_u32_length: "n \<le> UINT32_MAX \<Longrightarrow> unat (of_nat n :: 32 word) = n"
  by (simp add: UINT32_MAX_def unat_of_nat)

lemma version_eq: "DQMIF_MIN_VERSION = DQMIF_VERSION"
  by (simp add: DQMIF_VERSION_def DQMIF_MIN_VERSION_def)

lemma ReadFromData_file:
  assumes "length p \<le> UINT32_MAX"
  shows "ReadFromData (file_bytes p) r = Some (True, rd_loaded p r)"
proof -
  let ?c = "Checksum (header_bytes p 0)"
  have d: "file_bytes p = header_bytes p ?c @ p" by (simp add: file_bytes_def)
  note reads = header_reads [OF d]
  have len: "length (file_bytes p) = 32 + length p" by (simp add: d)
  have split: "take 32 (file_bytes p) = header_bytes p ?c" "drop 32 (file_bytes p) = p"
    by (simp_all add: d)
  show ?thesis
    using unat_u32_length [OF assms]
    by (simp add: ReadFromData_def reads version_eq len split clear_csum_header DQMIF_HEADER_SIZE_def
        rd_loaded_def Let_def)
qed

text \<open>What an accepted file looks like.\<close>

lemma ReadFromData_accepts:
  assumes "ReadFromData data r = Some (True, r')"
  shows "length (drop 32 data) \<le> UINT32_MAX" and "data = file_bytes (drop 32 data)"
    and "r' = rd_loaded (drop 32 data) r"
proof -
  let ?p = "drop 32 data"
  have magic: "take 6 data = DQMIF_MAGIC" and long: "32 \<le> length data"
    using assms by (auto simp: ReadFromData_def rd_Fail_def DQMIF_HEADER_SIZE_def split: if_splits)
  obtain hs where hs: "DqmIfReadU16At data 6 = Some hs" "unat hs = 32"
    using assms by (auto simp: ReadFromData_def rd_Fail_def DQMIF_HEADER_SIZE_def
        split: if_splits bind_splits)
  obtain ver where ver: "DqmIfReadU32At data 8 = Some ver" "\<not> ver < DQMIF_VERSION" "\<not> ver > DQMIF_VERSION"
    using assms hs magic by (auto simp: ReadFromData_def rd_Fail_def DQMIF_HEADER_SIZE_def version_eq
        split: if_splits bind_splits)
  then have ver': "DqmIfReadU32At data 8 = Some DQMIF_VERSION" by simp
  obtain ps where ps: "DqmIfReadU32At data 12 = Some ps" "32 + unat ps = length data"
    using assms hs magic ver' by (auto simp: ReadFromData_def rd_Fail_def DQMIF_HEADER_SIZE_def
        version_eq split: if_splits bind_splits)
  obtain ph hc where ph: "DqmIfReadU64At data 16 = Some ph" and hc: "DqmIfReadU64At data 24 = Some hc"
    using assms hs magic ver' ps by (auto simp: ReadFromData_def rd_Fail_def DQMIF_HEADER_SIZE_def
        version_eq split: if_splits bind_splits)
  have sums: "Checksum (clear_csum (take 32 data)) = hc" "Checksum ?p = ph"
    and r': "r' = rd_loaded ?p r"
    using assms hs magic ver' ps ph hc
    by (auto simp: ReadFromData_def rd_Fail_def DQMIF_HEADER_SIZE_def version_eq rd_loaded_def Let_def
        split: if_splits)
  have "unat ps = length ?p" using ps by simp
  then have p: "ps = of_nat (length ?p)" by (rule unat_eq_of_nat)
  have h32: "hs = 32" using unat_eq_of_nat [OF hs(2)] by simp
  have "take 32 data = take (6 + (2 + (4 + (4 + (8 + 8))))) data" by simp
  also have "\<dots> = take 6 data @ take 2 (drop 6 data) @ take 4 (drop 8 data) @ take 4 (drop 12 data)
      @ take 8 (drop 16 data) @ take 8 (drop 24 data)"
    by (simp only: take_add drop_drop append_assoc) simp
  also have "\<dots> = header_bytes ?p hc"
    using DqmIfReadU16At_bytes [OF hs(1)] DqmIfReadU32At_bytes [OF ver'] DqmIfReadU32At_bytes [OF ps(1)]
      DqmIfReadU64At_bytes(1) [OF ph] DqmIfReadU64At_bytes(1) [OF hc] magic
    by (simp only: header_fields sums(2) h32 p)
  finally have head: "take 32 data = header_bytes ?p hc" .
  have "hc = Checksum (header_bytes ?p 0)" using sums(1) by (simp only: head clear_csum_header)
  with head show "data = file_bytes ?p" by (metis append_take_drop_id file_bytes_def)
  show "length ?p \<le> UINT32_MAX"
  proof -
    have "unat ps < 2 ^ LENGTH(32)" by (rule unsigned_less)
    with ps show ?thesis by (simp add: UINT32_MAX_def)
  qed
  show "r' = rd_loaded ?p r" by (rule r')
qed

text \<open>\<open>ReadFromData\<close> never reads outside the data.\<close>

lemma DqmIfRead_inside:
  "p + 2 \<le> length d \<Longrightarrow> DqmIfReadU16At d p \<noteq> None"
  "p + 4 \<le> length d \<Longrightarrow> DqmIfReadU32At d p \<noteq> None"
  "p + 8 \<le> length d \<Longrightarrow> DqmIfReadU64At d p \<noteq> None"
  by (simp_all add: DqmIfReadU16At_def DqmIfReadU32At_def DqmIfReadU64At_def)

lemma ReadFromData_total: "ReadFromData data r \<noteq> None"
proof (cases "32 \<le> length data")
  case True
  then obtain a b c d e where
    "DqmIfReadU16At data 6 = Some a" "DqmIfReadU32At data 8 = Some b" "DqmIfReadU32At data 12 = Some c"
    "DqmIfReadU64At data 16 = Some d" "DqmIfReadU64At data 24 = Some e"
    using DqmIfRead_inside(1) [of 6 data] DqmIfRead_inside(2) [of 8 data]
      DqmIfRead_inside(2) [of 12 data] DqmIfRead_inside(3) [of 16 data] DqmIfRead_inside(3) [of 24 data]
    by auto
  then show ?thesis by (simp add: ReadFromData_def Let_def del: not_None_eq)
qed (simp add: ReadFromData_def DQMIF_HEADER_SIZE_def)

section \<open>The reader's invariant\<close>

text \<open>
  While no error is set, the position is inside the payload and the current record lies in it.
  A set error ends the reader: nothing is promised then, and the callers stop.
\<close>

definition rd_inv :: "dqm_reader \<Rightarrow> bool" where
  "rd_inv r \<longleftrightarrow> (rd_Ok r \<longrightarrow> rd_pos r \<le> length (rd_payload r)
     \<and> rd_recpos r + unat (rd_reclen r) \<le> length (rd_payload r))"

lemma new_reader_inv: "rd_inv new_reader"
  by (simp add: rd_inv_def new_reader_def)

lemma rd_Fail_inv: "rd_inv r \<Longrightarrow> rd_inv (snd (rd_Fail e r))"
  by (auto simp: rd_inv_def rd_Fail_def rd_Ok_def)

lemma rd_Fail_not_Ok: "\<not> rd_Ok (snd (rd_Fail e r))"
  by (simp add: rd_Fail_def rd_Ok_def)

lemma not_Ok_inv: "\<not> rd_Ok r \<Longrightarrow> rd_inv r"
  by (simp add: rd_inv_def)

lemma NextRec_total: "NextRec r \<noteq> None"
proof (cases "rd_pos r + 4 \<le> length (rd_payload r)")
  case True
  then obtain a b where "DqmIfReadU16At (rd_payload r) (rd_pos r) = Some a"
    "DqmIfReadU16At (rd_payload r) (rd_pos r + 2) = Some b"
    using DqmIfRead_inside(1) [of "rd_pos r" "rd_payload r"]
      DqmIfRead_inside(1) [of "rd_pos r + 2" "rd_payload r"] by auto
  then show ?thesis by (simp add: NextRec_def Let_def del: not_None_eq)
qed (simp add: NextRec_def DQMIF_REC_SIZE_def del: not_None_eq)

lemma NextRec_failure:
  "NextRec r = Some (False, r') \<Longrightarrow> \<not> rd_Ok r' \<and> rd_payload r' = rd_payload r \<and> rd_pos r' = rd_pos r"
  by (auto simp: NextRec_def rd_Ok_def rd_Fail_def Let_def split: if_splits bind_splits)

lemma NextRec_inv:
  assumes "NextRec r = Some (ok, r')"
  shows "rd_inv r' \<and> rd_payload r' = rd_payload r \<and> ok = rd_Ok r'"
proof (cases ok)
  case True
  with assms have "NextRec r = Some (True, r')" by simp
  from NextRec_success [OF this] True show ?thesis by (simp add: rd_inv_def rd_Ok_def)
next
  case False
  with assms NextRec_failure [of r r'] show ?thesis by (simp add: not_Ok_inv)
qed

lemma skip_loop_inv:
  "skip_loop b e depth r = Some (ok, r') \<Longrightarrow> rd_inv r \<Longrightarrow> rd_inv r' \<and> rd_payload r' = rd_payload r"
proof (induction b e depth r rule: skip_loop.induct)
  case (1 b e depth r)
  show ?case
  proof (cases "depth > 0")
    case False
    with 1 show ?thesis by (simp add: skip_loop.simps [of b e depth r])
  next
    case True
    obtain k r1 where n: "NextRec r = Some (k, r1)" using NextRec_total [of r] by auto
    note inv = NextRec_inv [OF n]
    show ?thesis
    proof (cases k)
      case False
      with 1(4) True n inv show ?thesis by (auto simp: skip_loop.simps [of b e depth r])
    next
      case k: True
      let ?d = "if rd_recid r1 = b then depth + 1 else if rd_recid r1 = e then depth - 1 else depth"
      have step: "skip_loop b e depth r = skip_loop b e ?d r1"
        using True n k by (simp add: skip_loop.simps [of b e depth r])
      have "skip_loop b e ?d r1 = Some (ok, r') \<Longrightarrow> rd_inv r1 \<Longrightarrow> rd_inv r' \<and> rd_payload r' = rd_payload r1"
        using 1(1-3) [OF True n refl] k by (cases "rd_recid r1 = b"; cases "rd_recid r1 = e") simp_all
      then show ?thesis using step 1(4) inv by simp
    qed
  qed
qed

lemma skip_loop_total: "skip_loop b e depth r \<noteq> None"
proof (induction b e depth r rule: skip_loop.induct)
  case (1 b e depth r)
  obtain k r1 where n: "NextRec r = Some (k, r1)" using NextRec_total [of r] by auto
  show ?case
  proof (cases "depth > 0 \<and> k")
    case True
    then show ?thesis using 1 n by (simp add: skip_loop.simps [of b e depth r])
  next
    case False
    then show ?thesis using n by (auto simp: skip_loop.simps [of b e depth r])
  qed
qed

text \<open>
  A reader as its clients use it: loaded from some data, then any sequence of operations, each
  called while no error is set.
\<close>

inductive rd_reachable :: "dqm_reader \<Rightarrow> bool" where
  start: "rd_reachable new_reader"
| load: "rd_reachable r \<Longrightarrow> ReadFromData data r = Some (ok, r') \<Longrightarrow> rd_reachable r'"
| next_rec: "rd_reachable r \<Longrightarrow> rd_Ok r \<Longrightarrow> NextRec r = Some (ok, r') \<Longrightarrow> rd_reachable r'"
| expect: "rd_reachable r \<Longrightarrow> rd_Ok r \<Longrightarrow> ExpectEmpty rid r = (ok, r') \<Longrightarrow> rd_reachable r'"
| pair: "rd_reachable r \<Longrightarrow> rd_Ok r \<Longrightarrow> ReadStringPair a b r = Some (ok, a', b', r') \<Longrightarrow> rd_reachable r'"
| u8: "rd_reachable r \<Longrightarrow> rd_Ok r \<Longrightarrow> ReadU8 v8 r = Some (ok, v8', r') \<Longrightarrow> rd_reachable r'"
| u32: "rd_reachable r \<Longrightarrow> rd_Ok r \<Longrightarrow> ReadU32 v32 r = Some (ok, v32', r') \<Longrightarrow> rd_reachable r'"
| u64: "rd_reachable r \<Longrightarrow> rd_Ok r \<Longrightarrow> ReadU64 v64 r = Some (ok, v64', r') \<Longrightarrow> rd_reachable r'"
| skip: "rd_reachable r \<Longrightarrow> rd_Ok r \<Longrightarrow> SkipGroup rb re r = Some (ok, r') \<Longrightarrow> rd_reachable r'"

lemma ReadFromData_inv:
  assumes "ReadFromData data r = Some (ok, r')"
  shows "rd_inv r'"
proof (cases ok)
  case True
  with assms have "ReadFromData data r = Some (True, r')" by simp
  from ReadFromData_accepts(3) [OF this] show ?thesis by (simp add: rd_inv_def rd_loaded_def)
next
  case False
  with assms have "\<not> rd_Ok r'"
    by (auto simp: ReadFromData_def rd_Fail_def rd_Ok_def Let_def split: if_splits bind_splits)
  then show ?thesis by (rule not_Ok_inv)
qed

lemma rd_step_inv:
  assumes "rd_inv r"
  shows "ExpectEmpty rid r = (ok, r') \<Longrightarrow> rd_inv r'"
    and "ReadStringPair a b r = Some (ok, a', b', r') \<Longrightarrow> rd_inv r'"
    and "ReadU8 v8 r = Some (ok, v8', r') \<Longrightarrow> rd_inv r'"
    and "ReadU32 v32 r = Some (ok, v32', r') \<Longrightarrow> rd_inv r'"
    and "ReadU64 v64 r = Some (ok, v64', r') \<Longrightarrow> rd_inv r'"
    and "SkipGroup rb re r = Some (ok, r') \<Longrightarrow> rd_inv r'"
proof -
  have fail: "rd_Fail e r = (ok, r') \<Longrightarrow> rd_inv r'" for e ok
    using rd_Fail_inv [OF assms, of e] by simp
  show "ExpectEmpty rid r = (ok, r') \<Longrightarrow> rd_inv r'"
    using assms by (auto simp: ExpectEmpty_def dest: fail split: if_splits)
  show "ReadStringPair a b r = Some (ok, a', b', r') \<Longrightarrow> rd_inv r'"
    using assms by (auto simp: ReadStringPair_def Let_def dest: fail split: if_splits prod.splits)
  show "ReadU8 v8 r = Some (ok, v8', r') \<Longrightarrow> rd_inv r'"
    using assms by (auto simp: ReadU8_def dest: fail split: if_splits prod.splits)
  show "ReadU32 v32 r = Some (ok, v32', r') \<Longrightarrow> rd_inv r'"
    using assms by (auto simp: ReadU32_def dest: fail split: if_splits prod.splits bind_splits)
  show "ReadU64 v64 r = Some (ok, v64', r') \<Longrightarrow> rd_inv r'"
    using assms by (auto simp: ReadU64_def dest: fail split: if_splits prod.splits bind_splits)
  show "SkipGroup rb re r = Some (ok, r') \<Longrightarrow> rd_inv r'"
    using assms skip_loop_inv [of rb re 1 r ok r']
    by (auto simp: SkipGroup_def dest: fail split: if_splits)
qed

lemma rd_reachable_inv: "rd_reachable r \<Longrightarrow> rd_inv r"
proof (induction rule: rd_reachable.induct)
  case (next_rec r ok r')
  then show ?case using NextRec_inv by blast
qed (blast intro: new_reader_inv ReadFromData_inv rd_step_inv)+

lemma rd_inv_reads:
  assumes "rd_inv r" and "rd_Ok r"
  shows "ReadString s r \<noteq> None" "ReadBlob s r \<noteq> None" "ReadStringPair s t r \<noteq> None"
    "ReadU8 v8 r \<noteq> None" "ReadU32 v32 r \<noteq> None" "ReadI32 i r \<noteq> None" "ReadU64 v64 r \<noteq> None"
    "ReadI64 i r \<noteq> None"
proof -
  have le: "rd_recpos r + unat (rd_reclen r) \<le> length (rd_payload r)"
    using assms by (simp add: rd_inv_def)
  show "ReadString s r \<noteq> None" "ReadBlob s r \<noteq> None" "ReadU8 v8 r \<noteq> None"
    using le by (auto simp: ReadString_def ReadBlob_def ReadU8_def split: prod.splits)
  show "ReadStringPair s t r \<noteq> None"
    using le by (simp add: ReadStringPair_def Let_def split: prod.splits del: not_None_eq)
  show u32: "ReadU32 v r \<noteq> None" for v
    using le DqmIfRead_inside(2) [of "rd_recpos r" "rd_payload r"]
    by (cases "rd_reclen r = 4") (auto simp: ReadU32_def rd_Fail_def simp del: not_None_eq)
  show u64: "ReadU64 v r \<noteq> None" for v
    using le DqmIfRead_inside(3) [of "rd_recpos r" "rd_payload r"]
    by (cases "rd_reclen r = 8") (auto simp: ReadU64_def rd_Fail_def simp del: not_None_eq)
  show "ReadI32 i r \<noteq> None" using u32 [of 0] by (auto simp: ReadI32_def)
  show "ReadI64 i r \<noteq> None" using u64 [of 0] by (auto simp: ReadI64_def)
qed

section \<open>Writing and reading a whole file\<close>

text \<open>A client that writes a list of records, and one that reads records up to the end.\<close>

definition write_recs :: "rec_item list \<Rightarrow> dqm_writer \<Rightarrow> dqm_writer" where
  "write_recs xs w = fold (\<lambda>(rid, d) w. snd (AddRecVec rid d w)) xs w"

fun read_recs :: "nat \<Rightarrow> dqm_reader \<Rightarrow> (rec_item list \<times> dqm_reader) option" where
  "read_recs n r =
     (if rd_Eof r then Some ([], r)
      else case n of
        0 \<Rightarrow> None
      | Suc m \<Rightarrow> do {
          (ok, r1) \<leftarrow> NextRec r;
          if \<not> ok then None
          else do {
            (_, d, r2) \<leftarrow> ReadBlob [] r1;
            (xs, r3) \<leftarrow> read_recs m r2;
            Some ((rd_recid r1, d) # xs, r3) } })"

declare read_recs.simps [simp del]

lemma write_recs_stream:
  "wr_Ok w \<Longrightarrow> wr_stream w done \<Longrightarrow> list_all rec_fits xs \<Longrightarrow>
     wr_Ok (write_recs xs w) \<and> wr_stream (write_recs xs w) (done @ xs)"
proof (induction xs arbitrary: w "done")
  case Nil
  then show ?case by (simp add: write_recs_def)
next
  case (Cons x xs)
  obtain rid d where x: "x = (rid, d)" by (cases x)
  obtain w' where w': "AddRec rid (Some d) (length d) w = (True, w')" "wr_Ok w'"
    "wr_stream w' (done @ [(rid, d)])"
    using AddRec_stream [of w "done" rid d] Cons.prems x by auto
  then have "write_recs (x # xs) w = write_recs xs w'"
    by (simp add: write_recs_def x AddRecVec_def)
  then show ?case using Cons.IH [of w' "done @ [x]"] Cons.prems w' x by simp
qed

lemma read_recs_stream:
  "rd_stream r done todo \<Longrightarrow> length todo \<le> n \<Longrightarrow>
     \<exists>r'. read_recs n r = Some (todo, r') \<and> rd_stream r' (done @ todo) []"
proof (induction todo arbitrary: n r "done")
  case Nil
  then show ?case using NextRec_at_end [of r "done"] by (simp add: read_recs.simps [of n r])
next
  case (Cons x todo)
  obtain m where n: "n = Suc m" using Cons.prems(2) by (cases n) auto
  obtain r1 where r1: "NextRec r = Some (True, r1)" "rd_stream r1 (done @ [x]) todo" "rd_current r1 x"
    using NextRec_stream [OF Cons.prems(1)] by blast
  have blob: "ReadBlob [] r1 = Some (True, snd x, r1)" "rd_recid r1 = fst x"
    using r1(3) ReadBlob_current [of r1 "fst x" "snd x"] by (simp_all add: rd_current_def)
  obtain r2 where "read_recs m r1 = Some (todo, r2)" "rd_stream r2 ((done @ [x]) @ todo) []"
    using Cons.IH [OF r1(2), of m] Cons.prems(2) n by auto
  then show ?case
    using not_Eof_stream [OF Cons.prems(1)] r1 blob n by (simp add: read_recs.simps [of "Suc m" r])
qed

lemma rd_loaded_stream:
  "list_all rec_fits xs \<Longrightarrow> rd_Ok r \<Longrightarrow> rd_stream (rd_loaded (stream_bytes xs) r) [] xs"
  by (simp add: rd_stream_def rd_loaded_def rd_Ok_def)

section \<open>Theorems\<close>

text \<open>C4: Writing any list of records whose data fit the 16-bit length field, building the file,
  loading it in a fresh reader and reading records up to the end returns exactly the written
  list, without an error and with the whole payload consumed.\<close>

theorem dqm_file_roundtrip:
  assumes "list_all rec_fits xs" and "length (stream_bytes xs) \<le> UINT32_MAX"
  shows "\<exists>data r r'. BuildFileData (write_recs xs new_writer) = (True, data, write_recs xs new_writer)
    \<and> ReadFromData data new_reader = Some (True, r)
    \<and> read_recs (length xs) r = Some (xs, r') \<and> rd_Ok r' \<and> rd_pos r' = length (rd_payload r')"
proof -
  let ?w = "write_recs xs new_writer"
  have w: "wr_Ok ?w" "wr_payload ?w = stream_bytes xs"
    using write_recs_stream [of new_writer "[]" xs] assms(1)
    by (simp_all add: wr_stream_def new_writer_def wr_Ok_def)
  have rd: "ReadFromData (file_bytes (stream_bytes xs)) new_reader
      = Some (True, rd_loaded (stream_bytes xs) new_reader)"
    by (rule ReadFromData_file [OF assms(2)])
  have ok: "rd_Ok new_reader" by (simp add: rd_Ok_def new_reader_def)
  from read_recs_stream [OF rd_loaded_stream [OF assms(1) ok] order_refl]
  obtain r' where "read_recs (length xs) (rd_loaded (stream_bytes xs) new_reader) = Some (xs, r')"
    "rd_stream r' xs []" by auto
  with w rd BuildFileData_ok [of ?w] assms(2) show ?thesis by (auto simp: rd_stream_def)
qed

lemma dqm_file_roundtrip_witness:
  "\<exists>data r r'. BuildFileData (write_recs [(0x0200, [0x61, 0x62]), (0x02FF, [])] new_writer)
      = (True, data, write_recs [(0x0200, [0x61, 0x62]), (0x02FF, [])] new_writer)
    \<and> ReadFromData data new_reader = Some (True, r)
    \<and> read_recs (length [(0x0200 :: recid, [0x61, 0x62 :: byte]), (0x02FF, [])]) r
        = Some ([(0x0200, [0x61, 0x62]), (0x02FF, [])], r')
    \<and> rd_Ok r' \<and> rd_pos r' = length (rd_payload r')"
  by (rule dqm_file_roundtrip) (simp_all add: rec_fits_def UINT16_MAX_def UINT32_MAX_def length_rec_bytes align4_eq)

text \<open>C13: \<open>ReadFromData\<close> reads inside the data on every input, and accepts exactly the files that
  \<open>BuildFileData\<close> can produce: the header computed from the payload, then the payload; the
  reader then stands before the first record of that payload.\<close>

theorem dqm_accepts_exactly_built_files:
  "ReadFromData data r \<noteq> None \<and>
   (ReadFromData data r = Some (True, r') \<longleftrightarrow>
     (\<exists>w. wr_Ok w \<and> BuildFileData w = (True, data, w) \<and> r' = rd_loaded (wr_payload w) r))"
proof (intro conjI iffI)
  show "ReadFromData data r \<noteq> None" by (rule ReadFromData_total)
  assume a: "ReadFromData data r = Some (True, r')"
  let ?w = "new_writer\<lparr>wr_payload := drop 32 data\<rparr>"
  have "BuildFileData ?w = (True, data, ?w)"
    using BuildFileData_ok [of ?w] ReadFromData_accepts(1,2) [OF a]
    by (simp add: wr_Ok_def new_writer_def)
  with ReadFromData_accepts(3) [OF a]
  show "\<exists>w. wr_Ok w \<and> BuildFileData w = (True, data, w) \<and> r' = rd_loaded (wr_payload w) r"
    by (intro exI [of _ ?w]) (simp add: wr_Ok_def new_writer_def)
next
  assume "\<exists>w. wr_Ok w \<and> BuildFileData w = (True, data, w) \<and> r' = rd_loaded (wr_payload w) r"
  then obtain w where w: "wr_Ok w" "BuildFileData w = (True, data, w)" "r' = rd_loaded (wr_payload w) r"
    by blast
  then have len: "length (wr_payload w) \<le> UINT32_MAX"
    by (auto simp: BuildFileData_def wr_Fail_def split: if_splits)
  from w len BuildFileData_ok have "data = file_bytes (wr_payload w)" by simp
  with w ReadFromData_file [OF len] show "ReadFromData data r = Some (True, r')" by simp
qed

text \<open>C27: Memory safety of the reader: whatever bytes were loaded and whatever operations were
  called, as long as no error is set every read of the current record lies inside the payload.\<close>

theorem dqm_reader_memory_safe:
  assumes "rd_reachable r" and "rd_Ok r"
  shows "NextRec r \<noteq> None \<and> ReadString s r \<noteq> None \<and> ReadBlob s r \<noteq> None
    \<and> ReadStringPair s t r \<noteq> None \<and> ReadU8 v8 r \<noteq> None \<and> ReadU32 v32 r \<noteq> None
    \<and> ReadI32 i r \<noteq> None \<and> ReadU64 v64 r \<noteq> None \<and> ReadI64 i r \<noteq> None \<and> SkipGroup b e r \<noteq> None"
  using rd_inv_reads [OF rd_reachable_inv [OF assms(1)] assms(2)] NextRec_total
    skip_loop_total [of b e 1 r]
  by (simp add: SkipGroup_def del: not_None_eq)

lemma dqm_reader_memory_safe_witness:
  "\<exists>r. rd_payload r = [0, 1, 3, 0, 9, 8, 7, 0] \<and>
    NextRec r \<noteq> None \<and> ReadString [] r \<noteq> None \<and> ReadBlob [] r \<noteq> None
    \<and> ReadStringPair [] [] r \<noteq> None \<and> ReadU8 0 r \<noteq> None
    \<and> ReadU32 0 r \<noteq> None \<and> ReadI32 0 r \<noteq> None \<and> ReadU64 0 r \<noteq> None
    \<and> ReadI64 0 r \<noteq> None \<and> SkipGroup 0 1 r \<noteq> None"
proof (intro exI conjI)
  let ?p = "[0, 1, 3, 0, 9, 8, 7, 0]" and ?r = "rd_loaded [0, 1, 3, 0, 9, 8, 7, 0] new_reader"
  show "rd_payload ?r = ?p" by (simp add: rd_loaded_def)
  have "rd_reachable ?r"
    using rd_reachable.load [OF rd_reachable.start ReadFromData_file [of ?p new_reader]]
    by (simp add: UINT32_MAX_def)
  moreover have "rd_Ok ?r" by (simp add: rd_loaded_def rd_Ok_def new_reader_def)
  ultimately show "NextRec ?r \<noteq> None" "ReadString [] ?r \<noteq> None" "ReadBlob [] ?r \<noteq> None"
    "ReadStringPair [] [] ?r \<noteq> None" "ReadU8 0 ?r \<noteq> None" "ReadU32 0 ?r \<noteq> None"
    "ReadI32 0 ?r \<noteq> None" "ReadU64 0 ?r \<noteq> None" "ReadI64 0 ?r \<noteq> None" "SkipGroup 0 1 ?r \<noteq> None"
    using dqm_reader_memory_safe [of ?r "[]" "[]" 0 0 0 0 0 1] by blast+
qed

text \<open>
  A value is read back when the operation that appends it succeeds and a reader of the new
  payload, standing where the old payload ended, finds the record id and the value.
\<close>

definition reads_back :: "dqm_writer \<Rightarrow> (dqm_writer \<Rightarrow> bool \<times> dqm_writer)
    \<Rightarrow> (dqm_reader \<Rightarrow> (bool \<times> 'a \<times> dqm_reader) option) \<Rightarrow> recid \<Rightarrow> 'a \<Rightarrow> bool" where
  "reads_back w add rd rid v =
     (case add w of (ok, w') \<Rightarrow> ok \<and>
       (case NextRec ((rd_loaded (wr_payload w') new_reader)\<lparr>rd_pos := length (wr_payload w)\<rparr>) of
          Some (True, r) \<Rightarrow> rd_recid r = rid \<and> rd r = Some (True, v, r)
        | _ \<Rightarrow> False))"

lemma reads_backI:
  assumes "wr_Ok w" and "wr_stream w xs" and "rec_fits (rid, d)"
    and "add w = AddRec rid (Some d) (length d) w"
    and "\<And>r. rd_current r (rid, d) \<Longrightarrow> rd r = Some (True, v, r)"
  shows "reads_back w add rd rid v"
proof -
  obtain w' where w': "add w = (True, w')" "wr_stream w' (xs @ [(rid, d)])"
    using AddRec_stream [OF assms(1-3)] assms(4) by auto
  let ?r = "(rd_loaded (wr_payload w') new_reader)\<lparr>rd_pos := length (wr_payload w)\<rparr>"
  have "rd_stream ?r xs [(rid, d)]"
    using w'(2) assms(2) by (simp add: rd_stream_def wr_stream_def rd_loaded_def rd_Ok_def new_reader_def)
  from NextRec_stream [OF this] obtain r where "NextRec ?r = Some (True, r)" "rd_current r (rid, d)"
    by blast
  with w'(1) assms(5) [of r] show ?thesis by (simp add: reads_back_def rd_current_def)
qed

lemma sint_of_range32: "- (2 ^ 31) \<le> i \<Longrightarrow> i < 2 ^ 31 \<Longrightarrow> sint (word_of_int i :: 32 word) = i"
  by (simp add: sint_sbintrunc' signed_take_bit_int_eq_self_iff)

lemma sint_of_range64: "- (2 ^ 63) \<le> i \<Longrightarrow> i < 2 ^ 63 \<Longrightarrow> sint (word_of_int i :: 64 word) = i"
  by (simp add: sint_sbintrunc' signed_take_bit_int_eq_self_iff)

text \<open>C38: After any writes without error, each kind of value an operation appends is what the
  reading operation of the same kind gives back: bytes, strings, string pairs, and the
  fixed-width integers, the signed ones over their whole range.\<close>

theorem dqm_value_roundtrip:
  assumes "wr_Ok w" and "wr_stream w xs"
    and "length d \<le> UINT16_MAX" and "- (2 ^ 31) \<le> i" and "i < 2 ^ 31" and "- (2 ^ 63) \<le> j" and "j < 2 ^ 63"
    and "0 \<notin> set a" and "a \<noteq> []" and "b \<noteq> []" and "length a + 1 + length b \<le> UINT16_MAX"
  shows "reads_back w (AddRecVec rid d) (ReadBlob x) rid d
    \<and> reads_back w (AddRecStr rid d) (ReadString x) rid d
    \<and> reads_back w (AddRecStringPair rid a b) (\<lambda>r. map_option (\<lambda>(ok, p, q, r'). (ok, (p, q), r'))
        (ReadStringPair x y r)) rid (a, b)
    \<and> reads_back w (AddRecU8 rid v8) (ReadU8 x8) rid v8
    \<and> reads_back w (AddRecU32 rid v32) (ReadU32 x32) rid v32
    \<and> reads_back w (AddRecU64 rid v64) (ReadU64 x64) rid v64
    \<and> reads_back w (AddRecI32 rid i) (ReadI32 z) rid i
    \<and> reads_back w (AddRecI64 rid j) (ReadI64 z) rid j"
proof (intro conjI)
  note rb = reads_backI [OF assms(1,2)]
  have fits: "rec_fits (rid, d)" "rec_fits (rid, (a @ [0]) @ b)" "rec_fits (rid, [v8])"
    "rec_fits (rid, AddU32 [] u)" "rec_fits (rid, AddU64 [] v)" for u v
    using assms(3,11) by (simp_all add: rec_fits_def UINT16_MAX_def)
  show "reads_back w (AddRecVec rid d) (ReadBlob x) rid d"
    by (rule rb [OF fits(1)]) (simp_all add: writer_recs ReadBlob_current)
  show "reads_back w (AddRecStr rid d) (ReadString x) rid d"
    by (rule rb [OF fits(1)]) (simp_all add: writer_recs ReadString_current)
  show "reads_back w (AddRecStringPair rid a b) (\<lambda>r. map_option (\<lambda>(ok, p, q, r'). (ok, (p, q), r'))
      (ReadStringPair x y r)) rid (a, b)"
    using ReadStringPair_current [of _ rid a b x y] assms(8-10)
    by (intro rb [OF fits(2)]) (simp_all add: AddRecStringPair_def Let_def)
  show "reads_back w (AddRecU8 rid v8) (ReadU8 x8) rid v8"
    by (rule rb [OF fits(3)]) (simp_all add: writer_recs ReadU8_current)
  show "reads_back w (AddRecU32 rid v32) (ReadU32 x32) rid v32"
    by (rule rb [OF fits(4)]) (simp add: writer_recs, erule ReadU32_current)
  show "reads_back w (AddRecU64 rid v64) (ReadU64 x64) rid v64"
    by (rule rb [OF fits(5)]) (simp add: writer_recs, erule ReadU64_current)
  show "reads_back w (AddRecI32 rid i) (ReadI32 z) rid i"
    using sint_of_range32 [OF assms(4,5)]
    by (intro rb [OF fits(4) [of "word_of_int i"]]) (simp_all add: writer_recs ReadI32_def ReadU32_current)
  show "reads_back w (AddRecI64 rid j) (ReadI64 z) rid j"
    using sint_of_range64 [OF assms(6,7)]
    by (intro rb [OF fits(5) [of "word_of_int j"]]) (simp_all add: writer_recs ReadI64_def ReadU64_current)
qed

lemma dqm_value_roundtrip_witness:
  "reads_back new_writer (AddRecI32 5 (- 7)) (ReadI32 0) 5 (- 7)"
  using dqm_value_roundtrip [of new_writer "[]" "[1]" "- 7" "- 9" "[1]" "[2]" 5]
  by (simp add: wr_Ok_def new_writer_def wr_stream_def UINT16_MAX_def)

text \<open>C39: \<open>SkipGroup\<close>, called on the begin record of a group, reads to the matching end record
  however deeply groups of the same kind are nested inside, and leaves the reader exactly before
  the record that follows the group.\<close>

theorem dqm_skip_group_balanced:
  assumes "rd_stream r past (flat b e (Group d items d') @ todo)" and "b \<noteq> e"
    and "list_all (group_ok b e) items"
  shows "\<exists>r1 r2. NextRec r = Some (True, r1) \<and> SkipGroup b e r1 = Some (True, r2)
    \<and> rd_stream r2 (past @ flat b e (Group d items d')) todo \<and> rd_current r2 (e, d')"
proof -
  obtain r1 where r1: "NextRec r = Some (True, r1)" "rd_current r1 (b, d)"
    "rd_stream r1 (past @ [(b, d)]) (flats b e items @ (e, d') # todo)"
    using NextRec_stream [of r past "(b, d)"] assms(1) by auto
  obtain r2 where r2: "skip_loop b e 1 r1 = skip_loop b e 1 r2"
    "rd_stream r2 ((past @ [(b, d)]) @ flats b e items) ((e, d') # todo)"
    using skip_loop_flats [OF assms(3,2) r1(3), of 1] by auto
  obtain r3 where "skip_loop b e 1 r2 = skip_loop b e 0 r3" "rd_current r3 (e, d')"
    "rd_stream r3 (((past @ [(b, d)]) @ flats b e items) @ [(e, d')]) todo"
    using skip_loop_step [OF r2(2), of 1 b e] assms(2) by auto
  with r1 r2 show ?thesis
    by (auto simp: SkipGroup_def rd_current_def [of r1] skip_loop.simps [of b e 0])
qed

lemma dqm_skip_group_balanced_witness:
  "\<exists>r1 r2. NextRec (rd_loaded (stream_bytes (flat 1 2 (Group [] [Group [] [] []] []) @ [(3, [4])])) new_reader)
      = Some (True, r1) \<and> SkipGroup 1 2 r1 = Some (True, r2)
    \<and> rd_stream r2 ([] @ flat 1 2 (Group [] [Group [] [] []] [])) [(3, [4])] \<and> rd_current r2 (2, [])"
  by (rule dqm_skip_group_balanced, rule rd_loaded_stream)
    (simp_all add: rec_fits_def UINT16_MAX_def rd_Ok_def new_reader_def)

text \<open>The payload alone determines the records: two lists of records that fit and are written
  to the same bytes are the same list.\<close>

lemma dqm_stream_unambiguous:
  assumes "wr_stream w xs" and "wr_stream w ys"
  shows "xs = ys"
  using assms by (auto simp: wr_stream_def intro: recs.concat_enc_unambiguous)

end
