(* ===== verification/Cursor.thy ===== *)
theory Cursor
  imports Prelude "HOL-Library.Char_ord"
begin

text \<open>
  Text scanning, shared by the light parser \<open>TStrParseObj\<close> and the source feeder
  \<open>OScFeederBase\<close>: character classes, the loops both are made of, and the contract
  \<open>scanner\<close> of an operation that moves a read position through a buffer. A pointer into a
  buffer is its offset; the end pointer is the length of the buffer.
\<close>

section \<open>Character classes\<close>

abbreviation LF :: char where "LF \<equiv> CHR 0x0A"
abbreviation CR :: char where "CR \<equiv> CHR 0x0D"
abbreviation TAB :: char where "TAB \<equiv> CHR 0x09"
abbreviation DQUOTE :: char where "DQUOTE \<equiv> CHR 0x22"
abbreviation SQUOTE :: char where "SQUOTE \<equiv> CHR 0x27"
abbreviation BACKSLASH :: char where "BACKSLASH \<equiv> CHR 0x5C"

definition is_dec :: "char \<Rightarrow> bool" where
  "is_dec c \<longleftrightarrow> CHR ''0'' \<le> c \<and> c \<le> CHR ''9''"

definition is_hex :: "char \<Rightarrow> bool" where
  "is_hex c \<longleftrightarrow> is_dec c \<or> (CHR ''A'' \<le> c \<and> c \<le> CHR ''F'') \<or> (CHR ''a'' \<le> c \<and> c \<le> CHR ''f'')"

definition is_alpha_under :: "char \<Rightarrow> bool" where
  "is_alpha_under c \<longleftrightarrow>
     (CHR ''A'' \<le> c \<and> c \<le> CHR ''Z'') \<or> (CHR ''a'' \<le> c \<and> c \<le> CHR ''z'') \<or> c = CHR ''_''"

definition is_blank :: "bool \<Rightarrow> char \<Rightarrow> bool" where
  "is_blank lineend c \<longleftrightarrow> c = CHR '' '' \<or> c = TAB \<or> lineend \<and> (c = CR \<or> c = LF)"

abbreviation char_nat :: "char \<Rightarrow> nat" where "char_nat c \<equiv> of_char c"

text \<open>The value of a \<open>char\<close> of the code, which is signed on the compiler's hosts.\<close>

definition schar :: "char \<Rightarrow> int" where
  "schar c = (if char_nat c < 128 then int (char_nat c) else int (char_nat c) - 256)"

text \<open>The value of a hexadecimal digit, -1 for any other character.\<close>

definition HexDigitValue :: "char \<Rightarrow> int" where
  "HexDigitValue c =
     (if CHR ''0'' \<le> c \<and> c \<le> CHR ''9'' then int (char_nat c) - int (char_nat CHR ''0'')
      else if CHR ''a'' \<le> c \<and> c \<le> CHR ''f'' then int (char_nat c) - int (char_nat CHR ''a'') + 10
      else if CHR ''A'' \<le> c \<and> c \<le> CHR ''F'' then int (char_nat c) - int (char_nat CHR ''A'') + 10
      else -1)"

lemma HexDigitValue_nonneg: "0 \<le> HexDigitValue c \<longleftrightarrow> is_hex c"
  by (auto simp: HexDigitValue_def is_hex_def is_dec_def less_eq_char_def)

lemma HexDigitValue_bound: "HexDigitValue c < 16"
  by (auto simp: HexDigitValue_def less_eq_char_def)

section \<open>Scanning loops\<close>

text \<open>\<open>while ((cp < bufend) && P(*cp)) ++cp\<close>\<close>

function scan_while :: "(char \<Rightarrow> bool) \<Rightarrow> string \<Rightarrow> nat \<Rightarrow> nat" where
  "scan_while P buf cp =
     (if cp < length buf \<and> P (buf ! cp) then scan_while P buf (Suc cp) else cp)"
  by pat_completeness auto
termination by (relation "measure (\<lambda>(_, buf, cp). length buf - cp)") auto

declare scan_while.simps [simp del]

text \<open>
  \<open>while ((csptr < csend) && (cp < bufend) && (*csptr == *cp))\<close>: what is left of the string
  to match, and the position reached.
\<close>

fun check_loop :: "string \<Rightarrow> string \<Rightarrow> nat \<Rightarrow> string \<times> nat" where
  "check_loop [] buf cp = ([], cp)"
| "check_loop (c # cs) buf cp =
     (if cp < length buf \<and> c = buf ! cp then check_loop cs buf (Suc cp) else (c # cs, cp))"

text \<open>The inner loop of a pattern search; the caller has checked that the pattern fits.\<close>

fun pattern_at :: "string \<Rightarrow> string \<Rightarrow> nat \<Rightarrow> bool" where
  "pattern_at [] buf cp = True"
| "pattern_at (c # cs) buf cp = (if buf ! cp \<noteq> c then False else pattern_at cs buf (Suc cp))"

lemma scan_while_ge: "cp \<le> scan_while P buf cp"
proof (induction P buf cp rule: scan_while.induct)
  case (1 P buf cp)
  then show ?case by (subst scan_while.simps) auto
qed

lemma scan_while_eq: "cp \<le> length buf \<Longrightarrow> scan_while P buf cp = cp + run_length P (drop cp buf)"
proof (induction P buf cp rule: scan_while.induct)
  case (1 P buf cp)
  show ?case
  proof (cases "cp < length buf")
    case True
    then have "drop cp buf = buf ! cp # drop (Suc cp) buf" by (simp add: Cons_nth_drop_Suc)
    with True 1 show ?thesis by (subst scan_while.simps) simp
  next
    case False
    with 1 show ?thesis by (subst scan_while.simps) simp
  qed
qed

lemma scan_while_le: "cp \<le> length buf \<Longrightarrow> scan_while P buf cp \<le> length buf"
  by (simp add: scan_while_eq run_length_drop_le)

lemma scan_while_all: "cp \<le> i \<Longrightarrow> i < scan_while P buf cp \<Longrightarrow> i < length buf \<and> P (buf ! i)"
proof (induction P buf cp rule: scan_while.induct)
  case (1 P buf cp)
  then show ?case
    by (cases "i = cp"; cases "cp < length buf \<and> P (buf ! cp)") (auto simp: scan_while.simps [of P buf cp])
qed

lemma scan_while_stop:
  "scan_while P buf cp < length buf \<Longrightarrow> \<not> P (buf ! scan_while P buf cp)"
proof (induction P buf cp rule: scan_while.induct)
  case (1 P buf cp)
  then show ?case by (cases "cp < length buf \<and> P (buf ! cp)") (auto simp: scan_while.simps [of P buf cp])
qed

lemma scan_while_progress:
  "cp < length buf \<Longrightarrow> P (buf ! cp) \<Longrightarrow> cp < scan_while P buf cp"
  using scan_while_ge [of "Suc cp" P buf] by (simp add: scan_while.simps [of P buf cp])

lemma check_loop_eq:
  "cp \<le> length buf \<Longrightarrow>
     (fst (check_loop cs buf cp) = [] \<longleftrightarrow> (\<exists>rest. drop cp buf = cs @ rest))
     \<and> (fst (check_loop cs buf cp) = [] \<longrightarrow> snd (check_loop cs buf cp) = cp + length cs
          \<and> cp + length cs \<le> length buf)"
proof (induction cs buf cp rule: check_loop.induct)
  case (1 buf cp)
  then show ?case by simp
next
  case (2 c cs buf cp)
  show ?case
  proof (cases "cp < length buf")
    case True
    then have "drop cp buf = buf ! cp # drop (Suc cp) buf" by (simp add: Cons_nth_drop_Suc)
    with True 2 show ?thesis by auto
  qed (use 2 in auto)
qed

lemma pattern_at_eq:
  "cp + length cs \<le> length buf \<Longrightarrow> pattern_at cs buf cp \<longleftrightarrow> take (length cs) (drop cp buf) = cs"
proof (induction cs buf cp rule: pattern_at.induct)
  case (2 c cs buf cp)
  then have "drop cp buf = buf ! cp # drop (Suc cp) buf" by (simp add: Cons_nth_drop_Suc)
  with 2 show ?case by auto
qed simp

section \<open>The contract of a scanning operation\<close>

text \<open>
  A scanning operation keeps the buffer, keeps the parser good, and never moves the read position
  backwards or past the end. From this every client gets: the text splits into what was consumed
  and what is left, repeated calls stay inside the buffer, and at most as many calls make progress
  as there are characters.
\<close>

locale scanner =
  fixes buf :: "'s \<Rightarrow> 'c list" and pos :: "'s \<Rightarrow> nat" and good :: "'s \<Rightarrow> bool"
    and act :: "'s \<Rightarrow> 'r \<times> 's"
  assumes good_pos: "good s \<Longrightarrow> pos s \<le> length (buf s)"
    and act_good: "good s \<Longrightarrow> good (snd (act s))"
    and act_buf: "good s \<Longrightarrow> buf (snd (act s)) = buf s"
    and act_mono: "good s \<Longrightarrow> pos s \<le> pos (snd (act s))"
begin

lemma act_inside: "good s \<Longrightarrow> pos (snd (act s)) \<le> length (buf s)"
  using good_pos [of "snd (act s)"] act_good act_buf by simp

lemma act_splits:
  "good s \<Longrightarrow> drop (pos s) (buf s)
     = take (pos (snd (act s)) - pos s) (drop (pos s) (buf s)) @ drop (pos (snd (act s))) (buf s)"
  using act_mono [of s] by (metis append_take_drop_id drop_drop le_add_diff_inverse2)

lemma iterate_good:
  "good s \<Longrightarrow> good (((\<lambda>s. snd (act s)) ^^ n) s) \<and> buf (((\<lambda>s. snd (act s)) ^^ n) s) = buf s
     \<and> pos s \<le> pos (((\<lambda>s. snd (act s)) ^^ n) s)"
proof (induction n)
  case (Suc n)
  then show ?case using act_good act_buf act_mono by (auto intro: order_trans)
qed simp

text \<open>If every call made progress, there could only be as many calls as characters left.\<close>

lemma progress_bounded:
  assumes "good s"
    and "\<And>k. k < n \<Longrightarrow> pos (((\<lambda>s. snd (act s)) ^^ k) s) < pos (((\<lambda>s. snd (act s)) ^^ Suc k) s)"
  shows "n \<le> length (buf s) - pos s"
proof -
  have "pos s + n \<le> pos (((\<lambda>s. snd (act s)) ^^ n) s)"
    using assms(2)
  proof (induction n)
    case (Suc n)
    have "pos s + n \<le> pos (((\<lambda>s. snd (act s)) ^^ n) s)" using Suc.IH Suc.prems less_Suc_eq by blast
    moreover have "pos (((\<lambda>s. snd (act s)) ^^ n) s) < pos (((\<lambda>s. snd (act s)) ^^ Suc n) s)"
      using Suc.prems by blast
    ultimately show ?case by linarith
  qed simp
  then show ?thesis
    using iterate_good [OF assms(1), of n] good_pos [of "((\<lambda>s. snd (act s)) ^^ n) s"] by auto
qed

end

text \<open>Two operations of the same parser, one after the other, are again such an operation.\<close>

locale scanner_pair = first: scanner buf pos good act + second: scanner buf pos good act2
  for buf :: "'s \<Rightarrow> 'c list" and pos :: "'s \<Rightarrow> nat" and good :: "'s \<Rightarrow> bool"
    and act :: "'s \<Rightarrow> 'r \<times> 's" and act2 :: "'s \<Rightarrow> 'q \<times> 's"

sublocale scanner_pair \<subseteq> both: scanner buf pos good "\<lambda>s. act2 (snd (act s))"
  by unfold_locales
    (auto simp: first.good_pos first.act_good second.act_good second.act_buf first.act_buf
      intro: order_trans [OF first.act_mono second.act_mono])

end
