(* ===== verification/Str_Parse.thy ===== *)
theory Str_Parse
  imports Cursor "HOL-Library.Monad_Syntax"
begin

text \<open>
  The light string parser \<open>TStrParseObj\<close> of \<open>compiler/utils/strparse.{h,cpp}\<close>. The buffer is
  a string, the pointers into it are offsets from \<open>bufstart\<close>, \<open>bufend\<close> is the length;
  \<open>sp_null\<close> says that the buffer pointer is null (the buffer is then empty).
\<close>

section \<open>State and operations\<close>

record strparse =
  sp_null :: bool
  sp_buf :: string
  sp_read :: nat
  sp_prev :: nat
  sp_prevlen :: nat
  sp_comment :: char
  sp_decpoint :: char

text \<open>
  \<open>astr\<close> is the memory from the pointer on, \<open>None\<close> a null pointer; a length of 0 asks for the
  bytes up to the first zero byte.
\<close>

definition sp_Init :: "string option \<Rightarrow> nat \<Rightarrow> strparse \<Rightarrow> strparse" where
  "sp_Init astr buflen s =
     (case astr of
        None \<Rightarrow> s\<lparr>sp_null := True, sp_buf := [], sp_read := 0, sp_prev := 0, sp_prevlen := 0\<rparr>
      | Some m \<Rightarrow>
          let n = (if buflen = 0 then run_length (\<lambda>c. c \<noteq> CHR 0x00) m else buflen)
          in s\<lparr>sp_null := False, sp_buf := take n m, sp_read := 0, sp_prev := 0, sp_prevlen := 0\<rparr>)"

definition new_strparse :: strparse where
  "new_strparse = sp_Init None 0 \<lparr>sp_null = True, sp_buf = [], sp_read = 0, sp_prev = 0,
     sp_prevlen = 0, sp_comment = CHR ''#'', sp_decpoint = CHR ''.''\<rparr>"

abbreviation sp_end :: "strparse \<Rightarrow> nat" where "sp_end s \<equiv> length (sp_buf s)"

definition sp_SkipSpaces :: "bool \<Rightarrow> strparse \<Rightarrow> unit \<times> strparse" where
  "sp_SkipSpaces askiplineend s =
     ((), s\<lparr>sp_read := scan_while (is_blank askiplineend) (sp_buf s) (sp_read s)\<rparr>)"

text \<open>The token between the old read position and \<open>cp\<close> becomes the previous token.\<close>

definition sp_take_to :: "nat \<Rightarrow> strparse \<Rightarrow> strparse" where
  "sp_take_to cp s = s\<lparr>sp_prev := sp_read s, sp_prevlen := cp - sp_read s, sp_read := cp\<rparr>"

definition sp_ReadLine :: "strparse \<Rightarrow> bool \<times> strparse" where
  "sp_ReadLine s =
     (let cp = scan_while (\<lambda>c. c \<noteq> CR \<and> c \<noteq> LF) (sp_buf s) (sp_read s);
          cp1 = (if cp < sp_end s \<and> sp_buf s ! cp = CR then Suc cp else cp);
          cp2 = (if cp1 < sp_end s \<and> sp_buf s ! cp1 = LF then Suc cp1 else cp1);
          s' = (sp_take_to cp s)\<lparr>sp_read := cp2\<rparr>
      in (sp_prev s' < sp_end s, s'))"

text \<open>
  The scan for one of several characters. The characters are a C string: none of them is the
  zero byte.
\<close>

definition sp_ReadTo :: "string \<Rightarrow> strparse \<Rightarrow> bool \<times> strparse" where
  "sp_ReadTo checkchars s =
     (let cp = scan_while (\<lambda>c. c \<notin> set checkchars) (sp_buf s) (sp_read s)
      in (cp < sp_end s, sp_take_to cp s))"

definition sp_ReadToChar :: "char \<Rightarrow> strparse \<Rightarrow> bool \<times> strparse" where
  "sp_ReadToChar achar s =
     (let cp = scan_while (\<lambda>c. c \<noteq> achar) (sp_buf s) (sp_read s)
      in (cp < sp_end s, sp_take_to cp s))"

text \<open>The loop ends: a comment mark found after the spaces is no line end, so it is consumed.\<close>

function sp_SkipWhite :: "strparse \<Rightarrow> unit \<times> strparse" where
  "sp_SkipWhite s =
     (let s1 = snd (sp_SkipSpaces True s)
      in if sp_read s1 < sp_end s1 \<and> sp_buf s1 ! sp_read s1 = sp_comment s1
         then sp_SkipWhite (snd (sp_ReadTo [LF, CR] s1))
         else ((), s1))"
  by pat_completeness auto
termination
proof (relation "measure (\<lambda>s. sp_end s - sp_read s)", goal_cases)
  case (2 s s1)
  let ?b = "sp_buf s" and ?c = "scan_while (is_blank True) (sp_buf s) (sp_read s)"
  have c: "?c < length ?b" using 2 by (simp add: sp_SkipSpaces_def)
  then have "\<not> is_blank True (?b ! ?c)" by (rule scan_while_stop)
  then have "?c < scan_while (\<lambda>c. c \<notin> set [LF, CR]) ?b ?c"
    by (intro scan_while_progress [OF c]) (auto simp: is_blank_def)
  moreover have "sp_read s \<le> ?c" by (rule scan_while_ge)
  ultimately show ?case
    using 2 c by (simp add: sp_SkipSpaces_def sp_ReadTo_def sp_take_to_def Let_def)
qed simp

declare sp_SkipWhite.simps [simp del]

text \<open>
  The search loop: the start positions \<open>cps\<close> up to \<open>bufend - ccslen\<close>, which does not
  underflow because the pattern has been found to fit.
\<close>

function sp_search_loop :: "string \<Rightarrow> string \<Rightarrow> nat \<Rightarrow> nat option" where
  "sp_search_loop cs buf cps =
     (if cps \<le> length buf - length cs
      then (if pattern_at cs buf cps then Some cps else sp_search_loop cs buf (Suc cps))
      else None)"
  by pat_completeness auto
termination by (relation "measure (\<lambda>(cs, buf, cps). Suc (length buf) - cps)") auto

declare sp_search_loop.simps [simp del]

definition sp_SearchPattern :: "string \<Rightarrow> strparse \<Rightarrow> bool \<times> strparse" where
  "sp_SearchPattern checkchars s =
     (if sp_null s \<or> length checkchars > sp_end s - sp_read s then (False, s)
      else
        let s1 = s\<lparr>sp_prev := sp_read s\<rparr>
        in case sp_search_loop checkchars (sp_buf s) (sp_read s) of
             Some cps \<Rightarrow> (True, s1\<lparr>sp_prevlen := cps - sp_read s, sp_read := cps\<rparr>)
           | None \<Rightarrow> (False, s1))"

definition sp_CheckSymbol :: "string \<Rightarrow> strparse \<Rightarrow> bool \<times> strparse" where
  "sp_CheckSymbol checkstring s =
     (case check_loop checkstring (sp_buf s) (sp_read s) of
        (left, cp) \<Rightarrow> if left \<noteq> [] then (False, s) else (True, s\<lparr>sp_read := cp\<rparr>))"

text \<open>The readers of one token: \<open>result\<close> is set when at least one character was taken.\<close>

definition sp_ReadAlphaNum :: "strparse \<Rightarrow> bool \<times> strparse" where
  "sp_ReadAlphaNum s =
     (let p0 = sp_read s;
          start = (if p0 < sp_end s \<and> sp_buf s ! p0 = CHR ''-'' then Suc p0 else p0);
          cp = scan_while (\<lambda>c. is_dec c \<or> is_alpha_under c) (sp_buf s) start
      in (cp > p0, sp_take_to cp s))"

definition sp_ReadIdentifier :: "string \<Rightarrow> strparse \<Rightarrow> (bool \<times> string) \<times> strparse" where
  "sp_ReadIdentifier rvalue s =
     (let p0 = sp_read s;
          p = (if p0 < sp_end s \<and> is_alpha_under (sp_buf s ! p0)
               then scan_while (\<lambda>c. is_alpha_under c \<or> is_dec c) (sp_buf s) (Suc p0) else p0);
          s1 = s\<lparr>sp_prev := p0, sp_prevlen := p - p0\<rparr>
      in if p - p0 > 0
         then ((True, take (p - p0) (drop p0 (sp_buf s))), s1\<lparr>sp_read := p\<rparr>)
         else ((False, rvalue), s1))"

definition sp_ReadDecimalNumbers :: "strparse \<Rightarrow> bool \<times> strparse" where
  "sp_ReadDecimalNumbers s =
     (let cp = scan_while is_dec (sp_buf s) (sp_read s) in (cp > sp_read s, sp_take_to cp s))"

definition sp_ReadHexNumbers :: "strparse \<Rightarrow> bool \<times> strparse" where
  "sp_ReadHexNumbers s =
     (let cp = scan_while is_hex (sp_buf s) (sp_read s) in (cp > sp_read s, sp_take_to cp s))"

definition sp_is_float_char :: "strparse \<Rightarrow> char \<Rightarrow> bool" where
  "sp_is_float_char s c \<longleftrightarrow> is_dec c \<or> c = sp_decpoint s \<or> c = CHR ''-'' \<or> c = CHR ''+''
     \<or> c = CHR ''e'' \<or> c = CHR ''E''"

definition sp_ReadFloatNum :: "strparse \<Rightarrow> bool \<times> strparse" where
  "sp_ReadFloatNum s =
     (let cp = scan_while (sp_is_float_char s) (sp_buf s) (sp_read s)
      in (cp > sp_read s, sp_take_to cp s))"

definition sp_ReadQuoted :: "strparse \<Rightarrow> bool \<times> strparse" where
  "sp_ReadQuoted s =
     (if sp_read s \<ge> sp_end s then (False, s)
      else
        let q = sp_buf s ! sp_read s
        in if q \<noteq> DQUOTE \<and> q \<noteq> SQUOTE then (False, s)
           else
             let s1 = snd (sp_ReadToChar q (s\<lparr>sp_read := Suc (sp_read s)\<rparr>));
                 s2 = (if sp_read s1 < sp_end s1 \<and> sp_buf s1 ! sp_read s1 = q
                       then s1\<lparr>sp_read := Suc (sp_read s1)\<rparr> else s1)
             in (True, s2))"

text \<open>
  The string reader with escapes. \<open>None\<close> is the failure exit (a line end in the string, or the
  end of the buffer before the closing quote), otherwise the value and the position behind the
  closing quote.
\<close>

definition hex_char :: "int \<Rightarrow> int \<Rightarrow> char" where
  "hex_char high low = char_of (nat (push_bit 4 high OR low))"

text \<open>
  One pass of the loop: \<open>Inl\<close> leaves the loop, \<open>Inr\<close> goes on with a new position and value.
\<close>

definition sp_quoted_step :: "char \<Rightarrow> string \<Rightarrow> nat \<Rightarrow> string \<Rightarrow> (string \<times> nat) option + (nat \<times> string)" where
  "sp_quoted_step q buf p v =
     (let c = buf ! p; p1 = Suc p in
        if c = q then Inl (Some (v, p1))
        else if c = LF \<or> c = CR then Inl None
        else if c \<noteq> BACKSLASH then Inr (p1, v @ [c])
        else if p1 \<ge> length buf then Inl None
        else let e = buf ! p1; p2 = Suc p1 in
          if e = CHR ''n'' then Inr (p2, v @ [LF])
          else if e = CHR ''r'' then Inr (p2, v @ [CR])
          else if e = CHR ''t'' then Inr (p2, v @ [TAB])
          else if e = BACKSLASH then Inr (p2, v @ [BACKSLASH])
          else if e = DQUOTE then Inr (p2, v @ [DQUOTE])
          else if e = SQUOTE then Inr (p2, v @ [SQUOTE])
          else if e = CHR ''x'' \<and> p2 + 1 < length buf then
            (let high = HexDigitValue (buf ! p2); low = HexDigitValue (buf ! (p2 + 1))
             in if high \<ge> 0 \<and> low \<ge> 0
                then Inr (p2 + 2, v @ [hex_char high low])
                else Inr (p2, v @ [BACKSLASH, e]))
          else Inr (p2, v @ [BACKSLASH, e]))"

lemma sp_quoted_step_Inr:
  "sp_quoted_step q buf p v = Inr (p', v') \<Longrightarrow> p < length buf \<Longrightarrow> p < p' \<and> p' \<le> length buf"
  by (auto simp: sp_quoted_step_def Let_def split: if_splits)

lemma sp_quoted_step_Inl:
  "sp_quoted_step q buf p v = Inl (Some (w, p')) \<Longrightarrow> p' = Suc p \<and> w = v \<and> buf ! p = q"
  by (auto simp: sp_quoted_step_def Let_def split: if_splits)

function sp_quoted_loop :: "char \<Rightarrow> string \<Rightarrow> nat \<Rightarrow> string \<Rightarrow> (string \<times> nat) option" where
  "sp_quoted_loop q buf p v =
     (if p < length buf
      then (case sp_quoted_step q buf p v of
              Inl r \<Rightarrow> r
            | Inr (p', v') \<Rightarrow> sp_quoted_loop q buf p' v')
      else None)"
  by pat_completeness auto
termination
proof (relation "measure (\<lambda>(q, buf, p, v). length buf - p)", goal_cases)
  case (2 q buf p v x y z)
  then have "sp_quoted_step q buf p v = Inr (y, z)" by simp
  from sp_quoted_step_Inr [OF this] 2(1) show ?case by auto
qed simp

declare sp_quoted_loop.simps [simp del]

definition sp_ReadQuotedString :: "strparse \<Rightarrow> (bool \<times> string) \<times> strparse" where
  "sp_ReadQuotedString s =
     (if sp_read s \<ge> sp_end s \<or>
         (sp_buf s ! sp_read s \<noteq> DQUOTE \<and> sp_buf s ! sp_read s \<noteq> SQUOTE)
      then ((False, []), s)
      else
        let saved = sp_read s; start = Suc saved
        in case sp_quoted_loop (sp_buf s ! saved) (sp_buf s) start [] of
             Some (v, p) \<Rightarrow>
               ((True, v), s\<lparr>sp_read := p, sp_prev := start, sp_prevlen := (p - 1) - start\<rparr>)
           | None \<Rightarrow> ((False, []), s\<lparr>sp_read := saved, sp_prev := saved, sp_prevlen := 0\<rparr>))"

definition sp_PrevStr :: "strparse \<Rightarrow> string" where
  "sp_PrevStr s = take (sp_prevlen s) (drop (sp_prev s) (sp_buf s))"

text \<open>\<open>PCharUCCompare\<close>: compares a token, with its letters in upper case, to a string.\<close>

definition uc_char :: "char \<Rightarrow> char" where
  "uc_char c = (if CHR ''a'' \<le> c \<and> c \<le> CHR ''z'' then char_of (char_nat c AND 0xDF) else c)"

fun uc_loop :: "string \<Rightarrow> string \<Rightarrow> nat \<Rightarrow> nat \<Rightarrow> string \<times> nat" where
  "uc_loop [] buf cp endp = ([], cp)"
| "uc_loop (c # cs) buf cp endp =
     (if cp < endp \<and> uc_char (buf ! cp) = c then uc_loop cs buf (Suc cp) endp else (c # cs, cp))"

definition PCharUCCompare :: "string \<Rightarrow> nat \<Rightarrow> nat \<Rightarrow> string \<Rightarrow> bool \<times> nat" where
  "PCharUCCompare buf readp len checkstring =
     (case uc_loop checkstring buf readp (readp + len) of
        (left, cp) \<Rightarrow> if left \<noteq> [] then (False, readp) else (True, cp))"

definition sp_UCComparePrev :: "string \<Rightarrow> strparse \<Rightarrow> bool \<times> strparse" where
  "sp_UCComparePrev checkstring s =
     (case PCharUCCompare (sp_buf s) (sp_prev s) (sp_prevlen s) checkstring of
        (ok, p) \<Rightarrow> (ok, s\<lparr>sp_prev := p\<rparr>))"

text \<open>
  \<open>PCharToInt\<close> takes every character as a digit. An \<open>int\<close> overflow is undefined behaviour:
  \<open>None\<close>.
\<close>

definition int32_check :: "int \<Rightarrow> int option" where
  "int32_check v = (if - (2 ^ 31) \<le> v \<and> v < 2 ^ 31 then Some v else None)"

fun dec_loop :: "string \<Rightarrow> int \<Rightarrow> int option" where
  "dec_loop [] result = Some result"
| "dec_loop (c # cs) result = do {
     m \<leftarrow> int32_check (result * 10);
     v \<leftarrow> int32_check (m + (schar c - schar (CHR ''0'')));
     dec_loop cs v }"

definition PCharToInt :: "string \<Rightarrow> int option" where
  "PCharToInt cs = dec_loop cs 0"

definition sp_PrevToInt :: "strparse \<Rightarrow> int option" where
  "sp_PrevToInt s = PCharToInt (sp_PrevStr s)"

fun hex_loop :: "string \<Rightarrow> 32 word \<Rightarrow> 32 word" where
  "hex_loop [] result = result"
| "hex_loop (c # cs) result =
     (if CHR ''0'' \<le> c \<and> c \<le> CHR ''9''
      then hex_loop cs (push_bit 4 result + of_int (schar c - schar (CHR ''0'')))
      else if CHR ''A'' \<le> c \<and> c \<le> CHR ''F''
      then hex_loop cs (push_bit 4 result + of_int (schar c - schar (CHR ''A'') + 10))
      else if CHR ''a'' \<le> c \<and> c \<le> CHR ''f''
      then hex_loop cs (push_bit 4 result + of_int (schar c - schar (CHR ''a'') + 10))
      else result)"

definition PCharHexToInt :: "string \<Rightarrow> 32 word" where
  "PCharHexToInt cs = hex_loop cs 0"

definition sp_PrevHexToInt :: "strparse \<Rightarrow> 32 word" where
  "sp_PrevHexToInt s = PCharHexToInt (sp_PrevStr s)"

text \<open>The line number of a position: one more than the line feeds before it.\<close>

function line_num_loop :: "string \<Rightarrow> nat \<Rightarrow> nat \<Rightarrow> int \<Rightarrow> int" where
  "line_num_loop buf cp pos result =
     (if cp < pos \<and> cp < length buf
      then line_num_loop buf (Suc cp) pos (if buf ! cp = LF then result + 1 else result)
      else result)"
  by pat_completeness auto
termination by (relation "measure (\<lambda>(buf, cp, pos, r). length buf - cp)") auto

declare line_num_loop.simps [simp del]

definition sp_GetLineNumAt :: "nat \<Rightarrow> strparse \<Rightarrow> int" where
  "sp_GetLineNumAt pos s = line_num_loop (sp_buf s) 0 pos 1"

definition sp_GetLineNum :: "strparse \<Rightarrow> int" where
  "sp_GetLineNum s = sp_GetLineNumAt (sp_prev s) s"

section \<open>Every operation is a scanning operation\<close>

text \<open>The read position and the start of the previous token are in the buffer.\<close>

definition sp_inv :: "strparse \<Rightarrow> bool" where
  "sp_inv s \<longleftrightarrow> sp_read s \<le> sp_end s \<and> sp_prev s \<le> sp_end s \<and> (sp_null s \<longrightarrow> sp_buf s = [])"

text \<open>The previous token as a whole is in the buffer, as \<open>PrevStr\<close> needs it.\<close>

definition sp_token :: "strparse \<Rightarrow> bool" where
  "sp_token s \<longleftrightarrow> sp_prev s + sp_prevlen s \<le> sp_end s"

lemma sp_Init_inv: "sp_inv (sp_Init astr n s)" "sp_token (sp_Init astr n s)"
  by (auto simp: sp_inv_def sp_token_def sp_Init_def Let_def split: option.splits)

lemma sp_take_to_simps [simp]:
  "sp_buf (sp_take_to cp s) = sp_buf s" "sp_read (sp_take_to cp s) = cp"
  "sp_prev (sp_take_to cp s) = sp_read s" "sp_prevlen (sp_take_to cp s) = cp - sp_read s"
  "sp_null (sp_take_to cp s) = sp_null s" "sp_comment (sp_take_to cp s) = sp_comment s"
  by (simp_all add: sp_take_to_def)

lemma sp_scan_bounds:
  "sp_inv s \<Longrightarrow> sp_read s \<le> p \<Longrightarrow> p \<le> sp_end s \<Longrightarrow>
     sp_read s \<le> scan_while P (sp_buf s) p \<and> scan_while P (sp_buf s) p \<le> sp_end s"
  using scan_while_ge [of p P "sp_buf s"] scan_while_le [of p "sp_buf s" P] by simp

abbreviation sp_scans :: "strparse \<Rightarrow> strparse \<Rightarrow> bool" where
  "sp_scans s s' \<equiv> sp_inv s' \<and> sp_buf s' = sp_buf s \<and> sp_read s \<le> sp_read s'"

lemma sp_scannerI:
  assumes "\<And>s. sp_inv s \<Longrightarrow> sp_scans s (snd (act s))"
  shows "scanner sp_buf sp_read sp_inv act"
proof unfold_locales
  fix s
  assume s: "sp_inv s"
  then show "sp_read s \<le> length (sp_buf s)" by (simp add: sp_inv_def)
  from assms [OF s] show "sp_inv (snd (act s))" "sp_buf (snd (act s)) = sp_buf s"
    "sp_read s \<le> sp_read (snd (act s))" by blast+
qed

lemma sp_take_scans: "sp_inv s \<Longrightarrow> sp_read s \<le> cp \<Longrightarrow> cp \<le> sp_end s \<Longrightarrow> sp_scans s (sp_take_to cp s)"
  by (simp add: sp_inv_def)

text \<open>The operations that take the longest run of a character class as a token.\<close>

lemma sp_take_scannerI:
  assumes "\<And>s. snd (act s) = sp_take_to (scan_while (P s) (sp_buf s) (sp_read s)) s"
  shows "scanner sp_buf sp_read sp_inv act"
proof (rule sp_scannerI)
  fix s
  assume s: "sp_inv s"
  then have "sp_read s \<le> sp_end s" by (simp add: sp_inv_def)
  then show "sp_scans s (snd (act s))"
    unfolding assms using sp_scan_bounds [OF s order_refl] by (intro sp_take_scans [OF s]) simp_all
qed

interpretation sp_to: scanner sp_buf sp_read sp_inv "sp_ReadTo cs"
  by (rule sp_take_scannerI, unfold sp_ReadTo_def Let_def snd_conv, rule refl)

interpretation sp_to_char: scanner sp_buf sp_read sp_inv "sp_ReadToChar c"
  by (rule sp_take_scannerI, unfold sp_ReadToChar_def Let_def snd_conv, rule refl)

interpretation sp_decimals: scanner sp_buf sp_read sp_inv sp_ReadDecimalNumbers
  by (rule sp_take_scannerI, unfold sp_ReadDecimalNumbers_def Let_def snd_conv, rule refl)

interpretation sp_hexes: scanner sp_buf sp_read sp_inv sp_ReadHexNumbers
  by (rule sp_take_scannerI, unfold sp_ReadHexNumbers_def Let_def snd_conv, rule refl)

interpretation sp_float: scanner sp_buf sp_read sp_inv sp_ReadFloatNum
  by (rule sp_take_scannerI, unfold sp_ReadFloatNum_def Let_def snd_conv, rule refl)

interpretation sp_skip: scanner sp_buf sp_read sp_inv "sp_SkipSpaces b"
proof (rule sp_scannerI)
  fix s
  assume "sp_inv s"
  then show "sp_scans s (snd (sp_SkipSpaces b s))"
    using sp_scan_bounds [of s "sp_read s" "is_blank b"] by (simp add: sp_SkipSpaces_def sp_inv_def)
qed

interpretation sp_alnum: scanner sp_buf sp_read sp_inv sp_ReadAlphaNum
proof (rule sp_scannerI)
  fix s
  assume s: "sp_inv s"
  let ?start = "if sp_read s < sp_end s \<and> sp_buf s ! sp_read s = CHR ''-'' then Suc (sp_read s) else sp_read s"
  let ?cp = "scan_while (\<lambda>c. is_dec c \<or> is_alpha_under c) (sp_buf s) ?start"
  have "snd (sp_ReadAlphaNum s) = sp_take_to ?cp s" by (simp add: sp_ReadAlphaNum_def Let_def)
  moreover have "sp_read s \<le> ?cp" "?cp \<le> sp_end s"
    using sp_scan_bounds [OF s, of ?start] s by (auto simp: sp_inv_def)
  ultimately show "sp_scans s (snd (sp_ReadAlphaNum s))" using sp_take_scans [OF s] by simp
qed

interpretation sp_ident: scanner sp_buf sp_read sp_inv "sp_ReadIdentifier v"
proof (rule sp_scannerI)
  fix s
  assume s: "sp_inv s"
  then show "sp_scans s (snd (sp_ReadIdentifier v s))"
    using sp_scan_bounds [OF s, of "Suc (sp_read s)" "\<lambda>c. is_alpha_under c \<or> is_dec c"]
    by (auto simp: sp_ReadIdentifier_def sp_inv_def Let_def)
qed

interpretation sp_line: scanner sp_buf sp_read sp_inv sp_ReadLine
proof (rule sp_scannerI)
  fix s
  assume s: "sp_inv s"
  show "sp_scans s (snd (sp_ReadLine s))"
    using sp_scan_bounds [OF s order_refl, of "\<lambda>c. c \<noteq> CR \<and> c \<noteq> LF"] s
    by (auto simp: sp_ReadLine_def sp_inv_def Let_def)
qed

interpretation sp_symbol: scanner sp_buf sp_read sp_inv "sp_CheckSymbol cs"
proof (rule sp_scannerI)
  fix s
  assume s: "sp_inv s"
  then show "sp_scans s (snd (sp_CheckSymbol cs s))"
    using check_loop_eq [of "sp_read s" "sp_buf s" cs]
    by (auto simp: sp_CheckSymbol_def sp_inv_def split: prod.splits)
qed

lemma sp_search_loop_range:
  "sp_search_loop cs buf p = Some i \<Longrightarrow> length cs \<le> length buf \<Longrightarrow>
     p \<le> i \<and> i + length cs \<le> length buf"
proof (induction cs buf p rule: sp_search_loop.induct)
  case (1 cs buf p)
  show ?case
  proof (cases "p \<le> length buf - length cs \<and> \<not> pattern_at cs buf p")
    case True
    then have "sp_search_loop cs buf (Suc p) = Some i"
      using 1(2) by (simp add: sp_search_loop.simps [of cs buf p])
    with True 1(1,3) show ?thesis by auto
  next
    case False
    with 1(2,3) show ?thesis by (auto simp: sp_search_loop.simps [of cs buf p] split: if_splits)
  qed
qed

interpretation sp_search: scanner sp_buf sp_read sp_inv "sp_SearchPattern cs"
proof (rule sp_scannerI)
  fix s
  assume s: "sp_inv s"
  show "sp_scans s (snd (sp_SearchPattern cs s))"
  proof (cases "sp_null s \<or> length cs > sp_end s - sp_read s")
    case False
    then have "length cs \<le> sp_end s" by linarith
    then show ?thesis
      using s sp_search_loop_range [of cs "sp_buf s" "sp_read s"]
      by (fastforce simp: sp_SearchPattern_def sp_inv_def Let_def split: option.splits)
  qed (use s in \<open>simp add: sp_SearchPattern_def\<close>)
qed

lemma sp_quoted_loop_range:
  "sp_quoted_loop q buf p v = Some (w, p') \<Longrightarrow> p < p' \<and> p' \<le> length buf"
proof (induction q buf p v rule: sp_quoted_loop.induct)
  case (1 q buf p v)
  then have p: "p < length buf" by (simp add: sp_quoted_loop.simps [of q buf p v] split: if_splits)
  show ?case
  proof (cases "sp_quoted_step q buf p v")
    case (Inl r)
    with 1(2) p have "sp_quoted_step q buf p v = Inl (Some (w, p'))"
      by (simp add: sp_quoted_loop.simps [of q buf p v])
    from sp_quoted_step_Inl [OF this] p show ?thesis by simp
  next
    case (Inr pv)
    obtain p1 v1 where pv: "pv = (p1, v1)" by (cases pv)
    with Inr have step: "sp_quoted_step q buf p v = Inr (p1, v1)" by simp
    then have "sp_quoted_loop q buf p1 v1 = Some (w, p')"
      using 1(2) p by (simp add: sp_quoted_loop.simps [of q buf p v])
    from 1(1) [OF p Inr pv [symmetric] this] sp_quoted_step_Inr [OF step p] show ?thesis by simp
  qed
qed

interpretation sp_quoted: scanner sp_buf sp_read sp_inv sp_ReadQuotedString
proof (rule sp_scannerI)
  fix s
  assume s: "sp_inv s"
  then show "sp_scans s (snd (sp_ReadQuotedString s))"
    using sp_quoted_loop_range [of "sp_buf s ! sp_read s" "sp_buf s" "Suc (sp_read s)" "[]"]
    by (fastforce simp: sp_ReadQuotedString_def sp_inv_def Let_def split: option.splits)
qed

interpretation sp_skip_to: scanner_pair sp_buf sp_read sp_inv "sp_SkipSpaces True" "sp_ReadTo [LF, CR]"
  by unfold_locales

lemma sp_SkipWhite_scans: "sp_inv s \<Longrightarrow> sp_scans s (snd (sp_SkipWhite s))"
proof (induction s rule: sp_SkipWhite.induct)
  case (1 s)
  let ?s1 = "snd (sp_SkipSpaces True s)" and ?s2 = "snd (sp_ReadTo [LF, CR] (snd (sp_SkipSpaces True s)))"
  note one = sp_skip.act_good [OF 1(2), of True] sp_skip.act_buf [OF 1(2), of True]
    sp_skip.act_mono [OF 1(2), of True]
  note two = sp_skip_to.both.act_good [OF 1(2)] sp_skip_to.both.act_buf [OF 1(2)]
    sp_skip_to.both.act_mono [OF 1(2)]
  show ?case
  proof (cases "sp_read ?s1 < sp_end ?s1 \<and> sp_buf ?s1 ! sp_read ?s1 = sp_comment ?s1")
    case True
    have "sp_scans ?s2 (snd (sp_SkipWhite ?s2))" using 1(1) [OF refl True two(1)] .
    with True two show ?thesis by (simp add: sp_SkipWhite.simps [of s] Let_def)
  next
    case False
    with one show ?thesis by (auto simp: sp_SkipWhite.simps [of s] Let_def)
  qed
qed

interpretation sp_white: scanner sp_buf sp_read sp_inv sp_SkipWhite
  by (rule sp_scannerI) (rule sp_SkipWhite_scans)

interpretation sp_plain_quoted: scanner sp_buf sp_read sp_inv sp_ReadQuoted
proof (rule sp_scannerI)
  fix s
  assume s: "sp_inv s"
  let ?s0 = "s\<lparr>sp_read := Suc (sp_read s)\<rparr>" and ?q = "sp_buf s ! sp_read s"
  show "sp_scans s (snd (sp_ReadQuoted s))"
  proof (cases "sp_read s < sp_end s")
    case True
    then have s0: "sp_inv ?s0" using s by (simp add: sp_inv_def)
    define s1 where "s1 = snd (sp_ReadToChar ?q ?s0)"
    have s1: "sp_inv s1" "sp_buf s1 = sp_buf s" "Suc (sp_read s) \<le> sp_read s1"
      using sp_to_char.act_good [OF s0, of ?q] sp_to_char.act_buf [OF s0, of ?q]
        sp_to_char.act_mono [OF s0, of ?q] by (simp_all add: s1_def)
    have "snd (sp_ReadQuoted s) = s \<or> snd (sp_ReadQuoted s) = s1
        \<or> snd (sp_ReadQuoted s) = s1\<lparr>sp_read := Suc (sp_read s1)\<rparr> \<and> sp_read s1 < sp_end s1"
      by (simp add: sp_ReadQuoted_def Let_def s1_def)
    then show ?thesis using s s1 by (elim disjE) (simp_all add: sp_inv_def)
  qed (use s in \<open>simp add: sp_ReadQuoted_def\<close>)
qed

section \<open>The previous token\<close>

text \<open>
  All operations that set the previous token set both its start and its length. Two exceptions
  change the start alone: \<open>SearchPattern\<close> when it fails, and \<open>UCComparePrev\<close> when it succeeds.
\<close>

inductive sp_step :: "strparse \<Rightarrow> strparse \<Rightarrow> bool" where
  skip_spaces: "sp_step s (snd (sp_SkipSpaces b s))"
| skip_white: "sp_step s (snd (sp_SkipWhite s))"
| read_line: "sp_step s (snd (sp_ReadLine s))"
| read_to: "sp_step s (snd (sp_ReadTo cs s))"
| read_to_char: "sp_step s (snd (sp_ReadToChar c s))"
| alpha_num: "sp_step s (snd (sp_ReadAlphaNum s))"
| ident: "sp_step s (snd (sp_ReadIdentifier v s))"
| decimals: "sp_step s (snd (sp_ReadDecimalNumbers s))"
| hexes: "sp_step s (snd (sp_ReadHexNumbers s))"
| float: "sp_step s (snd (sp_ReadFloatNum s))"
| quoted_plain: "sp_step s (snd (sp_ReadQuoted s))"
| quoted: "sp_step s (snd (sp_ReadQuotedString s))"
| symbol: "sp_step s (snd (sp_CheckSymbol cs s))"
| pattern: "fst (sp_SearchPattern cs s) \<Longrightarrow> sp_step s (snd (sp_SearchPattern cs s))"

lemma sp_step_scans: "sp_step s s' \<Longrightarrow> sp_inv s \<Longrightarrow> sp_scans s s'"
  by (induction rule: sp_step.induct)
    (simp_all add: sp_skip.act_good sp_skip.act_buf sp_skip.act_mono sp_white.act_good
      sp_white.act_buf sp_white.act_mono sp_line.act_good sp_line.act_buf sp_line.act_mono
      sp_to.act_good sp_to.act_buf sp_to.act_mono sp_to_char.act_good sp_to_char.act_buf
      sp_to_char.act_mono sp_alnum.act_good sp_alnum.act_buf sp_alnum.act_mono sp_ident.act_good
      sp_ident.act_buf sp_ident.act_mono sp_decimals.act_good sp_decimals.act_buf
      sp_decimals.act_mono sp_hexes.act_good sp_hexes.act_buf sp_hexes.act_mono sp_float.act_good
      sp_float.act_buf sp_float.act_mono sp_plain_quoted.act_good sp_plain_quoted.act_buf
      sp_plain_quoted.act_mono sp_quoted.act_good sp_quoted.act_buf sp_quoted.act_mono
      sp_symbol.act_good sp_symbol.act_buf sp_symbol.act_mono sp_search.act_good
      sp_search.act_buf sp_search.act_mono)

lemma sp_token_take_to: "sp_read s \<le> cp \<Longrightarrow> cp \<le> sp_end s \<Longrightarrow> sp_token (sp_take_to cp s)"
  by (simp add: sp_token_def)

lemma sp_SkipWhite_token: "sp_inv s \<Longrightarrow> sp_token s \<Longrightarrow> sp_token (snd (sp_SkipWhite s))"
proof (induction s rule: sp_SkipWhite.induct)
  case (1 s)
  let ?s1 = "snd (sp_SkipSpaces True s)" and ?s2 = "snd (sp_ReadTo [LF, CR] (snd (sp_SkipSpaces True s)))"
  have s1: "sp_inv ?s1" "sp_token ?s1"
    using sp_skip.act_good [OF 1(2)] 1(3) by (simp_all add: sp_SkipSpaces_def sp_token_def)
  have s2: "sp_inv ?s2" by (rule sp_to.act_good [OF s1(1)])
  have "sp_token ?s2"
    using sp_scan_bounds [OF s1(1) order_refl, of "\<lambda>c. c \<notin> set [LF, CR]"] s1(1)
    by (simp add: sp_ReadTo_def Let_def sp_token_def sp_inv_def)
  then show ?case
    using 1(1) [OF refl _ s2] s1(2) by (simp add: sp_SkipWhite.simps [of s] Let_def)
qed

lemma sp_step_token: "sp_step s s' \<Longrightarrow> sp_inv s \<Longrightarrow> sp_token s \<Longrightarrow> sp_token s'"
proof (induction rule: sp_step.induct)
  case (skip_white s)
  then show ?case by (simp add: sp_SkipWhite_token)
next
  case (read_line s)
  then show ?case
    using sp_scan_bounds [OF read_line(1) order_refl, of "\<lambda>c. c \<noteq> CR \<and> c \<noteq> LF"]
    by (simp add: sp_ReadLine_def Let_def sp_token_def sp_inv_def)
next
  case (read_to s cs)
  then show ?case using sp_scan_bounds [OF read_to(1) order_refl, of "\<lambda>c. c \<notin> set cs"]
    by (simp add: sp_ReadTo_def Let_def sp_token_def sp_inv_def)
next
  case (read_to_char s c)
  then show ?case using sp_scan_bounds [OF read_to_char(1) order_refl, of "\<lambda>d. d \<noteq> c"]
    by (simp add: sp_ReadToChar_def Let_def sp_token_def sp_inv_def)
next
  case (alpha_num s)
  then show ?case
    using sp_scan_bounds [OF alpha_num(1), of "Suc (sp_read s)" "\<lambda>c. is_dec c \<or> is_alpha_under c"]
      sp_scan_bounds [OF alpha_num(1), of "sp_read s" "\<lambda>c. is_dec c \<or> is_alpha_under c"]
    by (auto simp: sp_ReadAlphaNum_def Let_def sp_token_def sp_inv_def)
next
  case (ident s v)
  then show ?case
    using sp_scan_bounds [OF ident(1), of "Suc (sp_read s)" "\<lambda>c. is_alpha_under c \<or> is_dec c"]
    by (auto simp: sp_ReadIdentifier_def Let_def sp_token_def sp_inv_def)
next
  case (decimals s)
  then show ?case using sp_scan_bounds [OF decimals(1) order_refl, of is_dec]
    by (simp add: sp_ReadDecimalNumbers_def Let_def sp_token_def sp_inv_def)
next
  case (hexes s)
  then show ?case using sp_scan_bounds [OF hexes(1) order_refl, of is_hex]
    by (simp add: sp_ReadHexNumbers_def Let_def sp_token_def sp_inv_def)
next
  case (float s)
  then show ?case using sp_scan_bounds [OF float(1) order_refl, of "sp_is_float_char s"]
    by (simp add: sp_ReadFloatNum_def Let_def sp_token_def sp_inv_def)
next
  case (quoted_plain s)
  let ?s0 = "s\<lparr>sp_read := Suc (sp_read s)\<rparr>" and ?q = "sp_buf s ! sp_read s"
  show ?case
  proof (cases "sp_read s < sp_end s")
    case True
    then have "sp_inv ?s0" using quoted_plain by (simp add: sp_inv_def)
    from sp_scan_bounds [OF this order_refl, of "\<lambda>d. d \<noteq> ?q"] True quoted_plain
    show ?thesis by (auto simp: sp_ReadQuoted_def sp_ReadToChar_def Let_def sp_token_def)
  qed (use quoted_plain in \<open>simp add: sp_ReadQuoted_def\<close>)
next
  case (quoted s)
  then show ?case
    using sp_quoted_loop_range [of "sp_buf s ! sp_read s" "sp_buf s" "Suc (sp_read s)" "[]"]
    by (fastforce simp: sp_ReadQuotedString_def sp_token_def sp_inv_def Let_def split: option.splits)
next
  case (pattern cs s)
  then have n: "length cs \<le> sp_end s" and l: "\<not> (sp_null s \<or> sp_end s - sp_read s < length cs)"
    by (auto simp: sp_SearchPattern_def split: if_splits)
  obtain i where "sp_search_loop cs (sp_buf s) (sp_read s) = Some i"
    using pattern l by (auto simp: sp_SearchPattern_def Let_def split: option.splits)
  from sp_search_loop_range [OF this n] this l show ?case
    by (simp add: sp_SearchPattern_def Let_def sp_token_def)
qed (auto simp: sp_SkipSpaces_def sp_CheckSymbol_def sp_token_def split: prod.splits)

end
