(* ===== verification/Str_Parse_Props.thy ===== *)
theory Str_Parse_Props
  imports Str_Parse
begin

text \<open>
  The theorems of the light string parser: pointers and tokens stay in the buffer, pattern search
  finds the first occurrence, the line reader splits a text into its lines, and the quoted-string
  reader inverts escaping.
\<close>

section \<open>Lines\<close>

text \<open>A client that reads all lines.\<close>

lemma sp_ReadLine_progress:
  assumes "fst (sp_ReadLine s)"
  shows "sp_read s < sp_end s" and "sp_read s < sp_read (snd (sp_ReadLine s))"
    and "sp_buf (snd (sp_ReadLine s)) = sp_buf s"
proof -
  let ?P = "\<lambda>c. c \<noteq> CR \<and> c \<noteq> LF" and ?cp = "scan_while (\<lambda>c. c \<noteq> CR \<and> c \<noteq> LF) (sp_buf s) (sp_read s)"
  show r: "sp_read s < sp_end s" using assms by (simp add: sp_ReadLine_def Let_def)
  show "sp_buf (snd (sp_ReadLine s)) = sp_buf s" by (simp add: sp_ReadLine_def Let_def)
  have ge: "sp_read s \<le> ?cp" by (rule scan_while_ge)
  show "sp_read s < sp_read (snd (sp_ReadLine s))"
  proof (cases "?P (sp_buf s ! sp_read s)")
    case True
    from scan_while_progress [OF r, of ?P, OF True] show ?thesis
      by (simp add: sp_ReadLine_def Let_def)
  next
    case False
    then have "?cp = sp_read s" by (subst scan_while.simps) auto
    with False r show ?thesis by (auto simp: sp_ReadLine_def Let_def)
  qed
qed

function sp_all_lines :: "strparse \<Rightarrow> string list" where
  "sp_all_lines s =
     (if fst (sp_ReadLine s)
      then sp_PrevStr (snd (sp_ReadLine s)) # sp_all_lines (snd (sp_ReadLine s)) else [])"
  by pat_completeness auto
termination
  by (relation "measure (\<lambda>s. sp_end s - sp_read s)")
    (auto dest: sp_ReadLine_progress simp: diff_less_mono2 sp_ReadLine_progress)

declare sp_all_lines.simps [simp del]

definition line_ok :: "string \<times> string \<Rightarrow> bool" where
  "line_ok x \<longleftrightarrow> CR \<notin> set (fst x) \<and> LF \<notin> set (fst x) \<and> (snd x = [LF] \<or> snd x = [CR, LF])"

abbreviation text_of :: "(string \<times> string) list \<Rightarrow> string" where
  "text_of ls \<equiv> concat (map (\<lambda>(l, e). l @ e) ls)"

lemma scan_while_append:
  assumes "list_all P xs" and "ys = [] \<or> \<not> P (hd ys)" and "p = length pre"
  shows "scan_while P (pre @ xs @ ys) p = p + length xs"
proof -
  have "takeWhile P (xs @ ys) = xs"
    using assms(1,2) by (cases ys) (auto simp: list_all_iff)
  then show ?thesis using assms(3) by (simp add: scan_while_eq)
qed

lemma sp_ReadLine_line:
  assumes "sp_buf s = pre @ l @ e @ post" and "sp_read s = length pre" and "line_ok (l, e)"
  shows "fst (sp_ReadLine s)" and "sp_PrevStr (snd (sp_ReadLine s)) = l"
    and "sp_read (snd (sp_ReadLine s)) = length (pre @ l @ e)"
    and "sp_buf (snd (sp_ReadLine s)) = (pre @ l @ e) @ post"
proof -
  let ?P = "\<lambda>c. c \<noteq> CR \<and> c \<noteq> LF"
  have e: "e = [LF] \<or> e = [CR, LF]" using assms(3) by (simp add: line_ok_def)
  have "scan_while ?P (pre @ l @ (e @ post)) (sp_read s) = sp_read s + length l"
    using assms(2,3) e by (intro scan_while_append) (auto simp: line_ok_def list_all_iff)
  then have cp: "scan_while ?P (pre @ l @ e @ post) (length pre) = length pre + length l"
    using assms(2) by simp
  have "fst (sp_ReadLine s) \<and> sp_PrevStr (snd (sp_ReadLine s)) = l
      \<and> sp_read (snd (sp_ReadLine s)) = length (pre @ l @ e)"
  proof (cases "e = [LF]")
    case True
    have "(pre @ l @ LF # post) ! (length pre + length l) = LF" by (simp add: nth_append)
    with cp True show ?thesis by (simp add: sp_ReadLine_def Let_def assms(1,2) sp_PrevStr_def)
  next
    case False
    with e have eq: "e = [CR, LF]" by simp
    have "(pre @ l @ CR # LF # post) ! (length pre + length l) = CR"
      "(pre @ l @ CR # LF # post) ! Suc (length pre + length l) = LF" by (simp_all add: nth_append)
    with cp eq show ?thesis by (simp add: sp_ReadLine_def Let_def assms(1,2) sp_PrevStr_def)
  qed
  then show "fst (sp_ReadLine s)" "sp_PrevStr (snd (sp_ReadLine s)) = l"
    "sp_read (snd (sp_ReadLine s)) = length (pre @ l @ e)" by blast+
  show "sp_buf (snd (sp_ReadLine s)) = (pre @ l @ e) @ post"
    by (simp add: sp_ReadLine_def Let_def assms(1))
qed

lemma sp_all_lines_text:
  assumes "list_all line_ok ls" and "sp_buf s = pre @ text_of ls" and "sp_read s = length pre"
  shows "sp_all_lines s = map fst ls"
  using assms
proof (induction ls arbitrary: s pre)
  case Nil
  then show ?case by (simp add: sp_all_lines.simps [of s] sp_ReadLine_def Let_def)
next
  case (Cons x ls)
  obtain l e where x: "x = (l, e)" by (cases x)
  have b: "sp_buf s = pre @ l @ e @ text_of ls" using Cons.prems(2) x by simp
  have ok: "line_ok (l, e)" using Cons.prems(1) x by simp
  note line = sp_ReadLine_line [OF b Cons.prems(3) ok]
  have "sp_all_lines (snd (sp_ReadLine s)) = map fst ls"
    using Cons.IH [OF _ line(4) line(3)] Cons.prems(1) by simp
  with line x show ?case by (simp add: sp_all_lines.simps [of s])
qed

section \<open>Pattern search\<close>

definition occurs_at :: "string \<Rightarrow> string \<Rightarrow> nat \<Rightarrow> bool" where
  "occurs_at cs buf i \<longleftrightarrow> i + length cs \<le> length buf \<and> take (length cs) (drop i buf) = cs"

lemma sp_search_loop_first:
  "length cs \<le> length buf \<Longrightarrow>
     (case sp_search_loop cs buf p of
        Some i \<Rightarrow> p \<le> i \<and> occurs_at cs buf i \<and> (\<forall>j. p \<le> j \<and> j < i \<longrightarrow> \<not> occurs_at cs buf j)
      | None \<Rightarrow> \<forall>j. p \<le> j \<longrightarrow> \<not> occurs_at cs buf j)"
proof (induction cs buf p rule: sp_search_loop.induct)
  case (1 cs buf p)
  consider (past) "\<not> p \<le> length buf - length cs"
    | (here) "p \<le> length buf - length cs" "pattern_at cs buf p"
    | (on) "p \<le> length buf - length cs" "\<not> pattern_at cs buf p" by blast
  then show ?case
  proof cases
    case past
    then show ?thesis by (auto simp: sp_search_loop.simps [of cs buf p] occurs_at_def)
  next
    case here
    with 1(2) show ?thesis
      by (auto simp: sp_search_loop.simps [of cs buf p] occurs_at_def pattern_at_eq)
  next
    case on
    have no: "\<not> occurs_at cs buf p" using on 1(2) by (auto simp: occurs_at_def pattern_at_eq)
    have eq: "sp_search_loop cs buf p = sp_search_loop cs buf (Suc p)"
      using on by (simp add: sp_search_loop.simps [of cs buf p])
    have split: "p \<le> j \<longleftrightarrow> j = p \<or> Suc p \<le> j" for j by auto
    show ?thesis unfolding eq using 1(1) [OF on 1(2)] no
      by (auto simp: split split: option.splits)
  qed
qed

section \<open>Quoted strings\<close>

text \<open>The escapes that the reader undoes.\<close>

definition dq_escape_char :: "char \<Rightarrow> string" where
  "dq_escape_char c =
     (if c = LF then [BACKSLASH, CHR ''n''] else if c = CR then [BACKSLASH, CHR ''r'']
      else if c = TAB then [BACKSLASH, CHR ''t'']
      else if c = BACKSLASH \<or> c = DQUOTE \<or> c = SQUOTE then [BACKSLASH, c] else [c])"

definition dq_escape :: "string \<Rightarrow> string" where
  "dq_escape s = concat (map dq_escape_char s)"

lemma dq_escape_char_cases:
  "(dq_escape_char c = [c] \<and> c \<noteq> LF \<and> c \<noteq> CR \<and> c \<noteq> BACKSLASH \<and> c \<noteq> DQUOTE \<and> c \<noteq> SQUOTE)
   \<or> (\<exists>e. dq_escape_char c = [BACKSLASH, e] \<and>
        (e = CHR ''n'' \<and> c = LF \<or> e = CHR ''r'' \<and> c = CR \<or> e = CHR ''t'' \<and> c = TAB
          \<or> e = c \<and> (c = BACKSLASH \<or> c = DQUOTE \<or> c = SQUOTE)))"
  by (simp add: dq_escape_char_def)

lemma sp_quoted_step_escape:
  assumes "buf = pre @ dq_escape_char c @ post" and "q = DQUOTE \<or> q = SQUOTE"
  shows "sp_quoted_step q buf (length pre) v = Inr (length pre + length (dq_escape_char c), v @ [c])"
proof -
  show ?thesis
  proof (rule disjE [OF dq_escape_char_cases [of c]], goal_cases)
    case 1
    then have "buf ! length pre = c" "c \<noteq> q" using assms(2) by (auto simp: assms(1) nth_append)
    with 1 show ?thesis by (simp add: sp_quoted_step_def)
  next
    case 2
    then obtain e where e: "dq_escape_char c = [BACKSLASH, e]"
      "e = CHR ''n'' \<and> c = LF \<or> e = CHR ''r'' \<and> c = CR \<or> e = CHR ''t'' \<and> c = TAB
        \<or> e = c \<and> (c = BACKSLASH \<or> c = DQUOTE \<or> c = SQUOTE)" by (elim exE conjE)
    have buf: "buf = pre @ BACKSLASH # e # post" using assms(1) e(1) by simp
    have at: "buf ! length pre = BACKSLASH" "buf ! Suc (length pre) = e" "\<not> length buf \<le> Suc (length pre)"
      by (simp_all add: buf nth_append)
    have "BACKSLASH \<noteq> q" using assms(2) by auto
    with e(2) show ?thesis
      by (elim disjE conjE) (simp_all add: sp_quoted_step_def dq_escape_char_def at Let_def)
  qed
qed

lemma dq_escape_char_nonempty: "dq_escape_char c \<noteq> []"
  by (simp add: dq_escape_char_def)

lemma sp_quoted_loop_escape:
  assumes "q = DQUOTE \<or> q = SQUOTE"
  shows "sp_quoted_loop q (pre @ dq_escape w @ q # post) (length pre) v
    = Some (v @ w, length pre + length (dq_escape w) + 1)"
proof (induction w arbitrary: pre v)
  case Nil
  then show ?case
    by (simp add: dq_escape_def sp_quoted_loop.simps [of q "pre @ q # post"] sp_quoted_step_def Let_def)
next
  case (Cons c w)
  let ?buf = "pre @ dq_escape (c # w) @ q # post" and ?e = "dq_escape_char c"
  have b: "?buf = pre @ ?e @ (dq_escape w @ q # post)" by (simp add: dq_escape_def)
  have step: "sp_quoted_step q ?buf (length pre) v = Inr (length (pre @ ?e), v @ [c])"
    using sp_quoted_step_escape [OF b assms, of v] by simp
  have "sp_quoted_loop q ?buf (length pre) v = sp_quoted_loop q ?buf (length (pre @ ?e)) (v @ [c])"
    using step by (subst sp_quoted_loop.simps) simp
  also have "\<dots> = sp_quoted_loop q ((pre @ ?e) @ dq_escape w @ q # post) (length (pre @ ?e)) (v @ [c])"
    by (simp add: dq_escape_def)
  also have "\<dots> = Some ((v @ [c]) @ w, length (pre @ ?e) + length (dq_escape w) + 1)"
    by (rule Cons.IH)
  finally show ?case by (simp add: dq_escape_def)
qed

text \<open>Reading a quoted string from the front of a text, as a decoder.\<close>

definition sp_parser :: "string \<Rightarrow> strparse" where
  "sp_parser text = new_strparse\<lparr>sp_null := False, sp_buf := text\<rparr>"

definition read_quoted :: "string \<Rightarrow> (string \<times> string) option" where
  "read_quoted text =
     (case sp_ReadQuotedString (sp_parser text) of
        ((ok, v), s) \<Rightarrow> if ok then Some (v, drop (sp_read s) text) else None)"

lemma sp_ReadQuotedString_escape:
  assumes "sp_buf s = pre @ q # dq_escape w @ q # post" and "sp_read s = length pre"
    and "q = DQUOTE \<or> q = SQUOTE"
  shows "sp_ReadQuotedString s = ((True, w),
    s\<lparr>sp_read := length pre + length (dq_escape w) + 2, sp_prev := Suc (length pre),
      sp_prevlen := length (dq_escape w)\<rparr>)"
proof -
  have q: "sp_buf s ! sp_read s = q" by (simp add: assms(1,2))
  have b: "sp_buf s = (pre @ [q]) @ dq_escape w @ q # post" by (simp add: assms(1))
  have "sp_quoted_loop q (sp_buf s) (Suc (sp_read s)) [] = Some (w, length pre + length (dq_escape w) + 2)"
    using sp_quoted_loop_escape [OF assms(3), of "pre @ [q]" w post "[]"] b assms(2) by simp
  then show ?thesis
    using assms q by (auto simp: sp_ReadQuotedString_def Let_def)
qed

interpretation quoted_codec: stream_codec "\<lambda>w. DQUOTE # dq_escape w @ [DQUOTE]" read_quoted "\<lambda>_. True"
proof unfold_locales
  fix w rest
  show "read_quoted ((DQUOTE # dq_escape w @ [DQUOTE]) @ rest) = Some (w, rest)"
    using sp_ReadQuotedString_escape [of "sp_parser (DQUOTE # dq_escape w @ DQUOTE # rest)" "[]"
        DQUOTE w rest]
    by (simp add: read_quoted_def sp_parser_def new_strparse_def sp_Init_def)
qed simp

section \<open>Theorems\<close>

lemma sp_PrevStr_length: "sp_token s \<Longrightarrow> length (sp_PrevStr s) = sp_prevlen s"
  by (simp add: sp_PrevStr_def sp_token_def)



text \<open>A pattern search that fits in the rest of the buffer returns true exactly if the pattern
  occurs at or after the read position, and then the read position is its first occurrence and
  the token is the text before it; otherwise the read position stays.\<close>

theorem strparse_search_first:
  assumes "sp_inv s" and "\<not> sp_null s" and "length cs \<le> sp_end s - sp_read s"
    and "sp_SearchPattern cs s = (found, s')"
  shows "(found \<longleftrightarrow> (\<exists>i\<ge>sp_read s. occurs_at cs (sp_buf s) i))
    \<and> (found \<longrightarrow> occurs_at cs (sp_buf s) (sp_read s')
         \<and> (\<forall>j. sp_read s \<le> j \<and> j < sp_read s' \<longrightarrow> \<not> occurs_at cs (sp_buf s) j)
         \<and> sp_PrevStr s' = take (sp_read s' - sp_read s) (drop (sp_read s) (sp_buf s)))
    \<and> (\<not> found \<longrightarrow> sp_read s' = sp_read s)"
proof -
  have fit: "length cs \<le> sp_end s" using assms(3) by linarith
  note first = sp_search_loop_first [OF fit, of "sp_read s"]
  show ?thesis
  proof (cases "sp_search_loop cs (sp_buf s) (sp_read s)")
    case None
    with first assms show ?thesis by (auto simp: sp_SearchPattern_def Let_def)
  next
    case (Some i)
    with first assms have "found" "s' = s\<lparr>sp_prev := sp_read s, sp_prevlen := i - sp_read s, sp_read := i\<rparr>"
      by (auto simp: sp_SearchPattern_def Let_def)
    with first Some show ?thesis by (auto simp: sp_PrevStr_def)
  qed
qed

lemma strparse_search_first_witness:
  "let s' = snd (sp_SearchPattern ''bc'' (sp_parser ''abc'')) in
   fst (sp_SearchPattern ''bc'' (sp_parser ''abc'')) \<and> occurs_at ''bc'' ''abc'' (sp_read s')"
  using strparse_search_first [of "sp_parser ''abc''" "''bc''" True
      "snd (sp_SearchPattern ''bc'' (sp_parser ''abc''))"]
  by (simp add: sp_parser_def new_strparse_def sp_Init_def sp_inv_def sp_SearchPattern_def
      sp_search_loop.simps occurs_at_def)

lemma sp_Init_whole:
  "sp_buf (sp_Init (Some m) (length m) s) = m" "sp_read (sp_Init (Some m) n s) = 0"
  by (cases m) (simp_all add: sp_Init_def)

text \<open>Reading line by line to the end returns exactly the lines of the text, for any mix of
  LF and CRLF line ends.\<close>

theorem strparse_reads_all_lines:
  assumes "list_all line_ok ls"
  shows "sp_all_lines (sp_Init (Some (text_of ls)) (length (text_of ls)) s0) = map fst ls"
  by (rule sp_all_lines_text [OF assms, of _ "[]"]) (simp_all only: sp_Init_whole append_Nil list.size(3))

lemma strparse_reads_all_lines_witness:
  "sp_all_lines (sp_Init (Some [CHR ''a'', CR, LF, LF, CHR ''b'', LF]) 6 new_strparse) = [''a'', [], ''b'']"
  using strparse_reads_all_lines [of "[(''a'', [CR, LF]), ([], [LF]), (''b'', [LF])]" new_strparse]
  by (simp add: line_ok_def numeral_eq_Suc)

text \<open>C34: The quoted-string reader inverts escaping for every string and both quotes: reading at
  the opening quote returns the string and stands behind the closing quote.\<close>

theorem strparse_quoted_roundtrip:
  assumes "sp_buf s = pre @ q # dq_escape w @ q # post" and "sp_read s = length pre"
    and "q = DQUOTE \<or> q = SQUOTE"
  shows "\<exists>s'. sp_ReadQuotedString s = ((True, w), s') \<and> drop (sp_read s') (sp_buf s') = post
    \<and> sp_PrevStr s' = dq_escape w"
  using assms by (simp add: sp_ReadQuotedString_escape [OF assms] sp_PrevStr_def)

lemma strparse_quoted_roundtrip_witness:
  "\<exists>s'. sp_ReadQuotedString (sp_parser (DQUOTE # dq_escape [CHR ''a'', LF, DQUOTE] @ DQUOTE # ''z''))
      = ((True, [CHR ''a'', LF, DQUOTE]), s') \<and> drop (sp_read s') (sp_buf s') = ''z''
    \<and> sp_PrevStr s' = dq_escape [CHR ''a'', LF, DQUOTE]"
  using strparse_quoted_roundtrip [of "sp_parser (DQUOTE # dq_escape [CHR ''a'', LF, DQUOTE] @ DQUOTE # ''z'')"
      "[]" DQUOTE "[CHR ''a'', LF, DQUOTE]" "''z''"]
  by (simp add: sp_parser_def new_strparse_def sp_Init_def)

end
