(* ===== verification/Json_Tools.thy ===== *)
theory Json_Tools
  imports Cursor "HOL-Library.Monad_Syntax"
begin

text \<open>
  The JSON library of \<open>compiler/utils/jsontools.{h,cpp}\<close>. A text pointer is the rest of the
  text behind it; the text is zero-terminated, so reading behind its end gives the zero byte. A
  thrown exception is an \<open>Inl\<close>; what a throw leaves of a half-parsed node is not modelled. A
  node does not hold its parent: whether it has one is an argument of \<open>Parse\<close>. The conversions
  between numbers and their text that go through \<open>double\<close> are not modelled.
\<close>

unbundle bit_operations_syntax

section \<open>Text primitives\<close>

datatype json_error =
    ExpectedString | ControlCharacter | InvalidEscapeU | InvalidSurrogatePair
  | InvalidEscapeULow | InvalidLowSurrogate | UnexpectedLowSurrogate | InvalidEscape
  | InvalidNumber | InvalidFraction | InvalidExponent
  | InvalidPathIndex | UnterminatedPathIndex | PathIndexRange
  | NotABoolean | NotACollection | IndexOutOfRange | DeleteNeedsObject
  | RootNotCollection | TrailingContent | ExpectedKey | ExpectedColon
  | ExpectedCommaOrBrace | ExpectedCommaOrBracket | InvalidToken | UnexpectedCharacter
  | NegativeIndex

abbreviation NUL :: char where "NUL \<equiv> CHR 0x00"

definition peek :: "string \<Rightarrow> char" where
  "peek p = (case p of [] \<Rightarrow> NUL | c # _ \<Rightarrow> c)"

definition peek_at :: "nat \<Rightarrow> string \<Rightarrow> char" where
  "peek_at i p = peek (drop i p)"

definition is_space :: "char \<Rightarrow> bool" where
  "is_space c \<longleftrightarrow> c = CHR '' '' \<or> (9 \<le> char_nat c \<and> char_nat c \<le> 13)"

fun SkipWs :: "string \<Rightarrow> string" where
  "SkipWs [] = []"
| "SkipWs (c # p) = (if c \<noteq> NUL \<and> is_space c then SkipWs p else c # p)"

definition IsHex :: "char \<Rightarrow> bool" where
  "IsHex c \<longleftrightarrow> (CHR ''0'' \<le> c \<and> c \<le> CHR ''9'') \<or> (CHR ''a'' \<le> c \<and> c \<le> CHR ''f'')
     \<or> (CHR ''A'' \<le> c \<and> c \<le> CHR ''F'')"

definition HexVal :: "char \<Rightarrow> 32 word" where
  "HexVal c =
     (if CHR ''0'' \<le> c \<and> c \<le> CHR ''9'' then of_nat (char_nat c - char_nat (CHR ''0''))
      else if CHR ''a'' \<le> c \<and> c \<le> CHR ''f'' then of_nat (10 + (char_nat c - char_nat (CHR ''a'')))
      else 10 + of_int (schar c - schar (CHR ''A'')))"

text \<open>A \<open>static_cast<char>\<close> keeps the low eight bits.\<close>

definition byte_char :: "32 word \<Rightarrow> char" where
  "byte_char w = char_of (unat w)"

definition AppendUtf8 :: "string \<Rightarrow> 32 word \<Rightarrow> string" where
  "AppendUtf8 out cp =
     (if cp \<le> 0x7F then out @ [byte_char cp]
      else if cp \<le> 0x7FF then
        out @ [byte_char (0xC0 OR drop_bit 6 cp), byte_char (0x80 OR (cp AND 0x3F))]
      else if cp \<le> 0xFFFF then
        out @ [byte_char (0xE0 OR drop_bit 12 cp), byte_char (0x80 OR (drop_bit 6 cp AND 0x3F)),
               byte_char (0x80 OR (cp AND 0x3F))]
      else if cp \<le> 0x10FFFF then
        out @ [byte_char (0xF0 OR drop_bit 18 cp), byte_char (0x80 OR (drop_bit 12 cp AND 0x3F)),
               byte_char (0x80 OR (drop_bit 6 cp AND 0x3F)), byte_char (0x80 OR (cp AND 0x3F))]
      else out @ [CHR 0xEF, CHR 0xBF, CHR 0xBD])"

section \<open>Strings\<close>

text \<open>Four hexadecimal digits at \<open>p\<close>.\<close>

definition hex4_ok :: "string \<Rightarrow> bool" where
  "hex4_ok p \<longleftrightarrow> IsHex (peek_at 0 p) \<and> IsHex (peek_at 1 p) \<and> IsHex (peek_at 2 p) \<and> IsHex (peek_at 3 p)"

definition hex4 :: "string \<Rightarrow> 32 word" where
  "hex4 p = push_bit 12 (HexVal (peek_at 0 p)) OR push_bit 8 (HexVal (peek_at 1 p))
     OR push_bit 4 (HexVal (peek_at 2 p)) OR HexVal (peek_at 3 p)"

text \<open>The \<open>\u\<close> escape, behind the letter \<open>u\<close>: the new output and the rest.\<close>

definition json_unicode_escape :: "string \<Rightarrow> string \<Rightarrow> json_error + (string \<times> string)" where
  "json_unicode_escape out p =
     ebind (require (hex4_ok p) InvalidEscapeU) (\<lambda>_.
       let u = hex4 p; p = drop 4 p in
       if u \<ge> 0xD800 \<and> u \<le> 0xDBFF then
         ebind (require (peek_at 0 p = BACKSLASH \<and> peek_at 1 p = CHR ''u'') InvalidSurrogatePair) (\<lambda>_.
           let p = drop 2 p in
           ebind (require (hex4_ok p) InvalidEscapeULow) (\<lambda>_.
             let l = hex4 p; p = drop 4 p in
             ebind (require (l \<ge> 0xDC00 \<and> l \<le> 0xDFFF) InvalidLowSurrogate) (\<lambda>_.
               Inr (AppendUtf8 out (0x10000 + (push_bit 10 (u - 0xD800) OR (l - 0xDC00))), p))))
       else if u \<ge> 0xDC00 \<and> u \<le> 0xDFFF then Inl UnexpectedLowSurrogate
       else Inr (AppendUtf8 out u, p))"

text \<open>One pass of the loop over the characters: an error, the end of the string, or more.\<close>

datatype string_pass = StrEnd string string | StrMore string string

definition json_string_pass :: "string \<Rightarrow> string \<Rightarrow> json_error + string_pass" where
  "json_string_pass out p =
     (let c = peek p; p = drop 1 p in
      if c = DQUOTE then Inr (StrEnd out p)
      else if char_nat c < 0x20 then Inl ControlCharacter
      else if c \<noteq> BACKSLASH then Inr (StrMore (out @ [c]) p)
      else
        let e = peek p; p = drop 1 p in
        if e = DQUOTE then Inr (StrMore (out @ [DQUOTE]) p)
        else if e = BACKSLASH then Inr (StrMore (out @ [BACKSLASH]) p)
        else if e = CHR ''/'' then Inr (StrMore (out @ [CHR ''/'']) p)
        else if e = CHR ''b'' then Inr (StrMore (out @ [CHR 0x08]) p)
        else if e = CHR ''f'' then Inr (StrMore (out @ [CHR 0x0C]) p)
        else if e = CHR ''n'' then Inr (StrMore (out @ [LF]) p)
        else if e = CHR ''r'' then Inr (StrMore (out @ [CR]) p)
        else if e = CHR ''t'' then Inr (StrMore (out @ [TAB]) p)
        else if e = CHR ''u'' then
          ebind (json_unicode_escape out p) (\<lambda>(out', p'). Inr (StrMore out' p'))
        else Inl InvalidEscape)"

lemma json_unicode_escape_length:
  "json_unicode_escape out p = Inr (out', p') \<Longrightarrow> length p' \<le> length p"
  by (auto simp: json_unicode_escape_def ebind_Inr_iff require_Inr_iff Let_def split: if_splits)

lemma json_string_pass_length:
  "json_string_pass out p = Inr (StrMore out' p') \<Longrightarrow> p \<noteq> [] \<Longrightarrow> length p' < length p"
  by (cases p)
    (auto simp: json_string_pass_def ebind_Inr_iff Let_def peek_def dest!: json_unicode_escape_length
      split: if_splits)

function json_string_loop :: "string \<Rightarrow> string \<Rightarrow> json_error + (string \<times> string)" where
  "json_string_loop out p =
     (if peek p = NUL then Inr (out, p)
      else (case json_string_pass out p of
              Inl e \<Rightarrow> Inl e
            | Inr (StrEnd out' p') \<Rightarrow> Inr (out', p')
            | Inr (StrMore out' p') \<Rightarrow> json_string_loop out' p'))"
  by pat_completeness auto
termination
proof (relation "measure (\<lambda>(out, p). length p)", goal_cases)
  case (2 out p x out' p')
  then have "json_string_pass out p = Inr (StrMore out' p')" by simp
  moreover have "p \<noteq> []" using 2(1) by (auto simp: peek_def)
  ultimately show ?case using json_string_pass_length by simp
qed simp

declare json_string_loop.simps [simp del]

definition ParseJsonString :: "string \<Rightarrow> json_error + (string \<times> string)" where
  "ParseJsonString p =
     ebind (require (peek p = DQUOTE) ExpectedString) (\<lambda>_. json_string_loop [] (drop 1 p))"

definition hex_digit :: "nat \<Rightarrow> char" where
  "hex_digit n = ''0123456789ABCDEF'' ! n"

definition encode_json_char :: "char \<Rightarrow> string" where
  "encode_json_char c =
     (if c = DQUOTE then [BACKSLASH, DQUOTE]
      else if c = BACKSLASH then [BACKSLASH, BACKSLASH]
      else if c = CHR 0x08 then [BACKSLASH, CHR ''b'']
      else if c = CHR 0x0C then [BACKSLASH, CHR ''f'']
      else if c = LF then [BACKSLASH, CHR ''n'']
      else if c = CR then [BACKSLASH, CHR ''r'']
      else if c = TAB then [BACKSLASH, CHR ''t'']
      else if char_nat c < 0x20 then
        [BACKSLASH, CHR ''u'', CHR ''0'', CHR ''0'',
         hex_digit (drop_bit 4 (char_nat c) AND 0xF), hex_digit (char_nat c AND 0xF)]
      else [c])"

definition EncodeJsonString :: "string \<Rightarrow> string" where
  "EncodeJsonString s = fold (\<lambda>c out. out @ encode_json_char c) s [DQUOTE] @ [DQUOTE]"

section \<open>Numbers\<close>

fun skip_digits :: "string \<Rightarrow> string" where
  "skip_digits [] = []"
| "skip_digits (c # p) = (if CHR ''0'' \<le> c \<and> c \<le> CHR ''9'' then skip_digits p else c # p)"

text \<open>The three parts of a number; each returns the rest of the text.\<close>

definition number_int :: "string \<Rightarrow> json_error + string" where
  "number_int p =
     (let p = (if peek p = CHR ''-'' then drop 1 p else p)
      in if peek p = CHR ''0'' then Inr (drop 1 p)
         else ebind (require (CHR ''1'' \<le> peek p \<and> peek p \<le> CHR ''9'') InvalidNumber)
           (\<lambda>_. Inr (skip_digits p)))"

definition number_frac :: "string \<Rightarrow> json_error + string" where
  "number_frac p =
     (if peek p = CHR ''.'' then
        let p = drop 1 p in
        ebind (require (CHR ''0'' \<le> peek p \<and> peek p \<le> CHR ''9'') InvalidFraction)
          (\<lambda>_. Inr (skip_digits p))
      else Inr p)"

definition number_exp :: "string \<Rightarrow> json_error + string" where
  "number_exp p =
     (if peek p = CHR ''e'' \<or> peek p = CHR ''E'' then
        let p = drop 1 p; p = (if peek p = CHR ''+'' \<or> peek p = CHR ''-'' then drop 1 p else p) in
        ebind (require (CHR ''0'' \<le> peek p \<and> peek p \<le> CHR ''9'') InvalidExponent)
          (\<lambda>_. Inr (skip_digits p))
      else Inr p)"

text \<open>The lexeme is the text from the start to the place reached.\<close>

definition ParseNumberLexeme :: "string \<Rightarrow> json_error + (string \<times> string)" where
  "ParseNumberLexeme start =
     ebind (number_int start) (\<lambda>p. ebind (number_frac p) (\<lambda>p. ebind (number_exp p) (\<lambda>p.
       Inr (take (length start - length p) start, p))))"

section \<open>Paths\<close>

datatype path_step = Key string | Index int

definition flush_key :: "string \<Rightarrow> path_step list \<Rightarrow> path_step list" where
  "flush_key cur steps = (if cur \<noteq> [] then steps @ [Key cur] else steps)"

text \<open>\<open>stoi\<close> of a text of digits: an exception when the value does not fit an \<open>int\<close>.\<close>

definition digits_value :: "string \<Rightarrow> int" where
  "digits_value ds = foldl (\<lambda>v c. 10 * v + (int (char_nat c) - int (char_nat (CHR ''0'')))) 0 ds"

definition stoi :: "string \<Rightarrow> json_error + int" where
  "stoi ds = (if digits_value ds < 2 ^ 31 then Inr (digits_value ds) else Inl PathIndexRange)"

lemma skip_digits_length: "length (skip_digits p) \<le> length p"
  by (induction p) auto

text \<open>The index behind an opening bracket: the step and the rest behind the closing bracket.\<close>

definition path_index :: "string \<Rightarrow> json_error + (int \<times> string)" where
  "path_index p =
     (let r = skip_digits p; ds = take (length p - length r) p in
      ebind (require (ds \<noteq> []) InvalidPathIndex) (\<lambda>_.
      ebind (require (r \<noteq> [] \<and> hd r = CHR '']'') UnterminatedPathIndex) (\<lambda>_.
      ebind (stoi ds) (\<lambda>idx. Inr (idx, tl r)))))"

lemma path_index_length: "path_index p = Inr (i, r) \<Longrightarrow> length r \<le> length p"
  using skip_digits_length [of p]
  by (auto simp: path_index_def Let_def ebind_Inr_iff require_Inr_iff)

function parse_path_loop :: "string \<Rightarrow> string \<Rightarrow> path_step list \<Rightarrow> json_error + path_step list" where
  "parse_path_loop p cur steps =
     (case p of
        [] \<Rightarrow> Inr (flush_key cur steps)
      | c # p' \<Rightarrow>
          if c = CHR ''.'' \<or> c = CHR ''/'' then parse_path_loop p' [] (flush_key cur steps)
          else if c = CHR ''['' then
            (case path_index p' of
               Inl e \<Rightarrow> Inl e
             | Inr (idx, r) \<Rightarrow> parse_path_loop r [] (flush_key cur steps @ [Index idx]))
          else parse_path_loop p' (cur @ [c]) steps)"
  by pat_completeness auto
termination
  by (relation "measure (\<lambda>(p, cur, steps). length p)") (auto dest: path_index_length)

declare parse_path_loop.simps [simp del]

definition ParsePath :: "string \<Rightarrow> json_error + path_step list" where
  "ParsePath path = parse_path_loop path [] []"

section \<open>Nodes\<close>

datatype node_kind = nkObject | nkArray | nkBool | nkNull | nkNumber | nkString

datatype json_node =
  JNode (FKind: node_kind) (FName: string) (FValue: string) (FChildren: "json_node list")

definition new_node :: json_node where
  "new_node = JNode nkNull [] [] []"

definition SetKind :: "node_kind \<Rightarrow> json_node \<Rightarrow> json_node" where
  "SetKind k n =
     JNode k (FName n)
       (case k of nkBool \<Rightarrow> ''false'' | nkNumber \<Rightarrow> ''0'' | nkString \<Rightarrow> [] | _ \<Rightarrow> []) []"

definition new_node_kind :: "node_kind \<Rightarrow> json_node" where
  "new_node_kind k = SetKind k new_node"

definition SetName :: "string \<Rightarrow> json_node \<Rightarrow> json_node" where
  "SetName name n = JNode (FKind n) name (FValue n) (FChildren n)"

definition GetCount :: "json_node \<Rightarrow> nat" where
  "GetCount n = (if FKind n = nkObject \<or> FKind n = nkArray then length (FChildren n) else 0)"

definition GetAsArray :: "json_node \<Rightarrow> json_node" where
  "GetAsArray n = (if FKind n \<noteq> nkArray then SetKind nkArray n else n)"

definition GetAsObject :: "json_node \<Rightarrow> json_node" where
  "GetAsObject n = (if FKind n \<noteq> nkObject then SetKind nkObject n else n)"

definition GetAsNull :: "json_node \<Rightarrow> json_node" where
  "GetAsNull n = SetKind nkNull n"

definition GetAsBoolean :: "json_node \<Rightarrow> json_error + bool" where
  "GetAsBoolean n = (if FKind n \<noteq> nkBool then Inl NotABoolean else Inr (FValue n = ''true''))"

definition SetAsBoolean :: "bool \<Rightarrow> json_node \<Rightarrow> json_node" where
  "SetAsBoolean v n = JNode nkBool (FName n) (if v then ''true'' else ''false'') []"

definition SetAsString :: "string \<Rightarrow> json_node \<Rightarrow> json_node" where
  "SetAsString v n = JNode nkString (FName n) v []"

text \<open>
  \<open>AddInternal\<close> appends a child; the functions that return the new child by reference return
  the changed parent, whose last child it is.
\<close>

definition AddInternal :: "node_kind \<Rightarrow> string \<Rightarrow> string \<Rightarrow> json_node \<Rightarrow> json_node" where
  "AddInternal kind name v n =
     JNode (FKind n) (FName n) (FValue n) (FChildren n @ [JNode kind name v []])"

definition AddNull :: "string \<Rightarrow> json_node \<Rightarrow> json_node" where
  "AddNull name n = AddInternal nkNull name [] (GetAsObject n)"

definition AddString :: "string \<Rightarrow> string \<Rightarrow> json_node \<Rightarrow> json_node" where
  "AddString name s n = AddInternal nkString name s (GetAsObject n)"

definition AddBool :: "string \<Rightarrow> bool \<Rightarrow> json_node \<Rightarrow> json_node" where
  "AddBool name b n = AddInternal nkBool name (if b then ''true'' else ''false'') (GetAsObject n)"

definition AddInt :: "string \<Rightarrow> int \<Rightarrow> json_node \<Rightarrow> json_node" where
  "AddInt name v n = AddInternal nkNumber name (int_to_string v) (GetAsObject n)"

definition AddItem :: "json_node \<Rightarrow> json_node" where
  "AddItem n = AddInternal nkNull [] [] (GetAsArray n)"

definition RequireCollection :: "json_node \<Rightarrow> json_error + unit" where
  "RequireCollection n =
     (if FKind n \<noteq> nkObject \<and> FKind n \<noteq> nkArray then Inl NotACollection else Inr ())"

definition DeleteIndex :: "int \<Rightarrow> json_node \<Rightarrow> json_error + json_node" where
  "DeleteIndex index n =
     ebind (RequireCollection n) (\<lambda>_.
       if index < 0 \<or> index \<ge> int (length (FChildren n)) then Inl IndexOutOfRange
       else Inr (JNode (FKind n) (FName n) (FValue n)
              (take (nat index) (FChildren n) @ drop (Suc (nat index)) (FChildren n))))"

fun erase_first :: "string \<Rightarrow> json_node list \<Rightarrow> json_node list" where
  "erase_first name [] = []"
| "erase_first name (c # cs) = (if FName c = name then cs else c # erase_first name cs)"

definition DeleteName :: "string \<Rightarrow> json_node \<Rightarrow> json_error + json_node" where
  "DeleteName name n =
     ebind (RequireCollection n) (\<lambda>_.
       if FKind n \<noteq> nkObject then Inl DeleteNeedsObject
       else Inr (JNode (FKind n) (FName n) (FValue n) (erase_first name (FChildren n))))"

definition ClearNode :: "json_node \<Rightarrow> json_node" where
  "ClearNode n =
     (if FKind n = nkObject \<or> FKind n = nkArray
      then JNode (FKind n) (FName n) (FValue n) [] else n)"

definition ChildIndex :: "int \<Rightarrow> json_node \<Rightarrow> json_error + json_node" where
  "ChildIndex index n =
     ebind (RequireCollection n) (\<lambda>_.
       if index < 0 \<or> index \<ge> int (length (FChildren n)) then Inl IndexOutOfRange
       else Inr (FChildren n ! nat index))"

text \<open>The place of the first child of a name, when there is one.\<close>

fun find_name :: "string \<Rightarrow> json_node list \<Rightarrow> nat option" where
  "find_name name [] = None"
| "find_name name (c # cs) =
     (if FName c = name then Some 0 else map_option Suc (find_name name cs))"

definition ChildName :: "string \<Rightarrow> json_node \<Rightarrow> nat option" where
  "ChildName name n = (if FKind n \<noteq> nkObject then None else find_name name (FChildren n))"

section \<open>Parsing\<close>

text \<open>The tokens that are no collection, at a place where white space has been skipped.\<close>

definition parse_scalar :: "json_node \<Rightarrow> string \<Rightarrow> json_error + (json_node \<times> string)" where
  "parse_scalar n p =
     (let c = peek p in
      if c = DQUOTE then
        ebind (ParseJsonString p) (\<lambda>(v, p). Inr (JNode nkString (FName n) v [], p))
      else if c = CHR ''t'' then
        (if \<not> (peek_at 1 p = CHR ''r'' \<and> peek_at 2 p = CHR ''u'' \<and> peek_at 3 p = CHR ''e'')
         then Inl InvalidToken else Inr (SetAsBoolean True n, drop 4 p))
      else if c = CHR ''f'' then
        (if \<not> (peek_at 1 p = CHR ''a'' \<and> peek_at 2 p = CHR ''l'' \<and> peek_at 3 p = CHR ''s''
               \<and> peek_at 4 p = CHR ''e'')
         then Inl InvalidToken else Inr (SetAsBoolean False n, drop 5 p))
      else if c = CHR ''n'' then
        (if \<not> (peek_at 1 p = CHR ''u'' \<and> peek_at 2 p = CHR ''l'' \<and> peek_at 3 p = CHR ''l'')
         then Inl InvalidToken else Inr (SetKind nkNull n, drop 4 p))
      else if c = CHR ''-'' \<or> (CHR ''0'' \<le> c \<and> c \<le> CHR ''9'') then
        ebind (ParseNumberLexeme p) (\<lambda>(v, p). Inr (JNode nkNumber (FName n) v [], p))
      else Inl UnexpectedCharacter)"

text \<open>A child is appended with its name and then parsed in place.\<close>

definition with_child :: "json_node \<Rightarrow> json_node \<Rightarrow> json_node" where
  "with_child child n = JNode (FKind n) (FName n) (FValue n) (FChildren n @ [child])"

text \<open>
  \<open>ParseValueIntoThis\<close>, and its two loops over the members of an object and the items of an
  array. The recursion is bounded by a number of steps: \<open>None\<close> says that it did not suffice. The
  lemma \<open>parse_enough\<close> shows that twice the length of the text always does.
\<close>

fun parse_value :: "nat \<Rightarrow> json_node \<Rightarrow> string \<Rightarrow> (json_error + (json_node \<times> string)) option"
  and parse_members :: "nat \<Rightarrow> json_node \<Rightarrow> string \<Rightarrow> (json_error + (json_node \<times> string)) option"
  and parse_items :: "nat \<Rightarrow> json_node \<Rightarrow> string \<Rightarrow> (json_error + (json_node \<times> string)) option"
where
  "parse_value 0 n p = None"
| "parse_value (Suc f) n p =
     (let p = SkipWs p; c = peek p in
      if c = CHR ''{'' then
        let n = SetKind nkObject n; p = SkipWs (drop 1 p) in
        if peek p = CHR ''}'' then Some (Inr (n, drop 1 p)) else parse_members f n p
      else if c = CHR ''['' then
        let n = SetKind nkArray n; p = SkipWs (drop 1 p) in
        if peek p = CHR '']'' then Some (Inr (n, drop 1 p)) else parse_items f n p
      else Some (parse_scalar n p))"
| "parse_members 0 n p = None"
| "parse_members (Suc f) n p =
     (let p = SkipWs p in
      if peek p \<noteq> DQUOTE then Some (Inl ExpectedKey)
      else case ParseJsonString p of
        Inl e \<Rightarrow> Some (Inl e)
      | Inr (key, p) \<Rightarrow>
          (let p = SkipWs p in
           if peek p \<noteq> CHR '':'' then Some (Inl ExpectedColon)
           else case parse_value f (JNode nkNull key [] []) (drop 1 p) of
             None \<Rightarrow> None
           | Some (Inl e) \<Rightarrow> Some (Inl e)
           | Some (Inr (child, p)) \<Rightarrow>
               (let n = with_child child n; p = SkipWs p; c = peek p in
                if c = CHR '','' then parse_members f n (drop 1 p)
                else if c = CHR ''}'' then Some (Inr (n, drop 1 p))
                else Some (Inl ExpectedCommaOrBrace))))"
| "parse_items 0 n p = None"
| "parse_items (Suc f) n p =
     (case parse_value f (JNode nkNull [] [] []) p of
        None \<Rightarrow> None
      | Some (Inl e) \<Rightarrow> Some (Inl e)
      | Some (Inr (child, p)) \<Rightarrow>
          (let n = with_child child n; p = SkipWs p; c = peek p in
           if c = CHR '','' then parse_items f n (drop 1 p)
           else if c = CHR '']'' then Some (Inr (n, drop 1 p))
           else Some (Inl ExpectedCommaOrBracket)))"

definition parse_fuel :: "string \<Rightarrow> nat" where
  "parse_fuel p = 2 * length p + 2"

definition Parse :: "bool \<Rightarrow> string \<Rightarrow> json_node \<Rightarrow> (json_error + json_node) option" where
  "Parse has_parent json n =
     (let p = SkipWs json in
      if \<not> has_parent \<and> \<not> (peek p = CHR ''{'' \<or> peek p = CHR ''['')
      then Some (Inl RootNotCollection)
      else case parse_value (parse_fuel p) n p of
        None \<Rightarrow> None
      | Some (Inl e) \<Rightarrow> Some (Inl e)
      | Some (Inr (n', p')) \<Rightarrow>
          if peek (SkipWs p') = NUL then Some (Inr n') else Some (Inl TrailingContent))"

text \<open>\<open>TryParse\<close> turns an exception into \<open>False\<close>.\<close>

definition TryParse :: "bool \<Rightarrow> string \<Rightarrow> json_node \<Rightarrow> bool option" where
  "TryParse has_parent json n =
     map_option (\<lambda>r. case r of Inl _ \<Rightarrow> False | Inr _ \<Rightarrow> True) (Parse has_parent json n)"

section \<open>Formatting\<close>

text \<open>The items with a comma before each but the first.\<close>

fun comma_join :: "string list \<Rightarrow> string" where
  "comma_join [] = []"
| "comma_join [x] = x"
| "comma_join (x # y # zs) = x @ '','' @ comma_join (y # zs)"

fun FormatCompact :: "json_node \<Rightarrow> string" where
  "FormatCompact (JNode k name v cs) =
     (case k of
        nkNull \<Rightarrow> ''null''
      | nkBool \<Rightarrow> v
      | nkNumber \<Rightarrow> v
      | nkString \<Rightarrow> EncodeJsonString v
      | nkArray \<Rightarrow> ''['' @ comma_join (map FormatCompact cs) @ '']''
      | nkObject \<Rightarrow> ''{'' @ comma_join (map (\<lambda>c. EncodeJsonString (FName c) @ '':'' @ FormatCompact c) cs)
          @ ''}'')"

text \<open>The lines of a collection: padding, the item, a comma unless it is the last, a line end.\<close>

fun pretty_lines :: "string \<Rightarrow> string list \<Rightarrow> string" where
  "pretty_lines npad [] = []"
| "pretty_lines npad (x # xs) = npad @ x @ (if xs \<noteq> [] then '','' else []) @ [LF] @ pretty_lines npad xs"

fun FormatPretty :: "string \<Rightarrow> string \<Rightarrow> json_node \<Rightarrow> string" where
  "FormatPretty pad indent (JNode k name v cs) =
     (let npad = pad @ indent in
      case k of
        nkNull \<Rightarrow> ''null''
      | nkBool \<Rightarrow> v
      | nkNumber \<Rightarrow> v
      | nkString \<Rightarrow> EncodeJsonString v
      | nkArray \<Rightarrow>
          if cs = [] then ''[]''
          else ''['' @ [LF] @ pretty_lines npad (map (FormatPretty npad indent) cs) @ pad @ '']''
      | nkObject \<Rightarrow>
          if cs = [] then ''{}''
          else ''{'' @ [LF] @ pretty_lines npad
                 (map (\<lambda>c. EncodeJsonString (FName c) @ '': '' @ FormatPretty npad indent c) cs)
               @ pad @ ''}'')"

definition GetAsJson :: "bool \<Rightarrow> string \<Rightarrow> json_node \<Rightarrow> string" where
  "GetAsJson compact indent n = (if compact then FormatCompact n else FormatPretty [] indent n)"

definition GetValue :: "json_node \<Rightarrow> string" where
  "GetValue n =
     (if FKind n = nkObject \<or> FKind n = nkArray then GetAsJson True ''  '' n
      else if FKind n = nkNull then ''null'' else FValue n)"

definition GetAsString :: "json_node \<Rightarrow> string" where
  "GetAsString n =
     (if FKind n = nkString then FValue n
      else if FKind n = nkNull then ''null''
      else if FKind n = nkBool \<or> FKind n = nkNumber then FValue n
      else GetAsJson True ''  '' n)"

section \<open>Path navigation\<close>

text \<open>
  A node below a node is named by the list of child indices that lead to it; \<open>Find\<close> returns
  this address where the code returns the pointer.
\<close>

fun find_steps :: "path_step list \<Rightarrow> json_node \<Rightarrow> nat list option" where
  "find_steps [] cur = Some []"
| "find_steps (Key k # steps) cur =
     (if FKind cur \<noteq> nkObject then None
      else case ChildName k cur of
        None \<Rightarrow> None
      | Some i \<Rightarrow> map_option (Cons i) (find_steps steps (FChildren cur ! i)))"
| "find_steps (Index idx # steps) cur =
     (if FKind cur \<noteq> nkArray then None
      else if idx < 0 \<or> idx \<ge> int (length (FChildren cur)) then None
      else map_option (Cons (nat idx)) (find_steps steps (FChildren cur ! nat idx)))"

definition Find :: "string \<Rightarrow> json_node \<Rightarrow> json_error + nat list option" where
  "Find path n = ebind (ParsePath path) (\<lambda>steps. Inr (find_steps steps n))"

definition Exists :: "string \<Rightarrow> json_node \<Rightarrow> json_error + bool" where
  "Exists path n = ebind (Find path n) (\<lambda>r. Inr (r \<noteq> None))"

fun node_at :: "nat list \<Rightarrow> json_node \<Rightarrow> json_node option" where
  "node_at [] n = Some n"
| "node_at (i # is) n = (if i < length (FChildren n) then node_at is (FChildren n ! i) else None)"

definition set_child :: "nat \<Rightarrow> json_node \<Rightarrow> json_node \<Rightarrow> json_node" where
  "set_child i c n = JNode (FKind n) (FName n) (FValue n) ((FChildren n)[i := c])"

definition AddNulls :: "nat \<Rightarrow> json_node \<Rightarrow> json_node" where
  "AddNulls k n = ((AddInternal nkNull [] []) ^^ k) n"

text \<open>
  \<open>Force\<close> works down the tree; the node it stands on is changed and then one of its children is
  entered. The result is the changed tree and the address of the node.
\<close>

fun force_steps :: "path_step list \<Rightarrow> json_node \<Rightarrow> json_error + (json_node \<times> nat list)" where
  "force_steps [] cur = Inr (cur, [])"
| "force_steps (Key k # steps) cur =
     (let cur = GetAsObject cur;
          cur1 = (case ChildName k cur of None \<Rightarrow> AddInternal nkNull k [] cur | Some _ \<Rightarrow> cur);
          i = (case ChildName k cur of None \<Rightarrow> length (FChildren cur) | Some i \<Rightarrow> i)
      in ebind (force_steps steps (FChildren cur1 ! i)) (\<lambda>(c, addr).
           Inr (set_child i c cur1, i # addr)))"
| "force_steps (Index idx # steps) cur =
     (let cur = GetAsArray cur in
      ebind (require (idx \<ge> 0) NegativeIndex) (\<lambda>_.
        let cur1 = AddNulls (Suc (nat idx) - length (FChildren cur)) cur
        in ebind (force_steps steps (FChildren cur1 ! nat idx)) (\<lambda>(c, addr).
             Inr (set_child (nat idx) c cur1, nat idx # addr))))"

definition Force :: "string \<Rightarrow> json_node \<Rightarrow> json_error + (json_node \<times> nat list)" where
  "Force path n = ebind (ParsePath path) (\<lambda>steps. force_steps steps n)"

end
