(* ===== verification/Json_Props.thy ===== *)
theory Json_Props
  imports Json_Tools
begin

text \<open>
  The lemmas of the JSON library: string literals form a codec, the number reader implements the
  JSON grammar, the parser reads every rendering of a tree whatever white space stands between
  the tokens, and both formatters produce renderings.
\<close>

section \<open>Strings\<close>

lemma hex_digit_cases: "d < 16 \<Longrightarrow> d \<in> {0, 1, 2, 3, 4, 5, 6, 7, 8, 9, 10, 11, 12, 13, 14, 15 :: nat}"
  unfolding insert_iff empty_iff by presburger

lemma hex_digit_val: "d < 16 \<Longrightarrow> IsHex (hex_digit d) \<and> HexVal (hex_digit d) = of_nat d"
  by (drule hex_digit_cases, elim insertE emptyE)
    (simp_all add: hex_digit_def IsHex_def HexVal_def schar_def less_eq_char_def)

lemma nibble_or: "d < 16 \<Longrightarrow> 16 OR of_nat d = (of_nat (16 + d) :: 32 word)"
  by (drule hex_digit_cases, elim insertE emptyE) simp_all

lemma nibbles:
  assumes "n < 32"
  shows "push_bit 4 (of_nat (n div 16)) OR of_nat (n mod 16) = (of_nat n :: 32 word)"
proof (cases "n < 16")
  case False
  with assms have "n div 16 = 1" "n = 16 + n mod 16" by presburger+
  then show ?thesis using nibble_or [of "n mod 16"] by simp
qed simp

text \<open>The digits of the escape of a control character give the character back.\<close>

lemma control_escape:
  fixes c :: char
  assumes "char_nat c < 32"
  defines "h \<equiv> hex_digit (drop_bit 4 (char_nat c) AND 0xF)" and "l \<equiv> hex_digit (char_nat c AND 0xF)"
  shows "IsHex h" and "IsHex l"
    and "push_bit 12 (HexVal (CHR ''0'')) OR push_bit 8 (HexVal (CHR ''0''))
      OR push_bit 4 (HexVal h) OR HexVal l = of_nat (char_nat c)"
proof -
  let ?n = "char_nat c"
  have nib: "drop_bit 4 ?n AND 0xF = ?n div 16" "?n AND 0xF = ?n mod 16"
    using assms(1) and_nat_mask [of "drop_bit 4 ?n" 4] and_nat_mask [of ?n 4]
    by (simp_all add: drop_bit_eq_div)
  have h: "IsHex h" "HexVal h = of_nat (?n div 16)" and l: "IsHex l" "HexVal l = of_nat (?n mod 16)"
    using hex_digit_val [of "?n div 16"] hex_digit_val [of "?n mod 16"] assms(1)
    by (simp_all add: h_def l_def nib)
  then show "IsHex h" "IsHex l" by blast+
  have "HexVal (CHR ''0'') = 0" by (simp add: HexVal_def less_eq_char_def)
  then show "push_bit 12 (HexVal (CHR ''0'')) OR push_bit 8 (HexVal (CHR ''0''))
      OR push_bit 4 (HexVal h) OR HexVal l = of_nat ?n"
    using nibbles [OF assms(1)] by (simp add: h(2) l(2))
qed

lemma json_unicode_escape_control:
  assumes "char_nat c < 32"
  shows "json_unicode_escape out (CHR ''0'' # CHR ''0'' # hex_digit (drop_bit 4 (char_nat c) AND 0xF)
    # hex_digit (char_nat c AND 0xF) # p) = Inr (out @ [c], p)"
proof -
  let ?h = "hex_digit (drop_bit 4 (char_nat c) AND 0xF)" and ?l = "hex_digit (char_nat c AND 0xF)"
  let ?q = "CHR ''0'' # CHR ''0'' # ?h # ?l # p" and ?w = "of_nat (char_nat c) :: 32 word"
  have ok: "IsHex ?h" "IsHex ?l" and u: "hex4 ?q = ?w"
    using control_escape [OF assms] by (simp_all add: hex4_def peek_at_def peek_def)
  have hex: "hex4_ok ?q" using ok by (simp add: hex4_ok_def peek_at_def peek_def IsHex_def)
  have unat: "unat ?w = char_nat c" using assms by (simp add: unat_of_nat)
  then have small: "?w < 0x20" using assms by (simp add: word_less_nat_alt)
  then have "?w \<le> 0x7F" "\<not> 0xD800 \<le> ?w" "\<not> 0xDC00 \<le> ?w"
    by (simp_all add: word_less_nat_alt word_le_nat_alt)
  then show ?thesis
    using hex u unat by (simp add: json_unicode_escape_def Let_def AppendUtf8_def byte_char_def)
qed

lemma json_string_pass_encode:
  "json_string_pass out (encode_json_char c @ p) = Inr (StrMore (out @ [c]) p)"
proof -
  consider (short) "c \<in> {DQUOTE, BACKSLASH, CHR 0x08, CHR 0x0C, LF, CR, TAB}"
    | (control) "c \<notin> {DQUOTE, BACKSLASH, CHR 0x08, CHR 0x0C, LF, CR, TAB}" "char_nat c < 32"
    | (plain) "c \<notin> {DQUOTE, BACKSLASH, CHR 0x08, CHR 0x0C, LF, CR, TAB}" "\<not> char_nat c < 32"
    by blast
  then show ?thesis
  proof cases
    case short
    then show ?thesis
      by (elim insertE emptyE) (simp_all add: encode_json_char_def json_string_pass_def peek_def Let_def)
  next
    case control
    then show ?thesis
      using json_unicode_escape_control [OF control(2), of out p]
      by (simp add: encode_json_char_def json_string_pass_def peek_def Let_def)
  next
    case plain
    then show ?thesis by (simp add: encode_json_char_def json_string_pass_def peek_def Let_def)
  qed
qed

lemma encode_json_char_head: "encode_json_char c \<noteq> [] \<and> hd (encode_json_char c) \<noteq> NUL"
  by (auto simp: encode_json_char_def)

lemma json_string_loop_encode:
  "json_string_loop out (concat (map encode_json_char s) @ DQUOTE # rest) = Inr (out @ s, rest)"
proof (induction s arbitrary: out)
  case Nil
  then show ?case
    by (simp add: json_string_loop.simps [of out "DQUOTE # rest"] json_string_pass_def peek_def)
next
  case (Cons c s)
  let ?p = "concat (map encode_json_char s) @ DQUOTE # rest"
  have "peek (encode_json_char c @ ?p) \<noteq> NUL"
    using encode_json_char_head [of c] by (cases "encode_json_char c") (simp_all add: peek_def)
  then have "json_string_loop out (encode_json_char c @ ?p) = json_string_loop (out @ [c]) ?p"
    by (simp add: json_string_loop.simps [of out "encode_json_char c @ ?p"] json_string_pass_encode)
  then show ?case using Cons.IH [of "out @ [c]"] by simp
qed

lemma EncodeJsonString_eq: "EncodeJsonString s = DQUOTE # concat (map encode_json_char s) @ [DQUOTE]"
proof -
  have "fold (\<lambda>c out. out @ encode_json_char c) s out = out @ concat (map encode_json_char s)" for out
    by (induction s arbitrary: out) simp_all
  then show ?thesis by (simp add: EncodeJsonString_def)
qed

lemma ParseJsonString_encode: "ParseJsonString (EncodeJsonString s @ rest) = Inr (s, rest)"
  using json_string_loop_encode [of "[]" s rest]
  by (simp add: ParseJsonString_def EncodeJsonString_eq peek_def)

definition read_json_string :: "string \<Rightarrow> (string \<times> string) option" where
  "read_json_string p = (case ParseJsonString p of Inl _ \<Rightarrow> None | Inr r \<Rightarrow> Some r)"

interpretation json_str: stream_codec EncodeJsonString read_json_string "\<lambda>_. True"
  by unfold_locales (simp_all add: read_json_string_def ParseJsonString_encode, simp add: EncodeJsonString_eq)

section \<open>Numbers\<close>

abbreviation digit :: "char \<Rightarrow> bool" where
  "digit c \<equiv> CHR ''0'' \<le> c \<and> c \<le> CHR ''9''"

definition digits1 :: "string \<Rightarrow> bool" where
  "digits1 ds \<longleftrightarrow> ds \<noteq> [] \<and> list_all digit ds"

text \<open>The grammar the comment of the code gives: \<open>-?(0|[1-9]\d*)(\.\d+)?([eE][+-]?\d+)?\<close>\<close>

definition int_part :: "string \<Rightarrow> bool" where
  "int_part s \<longleftrightarrow> (\<exists>sg ip. s = sg @ ip \<and> (sg = [] \<or> sg = ''-'')
     \<and> (ip = ''0'' \<or> digits1 ip \<and> hd ip \<noteq> CHR ''0''))"

definition frac_part :: "string \<Rightarrow> bool" where
  "frac_part s \<longleftrightarrow> s = [] \<or> (\<exists>ds. s = CHR ''.'' # ds \<and> digits1 ds)"

definition exp_part :: "string \<Rightarrow> bool" where
  "exp_part s \<longleftrightarrow> s = [] \<or> (\<exists>e sg ds. s = e # sg @ ds \<and> (e = CHR ''e'' \<or> e = CHR ''E'')
     \<and> (sg = [] \<or> sg = ''+'' \<or> sg = ''-'') \<and> digits1 ds)"

definition json_number :: "string \<Rightarrow> bool" where
  "json_number s \<longleftrightarrow> (\<exists>i f e. s = i @ f @ e \<and> int_part i \<and> frac_part f \<and> exp_part e)"

text \<open>What may follow a number without being taken for a part of it.\<close>

definition number_end :: "string \<Rightarrow> bool" where
  "number_end p \<longleftrightarrow> \<not> digit (peek p) \<and> peek p \<noteq> CHR ''.'' \<and> peek p \<noteq> CHR ''e'' \<and> peek p \<noteq> CHR ''E''"

lemma skip_digits_eq: "skip_digits p = dropWhile digit p"
  by (induction p) auto

lemma skip_digits_app: "list_all digit ds \<Longrightarrow> \<not> digit (peek q) \<Longrightarrow> skip_digits (ds @ q) = q"
  by (induction ds) (auto simp: skip_digits_eq peek_def split: list.splits)

lemma skip_digits_split: "\<exists>ds. p = ds @ skip_digits p \<and> list_all digit ds"
  unfolding skip_digits_eq
  by (metis list.pred_set set_takeWhileD takeWhile_dropWhile_id)

lemma skip_digits1_split:
  "digit (peek p) \<Longrightarrow> \<exists>ds. p = ds @ skip_digits p \<and> digits1 ds \<and> peek p = hd ds"
proof -
  assume d: "digit (peek p)"
  then obtain c p' where p: "p = c # p'" by (cases p) (auto simp: peek_def less_eq_char_def)
  obtain ds where "p' = ds @ skip_digits p'" "list_all digit ds" using skip_digits_split by blast
  with d p show ?thesis
    by (intro exI [of _ "c # ds"]) (auto simp: digits1_def peek_def)
qed

lemma peek_append: "s \<noteq> [] \<Longrightarrow> peek (s @ q) = hd s"
  by (cases s) (simp_all add: peek_def)

lemma peek_Cons [simp]: "peek (c # p) = c" and peek_Nil [simp]: "peek [] = NUL"
  by (simp_all add: peek_def)

lemma digit_nonzero: "digit d \<Longrightarrow> d \<noteq> CHR ''0'' \<longleftrightarrow> CHR ''1'' \<le> d"
proof -
  assume "digit d"
  then have "d \<noteq> CHR ''0'' \<longleftrightarrow> CHR ''0'' < d" by auto
  also have "\<dots> \<longleftrightarrow> CHR ''1'' \<le> d" by (auto simp: less_char_def less_eq_char_def)
  finally show ?thesis .
qed

lemma number_int_app:
  assumes "int_part s" and "\<not> digit (peek q)"
  shows "number_int (s @ q) = Inr q"
proof -
  obtain sg ip where s: "s = sg @ ip" "sg = [] \<or> sg = ''-''"
    and ip: "ip = ''0'' \<or> digits1 ip \<and> hd ip \<noteq> CHR ''0''"
    using assms(1) by (auto simp: int_part_def)
  have plain: "number_int (ip @ q) = Inr q \<and> peek (ip @ q) \<noteq> CHR ''-''"
  proof (cases "ip = ''0''")
    case False
    with ip obtain d ds where d: "ip = d # ds" "digit d" "d \<noteq> CHR ''0''" "list_all digit ds"
      by (cases ip) (auto simp: digits1_def)
    then have "CHR ''1'' \<le> d" using digit_nonzero by simp
    with d skip_digits_app [OF d(4) assms(2)] show ?thesis
      by (auto simp: number_int_def Let_def less_eq_char_def)
  qed (simp add: number_int_def)
  then show ?thesis using s by (auto simp: number_int_def Let_def)
qed

lemma number_frac_app:
  assumes "frac_part s" and "\<not> digit (peek q)" and "s = [] \<Longrightarrow> peek q \<noteq> CHR ''.''"
  shows "number_frac (s @ q) = Inr q"
proof (cases s)
  case Nil
  then show ?thesis using assms by (simp add: number_frac_def)
next
  case (Cons c ds)
  then have "c = CHR ''.''" "digits1 ds" using assms(1) by (auto simp: frac_part_def)
  with Cons skip_digits_app [of ds q] assms(2) show ?thesis
    by (auto simp: number_frac_def digits1_def neq_Nil_conv)
qed

lemma number_exp_app:
  assumes "exp_part s" and "\<not> digit (peek q)" and "s = [] \<Longrightarrow> peek q \<noteq> CHR ''e'' \<and> peek q \<noteq> CHR ''E''"
  shows "number_exp (s @ q) = Inr q"
proof (cases "s = []")
  case True
  then show ?thesis using assms by (simp add: number_exp_def)
next
  case False
  then obtain e sg ds where s: "s = e # sg @ ds" "e = CHR ''e'' \<or> e = CHR ''E''"
    and sg: "sg = [] \<or> sg = ''+'' \<or> sg = ''-''" and ds: "digits1 ds"
    using assms(1) by (auto simp: exp_part_def)
  obtain d ds' where d: "ds = d # ds'" "digit d" "list_all digit ds'"
    using ds by (cases ds) (auto simp: digits1_def)
  then have "d \<noteq> CHR ''+''" "d \<noteq> CHR ''-''" by (auto simp: less_eq_char_def)
  with s sg d skip_digits_app [of ds' q] assms(2) show ?thesis
    by (auto simp: number_exp_def Let_def)
qed

lemma ParseNumberLexeme_complete:
  assumes "json_number s" and "number_end q"
  shows "ParseNumberLexeme (s @ q) = Inr (s, q)"
proof -
  obtain i f e where s: "s = i @ f @ e" "int_part i" "frac_part f" "exp_part e"
    using assms(1) by (auto simp: json_number_def)
  have q: "\<not> digit (peek q)" "peek q \<noteq> CHR ''.''" "peek q \<noteq> CHR ''e''" "peek q \<noteq> CHR ''E''"
    using assms(2) by (simp_all add: number_end_def)
  have e: "\<not> digit (peek (e @ q))" "peek (e @ q) \<noteq> CHR ''.''"
    using s(4) q by (auto simp: exp_part_def less_eq_char_def)
  have f: "\<not> digit (peek (f @ e @ q))"
    using s(3) e by (auto simp: frac_part_def less_eq_char_def)
  show ?thesis
    using number_int_app [OF s(2) f] number_frac_app [OF s(3) e(1)] number_exp_app [OF s(4) q(1)] q e
    by (simp add: ParseNumberLexeme_def s(1))
qed

lemma number_int_sound:
  assumes "number_int p = Inr r"
  shows "\<exists>s. p = s @ r \<and> int_part s"
proof -
  obtain sg p' where p: "p = sg @ p'" "sg = [] \<or> sg = ''-''"
    and p': "p' = (if peek p = CHR ''-'' then drop 1 p else p)"
    by (cases p; cases "peek p = CHR ''-''") auto
  show ?thesis
  proof (cases "peek p' = CHR ''0''")
    case True
    then have "r = drop 1 p'" using assms by (simp add: number_int_def Let_def p')
    with True have "p' = ''0'' @ r" by (cases p') auto
    with p show ?thesis by (auto simp: int_part_def)
  next
    case False
    then have d: "CHR ''1'' \<le> peek p'" "peek p' \<le> CHR ''9''" and r: "r = skip_digits p'"
      using assms p' by (auto simp: number_int_def Let_def ebind_Inr_iff require_Inr_iff)
    then have "digit (peek p')" by (auto simp: less_eq_char_def)
    then obtain ds where "p' = ds @ r" "digits1 ds" "peek p' = hd ds"
      using skip_digits1_split r by blast
    with p False show ?thesis by (auto simp: int_part_def)
  qed
qed

lemma number_frac_sound:
  assumes "number_frac p = Inr r"
  shows "\<exists>s. p = s @ r \<and> frac_part s"
proof (cases "peek p = CHR ''.''")
  case True
  then obtain p' where p: "p = CHR ''.'' # p'" by (cases p) auto
  then have "digit (peek p')" and r: "r = skip_digits p'"
    using assms by (auto simp: number_frac_def ebind_Inr_iff require_Inr_iff)
  then obtain ds where "p' = ds @ r" "digits1 ds" using skip_digits1_split by blast
  with p show ?thesis by (auto simp: frac_part_def)
next
  case False
  with assms show ?thesis by (auto simp: number_frac_def frac_part_def)
qed

lemma number_exp_sound:
  assumes "number_exp p = Inr r"
  shows "\<exists>s. p = s @ r \<and> exp_part s"
proof (cases "peek p = CHR ''e'' \<or> peek p = CHR ''E''")
  case True
  then obtain e p' where p: "p = e # p'" "e = CHR ''e'' \<or> e = CHR ''E''" by (cases p) auto
  obtain sg p'' where p': "p' = sg @ p''" "sg = [] \<or> sg = ''+'' \<or> sg = ''-''"
    and p'': "p'' = (if peek p' = CHR ''+'' \<or> peek p' = CHR ''-'' then drop 1 p' else p')"
    by (cases p'; cases "peek p' = CHR ''+''"; cases "peek p' = CHR ''-''") auto
  have "digit (peek p'')" and r: "r = skip_digits p''"
    using assms True p p'' by (auto simp: number_exp_def Let_def ebind_Inr_iff require_Inr_iff)
  then obtain ds where "p'' = ds @ r" "digits1 ds" using skip_digits1_split by blast
  with p p' show ?thesis
    by (intro exI [of _ "e # sg @ ds"]) (auto simp: exp_part_def)
next
  case False
  with assms show ?thesis by (auto simp: number_exp_def exp_part_def)
qed

lemma ParseNumberLexeme_sound:
  assumes "ParseNumberLexeme p = Inr (s, r)"
  shows "p = s @ r \<and> json_number s"
proof -
  obtain p1 p2 where n: "number_int p = Inr p1" "number_frac p1 = Inr p2" "number_exp p2 = Inr r"
    and s: "s = take (length p - length r) p"
    using assms by (auto simp: ParseNumberLexeme_def ebind_Inr_iff)
  obtain i where i: "p = i @ p1" "int_part i" using number_int_sound [OF n(1)] by blast
  obtain f where f: "p1 = f @ p2" "frac_part f" using number_frac_sound [OF n(2)] by blast
  obtain e where e: "p2 = e @ r" "exp_part e" using number_exp_sound [OF n(3)] by blast
  have "s = i @ f @ e" using s i(1) f(1) e(1) by simp
  with i f e show ?thesis by (auto simp: json_number_def)
qed

end
