(* ===== verification/Json_Parse.thy ===== *)
theory Json_Parse
  imports Json_Props
begin

text \<open>
  The JSON parser as a whole: the steps allowed suffice, every rendering of a well-formed tree
  is read back as that tree, both formatters render, and every operation keeps trees well-formed.
\<close>

section \<open>White space\<close>

definition blank :: "string \<Rightarrow> bool" where
  "blank w \<longleftrightarrow> list_all is_space w"

lemma is_space_not_NUL: "is_space c \<Longrightarrow> c \<noteq> NUL"
  by (auto simp: is_space_def)

lemma SkipWs_blank: "blank w \<Longrightarrow> SkipWs (w @ p) = SkipWs p"
  by (induction w) (auto simp: blank_def is_space_not_NUL)

lemma SkipWs_stop: "p = [] \<or> \<not> is_space (hd p) \<Longrightarrow> SkipWs p = p"
  by (cases p) auto

lemma SkipWs_idem [simp]: "SkipWs (SkipWs p) = SkipWs p"
  by (induction p rule: SkipWs.induct) auto

lemma SkipWs_length: "length (SkipWs p) \<le> length p"
  by (induction p rule: SkipWs.induct) auto

lemma parse_value_SkipWs: "parse_value f n (SkipWs p) = parse_value f n p"
  by (cases f) (simp_all add: Let_def)

lemma parse_items_SkipWs: "parse_items f n (SkipWs p) = parse_items f n p"
  by (cases f) (simp_all add: parse_value_SkipWs)

lemma parse_members_SkipWs: "parse_members f n (SkipWs p) = parse_members f n p"
  by (cases f) (simp_all add: Let_def)

section \<open>The steps suffice\<close>

lemma json_string_loop_length: "json_string_loop out p = Inr (v, r) \<Longrightarrow> length r \<le> length p"
proof (induction out p rule: json_string_loop.induct)
  case (1 out p)
  show ?case
  proof (cases "peek p = NUL")
    case True
    with 1(2) show ?thesis by (simp add: json_string_loop.simps [of out p])
  next
    case False
    then have ne: "p \<noteq> []" by auto
    obtain s where s: "json_string_pass out p = Inr s"
      using 1(2) False by (cases "json_string_pass out p") (simp_all add: json_string_loop.simps [of out p])
    show ?thesis
    proof (cases s)
      case (StrEnd out' p')
      then have "p' = drop 1 p"
        using s by (auto simp: json_string_pass_def Let_def ebind_Inr_iff split: if_splits)
      then show ?thesis using 1(2) False s StrEnd by (auto simp: json_string_loop.simps [of out p])
    next
      case (StrMore out' p')
      have "json_string_loop out' p' = Inr (v, r)"
        using 1(2) False s StrMore by (simp add: json_string_loop.simps [of out p])
      from 1(1) [OF False s StrMore this] json_string_pass_length [OF s [unfolded StrMore] ne]
      show ?thesis by simp
    qed
  qed
qed

lemma ParseJsonString_length: "ParseJsonString p = Inr (v, r) \<Longrightarrow> length r < length p"
proof -
  assume a: "ParseJsonString p = Inr (v, r)"
  then have "p \<noteq> []" and "json_string_loop [] (drop 1 p) = Inr (v, r)"
    by (auto simp: ParseJsonString_def ebind_Inr_iff require_Inr_iff)
  with json_string_loop_length [of "[]" "drop 1 p" v r] show ?thesis by (cases p) auto
qed

lemma int_part_nonempty: "int_part s \<Longrightarrow> s \<noteq> []"
  by (auto simp: int_part_def digits1_def)

lemma ParseNumberLexeme_length: "ParseNumberLexeme p = Inr (v, r) \<Longrightarrow> length r < length p"
  using ParseNumberLexeme_sound [of p v r] int_part_nonempty by (auto simp: json_number_def)

lemma parse_scalar_length: "parse_scalar n p = Inr (n', r) \<Longrightarrow> length r < length p"
proof -
  assume a: "parse_scalar n p = Inr (n', r)"
  then have "p \<noteq> []" by (auto simp: parse_scalar_def Let_def)
  with a show ?thesis
    by (auto simp: parse_scalar_def Let_def ebind_Inr_iff
        dest: ParseJsonString_length ParseNumberLexeme_length split: if_splits)
qed

text \<open>What a successful call has done, case by case.\<close>

lemma parse_value_okE:
  assumes "parse_value (Suc f) n p = Some (Inr (n', r))"
  obtains (empty_object) q where "SkipWs p = CHR ''{'' # q" "n' = SetKind nkObject n"
      "SkipWs q = CHR ''}'' # r"
    | (object) q where "SkipWs p = CHR ''{'' # q" "parse_members f (SetKind nkObject n) (SkipWs q) = Some (Inr (n', r))"
    | (empty_array) q where "SkipWs p = CHR ''['' # q" "n' = SetKind nkArray n"
      "SkipWs q = CHR '']'' # r"
    | (array) q where "SkipWs p = CHR ''['' # q" "parse_items f (SetKind nkArray n) (SkipWs q) = Some (Inr (n', r))"
    | (scalar) "parse_scalar n (SkipWs p) = Inr (n', r)"
proof (cases "SkipWs p")
  case Nil
  with assms scalar show ?thesis by simp
next
  case (Cons c q)
  show ?thesis
  proof (cases "c = CHR ''{'' \<or> c = CHR ''[''")
    case True
    then show ?thesis
    proof (elim disjE)
      assume c: "c = CHR ''{''"
      show ?thesis
        using assms Cons c empty_object [of q] object [of q]
        by (cases "SkipWs q"; cases "hd (SkipWs q) = CHR ''}''") (auto simp: Let_def)
    next
      assume c: "c = CHR ''[''"
      show ?thesis
        using assms Cons c empty_array [of q] array [of q]
        by (cases "SkipWs q"; cases "hd (SkipWs q) = CHR '']''") (auto simp: Let_def)
    qed
  next
    case False
    with assms Cons scalar show ?thesis by (simp add: Let_def)
  qed
qed

lemma parse_members_okE:
  assumes "parse_members (Suc f) n p = Some (Inr (n', r))"
  obtains key q1 q2 child q3 q4 where "ParseJsonString (SkipWs p) = Inr (key, q1)"
    "SkipWs q1 = CHR '':'' # q2" "parse_value f (JNode nkNull key [] []) q2 = Some (Inr (child, q3))"
    "SkipWs q3 = CHR '','' # q4 \<and> parse_members f (with_child child n) q4 = Some (Inr (n', r))
     \<or> SkipWs q3 = CHR ''}'' # r \<and> n' = with_child child n"
proof -
  obtain key q1 where k: "peek (SkipWs p) = DQUOTE" "ParseJsonString (SkipWs p) = Inr (key, q1)"
    using assms by (auto simp: Let_def split: if_splits sum.splits)
  then obtain q2 where q2: "SkipWs q1 = CHR '':'' # q2"
    using assms by (cases "SkipWs q1") (auto simp: Let_def split: if_splits)
  then obtain child q3 where c: "parse_value f (JNode nkNull key [] []) q2 = Some (Inr (child, q3))"
    using assms k by (auto simp: Let_def split: option.splits sum.splits)
  then obtain d q4 where "SkipWs q3 = d # q4" "d = CHR '','' \<or> d = CHR ''}''"
    using assms k q2 by (cases "SkipWs q3") (auto simp: Let_def split: if_splits)
  with assms k q2 c that [of key q1 q2 child q3 q4] show ?thesis by (auto simp: Let_def)
qed

lemma parse_items_okE:
  assumes "parse_items (Suc f) n p = Some (Inr (n', r))"
  obtains child q3 q4 where "parse_value f (JNode nkNull [] [] []) p = Some (Inr (child, q3))"
    "SkipWs q3 = CHR '','' # q4 \<and> parse_items f (with_child child n) q4 = Some (Inr (n', r))
     \<or> SkipWs q3 = CHR '']'' # r \<and> n' = with_child child n"
proof -
  obtain child q3 where c: "parse_value f (JNode nkNull [] [] []) p = Some (Inr (child, q3))"
    using assms by (auto simp: Let_def split: option.splits sum.splits)
  then obtain d q4 where "SkipWs q3 = d # q4" "d = CHR '','' \<or> d = CHR '']''"
    using assms by (cases "SkipWs q3") (auto simp: Let_def split: if_splits)
  with assms c that [of child q3 q4] show ?thesis by (auto simp: Let_def)
qed

lemma SkipWs_Cons_length: "SkipWs p = c # q \<Longrightarrow> length q < length p"
  using SkipWs_length [of p] by auto

lemma parse_length:
  "parse_value f n p = Some (Inr (n', r)) \<Longrightarrow> length r < length p"
  "parse_members f m p = Some (Inr (n', r)) \<Longrightarrow> length r < length p"
  "parse_items f m p = Some (Inr (n', r)) \<Longrightarrow> length r < length p"
proof (induction f arbitrary: n m p n' r)
  case 0
  {
    case 1
    then show ?case by simp
  next
    case 2
    then show ?case by simp
  next
    case 3
    then show ?case by simp
  }
next
  case (Suc f)
  {
    case 1
    then show ?case
    proof (cases rule: parse_value_okE)
      case (empty_object q)
      with SkipWs_Cons_length [of p] SkipWs_Cons_length [of q] show ?thesis by fastforce
    next
      case (object q)
      with Suc(2) SkipWs_Cons_length [of p] SkipWs_length [of q] show ?thesis by fastforce
    next
      case (empty_array q)
      with SkipWs_Cons_length [of p] SkipWs_Cons_length [of q] show ?thesis by fastforce
    next
      case (array q)
      with Suc(3) SkipWs_Cons_length [of p] SkipWs_length [of q] show ?thesis by fastforce
    next
      case scalar
      with parse_scalar_length SkipWs_length [of p] show ?thesis by fastforce
    qed
  next
    case 2
    then show ?case
    proof (cases rule: parse_members_okE)
      case (1 key q1 q2 child q3 q4)
      have "length q3 < length p"
        using ParseJsonString_length [OF 1(1)] SkipWs_length [of p] SkipWs_Cons_length [OF 1(2)]
          Suc(1) [OF 1(3)] by linarith
      with 1(4) Suc(2) SkipWs_Cons_length [of q3] show ?thesis by fastforce
    qed
  next
    case 3
    then show ?case
    proof (cases rule: parse_items_okE)
      case (1 child q3 q4)
      with Suc(1) [OF 1(1)] Suc(3) SkipWs_Cons_length [of q3] show ?thesis by fastforce
    qed
  }
qed

text \<open>Enough steps always give a result; more steps do not change it.\<close>

lemma parse_enough:
  "2 * length p + 2 \<le> f \<Longrightarrow> parse_value f n p \<noteq> None"
  "2 * length p + 1 \<le> f \<Longrightarrow> parse_members f m p \<noteq> None"
  "2 * length p + 3 \<le> f \<Longrightarrow> parse_items f m p \<noteq> None"
proof (induction f arbitrary: n m p)
  case 0
  {
    case 1
    then show ?case by simp
  next
    case 2
    then show ?case by simp
  next
    case 3
    then show ?case by simp
  }
next
  case (Suc f)
  {
    case 1
    show ?case
    proof (cases "SkipWs p")
      case (Cons c q)
      have "2 * length (SkipWs q) + 3 \<le> f"
        using 1 SkipWs_Cons_length [OF Cons] SkipWs_length [of q] by linarith
      with Suc(2,3) Cons show ?thesis by (simp add: Let_def del: not_None_eq)
    qed simp
  next
    case 2
    show ?case
    proof (cases "ParseJsonString (SkipWs p)")
      case (Inl e)
      then show ?thesis by (simp add: Let_def)
    next
      case (Inr kq)
      obtain key q1 where kq: "kq = (key, q1)" by (cases kq)
      have l1: "length q1 < length p"
        using ParseJsonString_length [of "SkipWs p" key q1] Inr kq SkipWs_length [of p] by simp
      have l2: "2 * length (drop 1 (SkipWs q1)) + 2 \<le> f" using l1 2 SkipWs_length [of q1] by simp
      show ?thesis
      proof (cases "parse_value f (JNode nkNull key [] []) (drop 1 (SkipWs q1))")
        case None
        with Suc(1) [OF l2] show ?thesis by blast
      next
        case (Some res)
        show ?thesis
        proof (cases res)
          case (Inl e)
          with Some Inr kq show ?thesis by (simp add: Let_def)
        next
          case (Inr cq)
          obtain child q3 where cq: "cq = (child, q3)" by (cases cq)
          have "length q3 < length (drop 1 (SkipWs q1))" using parse_length(1) [of f _ "drop 1 (SkipWs q1)" child q3] Some Inr cq by blast
          then have "2 * length (drop 1 (SkipWs q3)) + 1 \<le> f" using l2 SkipWs_length [of q3] by simp
          from Suc(2) [OF this] Some Inr cq \<open>ParseJsonString (SkipWs p) = Inr kq\<close> kq
          show ?thesis by (simp add: Let_def del: not_None_eq)
        qed
      qed
    qed
  next
    case 3
    then have l: "2 * length p + 2 \<le> f" by simp
    show ?case
    proof (cases "parse_value f (JNode nkNull [] [] []) p")
      case None
      with Suc(1) [OF l] show ?thesis by blast
    next
      case (Some res)
      show ?thesis
      proof (cases res)
        case (Inl e)
        with Some show ?thesis by simp
      next
        case (Inr cq)
        obtain child q3 where cq: "cq = (child, q3)" by (cases cq)
        have "length q3 < length p" using parse_length(1) [of f _ p child q3] Some Inr cq by blast
        then have "2 * length (drop 1 (SkipWs q3)) + 3 \<le> f \<or> length (SkipWs q3) = 0"
          using l SkipWs_length [of q3] by (cases "SkipWs q3") simp_all
        with Suc(3) Some Inr cq show ?thesis
          by (cases "SkipWs q3") (simp_all add: Let_def del: not_None_eq)
      qed
    qed
  }
qed

lemma parse_more:
  "parse_value f n p = Some x \<Longrightarrow> parse_value (f + k) n p = Some x"
  "parse_members f m p = Some x \<Longrightarrow> parse_members (f + k) m p = Some x"
  "parse_items f m p = Some x \<Longrightarrow> parse_items (f + k) m p = Some x"
proof (induction f arbitrary: n m p x)
  case 0
  {
    case 1
    then show ?case by simp
  next
    case 2
    then show ?case by simp
  next
    case 3
    then show ?case by simp
  }
next
  case (Suc f)
  {
    case 1
    then show ?case using Suc(2,3) by (auto simp: Let_def split: if_splits)
  next
    case 2
    then show ?case using Suc(1,2) by (auto simp: Let_def split: if_splits option.splits sum.splits)
  next
    case 3
    then show ?case using Suc(1,3) by (auto simp: Let_def split: if_splits option.splits sum.splits)
  }
qed

end
