(* ===== verification/Json_Tree.thy ===== *)
theory Json_Tree
  imports Json_Render
begin

text \<open>
  The theorems of the JSON library: round trips through both formatters, the exact result of
  parsing, well-formedness of every tree the operations build, and path navigation.
\<close>

section \<open>Formatters render\<close>

lemma blank_simps [simp]: "blank []" "blank (v @ w) \<longleftrightarrow> blank v \<and> blank w" "blank (c # w) \<longleftrightarrow> is_space c \<and> blank w"
  by (simp_all add: blank_def)

lemma is_space_LF [simp]: "is_space LF" and is_space_blank [simp]: "is_space (CHR '' '')"
  by (simp_all add: is_space_def)

lemma comma_join_Cons: "xs \<noteq> [] \<Longrightarrow> comma_join (x # xs) = x @ '','' @ comma_join xs"
  by (cases xs) simp_all

lemma comma_join_items:
  "cs \<noteq> [] \<Longrightarrow> list_all (\<lambda>c. FName c = [] \<and> renders c (f c)) cs \<Longrightarrow>
     renders_items cs (comma_join (map f cs))"
proof (induction cs rule: list_nonempty_induct)
  case (single c)
  then show ?case using last_item [of c "f c" "[]" "[]"] by simp
next
  case (cons c cs)
  then show ?case using next_item [of c "f c" "[]" "[]" cs] by (simp add: comma_join_Cons)
qed

lemma comma_join_members:
  "cs \<noteq> [] \<Longrightarrow> list_all (\<lambda>c. renders c (f c)) cs \<Longrightarrow>
     renders_members cs (comma_join (map (\<lambda>c. EncodeJsonString (FName c) @ '':'' @ f c) cs))"
proof (induction cs rule: list_nonempty_induct)
  case (single c)
  then show ?case using last_member [of c "f c" "[]" "[]" "[]" "[]"] by simp
next
  case (cons c cs)
  then show ?case using next_member [of c "f c" "[]" "[]" "[]" "[]" cs] by (simp add: comma_join_Cons)
qed

lemma pretty_items:
  "cs \<noteq> [] \<Longrightarrow> list_all (\<lambda>c. FName c = [] \<and> renders c (f c)) cs \<Longrightarrow> blank w \<Longrightarrow> blank npad \<Longrightarrow> blank pad \<Longrightarrow>
     renders_items cs (w @ pretty_lines npad (map f cs) @ pad)"
proof (induction cs arbitrary: w rule: list_nonempty_induct)
  case (single c)
  then show ?case using last_item [of c "f c" "w @ npad" "LF # pad"] by simp
next
  case (cons c cs)
  then show ?case
    using next_item [of c "f c" "w @ npad" "[]" cs "LF # pretty_lines npad (map f cs) @ pad"]
      cons.IH [of "[LF]"] by simp
qed

lemma pretty_members:
  "cs \<noteq> [] \<Longrightarrow> list_all (\<lambda>c. renders c (f c)) cs \<Longrightarrow> blank w \<Longrightarrow> blank npad \<Longrightarrow> blank pad \<Longrightarrow>
     renders_members cs (w @ pretty_lines npad (map (\<lambda>c. EncodeJsonString (FName c) @ '': '' @ f c) cs) @ pad)"
proof (induction cs arbitrary: w rule: list_nonempty_induct)
  case (single c)
  then show ?case using last_member [of c "f c" "w @ npad" "[]" "'' ''" "LF # pad"] by simp
next
  case (cons c cs)
  then show ?case
    using next_member [of c "f c" "w @ npad" "[]" "'' ''" "[]" cs
        "LF # pretty_lines npad (map (\<lambda>c. EncodeJsonString (FName c) @ '': '' @ f c) cs) @ pad"]
      cons.IH [of "[LF]"] by simp
qed

lemma FormatCompact_renders: "json_wf n \<Longrightarrow> renders n (FormatCompact n)"
proof (induction n)
  case (JNode k nm v cs)
  have cs: "list_all (\<lambda>c. renders c (FormatCompact c)) cs" if "list_all json_wf cs"
    using that JNode.IH by (simp add: list_all_iff)
  have items: "list_all (\<lambda>c. FName c = [] \<and> renders c (FormatCompact c)) cs"
    if "list_all (\<lambda>c. FName c = [] \<and> json_wf c) cs"
    using that JNode.IH by (simp add: list_all_iff)
  show ?case
  proof (cases k)
    case nkArray
    then show ?thesis
      using JNode.prems some_items [OF comma_join_items [OF _ items], of nm] no_items [of "[]" nm]
      by (cases "cs = []") auto
  next
    case nkObject
    then show ?thesis
      using JNode.prems some_members [OF comma_join_members [OF _ cs], of nm] no_members [of "[]" nm]
      by (cases "cs = []") auto
  qed (use JNode.prems in \<open>auto intro: renders_renders_items_renders_members.intros\<close>)
qed

lemma FormatPretty_renders:
  "json_wf n \<Longrightarrow> blank pad \<Longrightarrow> blank indent \<Longrightarrow> renders n (FormatPretty pad indent n)"
proof (induction n arbitrary: pad)
  case (JNode k nm v cs)
  let ?f = "FormatPretty (pad @ indent) indent"
  have cs: "list_all (\<lambda>c. renders c (?f c)) cs" if "list_all json_wf cs"
    using that JNode.IH [of _ "pad @ indent"] JNode.prems by (simp add: list_all_iff)
  have items: "list_all (\<lambda>c. FName c = [] \<and> renders c (?f c)) cs"
    if "list_all (\<lambda>c. FName c = [] \<and> json_wf c) cs"
    using that JNode.IH [of _ "pad @ indent"] JNode.prems by (simp add: list_all_iff)
  show ?case
  proof (cases k)
    case nkArray
    show ?thesis
    proof (cases "cs = []")
      case True
      then show ?thesis using nkArray JNode.prems no_items [of "[]" nm] by simp
    next
      case False
      have "list_all (\<lambda>c. FName c = [] \<and> json_wf c) cs" using nkArray JNode.prems by simp
      from some_items [OF pretty_items [OF False items [OF this], of "[LF]" "pad @ indent" pad], of nm]
      show ?thesis using nkArray JNode.prems False by (simp add: Let_def)
    qed
  next
    case nkObject
    show ?thesis
    proof (cases "cs = []")
      case True
      then show ?thesis using nkObject JNode.prems no_members [of "[]" nm] by simp
    next
      case False
      have "list_all json_wf cs" using nkObject JNode.prems by simp
      from some_members [OF pretty_members [OF False cs [OF this], of "[LF]" "pad @ indent" pad], of nm]
      show ?thesis using nkObject JNode.prems False by (simp add: Let_def)
    qed
  qed (use JNode.prems in \<open>auto intro: renders_renders_items_renders_members.intros\<close>)
qed

section \<open>Parsing whole texts\<close>

lemma parse_value_steps:
  assumes "parse_value f n p = Some x" and "2 * length p + 2 \<le> g"
  shows "parse_value g n p = Some x"
proof -
  obtain y where y: "parse_value g n p = Some y" using parse_enough(1) [OF assms(2), of n] by blast
  with parse_more(1) [OF y, of f] parse_more(1) [OF assms(1), of g] show ?thesis
    by (simp add: add.commute)
qed

lemma Parse_renders:
  assumes "renders n s" and "blank w1" and "blank w2" and "FName n0 = FName n"
    and "has_parent \<or> FKind n = nkObject \<or> FKind n = nkArray"
  shows "Parse has_parent (w1 @ s @ w2) n0 = Some (Inr n)"
proof -
  have end2: "number_end w2"
    using assms(3) by (cases w2) (auto simp: number_end_def is_space_def less_eq_char_def)
  have p: "SkipWs (w1 @ s @ w2) = s @ w2" "peek (s @ w2) = hd s"
    using SkipWs_blank [OF assms(2)] renders_peek [OF assms(1)] by simp_all
  have root: "has_parent \<or> hd s = CHR ''{'' \<or> hd s = CHR ''[''"
    using assms(1,5) by (cases rule: renders.cases) auto
  obtain k v cs where n0: "n0 = JNode k (FName n) v cs" using assms(4) by (cases n0) auto
  have "\<exists>f. parse_value f (JNode k (FName n) v cs) ([] @ s @ w2) = Some (Inr (n, w2))"
    by (rule reads_valueD [OF renders_reads(1) [OF assms(1)] _ end2]) simp
  then obtain f where "parse_value f n0 (s @ w2) = Some (Inr (n, w2))" unfolding n0 append_Nil ..
  from parse_value_steps [OF this] have "parse_value (parse_fuel (s @ w2)) n0 (s @ w2) = Some (Inr (n, w2))"
    by (simp add: parse_fuel_def del: parse_value.simps)
  moreover have "SkipWs w2 = []" using SkipWs_blank [OF assms(3), of "[]"] by simp
  ultimately show ?thesis using p root by (auto simp: Parse_def)
qed

lemma Parse_total: "Parse has_parent json n \<noteq> None"
proof -
  have "parse_value (parse_fuel (SkipWs json)) n (SkipWs json) \<noteq> None"
    by (rule parse_enough(1)) (simp add: parse_fuel_def)
  then show ?thesis
    by (auto simp: Parse_def Let_def split: sum.splits simp del: not_None_eq)
qed

section \<open>Well-formedness\<close>

lemma json_number_zero: "json_number ''0''"
  using ParseNumberLexeme_sound [of "''0''" "''0''" "[]"]
  by (simp add: ParseNumberLexeme_def number_int_def number_frac_def number_exp_def)

lemma SetKind_wf: "json_wf (SetKind k n)"
  by (cases k) (simp_all add: SetKind_def json_number_zero)

lemma parse_scalar_wf: "parse_scalar n p = Inr (n', r) \<Longrightarrow> json_wf n' \<and> FName n' = FName n"
  using SetKind_wf [of nkNull n]
  by (auto simp: parse_scalar_def Let_def ebind_Inr_iff SetAsBoolean_def SetKind_def
      dest: ParseNumberLexeme_sound split: if_splits)

lemma parse_wf:
  "parse_value f n p = Some (Inr (n', r)) \<Longrightarrow> json_wf n' \<and> FName n' = FName n"
  "parse_members f m p = Some (Inr (n', r)) \<Longrightarrow> json_wf m \<Longrightarrow> FKind m = nkObject \<Longrightarrow>
     json_wf n' \<and> FName n' = FName m"
  "parse_items f m p = Some (Inr (n', r)) \<Longrightarrow> json_wf m \<Longrightarrow> FKind m = nkArray \<Longrightarrow>
     json_wf n' \<and> FName n' = FName m"
proof (induction f arbitrary: n m p n' r)
  case 0
  {
    case 1
    then show ?case by simp
  next
    case 2
    then show ?case by simp
  next
    case 3
    then show ?case by simp
  }
next
  case (Suc f)
  have name: "FName (SetKind k x) = FName x" "FKind (SetKind k x) = k" for k x
    by (simp_all add: SetKind_def)
  have child: "json_wf (with_child c x)" "FName (with_child c x) = FName x" "FKind (with_child c x) = FKind x"
    if "json_wf x" "json_wf c" "FKind x = nkObject \<or> FKind x = nkArray \<and> FName c = []" for c x
    using that by (cases x; auto simp: with_child_def)+
  {
    case 1
    then show ?case
    proof (cases rule: parse_value_okE)
      case (object q)
      then show ?thesis using Suc(2) [OF object(2) SetKind_wf] by (simp add: name)
    next
      case (array q)
      then show ?thesis using Suc(3) [OF array(2) SetKind_wf] by (simp add: name)
    qed (auto simp: SetKind_wf name dest: parse_scalar_wf)
  next
    case 2
    from 2(1) show ?case
    proof (cases rule: parse_members_okE)
      case (1 key q1 q2 c q3 q4)
      have "json_wf c" using Suc(1) [OF 1(3)] by simp
      note c = child [OF 2(2) this]
      from 1(4) show ?thesis using Suc(2) [of _ q4 n' r] c 2(3) by auto
    qed
  next
    case 3
    from 3(1) show ?case
    proof (cases rule: parse_items_okE)
      case (1 c q3 q4)
      have "json_wf c" "FName c = []" using Suc(1) [OF 1(1)] by simp_all
      note c = child [OF 3(2) this(1)] this(2)
      from 1(2) show ?thesis using Suc(3) [of _ q4 n' r] c 3(3) by auto
    qed
  }
qed

lemma Parse_wf: "Parse hp json n = Some (Inr n') \<Longrightarrow> json_wf n' \<and> FName n' = FName n"
  by (auto simp: Parse_def Let_def dest: parse_wf(1) split: if_splits option.splits sum.splits)

section \<open>Building operations\<close>

lemma nat_digits_ok: "digits1 (nat_digits n) \<and> (hd (nat_digits n) = CHR ''0'' \<longleftrightarrow> n = 0) \<and> (n = 0 \<longrightarrow> nat_digits n = ''0'')"
proof (induction n rule: nat_digits.induct)
  case (1 n)
  have dig: "digit (char_of (48 + d))" "char_of (48 + d) = CHR ''0'' \<longleftrightarrow> d = 0" if "d < 10" for d :: nat
  proof -
    show "digit (char_of (48 + d))" using that by (simp add: less_eq_char_def)
    have "char_of (48 + d) = CHR ''0'' \<longleftrightarrow> char_nat (char_of (48 + d)) = char_nat (CHR ''0'')"
      by (metis char_of_char)
    then show "char_of (48 + d) = CHR ''0'' \<longleftrightarrow> d = 0" using that by simp
  qed
  show ?case
  proof (cases "n < 10")
    case True
    then show ?thesis using dig [of n] by (auto simp: digits1_def nat_digits.simps [of n])
  next
    case False
    then have "nat_digits n = nat_digits (n div 10) @ [char_of (48 + n mod 10)]"
      by (subst nat_digits.simps) simp
    moreover have "n div 10 \<noteq> 0" using False by (simp add: div_greater_zero_iff)
    ultimately show ?thesis using 1 [OF False] dig [of "n mod 10"] False
      by (auto simp: digits1_def simp del: nat_digits.simps)
  qed
qed

declare nat_digits.simps [simp del]

lemma int_to_string_number: "json_number (int_to_string v)"
proof -
  let ?d = "nat_digits (nat (abs v))"
  have d: "?d = ''0'' \<or> digits1 ?d \<and> hd ?d \<noteq> CHR ''0''"
    using nat_digits_ok [of "nat (abs v)"] by auto
  have "int_to_string v = (if v < 0 then ''-'' else []) @ ?d"
    by (simp add: int_to_string_def)
  with d have "int_part (int_to_string v)" unfolding int_part_def
    by (intro exI [of _ "if v < 0 then ''-'' else []"] exI [of _ ?d]) simp
  then show ?thesis unfolding json_number_def
    by (intro exI [of _ "int_to_string v"] exI [of _ "[]"]) (simp add: frac_part_def exp_part_def)
qed

lemma GetAsObject_wf: "json_wf n \<Longrightarrow> json_wf (GetAsObject n) \<and> FKind (GetAsObject n) = nkObject
    \<and> FName (GetAsObject n) = FName n"
  using SetKind_wf by (simp add: GetAsObject_def SetKind_def)

lemma GetAsArray_wf: "json_wf n \<Longrightarrow> json_wf (GetAsArray n) \<and> FKind (GetAsArray n) = nkArray
    \<and> FName (GetAsArray n) = FName n"
  using SetKind_wf by (simp add: GetAsArray_def SetKind_def)

lemma AddInternal_wf:
  assumes "json_wf n" and "json_wf (JNode k nm v [])"
    and "FKind n = nkObject \<or> FKind n = nkArray \<and> nm = []"
  shows "json_wf (AddInternal k nm v n)"
  using assms by (cases n; cases "FKind n") (auto simp: AddInternal_def)

lemma erase_first_in: "c \<in> set (erase_first nm cs) \<Longrightarrow> c \<in> set cs"
  by (induction cs) (auto split: if_splits)

lemma Delete_wf:
  "json_wf n \<Longrightarrow> DeleteIndex i n = Inr n' \<Longrightarrow> json_wf n'"
  "json_wf n \<Longrightarrow> DeleteName nm n = Inr n' \<Longrightarrow> json_wf n'"
  subgoal
    by (cases n; cases "FKind n")
      (auto simp: DeleteIndex_def RequireCollection_def list_all_iff split: if_splits
        dest!: in_set_takeD in_set_dropD)
  subgoal
    by (cases n; cases "FKind n")
      (auto simp: DeleteName_def RequireCollection_def list_all_iff dest!: erase_first_in split: if_splits)
  done

lemma ClearNode_wf: "json_wf n \<Longrightarrow> json_wf (ClearNode n)"
  by (cases n; cases "FKind n") (auto simp: ClearNode_def)

section \<open>Paths\<close>

lemma find_name_Some:
  "find_name nm cs = Some i \<Longrightarrow> i < length cs \<and> FName (cs ! i) = nm \<and> (\<forall>j<i. FName (cs ! j) \<noteq> nm)"
proof (induction cs arbitrary: i)
  case (Cons c cs)
  show ?case
  proof (cases "FName c = nm")
    case False
    with Cons obtain j where j: "i = Suc j" "find_name nm cs = Some j" by auto
    with Cons.IH False show ?thesis by (auto simp: less_Suc_eq_0_disj)
  qed (use Cons in auto)
qed simp

lemma find_name_None: "find_name nm cs = None \<longleftrightarrow> (\<forall>c \<in> set cs. FName c \<noteq> nm)"
  by (induction cs) auto

lemma find_name_append: "find_name nm cs = None \<Longrightarrow> FName c = nm \<Longrightarrow> find_name nm (cs @ [c]) = Some (length cs)"
  by (induction cs) (auto split: if_splits)

lemma find_name_update:
  "find_name nm cs = Some i \<Longrightarrow> FName c = nm \<Longrightarrow> find_name nm (cs[i := c]) = Some i"
proof (induction cs arbitrary: i)
  case (Cons d cs)
  then show ?case by (cases "FName d = nm"; cases i) auto
qed simp

lemma AddNulls_fields:
  "FKind (AddNulls k n) = FKind n" "FName (AddNulls k n) = FName n" "FValue (AddNulls k n) = FValue n"
  "FChildren (AddNulls k n) = FChildren n @ replicate k (JNode nkNull [] [] [])"
  by (induction k) (simp_all add: AddNulls_def AddInternal_def replicate_append_same)

text \<open>The first step of \<open>Force\<close>: the node with the child it goes on with, and the child's place.\<close>

definition force_here :: "path_step \<Rightarrow> json_node \<Rightarrow> json_node \<times> nat" where
  "force_here st cur =
     (case st of
        Key k \<Rightarrow>
          let cur = GetAsObject cur
          in (case ChildName k cur of
                None \<Rightarrow> (AddInternal nkNull k [] cur, length (FChildren cur))
              | Some i \<Rightarrow> (cur, i))
      | Index idx \<Rightarrow>
          let cur = GetAsArray cur
          in (AddNulls (Suc (nat idx) - length (FChildren cur)) cur, nat idx))"

definition step_ok :: "path_step \<Rightarrow> bool" where
  "step_ok st = (case st of Key _ \<Rightarrow> True | Index idx \<Rightarrow> idx \<ge> 0)"

lemma force_steps_Cons:
  "step_ok st \<Longrightarrow> force_steps (st # steps) cur =
     (case force_here st cur of
        (cur1, i) \<Rightarrow> ebind (force_steps steps (FChildren cur1 ! i)) (\<lambda>(c, addr). Inr (set_child i c cur1, i # addr)))"
  by (cases st) (auto simp: force_here_def step_ok_def Let_def split: option.splits)

lemma find_steps_Cons:
  assumes "step_ok st"
  shows "find_steps (st # steps) cur =
     (case find_steps [st] cur of Some [i] \<Rightarrow> map_option (Cons i) (find_steps steps (FChildren cur ! i)) | _ \<Rightarrow> None)"
  using assms by (cases st) (auto split: option.splits)

lemma find_key: "find_steps [Key k] cur = (if FKind cur \<noteq> nkObject then None else
    map_option (\<lambda>i. [i]) (find_name k (FChildren cur)))"
  by (simp add: ChildName_def split: option.splits)

lemma find_index: "find_steps [Index idx] cur = (if FKind cur \<noteq> nkArray \<or> idx < 0
    \<or> idx \<ge> int (length (FChildren cur)) then None else Some [nat idx])"
  by simp

lemma set_child_fields [simp]:
  "FKind (set_child i c n) = FKind n" "FName (set_child i c n) = FName n"
  "FChildren (set_child i c n) = (FChildren n)[i := c]"
  by (simp_all add: set_child_def)

lemma GetAs_fields [simp]:
  "FKind (GetAsObject n) = nkObject" "FName (GetAsObject n) = FName n"
  "FKind (GetAsArray n) = nkArray" "FName (GetAsArray n) = FName n"
  by (simp_all add: GetAsObject_def GetAsArray_def SetKind_def)

lemma AddInternal_fields [simp]:
  "FKind (AddInternal k nm v n) = FKind n" "FName (AddInternal k nm v n) = FName n"
  "FChildren (AddInternal k nm v n) = FChildren n @ [JNode k nm v []]"
  by (simp_all add: AddInternal_def)

lemma force_here_ok:
  assumes "step_ok st" and "force_here st cur = (cur1, i)" and "FName c = FName (FChildren cur1 ! i)"
  shows "i < length (FChildren cur1) \<and> find_steps [st] (set_child i c cur1) = Some [i] \<and> FName cur1 = FName cur"
proof (cases st)
  case (Key k)
  let ?o = "GetAsObject cur"
  show ?thesis
  proof (cases "find_name k (FChildren ?o)")
    case None
    then have "cur1 = AddInternal nkNull k [] ?o" "i = length (FChildren ?o)"
      using assms(2) Key by (simp_all add: force_here_def ChildName_def Let_def)
    then show ?thesis
      using find_name_append [OF None, of c] assms(3) Key by (simp add: find_key del: find_steps.simps)
  next
    case (Some j)
    then have "cur1 = ?o" "i = j" using assms(2) Key by (simp_all add: force_here_def ChildName_def Let_def)
    then show ?thesis
      using find_name_Some [OF Some] find_name_update [OF Some, of c] assms(3) Key
      by (simp add: find_key del: find_steps.simps)
  qed
next
  case (Index idx)
  then have "cur1 = AddNulls (Suc (nat idx) - length (FChildren (GetAsArray cur))) (GetAsArray cur)"
    "i = nat idx" "0 \<le> idx"
    using assms(1,2) by (auto simp: force_here_def Let_def step_ok_def)
  then show ?thesis using Index by (simp add: find_index AddNulls_fields del: find_steps.simps) linarith
qed

lemma force_here_found:
  assumes "step_ok st" and "force_here st cur = (cur1, i)" and "find_steps [st] cur = Some [j]"
  shows "cur1 = cur \<and> i = j"
proof (cases st)
  case (Key k)
  then have "FKind cur = nkObject" "find_name k (FChildren cur) = Some j"
    using assms(3) by (auto simp: find_key simp del: find_steps.simps split: if_splits)
  then show ?thesis
    using assms(2) Key by (simp add: force_here_def GetAsObject_def ChildName_def)
next
  case (Index idx)
  then have "FKind cur = nkArray" "j = nat idx" "Suc (nat idx) - length (FChildren cur) = 0"
    using assms(3) by (auto simp: find_index simp del: find_steps.simps split: if_splits)
  then show ?thesis
    using assms(2) Index by (simp add: force_here_def GetAsArray_def Let_def AddNulls_def)
qed

lemma find_steps_single: "find_steps [st] cur = None \<or> (\<exists>i. find_steps [st] cur = Some [i] \<and> i < length (FChildren cur))"
  by (cases st) (auto simp: find_key find_index find_name_Some simp del: find_steps.simps
      dest: find_name_Some split: option.splits)

lemma force_steps_find:
  "list_all step_ok steps \<Longrightarrow>
     \<exists>n' addr. force_steps steps n = Inr (n', addr) \<and> find_steps steps n' = Some addr \<and> FName n' = FName n
       \<and> node_at addr n' \<noteq> None"
proof (induction steps arbitrary: n)
  case Nil
  then show ?case by simp
next
  case (Cons st steps)
  then have ok: "step_ok st" by simp
  obtain n1 i where n1: "force_here st n = (n1, i)" by (cases "force_here st n")
  obtain c addr where c: "force_steps steps (FChildren n1 ! i) = Inr (c, addr)"
    "find_steps steps c = Some addr" "FName c = FName (FChildren n1 ! i)" "node_at addr c \<noteq> None"
    using Cons by fastforce
  note here = force_here_ok [OF ok n1 c(3)]
  have "force_steps (st # steps) n = Inr (set_child i c n1, i # addr)"
    using n1 c(1) by (simp add: force_steps_Cons [OF ok] del: force_steps.simps)
  moreover have "find_steps (st # steps) (set_child i c n1) = Some (i # addr)"
    using here c(2) by (simp add: find_steps_Cons [OF ok, of steps] del: find_steps.simps)
  moreover have "node_at (i # addr) (set_child i c n1) \<noteq> None" using here c(4) by simp
  ultimately show ?case using here by auto
qed

lemma set_child_same: "i < length (FChildren n) \<Longrightarrow> set_child i (FChildren n ! i) n = n"
  by (cases n) (simp add: set_child_def)

lemma force_steps_found:
  "list_all step_ok steps \<Longrightarrow> find_steps steps n = Some addr \<Longrightarrow> force_steps steps n = Inr (n, addr)"
proof (induction steps arbitrary: n addr)
  case Nil
  then show ?case by simp
next
  case (Cons st steps)
  then have ok: "step_ok st" by simp
  obtain i where i: "find_steps [st] n = Some [i]" "i < length (FChildren n)"
    using find_steps_single [of st n] Cons.prems(2)
    by (auto simp: find_steps_Cons [OF ok, of steps] simp del: find_steps.simps)
  then obtain addr' where a: "find_steps steps (FChildren n ! i) = Some addr'" "addr = i # addr'"
    using Cons.prems(2) by (auto simp: find_steps_Cons [OF ok, of steps] simp del: find_steps.simps)
  obtain n1 j where n1: "force_here st n = (n1, j)" by (cases "force_here st n")
  from force_here_found [OF ok n1 i(1)] n1 have "force_here st n = (n, i)" by simp
  with Cons.IH [OF _ a(1)] Cons.prems(1) a(2) set_child_same [OF i(2)] show ?case
    by (simp add: force_steps_Cons [OF ok] del: force_steps.simps)
qed

lemma path_index_nonneg: "path_index p = Inr (i, r) \<Longrightarrow> 0 \<le> i"
proof -
  have mono: "0 \<le> v \<Longrightarrow> list_all digit ds \<Longrightarrow> 0 \<le> foldl (\<lambda>v c. 10 * v + (int (char_nat c) - int (char_nat (CHR ''0'')))) v ds"
    for v :: int and ds
    by (induction ds arbitrary: v) (simp_all add: less_eq_char_def)
  have "list_all digit (take (length p - length (skip_digits p)) p)"
    using skip_digits_split [of p] by (metis append_eq_conv_conj length_append add_diff_cancel_right')
  from mono [OF order_refl this]
  show "path_index p = Inr (i, r) \<Longrightarrow> 0 \<le> i"
    by (auto simp: path_index_def Let_def ebind_Inr_iff stoi_def digits_value_def split: if_splits)
qed

lemma step_ok_simps [simp]: "step_ok (Key k)" "step_ok (Index i) \<longleftrightarrow> 0 \<le> i"
  by (simp_all add: step_ok_def)

lemma parse_path_loop_ok:
  "parse_path_loop p cur steps = Inr res \<Longrightarrow> list_all step_ok steps \<Longrightarrow> list_all step_ok res"
proof (induction p cur steps rule: parse_path_loop.induct)
  case (1 p cur steps)
  have flush: "list_all step_ok (flush_key cur steps)"
    using 1(5) by (auto simp: flush_key_def)
  show ?case
  proof (cases p)
    case Nil
    with 1(4) flush show ?thesis by (simp add: parse_path_loop.simps [of "[]"])
  next
    case (Cons c p')
    note step = parse_path_loop.simps [of "c # p'" cur steps, simplified]
    consider (sep) "c = CHR ''.'' \<or> c = CHR ''/''"
      | (bracket) "\<not> (c = CHR ''.'' \<or> c = CHR ''/'')" "c = CHR ''[''"
      | (char) "\<not> (c = CHR ''.'' \<or> c = CHR ''/'')" "c \<noteq> CHR ''[''" by blast
    then show ?thesis
    proof cases
      case sep
      then show ?thesis using 1(1) [OF Cons] 1(4) flush Cons step by auto
    next
      case bracket
      then obtain i r where i: "path_index p' = Inr (i, r)"
        using 1(4) Cons step by (cases "path_index p'") auto
      with path_index_nonneg [OF i] 1(2) [OF Cons bracket i refl] 1(4) flush Cons step bracket
      show ?thesis by simp
    next
      case char
      then show ?thesis using 1(3) [OF Cons char] 1(4,5) Cons step by simp
    qed
  qed
qed

lemma ParsePath_ok: "ParsePath path = Inr steps \<Longrightarrow> list_all step_ok steps"
  unfolding ParsePath_def by (erule parse_path_loop_ok) simp

lemma child_wf: "json_wf n \<Longrightarrow> i < length (FChildren n) \<Longrightarrow> json_wf (FChildren n ! i)"
  by (cases n; cases "FKind n") (auto simp: list_all_length)

lemma AddNulls_wf: "json_wf n \<Longrightarrow> FKind n = nkArray \<Longrightarrow> json_wf (AddNulls k n)"
proof (induction k)
  case (Suc k)
  then have "json_wf (AddInternal nkNull [] [] (AddNulls k n))"
    by (intro AddInternal_wf) (simp_all add: AddNulls_fields)
  then show ?case by (simp add: AddNulls_def)
qed (simp add: AddNulls_def)

lemma force_here_wf:
  assumes "json_wf cur" and "force_here st cur = (cur1, i)"
  shows "json_wf cur1 \<and> (FKind cur1 = nkObject \<or> FKind cur1 = nkArray)"
proof (cases st)
  case (Key k)
  have o: "json_wf (GetAsObject cur)" using GetAsObject_wf [OF assms(1)] by simp
  have "json_wf (AddInternal nkNull k [] (GetAsObject cur))" by (rule AddInternal_wf [OF o]) simp_all
  with o Key assms(2) show ?thesis by (auto simp: force_here_def Let_def split: option.splits)
next
  case (Index idx)
  have "json_wf (GetAsArray cur)" using GetAsArray_wf [OF assms(1)] by simp
  from AddNulls_wf [OF this] Index assms(2) show ?thesis
    by (auto simp: force_here_def Let_def AddNulls_fields)
qed

lemma set_child_wf:
  assumes "json_wf n" and "json_wf c" and "i < length (FChildren n)" and "FName c = FName (FChildren n ! i)"
    and "FKind n = nkObject \<or> FKind n = nkArray"
  shows "json_wf (set_child i c n)"
  using assms by (cases n) (auto simp: set_child_def list_all_length nth_list_update)

lemma force_steps_wf:
  "list_all step_ok steps \<Longrightarrow> json_wf n \<Longrightarrow> force_steps steps n = Inr (n', addr) \<Longrightarrow> json_wf n'"
proof (induction steps arbitrary: n n' addr)
  case Nil
  then show ?case by simp
next
  case (Cons st steps)
  then have ok: "step_ok st" by simp
  obtain n1 i where n1: "force_here st n = (n1, i)" by (cases "force_here st n")
  obtain c a where c: "force_steps steps (FChildren n1 ! i) = Inr (c, a)" "n' = set_child i c n1"
    using Cons.prems(3) n1 by (auto simp: force_steps_Cons [OF ok] ebind_Inr_iff simp del: force_steps.simps)
  have name: "FName c = FName (FChildren n1 ! i)"
    using force_steps_find [of steps "FChildren n1 ! i"] Cons.prems(1) c(1) by auto
  have i: "i < length (FChildren n1)" using force_here_ok [OF ok n1 name] by simp
  note wf = force_here_wf [OF Cons.prems(2) n1]
  have "json_wf c" using Cons.IH [OF _ child_wf [OF _ i] c(1)] Cons.prems(1) wf by simp
  then show ?case using set_child_wf [OF _ _ i name] wf c(2) by simp
qed

section \<open>Theorems\<close>

text \<open>C36: Every string of bytes survives encoding and parsing as a JSON string literal, whatever
  follows it.\<close>

theorem json_string_roundtrip: "ParseJsonString (EncodeJsonString s @ rest) = Inr (s, rest)"
  using json_str.dec_enc [of s rest] by (auto simp: read_json_string_def split: sum.splits)

text \<open>C37: The number reader implements the JSON grammar: what it returns is a number of the grammar
  and the text before the place it stops, and a number of the grammar is read whole when nothing
  that could continue it follows.\<close>

theorem json_number_exact:
  "(ParseNumberLexeme p = Inr (s, r) \<longrightarrow> p = s @ r \<and> json_number s)
   \<and> (json_number t \<and> number_end q \<longrightarrow> ParseNumberLexeme (t @ q) = Inr (t, q))"
  using ParseNumberLexeme_sound ParseNumberLexeme_complete by blast

lemma json_number_exact_witness:
  "json_number ''1.5'' \<and> ParseNumberLexeme ''0'' = Inr (''0'', [])"
proof
  have "ParseNumberLexeme ''1.5]'' = Inr (''1.5'', '']'')"
    by (simp add: ParseNumberLexeme_def number_int_def number_frac_def number_exp_def less_eq_char_def)
  then show "json_number ''1.5''" using json_number_exact by blast
  show "ParseNumberLexeme ''0'' = Inr (''0'', [])"
    using json_number_exact [of "''0''" "''0''" "[]" "''0''" "[]"] by (simp add: json_number_zero number_end_Nil)
qed

text \<open>C14: Parsing always ends; when it accepts a text, the resulting tree is well-formed and keeps
  the name of the node; and every text that renders a tree, with any white space between, before
  and behind the tokens, is parsed to exactly that tree.\<close>

theorem json_parse_correct:
  "Parse has_parent json n0 \<noteq> None
   \<and> (Parse has_parent json n0 = Some (Inr n) \<longrightarrow> json_wf n \<and> FName n = FName n0)
   \<and> (renders m s \<and> blank w1 \<and> blank w2 \<and> FName n0 = FName m
        \<and> (has_parent \<or> FKind m = nkObject \<or> FKind m = nkArray)
      \<longrightarrow> Parse has_parent (w1 @ s @ w2) n0 = Some (Inr m))"
  using Parse_total Parse_wf Parse_renders by blast

lemma json_parse_correct_witness:
  "Parse False (''[1]'') new_node \<noteq> None
   \<and> Parse False ('' '' @ ''[]'' @ [LF]) new_node = Some (Inr (JNode nkArray [] [] []))
   \<and> json_wf (JNode nkArray [] [] [])"
proof -
  have r: "renders (JNode nkArray [] [] []) ''[]''" using no_items [of "[]" "[]"] by simp
  have p: "Parse False ('' '' @ ''[]'' @ [LF]) new_node = Some (Inr (JNode nkArray [] [] []))"
    using json_parse_correct [of False _ new_node _ "JNode nkArray [] [] []" "''[]''" "'' ''" "[LF]"] r
    by (simp add: new_node_def)
  with json_parse_correct [of False "''[1]''" new_node]
    json_parse_correct [of False "'' '' @ ''[]'' @ [LF]" new_node "JNode nkArray [] [] []"]
  show ?thesis by blast
qed

text \<open>C8: What the library writes it reads back: for every well-formed object or array, the compact
  form and the indented form with any indentation of white space parse to the same tree.\<close>

theorem json_format_roundtrip:
  assumes "json_wf n" and "FKind n = nkObject \<or> FKind n = nkArray" and "blank indent"
    and "FName n0 = FName n"
  shows "Parse False (GetAsJson compact indent n) n0 = Some (Inr n)"
  using Parse_renders [OF FormatCompact_renders [OF assms(1)], of "[]" "[]" n0 False]
    Parse_renders [OF FormatPretty_renders [OF assms(1)], of "[]" indent "[]" "[]" n0 False] assms
  by (simp add: GetAsJson_def)

lemma json_format_roundtrip_witness:
  "Parse False (GetAsJson False ''  '' (AddBool ''k'' True (AddInt ''n'' (- 12) (new_node_kind nkObject)))) new_node
     = Some (Inr (AddBool ''k'' True (AddInt ''n'' (- 12) (new_node_kind nkObject))))"
  by (rule json_format_roundtrip)
    (simp_all add: AddBool_def AddInt_def AddInternal_def GetAsObject_def new_node_kind_def
      SetKind_def new_node_def int_to_string_number)



text \<open>C30: \<open>Force\<close> succeeds on every path that parses, and the node it returns is the one \<open>Find\<close> then
  finds under the same path; when \<open>Find\<close> already finds a node, \<open>Force\<close> returns it and
  changes nothing.\<close>

theorem json_force_find:
  assumes "ParsePath path = Inr steps"
  shows "\<exists>n' addr. Force path n = Inr (n', addr) \<and> Find path n' = Inr (Some addr)
    \<and> Exists path n' = Inr True \<and> node_at addr n' \<noteq> None \<and> FName n' = FName n
    \<and> (\<forall>a. Find path n = Inr (Some a) \<longrightarrow> n' = n \<and> addr = a)"
  using force_steps_find [OF ParsePath_ok [OF assms], of n] force_steps_found [OF ParsePath_ok [OF assms], of n]
    assms by (fastforce simp: Force_def Find_def Exists_def)

lemma json_force_find_witness:
  "\<exists>n' addr. Force ''a[1].b'' new_node = Inr (n', addr) \<and> Find ''a[1].b'' n' = Inr (Some addr)
    \<and> Exists ''a[1].b'' n' = Inr True \<and> node_at addr n' \<noteq> None \<and> FName n' = FName new_node
    \<and> (\<forall>a. Find ''a[1].b'' new_node = Inr (Some a) \<longrightarrow> n' = new_node \<and> addr = a)"
  by (rule json_force_find [of _ "[Key ''a'', Index 1, Key ''b'']"])
    (simp add: ParsePath_def parse_path_loop.simps path_index_def flush_key_def stoi_def digits_value_def
      less_eq_char_def)

end
