(* ===== verification/Scf_Base.thy ===== *)
theory Scf_Base
  imports Cursor "HOL-Library.Monad_Syntax"
begin

text \<open>
  The source feeder of \<open>compiler/parser/scf_base.{h,cpp}\<close>: a read position in a source file
  with the line, the column and the start of the current line kept beside it. A pointer into the
  file's text is its offset from \<open>pstart\<close>; \<open>pend\<close> and \<open>bufend\<close> are the length of the text.
  The text is zero-terminated, so the byte at \<open>pend\<close> reads as zero. Loading files and the
  reading of floating-point values are not modelled.
\<close>

unbundle bit_operations_syntax

section \<open>State\<close>

record scfile =
  sc_index :: nat
  sc_name :: string
  sc_fullpath :: string
  sc_time :: nat
  sc_body :: string

record scpos =
  pos_file :: "scfile option"
  pos_off :: nat
  pos_line :: int
  pos_col :: int

record feeder =
  sf_file :: "scfile option"
  sf_cur :: nat
  sf_prev :: nat
  sf_prevlen :: nat
  sf_line :: int
  sf_col :: int
  sf_clstart :: nat
  sf_prevpos :: scpos
  sf_lastline :: int

definition line_end_char :: char where "line_end_char = LF"

definition sf_buf :: "feeder \<Rightarrow> string" where
  "sf_buf s = (case sf_file s of None \<Rightarrow> [] | Some f \<Rightarrow> sc_body f)"

abbreviation sf_end :: "feeder \<Rightarrow> nat" where "sf_end s \<equiv> length (sf_buf s)"

text \<open>The byte at an offset, with the terminating zero.\<close>

definition byte_at :: "string \<Rightarrow> nat \<Rightarrow> char" where
  "byte_at buf p = (if p < length buf then buf ! p else CHR 0x00)"

section \<open>Positions\<close>

text \<open>The loop of \<open>RecalcLineCol\<close> over the characters before a position: line and line start.\<close>

fun recalc_loop :: "string \<Rightarrow> nat \<Rightarrow> int \<times> nat" where
  "recalc_loop body 0 = (1, 0)"
| "recalc_loop body (Suc p) =
     (case recalc_loop body p of
        (line, line_start) \<Rightarrow> if body ! p = LF then (line + 1, Suc p) else (line, line_start))"

definition RecalcLineCol :: "scpos \<Rightarrow> scpos" where
  "RecalcLineCol sp =
     (case pos_file sp of
        None \<Rightarrow> sp\<lparr>pos_line := 0, pos_col := 0\<rparr>
      | Some f \<Rightarrow>
          if pos_off sp > length (sc_body f) then sp\<lparr>pos_line := 0, pos_col := 0\<rparr>
          else (case recalc_loop (sc_body f) (pos_off sp) of
                  (line, line_start) \<Rightarrow>
                    sp\<lparr>pos_line := line, pos_col := int (pos_off sp) - int line_start + 1\<rparr>))"

definition new_scpos :: scpos where
  "new_scpos = \<lparr>pos_file = None, pos_off = 0, pos_line = 0, pos_col = 0\<rparr>"

definition scpos_at :: "scfile option \<Rightarrow> nat \<Rightarrow> scpos" where
  "scpos_at f p = RecalcLineCol \<lparr>pos_file = f, pos_off = p, pos_line = 0, pos_col = 0\<rparr>"

definition scpos_Format :: "scpos \<Rightarrow> string" where
  "scpos_Format sp =
     (case pos_file sp of
        None \<Rightarrow> []
      | Some f \<Rightarrow> sc_name f @ ''('' @ int_to_string (pos_line sp) @ '','' @ int_to_string (pos_col sp) @ '')'')"

text \<open>\<open>Reset\<close>; the fields it does not set keep their values.\<close>

definition sf_Reset :: "feeder \<Rightarrow> feeder" where
  "sf_Reset s = s\<lparr>sf_file := None, sf_cur := 0, sf_clstart := 0, sf_line := 1, sf_col := 1, sf_lastline := 1\<rparr>"

definition sf_Init :: "feeder \<Rightarrow> int \<times> feeder" where
  "sf_Init s = (0, sf_Reset s)"

definition sf_PrevStr :: "feeder \<Rightarrow> string" where
  "sf_PrevStr s = take (sf_prevlen s) (drop (sf_prev s) (sf_buf s))"

definition SaveCurPos :: "feeder \<Rightarrow> scpos" where
  "SaveCurPos s = \<lparr>pos_file = sf_file s, pos_off = sf_cur s, pos_line = sf_line s, pos_col = sf_col s\<rparr>"

text \<open>The loop of \<open>SearchClStart\<close>: backwards from the position itself to a line end.\<close>

fun cl_loop :: "string \<Rightarrow> nat \<Rightarrow> nat" where
  "cl_loop body 0 = 0"
| "cl_loop body (Suc p) =
     (if byte_at body (Suc p) = LF \<or> byte_at body (Suc p) = CR then Suc p + 1 else cl_loop body p)"

definition SearchClStart :: "feeder \<Rightarrow> feeder" where
  "SearchClStart s =
     (case sf_file s of
        None \<Rightarrow> s\<lparr>sf_clstart := 0\<rparr>
      | Some f \<Rightarrow> s\<lparr>sf_clstart := cl_loop (sc_body f) (sf_cur s)\<rparr>)"

definition RecalcCurLineCol :: "feeder \<Rightarrow> feeder" where
  "RecalcCurLineCol s =
     (let sp = scpos_at (sf_file s) (sf_cur s)
      in SearchClStart (s\<lparr>sf_line := pos_line sp, sf_col := pos_col sp\<rparr>))"

text \<open>Going back to a saved position; one without a file is a null dereference: \<open>None\<close>.\<close>

definition goto_pos :: "scpos \<Rightarrow> feeder \<Rightarrow> feeder" where
  "goto_pos rpos s =
     SearchClStart (s\<lparr>sf_file := pos_file rpos, sf_cur := pos_off rpos, sf_line := pos_line rpos,
       sf_col := pos_col rpos, sf_lastline := pos_line rpos, sf_prev := pos_off rpos, sf_prevlen := 0\<rparr>)"

definition SetCurPos :: "scpos \<Rightarrow> feeder \<Rightarrow> feeder option" where
  "SetCurPos rpos s = (if pos_file rpos = None then None else Some (goto_pos rpos s))"

definition SetCurPosFile :: "scfile option \<Rightarrow> nat \<Rightarrow> feeder \<Rightarrow> feeder" where
  "SetCurPosFile afile apos s =
     (case afile of
        Some f \<Rightarrow>
          (RecalcCurLineCol (s\<lparr>sf_file := afile, sf_cur := apos, sf_prev := apos, sf_prevlen := 0\<rparr>))
            \<lparr>sf_lastline := 0\<rparr>
      | None \<Rightarrow>
          s\<lparr>sf_file := None, sf_cur := 0, sf_prev := 0, sf_clstart := 0, sf_prevlen := 0,
            sf_line := 0, sf_col := 0, sf_lastline := 0\<rparr>)"

definition RecalcCurCol :: "feeder \<Rightarrow> feeder" where
  "RecalcCurCol s = s\<lparr>sf_col := int (sf_cur s) - int (sf_clstart s) + 1\<rparr>"

section \<open>Scanning\<close>

text \<open>A scanning loop that counts lines: position, line and line start.\<close>

function track_while :: "(char \<Rightarrow> bool) \<Rightarrow> string \<Rightarrow> nat \<Rightarrow> int \<Rightarrow> nat \<Rightarrow> nat \<times> int \<times> nat" where
  "track_while P buf p line cls =
     (if p < length buf \<and> P (buf ! p)
      then (if buf ! p = line_end_char then track_while P buf (Suc p) (line + 1) (Suc p)
            else track_while P buf (Suc p) line cls)
      else (p, line, cls))"
  by pat_completeness auto
termination by (relation "measure (\<lambda>(_, buf, p, _, _). length buf - p)") auto

declare track_while.simps [simp del]

definition sf_SkipSpaces :: "bool \<Rightarrow> feeder \<Rightarrow> unit \<times> feeder" where
  "sf_SkipSpaces askiplineend s =
     (case track_while (is_blank askiplineend) (sf_buf s) (sf_cur s) (sf_line s) (sf_clstart s) of
        (cp, line, cls) \<Rightarrow>
          ((), RecalcCurCol (s\<lparr>sf_cur := cp, sf_line := line, sf_clstart := cls\<rparr>)))"

definition sf_ReadLine :: "feeder \<Rightarrow> bool \<times> feeder" where
  "sf_ReadLine s =
     (let p = scan_while (\<lambda>c. c \<noteq> CR \<and> c \<noteq> LF) (sf_buf s) (sf_cur s);
          s1 = s\<lparr>sf_prev := sf_cur s, sf_prevlen := p - sf_cur s\<rparr>;
          (p1, s2) = (if p < sf_end s \<and> sf_buf s ! p = CR
             then (Suc p, s1\<lparr>sf_line := (if sf_buf s ! p = line_end_char then sf_line s1 + 1 else sf_line s1),
                             sf_clstart := Suc p\<rparr>)
             else (p, s1));
          (p2, s3) = (if p1 < sf_end s \<and> sf_buf s ! p1 = LF
             then (Suc p1, s2\<lparr>sf_line := (if sf_buf s ! p1 = line_end_char then sf_line s2 + 1 else sf_line s2),
                              sf_clstart := Suc p1\<rparr>)
             else (p1, s2));
          s4 = RecalcCurCol (s3\<lparr>sf_cur := p2\<rparr>)
      in (sf_prev s4 < sf_end s, s4\<lparr>sf_lastline := sf_line s4\<rparr>))"

text \<open>\<open>ReadTo\<close> sets the length of the previous token but not its start.\<close>

definition sf_ReadTo :: "string \<Rightarrow> feeder \<Rightarrow> bool \<times> feeder" where
  "sf_ReadTo checkchars s =
     (case track_while (\<lambda>c. c \<notin> set checkchars) (sf_buf s) (sf_cur s) (sf_line s) (sf_clstart s) of
        (p, line, cls) \<Rightarrow>
          let s1 = RecalcCurCol (s\<lparr>sf_prevlen := p - sf_cur s, sf_cur := p, sf_line := line, sf_clstart := cls\<rparr>)
          in if p < sf_end s then (True, s1\<lparr>sf_lastline := sf_line s1\<rparr>) else (False, s1))"

definition sf_ReadToChar :: "char \<Rightarrow> feeder \<Rightarrow> bool \<times> feeder" where
  "sf_ReadToChar achar s =
     (case track_while (\<lambda>c. c \<noteq> achar) (sf_buf s) (sf_cur s) (sf_line s) (sf_clstart s) of
        (p, line, cls) \<Rightarrow>
          let s1 = s\<lparr>sf_prev := sf_cur s, sf_line := line, sf_clstart := cls\<rparr>;
              s2 = (if p < sf_end s then s1\<lparr>sf_lastline := line\<rparr> else s1)
          in (p < sf_end s, RecalcCurCol (s2\<lparr>sf_prevlen := p - sf_cur s, sf_cur := p\<rparr>)))"

text \<open>The search loop runs while the start position lies strictly before \<open>bufend - csslen\<close>.\<close>

function sf_search_loop :: "string \<Rightarrow> string \<Rightarrow> nat \<Rightarrow> int \<Rightarrow> nat \<Rightarrow> (nat \<times> int \<times> nat) option" where
  "sf_search_loop cs buf cps line cls =
     (if cps + length cs < length buf
      then (if pattern_at cs buf cps then Some (cps, line, cls)
            else if buf ! cps = line_end_char then sf_search_loop cs buf (Suc cps) (line + 1) (Suc cps)
            else sf_search_loop cs buf (Suc cps) line cls)
      else None)"
  by pat_completeness auto
termination by (relation "measure (\<lambda>(cs, buf, cps, _, _). length buf - cps)") auto

declare sf_search_loop.simps [simp del]

definition sf_SearchPattern :: "string \<Rightarrow> bool \<Rightarrow> feeder \<Rightarrow> bool \<times> feeder" where
  "sf_SearchPattern checkstr aconsume s =
     (case sf_search_loop checkstr (sf_buf s) (sf_cur s) (sf_line s) (sf_clstart s) of
        None \<Rightarrow> (False, s)
      | Some (cps, line, cls) \<Rightarrow>
          let s1 = RecalcCurCol (s\<lparr>sf_prevlen := cps - sf_cur s,
                     sf_cur := (if aconsume then cps + length checkstr else cps),
                     sf_line := line, sf_clstart := cls\<rparr>)
          in (True, if aconsume then s1\<lparr>sf_lastline := sf_line s1\<rparr> else s1))"

text \<open>The position for error messages is saved unless it was saved at this place before.\<close>

definition save_prevpos :: "feeder \<Rightarrow> feeder" where
  "save_prevpos s =
     (if pos_file (sf_prevpos s) = sf_file s \<and> pos_off (sf_prevpos s) = sf_cur s then s
      else s\<lparr>sf_prevpos := SaveCurPos s\<rparr>)"

text \<open>Consuming a token that holds no line end.\<close>

definition sf_consume :: "nat \<Rightarrow> feeder \<Rightarrow> feeder" where
  "sf_consume p s = (RecalcCurCol (s\<lparr>sf_cur := p\<rparr>))\<lparr>sf_lastline := sf_line s\<rparr>"

definition sf_CheckSymbol :: "string \<Rightarrow> bool \<Rightarrow> feeder \<Rightarrow> bool \<times> feeder" where
  "sf_CheckSymbol checkstring aconsume s =
     (let s1 = save_prevpos s
      in case check_loop checkstring (sf_buf s) (sf_cur s) of
           (left, p) \<Rightarrow>
             if left \<noteq> [] then (False, s1)
             else (True, if aconsume then sf_consume p s1 else s1))"

definition is_identifier_char :: "char \<Rightarrow> bool" where
  "is_identifier_char c \<longleftrightarrow> (CHR ''A'' \<le> c \<and> c \<le> CHR ''Z'') \<or> (CHR ''a'' \<le> c \<and> c \<le> CHR ''z'')
     \<or> (CHR ''0'' \<le> c \<and> c \<le> CHR ''9'') \<or> c = CHR ''_''"

text \<open>Without a file, \<open>CheckKeyword\<close> reads through a null pointer: \<open>None\<close>.\<close>

definition sf_CheckKeyword :: "string \<Rightarrow> bool \<Rightarrow> feeder \<Rightarrow> (bool \<times> feeder) option" where
  "sf_CheckKeyword checkstring aconsume s =
     (if sf_file s = None then None else Some (let len = length checkstring in
      if (sf_cur s > 0 \<and> is_identifier_char (sf_buf s ! (sf_cur s - 1)))
         \<or> (sf_end s - sf_cur s > len \<and> is_identifier_char (sf_buf s ! (sf_cur s + len)))
      then (False, s)
      else sf_CheckSymbol checkstring aconsume s))"

definition sf_ReadIdentifier :: "string \<Rightarrow> bool \<Rightarrow> feeder \<Rightarrow> (bool \<times> string) \<times> feeder" where
  "sf_ReadIdentifier rvalue aconsume s =
     (let p0 = sf_cur s;
          p = (if p0 < sf_end s \<and> is_alpha_under (sf_buf s ! p0)
               then scan_while (\<lambda>c. is_alpha_under c \<or> is_dec c) (sf_buf s) (Suc p0) else p0);
          s1 = (save_prevpos s)\<lparr>sf_prev := p0, sf_prevlen := p - p0\<rparr>
      in if p - p0 > 0
         then ((True, take (p - p0) (drop p0 (sf_buf s))), if aconsume then sf_consume p s1 else s1)
         else ((False, rvalue), s1))"

definition sf_IsNumChar :: "feeder \<Rightarrow> bool" where
  "sf_IsNumChar s \<longleftrightarrow> sf_cur s < sf_end s \<and> is_dec (sf_buf s ! sf_cur s)"

definition sf_IsIntLiteral :: "feeder \<Rightarrow> bool" where
  "sf_IsIntLiteral s =
     (if sf_cur s \<ge> sf_end s then False
      else if is_dec (sf_buf s ! sf_cur s) then True
      else sf_cur s + 1 < sf_end s
        \<and> (sf_buf s ! sf_cur s = CHR ''-'' \<or> sf_buf s ! sf_cur s = CHR ''+'')
        \<and> is_dec (sf_buf s ! (sf_cur s + 1)))"

section \<open>Integers\<close>

text \<open>Signed 64-bit arithmetic: overflow is undefined behaviour, \<open>None\<close>.\<close>

definition int64_check :: "int \<Rightarrow> int option" where
  "int64_check v = (if - (2 ^ 63) \<le> v \<and> v < 2 ^ 63 then Some v else None)"

text \<open>The loop of \<open>ReadInt64Value\<close>: position, value, sign factor and whether a digit was seen.\<close>

function int64_loop :: "string \<Rightarrow> nat \<Rightarrow> nat \<Rightarrow> int \<Rightarrow> int \<Rightarrow> bool \<Rightarrow> (nat \<times> int \<times> int \<times> bool) option" where
  "int64_loop buf start p result signmul bok =
     (if p < length buf then
        let c = buf ! p in
        if CHR ''0'' \<le> c \<and> c \<le> CHR ''9'' then
          (case int64_check (result * 10) of
             None \<Rightarrow> None
           | Some m \<Rightarrow>
               (case int64_check (m + (schar c - schar (CHR ''0''))) of
                  None \<Rightarrow> None
                | Some r \<Rightarrow> int64_loop buf start (Suc p) r signmul True))
        else if c = CHR ''-'' \<and> p = start then int64_loop buf start (Suc p) result (- 1) bok
        else if c = CHR ''+'' \<and> p = start then int64_loop buf start (Suc p) result 1 bok
        else Some (p, result, signmul, bok)
      else Some (p, result, signmul, bok))"
  by pat_completeness auto
termination by (relation "measure (\<lambda>(buf, start, p, _, _, _). length buf - p)") auto

declare int64_loop.simps [simp del]

definition sf_ReadInt64Value :: "int \<Rightarrow> feeder \<Rightarrow> ((bool \<times> int) \<times> feeder) option" where
  "sf_ReadInt64Value rvalue s = do {
     (p, result, signmul, bok) \<leftarrow> int64_loop (sf_buf s) (sf_cur s) (sf_cur s) 0 1 False;
     let s1 = s\<lparr>sf_prevpos := SaveCurPos s, sf_prev := sf_cur s\<rparr>;
     Some (if bok then ((True, result), sf_consume p (s1\<lparr>sf_prevlen := p - sf_cur s\<rparr>))
           else ((False, rvalue), s1)) }"

text \<open>Hexadecimal digits at the position, in unsigned 64-bit arithmetic that wraps around.\<close>

function hex64_loop :: "string \<Rightarrow> nat \<Rightarrow> 64 word \<Rightarrow> nat \<times> 64 word" where
  "hex64_loop buf p result =
     (if p < length buf then
        let c = buf ! p in
        if CHR ''0'' \<le> c \<and> c \<le> CHR ''9'' then
          hex64_loop buf (Suc p) (push_bit 4 result + of_int (schar c - schar (CHR ''0'')))
        else if CHR ''a'' \<le> c \<and> c \<le> CHR ''f'' then
          hex64_loop buf (Suc p) (push_bit 4 result + of_int (schar c - schar (CHR ''a'') + 10))
        else if CHR ''A'' \<le> c \<and> c \<le> CHR ''F'' then
          hex64_loop buf (Suc p) (push_bit 4 result + of_int (schar c - schar (CHR ''A'') + 10))
        else (p, result)
      else (p, result))"
  by pat_completeness auto
termination by (relation "measure (\<lambda>(buf, p, _). length buf - p)") auto

declare hex64_loop.simps [simp del]

definition sf_ReadHex64Value :: "64 word \<Rightarrow> feeder \<Rightarrow> (bool \<times> 64 word) \<times> feeder" where
  "sf_ReadHex64Value rvalue s =
     (case hex64_loop (sf_buf s) (sf_cur s) 0 of
        (p, result) \<Rightarrow>
          let s1 = s\<lparr>sf_prevpos := SaveCurPos s, sf_prev := sf_cur s, sf_prevlen := p - sf_cur s\<rparr>
          in if p - sf_cur s > 0 then ((True, result), sf_consume p s1) else ((False, rvalue), s1))"

text \<open>The three readers of a run of digits share their shape.\<close>

definition sf_read_run :: "(char \<Rightarrow> bool) \<Rightarrow> feeder \<Rightarrow> bool \<times> feeder" where
  "sf_read_run P s =
     (let cp = scan_while P (sf_buf s) (sf_cur s); result = cp > sf_cur s;
          s1 = RecalcCurCol (s\<lparr>sf_prev := sf_cur s, sf_prevlen := cp - sf_cur s, sf_cur := cp\<rparr>)
      in (result, if result then s1\<lparr>sf_lastline := sf_line s1\<rparr> else s1))"

definition sf_ReadDecimalNumbers :: "feeder \<Rightarrow> bool \<times> feeder" where
  "sf_ReadDecimalNumbers s = sf_read_run is_dec s"

definition sf_ReadHexNumbers :: "feeder \<Rightarrow> bool \<times> feeder" where
  "sf_ReadHexNumbers s = sf_read_run is_hex s"

definition sf_ReadFloatNum :: "feeder \<Rightarrow> bool \<times> feeder" where
  "sf_ReadFloatNum s = sf_read_run (\<lambda>c. is_dec c \<or> c = CHR ''.'' \<or> c = CHR ''-'' \<or> c = CHR ''+''
     \<or> c = CHR ''e'' \<or> c = CHR ''E'') s"

section \<open>String literals\<close>

text \<open>
  The search for the end of the literal: the end of the content and the position behind the
  closing quotes. A backslash takes the next character with it; a line end ends an ordinary
  literal without success.
\<close>

function quote_scan :: "string \<Rightarrow> char \<Rightarrow> bool \<Rightarrow> nat \<Rightarrow> (nat \<times> nat) option" where
  "quote_scan buf q triple p =
     (if p < length buf then
        if buf ! p = BACKSLASH then
          if p + 1 \<ge> length buf \<or> (\<not> triple \<and> (buf ! (p + 1) = LF \<or> buf ! (p + 1) = CR)) then None
          else quote_scan buf q triple (p + 2)
        else if \<not> triple \<and> (buf ! p = LF \<or> buf ! p = CR) then None
        else if buf ! p = q \<and> \<not> triple then Some (p, Suc p)
        else if buf ! p = q \<and> p + 2 < length buf \<and> buf ! (p + 1) = q \<and> buf ! (p + 2) = q then Some (p, p + 3)
        else quote_scan buf q triple (Suc p)
      else None)"
  by pat_completeness auto
termination by (relation "measure (\<lambda>(buf, q, triple, p). length buf - p)") auto

declare quote_scan.simps [simp del]

text \<open>The start of the line of the closing quotes, searched backwards to the start of the file.\<close>

fun line_back :: "string \<Rightarrow> nat \<Rightarrow> nat" where
  "line_back body 0 = 0"
| "line_back body (Suc p) = (if body ! p \<noteq> LF \<and> body ! p \<noteq> CR then line_back body p else Suc p)"

text \<open>The last line end before the closing line is taken off: LF, CRLF or CR.\<close>

definition drop_last_newline :: "string \<Rightarrow> nat \<Rightarrow> string" where
  "drop_last_newline raw n =
     (if n > 0 then
        if raw ! (n - 1) = LF then
          (if n - 1 > 0 \<and> raw ! (n - 2) = CR then take (n - 2) raw else take (n - 1) raw)
        else if raw ! (n - 1) = CR then take (n - 1) raw
        else raw
      else raw)"

definition drop_first_newline :: "string \<Rightarrow> string" where
  "drop_first_newline raw =
     (if take 2 raw = [CR, LF] then drop 2 raw
      else if raw \<noteq> [] \<and> (hd raw = LF \<or> hd raw = CR) then drop 1 raw
      else raw)"

text \<open>The line of the closing quotes is the indentation when it holds blanks only.\<close>

definition closing_indent :: "string \<Rightarrow> nat \<Rightarrow> string option" where
  "closing_indent body content_end =
     (let ls = line_back body content_end; line = take (content_end - ls) (drop ls body)
      in if list_all (\<lambda>c. c = CHR '' '' \<or> c = TAB) line then Some line else None)"

text \<open>Taking the indentation off every line that starts with it.\<close>

function dedent_loop :: "string \<Rightarrow> string \<Rightarrow> string \<Rightarrow> string" where
  "dedent_loop ind raw acc =
     (if raw = [] then acc
      else
        let line = takeWhile (\<lambda>c. c \<noteq> CR \<and> c \<noteq> LF) raw;
            rest = drop (length line) raw;
            content = (if take (length ind) raw = ind then drop (length ind) line else line);
            acc = acc @ content
        in if rest = [] then acc
           else if hd rest = CR \<and> 1 < length rest \<and> rest ! 1 = LF
           then dedent_loop ind (drop 2 rest) (acc @ [CR, LF])
           else dedent_loop ind (drop 1 rest) (acc @ [hd rest]))"
  by pat_completeness auto
termination
proof (relation "measure (\<lambda>(ind, raw, acc). length raw)", goal_cases)
  case (2 ind raw acc line rest content acc')
  then show ?case by (cases raw) auto
next
  case (3 ind raw acc line rest content acc')
  then show ?case by (cases raw) auto
qed simp

declare dedent_loop.simps [simp del]

definition triple_value :: "string \<Rightarrow> nat \<Rightarrow> string \<Rightarrow> string" where
  "triple_value body content_end raw =
     (let ind = (case closing_indent body content_end of None \<Rightarrow> [] | Some i \<Rightarrow> i);
          raw1 = (case closing_indent body content_end of
                    None \<Rightarrow> raw
                  | Some i \<Rightarrow> drop_last_newline raw (length raw - length i));
          raw2 = drop_first_newline raw1
      in if ind \<noteq> [] then dedent_loop ind raw2 [] else raw2)"

text \<open>The escapes of a literal; an unknown one stays as it is.\<close>

fun unescape :: "string \<Rightarrow> string" where
  "unescape [] = []"
| "unescape [c] = [c]"
| "unescape (c # e # r) =
     (if c \<noteq> BACKSLASH then c # unescape (e # r)
      else if e = DQUOTE then DQUOTE # unescape r
      else if e = SQUOTE then SQUOTE # unescape r
      else if e = CHR ''n'' then LF # unescape r
      else if e = CHR ''r'' then CR # unescape r
      else if e = CHR ''t'' then TAB # unescape r
      else if e = BACKSLASH then BACKSLASH # unescape r
      else if e = CHR ''x'' then
        (case r of
           h # l # r' \<Rightarrow>
             if HexDigitValue h \<ge> 0 \<and> HexDigitValue l \<ge> 0
             then char_of (nat (push_bit 4 (HexDigitValue h) OR HexDigitValue l)) # unescape r'
             else BACKSLASH # e # unescape r
         | _ \<Rightarrow> BACKSLASH # e # unescape r)
      else BACKSLASH # e # unescape r)"

definition sf_ReadQuotedString :: "string \<Rightarrow> feeder \<Rightarrow> (bool \<times> string) \<times> feeder" where
  "sf_ReadQuotedString rvalue s =
     (let buf = sf_buf s; cur = sf_cur s;
          s1 = s\<lparr>sf_prevpos := SaveCurPos s, sf_prev := cur\<rparr>
      in if cur \<ge> length buf \<or> (buf ! cur \<noteq> DQUOTE \<and> buf ! cur \<noteq> SQUOTE) then ((False, rvalue), s1)
         else
           let savedpos = SaveCurPos s; q = buf ! cur;
               triple = (cur + 2 < length buf \<and> buf ! (cur + 1) = q \<and> buf ! (cur + 2) = q);
               content_start = cur + (if triple then 3 else 1)
           in case quote_scan buf q triple content_start of
                None \<Rightarrow> ((False, rvalue), (goto_pos savedpos s1)\<lparr>sf_prevpos := savedpos\<rparr>)
              | Some (content_end, p) \<Rightarrow>
                  let raw = take (content_end - content_start) (drop content_start buf);
                      raw = (if triple then triple_value buf content_end raw else raw);
                      s2 = RecalcCurLineCol (s1\<lparr>sf_cur := p\<rparr>)
                  in ((True, unescape raw), s2\<lparr>sf_lastline := sf_line s2\<rparr>))"

end
