(* ===== verification/Scf_Track.thy ===== *)
theory Scf_Track
  imports Scf_Base
begin

text \<open>
  The feeder keeps its position and its line and column together: every operation is a scanning
  operation, and the line, the column and the line start it keeps agree with the slow
  recalculation from the start of the file.
\<close>

section \<open>Every operation is a scanning operation\<close>

definition sf_inv :: "feeder \<Rightarrow> bool" where
  "sf_inv s \<longleftrightarrow> sf_cur s \<le> sf_end s"

lemma sf_buf_update [simp]:
  "sf_buf (s\<lparr>sf_cur := p\<rparr>) = sf_buf s" "sf_buf (s\<lparr>sf_prev := p\<rparr>) = sf_buf s"
  "sf_buf (s\<lparr>sf_prevlen := p\<rparr>) = sf_buf s" "sf_buf (s\<lparr>sf_line := l\<rparr>) = sf_buf s"
  "sf_buf (s\<lparr>sf_col := l\<rparr>) = sf_buf s" "sf_buf (s\<lparr>sf_clstart := p\<rparr>) = sf_buf s"
  "sf_buf (s\<lparr>sf_prevpos := sp\<rparr>) = sf_buf s" "sf_buf (s\<lparr>sf_lastline := l\<rparr>) = sf_buf s"
  by (simp_all add: sf_buf_def)

lemma RecalcCurCol_simps [simp]:
  "sf_buf (RecalcCurCol s) = sf_buf s" "sf_file (RecalcCurCol s) = sf_file s"
  "sf_cur (RecalcCurCol s) = sf_cur s" "sf_line (RecalcCurCol s) = sf_line s"
  "sf_clstart (RecalcCurCol s) = sf_clstart s" "sf_prev (RecalcCurCol s) = sf_prev s"
  "sf_prevlen (RecalcCurCol s) = sf_prevlen s"
  "sf_col (RecalcCurCol s) = int (sf_cur s) - int (sf_clstart s) + 1"
  by (simp_all add: RecalcCurCol_def)

lemma sf_consume_simps [simp]:
  "sf_buf (sf_consume p s) = sf_buf s" "sf_file (sf_consume p s) = sf_file s"
  "sf_cur (sf_consume p s) = p" "sf_line (sf_consume p s) = sf_line s"
  "sf_clstart (sf_consume p s) = sf_clstart s" "sf_prev (sf_consume p s) = sf_prev s"
  "sf_prevlen (sf_consume p s) = sf_prevlen s" "sf_lastline (sf_consume p s) = sf_line s"
  "sf_col (sf_consume p s) = int p - int (sf_clstart s) + 1"
  by (simp_all add: sf_consume_def)

lemma save_prevpos_simps [simp]:
  "sf_buf (save_prevpos s) = sf_buf s" "sf_file (save_prevpos s) = sf_file s"
  "sf_cur (save_prevpos s) = sf_cur s" "sf_line (save_prevpos s) = sf_line s"
  "sf_clstart (save_prevpos s) = sf_clstart s" "sf_col (save_prevpos s) = sf_col s"
  by (simp_all add: save_prevpos_def)

lemma SearchClStart_simps [simp]:
  "sf_buf (SearchClStart s) = sf_buf s" "sf_file (SearchClStart s) = sf_file s"
  "sf_cur (SearchClStart s) = sf_cur s" "sf_line (SearchClStart s) = sf_line s"
  "sf_col (SearchClStart s) = sf_col s"
  by (simp_all add: SearchClStart_def sf_buf_def split: option.splits)

abbreviation sf_scans :: "feeder \<Rightarrow> feeder \<Rightarrow> bool" where
  "sf_scans s s' \<equiv> sf_inv s' \<and> sf_buf s' = sf_buf s \<and> sf_cur s \<le> sf_cur s'"

lemma sf_scannerI:
  assumes "\<And>s. sf_inv s \<Longrightarrow> sf_scans s (snd (act s))"
  shows "scanner sf_buf sf_cur sf_inv act"
proof unfold_locales
  fix s
  assume s: "sf_inv s"
  then show "sf_cur s \<le> length (sf_buf s)" by (simp add: sf_inv_def)
  from assms [OF s] show "sf_inv (snd (act s))" "sf_buf (snd (act s)) = sf_buf s"
    "sf_cur s \<le> sf_cur (snd (act s))" by blast+
qed

text \<open>The counting loop stops where the plain loop stops.\<close>

lemma track_while_scan: "fst (track_while P buf p line cls) = scan_while P buf p"
proof (induction P buf p line cls rule: track_while.induct)
  case (1 P buf p line cls)
  then show ?case
    by (subst track_while.simps, subst scan_while.simps) auto
qed

lemma sf_scan_bounds:
  "sf_inv s \<Longrightarrow> sf_cur s \<le> p \<Longrightarrow> p \<le> sf_end s \<Longrightarrow>
     sf_cur s \<le> scan_while P (sf_buf s) p \<and> scan_while P (sf_buf s) p \<le> sf_end s"
  using scan_while_ge [of p P "sf_buf s"] scan_while_le [of p "sf_buf s" P] by simp

lemma track_while_bounds:
  assumes "sf_inv s" and "track_while P (sf_buf s) (sf_cur s) line cls = (p, line', cls')"
  shows "sf_cur s \<le> p \<and> p \<le> sf_end s"
proof -
  have "p = scan_while P (sf_buf s) (sf_cur s)"
    using track_while_scan [of P "sf_buf s" "sf_cur s" line cls] assms(2) by simp
  then show ?thesis using sf_scan_bounds [OF assms(1) order_refl, of P] assms(1) by (simp add: sf_inv_def)
qed

interpretation sf_skip: scanner sf_buf sf_cur sf_inv "sf_SkipSpaces b"
  by (rule sf_scannerI)
    (auto simp: sf_SkipSpaces_def sf_inv_def dest!: track_while_bounds [rotated] split: prod.splits)

interpretation sf_to: scanner sf_buf sf_cur sf_inv "sf_ReadTo cs"
  by (rule sf_scannerI)
    (auto simp: sf_ReadTo_def Let_def sf_inv_def dest!: track_while_bounds [rotated] split: prod.splits)

interpretation sf_to_char: scanner sf_buf sf_cur sf_inv "sf_ReadToChar c"
  by (rule sf_scannerI)
    (auto simp: sf_ReadToChar_def Let_def sf_inv_def dest!: track_while_bounds [rotated] split: prod.splits)

lemma sf_ReadLine_eq:
  "sf_ReadLine s =
     (let p = scan_while (\<lambda>c. c \<noteq> CR \<and> c \<noteq> LF) (sf_buf s) (sf_cur s);
          cr = p < sf_end s \<and> sf_buf s ! p = CR; p1 = (if cr then Suc p else p);
          lf = p1 < sf_end s \<and> sf_buf s ! p1 = LF; p2 = (if lf then Suc p1 else p1);
          line = (if lf then sf_line s + 1 else sf_line s);
          cls = (if lf then p2 else if cr then p1 else sf_clstart s)
      in (sf_cur s < sf_end s,
          s\<lparr>sf_prev := sf_cur s, sf_prevlen := p - sf_cur s, sf_cur := p2, sf_line := line,
            sf_clstart := cls, sf_col := int p2 - int cls + 1, sf_lastline := line\<rparr>))"
  by (simp add: sf_ReadLine_def Let_def line_end_char_def RecalcCurCol_def)

interpretation sf_readline: scanner sf_buf sf_cur sf_inv sf_ReadLine
proof (rule sf_scannerI)
  fix s
  assume s: "sf_inv s"
  show "sf_scans s (snd (sf_ReadLine s))"
    using sf_scan_bounds [OF s order_refl, of "\<lambda>c. c \<noteq> CR \<and> c \<noteq> LF"] s
    by (auto simp: sf_ReadLine_eq sf_inv_def Let_def)
qed

interpretation sf_symbol: scanner sf_buf sf_cur sf_inv "sf_CheckSymbol cs consume"
proof (rule sf_scannerI)
  fix s
  assume s: "sf_inv s"
  then show "sf_scans s (snd (sf_CheckSymbol cs consume s))"
    using check_loop_eq [of "sf_cur s" "sf_buf s" cs]
    by (auto simp: sf_CheckSymbol_def sf_inv_def Let_def split: prod.splits)
qed

interpretation sf_ident: scanner sf_buf sf_cur sf_inv "sf_ReadIdentifier v consume"
proof (rule sf_scannerI)
  fix s
  assume s: "sf_inv s"
  then show "sf_scans s (snd (sf_ReadIdentifier v consume s))"
    using sf_scan_bounds [OF s, of "Suc (sf_cur s)" "\<lambda>c. is_alpha_under c \<or> is_dec c"]
    by (auto simp: sf_ReadIdentifier_def sf_inv_def Let_def)
qed

interpretation sf_run: scanner sf_buf sf_cur sf_inv "sf_read_run P"
proof (rule sf_scannerI)
  fix s
  assume s: "sf_inv s"
  then show "sf_scans s (snd (sf_read_run P s))"
    using sf_scan_bounds [OF s order_refl, of P] by (auto simp: sf_read_run_def sf_inv_def Let_def)
qed

lemma hex64_loop_scan: "fst (hex64_loop buf p v) = scan_while is_hex buf p"
proof (induction buf p v rule: hex64_loop.induct)
  case (1 buf p v)
  show ?case
  proof (cases "p < length buf \<and> is_hex (buf ! p)")
    case True
    then have "scan_while is_hex buf p = scan_while is_hex buf (Suc p)"
      by (simp add: scan_while.simps [of is_hex buf p])
    moreover from True have "(CHR ''0'' \<le> buf ! p \<and> buf ! p \<le> CHR ''9'')
        \<or> (CHR ''A'' \<le> buf ! p \<and> buf ! p \<le> CHR ''F'') \<or> (CHR ''a'' \<le> buf ! p \<and> buf ! p \<le> CHR ''f'')"
      by (simp add: is_hex_def is_dec_def)
    ultimately show ?thesis using True 1 by (auto simp: hex64_loop.simps [of buf p v] Let_def)
  next
    case False
    then have "scan_while is_hex buf p = p" by (auto simp: scan_while.simps [of is_hex buf p])
    moreover from False have "fst (hex64_loop buf p v) = p"
      by (auto simp: hex64_loop.simps [of buf p v] Let_def is_hex_def is_dec_def)
    ultimately show ?thesis by simp
  qed
qed

interpretation sf_hex: scanner sf_buf sf_cur sf_inv "sf_ReadHex64Value v"
proof (rule sf_scannerI)
  fix s
  assume s: "sf_inv s"
  then show "sf_scans s (snd (sf_ReadHex64Value v s))"
    using sf_scan_bounds [OF s order_refl, of is_hex] hex64_loop_scan [of "sf_buf s" "sf_cur s" 0]
    by (auto simp: sf_ReadHex64Value_def sf_inv_def Let_def split: prod.splits)
qed

lemma sf_search_loop_range:
  "sf_search_loop cs buf p line cls = Some (i, l, c) \<Longrightarrow> p \<le> i \<and> i + length cs < length buf"
proof (induction cs buf p line cls rule: sf_search_loop.induct)
  case (1 cs buf p line cls)
  show ?case
  proof (cases "p + length cs < length buf \<and> \<not> pattern_at cs buf p")
    case True
    then show ?thesis
      using 1 by (cases "buf ! p = line_end_char") (auto simp: sf_search_loop.simps [of cs buf p line cls])
  next
    case False
    with 1(3) show ?thesis by (auto simp: sf_search_loop.simps [of cs buf p line cls] split: if_splits)
  qed
qed

interpretation sf_search: scanner sf_buf sf_cur sf_inv "sf_SearchPattern cs consume"
proof (rule sf_scannerI)
  fix s
  assume s: "sf_inv s"
  show "sf_scans s (snd (sf_SearchPattern cs consume s))"
  proof (cases "sf_search_loop cs (sf_buf s) (sf_cur s) (sf_line s) (sf_clstart s)")
    case None
    with s show ?thesis by (simp add: sf_SearchPattern_def)
  next
    case (Some r)
    obtain i l c where r: "r = (i, l, c)" by (cases r)
    from sf_search_loop_range [OF Some [unfolded r]] show ?thesis
      by (simp add: sf_SearchPattern_def Some r Let_def sf_inv_def)
  qed
qed

lemma quote_scan_range: "quote_scan buf q t p = Some (e, p') \<Longrightarrow> p \<le> e \<and> e < p' \<and> p' \<le> length buf"
proof (induction buf q t p rule: quote_scan.induct)
  case (1 buf q t p)
  then show ?case
    by (subst (asm) (3) quote_scan.simps) (auto split: if_splits)
qed

lemma RecalcCurLineCol_simps [simp]:
  "sf_buf (RecalcCurLineCol s) = sf_buf s" "sf_file (RecalcCurLineCol s) = sf_file s"
  "sf_cur (RecalcCurLineCol s) = sf_cur s"
  by (simp_all add: RecalcCurLineCol_def Let_def)

lemma goto_saved [simp]:
  "sf_buf (goto_pos (SaveCurPos s) s') = sf_buf s" "sf_cur (goto_pos sp s') = pos_off sp"
  "pos_off (SaveCurPos s) = sf_cur s"
  by (simp_all add: goto_pos_def SaveCurPos_def sf_buf_def)

interpretation sf_quoted: scanner sf_buf sf_cur sf_inv "sf_ReadQuotedString v"
proof (rule sf_scannerI)
  fix s
  assume s: "sf_inv s"
  let ?q = "sf_buf s ! sf_cur s"
  let ?t = "sf_cur s + 2 < sf_end s \<and> sf_buf s ! (sf_cur s + 1) = ?q \<and> sf_buf s ! (sf_cur s + 2) = ?q"
  show "sf_scans s (snd (sf_ReadQuotedString v s))"
  proof (cases "quote_scan (sf_buf s) ?q ?t (sf_cur s + (if ?t then 3 else 1))")
    case None
    then show ?thesis using s by (simp add: sf_ReadQuotedString_def Let_def sf_inv_def)
  next
    case (Some r)
    obtain e p where r: "r = (e, p)" by (cases r)
    from quote_scan_range [OF Some [unfolded r]] Some r s show ?thesis
      by (simp add: sf_ReadQuotedString_def Let_def sf_inv_def)
  qed
qed

section \<open>The position and the line and column agree\<close>

text \<open>
  The kept line, line start and column are those the slow recalculation from the start of the
  file gives for the read position.
\<close>

definition sf_tracked :: "feeder \<Rightarrow> bool" where
  "sf_tracked s \<longleftrightarrow> sf_file s \<noteq> None \<and> sf_cur s \<le> sf_end s
     \<and> recalc_loop (sf_buf s) (sf_cur s) = (sf_line s, sf_clstart s)
     \<and> sf_col s = int (sf_cur s) - int (sf_clstart s) + 1"

lemma sf_tracked_inv: "sf_tracked s \<Longrightarrow> sf_inv s"
  by (simp add: sf_tracked_def sf_inv_def)

lemma sf_buf_file: "sf_file s = Some f \<Longrightarrow> sf_buf s = sc_body f"
  by (simp add: sf_buf_def)

lemma tracked_recalc: "sf_tracked s \<Longrightarrow> RecalcLineCol (SaveCurPos s) = SaveCurPos s"
  by (auto simp: sf_tracked_def RecalcLineCol_def SaveCurPos_def sf_buf_file)

text \<open>A stretch without a line feed keeps line and line start.\<close>

lemma recalc_no_lf:
  "p \<le> p' \<Longrightarrow> (\<And>i. p \<le> i \<Longrightarrow> i < p' \<Longrightarrow> buf ! i \<noteq> LF) \<Longrightarrow> recalc_loop buf p' = recalc_loop buf p"
proof (induction p')
  case (Suc p')
  then show ?case by (cases "p = Suc p'") auto
qed simp

lemma track_while_recalc:
  "recalc_loop buf p = (line, cls) \<Longrightarrow> track_while P buf p line cls = (p', line', cls')
     \<Longrightarrow> recalc_loop buf p' = (line', cls')"
proof (induction P buf p line cls rule: track_while.induct)
  case (1 P buf p line cls)
  then show ?case
    by (cases "p < length buf \<and> P (buf ! p)")
      (auto simp: track_while.simps [of P buf p line cls] line_end_char_def split: if_splits)
qed

lemma search_loop_recalc:
  "recalc_loop buf p = (line, cls) \<Longrightarrow> sf_search_loop cs buf p line cls = Some (i, line', cls')
     \<Longrightarrow> recalc_loop buf i = (line', cls') \<and> pattern_at cs buf i"
proof (induction cs buf p line cls rule: sf_search_loop.induct)
  case (1 cs buf p line cls)
  show ?case
  proof (cases "p + length cs < length buf \<and> \<not> pattern_at cs buf p")
    case True
    with 1 show ?thesis
      by (auto simp: sf_search_loop.simps [of cs buf p line cls] line_end_char_def split: if_splits)
  next
    case False
    with 1 show ?thesis
      by (auto simp: sf_search_loop.simps [of cs buf p line cls] split: if_splits)
  qed
qed

text \<open>
  \<open>SearchClStart\<close> starts at the character of the read position itself, stops at a lone CR and does
  not look at the first character of the file. It finds the start of the line where these do not
  matter.
\<close>

definition crlf_ok :: "string \<Rightarrow> bool" where
  "crlf_ok buf \<longleftrightarrow> (\<forall>i < length buf. buf ! i = CR \<longrightarrow> byte_at buf (Suc i) = LF)"

definition line_pos_ok :: "string \<Rightarrow> nat \<Rightarrow> bool" where
  "line_pos_ok buf p \<longleftrightarrow> p = 0 \<or> (crlf_ok buf \<and> buf ! 0 \<noteq> LF \<and> byte_at buf p \<noteq> LF \<and> byte_at buf p \<noteq> CR)"

lemma cl_loop_recalc:
  assumes "crlf_ok buf" and "buf ! 0 \<noteq> LF"
  shows "p \<le> length buf \<Longrightarrow> byte_at buf p \<noteq> LF \<Longrightarrow> byte_at buf p \<noteq> CR
           \<Longrightarrow> cl_loop buf p = snd (recalc_loop buf p)"
proof (induction p)
  case (Suc p)
  then have p: "p < length buf" by simp
  have cr: "byte_at buf p \<noteq> CR"
    using assms(1) p Suc.prems(2) by (auto simp: crlf_ok_def byte_at_def)
  have step: "cl_loop buf (Suc p) = cl_loop buf p" using Suc.prems by simp
  show ?case
  proof (cases "buf ! p = LF")
    case True
    with assms(2) obtain k where "p = Suc k" by (cases p) auto
    with True p have "cl_loop buf p = Suc p" by (simp add: byte_at_def)
    with True step show ?thesis by (simp split: prod.splits)
  next
    case False
    with Suc.IH cr p have "cl_loop buf p = snd (recalc_loop buf p)" by (simp add: byte_at_def)
    with False step show ?thesis by (simp split: prod.splits)
  qed
qed simp

lemma line_pos_cl:
  "line_pos_ok buf p \<Longrightarrow> p \<le> length buf \<Longrightarrow> cl_loop buf p = snd (recalc_loop buf p)"
  by (auto simp: line_pos_ok_def cl_loop_recalc)

lemma RecalcCurLineCol_tracked:
  assumes "sf_file s = Some f" and "sf_cur s \<le> length (sc_body f)" and "line_pos_ok (sc_body f) (sf_cur s)"
  shows "sf_tracked (RecalcCurLineCol s)"
  using assms
  by (auto simp: sf_tracked_def RecalcCurLineCol_def SearchClStart_def scpos_at_def RecalcLineCol_def
      sf_buf_def Let_def line_pos_cl split: prod.splits)

text \<open>A saved position that agrees with the recalculation.\<close>

definition pos_ok :: "scpos \<Rightarrow> bool" where
  "pos_ok sp \<longleftrightarrow> (case pos_file sp of None \<Rightarrow> False
     | Some f \<Rightarrow> pos_off sp \<le> length (sc_body f) \<and> RecalcLineCol sp = sp)"

lemma tracked_pos_ok: "sf_tracked s \<Longrightarrow> pos_ok (SaveCurPos s)"
  using tracked_recalc [of s] by (auto simp: pos_ok_def sf_tracked_def SaveCurPos_def sf_buf_def)

lemma goto_pos_tracked:
  assumes "pos_ok sp" and "pos_file sp = Some f" and "line_pos_ok (sc_body f) (pos_off sp)"
  shows "sf_tracked (goto_pos sp s)"
proof -
  obtain l ls where r: "recalc_loop (sc_body f) (pos_off sp) = (l, ls)" by fastforce
  from assms(1,2) r have eq: "pos_line sp = l" "pos_col sp = int (pos_off sp) - int ls + 1"
    by (auto simp: pos_ok_def RecalcLineCol_def dest: arg_cong [of _ sp pos_line] arg_cong [of _ sp pos_col])
  from assms(1,2) have "pos_off sp \<le> length (sc_body f)" by (simp add: pos_ok_def)
  with line_pos_cl [OF assms(3)] assms(2) r eq show ?thesis
    by (simp add: sf_tracked_def goto_pos_def SearchClStart_def sf_buf_def)
qed

text \<open>
  The calls of a client: every reading operation, and going to a position of a file or back to a
  saved one. The side conditions name what the tracking needs: no line feed in a symbol that is
  consumed, CR only before LF where \<open>ReadLine\<close> or \<open>SearchClStart\<close> look for line starts.
\<close>

inductive sf_step :: "feeder \<Rightarrow> feeder \<Rightarrow> bool" where
  sf_step_skip: "sf_step s (snd (sf_SkipSpaces b s))"
| sf_step_line: "crlf_ok (sf_buf s) \<Longrightarrow> sf_step s (snd (sf_ReadLine s))"
| sf_step_to: "sf_step s (snd (sf_ReadTo cs s))"
| sf_step_to_char: "sf_step s (snd (sf_ReadToChar c s))"
| sf_step_search: "LF \<notin> set cs \<or> \<not> consume \<Longrightarrow> sf_step s (snd (sf_SearchPattern cs consume s))"
| sf_step_symbol: "LF \<notin> set cs \<or> \<not> consume \<Longrightarrow> sf_step s (snd (sf_CheckSymbol cs consume s))"
| sf_step_keyword: "LF \<notin> set cs \<or> \<not> consume \<Longrightarrow> sf_CheckKeyword cs consume s = Some (r, s') \<Longrightarrow> sf_step s s'"
| sf_step_ident: "sf_step s (snd (sf_ReadIdentifier v consume s))"
| sf_step_int: "sf_ReadInt64Value n s = Some (r, s') \<Longrightarrow> sf_step s s'"
| sf_step_hex: "sf_step s (snd (sf_ReadHex64Value w s))"
| sf_step_dec: "sf_step s (snd (sf_ReadDecimalNumbers s))"
| sf_step_hexnum: "sf_step s (snd (sf_ReadHexNumbers s))"
| sf_step_float: "sf_step s (snd (sf_ReadFloatNum s))"
| sf_step_quoted: "snd (sf_ReadQuotedString v s) = s' \<Longrightarrow> line_pos_ok (sf_buf s) (sf_cur s') \<Longrightarrow> sf_step s s'"
| sf_step_goto: "pos_ok sp \<Longrightarrow> SetCurPos sp s = Some s' \<Longrightarrow> line_pos_ok (sf_buf s') (pos_off sp) \<Longrightarrow> sf_step s s'"
| sf_step_file: "p \<le> length (sc_body f) \<Longrightarrow> line_pos_ok (sc_body f) p
    \<Longrightarrow> sf_step s (SetCurPosFile (Some f) p s)"

lemma recalc_suc:
  "recalc_loop buf p = (l, ls) \<Longrightarrow> buf ! p \<noteq> LF \<Longrightarrow> recalc_loop buf (Suc p) = (l, ls)"
  "recalc_loop buf p = (l, ls) \<Longrightarrow> buf ! p = LF \<Longrightarrow> recalc_loop buf (Suc p) = (l + 1, Suc p)"
  by simp_all

text \<open>Moving forward over characters that are no line feeds.\<close>

lemma tracked_move:
  assumes "sf_tracked s" and "sf_cur s \<le> p" and "p \<le> sf_end s"
    and "\<And>i. sf_cur s \<le> i \<Longrightarrow> i < p \<Longrightarrow> sf_buf s ! i \<noteq> LF"
    and "sf_file s' = sf_file s" "sf_cur s' = p" "sf_line s' = sf_line s" "sf_clstart s' = sf_clstart s"
    and "sf_col s' = int p - int (sf_clstart s) + 1"
  shows "sf_tracked s'"
proof -
  from assms(5) have "sf_buf s' = sf_buf s" by (simp add: sf_buf_def)
  with assms recalc_no_lf [of "sf_cur s" p "sf_buf s"] show ?thesis by (simp add: sf_tracked_def)
qed

lemma tracked_same:
  "sf_tracked s \<Longrightarrow> sf_file s' = sf_file s \<Longrightarrow> sf_cur s' = sf_cur s \<Longrightarrow> sf_line s' = sf_line s
     \<Longrightarrow> sf_clstart s' = sf_clstart s \<Longrightarrow> sf_col s' = sf_col s \<Longrightarrow> sf_tracked s'"
  by (simp add: sf_tracked_def sf_buf_def)

lemma tracked_scan:
  assumes "sf_tracked s" and "\<And>c. P c \<Longrightarrow> c \<noteq> LF" and "sf_cur s \<le> q" and "q \<le> sf_end s"
    and "\<And>i. sf_cur s \<le> i \<Longrightarrow> i < q \<Longrightarrow> sf_buf s ! i \<noteq> LF"
    and "sf_file s' = sf_file s" "sf_cur s' = scan_while P (sf_buf s) q"
    and "sf_line s' = sf_line s" "sf_clstart s' = sf_clstart s"
    and "sf_col s' = int (sf_cur s') - int (sf_clstart s) + 1"
  shows "sf_tracked s'"
proof (rule tracked_move [OF assms(1) _ _ _ assms(6,7,8,9)])
  show "sf_cur s \<le> scan_while P (sf_buf s) q" using scan_while_ge [of q P "sf_buf s"] assms(3) by simp
  show "scan_while P (sf_buf s) q \<le> sf_end s" using scan_while_le [OF assms(4)] .
  show "sf_buf s ! i \<noteq> LF" if "sf_cur s \<le> i" "i < scan_while P (sf_buf s) q" for i
    using scan_while_all [of q i P "sf_buf s"] assms(2,5) that by (cases "i < q") auto
qed (use assms in simp)

lemma tracked_track:
  assumes "sf_tracked s" and "track_while P (sf_buf s) (sf_cur s) (sf_line s) (sf_clstart s) = (p, l, ls)"
    and "sf_file s' = sf_file s" "sf_cur s' = p" "sf_line s' = l" "sf_clstart s' = ls"
    and "sf_col s' = int p - int ls + 1"
  shows "sf_tracked s'"
proof -
  from assms(3) have "sf_buf s' = sf_buf s" by (simp add: sf_buf_def)
  with assms track_while_bounds [OF sf_tracked_inv [OF assms(1)] assms(2)] show ?thesis
    using track_while_recalc [OF _ assms(2)] by (simp add: sf_tracked_def)
qed

lemma tracked_SkipSpaces: "sf_tracked s \<Longrightarrow> sf_tracked (snd (sf_SkipSpaces b s))"
  by (cases "track_while (is_blank b) (sf_buf s) (sf_cur s) (sf_line s) (sf_clstart s)")
    (auto simp: sf_SkipSpaces_def intro: tracked_track)

lemma tracked_ReadTo: "sf_tracked s \<Longrightarrow> sf_tracked (snd (sf_ReadTo cs s))"
  by (cases "track_while (\<lambda>c. c \<notin> set cs) (sf_buf s) (sf_cur s) (sf_line s) (sf_clstart s)")
    (auto simp: sf_ReadTo_def Let_def intro: tracked_track)

lemma tracked_ReadToChar: "sf_tracked s \<Longrightarrow> sf_tracked (snd (sf_ReadToChar c s))"
  by (cases "track_while (\<lambda>x. x \<noteq> c) (sf_buf s) (sf_cur s) (sf_line s) (sf_clstart s)")
    (auto simp: sf_ReadToChar_def Let_def intro: tracked_track)

lemma tracked_run:
  assumes "sf_tracked s" and "\<not> P LF"
  shows "sf_tracked (snd (sf_read_run P s))"
  by (rule tracked_scan [OF assms(1), of P "sf_cur s"])
    (use assms in \<open>auto simp: sf_read_run_def Let_def sf_tracked_def\<close>)

lemma tracked_consume:
  assumes "sf_tracked s" and "sf_cur s \<le> p" and "p \<le> sf_end s"
    and "\<And>i. sf_cur s \<le> i \<Longrightarrow> i < p \<Longrightarrow> sf_buf s ! i \<noteq> LF"
    and "sf_file s' = sf_file s" "sf_line s' = sf_line s" "sf_clstart s' = sf_clstart s"
  shows "sf_tracked (sf_consume p s')"
  by (rule tracked_move [OF assms(1-4)]) (simp_all add: assms(5-7))

lemma scan_while_no_lf:
  "\<not> P LF \<Longrightarrow> p \<le> i \<Longrightarrow> i < scan_while P buf p \<Longrightarrow> buf ! i \<noteq> LF"
  using scan_while_all [of p i P buf] by auto

lemma tracked_ReadIdentifier: "sf_tracked s \<Longrightarrow> sf_tracked (snd (sf_ReadIdentifier v consume s))"
proof -
  assume s: "sf_tracked s"
  let ?P = "\<lambda>c. is_alpha_under c \<or> is_dec c" and ?b = "sf_buf s" and ?c = "sf_cur s"
  let ?p = "if ?c < sf_end s \<and> is_alpha_under (?b ! ?c) then scan_while ?P ?b (Suc ?c) else ?c"
  have nolf: "\<not> ?P LF" by (simp add: is_alpha_under_def is_dec_def less_eq_char_def)
  have "sf_tracked (sf_consume ?p s')"
    if "sf_file s' = sf_file s" "sf_line s' = sf_line s" "sf_clstart s' = sf_clstart s" for s'
  proof (rule tracked_consume [OF s _ _ _ that])
    show "?c \<le> ?p" using scan_while_ge [of "Suc ?c" ?P ?b] by simp
    show "?p \<le> sf_end s" using scan_while_le [of "Suc ?c" ?b ?P] s by (simp add: sf_tracked_def)
    show "?b ! i \<noteq> LF" if "?c \<le> i" "i < ?p" for i
      using scan_while_no_lf [of ?P "Suc ?c" i ?b] that nolf
      by (cases "i = ?c") (auto split: if_splits)
  qed
  moreover have "sf_tracked s'" if "sf_file s' = sf_file s" "sf_line s' = sf_line s"
      "sf_clstart s' = sf_clstart s" "sf_cur s' = sf_cur s" "sf_col s' = sf_col s" for s'
    using tracked_same [OF s] that by blast
  ultimately show "sf_tracked (snd (sf_ReadIdentifier v consume s))"
    by (simp add: sf_ReadIdentifier_def Let_def)
qed

lemma tracked_hex: "sf_tracked s \<Longrightarrow> sf_tracked (snd (sf_ReadHex64Value w s))"
proof -
  assume s: "sf_tracked s"
  obtain p r where h: "hex64_loop (sf_buf s) (sf_cur s) 0 = (p, r)" by fastforce
  then have p: "p = scan_while is_hex (sf_buf s) (sf_cur s)"
    using hex64_loop_scan [of "sf_buf s" "sf_cur s" 0] by simp
  have nolf: "\<not> is_hex LF" by (simp add: is_hex_def is_dec_def less_eq_char_def)
  have "sf_tracked (sf_consume p s')"
    if "sf_file s' = sf_file s" "sf_line s' = sf_line s" "sf_clstart s' = sf_clstart s" for s'
    using that
    by (rule tracked_consume [OF s, of p s', rotated 3])
      (use scan_while_ge [of "sf_cur s" is_hex "sf_buf s"] scan_while_le [of "sf_cur s" "sf_buf s" is_hex]
        scan_while_no_lf [of is_hex "sf_cur s" _ "sf_buf s"] nolf s in \<open>auto simp: p sf_tracked_def\<close>)
  moreover have "sf_tracked s'" if "sf_file s' = sf_file s" "sf_line s' = sf_line s"
      "sf_clstart s' = sf_clstart s" "sf_cur s' = sf_cur s" "sf_col s' = sf_col s" for s'
    using tracked_same [OF s] that by blast
  ultimately show "sf_tracked (snd (sf_ReadHex64Value w s))"
    by (simp add: sf_ReadHex64Value_def h Let_def)
qed

lemma tracked_symbol:
  assumes s: "sf_tracked s" and "LF \<notin> set cs \<or> \<not> consume"
  shows "sf_tracked (snd (sf_CheckSymbol cs consume s))"
proof -
  have saved: "sf_tracked (save_prevpos s)" by (rule tracked_same [OF s]) simp_all
  obtain left p where c: "check_loop cs (sf_buf s) (sf_cur s) = (left, p)" by fastforce
  have cur: "sf_cur s \<le> sf_end s" using s by (simp add: sf_tracked_def)
  have "sf_tracked (sf_consume p (save_prevpos s))" if e: "left = []" and l: "LF \<notin> set cs"
  proof -
    from check_loop_eq [OF cur, of cs] c e obtain rest where
      r: "drop (sf_cur s) (sf_buf s) = cs @ rest" and p: "p = sf_cur s + length cs" "p \<le> sf_end s"
      by auto
    have "sf_buf s ! i \<noteq> LF" if "sf_cur s \<le> i" "i < p" for i
    proof -
      have "sf_buf s ! i = (cs @ rest) ! (i - sf_cur s)"
        using r cur that by (metis le_add_diff_inverse nth_drop)
      also have "\<dots> \<in> set cs"
      proof -
        have "i - sf_cur s < length cs" using that p(1) by arith
        then show ?thesis by (simp add: nth_append)
      qed
      finally show ?thesis using l by auto
    qed
    with p show ?thesis by (intro tracked_consume [OF s]) auto
  qed
  with assms(2) saved c show ?thesis by (auto simp: sf_CheckSymbol_def Let_def)
qed

lemma tracked_search:
  assumes s: "sf_tracked s" and "LF \<notin> set cs \<or> \<not> consume"
  shows "sf_tracked (snd (sf_SearchPattern cs consume s))"
proof (cases "sf_search_loop cs (sf_buf s) (sf_cur s) (sf_line s) (sf_clstart s)")
  case None
  with s show ?thesis by (simp add: sf_SearchPattern_def)
next
  case (Some r)
  obtain i l ls where r: "r = (i, l, ls)" by (cases r)
  note found = Some [unfolded r]
  have rc: "recalc_loop (sf_buf s) i = (l, ls)" and pat: "pattern_at cs (sf_buf s) i"
    using search_loop_recalc [OF _ found] s by (auto simp: sf_tracked_def)
  have range: "i + length cs < sf_end s" using sf_search_loop_range [OF found] by simp
  have "recalc_loop (sf_buf s) (i + length cs) = (l, ls)" if l: "LF \<notin> set cs"
  proof -
    have "take (length cs) (drop i (sf_buf s)) = cs" using pattern_at_eq [of i cs "sf_buf s"] range pat by simp
    then have "sf_buf s ! j \<in> set cs" if "i \<le> j" "j < i + length cs" for j
      using that range nth_take [of "j - i" "length cs" "drop i (sf_buf s)"] nth_mem [of "j - i" cs] by auto
    with l recalc_no_lf [of i "i + length cs" "sf_buf s"] rc show ?thesis by fastforce
  qed
  with rc range assms s show ?thesis
    by (auto simp: sf_SearchPattern_def found Let_def sf_tracked_def RecalcCurCol_def)
qed

lemma tracked_ReadLine:
  assumes s: "sf_tracked s" and crlf: "crlf_ok (sf_buf s)"
  shows "sf_tracked (snd (sf_ReadLine s))"
proof -
  let ?P = "\<lambda>c. c \<noteq> CR \<and> c \<noteq> LF" and ?b = "sf_buf s"
  let ?p = "scan_while ?P ?b (sf_cur s)"
  have p: "sf_cur s \<le> ?p" "?p \<le> sf_end s"
    using sf_scan_bounds [OF sf_tracked_inv [OF s] order_refl, of ?P] s by (auto simp: sf_tracked_def)
  have rc: "recalc_loop ?b ?p = (sf_line s, sf_clstart s)"
    using recalc_no_lf [of "sf_cur s" ?p ?b] p(1) scan_while_all [of "sf_cur s" _ ?P ?b] s
    by (auto simp: sf_tracked_def)
  show ?thesis
  proof (cases "?p < sf_end s \<and> ?b ! ?p = CR")
    case True
    then have "Suc ?p < sf_end s \<and> ?b ! Suc ?p = LF"
      using crlf by (auto simp: crlf_ok_def byte_at_def split: if_splits)
    with True rc s show ?thesis by (auto simp: sf_ReadLine_eq Let_def sf_tracked_def)
  next
    case False
    with rc s p show ?thesis by (auto simp: sf_ReadLine_eq Let_def sf_tracked_def)
  qed
qed

lemma int64_loop_range:
  assumes "int64_loop buf start p r m ok = Some (p', r', m', ok')" and "p \<le> length buf"
  shows "p \<le> p' \<and> p' \<le> length buf \<and> (\<forall>i. p \<le> i \<and> i < p' \<longrightarrow> buf ! i \<noteq> LF)"
  using assms
proof (induction buf start p r m ok rule: int64_loop.induct)
  case (1 buf start p r m ok)
  consider (dig) "p < length buf" "CHR ''0'' \<le> buf ! p" "buf ! p \<le> CHR ''9''"
    | (sgn) "p < length buf" "p = start" "buf ! p = CHR ''-'' \<or> buf ! p = CHR ''+''"
    | (stop) "\<not> (p < length buf \<and> CHR ''0'' \<le> buf ! p \<and> buf ! p \<le> CHR ''9'')"
        "\<not> (p < length buf \<and> p = start \<and> (buf ! p = CHR ''-'' \<or> buf ! p = CHR ''+''))" by blast
  then show ?case
  proof cases
    case dig
    have nl: "buf ! p \<noteq> LF" using dig by (auto simp: less_eq_char_def)
    from dig 1 have "Suc p \<le> p' \<and> p' \<le> length buf \<and> (\<forall>i. Suc p \<le> i \<and> i < p' \<longrightarrow> buf ! i \<noteq> LF)"
      by (auto simp: int64_loop.simps [of buf start p r m ok] Let_def split: option.splits)
    with nl show ?thesis by (metis Suc_leD le_eq_less_or_eq Suc_leI)
  next
    case sgn
    have nl: "buf ! p \<noteq> LF" using sgn(3) by auto
    from sgn 1 have "Suc p \<le> p' \<and> p' \<le> length buf \<and> (\<forall>i. Suc p \<le> i \<and> i < p' \<longrightarrow> buf ! i \<noteq> LF)"
      by (auto simp: int64_loop.simps [of buf start start r m ok] Let_def less_eq_char_def split: option.splits)
    with nl show ?thesis by (metis Suc_leD le_eq_less_or_eq Suc_leI)
  next
    case stop
    with 1 show ?thesis by (auto simp: int64_loop.simps [of buf start p r m ok] Let_def split: if_splits)
  qed
qed

lemma tracked_int:
  assumes s: "sf_tracked s" and "sf_ReadInt64Value n s = Some (r, s')"
  shows "sf_tracked s'"
proof -
  have cur: "sf_cur s \<le> sf_end s" using s by (simp add: sf_tracked_def)
  from assms(2) obtain p v m ok where l: "int64_loop (sf_buf s) (sf_cur s) (sf_cur s) 0 1 False = Some (p, v, m, ok)"
    and s': "s' = (let s1 = s\<lparr>sf_prevpos := SaveCurPos s, sf_prev := sf_cur s\<rparr>
      in if ok then sf_consume p (s1\<lparr>sf_prevlen := p - sf_cur s\<rparr>) else s1)"
    by (auto simp: sf_ReadInt64Value_def Let_def split: Option.bind_splits if_splits)
  from int64_loop_range [OF l cur] have "sf_tracked (sf_consume p s1)"
    if "sf_file s1 = sf_file s" "sf_line s1 = sf_line s" "sf_clstart s1 = sf_clstart s" for s1
    using that by (intro tracked_consume [OF s]) auto
  moreover have "sf_tracked s1" if "sf_file s1 = sf_file s" "sf_line s1 = sf_line s"
      "sf_clstart s1 = sf_clstart s" "sf_cur s1 = sf_cur s" "sf_col s1 = sf_col s" for s1
    using tracked_same [OF s] that by blast
  ultimately show ?thesis by (simp add: s' Let_def)
qed

lemma tracked_quoted:
  assumes s: "sf_tracked s" and "line_pos_ok (sf_buf s) (sf_cur (snd (sf_ReadQuotedString v s)))"
  shows "sf_tracked (snd (sf_ReadQuotedString v s))"
proof -
  from s obtain f where f: "sf_file s = Some f" by (auto simp: sf_tracked_def)
  then have b: "sf_buf s = sc_body f" by (simp add: sf_buf_def)
  let ?s1 = "s\<lparr>sf_prevpos := SaveCurPos s, sf_prev := sf_cur s\<rparr>"
  let ?q = "sf_buf s ! sf_cur s"
  let ?t = "sf_cur s + 2 < sf_end s \<and> sf_buf s ! (sf_cur s + 1) = ?q \<and> sf_buf s ! (sf_cur s + 2) = ?q"
  let ?quote = "\<not> (sf_cur s \<ge> sf_end s \<or> (?q \<noteq> DQUOTE \<and> ?q \<noteq> SQUOTE))"
  have same: "sf_tracked ?s1" by (rule tracked_same [OF s]) simp_all
  show ?thesis
  proof (cases "?quote")
    case False
    then have "snd (sf_ReadQuotedString v s) = ?s1" by (auto simp: sf_ReadQuotedString_def Let_def)
    with same show ?thesis by simp
  next
    case True
    show ?thesis
    proof (cases "quote_scan (sf_buf s) ?q ?t (sf_cur s + (if ?t then 3 else 1))")
      case None
      then have eq: "snd (sf_ReadQuotedString v s) = (goto_pos (SaveCurPos s) ?s1)\<lparr>sf_prevpos := SaveCurPos s\<rparr>"
        using True by (cases "?q = DQUOTE") (simp_all add: sf_ReadQuotedString_def Let_def)
      with assms(2) have "sf_tracked (goto_pos (SaveCurPos s) ?s1)"
        using tracked_pos_ok [OF s] by (intro goto_pos_tracked [of _ f]) (simp_all add: SaveCurPos_def f b)
      with eq show ?thesis by (auto intro: tracked_same)
    next
      case (Some r)
      obtain e p where r: "r = (e, p)" by (cases r)
      have eq: "snd (sf_ReadQuotedString v s) = (RecalcCurLineCol (?s1\<lparr>sf_cur := p\<rparr>))
          \<lparr>sf_lastline := sf_line (RecalcCurLineCol (?s1\<lparr>sf_cur := p\<rparr>))\<rparr>"
        using True Some r by (cases "?q = DQUOTE") (simp_all add: sf_ReadQuotedString_def Let_def)
      with assms(2) quote_scan_range [OF Some [unfolded r]] have "sf_tracked (RecalcCurLineCol (?s1\<lparr>sf_cur := p\<rparr>))"
        by (intro RecalcCurLineCol_tracked [of _ f]) (simp_all add: f b)
      with eq show ?thesis by (auto intro: tracked_same)
    qed
  qed
qed

lemma tracked_file:
  "p \<le> length (sc_body f) \<Longrightarrow> line_pos_ok (sc_body f) p \<Longrightarrow> sf_tracked (SetCurPosFile (Some f) p s)"
  unfolding SetCurPosFile_def option.case
  by (rule tracked_same [OF RecalcCurLineCol_tracked [of _ f]]) simp_all

lemma sf_step_tracked:
  assumes "sf_step s s'" and "sf_tracked s"
  shows "sf_tracked s'"
  using assms
proof (induction rule: sf_step.induct)
  case (sf_step_keyword cs consume s r s')
  then have "s' = s \<or> s' = snd (sf_CheckSymbol cs consume s)"
    by (auto simp: sf_CheckKeyword_def Let_def split: if_splits)
  with sf_step_keyword show ?case using tracked_symbol by auto
next
  case (sf_step_goto sp s s')
  then obtain f where "pos_file sp = Some f" "s' = goto_pos sp s" by (auto simp: SetCurPos_def split: if_splits)
  moreover then have "sf_buf s' = sc_body f" by (simp add: goto_pos_def sf_buf_def SearchClStart_def split: option.splits)
  ultimately show ?case using sf_step_goto goto_pos_tracked by simp
qed (auto simp: sf_ReadDecimalNumbers_def sf_ReadHexNumbers_def sf_ReadFloatNum_def is_dec_def is_hex_def
    less_eq_char_def
    intro: tracked_SkipSpaces tracked_ReadLine tracked_ReadTo tracked_ReadToChar tracked_search tracked_symbol
      tracked_ReadIdentifier tracked_int tracked_hex tracked_run tracked_quoted tracked_file)

text \<open>Line and column of a position by counting: line feeds before it, characters since the last.\<close>

definition line_of :: "string \<Rightarrow> nat \<Rightarrow> int" where
  "line_of buf p = 1 + int (count_list (take p buf) LF)"

definition col_of :: "string \<Rightarrow> nat \<Rightarrow> int" where
  "col_of buf p = 1 + int (run_length (\<lambda>c. c \<noteq> LF) (rev (take p buf)))"

lemma recalc_counts:
  "p \<le> length buf \<Longrightarrow> recalc_loop buf p = (l, ls) \<Longrightarrow>
     l = line_of buf p \<and> ls \<le> p \<and> int p - int ls + 1 = col_of buf p"
proof (induction p arbitrary: l ls)
  case 0
  then show ?case by (simp add: line_of_def col_of_def)
next
  case (Suc p)
  obtain l' ls' where r: "recalc_loop buf p = (l', ls')" by fastforce
  with Suc have IH: "l' = line_of buf p \<and> ls' \<le> p \<and> int p - int ls' + 1 = col_of buf p" by simp
  have t: "take (Suc p) buf = take p buf @ [buf ! p]" using Suc.prems(1) by (simp add: take_Suc_conv_app_nth)
  from IH Suc.prems(2) r show ?case by (auto simp: line_of_def col_of_def t split: if_splits)
qed

lemma sf_steps_tracked: "sf_step\<^sup>*\<^sup>* s s' \<Longrightarrow> sf_tracked s \<Longrightarrow> sf_tracked s'"
  by (induction rule: rtranclp_induct) (auto intro: sf_step_tracked)

lemma tracked_line_col:
  assumes "sf_tracked s"
  shows "sf_line s = line_of (sf_buf s) (sf_cur s) \<and> sf_col s = col_of (sf_buf s) (sf_cur s)"
  using recalc_counts [of "sf_cur s" "sf_buf s" "sf_line s" "sf_clstart s"] assms by (auto simp: sf_tracked_def)


definition scf_sample :: feeder where
  "scf_sample = SetCurPosFile (Some \<lparr>sc_index = 0, sc_name = ''a.dq'', sc_fullpath = [], sc_time = 0, sc_body = [CHR '' '', LF, CHR '' '', CHR ''x'']\<rparr>) 0
     \<lparr>sf_file = None, sf_cur = 0, sf_prev = 0, sf_prevlen = 0, sf_line = 0, sf_col = 0, sf_clstart = 0,
      sf_prevpos = new_scpos, sf_lastline = 0\<rparr>"


end
