(* ===== verification/Scf_Strings.thy ===== *)
theory Scf_Strings
  imports Scf_Track Str_Parse_Props
begin

text \<open>
  What the reading operations of the source feeder return: string literals (against the reader
  of the light parser, and with the indentation of triple-quoted ones taken off), integers,
  keywords and pattern search.
\<close>

section \<open>Ordinary literals\<close>

lemma unescape_plain: "c \<noteq> BACKSLASH \<Longrightarrow> unescape (c # r) = c # unescape r"
  by (cases r) simp_all

lemma unescape_id: "BACKSLASH \<notin> set r \<Longrightarrow> unescape r = r"
proof (induction r)
  case (Cons c r)
  then show ?case by (auto simp: unescape_plain)
qed simp

lemma take_drop_step:
  "p < e \<Longrightarrow> e \<le> length buf \<Longrightarrow> take (e - p) (drop p buf) = buf ! p # take (e - Suc p) (drop (Suc p) buf)"
  by (metis Cons_nth_drop_Suc Suc_diff_Suc order_less_le_trans take_Suc_Cons)

text \<open>One pass of the light parser's loop, for an escape and for a plain character.\<close>

lemma quoted_loop_step:
  "p < length buf \<Longrightarrow> sp_quoted_step q buf p v = Inr (p', v') \<Longrightarrow> sp_quoted_loop q buf p v = sp_quoted_loop q buf p' v'"
  by (subst sp_quoted_loop.simps) simp

lemma quote_scan_plain:
  "p < length buf \<Longrightarrow> buf ! p \<noteq> BACKSLASH \<Longrightarrow> buf ! p \<noteq> LF \<Longrightarrow> buf ! p \<noteq> CR \<Longrightarrow> buf ! p \<noteq> q
     \<Longrightarrow> quote_scan buf q t p = quote_scan buf q t (Suc p)"
  by (subst quote_scan.simps) simp

lemma hex_not_special:
  assumes "0 \<le> HexDigitValue c" and "q = DQUOTE \<or> q = SQUOTE"
  shows "c \<noteq> BACKSLASH \<and> c \<noteq> LF \<and> c \<noteq> CR \<and> c \<noteq> q"
  using assms by (auto simp: HexDigitValue_def less_eq_char_def split: if_splits)

text \<open>What an escape without hexadecimal digits stands for.\<close>

definition esc_out :: "char \<Rightarrow> string" where
  "esc_out c = (if c = CHR ''n'' then [LF] else if c = CHR ''r'' then [CR] else if c = CHR ''t'' then [TAB]
     else if c = BACKSLASH \<or> c = DQUOTE \<or> c = SQUOTE then [c] else [BACKSLASH, c])"

lemma unescape_esc:
  assumes "\<And>h l r'. c = CHR ''x'' \<Longrightarrow> r = h # l # r' \<Longrightarrow> \<not> (0 \<le> HexDigitValue h \<and> 0 \<le> HexDigitValue l)"
  shows "unescape (BACKSLASH # c # r) = esc_out c @ unescape r"
proof (cases "c = CHR ''x''")
  case True
  have eq: "unescape (BACKSLASH # CHR ''x'' # r) =
      (case r of h # l # r' \<Rightarrow>
         if HexDigitValue h \<ge> 0 \<and> HexDigitValue l \<ge> 0
         then char_of (nat (push_bit 4 (HexDigitValue h) OR HexDigitValue l)) # unescape r'
         else BACKSLASH # CHR ''x'' # unescape r
       | _ \<Rightarrow> BACKSLASH # CHR ''x'' # unescape r)"
    by simp
  show ?thesis using assms True by (auto simp: eq esc_out_def simp del: unescape.simps split: list.split)
next
  case False
  then show ?thesis by (simp add: esc_out_def)
qed

lemma quoted_step_esc:
  assumes "buf ! p = BACKSLASH" and "Suc p < length buf" and "q \<noteq> BACKSLASH" and "c = buf ! Suc p"
    and "\<not> (c = CHR ''x'' \<and> p + 3 < length buf \<and> 0 \<le> HexDigitValue (buf ! (p + 2)) \<and> 0 \<le> HexDigitValue (buf ! (p + 3)))"
  shows "sp_quoted_step q buf p v = Inr (p + 2, v @ esc_out c)"
proof -
  have p1: "buf ! Suc p = c" "\<not> length buf \<le> Suc p" using assms by auto
  show ?thesis
  proof (cases "c = CHR ''x''")
    case True
    with assms(5) have "\<not> (Suc (Suc (Suc p)) < length buf \<and> 0 \<le> HexDigitValue (buf ! Suc (Suc p))
        \<and> 0 \<le> HexDigitValue (buf ! Suc (Suc (Suc p))))" by (simp add: numeral_eq_Suc)
    with True p1 assms(1,3) show ?thesis
      by (auto simp: sp_quoted_step_def esc_out_def Let_def)
  next
    case False
    with p1 assms(1,3) show ?thesis by (simp add: sp_quoted_step_def esc_out_def Let_def)
  qed
qed

lemma quote_scan_light:
  assumes q: "q = DQUOTE \<or> q = SQUOTE"
  shows "quote_scan buf q False p = Some (e, p') \<Longrightarrow>
    sp_quoted_loop q buf p v = Some (v @ unescape (take (e - p) (drop p buf)), p')"
proof (induction "length buf - p" arbitrary: p v rule: less_induct)
  case less
  let ?raw = "\<lambda>p. take (e - p) (drop p buf)"
  from less.prems have p: "p < length buf" by (simp add: quote_scan.simps [of buf q False p] split: if_splits)
  have qb: "q \<noteq> BACKSLASH" "q \<noteq> LF" "q \<noteq> CR" using q by auto
  note range = quote_scan_range [OF less.prems]
  consider (stop) "buf ! p = q" | (esc) "buf ! p = BACKSLASH"
    | (plain) "buf ! p \<noteq> q" "buf ! p \<noteq> BACKSLASH" "buf ! p \<noteq> LF" "buf ! p \<noteq> CR"
    using less.prems p qb by (auto simp: quote_scan.simps [of buf q False p] split: if_splits)
  then show ?case
  proof cases
    case stop
    with less.prems p qb have "e = p" "p' = Suc p"
      by (auto simp: quote_scan.simps [of buf q False p] split: if_splits)
    with stop p show ?thesis by (subst sp_quoted_loop.simps) (simp add: sp_quoted_step_def Let_def)
  next
    case plain
    then have scan: "quote_scan buf q False (Suc p) = Some (e, p')"
      using less.prems p quote_scan_plain [of p buf q False] by simp
    from quote_scan_range [OF scan] have "?raw p = buf ! p # ?raw (Suc p)" by (intro take_drop_step) auto
    moreover have "sp_quoted_loop q buf p v = sp_quoted_loop q buf (Suc p) (v @ [buf ! p])"
      using plain p by (intro quoted_loop_step) (simp_all add: sp_quoted_step_def Let_def)
    moreover have "sp_quoted_loop q buf (Suc p) (v @ [buf ! p]) = Some ((v @ [buf ! p]) @ unescape (?raw (Suc p)), p')"
      using less.hyps [OF _ scan] p by simp
    ultimately show ?thesis using plain by (simp add: unescape_plain)
  next
    case esc
    let ?c = "buf ! Suc p"
    from esc less.prems p have p1: "Suc p < length buf" and nl: "?c \<noteq> LF" "?c \<noteq> CR"
      and scan: "quote_scan buf q False (p + 2) = Some (e, p')"
      by (auto simp: quote_scan.simps [of buf q False p] split: if_splits)
    from quote_scan_range [OF scan] have e: "p + 2 \<le> e" "e \<le> length buf" by auto
    have raw: "?raw p = BACKSLASH # ?c # ?raw (p + 2)"
      using take_drop_step [of p e buf] take_drop_step [of "Suc p" e buf] e esc by simp
    show ?thesis
    proof (cases "?c = CHR ''x'' \<and> p + 3 < length buf \<and> 0 \<le> HexDigitValue (buf ! (p + 2))
        \<and> 0 \<le> HexDigitValue (buf ! (p + 3))")
      case True
      note h = hex_not_special [of "buf ! (p + 2)", OF _ q] hex_not_special [of "buf ! (p + 3)", OF _ q]
      have s3: "quote_scan buf q False (p + 3) = Some (e, p')"
        using scan True h quote_scan_plain [of "p + 2" buf q False] by (simp add: numeral_3_eq_3)
      have s4: "quote_scan buf q False (p + 4) = Some (e, p')"
        using s3 True h quote_scan_plain [of "p + 3" buf q False] by (simp add: numeral_eq_Suc)
      from quote_scan_range [OF s4] have e4: "p + 4 \<le> e" "e \<le> length buf" by auto
      have raw2: "?raw (p + 2) = buf ! (p + 2) # buf ! (p + 3) # ?raw (p + 4)"
        using take_drop_step [of "p + 2" e buf] take_drop_step [of "p + 3" e buf] e4
        by (simp add: numeral_eq_Suc)
      let ?h = "hex_char (HexDigitValue (buf ! (p + 2))) (HexDigitValue (buf ! (p + 3)))"
      have "sp_quoted_loop q buf p v = sp_quoted_loop q buf (p + 4) (v @ [?h])"
        using True esc p qb
        by (intro quoted_loop_step) (simp_all add: sp_quoted_step_def Let_def numeral_eq_Suc)
      also have "\<dots> = Some ((v @ [?h]) @ unescape (?raw (p + 4)), p')"
        using p by (intro less.hyps s4) simp
      moreover have "unescape (?raw p) = ?h # unescape (?raw (p + 4))"
        unfolding raw raw2 using True by (simp add: hex_char_def)
      ultimately show ?thesis by simp
    next
      case False
      have out: "unescape (?raw p) = esc_out ?c @ unescape (?raw (p + 2))"
        unfolding raw
      proof (rule unescape_esc)
        fix h l r
        assume "?c = CHR ''x''" and r: "?raw (p + 2) = h # l # r"
        have "length (?raw (p + 2)) = length (h # l # r)" by (simp only: r)
        with e have "p + 4 \<le> e" by simp
        with r have hl: "h = buf ! (p + 2)" "l = buf ! (p + 3)"
          using take_drop_step [of "p + 2" e buf] take_drop_step [of "p + 3" e buf] e
          by (simp_all add: numeral_eq_Suc)
        with False \<open>?c = CHR ''x''\<close> \<open>p + 4 \<le> e\<close> e show "\<not> (0 \<le> HexDigitValue h \<and> 0 \<le> HexDigitValue l)" by auto
      qed
      have "sp_quoted_step q buf p v = Inr (p + 2, v @ esc_out ?c)"
        using False esc p1 qb by (intro quoted_step_esc) (auto simp: numeral_eq_Suc)
      then have "sp_quoted_loop q buf p v = sp_quoted_loop q buf (p + 2) (v @ esc_out ?c)"
        by (rule quoted_loop_step [OF p])
      also have "\<dots> = Some ((v @ esc_out ?c) @ unescape (?raw (p + 2)), p')"
        using p by (intro less.hyps scan) simp
      finally show ?thesis using out by simp
    qed
  qed
qed

section \<open>Triple-quoted literals\<close>

text \<open>Lines joined by line feeds.\<close>

fun lf_join :: "string list \<Rightarrow> string" where
  "lf_join [] = []"
| "lf_join [l] = l"
| "lf_join (l # m # ls) = l @ LF # lf_join (m # ls)"

lemma lf_join_Cons: "ls \<noteq> [] \<Longrightarrow> lf_join (l # ls) = l @ LF # lf_join ls"
  by (cases ls) simp_all

lemma lf_join_lines: "ls \<noteq> [] \<Longrightarrow> concat (map (\<lambda>l. l @ [LF]) ls) = lf_join ls @ [LF]"
  by (induction ls rule: lf_join.induct) simp_all

lemma lf_join_set: "set (lf_join ls) \<subseteq> insert LF (\<Union>l \<in> set ls. set l)"
  by (induction ls rule: lf_join.induct) auto

definition blanks :: "string \<Rightarrow> bool" where
  "blanks ind \<longleftrightarrow> list_all (\<lambda>c. c = CHR '' '' \<or> c = TAB) ind"

definition plain_line :: "char \<Rightarrow> string \<Rightarrow> bool" where
  "plain_line q l \<longleftrightarrow> LF \<notin> set l \<and> CR \<notin> set l \<and> BACKSLASH \<notin> set l \<and> q \<notin> set l"

lemma takeWhile_line:
  "LF \<notin> set l \<Longrightarrow> CR \<notin> set l \<Longrightarrow> takeWhile (\<lambda>c. c \<noteq> CR \<and> c \<noteq> LF) (l @ LF # r) = l"
  "LF \<notin> set l \<Longrightarrow> CR \<notin> set l \<Longrightarrow> takeWhile (\<lambda>c. c \<noteq> CR \<and> c \<noteq> LF) l = l"
  by (induction l) auto

lemma blanks_set: "blanks ind \<Longrightarrow> c \<in> set ind \<Longrightarrow> c = CHR '' '' \<or> c = TAB"
  by (auto simp: blanks_def list_all_iff)

lemma blanks_not: "blanks ind \<Longrightarrow> LF \<notin> set ind \<and> CR \<notin> set ind \<and> BACKSLASH \<notin> set ind \<and> DQUOTE \<notin> set ind \<and> SQUOTE \<notin> set ind"
  using blanks_set by fastforce

lemma dedent_step:
  assumes "ind \<noteq> []" and "blanks ind" and "plain_line q l"
  shows "dedent_loop ind (ind @ l @ LF # r) acc = dedent_loop ind r (acc @ l @ [LF])"
proof -
  have "takeWhile (\<lambda>c. c \<noteq> CR \<and> c \<noteq> LF) (ind @ l @ LF # r) = ind @ l"
    using takeWhile_line(1) [of "ind @ l"] blanks_not [OF assms(2)] assms(3) by (simp add: plain_line_def)
  with assms(1) show ?thesis by (simp add: dedent_loop.simps [of ind "ind @ l @ LF # r"] Let_def)
qed

lemma dedent_lines:
  assumes "ind \<noteq> []" and "blanks ind"
  shows "\<forall>l \<in> set ls. plain_line q l \<Longrightarrow>
    dedent_loop ind (lf_join (map (\<lambda>l. ind @ l) ls)) acc = acc @ lf_join ls"
proof (induction ls arbitrary: acc rule: lf_join.induct)
  case 1
  then show ?case by (simp add: dedent_loop.simps [of ind "[]"])
next
  case (2 l)
  then have t1: "takeWhile (\<lambda>c. c \<noteq> CR \<and> c \<noteq> LF) (ind @ l) = ind @ l"
    using takeWhile_line(2) [of "ind @ l"] blanks_not [OF assms(2)] by (simp add: plain_line_def)
  with assms(1) show ?case by (simp add: dedent_loop.simps [of ind "ind @ l"] t1 Let_def)
next
  case (3 l m ls)
  then show ?case using dedent_step [OF assms, of q l "lf_join (map (\<lambda>l. ind @ l) (m # ls))" acc] by simp
qed

lemma quote_scan_triple:
  assumes "q = DQUOTE \<or> q = SQUOTE"
  shows "drop p buf = content @ q # q # q # post \<Longrightarrow> \<forall>c \<in> set content. c \<noteq> q \<and> c \<noteq> BACKSLASH \<Longrightarrow>
    quote_scan buf q True p = Some (p + length content, p + length content + 3)"
proof (induction content arbitrary: p)
  case Nil
  have len: "length buf - p = 3 + length post" using arg_cong [OF Nil(1), of length] by simp
  then have "p \<le> length buf" by simp
  with Nil(1) len have "p + 2 < length buf" "buf ! p = q" "buf ! (p + 1) = q" "buf ! (p + 2) = q"
    using nth_drop [of p buf 0] nth_drop [of p buf 1] nth_drop [of p buf 2] by simp_all
  with assms show ?case by (subst quote_scan.simps) auto
next
  case (Cons c content)
  then have p: "p < length buf" "buf ! p = c" "drop (Suc p) buf = content @ q # q # q # post"
    using drop_ConsD [of p buf c] by simp_all
  with Cons(3) have "quote_scan buf q True p = quote_scan buf q True (Suc p)"
    by (simp add: quote_scan.simps [of buf q True p])
  with Cons p(3) show ?case by simp
qed

lemma line_back_at:
  "LF \<notin> set l \<Longrightarrow> CR \<notin> set l \<Longrightarrow> line_back (pre @ LF # l @ post) (length pre + 1 + length l) = length pre + 1"
proof (induction l arbitrary: post rule: rev_induct)
  case (snoc c l)
  then show ?case using snoc(1) [of "c # post"] by (auto simp: nth_append)
qed (simp add: nth_append)

lemma triple_value_lines:
  assumes b: "blanks ind" and ls: "\<forall>l \<in> set ls. plain_line q l"
    and raw: "raw = LF # concat (map (\<lambda>l. ind @ l @ [LF]) ls) @ ind"
    and body: "body = pre @ raw @ post" and e: "content_end = length pre + length raw"
  shows "triple_value body content_end raw = lf_join ls"
proof -
  note nb = blanks_not [OF b]
  obtain Y where Y: "LF # concat (map (\<lambda>l. ind @ l @ [LF]) ls) = Y @ [LF]" and ycr: "CR \<notin> set Y"
    and first: "drop_first_newline Y = lf_join (map (\<lambda>l. ind @ l) ls)"
  proof (cases "ls = []")
    case True
    show ?thesis by (rule that [of "[]"]) (simp_all add: True drop_first_newline_def)
  next
    case False
    have cr: "CR \<notin> set (lf_join (map (\<lambda>l. ind @ l) ls))"
      using subsetD [OF lf_join_set [of "map (\<lambda>l. ind @ l) ls"], of CR] nb ls False
      by (auto simp: plain_line_def)
    show ?thesis
      using lf_join_lines [of "map (\<lambda>l. ind @ l) ls"] False cr
      by (intro that [of "LF # lf_join (map (\<lambda>l. ind @ l) ls)"]) (simp_all add: o_def drop_first_newline_def)
  qed
  have raw': "raw = Y @ LF # ind" using raw Y by (metis append.assoc append_Cons append_Nil)
  have body': "body = (pre @ Y) @ LF # ind @ post" by (simp add: body raw')
  have e': "content_end = length (pre @ Y) + 1 + length ind" by (simp add: e raw')
  have lb: "line_back body content_end = length (pre @ Y) + 1"
    unfolding body' e' using line_back_at nb by blast
  have "take (content_end - (length (pre @ Y) + 1)) (drop (length (pre @ Y) + 1) body) = ind"
    by (simp add: body' e')
  with b lb have ci: "closing_indent body content_end = Some ind"
    by (simp add: closing_indent_def blanks_def Let_def)
  have "drop_last_newline raw (length raw - length ind) = Y"
  proof -
    have n: "length raw - length ind = Suc (length Y)" by (simp add: raw')
    have at: "raw ! length Y = LF" by (simp add: raw')
    have "raw ! (length Y - 1) \<noteq> CR" if "length Y > 0"
    proof -
      have "raw ! (length Y - 1) = Y ! (length Y - 1)" using that by (simp add: raw' nth_append)
      also have "\<dots> \<in> set Y" using that by (intro nth_mem) simp
      finally show ?thesis using ycr by auto
    qed
    with at show ?thesis unfolding n by (cases "Y = []") (simp_all add: drop_last_newline_def raw')
  qed
  with first have "triple_value body content_end raw
      = (if ind \<noteq> [] then dedent_loop ind (lf_join (map (\<lambda>l. ind @ l) ls)) [] else lf_join (map (\<lambda>l. ind @ l) ls))"
    by (simp add: triple_value_def ci Let_def)
  then show ?thesis using dedent_lines [OF _ b ls, of "[]"] by (cases "ind = []") (simp_all add: map_idI)
qed

lemma sf_ReadQuotedString_found:
  assumes "sf_cur s < sf_end s" and "q = sf_buf s ! sf_cur s" and "q = DQUOTE \<or> q = SQUOTE"
    and "t \<longleftrightarrow> sf_cur s + 2 < sf_end s \<and> sf_buf s ! (sf_cur s + 1) = q \<and> sf_buf s ! (sf_cur s + 2) = q"
    and "start = sf_cur s + (if t then 3 else 1)"
    and "quote_scan (sf_buf s) q t start = Some (e, p)"
    and "raw = take (e - start) (drop start (sf_buf s))"
  shows "\<exists>s'. sf_ReadQuotedString v s = ((True, unescape (if t then triple_value (sf_buf s) e raw else raw)), s')
    \<and> sf_cur s' = p \<and> sf_buf s' = sf_buf s"
proof -
  have "\<not> (sf_cur s \<ge> sf_end s \<or> (q \<noteq> DQUOTE \<and> q \<noteq> SQUOTE))" using assms(1,3) by auto
  then show ?thesis
    using assms(6) unfolding sf_ReadQuotedString_def Let_def assms(2) [symmetric] assms(4) [symmetric]
      assms(5) [symmetric] assms(7) by simp
qed



text \<open>C29: An ordinary (not triple-quoted) literal that the source feeder accepts is read by the light
  parser as well, with the same value and the same end. The converse fails only for a backslash
  before a line end, which the feeder rejects.\<close>

theorem scf_literal_light_parser:
  assumes "sf_ReadQuotedString v s = ((True, w), s')" and "sf_cur s < sf_end s"
    and "\<not> (sf_cur s + 2 < sf_end s \<and> sf_buf s ! (sf_cur s + 1) = sf_buf s ! sf_cur s
            \<and> sf_buf s ! (sf_cur s + 2) = sf_buf s ! sf_cur s)"
    and "sp_buf sp = sf_buf s" and "sp_read sp = sf_cur s"
  shows "\<exists>sp'. sp_ReadQuotedString sp = ((True, w), sp') \<and> sp_read sp' = sf_cur s'"
proof -
  let ?q = "sf_buf s ! sf_cur s" and ?c = "Suc (sf_cur s)"
  have t: "(sf_cur s + 2 < sf_end s \<and> sf_buf s ! (sf_cur s + 1) = ?q \<and> sf_buf s ! (sf_cur s + 2) = ?q) = False"
    using assms(3) by blast
  have q: "?q = DQUOTE \<or> ?q = SQUOTE"
    using assms(1,2) by (auto simp: sf_ReadQuotedString_def Let_def split: if_splits)
  have "quote_scan (sf_buf s) ?q False ?c \<noteq> None"
  proof
    assume "quote_scan (sf_buf s) ?q False ?c = None"
    with assms(1) show False unfolding sf_ReadQuotedString_def Let_def t by (simp split: if_splits)
  qed
  then obtain e p where scan: "quote_scan (sf_buf s) ?q False ?c = Some (e, p)" by auto
  have start: "?c = sf_cur s + (if False then 3 else 1)" by simp
  from sf_ReadQuotedString_found [OF assms(2) refl q t [symmetric] start scan refl, of v] assms(1)
  have w: "w = unescape (take (e - ?c) (drop ?c (sf_buf s)))" "sf_cur s' = p" by auto
  from quote_scan_light [OF q scan, of "[]"] w(1)
  have loop: "sp_quoted_loop ?q (sf_buf s) ?c [] = Some (w, p)" by simp
  have "\<not> (sp_read sp \<ge> sp_end sp \<or> (?q \<noteq> DQUOTE \<and> ?q \<noteq> SQUOTE))" using q assms(2,4,5) by simp
  then show ?thesis using loop w(2) by (simp add: sp_ReadQuotedString_def assms(4,5) Let_def)
qed

lemma scf_literal_light_parser_witness:
  "\<exists>sp'. sp_ReadQuotedString (sp_parser (DQUOTE # ''a'' @ [BACKSLASH] @ ''x41'' @ [DQUOTE]))
      = ((True, ''aA''), sp') \<and> sp_read sp' = 7"
proof -
  let ?b = "DQUOTE # ''a'' @ [BACKSLASH] @ ''x41'' @ [DQUOTE]"
  let ?s = "scf_sample\<lparr>sf_file := Some \<lparr>sc_index = 0, sc_name = [], sc_fullpath = [], sc_time = 0, sc_body = ?b\<rparr>\<rparr>"
  have 1: "sf_ReadQuotedString [] ?s = ((True, ''aA''), snd (sf_ReadQuotedString [] ?s))" by code_simp
  have 2: "sf_cur (snd (sf_ReadQuotedString [] ?s)) = 7" "sf_cur ?s = 0" by code_simp+
  show ?thesis
    using scf_literal_light_parser [OF 1, of "sp_parser ?b"] 2
    by (simp add: sf_buf_def sp_parser_def new_strparse_def sp_Init_def)
qed

section \<open>Pattern search\<close>

lemma sf_search_loop_spec:
  "case sf_search_loop cs buf p line cls of
     None \<Rightarrow> \<forall>i \<ge> p. i + length cs < length buf \<longrightarrow> \<not> occurs_at cs buf i
   | Some (i, _) \<Rightarrow> p \<le> i \<and> i + length cs < length buf \<and> occurs_at cs buf i
       \<and> (\<forall>j. p \<le> j \<and> j < i \<longrightarrow> \<not> occurs_at cs buf j)"
proof (induction cs buf p line cls rule: sf_search_loop.induct)
  case (1 cs buf p line cls)
  show ?case
  proof (cases "p + length cs < length buf \<and> \<not> pattern_at cs buf p")
    case True
    then have no: "\<not> occurs_at cs buf p" using pattern_at_eq [of p cs buf] by (simp add: occurs_at_def)
    have ge: "p \<le> i \<longleftrightarrow> i = p \<or> Suc p \<le> i" for i by auto
    define nx where "nx = (if buf ! p = line_end_char then sf_search_loop cs buf (Suc p) (line + 1) (Suc p)
      else sf_search_loop cs buf (Suc p) line cls)"
    have eq: "sf_search_loop cs buf p line cls = nx"
      using True by (simp add: sf_search_loop.simps [of cs buf p line cls] nx_def)
    have "case nx of None \<Rightarrow> \<forall>i \<ge> Suc p. i + length cs < length buf \<longrightarrow> \<not> occurs_at cs buf i
     | Some (i, _) \<Rightarrow> Suc p \<le> i \<and> i + length cs < length buf \<and> occurs_at cs buf i
         \<and> (\<forall>j. Suc p \<le> j \<and> j < i \<longrightarrow> \<not> occurs_at cs buf j)"
      using 1 True by (cases "buf ! p = line_end_char") (simp_all add: nx_def)
    then show ?thesis unfolding eq using no by (auto simp: ge split: option.splits)
  next
    case False
    then show ?thesis using pattern_at_eq [of p cs buf]
      by (auto simp: sf_search_loop.simps [of cs buf p line cls] occurs_at_def)
  qed
qed

text \<open>C35: The feeder's pattern search finds the first occurrence at or after the read position that
  ends before the last character of the file, and only those: an occurrence that reaches the end
  of the file is not found. When it consumes, it stands behind the occurrence.\<close>

theorem scf_search_first:
  assumes "sf_SearchPattern cs consume s = (found, s')"
  shows "(found \<longleftrightarrow> (\<exists>i \<ge> sf_cur s. i + length cs < sf_end s \<and> occurs_at cs (sf_buf s) i))
    \<and> (found \<longrightarrow> (\<exists>i \<ge> sf_cur s. occurs_at cs (sf_buf s) i \<and> i + length cs < sf_end s
          \<and> (\<forall>j. sf_cur s \<le> j \<and> j < i \<longrightarrow> \<not> occurs_at cs (sf_buf s) j)
          \<and> sf_cur s' = (if consume then i + length cs else i)))
    \<and> (\<not> found \<longrightarrow> s' = s)"
proof -
  note spec = sf_search_loop_spec [where cs = cs and buf = "sf_buf s" and p = "sf_cur s"
    and line = "sf_line s" and cls = "sf_clstart s"]
  show ?thesis
  proof (cases "sf_search_loop cs (sf_buf s) (sf_cur s) (sf_line s) (sf_clstart s)")
    case None
    with spec assms show ?thesis by (auto simp: sf_SearchPattern_def)
  next
    case (Some r)
    obtain i l c where r: "r = (i, l, c)" by (cases r)
    from Some r assms have s': "found" "sf_cur s' = (if consume then i + length cs else i)"
      by (auto simp: sf_SearchPattern_def Let_def)
    from spec Some r have "sf_cur s \<le> i \<and> i + length cs < sf_end s \<and> occurs_at cs (sf_buf s) i
       \<and> (\<forall>j. sf_cur s \<le> j \<and> j < i \<longrightarrow> \<not> occurs_at cs (sf_buf s) j)" by simp
    with s' show ?thesis by auto
  qed
qed

lemma scf_search_first_witness:
  "let s = scf_sample\<lparr>sf_file := Some \<lparr>sc_index = 0, sc_name = [], sc_fullpath = [], sc_time = 0, sc_body = ''abc''\<rparr>\<rparr>
   in \<not> fst (sf_SearchPattern ''bc'' False s) \<and> snd (sf_SearchPattern ''bc'' False s) = s"
proof -
  let ?s = "scf_sample\<lparr>sf_file := Some \<lparr>sc_index = 0, sc_name = [], sc_fullpath = [], sc_time = 0, sc_body = ''abc''\<rparr>\<rparr>"
  have eq: "sf_SearchPattern ''bc'' False ?s = (False, snd (sf_SearchPattern ''bc'' False ?s))" by code_simp
  from scf_search_first [OF this] have "snd (sf_SearchPattern ''bc'' False ?s) = ?s" by blast
  then show ?thesis unfolding Let_def using eq by (metis fst_conv)
qed

section \<open>Integers\<close>

text \<open>The value of a run of decimal digits.\<close>

definition dec_value :: "int \<Rightarrow> string \<Rightarrow> int" where
  "dec_value v ds = foldl (\<lambda>v c. v * 10 + (int (char_nat c) - 48)) v ds"

lemma dec_digit: "is_dec c \<Longrightarrow> schar c - schar (CHR ''0'') = int (char_nat c) - 48 \<and> 48 \<le> char_nat c \<and> char_nat c \<le> 57"
  by (auto simp: is_dec_def schar_def less_eq_char_def)

lemma dec_value_ge: "list_all is_dec ds \<Longrightarrow> 0 \<le> v \<Longrightarrow> v \<le> dec_value v ds"
proof (induction ds arbitrary: v)
  case (Cons c ds)
  then have "48 \<le> char_nat c" using dec_digit [of c] by simp
  with Cons have "v * 10 + (int (char_nat c) - 48) \<le> dec_value v (c # ds)" "v \<le> v * 10 + (int (char_nat c) - 48)"
    by (simp_all add: dec_value_def)
  then show ?case by linarith
qed (simp add: dec_value_def)

lemma int64_loop_digits:
  "drop p buf = ds @ rest \<Longrightarrow> list_all is_dec ds \<Longrightarrow> rest = [] \<or> \<not> is_dec (hd rest) \<Longrightarrow> start < p \<or> start = p \<and> ds \<noteq> []
     \<Longrightarrow> 0 \<le> r \<Longrightarrow> r < 2 ^ 63 \<Longrightarrow>
     int64_loop buf start p r m ok
       = (if dec_value r ds < 2 ^ 63 then Some (p + length ds, dec_value r ds, m, ok \<or> ds \<noteq> []) else None)"
proof (induction ds arbitrary: p r ok)
  case Nil
  have "int64_loop buf start p r m ok = Some (p, r, m, ok)"
  proof (cases rest)
    case Nil
    with Nil.prems(1) show ?thesis by (simp add: int64_loop.simps [of buf start p])
  next
    case (Cons c rest')
    with Nil.prems(1) have "buf ! p = c" using drop_ConsD [of p buf c rest'] by simp
    with Cons Nil.prems show ?thesis by (auto simp: int64_loop.simps [of buf start p] is_dec_def Let_def)
  qed
  with Nil.prems show ?case by (simp add: dec_value_def)
next
  case (Cons c ds)
  from Cons.prems(1) have p: "p < length buf" "buf ! p = c" "drop (Suc p) buf = ds @ rest"
    using drop_ConsD [of p buf c "ds @ rest"] by simp_all
  from Cons.prems(2) have c: "is_dec c" and ds: "list_all is_dec ds" by simp_all
  note d = dec_digit [OF c]
  define v where "v = r * 10 + (int (char_nat c) - 48)"
  have v: "dec_value r (c # ds) = dec_value v ds" by (simp add: dec_value_def v_def)
  have v0: "0 \<le> v" "r * 10 \<le> v" using d Cons.prems(5) by (simp_all add: v_def)
  have step: "int64_loop buf start p r m ok = (if v < 2 ^ 63 then int64_loop buf start (Suc p) v m True else None)"
    using p c d v0 Cons.prems(5)
    by (auto simp: int64_loop.simps [of buf start p] is_dec_def int64_check_def v_def Let_def)
  show ?case
  proof (cases "v < 2 ^ 63")
    case True
    have "int64_loop buf start (Suc p) v m True
       = (if dec_value v ds < 2 ^ 63 then Some (Suc p + length ds, dec_value v ds, m, True \<or> ds \<noteq> []) else None)"
      using Cons.prems(4) by (intro Cons.IH [OF p(3) ds Cons.prems(3) _ v0(1) True]) auto
    with step True v show ?thesis by simp
  next
    case False
    with dec_value_ge [OF ds v0(1)] step v show ?thesis by simp
  qed
qed

text \<open>C33: The integer reader takes an optional sign and all the digits that follow and returns their
  decimal value, of either sign the same: the sign is consumed but does not count. Where the value
  does not fit a 64-bit integer, its arithmetic overflows.\<close>

theorem scf_int_reads_digits:
  assumes "sf_buf s = pre @ sg @ ds @ rest" and "sf_cur s = length pre"
    and "sg = [] \<or> sg = ''-'' \<or> sg = ''+''" and "ds \<noteq> []" and "list_all is_dec ds"
    and "rest = [] \<or> \<not> is_dec (hd rest)"
  shows "case sf_ReadInt64Value v s of
     None \<Rightarrow> 2 ^ 63 \<le> dec_value 0 ds
   | Some (r, s') \<Rightarrow> dec_value 0 ds < 2 ^ 63 \<and> r = (True, dec_value 0 ds) \<and> drop (sf_cur s') (sf_buf s') = rest"
proof -
  let ?c = "sf_cur s" and ?b = "sf_buf s"
  let ?p = "?c + length sg + length ds"
  have "\<exists>m. int64_loop ?b ?c ?c 0 1 False = (if dec_value 0 ds < 2 ^ 63 then Some (?p, dec_value 0 ds, m, True) else None)"
  proof (cases "sg = []")
    case True
    have "drop ?c ?b = ds @ rest" by (simp add: assms(1,2) True)
    from int64_loop_digits [OF this assms(5,6), of ?c 0 1 False] assms(4) True show ?thesis by auto
  next
    case False
    then obtain k where sg: "sg = [k]" and k: "k = CHR ''-'' \<or> k = CHR ''+''" using assms(3) by auto
    have p: "?c < length ?b" "?b ! ?c = k" and d: "drop (Suc ?c) ?b = ds @ rest"
      by (simp_all add: assms(1,2) sg)
    obtain m where "int64_loop ?b ?c ?c 0 1 False = int64_loop ?b ?c (Suc ?c) 0 m False"
      using p k by (auto simp: int64_loop.simps [of ?b ?c ?c] Let_def less_eq_char_def)
    with int64_loop_digits [OF d assms(5,6), of ?c 0 m False] assms(4) sg show ?thesis by auto
  qed
  then obtain m where l: "int64_loop ?b ?c ?c 0 1 False
      = (if dec_value 0 ds < 2 ^ 63 then Some (?p, dec_value 0 ds, m, True) else None)" by blast
  have "drop ?p ?b = rest" by (simp add: assms(1,2))
  with l show ?thesis by (simp add: sf_ReadInt64Value_def)
qed

lemma scf_int_reads_digits_witness:
  "case sf_ReadInt64Value 0 (scf_sample\<lparr>sf_file := Some \<lparr>sc_index = 0, sc_name = [], sc_fullpath = [], sc_time = 0, sc_body = ''-12;''\<rparr>\<rparr>) of
     None \<Rightarrow> 2 ^ 63 \<le> dec_value 0 ''12''
   | Some (r, s') \<Rightarrow> dec_value 0 ''12'' < 2 ^ 63 \<and> r = (True, dec_value 0 ''12'') \<and> drop (sf_cur s') (sf_buf s') = '';''"
proof (rule scf_int_reads_digits [of _ "[]" "''-''" "''12''" "'';''"], goal_cases)
  case 2
  show ?case by code_simp
qed (simp_all add: sf_buf_def is_dec_def less_eq_char_def)

section \<open>Keywords\<close>

lemma ident_char: "is_identifier_char c \<longleftrightarrow> is_alpha_under c \<or> is_dec c"
  by (auto simp: is_identifier_char_def is_alpha_under_def is_dec_def)

text \<open>C32: At a place that does not follow an identifier character, checking for a keyword succeeds
  exactly when the identifier read there is the keyword: \<open>if\<close> is not found in \<open>iffy\<close>. Both
  consume the same text.\<close>

theorem scf_keyword_is_identifier:
  assumes "sf_file s = Some f" and "sf_cur s \<le> sf_end s"
    and "sf_cur s = 0 \<or> \<not> is_identifier_char (sf_buf s ! (sf_cur s - 1))"
    and "kw \<noteq> []" and "is_alpha_under (hd kw)" and "list_all is_identifier_char kw"
  shows "\<exists>ok s1. sf_CheckKeyword kw consume s = Some (ok, s1)
    \<and> (ok \<longleftrightarrow> fst (sf_ReadIdentifier v consume s) = (True, kw))
    \<and> (ok \<longrightarrow> sf_cur s1 = sf_cur (snd (sf_ReadIdentifier v consume s)))"
proof -
  let ?b = "sf_buf s" and ?c = "sf_cur s" and ?P = "\<lambda>c. is_alpha_under c \<or> is_dec c"
  let ?e = "if ?c < sf_end s \<and> is_alpha_under (?b ! ?c) then scan_while ?P ?b (Suc ?c) else ?c"
  let ?word = "\<not> (sf_end s - ?c > length kw \<and> is_identifier_char (?b ! (?c + length kw)))"
  let ?match = "\<exists>rest. drop ?c ?b = kw @ rest"
  obtain left q where cl: "check_loop kw ?b ?c = (left, q)" by fastforce
  from check_loop_eq [OF assms(2), of kw] cl have m: "left = [] \<longleftrightarrow> ?match" "left = [] \<Longrightarrow> q = ?c + length kw" by auto
  have nb: "\<not> (0 < ?c \<and> is_identifier_char (?b ! (?c - 1)))" using assms(3) by auto
  have ck: "\<exists>s1. sf_CheckKeyword kw consume s = Some (?word \<and> ?match, s1)
      \<and> (?word \<and> ?match \<longrightarrow> sf_cur s1 = (if consume then ?c + length kw else ?c))"
  proof (cases "?word \<and> ?match")
    case True
    then have "left = []" "q = ?c + length kw" using m by simp_all
    with True nb assms(1) cl show ?thesis
      by (auto simp: sf_CheckKeyword_def sf_CheckSymbol_def Let_def)
  next
    case False
    then have "\<not> ?word \<or> left \<noteq> []" using m by blast
    with False nb assms(1) cl show ?thesis
      by (auto simp: sf_CheckKeyword_def sf_CheckSymbol_def Let_def)
  qed
  have id: "fst (sf_ReadIdentifier v consume s) = (True, kw) \<longleftrightarrow> ?c < ?e \<and> take (?e - ?c) (drop ?c ?b) = kw"
    "sf_cur (snd (sf_ReadIdentifier v consume s)) = (if ?c < ?e \<and> consume then ?e else ?c)"
    by (simp_all add: sf_ReadIdentifier_def Let_def)
  have len: "?e = ?c + length kw" if "?c < ?e" "take (?e - ?c) (drop ?c ?b) = kw"
  proof -
    define e where "e = ?e"
    have "e \<le> sf_end s" unfolding e_def using scan_while_le [of "Suc ?c" ?b ?P] assms(2) by simp
    moreover have "?c < e" "take (e - ?c) (drop ?c ?b) = kw" using that unfolding e_def .
    ultimately have "e = ?c + length kw" by auto
    then show ?thesis unfolding e_def .
  qed
  have same: "?word \<and> ?match \<longleftrightarrow> ?c < ?e \<and> take (?e - ?c) (drop ?c ?b) = kw"
  proof
    assume "?word \<and> ?match"
    then obtain rest where word: "?word" and r: "drop ?c ?b = kw @ rest" by blast
    obtain k kw' where kw: "kw = k # kw'" using assms(4) by (cases kw) auto
    from r kw drop_ConsD [of ?c ?b k "kw' @ rest"]
    have c: "?c < sf_end s" "?b ! ?c = k" "drop (Suc ?c) ?b = kw' @ rest" by simp_all
    have stop: "rest = [] \<or> \<not> ?P (hd rest)"
    proof (cases rest)
      case (Cons h t)
      then have "drop (?c + length kw) ?b = h # t" using r by (metis append_eq_conv_conj drop_drop add.commute)
      from drop_ConsD [OF this] word Cons show ?thesis by (auto simp: ident_char)
    qed simp
    have all: "\<forall>c \<in> set kw'. ?P c" using assms(6) kw by (simp add: ident_char list_all_iff)
    have tw: "takeWhile ?P kw' = kw'" using all by (subst takeWhile_eq_all_conv)
    have "run_length ?P (kw' @ rest) = length kw'"
      using all stop by (cases rest) (simp_all add: takeWhile_append tw)
    then have "scan_while ?P ?b (Suc ?c) = ?c + length kw" using scan_while_eq [of "Suc ?c" ?b ?P] c kw by simp
    moreover have "is_alpha_under (?b ! ?c)" using assms(5) kw c by simp
    ultimately show "?c < ?e \<and> take (?e - ?c) (drop ?c ?b) = kw" using c(1) r assms(4) by simp
  next
    assume id: "?c < ?e \<and> take (?e - ?c) (drop ?c ?b) = kw"
    define e where "e = scan_while ?P ?b (Suc ?c)"
    have "?c < sf_end s \<and> is_alpha_under (?b ! ?c)"
    proof (rule ccontr)
      assume "\<not> ?thesis"
      then have "?e = ?c" by (rule if_not_P)
      with id show False by simp
    qed
    then have E: "?e = e" by (simp add: e_def)
    have e: "?c < e" "take (e - ?c) (drop ?c ?b) = kw" using id unfolding E by blast+
    have el: "e = ?c + length kw" using len id unfolding E by blast
    have "drop ?c ?b = kw @ drop (e - ?c) (drop ?c ?b)" using e(2) append_take_drop_id by metis
    moreover have "\<not> ?P (?b ! e)" if "e < sf_end s"
      using scan_while_stop [of ?P ?b "Suc ?c"] that unfolding e_def by blast
    then have "?word" using el by (auto simp: ident_char)
    ultimately show "?word \<and> ?match" by blast
  qed
  define w where "w \<longleftrightarrow> ?word \<and> ?match"
  from ck obtain s1 where s1: "sf_CheckKeyword kw consume s = Some (w, s1)"
      "w \<Longrightarrow> sf_cur s1 = (if consume then ?c + length kw else ?c)" unfolding w_def by blast
  have w: "w \<longleftrightarrow> fst (sf_ReadIdentifier v consume s) = (True, kw)" unfolding w_def id(1) by (rule same)
  have "w \<Longrightarrow> sf_cur s1 = sf_cur (snd (sf_ReadIdentifier v consume s))"
  proof -
    assume "w"
    then have e: "?c < ?e" "take (?e - ?c) (drop ?c ?b) = kw" unfolding w_def same by blast+
    then show ?thesis unfolding id(2) s1(2) [OF \<open>w\<close>] len [OF e] using assms(4) by simp
  qed
  with s1(1) w show ?thesis by blast
qed

lemma scf_keyword_is_identifier_witness:
  "\<exists>ok s1. sf_CheckKeyword ''if'' True (scf_sample\<lparr>sf_file := Some \<lparr>sc_index = 0, sc_name = [], sc_fullpath = [], sc_time = 0, sc_body = ''iffy''\<rparr>\<rparr>)
      = Some (ok, s1) \<and> \<not> ok"
proof -
  let ?s = "scf_sample\<lparr>sf_file := Some \<lparr>sc_index = 0, sc_name = [], sc_fullpath = [], sc_time = 0, sc_body = ''iffy''\<rparr>\<rparr>"
  have "sf_cur ?s = 0" by code_simp
  moreover have "fst (sf_ReadIdentifier [] True ?s) = (True, ''iffy'')" by code_simp
  ultimately show ?thesis
    using scf_keyword_is_identifier [of ?s "\<lparr>sc_index = 0, sc_name = [], sc_fullpath = [], sc_time = 0, sc_body = ''iffy''\<rparr>" "''if''" True "[]"]
    by (auto simp: is_alpha_under_def is_identifier_char_def less_eq_char_def)
qed

end
