(* ===== verification/Dq_Scan.thy ===== *)
theory Dq_Scan
  imports Scf_Track
begin

text \<open>
  The scanners of the DQ source feeder (\<open>compiler/parser/scf_dq.cpp\<close>) that work on the text
  alone: does the line end before the next token, the text of an assembly line without its
  comments, and the skipping of inactive code.
\<close>

section \<open>The end of the line before the next token\<close>

abbreviation is_nl :: "char \<Rightarrow> bool" where "is_nl c \<equiv> c = CR \<or> c = LF"

abbreviation two_at :: "string \<Rightarrow> nat \<Rightarrow> char \<Rightarrow> char \<Rightarrow> bool" where
  "two_at buf p a b \<equiv> p + 1 < length buf \<and> buf ! p = a \<and> buf ! (p + 1) = b"

text \<open>The rest of a block comment on this line: \<open>None\<close> when a line end comes first.\<close>

function comment_on_line :: "string \<Rightarrow> nat \<Rightarrow> nat option" where
  "comment_on_line buf p =
     (if p < length buf then
        if is_nl (buf ! p) then None
        else if two_at buf p (CHR ''*'') (CHR ''/'') then Some (p + 2)
        else comment_on_line buf (Suc p)
      else Some p)"
  by pat_completeness auto
termination by (relation "measure (\<lambda>(buf, p). length buf - p)") auto

declare comment_on_line.simps [simp del]

lemma comment_on_line_ge: "comment_on_line buf p = Some p' \<Longrightarrow> p \<le> p'"
proof (induction buf p rule: comment_on_line.induct)
  case (1 buf p)
  then show ?case by (auto simp: comment_on_line.simps [of buf p] split: if_splits)
qed

function line_ends_loop :: "string \<Rightarrow> nat \<Rightarrow> bool" where
  "line_ends_loop buf p =
     (if p < length buf then
        if buf ! p = CHR '' '' \<or> buf ! p = TAB then line_ends_loop buf (Suc p)
        else if is_nl (buf ! p) then True
        else if two_at buf p (CHR ''/'') (CHR ''/'') then True
        else if two_at buf p (CHR ''/'') (CHR ''*'') then
          (case comment_on_line buf (p + 2) of None \<Rightarrow> True | Some p' \<Rightarrow> line_ends_loop buf p')
        else False
      else True)"
  by pat_completeness auto
termination
  by (relation "measure (\<lambda>(buf, p). length buf - p)") (auto dest!: comment_on_line_ge)

declare line_ends_loop.simps [simp del]

definition LineEndsBeforeNextToken :: "feeder \<Rightarrow> bool" where
  "LineEndsBeforeNextToken s = line_ends_loop (sf_buf s) (sf_cur s)"

section \<open>Assembly text\<close>

text \<open>The inside of a quoted operand, up to its end, the line end or the end of the file.\<close>

function quote_skip :: "string \<Rightarrow> char \<Rightarrow> nat \<Rightarrow> nat" where
  "quote_skip buf q p =
     (if p < length buf \<and> buf ! p \<noteq> q \<and> \<not> is_nl (buf ! p)
      then quote_skip buf q (if buf ! p = BACKSLASH \<and> p + 1 < length buf then p + 2 else Suc p)
      else p)"
  by pat_completeness auto
termination by (relation "measure (\<lambda>(buf, q, p). length buf - p)") auto

declare quote_skip.simps [simp del]

lemma quote_skip_ge: "p \<le> quote_skip buf q p"
proof (induction buf q p rule: quote_skip.induct)
  case (1 buf q p)
  then show ?case by (auto simp: quote_skip.simps [of buf q p] split: if_splits)
qed

lemma quote_skip_le: "p \<le> length buf \<Longrightarrow> quote_skip buf q p \<le> length buf"
proof (induction buf q p rule: quote_skip.induct)
  case (1 buf q p)
  then show ?case by (auto simp: quote_skip.simps [of buf q p] split: if_splits)
qed

definition quote_end :: "string \<Rightarrow> nat \<Rightarrow> nat" where
  "quote_end buf p =
     (let p1 = quote_skip buf (buf ! p) (Suc p)
      in if p1 < length buf \<and> buf ! p1 = buf ! p then Suc p1 else p1)"

lemma quote_end_bounds: "p < length buf \<Longrightarrow> p < quote_end buf p \<and> quote_end buf p \<le> length buf"
  using quote_skip_ge [of "Suc p" buf "buf ! p"] quote_skip_le [of "Suc p" buf "buf ! p"]
  by (auto simp: quote_end_def Let_def)

text \<open>
  One pass over an inactive assembly line: \<open>Inl\<close> returns, \<open>Inr\<close> goes on at a position. A block
  comment is searched with the feeder itself.
\<close>

definition inactive_asm_pass :: "feeder \<Rightarrow> nat \<Rightarrow> feeder + (feeder \<times> nat)" where
  "inactive_asm_pass s p =
     (let buf = sf_buf s in
      if is_nl (buf ! p) then Inl (snd (sf_ReadLine (s\<lparr>sf_cur := p\<rparr>)))
      else if buf ! p = SQUOTE \<or> buf ! p = DQUOTE then Inr (s, quote_end buf p)
      else if two_at buf p (CHR ''/'') (CHR ''/'') then Inl (snd (sf_ReadTo [CR, LF] (s\<lparr>sf_cur := p + 2\<rparr>)))
      else if two_at buf p (CHR ''/'') (CHR ''*'') then
        (case sf_SearchPattern ''*/'' True (s\<lparr>sf_cur := p + 2\<rparr>) of
           (False, s1) \<Rightarrow> Inl (RecalcCurLineCol (s1\<lparr>sf_cur := sf_end s1\<rparr>))
         | (True, s1) \<Rightarrow> if sf_line s1 \<noteq> sf_line s then Inl s1 else Inr (s1, sf_cur s1))
      else Inr (s, Suc p))"

lemma inactive_asm_pass_Inr:
  assumes "inactive_asm_pass s p = Inr (s', p')" and "p < sf_end s"
  shows "p < p' \<and> p' \<le> sf_end s \<and> sf_buf s' = sf_buf s"
proof -
  let ?s = "s\<lparr>sf_cur := p + 2\<rparr>"
  have search: "p < sf_cur s1 \<and> sf_cur s1 \<le> sf_end s \<and> sf_buf s1 = sf_buf s"
    if "sf_SearchPattern ''*/'' True ?s = (True, s1)" "two_at (sf_buf s) p (CHR ''/'') (CHR ''*'')" for s1
  proof -
    have inv: "sf_inv ?s" using that(2) by (simp add: sf_inv_def)
    from sf_search.act_inside [OF inv, of "''*/''" True] sf_search.act_mono [OF inv, of "''*/''" True]
      sf_search.act_buf [OF inv, of "''*/''" True] that(1)
    show ?thesis by simp
  qed
  then show ?thesis
    using assms quote_end_bounds [of p "sf_buf s"]
    by (auto simp: inactive_asm_pass_def Let_def split: if_splits prod.splits bool.splits)
qed

function inactive_asm_loop :: "feeder \<Rightarrow> nat \<Rightarrow> feeder" where
  "inactive_asm_loop s p =
     (if p < sf_end s
      then (case inactive_asm_pass s p of Inl s' \<Rightarrow> s' | Inr (s', p') \<Rightarrow> inactive_asm_loop s' p')
      else RecalcCurLineCol (s\<lparr>sf_cur := p\<rparr>))"
  by pat_completeness auto
termination
proof (relation "measure (\<lambda>(s, p). sf_end s - p)", goal_cases)
  case (2 s p x s' p')
  then have "inactive_asm_pass s p = Inr (s', p')" by simp
  from inactive_asm_pass_Inr [OF this 2(1)] 2(1) show ?case by auto
qed simp

declare inactive_asm_loop.simps [simp del]

definition SkipInactiveAsmCode :: "feeder \<Rightarrow> feeder" where
  "SkipInactiveAsmCode s = inactive_asm_loop s (sf_cur s)"

text \<open>\<open>ReadAsmText\<close>: the text of one physical line, a block comment read as one blank or line end.\<close>

function asm_quote :: "string \<Rightarrow> char \<Rightarrow> nat \<Rightarrow> string \<Rightarrow> nat \<times> string" where
  "asm_quote buf q p acc =
     (if p < length buf \<and> buf ! p \<noteq> q \<and> \<not> is_nl (buf ! p)
      then (if buf ! p = BACKSLASH \<and> p + 1 < length buf
            then asm_quote buf q (p + 2) (acc @ [buf ! p, buf ! (p + 1)])
            else asm_quote buf q (Suc p) (acc @ [buf ! p]))
      else (p, acc))"
  by pat_completeness auto
termination by (relation "measure (\<lambda>(buf, q, p, acc). length buf - p)") auto

declare asm_quote.simps [simp del]

function asm_comment :: "string \<Rightarrow> nat \<Rightarrow> string \<Rightarrow> bool \<Rightarrow> nat \<times> string \<times> bool" where
  "asm_comment buf p acc crossed =
     (if p < length buf then
        if two_at buf p (CHR ''*'') (CHR ''/'') then (p + 2, acc, crossed)
        else if is_nl (buf ! p)
        then asm_comment buf (if two_at buf p CR LF then p + 2 else Suc p) (acc @ [LF]) True
        else asm_comment buf (Suc p) acc crossed
      else (p, acc, crossed))"
  by pat_completeness auto
termination by (relation "measure (\<lambda>(buf, p, acc, crossed). length buf - p)") auto

declare asm_comment.simps [simp del]

lemma asm_quote_skip: "fst (asm_quote buf q p acc) = quote_skip buf q p"
proof (induction buf q p acc rule: asm_quote.induct)
  case (1 buf q p acc)
  then show ?case
    by (subst asm_quote.simps, subst quote_skip.simps) auto
qed

lemma asm_comment_range:
  "asm_comment buf p acc c = (p', acc', c') \<Longrightarrow> p \<le> length buf \<Longrightarrow> p \<le> p' \<and> p' \<le> length buf"
proof (induction buf p acc c rule: asm_comment.induct)
  case (1 buf p acc c)
  then show ?case by (auto simp: asm_comment.simps [of buf p acc c] split: if_splits)
qed

text \<open>
  One pass over an assembly line: \<open>Inl\<close> returns with the text and the feeder, \<open>Inr\<close> goes on.
\<close>

definition asm_text_pass ::
  "feeder \<Rightarrow> nat \<Rightarrow> string \<Rightarrow> (string \<times> feeder) + (feeder \<times> nat \<times> string)" where
  "asm_text_pass s p acc =
     (let buf = sf_buf s in
      if is_nl (buf ! p) then Inl (acc @ [LF], snd (sf_ReadLine (s\<lparr>sf_cur := p\<rparr>)))
      else if buf ! p = SQUOTE \<or> buf ! p = DQUOTE then
        (case asm_quote buf (buf ! p) (Suc p) (acc @ [buf ! p]) of
           (p1, acc1) \<Rightarrow>
             if p1 < length buf \<and> buf ! p1 = buf ! p then Inr (s, Suc p1, acc1 @ [buf ! p1])
             else Inr (s, p1, acc1))
      else if two_at buf p (CHR ''/'') (CHR ''/'') then
        Inr (s, scan_while (\<lambda>c. \<not> is_nl c) buf p, acc)
      else if two_at buf p (CHR ''/'') (CHR ''*'') then
        (let acc0 = (if acc \<noteq> [] \<and> last acc \<noteq> CHR '' '' \<and> last acc \<noteq> LF then acc @ '' '' else acc)
         in case asm_comment buf (p + 2) acc0 False of
              (p1, acc1, crossed) \<Rightarrow>
                let s1 = RecalcCurLineCol (s\<lparr>sf_cur := p1\<rparr>)
                in if crossed then Inl (acc1, s1) else Inr (s1, p1, acc1))
      else Inr (s, Suc p, acc @ [buf ! p]))"

lemma asm_text_pass_Inr:
  assumes "asm_text_pass s p acc = Inr (s', p', acc')" and "p < sf_end s"
  shows "p < p' \<and> p' \<le> sf_end s \<and> sf_buf s' = sf_buf s"
proof -
  let ?buf = "sf_buf s"
  note q = quote_skip_ge [of "Suc p" ?buf "?buf ! p"] quote_skip_le [of "Suc p" ?buf "?buf ! p"]
    asm_quote_skip [of ?buf "?buf ! p" "Suc p" "acc @ [?buf ! p]"]
  have "p < scan_while (\<lambda>c. \<not> is_nl c) ?buf p \<and> scan_while (\<lambda>c. \<not> is_nl c) ?buf p \<le> length ?buf" if "\<not> is_nl (?buf ! p)"
    using scan_while_progress [of p ?buf "\<lambda>c. \<not> is_nl c"] scan_while_le [of p ?buf "\<lambda>c. \<not> is_nl c"]
      that assms(2) by simp
  then show ?thesis
    using assms q by (auto simp: asm_text_pass_def Let_def split: if_splits prod.splits dest!: asm_comment_range)
qed

function asm_text_loop :: "feeder \<Rightarrow> nat \<Rightarrow> string \<Rightarrow> (bool \<times> string) \<times> feeder" where
  "asm_text_loop s p acc =
     (if p < sf_end s
      then (case asm_text_pass s p acc of
              Inl (acc', s') \<Rightarrow> ((True, acc'), s')
            | Inr (s', p', acc') \<Rightarrow> asm_text_loop s' p' acc')
      else ((acc \<noteq> [], acc), RecalcCurLineCol (s\<lparr>sf_cur := p\<rparr>)))"
  by pat_completeness auto
termination
proof (relation "measure (\<lambda>(s, p, acc). sf_end s - p)", goal_cases)
  case (2 s p acc x s' y p' acc')
  then have "asm_text_pass s p acc = Inr (s', p', acc')" by simp
  from asm_text_pass_Inr [OF this 2(1)] 2(1) show ?case by auto
qed simp

declare asm_text_loop.simps [simp del]

definition ReadAsmText :: "feeder \<Rightarrow> (bool \<times> string) \<times> feeder" where
  "ReadAsmText s = (if sf_cur s \<ge> sf_end s then ((False, []), s) else asm_text_loop s (sf_cur s) [])"

section \<open>Inactive code\<close>

text \<open>One pass of \<open>SkipInactiveCode\<close>: \<open>Inl\<close> returns, \<open>Inr\<close> goes on.\<close>

definition inactive_pass :: "feeder \<Rightarrow> feeder + feeder" where
  "inactive_pass s =
     (case sf_ReadTo [DQUOTE, SQUOTE, CHR ''#'', CHR ''/''] s of
        (False, s1) \<Rightarrow> Inl s1
      | (True, s1) \<Rightarrow>
          if sf_buf s1 ! sf_cur s1 = DQUOTE \<or> sf_buf s1 ! sf_cur s1 = SQUOTE then
            (case sf_ReadQuotedString [] s1 of
               ((ok, _), s2) \<Rightarrow> Inr (if ok then s2 else s2\<lparr>sf_cur := Suc (sf_cur s2)\<rparr>))
          else (case sf_CheckSymbol ''#'' False s1 of
                  (True, s2) \<Rightarrow> Inl s2
                | (False, s2) \<Rightarrow>
          (case sf_CheckSymbol ''//'' False s2 of
             (True, s3) \<Rightarrow> Inl s3
           | (False, s3) \<Rightarrow>
          (case sf_CheckSymbol ''/*'' False s3 of
             (True, s4) \<Rightarrow> Inl s4
           | (False, s4) \<Rightarrow> Inr (s4\<lparr>sf_cur := Suc (sf_cur s4)\<rparr>)))))"

lemma quoted_consumes:
  assumes "sf_ReadQuotedString v s = ((True, w), s')"
  shows "sf_cur s < sf_cur s' \<and> sf_cur s' \<le> sf_end s"
proof -
  let ?q = "sf_buf s ! sf_cur s"
  let ?t = "sf_cur s + 2 < sf_end s \<and> sf_buf s ! (sf_cur s + 1) = ?q \<and> sf_buf s ! (sf_cur s + 2) = ?q"
  have quote: "\<not> (sf_cur s \<ge> sf_end s \<or> (?q \<noteq> DQUOTE \<and> ?q \<noteq> SQUOTE))"
  proof
    assume "sf_cur s \<ge> sf_end s \<or> (?q \<noteq> DQUOTE \<and> ?q \<noteq> SQUOTE)"
    then have "fst (sf_ReadQuotedString v s) = (False, v)"
      by (simp only: sf_ReadQuotedString_def Let_def if_P fst_conv)
    with assms show False by simp
  qed
  show ?thesis
  proof (cases "quote_scan (sf_buf s) ?q ?t (sf_cur s + (if ?t then 3 else 1))")
    case None
    with quote assms show ?thesis
      unfolding sf_ReadQuotedString_def Let_def by (simp split: if_splits)
  next
    case (Some r)
    obtain e p where r: "r = (e, p)" by (cases r)
    have "sf_cur s < p \<and> p \<le> sf_end s"
      using quote_scan_range [OF Some [unfolded r]] by (simp split: if_splits)
    moreover have "sf_cur s' = p"
      using assms quote unfolding sf_ReadQuotedString_def Let_def Some r by (simp split: if_splits) auto
    ultimately show ?thesis by simp
  qed
qed

lemma quoted_fails_in_place:
  "sf_ReadQuotedString v s = ((False, w), s') \<Longrightarrow> sf_cur s' = sf_cur s \<and> sf_buf s' = sf_buf s"
  by (auto simp: sf_ReadQuotedString_def Let_def split: if_splits option.splits)

lemma check_stays: "sf_CheckSymbol cs False s = (b, s') \<Longrightarrow> sf_cur s' = sf_cur s \<and> sf_buf s' = sf_buf s"
  by (auto simp: sf_CheckSymbol_def Let_def split: prod.splits if_splits)

lemma inactive_pass_Inr:
  assumes "inactive_pass s = Inr s'" and "sf_cur s < sf_end s"
  shows "sf_cur s < sf_cur s' \<and> sf_cur s' \<le> sf_end s \<and> sf_buf s' = sf_buf s"
proof -
  have inv: "sf_inv s" using assms(2) by (simp add: sf_inv_def)
  obtain ok s1 where r: "sf_ReadTo [DQUOTE, SQUOTE, CHR ''#'', CHR ''/''] s = (ok, s1)" by fastforce
  from sf_to.act_good [OF inv] sf_to.act_buf [OF inv] sf_to.act_mono [OF inv] r
  have s1: "sf_inv s1" "sf_buf s1 = sf_buf s" "sf_cur s \<le> sf_cur s1" by (metis snd_conv)+
  have ok: "ok" using assms(1) r by (cases ok) (simp_all add: inactive_pass_def)
  then have lt: "sf_cur s1 < sf_end s1"
    using r s1(2) by (auto simp: sf_ReadTo_def Let_def split: prod.splits if_splits)
  show ?thesis
  proof (cases "sf_buf s1 ! sf_cur s1 = DQUOTE \<or> sf_buf s1 ! sf_cur s1 = SQUOTE")
    case True
    obtain okq w s2 where q: "sf_ReadQuotedString [] s1 = ((okq, w), s2)" by (metis prod.exhaust)
    have s': "s' = (if okq then s2 else s2\<lparr>sf_cur := Suc (sf_cur s2)\<rparr>)"
      using assms(1) ok r True q by (simp add: inactive_pass_def)
    have "sf_buf s2 = sf_buf s1" using sf_quoted.act_buf [OF s1(1), of "[]"] q by simp
    with s' q s1 lt quoted_consumes [of "[]" s1 w s2] quoted_fails_in_place [of "[]" s1 w s2]
    show ?thesis by (cases okq) auto
  next
    case False
    obtain b2 s2 where c2: "sf_CheckSymbol ''#'' False s1 = (b2, s2)" by fastforce
    obtain b3 s3 where c3: "sf_CheckSymbol ''//'' False s2 = (b3, s3)" by fastforce
    obtain b4 s4 where c4: "sf_CheckSymbol ''/*'' False s3 = (b4, s4)" by fastforce
    from check_stays [OF c2] check_stays [OF c3] check_stays [OF c4]
    have "sf_cur s4 = sf_cur s1" "sf_buf s4 = sf_buf s1" by simp_all
    moreover have "s' = s4\<lparr>sf_cur := Suc (sf_cur s4)\<rparr>"
      using assms(1) ok r False c2 c3 c4 by (cases b2; cases b3; cases b4) (simp_all add: inactive_pass_def)
    ultimately show ?thesis using s1 lt by simp
  qed
qed

function SkipInactiveCode :: "feeder \<Rightarrow> feeder" where
  "SkipInactiveCode s =
     (if sf_cur s < sf_end s
      then (case inactive_pass s of Inl s' \<Rightarrow> s' | Inr s' \<Rightarrow> SkipInactiveCode s')
      else s)"
  by pat_completeness auto
termination
proof (relation "measure (\<lambda>s. sf_end s - sf_cur s)", goal_cases)
  case (2 s s')
  from inactive_pass_Inr [OF 2(2,1)] 2(1) show ?case by auto
qed simp

declare SkipInactiveCode.simps [simp del]

end
