(* ===== verification/Scf_Dq.thy ===== *)
theory Scf_Dq
  imports Dq_Scan
begin

text \<open>
  The DQ source feeder, \<open>OScFeederDq\<close> of \<open>compiler/parser/scf_dq.{h,cpp}\<close>: compiler directives,
  conditional compilation, include files and source dependencies, and \<open>SkipWhite\<close>, which drives
  them. The compiler behind \<open>g_compiler\<close>, the option object and the file system are reached
  through the functions of \<open>'e host\<close>; \<open>'e\<close> is the compiler's own state. Reads through null
  pointers are \<open>None\<close>. Verbose printing and the compiler's error position are not modelled.
\<close>

section \<open>State\<close>

datatype cond_state = FCOND_IF | FCOND_ELIF | FCOND_ELSE

record scf_cond =
  c_state :: cond_state
  c_parent_inactive :: bool
  c_branch_taken :: bool
  c_startpos :: scpos
  c_elsepos :: scpos

datatype diag =
    CDIR_KW_MISSING | CDIR_UNKNOWN | CDIR_OPT_SYNTAX | CDIR_OPT_UNKNOWN | CDIR_DEF_ID_MISSING
  | CDIR_LINKLIB_SYNTAX | CDIR_LINKLIB_INVALID | CDIR_INC_FN_MISSING | CDIR_INC_HEADER_INVALID
  | CDIR_INC_LOADING | CDIR_SRCDEP_SYNTAX | CDIR_SRCDEP_PLACEMENT | CDIR_SRCDEP_LOADING
  | CDIR_ELCOND_WITHOUT_IF | CDIR_ELCOND_AFTER_ELSE_PREVPOS | CDIR_COND_WRONG_INC | CDIR_COND_ID_MISSING
  | CDIR_ENDIF_WITHOUT_IF | CDIR_ELSE_WITHOUT_IF | CDIR_MULTIPLE_ELSE_PREVPOS | CDIR_CLOSER_MISSING
  | NS_NAME_EXPECTED | DOT_MISSING_AFTER_NS_NAME | ID_EXP_AFTER

record srcdep =
  dep_filename :: string
  dep_filesize :: nat
  dep_filetime :: nat

text \<open>
  \<open>d_cond\<close> is the chain of open conditionals from \<open>curcond\<close> outwards, \<open>d_ret\<close> the stack of
  return positions with its top first, \<open>d_files\<close> the loaded files with their use counts.
\<close>

record 'e dqs =
  d_sf :: feeder
  d_ret :: "scpos list"
  d_start :: scpos
  d_cond :: "scf_cond list"
  d_inactive :: bool
  d_brace :: bool
  d_expr :: bool
  d_asm :: bool
  d_impl :: bool
  d_files :: "(scfile \<times> nat) list"
  d_deps :: "srcdep list"
  d_main :: string
  d_header :: string
  d_linklibs :: "string list"
  d_root_depth :: int
  d_suppress :: bool
  d_errors :: "(diag \<times> string \<times> string \<times> scpos) list"
  d_env :: 'e

text \<open>The file system, the search path and the compiler's queries.\<close>

record 'e host =
  h_abs :: "string \<Rightarrow> string"
  h_normal :: "string \<Rightarrow> string"
  h_parent :: "string \<Rightarrow> string"
  h_filename :: "string \<Rightarrow> string"
  h_join :: "string \<Rightarrow> string \<Rightarrow> string"
  h_header_of :: "string \<Rightarrow> string"
  h_is_header :: "string \<Rightarrow> bool"
  h_exists :: "string \<Rightarrow> bool"
  h_read :: "string \<Rightarrow> (string \<times> nat) option"
  h_metadata :: "string \<Rightarrow> (nat \<times> nat) option"
  h_packages :: "string list"
  h_module_root :: "string \<Rightarrow> string option"
  h_defined :: "string \<Rightarrow> string \<Rightarrow> 'e dqs \<Rightarrow> (bool \<times> bool) \<times> 'e dqs"
  h_condition :: "'e dqs \<Rightarrow> (bool \<times> bool) \<times> 'e dqs"
  h_define_const :: "string \<Rightarrow> 'e dqs \<Rightarrow> 'e dqs"
  h_define_true :: "string \<Rightarrow> scpos \<Rightarrow> 'e \<Rightarrow> 'e"

text \<open>A reading operation of the base feeder, on the whole state.\<close>

definition rd :: "(feeder \<Rightarrow> 'r \<times> feeder) \<Rightarrow> 'e dqs \<Rightarrow> 'r \<times> 'e dqs" where
  "rd f s = (case f (d_sf s) of (r, sf) \<Rightarrow> (r, s\<lparr>d_sf := sf\<rparr>))"

definition upd_sf :: "(feeder \<Rightarrow> feeder) \<Rightarrow> 'e dqs \<Rightarrow> 'e dqs" where
  "upd_sf f s = s\<lparr>d_sf := f (d_sf s)\<rparr>"

abbreviation d_cur :: "'e dqs \<Rightarrow> nat" where "d_cur s \<equiv> sf_cur (d_sf s)"
abbreviation d_end :: "'e dqs \<Rightarrow> nat" where "d_end s \<equiv> sf_end (d_sf s)"
abbreviation d_buf :: "'e dqs \<Rightarrow> string" where "d_buf s \<equiv> sf_buf (d_sf s)"

abbreviation skip_spaces :: "bool \<Rightarrow> 'e dqs \<Rightarrow> 'e dqs" where
  "skip_spaces b s \<equiv> snd (rd (sf_SkipSpaces b) s)"

section \<open>Errors and the end of a directive\<close>

definition dq_Error :: "diag \<Rightarrow> string \<Rightarrow> string \<Rightarrow> 'e dqs \<Rightarrow> 'e dqs" where
  "dq_Error e p1 p2 s = (if d_suppress s then s else s\<lparr>d_errors := d_errors s @ [(e, p1, p2, d_start s)]\<rparr>)"

text \<open>The recovery of a directive in braces looks for an opening brace.\<close>

definition preproc_recover :: "'e dqs \<Rightarrow> 'e dqs" where
  "preproc_recover s =
     (if d_brace s then
        (case rd (sf_ReadToChar (CHR ''{'')) s of
           (found, s1) \<Rightarrow> if found then snd (rd (sf_CheckSymbol ''}'' True) s1) else s1)
      else
        (case rd (sf_ReadTo [CR, LF]) s of
           (found, s1) \<Rightarrow> if found then skip_spaces True s1 else s1))"

definition PreprocError2 :: "diag \<Rightarrow> string \<Rightarrow> string \<Rightarrow> bool \<Rightarrow> 'e dqs \<Rightarrow> 'e dqs" where
  "PreprocError2 e p1 p2 recover s =
     (let s1 = dq_Error e p1 p2 s in if recover then preproc_recover s1 else s1)"

definition FindDirectiveEnd :: "'e dqs \<Rightarrow> bool \<times> 'e dqs" where
  "FindDirectiveEnd s =
     (if d_brace s then
        (case rd (sf_CheckSymbol ''}'' True) (skip_spaces True s) of
           (True, s1) \<Rightarrow> (True, s1)
         | (False, s1) \<Rightarrow> (False, PreprocError2 CDIR_CLOSER_MISSING [] [] True s1))
      else
        (case rd (sf_ReadTo [CR, LF]) s of
           (found, s1) \<Rightarrow> (True, if found then skip_spaces True s1 else s1)))"

section \<open>Conditional compilation\<close>

definition new_cond :: "scpos \<Rightarrow> bool \<Rightarrow> scf_cond" where
  "new_cond startpos parent_inactive =
     \<lparr>c_state = FCOND_IF, c_parent_inactive = parent_inactive, c_branch_taken = False,
      c_startpos = startpos, c_elsepos = new_scpos\<rparr>"

definition StartConditionalBranch :: "'e dqs \<Rightarrow> 'e dqs" where
  "StartConditionalBranch s = s\<lparr>d_cond := new_cond (d_start s) (d_inactive s) # d_cond s\<rparr>"

definition ApplyConditionalResult :: "bool \<Rightarrow> 'e dqs \<Rightarrow> 'e dqs option" where
  "ApplyConditionalResult condition_true s =
     (if d_inactive s then Some s
      else if condition_true then
        (case d_cond s of
           [] \<Rightarrow> None
         | c # cs \<Rightarrow> Some (s\<lparr>d_cond := c\<lparr>c_branch_taken := True\<rparr> # cs\<rparr>))
      else Some (s\<lparr>d_inactive := True\<rparr>))"

text \<open>
  A directive in another file than its \<open>#if\<close> opens a conditional of its own, after the error.
\<close>

definition wrong_include :: "string \<Rightarrow> 'e dqs \<Rightarrow> 'e dqs" where
  "wrong_include directive s =
     (let s1 = PreprocError2 CDIR_COND_WRONG_INC directive ''#if'' True s
      in s1\<lparr>d_cond := new_cond (d_start s1) (d_inactive s1) # d_cond s1, d_inactive := True\<rparr>)"

definition set_cond :: "(scf_cond \<Rightarrow> scf_cond) \<Rightarrow> 'e dqs \<Rightarrow> 'e dqs" where
  "set_cond f s = s\<lparr>d_cond := (case d_cond s of [] \<Rightarrow> [] | c # cs \<Rightarrow> f c # cs)\<rparr>"

definition ContinueConditionalBranch :: "string \<Rightarrow> 'e dqs \<Rightarrow> bool \<times> 'e dqs" where
  "ContinueConditionalBranch directive s =
     (case d_cond s of
        [] \<Rightarrow> (False, (PreprocError2 CDIR_ELCOND_WITHOUT_IF directive [] True s)\<lparr>d_inactive := True\<rparr>)
      | c # _ \<Rightarrow>
          if c_state c = FCOND_ELSE then
            (False, (PreprocError2 CDIR_ELCOND_AFTER_ELSE_PREVPOS directive
               (scpos_Format (c_elsepos c)) True s)\<lparr>d_inactive := True\<rparr>)
          else
            let s1 = s\<lparr>d_inactive := c_parent_inactive c \<or> c_branch_taken c\<rparr>;
                s2 = (if pos_file (c_startpos c) \<noteq> sf_file (d_sf s1) then wrong_include directive s1 else s1);
                s3 = set_cond (c_state_update (\<lambda>_. FCOND_ELIF)) s2
            in (\<not> d_inactive s3, s3))"

text \<open>The symbol of \<open>#ifdef\<close> and its kind: success, name space, symbol.\<close>

definition ReadConditionalSymbol :: "string \<Rightarrow> 'e dqs \<Rightarrow> (bool \<times> string \<times> string) \<times> 'e dqs" where
  "ReadConditionalSymbol directive s =
     (case rd (sf_CheckSymbol ''@'' True) (skip_spaces True s) of
        (False, s1) \<Rightarrow>
          (case rd (sf_ReadIdentifier [] True) s1 of
             ((True, sy), s2) \<Rightarrow> ((True, [], sy), s2)
           | ((False, _), s2) \<Rightarrow> ((False, [], []), PreprocError2 CDIR_COND_ID_MISSING directive [] True s2))
      | (True, s1) \<Rightarrow>
          let symbol = (\<lambda>ns s. case rd (sf_ReadIdentifier [] True) s of
                ((True, sy), s') \<Rightarrow> ((True, ns, sy), s')
              | ((False, _), s') \<Rightarrow> ((False, ns, []), PreprocError2 ID_EXP_AFTER (''@'' @ ns) [] True s'))
          in (case rd (sf_CheckSymbol ''..'' True) s1 of
               (True, s2) \<Rightarrow> symbol ''..'' s2
             | (False, s2) \<Rightarrow>
          (case rd (sf_CheckSymbol ''.'' True) s2 of
             (True, s3) \<Rightarrow> symbol ''.'' s3
           | (False, s3) \<Rightarrow>
          (case rd (sf_ReadIdentifier [] True) s3 of
             ((False, _), s4) \<Rightarrow> ((False, [], []), PreprocError2 NS_NAME_EXPECTED [] [] True s4)
           | ((True, ns), s4) \<Rightarrow>
          (case rd (sf_CheckSymbol ''.'' True) s4 of
             (False, s5) \<Rightarrow> ((False, ns, []), PreprocError2 DOT_MISSING_AFTER_NS_NAME [] [] True s5)
           | (True, s5) \<Rightarrow> symbol ns s5)))))"

text \<open>The bodies of the directives, from the result of reading their condition on.\<close>

definition apply_defined :: "'e host \<Rightarrow> bool \<Rightarrow> string \<Rightarrow> string \<Rightarrow> 'e dqs \<Rightarrow> 'e dqs option" where
  "apply_defined h wanted ns sy s =
     (case h_defined h ns sy s of
        ((isdefined, condok), s1) \<Rightarrow>
          if condok then ApplyConditionalResult (wanted = isdefined) s1 else Some (s1\<lparr>d_inactive := True\<rparr>))"

definition cond_ifdef :: "'e host \<Rightarrow> string \<Rightarrow> bool \<Rightarrow> 'e dqs \<Rightarrow> 'e dqs option" where
  "cond_ifdef h aid wanted s =
     (case ReadConditionalSymbol (''#'' @ aid) (StartConditionalBranch s) of
        ((ok, ns, sy), s1) \<Rightarrow>
          if \<not> ok then Some (s1\<lparr>d_inactive := True\<rparr>)
          else if \<not> d_inactive s1 then apply_defined h wanted ns sy s1
          else Some s1)"

definition apply_condition :: "'e host \<Rightarrow> 'e dqs \<Rightarrow> 'e dqs option" where
  "apply_condition h s =
     (case h_condition h s of ((condval, condok), s1) \<Rightarrow> ApplyConditionalResult (condok \<and> condval) s1)"

definition cond_if :: "'e host \<Rightarrow> 'e dqs \<Rightarrow> 'e dqs option" where
  "cond_if h s =
     (let s1 = StartConditionalBranch s in if \<not> d_inactive s1 then apply_condition h s1 else Some s1)"

definition cond_endif :: "'e dqs \<Rightarrow> 'e dqs" where
  "cond_endif s =
     (case d_cond s of
        [] \<Rightarrow> PreprocError2 CDIR_ENDIF_WITHOUT_IF [] [] True s
      | c # cs \<Rightarrow>
          let s1 = (if pos_file (c_startpos c) \<noteq> sf_file (d_sf s)
                    then PreprocError2 CDIR_COND_WRONG_INC ''#endif'' ''#if'' True s else s)
          in s1\<lparr>d_inactive := c_parent_inactive c, d_cond := cs\<rparr>)"

definition cond_else :: "'e dqs \<Rightarrow> 'e dqs" where
  "cond_else s =
     (case d_cond s of
        [] \<Rightarrow> PreprocError2 CDIR_ELSE_WITHOUT_IF [] [] True s
      | c # _ \<Rightarrow>
          if c_state c = FCOND_ELSE
          then PreprocError2 CDIR_MULTIPLE_ELSE_PREVPOS (scpos_Format (c_elsepos c)) [] True s
          else
            let s1 = s\<lparr>d_inactive := c_parent_inactive c\<rparr>;
                s2 = (if pos_file (c_startpos c) \<noteq> sf_file (d_sf s1) then wrong_include ''#else'' s1 else s1);
                s3 = set_cond (\<lambda>c. c\<lparr>c_state := FCOND_ELSE, c_elsepos := d_start s2\<rparr>) s2;
                taken = (case d_cond s3 of [] \<Rightarrow> False | c # _ \<Rightarrow> c_branch_taken c)
            in if \<not> d_inactive s3 \<and> taken then s3\<lparr>d_inactive := True\<rparr> else s3)"

definition cond_elifdef :: "'e host \<Rightarrow> string \<Rightarrow> bool \<Rightarrow> 'e dqs \<Rightarrow> 'e dqs option" where
  "cond_elifdef h aid wanted s =
     (case ReadConditionalSymbol (''#'' @ aid) s of
        ((ok, ns, sy), s1) \<Rightarrow>
          case ContinueConditionalBranch (''#'' @ aid) s1 of
            (active, s2) \<Rightarrow>
              if \<not> ok then Some (s2\<lparr>d_inactive := True\<rparr>)
              else if active then apply_defined h wanted ns sy s2
              else Some s2)"

definition cond_elif :: "'e host \<Rightarrow> 'e dqs \<Rightarrow> 'e dqs option" where
  "cond_elif h s =
     (case ContinueConditionalBranch ''#elif'' s of
        (active, s1) \<Rightarrow> if active then apply_condition h s1 else Some s1)"

text \<open>\<open>CheckConditionals\<close>: whether the directive was one of them.\<close>

definition conditional :: "'e host \<Rightarrow> string \<Rightarrow> 'e dqs \<Rightarrow> 'e dqs option option" where
  "conditional h aid s =
     (if aid = ''ifdef'' then Some (cond_ifdef h aid True s)
      else if aid = ''ifndef'' then Some (cond_ifdef h aid False s)
      else if aid = ''if'' then Some (cond_if h s)
      else if aid = ''endif'' then Some (Some (cond_endif s))
      else if aid = ''else'' then Some (Some (cond_else s))
      else if aid = ''elifdef'' then Some (cond_elifdef h aid True s)
      else if aid = ''elifndef'' then Some (cond_elifdef h aid False s)
      else if aid = ''elif'' then Some (cond_elif h s)
      else None)"

definition CheckConditionals :: "'e host \<Rightarrow> string \<Rightarrow> 'e dqs \<Rightarrow> (bool \<times> 'e dqs) option" where
  "CheckConditionals h aid s =
     (case conditional h aid s of
        None \<Rightarrow> Some (False, s)
      | Some None \<Rightarrow> None
      | Some (Some s1) \<Rightarrow> Some (True, snd (FindDirectiveEnd s1)))"

section \<open>Files\<close>

definition starts_with :: "string \<Rightarrow> string \<Rightarrow> bool" where
  "starts_with s p \<longleftrightarrow> take (length p) s = p"

text \<open>\<open>LoadFile\<close>: a file that was loaded before counts one more use.\<close>

fun use_loaded :: "string \<Rightarrow> (scfile \<times> nat) list \<Rightarrow> (scfile \<times> (scfile \<times> nat) list) option" where
  "use_loaded full [] = None"
| "use_loaded full ((f, n) # fs) =
     (if sc_fullpath f = full then Some (f, (f, n + 1) # fs)
      else (case use_loaded full fs of None \<Rightarrow> None | Some (g, fs') \<Rightarrow> Some (g, (f, n) # fs')))"

definition LoadFile :: "'e host \<Rightarrow> string \<Rightarrow> 'e dqs \<Rightarrow> scfile option \<times> 'e dqs" where
  "LoadFile h filename s =
     (let full = h_abs h filename in
      case use_loaded full (d_files s) of
        Some (f, fs) \<Rightarrow> (Some f, s\<lparr>d_files := fs\<rparr>)
      | None \<Rightarrow>
          (case h_read h full of
             None \<Rightarrow> (None, s)
           | Some (body, time) \<Rightarrow>
               let f = \<lparr>sc_index = length (d_files s), sc_name = h_filename h full,
                        sc_fullpath = full, sc_time = time, sc_body = body\<rparr>
               in (Some f, s\<lparr>d_files := d_files s @ [(f, 1)]\<rparr>)))"

definition add_dep :: "srcdep \<Rightarrow> 'e dqs \<Rightarrow> 'e dqs" where
  "add_dep d s = s\<lparr>d_deps := d_deps s @ [d]\<rparr>"

definition has_dep :: "string \<Rightarrow> 'e dqs \<Rightarrow> bool" where
  "has_dep filename s \<longleftrightarrow> list_ex (\<lambda>d. dep_filename d = filename) (d_deps s)"

definition AddSourceDependencyPath :: "'e host \<Rightarrow> string \<Rightarrow> 'e dqs \<Rightarrow> bool \<times> 'e dqs" where
  "AddSourceDependencyPath h path s =
     (let filename = h_abs h path in
      if has_dep filename s then (True, s)
      else (case h_metadata h filename of
              None \<Rightarrow> (False, s)
            | Some (sz, time) \<Rightarrow>
                (True, add_dep \<lparr>dep_filename = filename, dep_filesize = sz, dep_filetime = time\<rparr> s)))"

definition AddSourceDependencyFile :: "'e host \<Rightarrow> scfile option \<Rightarrow> 'e dqs \<Rightarrow> bool \<times> 'e dqs" where
  "AddSourceDependencyFile h file s =
     (case file of
        None \<Rightarrow> (False, s)
      | Some f \<Rightarrow>
          let filename = h_normal h (sc_fullpath f) in
          if has_dep filename s then (True, s)
          else (True, add_dep \<lparr>dep_filename = filename, dep_filesize = length (sc_body f),
                               dep_filetime = sc_time f\<rparr> s))"

text \<open>\<open>ResolveSourcePath\<close>: relative to the file, to the module root, or on the package path.\<close>

definition ResolveSourcePath :: "'e host \<Rightarrow> string \<Rightarrow> 'e dqs \<Rightarrow> string option option" where
  "ResolveSourcePath h source s =
     (let beside = map_option (\<lambda>f. h_join h (h_parent h (sc_fullpath f)) source) (sf_file (d_sf s)) in
      if starts_with source ''./'' \<or> starts_with source ''../'' then
        map_option (\<lambda>c. Some (h_abs h c)) beside
      else if starts_with source ''^/'' then
        Some (map_option (\<lambda>root. h_abs h (h_join h root (drop 2 source))) (h_module_root h (d_main s)))
      else
        map_option (\<lambda>c.
          Some (h_abs h
            (if h_exists h c then c
             else (case find (h_exists h) (map (\<lambda>p. h_join h p source) (rev (h_packages h))) of
                     None \<Rightarrow> c | Some p \<Rightarrow> p)))) beside)"

definition IsDirectIncludeSource :: "'e dqs \<Rightarrow> bool" where
  "IsDirectIncludeSource s =
     (case sf_file (d_sf s) of
        None \<Rightarrow> False
      | Some f \<Rightarrow> sc_fullpath f = d_main s \<or> sc_fullpath f = d_header s)"

text \<open>\<open>Init\<close> and \<open>Reset\<close>.\<close>

definition dq_Reset :: "'e dqs \<Rightarrow> 'e dqs" where
  "dq_Reset s = s\<lparr>d_sf := sf_Reset (d_sf s), d_files := [], d_ret := [], d_deps := [], d_main := [],
     d_header := [], d_impl := False, d_asm := False\<rparr>"

definition dq_Init :: "'e host \<Rightarrow> string \<Rightarrow> 'e dqs \<Rightarrow> int \<times> 'e dqs" where
  "dq_Init h filename s =
     (let main = h_abs h filename;
          s1 = (dq_Reset s)\<lparr>d_main := main, d_header := h_header_of h main\<rparr>
      in case LoadFile h main s1 of
           (None, s2) \<Rightarrow> (1, upd_sf (\<lambda>sf. sf\<lparr>sf_file := None\<rparr>) s2)
         | (Some f, s2) \<Rightarrow>
             (case AddSourceDependencyFile h (Some f) s2 of
                (ok, s3) \<Rightarrow>
                  if \<not> ok then (1, upd_sf (\<lambda>sf. sf\<lparr>sf_file := Some f\<rparr>) s3)
                  else (0, upd_sf (SetCurPosFile (Some f) 0) s3)))"

section \<open>The other directives\<close>

definition fail_directive :: "diag \<Rightarrow> string \<Rightarrow> 'e dqs \<Rightarrow> 'e dqs" where
  "fail_directive e p1 s = PreprocError2 e p1 [] True s"

text \<open>\<open>int(value)\<close>: the low 32 bits.\<close>

definition to_int32 :: "int \<Rightarrow> int" where
  "to_int32 v = sint (word_of_int v :: 32 word)"

definition ParseDirectiveOpt :: "'e dqs \<Rightarrow> 'e dqs option" where
  "ParseDirectiveOpt s =
     (case rd (sf_ReadIdentifier [] True) (skip_spaces False s) of
        ((False, _), s1) \<Rightarrow> Some (fail_directive CDIR_OPT_SYNTAX [] s1)
      | ((True, optname), s1) \<Rightarrow>
          if optname \<noteq> ''module_root_depth'' then Some (fail_directive CDIR_OPT_UNKNOWN optname s1)
          else
      (case rd (sf_CheckSymbol ''='' True) (skip_spaces False s1) of
         (False, s2) \<Rightarrow> Some (fail_directive CDIR_OPT_SYNTAX [] s2)
       | (True, s2) \<Rightarrow>
      (let s3 = skip_spaces False s2 in
       case sf_ReadInt64Value 0 (d_sf s3) of
         None \<Rightarrow> None
       | Some ((ok, value), sf) \<Rightarrow>
           let s4 = s3\<lparr>d_sf := sf\<rparr> in
           if \<not> ok \<or> value < 0 then Some (fail_directive CDIR_OPT_SYNTAX [] s4)
           else (case FindDirectiveEnd s4 of
                   (False, s5) \<Rightarrow> Some s5
                 | (True, s5) \<Rightarrow> Some (s5\<lparr>d_root_depth := to_int32 value\<rparr>)))))"

definition ParseDirectiveDefine :: "'e host \<Rightarrow> 'e dqs \<Rightarrow> 'e dqs" where
  "ParseDirectiveDefine h s =
     (case rd (sf_ReadIdentifier [] True) (skip_spaces True s) of
        ((False, _), s1) \<Rightarrow> fail_directive CDIR_DEF_ID_MISSING [] s1
      | ((True, sid), s1) \<Rightarrow>
      (case rd (sf_CheckSymbol ''='' True) (skip_spaces False s1) of
         (True, s2) \<Rightarrow> snd (FindDirectiveEnd (h_define_const h sid s2))
       | (False, s2) \<Rightarrow>
      (case FindDirectiveEnd s2 of
         (False, s3) \<Rightarrow> s3
       | (True, s3) \<Rightarrow> s3\<lparr>d_env := h_define_true h sid (d_start s3) (d_env s3)\<rparr>)))"

definition IsValidLinkLibName :: "string \<Rightarrow> bool" where
  "IsValidLinkLibName name \<longleftrightarrow> name \<noteq> [] \<and>
     list_all (\<lambda>c. (CHR ''A'' \<le> c \<and> c \<le> CHR ''Z'') \<or> (CHR ''a'' \<le> c \<and> c \<le> CHR ''z'')
       \<or> (CHR ''0'' \<le> c \<and> c \<le> CHR ''9'') \<or> c = CHR ''_'' \<or> c = CHR ''-'' \<or> c = CHR ''.'' \<or> c = CHR ''+'') name"

definition ParseDirectiveLinkLib :: "'e dqs \<Rightarrow> 'e dqs" where
  "ParseDirectiveLinkLib s =
     (case rd (sf_CheckSymbol ''('' True) (skip_spaces False s) of
        (False, s1) \<Rightarrow> fail_directive CDIR_LINKLIB_SYNTAX [] s1
      | (True, s1) \<Rightarrow>
      (case rd (sf_ReadQuotedString []) (skip_spaces False s1) of
         ((False, _), s2) \<Rightarrow> fail_directive CDIR_LINKLIB_SYNTAX [] s2
       | ((True, libname), s2) \<Rightarrow>
      (case rd (sf_CheckSymbol '')'' True) (skip_spaces False s2) of
         (False, s3) \<Rightarrow> fail_directive CDIR_LINKLIB_SYNTAX [] s3
       | (True, s3) \<Rightarrow>
           if \<not> IsValidLinkLibName libname then fail_directive CDIR_LINKLIB_INVALID libname s3
           else (case FindDirectiveEnd s3 of
                   (False, s4) \<Rightarrow> s4
                 | (True, s4) \<Rightarrow>
                     if libname \<in> set (d_linklibs s4) then s4
                     else s4\<lparr>d_linklibs := d_linklibs s4 @ [libname]\<rparr>))))"

text \<open>What follows the file name of \<open>#include\<close>: loading the file and going to its start.\<close>

definition enter_include :: "'e host \<Rightarrow> string \<Rightarrow> string \<Rightarrow> bool \<Rightarrow> 'e dqs \<Rightarrow> 'e dqs" where
  "enter_include h path sfname include_header s =
     (let track = \<not> d_impl s \<and> (include_header \<or> IsDirectIncludeSource s) in
      case LoadFile h path s of
        (None, s1) \<Rightarrow> fail_directive CDIR_INC_LOADING sfname s1
      | (Some f, s1) \<Rightarrow>
          (case (if track then AddSourceDependencyFile h (Some f) s1 else (True, s1)) of
             (False, s2) \<Rightarrow> fail_directive CDIR_INC_LOADING sfname s2
           | (True, s2) \<Rightarrow>
               upd_sf (SetCurPosFile (Some f) 0) (s2\<lparr>d_ret := SaveCurPos (d_sf s2) # d_ret s2\<rparr>)))"

definition ParseDirectiveInclude :: "'e host \<Rightarrow> 'e dqs \<Rightarrow> 'e dqs option" where
  "ParseDirectiveInclude h s =
     (case rd (sf_ReadIdentifier [] False) (skip_spaces False s) of
        ((True, kind), s1) \<Rightarrow>
          if kind \<noteq> ''header'' then Some (fail_directive CDIR_INC_FN_MISSING [] s1)
          else (case FindDirectiveEnd (snd (rd (sf_ReadIdentifier kind True) s1)) of
                  (False, s2) \<Rightarrow> Some s2
                | (True, s2) \<Rightarrow>
                    (if d_impl s2 then Some (PreprocError2 CDIR_INC_HEADER_INVALID [] [] False s2)
                     else (case sf_file (d_sf s2) of
                             None \<Rightarrow> None
                           | Some f \<Rightarrow> Some
                               (if h_is_header h (sc_fullpath f)
                                then PreprocError2 CDIR_INC_HEADER_INVALID [] [] False s2
                                else enter_include h (d_header s2) (d_header s2) True s2))))
      | ((False, _), s1) \<Rightarrow>
          (case rd (sf_ReadQuotedString []) s1 of
             ((False, _), s2) \<Rightarrow> Some (fail_directive CDIR_INC_FN_MISSING [] s2)
           | ((True, sfname), s2) \<Rightarrow>
               (case FindDirectiveEnd s2 of
                  (False, s3) \<Rightarrow> Some s3
                | (True, s3) \<Rightarrow>
                    (case ResolveSourcePath h sfname s3 of
                       None \<Rightarrow> None
                     | Some None \<Rightarrow> Some (fail_directive CDIR_INC_LOADING sfname s3)
                     | Some (Some path) \<Rightarrow> Some (enter_include h path sfname False s3)))))"

definition ParseDirectiveSourceDependency :: "'e host \<Rightarrow> 'e dqs \<Rightarrow> 'e dqs option" where
  "ParseDirectiveSourceDependency h s =
     (case rd (sf_ReadQuotedString []) (skip_spaces False s) of
        ((False, _), s1) \<Rightarrow> Some (fail_directive CDIR_SRCDEP_SYNTAX [] s1)
      | ((True, source), s1) \<Rightarrow>
          (case FindDirectiveEnd s1 of
             (False, s2) \<Rightarrow> Some s2
           | (True, s2) \<Rightarrow>
               if d_impl s2 then Some (PreprocError2 CDIR_SRCDEP_PLACEMENT [] [] False s2)
               else (case ResolveSourcePath h source s2 of
                       None \<Rightarrow> None
                     | Some None \<Rightarrow> Some (PreprocError2 CDIR_SRCDEP_LOADING source [] False s2)
                     | Some (Some path) \<Rightarrow>
                         (case AddSourceDependencyPath h path s2 of
                            (True, s3) \<Rightarrow> Some s3
                          | (False, s3) \<Rightarrow> Some (PreprocError2 CDIR_SRCDEP_LOADING source [] False s3)))))"

text \<open>\<open>#include_once\<close> leaves a file that is used again.\<close>

definition usagecount :: "scfile \<Rightarrow> 'e dqs \<Rightarrow> nat" where
  "usagecount f s = (case find (\<lambda>(g, _). g = f) (d_files s) of None \<Rightarrow> 1 | Some (_, n) \<Rightarrow> n)"

definition ParseIncludeOnce :: "'e dqs \<Rightarrow> 'e dqs option" where
  "ParseIncludeOnce s =
     (let s1 = snd (FindDirectiveEnd s) in
      case sf_file (d_sf s1) of
        None \<Rightarrow> None
      | Some f \<Rightarrow> Some (if usagecount f s1 > 1 then upd_sf (\<lambda>sf. sf\<lparr>sf_cur := sf_end sf\<rparr>) s1 else s1))"

definition run_directive :: "'e host \<Rightarrow> string \<Rightarrow> 'e dqs \<Rightarrow> 'e dqs option" where
  "run_directive h sid s =
     (if d_inactive s then Some (snd (FindDirectiveEnd s))
      else if sid = ''define'' then Some (ParseDirectiveDefine h s)
      else if sid = ''include'' then ParseDirectiveInclude h s
      else if sid = ''srcdep'' then ParseDirectiveSourceDependency h s
      else if sid = ''linklib'' then Some (ParseDirectiveLinkLib s)
      else if sid = ''opt'' then ParseDirectiveOpt s
      else if sid = ''include_once'' then ParseIncludeOnce s
      else Some (fail_directive CDIR_UNKNOWN sid s))"

definition ParseDirective :: "'e host \<Rightarrow> 'e dqs \<Rightarrow> 'e dqs option" where
  "ParseDirective h s =
     (let s1 = skip_spaces False (s\<lparr>d_start := sf_prevpos (d_sf s)\<rparr>);
          s2 = (case rd (sf_CheckSymbol ''{'' True) s1 of
                  (True, s') \<Rightarrow> skip_spaces False (s'\<lparr>d_brace := True\<rparr>)
                | (False, s') \<Rightarrow> s'\<lparr>d_brace := False\<rparr>)
      in case rd (sf_ReadIdentifier [] True) s2 of
           ((False, _), s3) \<Rightarrow> Some (fail_directive CDIR_KW_MISSING [] s3)
         | ((True, sid), s3) \<Rightarrow>
             (case CheckConditionals h sid s3 of
                None \<Rightarrow> None
              | Some (True, s4) \<Rightarrow> Some s4
              | Some (False, s4) \<Rightarrow> run_directive h sid s4))"

section \<open>White space\<close>

definition set_lastline :: "int \<Rightarrow> 'e dqs \<Rightarrow> 'e dqs" where
  "set_lastline l s = upd_sf (\<lambda>sf. sf\<lparr>sf_lastline := l\<rparr>) s"

definition skip_block_comment :: "feeder \<Rightarrow> feeder" where
  "skip_block_comment sf =
     (case sf_SearchPattern ''*/'' True sf of
        (True, sf1) \<Rightarrow> sf1
      | (False, sf1) \<Rightarrow> RecalcCurLineCol (sf1\<lparr>sf_cur := sf_end sf1\<rparr>))"

text \<open>One pass of the loop of \<open>SkipWhite\<close>: \<open>Inl\<close> returns, \<open>Inr\<close> goes on.\<close>

definition SkipWhite_pass :: "'e host \<Rightarrow> bool \<Rightarrow> 'e dqs \<Rightarrow> ('e dqs + 'e dqs) option" where
  "SkipWhite_pass h lookahead s =
     (let s1 = skip_spaces (\<not> d_expr s) s; last = sf_lastline (d_sf s1) in
      if d_cur s1 \<ge> d_end s1 then Some (Inr s1)
      else if lookahead \<and> sf_line (d_sf s1) > last \<and> d_buf s1 ! d_cur s1 = CHR ''#''
              \<and> (d_cur s1 + 1 \<ge> d_end s1 \<or> d_buf s1 ! (d_cur s1 + 1) \<noteq> CHR ''{'') then Some (Inl s1)
      else (case rd (sf_CheckSymbol ''//'' True) s1 of
        (True, s2) \<Rightarrow> Some (Inr (set_lastline last (snd (rd (sf_ReadTo [LF, CR]) s2))))
      | (False, s2) \<Rightarrow>
      (case rd (sf_CheckSymbol ''/*'' True) s2 of
        (True, s3) \<Rightarrow> Some (Inr (set_lastline last (upd_sf skip_block_comment s3)))
      | (False, s3) \<Rightarrow>
      if d_expr s3 then Some (Inl s3)
      else (case rd (sf_CheckSymbol ''#'' True) s3 of
        (True, s4) \<Rightarrow>
          (case ParseDirective h s4 of
             None \<Rightarrow> None
           | Some s5 \<Rightarrow> Some (Inr (s5\<lparr>d_brace := d_brace s4\<rparr>)))
      | (False, s4) \<Rightarrow>
          if \<not> d_inactive s4 then Some (Inl s4)
          else Some (Inr (upd_sf RecalcCurCol
            (upd_sf (if d_asm s4 then SkipInactiveAsmCode else SkipInactiveCode) s4)))))))"

text \<open>
  Going back behind the \<open>#include\<close> of a file that ended: the line break of the directive
  separates the included text from what follows.
\<close>

definition return_from_include :: "'e dqs \<Rightarrow> 'e dqs option" where
  "return_from_include s =
     (case d_ret s of
        [] \<Rightarrow> Some s
      | rpos # ret \<Rightarrow>
          map_option (\<lambda>sf. s\<lparr>d_ret := ret, d_sf := sf\<lparr>sf_lastline := max 0 (sf_line sf - 1)\<rparr>\<rparr>)
            (SetCurPos rpos (d_sf s)))"

text \<open>
  \<open>SkipWhite\<close> need not end, for a file that includes itself without a condition: \<open>None\<close>.
\<close>

partial_function (option) SkipWhite :: "'e host \<Rightarrow> bool \<Rightarrow> 'e dqs \<Rightarrow> 'e dqs option" where
  "SkipWhite h lookahead s =
     (if d_cur s < d_end s then
        Option.bind (SkipWhite_pass h lookahead s)
          (\<lambda>r. case r of Inl s' \<Rightarrow> Some s' | Inr s' \<Rightarrow> SkipWhite h lookahead s')
      else if \<not> d_expr s \<and> d_ret s \<noteq> [] then
        Option.bind (return_from_include s) (SkipWhite h lookahead)
      else Some s)"

declare SkipWhite.simps [code]

definition dq_Eof :: "'e dqs \<Rightarrow> bool" where
  "dq_Eof s \<longleftrightarrow> d_cur s \<ge> d_end s \<and> d_ret s = []"

definition SetDirectiveExprMode :: "bool \<Rightarrow> 'e dqs \<Rightarrow> 'e dqs" where
  "SetDirectiveExprMode b s = s\<lparr>d_expr := b\<rparr>"

definition SetAsmMode :: "bool \<Rightarrow> 'e dqs \<Rightarrow> 'e dqs" where
  "SetAsmMode b s = s\<lparr>d_asm := b\<rparr>"

definition EnterImplementationSection :: "'e dqs \<Rightarrow> 'e dqs" where
  "EnterImplementationSection s = s\<lparr>d_impl := True\<rparr>"

end
