(* ===== verification/Dq_Text.thy ===== *)
theory Dq_Text
  imports Scf_Dq
begin

text \<open>
  The reading operations of the feeder as operations on the text that is left, for proofs about
  whole directives and whole files.
\<close>

definition sf_rest :: "feeder \<Rightarrow> string" where
  "sf_rest s = drop (sf_cur s) (sf_buf s)"

text \<open>What reading leaves alone: the file; the position stays inside it.\<close>

definition sf_same :: "feeder \<Rightarrow> feeder \<Rightarrow> bool" where
  "sf_same s s' \<longleftrightarrow> sf_inv s' \<and> sf_file s' = sf_file s"

lemma sf_same_refl: "sf_inv s \<Longrightarrow> sf_same s s"
  by (simp add: sf_same_def)

lemma sf_same_trans: "sf_same s s1 \<Longrightarrow> sf_same s1 s2 \<Longrightarrow> sf_same s s2"
  by (simp add: sf_same_def)

lemma sf_same_inv: "sf_same s s' \<Longrightarrow> sf_inv s'"
  by (simp add: sf_same_def)

lemma rest_nil: "sf_inv s \<Longrightarrow> sf_rest s = [] \<longleftrightarrow> sf_cur s = sf_end s"
  by (auto simp: sf_rest_def sf_inv_def)

lemma rest_Cons: "sf_rest s = c # r \<Longrightarrow> sf_cur s < sf_end s \<and> sf_buf s ! sf_cur s = c"
  by (simp add: sf_rest_def) (blast dest: drop_ConsD)

text \<open>Moving the position through the text that is left.\<close>

lemma sf_move:
  assumes "sf_file s' = sf_file s" and "sf_cur s' = sf_cur s + n" and "n \<le> length (sf_rest s)" and "sf_inv s"
  shows "sf_same s s' \<and> sf_rest s' = drop n (sf_rest s)"
proof -
  have "sf_buf s' = sf_buf s" using assms(1) by (simp add: sf_buf_def)
  with assms show ?thesis by (auto simp: sf_same_def sf_rest_def sf_inv_def add.commute)
qed

lemma scan_rest:
  "sf_inv s \<Longrightarrow> scan_while P (sf_buf s) (sf_cur s) = sf_cur s + run_length P (sf_rest s)"
  by (simp add: scan_while_eq sf_rest_def sf_inv_def)

lemma drop_run: "drop (run_length P xs) xs = dropWhile P xs"
  by (simp add: dropWhile_eq_drop)

lemma sf_scanned:
  assumes "sf_inv s" and "sf_file s' = sf_file s" and "sf_cur s' = scan_while P (sf_buf s) (sf_cur s)"
  shows "sf_same s s' \<and> sf_rest s' = dropWhile P (sf_rest s)"
  using sf_move [OF assms(2), of "run_length P (sf_rest s)"] assms scan_rest [OF assms(1), of P]
  by (simp add: run_length_le drop_run)

lemma SkipSpaces_rest:
  assumes "sf_inv s"
  shows "sf_same s (snd (sf_SkipSpaces b s)) \<and> sf_rest (snd (sf_SkipSpaces b s)) = dropWhile (is_blank b) (sf_rest s)"
  using track_while_scan [of "is_blank b" "sf_buf s" "sf_cur s" "sf_line s" "sf_clstart s"]
  by (intro sf_scanned [OF assms]) (auto simp: sf_SkipSpaces_def split: prod.splits)

lemma ReadTo_rest:
  assumes "sf_inv s" and "sf_ReadTo cs s = (found, s')"
  shows "sf_same s s' \<and> sf_rest s' = dropWhile (\<lambda>c. c \<notin> set cs) (sf_rest s) \<and> (found \<longleftrightarrow> sf_rest s' \<noteq> [])"
proof -
  have "sf_same s s' \<and> sf_rest s' = dropWhile (\<lambda>c. c \<notin> set cs) (sf_rest s)"
    using track_while_scan [of "\<lambda>c. c \<notin> set cs" "sf_buf s" "sf_cur s" "sf_line s" "sf_clstart s"] assms(2)
    by (intro sf_scanned [OF assms(1)]) (auto simp: sf_ReadTo_def Let_def split: prod.splits if_splits)
  moreover have "found \<longleftrightarrow> sf_cur s' < sf_end s'"
    using assms(2) by (auto simp: sf_ReadTo_def Let_def split: prod.splits if_splits)
  ultimately show ?thesis using rest_nil [OF sf_same_inv, of s s'] by (auto simp: sf_same_def sf_inv_def)
qed

lemma CheckSymbol_rest:
  assumes "sf_inv s" and "sf_CheckSymbol cs consume s = (found, s')"
  shows "sf_same s s' \<and> (found \<longleftrightarrow> (\<exists>r. sf_rest s = cs @ r))
    \<and> sf_rest s' = (if found \<and> consume then drop (length cs) (sf_rest s) else sf_rest s)"
proof -
  obtain left p where c: "check_loop cs (sf_buf s) (sf_cur s) = (left, p)" by fastforce
  have cur: "sf_cur s \<le> sf_end s" using assms(1) by (simp add: sf_inv_def)
  from check_loop_eq [OF cur, of cs] c have
    m: "left = [] \<longleftrightarrow> (\<exists>r. sf_rest s = cs @ r)" "left = [] \<Longrightarrow> p = sf_cur s + length cs"
    by (auto simp: sf_rest_def)
  have found: "found \<longleftrightarrow> left = []"
    using assms(2) c by (auto simp: sf_CheckSymbol_def Let_def split: if_splits)
  have samef: "sf_file s' = sf_file s"
    using assms(2) c by (auto simp: sf_CheckSymbol_def Let_def split: if_splits)
  have cur': "sf_cur s' = sf_cur s + (if found \<and> consume then length cs else 0)"
    using assms(2) c m(2) found by (auto simp: sf_CheckSymbol_def Let_def split: if_splits)
  have "(if found \<and> consume then length cs else 0) \<le> length (sf_rest s)" using m(1) found by auto
  from sf_move [OF samef cur' this assms(1)] show ?thesis using m(1) found by auto
qed

text \<open>An identifier and what may not follow it.\<close>

abbreviation id_char :: "char \<Rightarrow> bool" where "id_char c \<equiv> is_alpha_under c \<or> is_dec c"

definition ident :: "string \<Rightarrow> bool" where
  "ident w \<longleftrightarrow> w \<noteq> [] \<and> is_alpha_under (hd w) \<and> list_all id_char w"

definition id_ends :: "string \<Rightarrow> bool" where
  "id_ends r \<longleftrightarrow> r = [] \<or> \<not> id_char (hd r)"

lemma takeWhile_id: "list_all P w \<Longrightarrow> r = [] \<or> \<not> P (hd r) \<Longrightarrow> takeWhile P (w @ r) = w"
  by (induction w) (cases r, auto)

lemma ReadIdentifier_rest:
  assumes "sf_inv s" and "sf_rest s = w @ r" and "ident w" and "id_ends r"
  shows "\<exists>s'. sf_ReadIdentifier v consume s = ((True, w), s') \<and> sf_same s s'
    \<and> sf_rest s' = (if consume then r else w @ r)"
proof -
  let ?P = "\<lambda>c. is_alpha_under c \<or> is_dec c"
  obtain c w' where w: "w = c # w'" using assms(3) by (cases w) (auto simp: ident_def)
  have at: "sf_cur s < sf_end s" "sf_buf s ! sf_cur s = c"
    using rest_Cons [of s c "w' @ r"] assms(2) w by simp_all
  have alpha: "is_alpha_under c" using assms(3) w by (simp add: ident_def)
  have "drop (Suc (sf_cur s)) (sf_buf s) = w' @ r"
    using drop_ConsD [of "sf_cur s" "sf_buf s" c "w' @ r"] assms(2) w by (simp add: sf_rest_def)
  then have scan: "scan_while ?P (sf_buf s) (Suc (sf_cur s)) = sf_cur s + length w"
    using at scan_while_eq [of "Suc (sf_cur s)" "sf_buf s" ?P] takeWhile_id [of ?P w' r] assms(3,4) w
    by (simp add: ident_def id_ends_def)
  have tk: "take (length w) (drop (sf_cur s) (sf_buf s)) = w"
    using assms(2) by (simp add: sf_rest_def)
  let ?s' = "snd (sf_ReadIdentifier v consume s)"
  have "fst (sf_ReadIdentifier v consume s) = (True, w)"
    using at alpha scan tk w by (simp add: sf_ReadIdentifier_def Let_def)
  moreover have "sf_file ?s' = sf_file s" "sf_cur ?s' = sf_cur s + (if consume then length w else 0)"
    using at alpha scan w by (simp_all add: sf_ReadIdentifier_def Let_def)
  moreover have "(if consume then length w else 0) \<le> length (sf_rest s)" using assms(2) by simp
  ultimately have "sf_same s ?s' \<and> sf_rest ?s' = (if consume then r else w @ r)"
    using sf_move [of ?s' s _, OF _ _ _ assms(1)] assms(2) by auto
  with \<open>fst _ = _\<close> show ?thesis by (metis prod.collapse)
qed

section \<open>The same on the whole state\<close>

definition text_at :: "'e dqs \<Rightarrow> string \<Rightarrow> bool" where
  "text_at s r \<longleftrightarrow> sf_inv (d_sf s) \<and> sf_rest (d_sf s) = r"

text \<open>Only the feeder moved, in the same file.\<close>

definition moved :: "'e dqs \<Rightarrow> 'e dqs \<Rightarrow> bool" where
  "moved s s' \<longleftrightarrow> s' = s\<lparr>d_sf := d_sf s'\<rparr> \<and> sf_file (d_sf s') = sf_file (d_sf s)"

lemma moved_refl [simp]: "moved s s"
  by (simp add: moved_def)

lemma moved_trans: "moved s s1 \<Longrightarrow> moved s1 s2 \<Longrightarrow> moved s s2"
  unfolding moved_def by (cases s; cases s1; cases s2) simp

lemma moved_fields:
  assumes "moved s s'"
  shows "d_ret s' = d_ret s" "d_start s' = d_start s" "d_cond s' = d_cond s" "d_inactive s' = d_inactive s"
    "d_brace s' = d_brace s" "d_expr s' = d_expr s" "d_asm s' = d_asm s" "sf_file (d_sf s') = sf_file (d_sf s)"
    "d_errors s' = d_errors s"
  using assms unfolding moved_def by (cases s; cases s'; simp)+

lemma rd_eq: "rd f s = (fst (f (d_sf s)), s\<lparr>d_sf := snd (f (d_sf s))\<rparr>)"
  by (simp add: rd_def split: prod.splits)

lemma rdI:
  assumes "fst (f (d_sf s)) = x" and "sf_same (d_sf s) (snd (f (d_sf s)))" and "sf_rest (snd (f (d_sf s))) = r"
  shows "\<exists>s'. rd f s = (x, s') \<and> moved s s' \<and> text_at s' r"
  using assms by (auto simp: rd_eq moved_def text_at_def sf_same_def)

lemma skip_spaces_at:
  assumes "text_at s r"
  shows "moved s (skip_spaces b s) \<and> text_at (skip_spaces b s) (dropWhile (is_blank b) r)"
  using SkipSpaces_rest [of "d_sf s" b] assms by (simp add: text_at_def moved_def rd_eq sf_same_def)

lemma symbol_at:
  "text_at s (cs @ r) \<Longrightarrow> \<exists>s'. rd (sf_CheckSymbol cs True) s = (True, s') \<and> moved s s' \<and> text_at s' r"
  using CheckSymbol_rest [OF _ prod.collapse [symmetric], of "d_sf s" cs True]
  by (intro rdI) (auto simp: text_at_def)

lemma no_symbol_at:
  "text_at s r \<Longrightarrow> \<nexists>r'. r = cs @ r' \<Longrightarrow>
     \<exists>s'. rd (sf_CheckSymbol cs b) s = (False, s') \<and> moved s s' \<and> text_at s' r"
  using CheckSymbol_rest [OF _ prod.collapse [symmetric], of "d_sf s" cs b]
  by (intro rdI) (auto simp: text_at_def)

lemma ident_at:
  assumes "text_at s (w @ r)" and "ident w" and "id_ends r"
  shows "\<exists>s'. rd (sf_ReadIdentifier v True) s = ((True, w), s') \<and> moved s s' \<and> text_at s' r"
proof -
  from assms obtain sf' where "sf_ReadIdentifier v True (d_sf s) = ((True, w), sf')"
      "sf_same (d_sf s) sf'" "sf_rest sf' = r"
    using ReadIdentifier_rest [of "d_sf s" w r v True] by (auto simp: text_at_def)
  then show ?thesis by (intro rdI) simp_all
qed

lemma read_to_at:
  assumes "text_at s r"
  shows "\<exists>s'. rd (sf_ReadTo cs) s = (dropWhile (\<lambda>c. c \<notin> set cs) r \<noteq> [], s') \<and> moved s s'
    \<and> text_at s' (dropWhile (\<lambda>c. c \<notin> set cs) r)"
  using ReadTo_rest [OF _ prod.collapse [symmetric], of "d_sf s" cs] assms
  by (intro rdI) (auto simp: text_at_def)

lemma text_at_cur: "text_at s r \<Longrightarrow> r \<noteq> [] \<Longrightarrow> d_cur s < d_end s"
  using rest_nil [of "d_sf s"] by (auto simp: text_at_def sf_inv_def)

text \<open>Skipping white space first changes nothing.\<close>

lemma skip_spaces_idem:
  assumes "text_at s r"
  shows "skip_spaces b (skip_spaces b s) = skip_spaces b s"
proof -
  obtain p l ls where t: "track_while (is_blank b) (d_buf s) (d_cur s) (sf_line (d_sf s)) (sf_clstart (d_sf s)) = (p, l, ls)"
    by (metis prod_cases3)
  have "p = scan_while (is_blank b) (d_buf s) (d_cur s)"
    using track_while_scan [of "is_blank b" "d_buf s" "d_cur s"] t by (metis fst_conv)
  then have "\<not> (p < d_end s \<and> is_blank b (d_buf s ! p))" using scan_while_stop by metis
  then have "track_while (is_blank b) (d_buf s) p l ls = (p, l, ls)"
    by (auto simp: track_while.simps [of "is_blank b" "d_buf s" p])
  with t show ?thesis by (simp add: rd_eq sf_SkipSpaces_def RecalcCurCol_def)
qed

text \<open>The end of a directive that ends with its line.\<close>

lemma directive_line_end:
  assumes "text_at s (LF # r)" and "\<not> d_brace s"
  shows "\<exists>s'. FindDirectiveEnd s = (True, s') \<and> moved s s' \<and> text_at s' (dropWhile (is_blank True) r)"
proof -
  obtain s1 where s1: "rd (sf_ReadTo [CR, LF]) s = (True, s1)" "moved s s1" "text_at s1 (LF # r)"
    using read_to_at [OF assms(1), of "[CR, LF]"] by auto
  from skip_spaces_at [OF s1(3), of True] have "moved s1 (skip_spaces True s1)"
    "text_at (skip_spaces True s1) (dropWhile (is_blank True) r)" by (simp_all add: is_blank_def)
  with s1 assms(2) moved_trans [OF s1(2)] show ?thesis by (auto simp: FindDirectiveEnd_def)
qed

text \<open>The start of a directive, up to its keyword.\<close>

lemma no_blank_ident: "ident w \<Longrightarrow> dropWhile (is_blank b) (w @ r) = w @ r"
  by (cases w) (auto simp: ident_def is_blank_def is_alpha_under_def less_eq_char_def)

lemma ident_not_symbol: "ident w \<Longrightarrow> cs \<noteq> [] \<Longrightarrow> \<not> is_alpha_under (hd cs) \<Longrightarrow> \<nexists>r'. w @ r = cs @ r'"
  by (cases w; cases cs) (auto simp: ident_def)

lemma ParseDirective_line:
  assumes "text_at s (kw @ r)" and "ident kw" and "id_ends r"
  shows "\<exists>s1. ParseDirective h s = (case CheckConditionals h kw s1 of
       None \<Rightarrow> None | Some (True, s2) \<Rightarrow> Some s2 | Some (False, s2) \<Rightarrow> run_directive h kw s2)
     \<and> text_at s1 r \<and> moved (s\<lparr>d_start := sf_prevpos (d_sf s), d_brace := False\<rparr>) s1"
proof -
  let ?s0 = "s\<lparr>d_start := sf_prevpos (d_sf s)\<rparr>"
  have "text_at ?s0 (kw @ r)" using assms(1) by (simp add: text_at_def)
  from skip_spaces_at [OF this, of False] no_blank_ident [OF assms(2), of False r]
  have s1: "moved ?s0 (skip_spaces False ?s0)" "text_at (skip_spaces False ?s0) (kw @ r)" by simp_all
  obtain s2 where s2: "rd (sf_CheckSymbol ''{'' True) (skip_spaces False ?s0) = (False, s2)"
      "moved (skip_spaces False ?s0) s2" "text_at s2 (kw @ r)"
    using no_symbol_at [OF s1(2), of "''{''" True] ident_not_symbol [OF assms(2), of "''{''" r]
    by (auto simp: is_alpha_under_def less_eq_char_def)
  let ?s3 = "s2\<lparr>d_brace := False\<rparr>"
  have "text_at ?s3 (kw @ r)" using s2(3) by (simp add: text_at_def)
  from ident_at [OF this assms(2,3), of "[]"] obtain s4 where
    s4: "rd (sf_ReadIdentifier [] True) ?s3 = ((True, kw), s4)" "moved ?s3 s4" "text_at s4 r" by blast
  have "moved ?s0 s2" using moved_trans [OF s1(1) s2(2)] .
  then have "moved (s\<lparr>d_start := sf_prevpos (d_sf s), d_brace := False\<rparr>) ?s3"
    unfolding moved_def by (cases s; cases s2) simp
  from moved_trans [OF this s4(2)] s2(1) s4(1,3) show ?thesis
    by (intro exI [of _ s4]) (simp add: ParseDirective_def Let_def)
qed

end
