(* ===== verification/Dq_Cond.thy ===== *)
theory Dq_Cond
  imports Dq_Text
begin

text \<open>
  Conditional compilation as it is meant: a source text with nested \<open>#ifdef\<close> groups has as its
  words those of the branches chosen. The feeder, going through the text directive by directive,
  is shown to give exactly these words.
\<close>

section \<open>Sources with conditional groups\<close>

text \<open>
  \<open>Group b x p t q\<close>: \<open>#ifdef x\<close> (or \<open>#ifndef x\<close> for \<open>b\<close> false), the body \<open>p\<close>, the other branches
  \<open>t\<close>, and the source \<open>q\<close> behind the group.
\<close>

datatype src = Done | Word string src | Group bool string src branches src
  and branches = Endif | Else src | Elif bool string src branches

text \<open>The words of a source where the symbols of \<open>D\<close> are defined.\<close>

primrec active :: "(string \<Rightarrow> bool) \<Rightarrow> src \<Rightarrow> string list"
  and active_branch :: "(string \<Rightarrow> bool) \<Rightarrow> branches \<Rightarrow> string list" where
  "active D Done = []"
| "active D (Word w p) = w # active D p"
| "active D (Group b x p t q) = (if D x = b then active D p else active_branch D t) @ active D q"
| "active_branch D Endif = []"
| "active_branch D (Else p) = active D p"
| "active_branch D (Elif b x p t) = (if D x = b then active D p else active_branch D t)"

definition dir_line :: "string \<Rightarrow> string \<Rightarrow> string" where
  "dir_line kw x = ''#'' @ kw @ '' '' @ x @ [LF]"

primrec src_text :: "src \<Rightarrow> string" and branch_text :: "branches \<Rightarrow> string" where
  "src_text Done = []"
| "src_text (Word w p) = w @ LF # src_text p"
| "src_text (Group b x p t q) = dir_line (if b then ''ifdef'' else ''ifndef'') x @ src_text p @ branch_text t @ src_text q"
| "branch_text Endif = ''#endif'' @ [LF]"
| "branch_text (Else p) = ''#else'' @ LF # src_text p @ ''#endif'' @ [LF]"
| "branch_text (Elif b x p t) = dir_line (if b then ''elifdef'' else ''elifndef'') x @ src_text p @ branch_text t"

primrec src_ok :: "src \<Rightarrow> bool" and branch_ok :: "branches \<Rightarrow> bool" where
  "src_ok Done = True"
| "src_ok (Word w p) = (ident w \<and> src_ok p)"
| "src_ok (Group b x p t q) = (ident x \<and> src_ok p \<and> branch_ok t \<and> src_ok q)"
| "branch_ok Endif = True"
| "branch_ok (Else p) = src_ok p"
| "branch_ok (Elif b x p t) = (ident x \<and> src_ok p \<and> branch_ok t)"

text \<open>A client that reads word by word: \<open>SkipWhite\<close>, then an identifier, to the end.\<close>

primrec read_words :: "nat \<Rightarrow> 'e host \<Rightarrow> 'e dqs \<Rightarrow> string list option" where
  "read_words 0 h s = None"
| "read_words (Suc n) h s =
     (case SkipWhite h False s of
        None \<Rightarrow> None
      | Some s1 \<Rightarrow>
          if dq_Eof s1 then Some []
          else (case rd (sf_ReadIdentifier [] True) s1 of
                  ((ok, w), s2) \<Rightarrow> if ok then map_option ((#) w) (read_words n h s2) else None))"

section \<open>The directives on the text\<close>

text \<open>Only the feeder, the start of the directive, the closer and the conditionals changed.\<close>

definition ctl :: "'e dqs \<Rightarrow> scf_cond list \<Rightarrow> bool \<Rightarrow> 'e dqs \<Rightarrow> bool" where
  "ctl s cs i s' \<longleftrightarrow>
     s' = s\<lparr>d_sf := d_sf s', d_start := d_start s', d_brace := d_brace s', d_cond := cs, d_inactive := i\<rparr>
     \<and> sf_file (d_sf s') = sf_file (d_sf s)"

lemma ctl_fields:
  assumes "ctl s cs i s'"
  shows "d_cond s' = cs" "d_inactive s' = i" "d_expr s' = d_expr s" "d_ret s' = d_ret s" "d_asm s' = d_asm s"
    "sf_file (d_sf s') = sf_file (d_sf s)" "d_errors s' = d_errors s"
  using assms unfolding ctl_def by (cases s; cases s'; simp)+

lemma ctl_trans: "ctl s cs i s1 \<Longrightarrow> ctl s1 cs' i' s2 \<Longrightarrow> ctl s cs' i' s2"
  unfolding ctl_def by (cases s; cases s1; cases s2) simp

lemma ctl_moved: "moved s s' \<Longrightarrow> ctl s (d_cond s) (d_inactive s) s'"
  unfolding ctl_def moved_def by (cases s; cases s') simp

lemma ctl_move: "ctl s cs i s1 \<Longrightarrow> moved s1 s2 \<Longrightarrow> ctl s cs i s2"
  unfolding ctl_def moved_def by (cases s; cases s1; cases s2) simp

lemma ctl_updates:
  "ctl s cs i s' \<Longrightarrow> ctl s cs i (s'\<lparr>d_brace := b\<rparr>)"
  "ctl s cs i s' \<Longrightarrow> ctl s cs i (s'\<lparr>d_start := p\<rparr>)"
  "ctl s cs i s' \<Longrightarrow> ctl s cs' i (s'\<lparr>d_cond := cs'\<rparr>)"
  "ctl s cs i s' \<Longrightarrow> ctl s cs i' (s'\<lparr>d_inactive := i'\<rparr>)"
  unfolding ctl_def by (cases s; cases s'; simp)+

lemma text_at_updates [simp]:
  "text_at (s\<lparr>d_brace := b\<rparr>) r = text_at s r" "text_at (s\<lparr>d_start := p\<rparr>) r = text_at s r"
  "text_at (s\<lparr>d_cond := cs\<rparr>) r = text_at s r" "text_at (s\<lparr>d_inactive := i\<rparr>) r = text_at s r"
  by (simp_all add: text_at_def)

lemma symbol_prevpos:
  assumes "sf_CheckSymbol cs b s = (f, s')"
  shows "pos_file (sf_prevpos s') = sf_file s'"
proof -
  have "pos_file (sf_prevpos (save_prevpos s)) = sf_file s" by (simp add: save_prevpos_def SaveCurPos_def)
  with assms show ?thesis
    by (auto simp: sf_CheckSymbol_def sf_consume_def RecalcCurCol_def Let_def split: prod.splits if_splits)
qed

lemma pass_hash:
  assumes "text_at s (CHR ''#'' # r)" and "\<not> d_expr s"
  shows "\<exists>s1. SkipWhite_pass h False s =
       (case ParseDirective h s1 of None \<Rightarrow> None | Some s2 \<Rightarrow> Some (Inr (s2\<lparr>d_brace := d_brace s\<rparr>)))
     \<and> moved s s1 \<and> text_at s1 r \<and> pos_file (sf_prevpos (d_sf s1)) = sf_file (d_sf s1)"
proof -
  let ?r = "CHR ''#'' # r"
  from skip_spaces_at [OF assms(1), of True]
  have s1: "moved s (skip_spaces True s)" "text_at (skip_spaces True s) ?r" by (simp_all add: is_blank_def)
  obtain s2 where s2: "rd (sf_CheckSymbol ''//'' True) (skip_spaces True s) = (False, s2)"
      "moved (skip_spaces True s) s2" "text_at s2 ?r" using no_symbol_at [OF s1(2), of "''//''" True] by auto
  obtain s3 where s3: "rd (sf_CheckSymbol ''/*'' True) s2 = (False, s3)" "moved s2 s3" "text_at s3 ?r"
    using no_symbol_at [OF s2(3), of "''/*''" True] by auto
  obtain s4 where s4: "rd (sf_CheckSymbol ''#'' True) s3 = (True, s4)" "moved s3 s4" "text_at s4 r"
    using symbol_at [of s3 "''#''" r] s3(3) by auto
  have prev: "pos_file (sf_prevpos (d_sf s4)) = sf_file (d_sf s4)"
    using s4(1) symbol_prevpos [OF prod.collapse [symmetric], of "''#''" True "d_sf s3"] by (auto simp: rd_eq)
  have mv: "moved s s3" "moved s s4" using moved_trans s1(1) s2(2) s3(2) s4(2) by blast+
  have "\<not> d_cur (skip_spaces True s) \<ge> d_end (skip_spaces True s)"
    using s1(2) rest_Cons [of "d_sf (skip_spaces True s)"] by (auto simp: text_at_def)
  then have "SkipWhite_pass h False s =
       (case ParseDirective h s4 of None \<Rightarrow> None | Some s2 \<Rightarrow> Some (Inr (s2\<lparr>d_brace := d_brace s\<rparr>)))"
    using assms(2) s2(1) s3(1) s4(1) moved_fields [OF mv(1)] moved_fields [OF mv(2)]
    by (simp add: SkipWhite_pass_def Let_def split: option.split)
  with mv s4(3) prev show ?thesis by blast
qed

text \<open>A whole line with a conditional directive is one pass.\<close>

lemma pass_conditional:
  assumes "text_at s (CHR ''#'' # kw @ r)" and "ident kw" and "id_ends r" and "\<not> d_expr s"
    and step: "\<And>s1. text_at s1 r \<Longrightarrow> ctl s (d_cond s) (d_inactive s) s1 \<Longrightarrow> \<not> d_brace s1 \<Longrightarrow>
      pos_file (d_start s1) = sf_file (d_sf s1) \<Longrightarrow>
      \<exists>s2 cs. conditional h kw s1 = Some (Some s2) \<and> text_at s2 (LF # r') \<and> \<not> d_brace s2 \<and> ctl s cs i s2 \<and> Q cs"
  shows "\<exists>s' cs. SkipWhite_pass h False s = Some (Inr s') \<and> text_at s' (dropWhile (is_blank True) r')
    \<and> ctl s cs i s' \<and> Q cs"
proof -
  from pass_hash [OF assms(1,4), of h] obtain s1 where
    s1: "SkipWhite_pass h False s =
       (case ParseDirective h s1 of None \<Rightarrow> None | Some s2 \<Rightarrow> Some (Inr (s2\<lparr>d_brace := d_brace s\<rparr>)))"
      "moved s s1" "text_at s1 (kw @ r)" "pos_file (sf_prevpos (d_sf s1)) = sf_file (d_sf s1)" by blast
  from ParseDirective_line [OF s1(3) assms(2,3), of h] obtain s2 where
    s2: "ParseDirective h s1 = (case CheckConditionals h kw s2 of
       None \<Rightarrow> None | Some (True, s3) \<Rightarrow> Some s3 | Some (False, s3) \<Rightarrow> run_directive h kw s3)"
      "text_at s2 r" and mv: "moved (s1\<lparr>d_start := sf_prevpos (d_sf s1), d_brace := False\<rparr>) s2" by blast
  have c2: "ctl s (d_cond s) (d_inactive s) s2"
    using ctl_move [OF ctl_updates(1) [OF ctl_updates(2) [OF ctl_moved [OF s1(2)]]] mv] .
  have "\<not> d_brace s2" "pos_file (d_start s2) = sf_file (d_sf s2)"
    using moved_fields [OF mv] s1(4) by simp_all
  from step [OF s2(2) c2 this] obtain s3 cs where
    s3: "conditional h kw s2 = Some (Some s3)" "text_at s3 (LF # r')" "\<not> d_brace s3" "ctl s cs i s3" "Q cs" by blast
  from directive_line_end [OF s3(2,3)] obtain s4 where
    s4: "FindDirectiveEnd s3 = (True, s4)" "moved s3 s4" "text_at s4 (dropWhile (is_blank True) r')" by blast
  have "SkipWhite_pass h False s = Some (Inr (s4\<lparr>d_brace := d_brace s\<rparr>))"
    by (simp add: s1(1) s2(1) CheckConditionals_def s3(1) s4(1))
  moreover have "ctl s cs i (s4\<lparr>d_brace := d_brace s\<rparr>)" by (rule ctl_updates(1) [OF ctl_move [OF s3(4) s4(2)]])
  ultimately show ?thesis using s4(3) s3(5) by (intro exI [of _ "s4\<lparr>d_brace := d_brace s\<rparr>"]) auto
qed

lemma ReadConditionalSymbol_at:
  assumes "text_at s (CHR '' '' # x @ LF # r)" and "ident x"
  shows "\<exists>s'. ReadConditionalSymbol d s = ((True, [], x), s') \<and> moved s s' \<and> text_at s' (LF # r)"
proof -
  from skip_spaces_at [OF assms(1), of True] no_blank_ident [OF assms(2), of True]
  have s1: "moved s (skip_spaces True s)" "text_at (skip_spaces True s) (x @ LF # r)" by (simp_all add: is_blank_def)
  obtain s2 where s2: "rd (sf_CheckSymbol ''@'' True) (skip_spaces True s) = (False, s2)"
      "moved (skip_spaces True s) s2" "text_at s2 (x @ LF # r)"
    using no_symbol_at [OF s1(2), of "''@''" True] ident_not_symbol [OF assms(2), of "''@''"]
    by (auto simp: is_alpha_under_def less_eq_char_def)
  have "id_ends (LF # r)" by (simp add: id_ends_def is_alpha_under_def is_dec_def less_eq_char_def)
  from ident_at [OF s2(3) assms(2) this] obtain s3 where
    s3: "rd (sf_ReadIdentifier [] True) s2 = ((True, x), s3)" "moved s2 s3" "text_at s3 (LF # r)" by blast
  with s2(1) moved_trans [OF moved_trans [OF s1(1) s2(2)] s3(2)] show ?thesis
    by (simp add: ReadConditionalSymbol_def)
qed

text \<open>What the directives need of the innermost conditional and what they make of it.\<close>

definition open_cond :: "scf_cond \<Rightarrow> bool \<Rightarrow> bool \<Rightarrow> scfile option \<Rightarrow> bool" where
  "open_cond c i tk f \<longleftrightarrow> c_parent_inactive c = i \<and> c_branch_taken c = tk \<and> c_state c \<noteq> FCOND_ELSE
     \<and> pos_file (c_startpos c) = f"

definition any_cond :: "scf_cond \<Rightarrow> bool \<Rightarrow> scfile option \<Rightarrow> bool" where
  "any_cond c i f \<longleftrightarrow> c_parent_inactive c = i \<and> pos_file (c_startpos c) = f"

text \<open>The compiler's answer to the question whether a symbol is defined, without a name space.\<close>

definition answers :: "'e host \<Rightarrow> (string \<Rightarrow> bool) \<Rightarrow> bool" where
  "answers h D \<longleftrightarrow> (\<forall>x s. h_defined h [] x s = ((D x, True), s))"

lemma apply_defined_at:
  assumes "answers h D" and "d_cond s = c # cs" and "\<not> d_inactive s" and "text_at s r"
    and "ctl s0 (c # cs) False s"
  shows "\<exists>s'. apply_defined h b [] x s = Some s' \<and> text_at s' r \<and> d_brace s' = d_brace s
    \<and> ctl s0 ((if D x = b then c\<lparr>c_branch_taken := True\<rparr> else c) # cs) (D x \<noteq> b) s'"
proof (cases "D x = b")
  case True
  let ?s = "s\<lparr>d_cond := c\<lparr>c_branch_taken := True\<rparr> # cs\<rparr>"
  have "apply_defined h b [] x s = Some ?s"
    using assms(1-3) True by (simp add: apply_defined_def answers_def ApplyConditionalResult_def)
  moreover have "ctl s0 (c\<lparr>c_branch_taken := True\<rparr> # cs) False ?s" by (rule ctl_updates(3) [OF assms(5)])
  ultimately show ?thesis using True assms(4) by auto
next
  case False
  let ?s = "s\<lparr>d_inactive := True\<rparr>"
  have "apply_defined h b [] x s = Some ?s"
    using assms(1-3) False by (auto simp: apply_defined_def answers_def ApplyConditionalResult_def)
  moreover have "ctl s0 (c # cs) True ?s" by (rule ctl_updates(4) [OF assms(5)])
  ultimately show ?thesis using False assms(4) by auto
qed

lemma moved_ctl: "ctl s cs i s1 \<Longrightarrow> moved s1 s2 \<Longrightarrow> d_cond s2 = cs \<and> d_inactive s2 = i"
  using ctl_fields(1,2) [OF ctl_move] by blast

lemma kw_ident:
  "ident ''ifdef''" "ident ''ifndef''" "ident ''elifdef''" "ident ''elifndef''" "ident ''else''" "ident ''endif''"
  by (simp_all add: ident_def is_alpha_under_def less_eq_char_def)

lemma id_ends_simps [simp]: "id_ends (CHR '' '' # r)" "id_ends (LF # r)" "id_ends []"
  by (simp_all add: id_ends_def is_alpha_under_def is_dec_def less_eq_char_def)

lemma pass_ifdef:
  assumes at: "text_at s (dir_line (if b then ''ifdef'' else ''ifndef'') x @ r)" and x: "ident x"
    and "\<not> d_expr s" and D: "answers h D"
  shows "\<exists>s' cs. SkipWhite_pass h False s = Some (Inr s') \<and> text_at s' (dropWhile (is_blank True) r)
    \<and> ctl s cs (d_inactive s \<or> D x \<noteq> b) s'
    \<and> (\<exists>c. cs = c # d_cond s \<and> open_cond c (d_inactive s) (\<not> d_inactive s \<and> D x = b) (sf_file (d_sf s)))"
proof -
  let ?kw = "if b then ''ifdef'' else ''ifndef''"
  have line: "text_at s (CHR ''#'' # ?kw @ CHR '' '' # x @ LF # r)" using at by (simp add: dir_line_def)
  show ?thesis
  proof (rule pass_conditional [OF line _ _ assms(3)])
    fix s1
    assume s1: "text_at s1 (CHR '' '' # x @ LF # r)" "ctl s (d_cond s) (d_inactive s) s1" "\<not> d_brace s1"
      "pos_file (d_start s1) = sf_file (d_sf s1)"
    define c where "c = new_cond (d_start s1) (d_inactive s1)"
    let ?s2 = "s1\<lparr>d_cond := c # d_cond s\<rparr>"
    have f1: "d_inactive s1 = d_inactive s" "d_cond s1 = d_cond s" "sf_file (d_sf s1) = sf_file (d_sf s)"
      using ctl_fields [OF s1(2)] by simp_all
    have start: "StartConditionalBranch s1 = ?s2" by (simp add: StartConditionalBranch_def c_def f1)
    obtain s3 where s3: "ReadConditionalSymbol (''#'' @ ?kw) ?s2 = ((True, [], x), s3)" "moved ?s2 s3" "text_at s3 (LF # r)"
      using ReadConditionalSymbol_at [of ?s2 x r] s1(1) x by auto
    have c3: "ctl s (c # d_cond s) (d_inactive s) s3" by (rule ctl_move [OF ctl_updates(3) [OF s1(2)] s3(2)])
    note f3 = ctl_fields [OF c3]
    have br: "\<not> d_brace s3" using moved_fields [OF s3(2)] s1(3) by simp
    have new: "open_cond c (d_inactive s) False (sf_file (d_sf s))" "c_branch_taken c = False"
      using s1(4) by (simp_all add: open_cond_def c_def new_cond_def f1)
    have cond: "conditional h ?kw s1 = Some (cond_ifdef h ?kw b s1)" by (simp add: conditional_def)
    show "\<exists>s2 cs. conditional h ?kw s1 = Some (Some s2) \<and> text_at s2 (LF # r) \<and> \<not> d_brace s2
      \<and> ctl s cs (d_inactive s \<or> D x \<noteq> b) s2
      \<and> (\<exists>c. cs = c # d_cond s \<and> open_cond c (d_inactive s) (\<not> d_inactive s \<and> D x = b) (sf_file (d_sf s)))"
    proof (cases "d_inactive s")
      case True
      have "cond_ifdef h ?kw b s1 = Some s3" using s3(1) True f3 by (simp add: cond_ifdef_def start)
      with cond s3(3) br c3 True new show ?thesis by auto
    next
      case False
      then have na: "\<not> d_inactive s3" and cF: "ctl s (c # d_cond s) False s3" using f3 c3 by simp_all
      obtain s4 where s4: "apply_defined h b [] x s3 = Some s4" "text_at s4 (LF # r)" "d_brace s4 = d_brace s3"
          "ctl s ((if D x = b then c\<lparr>c_branch_taken := True\<rparr> else c) # d_cond s) (D x \<noteq> b) s4"
        using apply_defined_at [OF D f3(1) na s3(3) cF] by blast
      have "cond_ifdef h ?kw b s1 = Some s4" using s3(1) na s4(1) by (simp add: cond_ifdef_def start)
      moreover have "open_cond (if D x = b then c\<lparr>c_branch_taken := True\<rparr> else c) False (D x = b) (sf_file (d_sf s))"
        using new False by (simp add: open_cond_def)
      ultimately show ?thesis using cond s4 br False by auto
    qed
  qed (use kw_ident in auto)
qed

lemma pass_elifdef:
  assumes at: "text_at s (dir_line (if b then ''elifdef'' else ''elifndef'') x @ r)" and x: "ident x"
    and "\<not> d_expr s" and D: "answers h D"
    and c: "d_cond s = c # cs" "open_cond c i tk (sf_file (d_sf s))"
  shows "\<exists>s' cs'. SkipWhite_pass h False s = Some (Inr s') \<and> text_at s' (dropWhile (is_blank True) r)
    \<and> ctl s cs' (i \<or> tk \<or> D x \<noteq> b) s'
    \<and> (\<exists>c'. cs' = c' # cs \<and> open_cond c' i (tk \<or> \<not> i \<and> D x = b) (sf_file (d_sf s)))"
proof -
  let ?kw = "if b then ''elifdef'' else ''elifndef''"
  have line: "text_at s (CHR ''#'' # ?kw @ CHR '' '' # x @ LF # r)" using at by (simp add: dir_line_def)
  show ?thesis
  proof (rule pass_conditional [OF line _ _ assms(3)])
    fix s1
    assume s1: "text_at s1 (CHR '' '' # x @ LF # r)" "ctl s (d_cond s) (d_inactive s) s1" "\<not> d_brace s1"
    obtain s2 where s2: "ReadConditionalSymbol (''#'' @ ?kw) s1 = ((True, [], x), s2)" "moved s1 s2" "text_at s2 (LF # r)"
      using ReadConditionalSymbol_at [OF s1(1) x] by blast
    have c2: "ctl s (c # cs) (d_inactive s) s2" using ctl_move [OF s1(2) s2(2)] c(1) by simp
    note f2 = ctl_fields [OF c2]
    define c' where "c' = c\<lparr>c_state := FCOND_ELIF\<rparr>"
    let ?s3 = "s2\<lparr>d_inactive := i \<or> tk, d_cond := c' # cs\<rparr>"
    have cont: "ContinueConditionalBranch (''#'' @ ?kw) s2 = (\<not> (i \<or> tk), ?s3)"
      using c(2) f2 by (simp add: ContinueConditionalBranch_def open_cond_def Let_def set_cond_def c'_def)
    have c3: "ctl s (c' # cs) (i \<or> tk) ?s3" by (rule ctl_updates(3) [OF ctl_updates(4) [OF c2]])
    have at3: "text_at ?s3 (LF # r)" using s2(3) by simp
    have br: "\<not> d_brace ?s3" using moved_fields [OF s2(2)] s1(3) by simp
    have o: "open_cond c' i tk (sf_file (d_sf s))" using c(2) by (simp add: c'_def open_cond_def)
    have cond: "conditional h ?kw s1 = Some (cond_elifdef h ?kw b s1)" by (simp add: conditional_def)
    show "\<exists>s2 cs'. conditional h ?kw s1 = Some (Some s2) \<and> text_at s2 (LF # r) \<and> \<not> d_brace s2
      \<and> ctl s cs' (i \<or> tk \<or> D x \<noteq> b) s2
      \<and> (\<exists>c'. cs' = c' # cs \<and> open_cond c' i (tk \<or> \<not> i \<and> D x = b) (sf_file (d_sf s)))"
    proof (cases "i \<or> tk")
      case True
      then have "cond_elifdef h ?kw b s1 = Some ?s3" using s2(1) cont by (simp add: cond_elifdef_def)
      moreover have "(i \<or> tk \<or> D x \<noteq> b) = (i \<or> tk)" "(tk \<or> \<not> i \<and> D x = b) = tk" using True by auto
      ultimately show ?thesis using cond at3 br c3 o by auto
    next
      case False
      then have na: "\<not> d_inactive ?s3" and cF: "ctl s (c' # cs) False ?s3" using c3 by simp_all
      obtain s4 where s4: "apply_defined h b [] x ?s3 = Some s4" "text_at s4 (LF # r)" "d_brace s4 = d_brace ?s3"
          "ctl s ((if D x = b then c'\<lparr>c_branch_taken := True\<rparr> else c') # cs) (D x \<noteq> b) s4"
        using apply_defined_at [OF D _ na at3 cF] by auto
      have "cond_elifdef h ?kw b s1 = Some s4" using s2(1) cont False s4(1) by (simp add: cond_elifdef_def)
      moreover have "open_cond (if D x = b then c'\<lparr>c_branch_taken := True\<rparr> else c') i (D x = b) (sf_file (d_sf s))"
        using o False by (simp add: open_cond_def)
      ultimately show ?thesis using cond s4 br False by auto
    qed
  qed (use kw_ident in auto)
qed

lemma pass_else:
  assumes at: "text_at s (''#else'' @ LF # r)" and "\<not> d_expr s"
    and c: "d_cond s = c # cs" "open_cond c i tk (sf_file (d_sf s))"
  shows "\<exists>s' cs'. SkipWhite_pass h False s = Some (Inr s') \<and> text_at s' (dropWhile (is_blank True) r)
    \<and> ctl s cs' (i \<or> tk) s' \<and> (\<exists>c'. cs' = c' # cs \<and> any_cond c' i (sf_file (d_sf s)))"
proof (rule pass_conditional [of s "''else''" "LF # r"])
  show "text_at s (CHR ''#'' # ''else'' @ LF # r)" using at by simp
  fix s1
  assume s1: "text_at s1 (LF # r)" "ctl s (d_cond s) (d_inactive s) s1" "\<not> d_brace s1"
  let ?c = "c\<lparr>c_state := FCOND_ELSE, c_elsepos := d_start s1\<rparr>"
  let ?s2 = "s1\<lparr>d_inactive := i \<or> tk, d_cond := ?c # cs\<rparr>"
  note f1 = ctl_fields [OF s1(2)]
  have "cond_else s1 = ?s2"
    using c f1 by (auto simp: cond_else_def open_cond_def Let_def set_cond_def)
  then have "conditional h ''else'' s1 = Some (Some ?s2)" by (simp add: conditional_def)
  moreover have "ctl s (?c # cs) (i \<or> tk) ?s2" by (rule ctl_updates(3) [OF ctl_updates(4) [OF s1(2)]])
  moreover have "any_cond ?c i (sf_file (d_sf s))" using c(2) by (simp add: any_cond_def open_cond_def)
  ultimately show "\<exists>s2 cs'. conditional h ''else'' s1 = Some (Some s2) \<and> text_at s2 (LF # r) \<and> \<not> d_brace s2
      \<and> ctl s cs' (i \<or> tk) s2 \<and> (\<exists>c'. cs' = c' # cs \<and> any_cond c' i (sf_file (d_sf s)))"
    using s1(1,3) by (intro exI [of _ ?s2] exI [of _ "?c # cs"]) auto
qed (use kw_ident assms(2) in auto)

lemma pass_endif:
  assumes at: "text_at s (''#endif'' @ LF # r)" and "\<not> d_expr s"
    and c: "d_cond s = c # cs" "any_cond c i (sf_file (d_sf s))"
  shows "\<exists>s' cs'. SkipWhite_pass h False s = Some (Inr s') \<and> text_at s' (dropWhile (is_blank True) r)
    \<and> ctl s cs' i s' \<and> cs' = cs"
proof (rule pass_conditional [of s "''endif''" "LF # r"])
  show "text_at s (CHR ''#'' # ''endif'' @ LF # r)" using at by simp
  fix s1
  assume s1: "text_at s1 (LF # r)" "ctl s (d_cond s) (d_inactive s) s1" "\<not> d_brace s1"
  let ?s2 = "s1\<lparr>d_inactive := i, d_cond := cs\<rparr>"
  note f1 = ctl_fields [OF s1(2)]
  have "cond_endif s1 = ?s2"
    using c f1 by (simp add: cond_endif_def any_cond_def Let_def)
  then have "conditional h ''endif'' s1 = Some (Some ?s2)" by (simp add: conditional_def)
  moreover have "ctl s cs i ?s2" by (rule ctl_updates(3) [OF ctl_updates(4) [OF s1(2)]])
  ultimately show "\<exists>s2 cs'. conditional h ''endif'' s1 = Some (Some s2) \<and> text_at s2 (LF # r) \<and> \<not> d_brace s2
      \<and> ctl s cs' i s2 \<and> cs' = cs"
    using s1(1,3) by (intro exI [of _ ?s2] exI [of _ cs]) auto
qed (use kw_ident assms(2) in auto)

section \<open>Words\<close>

text \<open>Text between directives: words and white space.\<close>

definition wordy :: "string \<Rightarrow> bool" where
  "wordy r \<longleftrightarrow> list_all (\<lambda>c. id_char c \<or> c = LF) r"

abbreviation to_hash :: "string \<Rightarrow> string" where
  "to_hash r \<equiv> dropWhile (\<lambda>c. c \<noteq> CHR ''#'') r"

lemma to_hash_stop:
  "wordy (takeWhile (\<lambda>c. c \<noteq> CHR ''#'') r) \<Longrightarrow>
     dropWhile (\<lambda>c. c \<notin> set [DQUOTE, SQUOTE, CHR ''#'', CHR ''/'']) r = to_hash r"
proof (induction r)
  case (Cons c r)
  show ?case
  proof (cases "c = CHR ''#''")
    case False
    with Cons.prems have "id_char c \<or> c = LF" and w: "wordy (takeWhile (\<lambda>c. c \<noteq> CHR ''#'') r)"
      by (simp_all add: wordy_def)
    then have "c \<notin> set [DQUOTE, SQUOTE, CHR ''#'', CHR ''/'']"
      by (auto simp: is_alpha_under_def is_dec_def less_eq_char_def)
    with False Cons.IH [OF w] show ?thesis by simp
  qed simp
qed simp

lemma to_hash_hd: "to_hash r \<noteq> [] \<Longrightarrow> \<exists>t. to_hash r = CHR ''#'' # t"
  by (induction r) auto

lemma SkipInactiveCode_hash:
  assumes "sf_inv s" and "wordy (takeWhile (\<lambda>c. c \<noteq> CHR ''#'') (sf_rest s))" and "sf_rest s \<noteq> []"
  shows "sf_same s (SkipInactiveCode s) \<and> sf_rest (SkipInactiveCode s) = to_hash (sf_rest s)"
proof -
  let ?cs = "[DQUOTE, SQUOTE, CHR ''#'', CHR ''/'']"
  obtain found s1 where r: "sf_ReadTo ?cs s = (found, s1)" by fastforce
  from ReadTo_rest [OF assms(1) r] to_hash_stop [OF assms(2)]
  have s1: "sf_same s s1" "sf_rest s1 = to_hash (sf_rest s)" "found \<longleftrightarrow> sf_rest s1 \<noteq> []" by simp_all
  have cur: "sf_cur s < sf_end s" using rest_nil [OF assms(1)] assms(1,3) by (auto simp: sf_inv_def)
  show ?thesis
  proof (cases found)
    case False
    then have "SkipInactiveCode s = s1"
      using cur r by (simp add: SkipInactiveCode.simps [of s] inactive_pass_def)
    with s1 show ?thesis by simp
  next
    case True
    then obtain t where t: "sf_rest s1 = CHR ''#'' # t" using s1 to_hash_hd by metis
    obtain ok s2 where c: "sf_CheckSymbol ''#'' False s1 = (ok, s2)" by fastforce
    from CheckSymbol_rest [OF sf_same_inv [OF s1(1)] c] t
    have s2: "sf_same s1 s2" "ok" "sf_rest s2 = sf_rest s1" by auto
    from rest_Cons [OF t] have "inactive_pass s = Inl s2"
      using r True c s2(2) by (simp add: inactive_pass_def)
    then have "SkipInactiveCode s = s2" using cur by (simp add: SkipInactiveCode.simps [of s])
    with s1 s2 show ?thesis using sf_same_trans by auto
  qed
qed

text \<open>A pass at a word: inactive code is skipped up to the next directive.\<close>

lemma pass_not_symbol:
  assumes "text_at s (c # r)" and "id_char c" and "\<not> d_expr s"
  shows "\<exists>s1. moved s s1 \<and> text_at s1 (c # r) \<and> SkipWhite_pass h False s =
    (if \<not> d_inactive s then Some (Inl s1)
     else Some (Inr (upd_sf RecalcCurCol (upd_sf (if d_asm s then SkipInactiveAsmCode else SkipInactiveCode) s1))))"
proof -
  let ?r = "c # r"
  have nb: "\<not> is_blank True c" and ne: "c \<noteq> CHR ''/''" "c \<noteq> CHR ''#''"
    using assms(2) by (auto simp: is_blank_def is_alpha_under_def is_dec_def less_eq_char_def)
  from skip_spaces_at [OF assms(1), of True] nb
  have s1: "moved s (skip_spaces True s)" "text_at (skip_spaces True s) ?r" by simp_all
  obtain s2 where s2: "rd (sf_CheckSymbol ''//'' True) (skip_spaces True s) = (False, s2)"
      "moved (skip_spaces True s) s2" "text_at s2 ?r" using no_symbol_at [OF s1(2), of "''//''" True] ne by auto
  obtain s3 where s3: "rd (sf_CheckSymbol ''/*'' True) s2 = (False, s3)" "moved s2 s3" "text_at s3 ?r"
    using no_symbol_at [OF s2(3), of "''/*''" True] ne by auto
  obtain s4 where s4: "rd (sf_CheckSymbol ''#'' True) s3 = (False, s4)" "moved s3 s4" "text_at s4 ?r"
    using no_symbol_at [OF s3(3), of "''#''" True] ne by auto
  have mv: "moved s s3" "moved s s4" using moved_trans s1(1) s2(2) s3(2) s4(2) by blast+
  have "\<not> d_cur (skip_spaces True s) \<ge> d_end (skip_spaces True s)"
    using s1(2) rest_Cons [of "d_sf (skip_spaces True s)"] by (auto simp: text_at_def)
  then have "SkipWhite_pass h False s =
      (if \<not> d_inactive s then Some (Inl s4)
       else Some (Inr (upd_sf RecalcCurCol (upd_sf (if d_asm s then SkipInactiveAsmCode else SkipInactiveCode) s4))))"
    using assms(3) s2(1) s3(1) s4(1) moved_fields [OF mv(1)] moved_fields [OF mv(2)]
    by (simp add: SkipWhite_pass_def Let_def)
  with mv s4(3) show ?thesis by blast
qed

lemma pass_inactive:
  assumes "text_at s (c # r)" and "id_char c" and "\<not> d_expr s" and "\<not> d_asm s" and "d_inactive s"
    and "wordy (takeWhile (\<lambda>c. c \<noteq> CHR ''#'') (c # r))"
  shows "\<exists>s'. SkipWhite_pass h False s = Some (Inr s') \<and> moved s s' \<and> text_at s' (to_hash (c # r))"
proof -
  from pass_not_symbol [OF assms(1-3), of h] obtain s1 where
    s1: "moved s s1" "text_at s1 (c # r)" and p: "SkipWhite_pass h False s =
      (if \<not> d_inactive s then Some (Inl s1)
       else Some (Inr (upd_sf RecalcCurCol (upd_sf (if d_asm s then SkipInactiveAsmCode else SkipInactiveCode) s1))))"
    by blast
  let ?s = "upd_sf RecalcCurCol (upd_sf SkipInactiveCode s1)"
  have inv: "sf_inv (d_sf s1)" "sf_rest (d_sf s1) = c # r" using s1(2) by (simp_all add: text_at_def)
  have "sf_same (d_sf s1) (SkipInactiveCode (d_sf s1)) \<and> sf_rest (SkipInactiveCode (d_sf s1)) = to_hash (c # r)"
    using SkipInactiveCode_hash [OF inv(1)] inv(2) assms(6) by simp
  then have "text_at ?s (to_hash (c # r))" "moved s1 ?s"
    by (auto simp: text_at_def upd_sf_def moved_def sf_same_def sf_rest_def sf_inv_def)
  with p moved_trans [OF s1(1)] assms(4,5) show ?thesis by auto
qed

section \<open>Reading a source\<close>

text \<open>From \<open>s\<close> the client reads the words \<open>ws\<close> and then whatever it reads from \<open>s'\<close>.\<close>

definition reads :: "'e host \<Rightarrow> 'e dqs \<Rightarrow> string list \<Rightarrow> 'e dqs \<Rightarrow> bool" where
  "reads h s ws s' \<longleftrightarrow>
     (\<forall>n vs. read_words n h s' = Some vs \<longrightarrow> read_words (n + length ws) h s = Some (ws @ vs))"

lemma reads_refl: "reads h s [] s"
  by (simp add: reads_def)

lemma reads_trans:
  assumes "reads h s ws s1" and "reads h s1 ws' s2"
  shows "reads h s (ws @ ws') s2"
  unfolding reads_def
proof (intro allI impI)
  fix n vs
  assume "read_words n h s2 = Some vs"
  then have "read_words (n + length ws') h s1 = Some (ws' @ vs)" using assms(2) by (simp add: reads_def)
  then have "read_words (n + length ws' + length ws) h s = Some (ws @ ws' @ vs)" using assms(1) by (simp add: reads_def)
  then show "read_words (n + length (ws @ ws')) h s = Some ((ws @ ws') @ vs)" by (simp add: ac_simps)
qed

lemma reads_same: "SkipWhite h False s = SkipWhite h False s' \<Longrightarrow> reads h s [] s'"
  unfolding reads_def
proof (intro allI impI)
  fix n vs
  assume "SkipWhite h False s = SkipWhite h False s'" and "read_words n h s' = Some vs"
  then show "read_words (n + length []) h s = Some ([] @ vs)" by (cases n) simp_all
qed

lemma reads_pass:
  "text_at s r \<Longrightarrow> r \<noteq> [] \<Longrightarrow> SkipWhite_pass h False s = Some (Inr s') \<Longrightarrow> reads h s [] s'"
  using text_at_cur [of s r] by (intro reads_same) (simp add: SkipWhite.simps [of h False s])

lemma reads_skip:
  assumes "text_at s r" and "dropWhile (is_blank True) r \<noteq> []" and "\<not> d_expr s"
  shows "reads h s [] (skip_spaces True s)"
proof (rule reads_same)
  let ?s = "skip_spaces True s"
  have at: "text_at ?s (dropWhile (is_blank True) r)" and e: "\<not> d_expr ?s"
    using skip_spaces_at [OF assms(1), of True] moved_fields(6) assms(3) by auto
  have "SkipWhite_pass h False s = SkipWhite_pass h False ?s"
    using assms(3) e by (simp add: SkipWhite_pass_def skip_spaces_idem [OF assms(1)])
  moreover have "r \<noteq> []" using assms(2) by auto
  ultimately show "SkipWhite h False s = SkipWhite h False ?s"
    using text_at_cur [OF assms(1)] text_at_cur [OF at assms(2)]
    by (simp add: SkipWhite.simps [of h False s] SkipWhite.simps [of h False ?s])
qed

text \<open>
  Standing at a text: when code is active up to white space, when it is inactive up to words that
  are skipped anyway.
\<close>

definition to_hash_wordy :: "string \<Rightarrow> bool" where
  "to_hash_wordy r \<longleftrightarrow> wordy (takeWhile (\<lambda>c. c \<noteq> CHR ''#'') r)"

definition at_src :: "'e dqs \<Rightarrow> string \<Rightarrow> bool" where
  "at_src s r \<longleftrightarrow> \<not> d_expr s \<and> \<not> d_asm s \<and> d_ret s = [] \<and>
     (\<exists>r'. text_at s r' \<and>
        (if d_inactive s then to_hash r' = to_hash r \<and> to_hash_wordy r'
         else dropWhile (is_blank True) r' = dropWhile (is_blank True) r))"

lemma ident_chars: "ident w \<Longrightarrow> c \<in> set w \<Longrightarrow> id_char c"
  by (auto simp: ident_def list_all_iff)

lemma id_char_not: "id_char c \<Longrightarrow> c \<noteq> CHR ''#'' \<and> c \<noteq> LF \<and> \<not> is_blank b c"
  by (auto simp: is_blank_def is_alpha_under_def is_dec_def less_eq_char_def)

lemma to_hash_ident: "ident w \<Longrightarrow> to_hash (w @ LF # r) = to_hash r"
  using ident_chars [of w] id_char_not by (subst dropWhile_append2) auto

lemma to_hash_wordy_ident: "ident w \<Longrightarrow> to_hash_wordy (w @ LF # r) = to_hash_wordy r"
proof -
  assume w: "ident w"
  have "takeWhile (\<lambda>c. c \<noteq> CHR ''#'') (w @ LF # r) = w @ LF # takeWhile (\<lambda>c. c \<noteq> CHR ''#'') r"
    using ident_chars [OF w] id_char_not by (subst takeWhile_append2) auto
  with ident_chars [OF w] show ?thesis by (auto simp: to_hash_wordy_def wordy_def list_all_iff)
qed

lemma to_hash_blank: "to_hash (dropWhile (is_blank True) r) = to_hash r"
  by (induction r) (auto simp: is_blank_def)

lemma to_hash_wordy_blank: "to_hash_wordy r \<Longrightarrow> to_hash_wordy (dropWhile (is_blank True) r)"
  by (induction r) (auto simp: is_blank_def to_hash_wordy_def wordy_def)

lemma src_wordy: "src_ok p \<Longrightarrow> to_hash_wordy r \<Longrightarrow> to_hash_wordy (src_text p @ r)"
  and branch_wordy: "to_hash_wordy (branch_text t @ r)"
  by (induction p and t arbitrary: r and r)
    (simp_all add: to_hash_wordy_ident, simp_all add: to_hash_wordy_def dir_line_def wordy_def)

lemma at_after:
  assumes "text_at s' (dropWhile (is_blank True) r)" and "to_hash_wordy r" and "ctl s cs i s'"
    and "\<not> d_expr s" "\<not> d_asm s" "d_ret s = []"
  shows "at_src s' r"
  using assms to_hash_wordy_blank [OF assms(2)] to_hash_blank ctl_fields [OF assms(3)]
  by (auto simp: at_src_def intro!: exI [of _ "dropWhile (is_blank True) r"])

lemma moved_at: "moved s s' \<Longrightarrow> at_src s r0 \<Longrightarrow> \<not> d_expr s' \<and> \<not> d_asm s' \<and> d_ret s' = []"
  using moved_fields [of s s'] by (simp add: at_src_def)

text \<open>Before the next directive only white space and inactive words are skipped.\<close>

lemma reads_to_hash:
  assumes "at_src s (CHR ''#'' # d)"
  shows "\<exists>s1. reads h s [] s1 \<and> text_at s1 (CHR ''#'' # d) \<and> moved s s1"
proof -
  let ?d = "CHR ''#'' # d"
  from assms have e: "\<not> d_expr s" "\<not> d_asm s" by (simp_all add: at_src_def)
  have nb: "dropWhile (is_blank True) ?d = ?d" by (simp add: is_blank_def)
  from assms obtain r' where r': "text_at s r'"
      "if d_inactive s then to_hash r' = ?d \<and> to_hash_wordy r' else dropWhile (is_blank True) r' = ?d"
    unfolding at_src_def nb by auto
  let ?r = "dropWhile (is_blank True) r'" and ?s = "skip_spaces True s"
  have ne: "?r \<noteq> []"
  proof
    assume r: "?r = []"
    then have "to_hash r' = []" using to_hash_blank [of r'] by (metis dropWhile.simps(1))
    then show False using r r'(2) by (metis list.distinct(1))
  qed
  have skip: "reads h s [] ?s" "moved s ?s" "text_at ?s ?r"
    using reads_skip [OF r'(1) ne e(1)] skip_spaces_at [OF r'(1), of True] by simp_all
  show ?thesis
  proof (cases "?r = ?d")
    case True
    with skip show ?thesis by auto
  next
    case False
    then have i: "d_inactive s" "to_hash ?r = ?d" "to_hash_wordy ?r"
      using r'(2) to_hash_blank [of r'] to_hash_wordy_blank [of r'] by (auto split: if_splits)
    obtain c r where c: "?r = c # r" using ne by (cases ?r) auto
    have "\<not> is_blank True c" using hd_dropWhile [of "is_blank True" r'] ne c by simp
    moreover have "c \<noteq> CHR ''#''" using False i(2) c by auto
    ultimately have id: "id_char c" using i(3) c by (auto simp: to_hash_wordy_def wordy_def is_blank_def)
    have "text_at ?s (c # r)" "\<not> d_expr ?s" "\<not> d_asm ?s" "d_inactive ?s" "wordy (takeWhile (\<lambda>c. c \<noteq> CHR ''#'') (c # r))"
      using skip(3) c e i moved_fields [OF skip(2)] by (simp_all add: to_hash_wordy_def)
    from pass_inactive [OF this(1) id this(2-5), of h] obtain s2 where
      s2: "SkipWhite_pass h False ?s = Some (Inr s2)" "moved ?s s2" "text_at s2 (to_hash (c # r))" by blast
    have "reads h ?s [] s2" using reads_pass [OF skip(3) ne s2(1)] .
    from reads_trans [OF skip(1) this] moved_trans [OF skip(2) s2(2)] s2(3) i(2) c show ?thesis by auto
  qed
qed

lemma dropWhile_ident: "ident w \<Longrightarrow> dropWhile (is_blank True) (w @ r) = w @ r"
  using no_blank_ident by blast

lemma reads_word:
  assumes "at_src s (w @ LF # r)" and "ident w" and "\<not> d_inactive s"
  shows "\<exists>s'. reads h s [w] s' \<and> at_src s' r \<and> moved s s'"
proof -
  let ?w = "w @ LF # r"
  from assms have e: "\<not> d_expr s" "\<not> d_asm s" by (simp_all add: at_src_def)
  from assms obtain r' where r': "text_at s r'" "dropWhile (is_blank True) r' = ?w"
    unfolding at_src_def dropWhile_ident [OF assms(2)] by auto
  obtain c w' where w: "w = c # w'" using assms(2) by (cases w) (auto simp: ident_def)
  have id: "id_char c" using assms(2) w by (simp add: ident_def)
  let ?s = "skip_spaces True s"
  have ne: "dropWhile (is_blank True) r' \<noteq> []" unfolding r'(2) by simp
  have skip: "reads h s [] ?s" "moved s ?s" "text_at ?s (c # w' @ LF # r)"
    using reads_skip [OF r'(1) ne e(1)] skip_spaces_at [OF r'(1), of True] r'(2) w by simp_all
  have e': "\<not> d_expr ?s" "\<not> d_inactive ?s" using moved_fields [OF skip(2)] e assms(3) by simp_all
  from pass_not_symbol [OF skip(3) id e'(1), of h] e'(2) obtain s1 where
    s1: "moved ?s s1" "text_at s1 ?w" "SkipWhite_pass h False ?s = Some (Inl s1)" using w by auto
  from ident_at [OF s1(2) assms(2), of "[]"] obtain s2 where
    s2: "rd (sf_ReadIdentifier [] True) s1 = ((True, w), s2)" "moved s1 s2" "text_at s2 (LF # r)" by auto
  have sw: "SkipWhite h False ?s = Some s1"
    using text_at_cur [OF skip(3)] s1(3) by (simp add: SkipWhite.simps [of h False ?s])
  have neof: "\<not> dq_Eof s1" using text_at_cur [OF s1(2)] by (simp add: dq_Eof_def)
  have "reads h ?s [w] s2"
    unfolding reads_def using sw neof s2(1) by (auto simp: text_at_def)
  from reads_trans [OF skip(1) this] have "reads h s [w] s2" by simp
  moreover have mv: "moved s s2" using moved_trans skip(2) s1(1) s2(2) by blast
  moreover have "at_src s2 r"
    using moved_at [OF mv assms(1)] moved_fields(4) [OF mv] assms(3) s2(3)
    by (auto simp: at_src_def is_blank_def intro!: exI [of _ "LF # r"])
  ultimately show ?thesis by blast
qed

lemma inactive_word: "at_src s (w @ LF # r) \<Longrightarrow> ident w \<Longrightarrow> d_inactive s \<Longrightarrow> at_src s r"
  by (simp add: at_src_def to_hash_ident)

text \<open>A directive pass, from a text position to the next.\<close>

lemma reads_directive:
  assumes "at_src s (CHR ''#'' # d)" and "to_hash_wordy r"
    and pass: "\<And>s1. text_at s1 (CHR ''#'' # d) \<Longrightarrow> moved s s1 \<Longrightarrow>
      \<exists>s' cs. SkipWhite_pass h False s1 = Some (Inr s') \<and> text_at s' (dropWhile (is_blank True) r) \<and> ctl s1 cs i s' \<and> Q cs"
  shows "\<exists>s' cs. reads h s [] s' \<and> at_src s' r \<and> ctl s cs i s' \<and> Q cs"
proof -
  from reads_to_hash [OF assms(1), of h] obtain s1 where
    s1: "reads h s [] s1" "text_at s1 (CHR ''#'' # d)" "moved s s1" by blast
  from pass [OF s1(2,3)] obtain s' cs where
    s': "SkipWhite_pass h False s1 = Some (Inr s')" "text_at s' (dropWhile (is_blank True) r)" "ctl s1 cs i s'" "Q cs" by blast
  have c: "ctl s cs i s'" by (rule ctl_trans [OF ctl_moved [OF s1(3)] s'(3)])
  have "reads h s [] s'" using reads_trans [OF s1(1) reads_pass [OF s1(2) _ s'(1)]] by simp
  moreover have "at_src s' r"
    using assms(1) by (intro at_after [OF s'(2) assms(2) c]) (simp_all add: at_src_def)
  ultimately show ?thesis using c s'(4) by blast
qed

lemma group_line:
  "\<exists>d. dir_line (if b then ''ifdef'' else ''ifndef'') x @ r = CHR ''#'' # d"
  "\<exists>d. dir_line (if b then ''elifdef'' else ''elifndef'') x @ r = CHR ''#'' # d"
  by (simp_all add: dir_line_def)

lemma endif_reads:
  assumes "at_src s (''#endif'' @ LF # r)" and "to_hash_wordy r"
    and "d_cond s = c # cs" and "any_cond c i (sf_file (d_sf s))"
  shows "\<exists>s'. reads h s [] s' \<and> at_src s' r \<and> ctl s cs i s'"
proof -
  have "\<exists>s' cs'. reads h s [] s' \<and> at_src s' r \<and> ctl s cs' i s' \<and> cs' = cs"
  proof (rule reads_directive [OF _ assms(2)])
    show "at_src s (CHR ''#'' # ''endif'' @ LF # r)" using assms(1) by simp
    fix s1
    assume s1: "text_at s1 (CHR ''#'' # ''endif'' @ LF # r)" "moved s s1"
    have "d_cond s1 = c # cs" "any_cond c i (sf_file (d_sf s1))" "\<not> d_expr s1"
      using assms moved_fields [OF s1(2)] by (simp_all add: at_src_def)
    with s1(1) show "\<exists>s' cs'. SkipWhite_pass h False s1 = Some (Inr s')
        \<and> text_at s' (dropWhile (is_blank True) r) \<and> ctl s1 cs' i s' \<and> cs' = cs"
      by (intro pass_endif) simp_all
  qed
  then show ?thesis by blast
qed

lemma src_reads:
  assumes D: "answers h D"
  shows "src_ok p \<Longrightarrow> to_hash_wordy R \<Longrightarrow> at_src s (src_text p @ R) \<Longrightarrow>
      \<exists>s'. reads h s (if d_inactive s then [] else active D p) s' \<and> at_src s' R
        \<and> ctl s (d_cond s) (d_inactive s) s'"
    and "branch_ok t \<Longrightarrow> to_hash_wordy R \<Longrightarrow> at_src s (branch_text t @ R) \<Longrightarrow> d_cond s = c # cs \<Longrightarrow>
      open_cond c i tk (sf_file (d_sf s)) \<Longrightarrow>
      \<exists>s'. reads h s (if i \<or> tk then [] else active_branch D t) s' \<and> at_src s' R \<and> ctl s cs i s'"
proof (induction p and t arbitrary: s R and s R c cs i tk)
  case Done
  then show ?case using reads_refl ctl_moved [OF moved_refl, of s] by (intro exI [of _ s]) simp
next
  case (Word w p)
  then have w: "ident w" "src_ok p" and at: "at_src s (w @ LF # src_text p @ R)" by simp_all
  show ?case
  proof (cases "d_inactive s")
    case True
    with Word.IH [OF w(2) Word.prems(2) inactive_word [OF at w(1) True]] show ?thesis by simp
  next
    case False
    from reads_word [OF at w(1) False, of h] obtain s1 where
      s1: "reads h s [w] s1" "at_src s1 (src_text p @ R)" "moved s s1" by blast
    from Word.IH [OF w(2) Word.prems(2) s1(2)] moved_fields [OF s1(3)] False obtain s2 where
      s2: "reads h s1 (active D p) s2" "at_src s2 R" "ctl s1 (d_cond s) False s2" by auto
    from reads_trans [OF s1(1) s2(1)] s2(2) ctl_trans [OF ctl_moved [OF s1(3)] s2(3)] False
    show ?thesis by auto
  qed
next
  case (Group b x p t q)
  let ?R1 = "branch_text t @ src_text q @ R" and ?i = "d_inactive s" and ?f = "sf_file (d_sf s)"
  have ok: "ident x" "src_ok p" "branch_ok t" "src_ok q" using Group.prems(1) by simp_all
  have w2: "to_hash_wordy (src_text q @ R)" by (rule src_wordy [OF ok(4) Group.prems(2)])
  have w1: "to_hash_wordy ?R1" by (rule branch_wordy)
  have w0: "to_hash_wordy (src_text p @ ?R1)" by (rule src_wordy [OF ok(2) w1])
  let ?line = "dir_line (if b then ''ifdef'' else ''ifndef'') x"
  obtain d where d: "?line @ src_text p @ ?R1 = CHR ''#'' # d" using group_line(1) by blast
  have at: "at_src s (CHR ''#'' # d)" using Group.prems(3) d by simp
  have "\<exists>s' cs. reads h s [] s' \<and> at_src s' (src_text p @ ?R1) \<and> ctl s cs (?i \<or> D x \<noteq> b) s'
      \<and> (\<exists>c. cs = c # d_cond s \<and> open_cond c ?i (\<not> ?i \<and> D x = b) ?f)"
  proof (rule reads_directive [OF at w0])
    fix s1
    assume s1: "text_at s1 (CHR ''#'' # d)" "moved s s1"
    then have "text_at s1 (?line @ src_text p @ ?R1)" "\<not> d_expr s1"
      using d at moved_fields [OF s1(2)] by (simp_all add: at_src_def)
    from pass_ifdef [OF this(1) ok(1) this(2) D] moved_fields [OF s1(2)]
    show "\<exists>s' cs. SkipWhite_pass h False s1 = Some (Inr s') \<and> text_at s' (dropWhile (is_blank True) (src_text p @ ?R1))
      \<and> ctl s1 cs (?i \<or> D x \<noteq> b) s' \<and> (\<exists>c. cs = c # d_cond s \<and> open_cond c ?i (\<not> ?i \<and> D x = b) ?f)" by simp
  qed
  then obtain s1 c where s1: "reads h s [] s1" "at_src s1 (src_text p @ ?R1)" "ctl s (c # d_cond s) (?i \<or> D x \<noteq> b) s1"
    and c: "open_cond c ?i (\<not> ?i \<and> D x = b) ?f" by blast
  note f1 = ctl_fields [OF s1(3)]
  from Group.IH(1) [OF ok(2) w1 s1(2)] f1 obtain s2 where
    s2: "reads h s1 (if ?i \<or> D x \<noteq> b then [] else active D p) s2" "at_src s2 ?R1"
      "ctl s1 (c # d_cond s) (?i \<or> D x \<noteq> b) s2" by auto
  note f2 = ctl_fields [OF s2(3)]
  have "open_cond c ?i (\<not> ?i \<and> D x = b) (sf_file (d_sf s2))" using c f1 f2 by simp
  from Group.IH(2) [OF ok(3) w2 s2(2) f2(1) this] obtain s3 where
    s3: "reads h s2 (if ?i \<or> (\<not> ?i \<and> D x = b) then [] else active_branch D t) s3" "at_src s3 (src_text q @ R)"
      "ctl s2 (d_cond s) ?i s3" by blast
  note f3 = ctl_fields [OF s3(3)]
  from Group.IH(3) [OF ok(4) Group.prems(2) s3(2)] f3 obtain s4 where
    s4: "reads h s3 (if ?i then [] else active D q) s4" "at_src s4 R" "ctl s3 (d_cond s) ?i s4" by auto
  note rd = reads_trans [OF reads_trans [OF reads_trans [OF s1(1) s2(1)] s3(1)] s4(1)]
  have "ctl s (d_cond s) ?i s4" by (rule ctl_trans [OF ctl_trans [OF ctl_trans [OF s1(3) s2(3)] s3(3)] s4(3)])
  moreover have "reads h s (if ?i then [] else active D (Group b x p t q)) s4"
    using rd by (cases ?i; cases "D x = b") simp_all
  ultimately show ?case using s4(2) by blast
next
  case Endif
  have c: "any_cond c i (sf_file (d_sf s))" using Endif.prems(5) by (simp add: open_cond_def any_cond_def)
  have at: "at_src s (''#endif'' @ LF # R)" using Endif.prems(3) by simp
  have none: "(if i \<or> tk then [] else active_branch D Endif) = []" by simp
  from endif_reads [OF at Endif.prems(2,4) c] show ?case unfolding none by blast
next
  case (Else p)
  let ?R1 = "''#endif'' @ LF # R"
  have w1: "to_hash_wordy ?R1" by (simp add: to_hash_wordy_def wordy_def)
  have w0: "to_hash_wordy (src_text p @ ?R1)" using Else.prems(1) by (intro src_wordy [OF _ w1]) simp
  have at: "at_src s (CHR ''#'' # ''else'' @ LF # src_text p @ ?R1)" using Else.prems(3) by simp
  have "\<exists>s' cs'. reads h s [] s' \<and> at_src s' (src_text p @ ?R1) \<and> ctl s cs' (i \<or> tk) s'
      \<and> (\<exists>c'. cs' = c' # cs \<and> any_cond c' i (sf_file (d_sf s)))"
  proof (rule reads_directive [OF at w0])
    fix s1
    assume s1: "text_at s1 (CHR ''#'' # ''else'' @ LF # src_text p @ ?R1)" "moved s s1"
    then have "text_at s1 (''#else'' @ LF # src_text p @ ?R1)" "\<not> d_expr s1" "d_cond s1 = c # cs"
      "open_cond c i tk (sf_file (d_sf s1))"
      using at Else.prems(4,5) moved_fields [OF s1(2)] by (simp_all add: at_src_def)
    from pass_else [OF this] moved_fields [OF s1(2)]
    show "\<exists>s' cs'. SkipWhite_pass h False s1 = Some (Inr s') \<and> text_at s' (dropWhile (is_blank True) (src_text p @ ?R1))
      \<and> ctl s1 cs' (i \<or> tk) s' \<and> (\<exists>c'. cs' = c' # cs \<and> any_cond c' i (sf_file (d_sf s)))" by simp
  qed
  then obtain s1 c' where s1: "reads h s [] s1" "at_src s1 (src_text p @ ?R1)" "ctl s (c' # cs) (i \<or> tk) s1"
    and c': "any_cond c' i (sf_file (d_sf s))" by blast
  note f1 = ctl_fields [OF s1(3)]
  from Else.IH [OF _ w1 s1(2)] Else.prems(1) f1 obtain s2 where
    s2: "reads h s1 (if i \<or> tk then [] else active D p) s2" "at_src s2 ?R1" "ctl s1 (c' # cs) (i \<or> tk) s2" by auto
  note f2 = ctl_fields [OF s2(3)]
  have "any_cond c' i (sf_file (d_sf s2))" using c' f1 f2 by simp
  from endif_reads [OF s2(2) Else.prems(2) f2(1) this] obtain s3 where
    s3: "reads h s2 [] s3" "at_src s3 R" "ctl s2 cs i s3" by blast
  have "ctl s cs i s3" by (rule ctl_trans [OF ctl_trans [OF s1(3) s2(3)] s3(3)])
  with reads_trans [OF reads_trans [OF s1(1) s2(1)] s3(1)] s3(2) show ?case by auto
next
  case (Elif b x p t)
  let ?R1 = "branch_text t @ R" and ?f = "sf_file (d_sf s)"
  let ?line = "dir_line (if b then ''elifdef'' else ''elifndef'') x" and ?i1 = "i \<or> tk \<or> D x \<noteq> b"
    and ?tk1 = "tk \<or> \<not> i \<and> D x = b"
  have ok: "ident x" "src_ok p" "branch_ok t" using Elif.prems(1) by simp_all
  have w1: "to_hash_wordy ?R1" by (rule branch_wordy)
  have w0: "to_hash_wordy (src_text p @ ?R1)" by (rule src_wordy [OF ok(2) w1])
  obtain d where d: "?line @ src_text p @ ?R1 = CHR ''#'' # d" using group_line(2) by blast
  have at: "at_src s (CHR ''#'' # d)" using Elif.prems(3) d by simp
  have "\<exists>s' cs'. reads h s [] s' \<and> at_src s' (src_text p @ ?R1) \<and> ctl s cs' ?i1 s'
      \<and> (\<exists>c'. cs' = c' # cs \<and> open_cond c' i ?tk1 ?f)"
  proof (rule reads_directive [OF at w0])
    fix s1
    assume s1: "text_at s1 (CHR ''#'' # d)" "moved s s1"
    then have "text_at s1 (?line @ src_text p @ ?R1)" "\<not> d_expr s1" "d_cond s1 = c # cs"
      "open_cond c i tk (sf_file (d_sf s1))"
      using d at Elif.prems(4,5) moved_fields [OF s1(2)] by (simp_all add: at_src_def)
    from pass_elifdef [OF this(1) ok(1) this(2) D this(3,4)] moved_fields [OF s1(2)]
    show "\<exists>s' cs'. SkipWhite_pass h False s1 = Some (Inr s') \<and> text_at s' (dropWhile (is_blank True) (src_text p @ ?R1))
      \<and> ctl s1 cs' ?i1 s' \<and> (\<exists>c'. cs' = c' # cs \<and> open_cond c' i ?tk1 ?f)" by simp
  qed
  then obtain s1 c' where s1: "reads h s [] s1" "at_src s1 (src_text p @ ?R1)" "ctl s (c' # cs) ?i1 s1"
    and c': "open_cond c' i ?tk1 ?f" by blast
  note f1 = ctl_fields [OF s1(3)]
  from Elif.IH(1) [OF ok(2) w1 s1(2)] f1 obtain s2 where
    s2: "reads h s1 (if ?i1 then [] else active D p) s2" "at_src s2 ?R1" "ctl s1 (c' # cs) ?i1 s2" by auto
  note f2 = ctl_fields [OF s2(3)]
  have "open_cond c' i ?tk1 (sf_file (d_sf s2))" using c' f1 f2 by simp
  from Elif.IH(2) [OF ok(3) Elif.prems(2) s2(2) f2(1) this] obtain s3 where
    s3: "reads h s2 (if i \<or> ?tk1 then [] else active_branch D t) s3" "at_src s3 R" "ctl s2 cs i s3" by blast
  have "ctl s cs i s3" by (rule ctl_trans [OF ctl_trans [OF s1(3) s2(3)] s3(3)])
  moreover have "reads h s (if i \<or> tk then [] else active_branch D (Elif b x p t)) s3"
    using reads_trans [OF reads_trans [OF s1(1) s2(1)] s3(1)] by (cases i; cases tk; cases "D x = b") simp_all
  ultimately show ?case using s3(2) by blast
qed

text \<open>C5: Conditional compilation, from the text to the words: in a file that holds a source with any
  nesting of \<open>#ifdef\<close>, \<open>#ifndef\<close>, \<open>#elifdef\<close>, \<open>#elifndef\<close>, \<open>#else\<close> and \<open>#endif\<close> groups, a client
  that skips white space and reads identifiers gets exactly the words of the branches chosen by
  the defined symbols, in order, and reading ends.\<close>

theorem dq_conditional_compilation:
  assumes "answers h D" and "src_ok p"
    and "sf_inv (d_sf s) \<and> drop (d_cur s) (d_buf s) = src_text p"
    and "\<not> d_expr s \<and> \<not> d_asm s \<and> \<not> d_inactive s \<and> d_ret s = []"
  shows "read_words (Suc (length (active D p))) h s = Some (active D p)"
proof -
  have "text_at s (src_text p)" using assms(3) by (simp add: text_at_def sf_rest_def)
  then have "at_src s (src_text p @ [])" using assms(4) by (auto simp: at_src_def)
  from src_reads(1) [OF assms(1,2) _ this] assms(4) obtain s' where
    s': "reads h s (active D p) s'" "at_src s' []" "ctl s (d_cond s) False s'"
    by (auto simp: to_hash_wordy_def wordy_def)
  then obtain r where r: "text_at s' r" "dropWhile (is_blank True) r = []" and e: "\<not> d_expr s'" "d_ret s' = []"
    using ctl_fields [OF s'(3)] by (auto simp: at_src_def)
  have "\<exists>s2. SkipWhite h False s' = Some s2 \<and> dq_Eof s2"
  proof (cases "d_cur s' < d_end s'")
    case False
    with e show ?thesis by (simp add: SkipWhite.simps [of h False s'] dq_Eof_def)
  next
    case True
    let ?s = "skip_spaces True s'"
    from skip_spaces_at [OF r(1), of True] r(2) have sk: "moved s' ?s" "text_at ?s []" by simp_all
    then have "d_cur ?s = d_end ?s" using rest_nil [of "d_sf ?s"] by (simp add: text_at_def)
    moreover have "d_ret ?s = []" "\<not> d_expr ?s" using moved_fields [OF sk(1)] e by simp_all
    moreover have "SkipWhite_pass h False s' = Some (Inr ?s)"
      using e \<open>d_cur ?s = d_end ?s\<close> by (simp add: SkipWhite_pass_def Let_def)
    ultimately show ?thesis
      using True by (simp add: SkipWhite.simps [of h False s'] SkipWhite.simps [of h False ?s] dq_Eof_def)
  qed
  then have "read_words (Suc 0) h s' = Some []" by auto
  then have "read_words (Suc 0 + length (active D p)) h s = Some (active D p @ [])"
    using s'(1) unfolding reads_def by blast
  then show ?thesis by simp
qed

definition sample_host :: "unit host" where
  "sample_host = \<lparr>h_abs = (\<lambda>p. p), h_normal = (\<lambda>p. p), h_parent = (\<lambda>p. []), h_filename = (\<lambda>p. p),
     h_join = (\<lambda>d p. p), h_header_of = (\<lambda>p. p), h_is_header = (\<lambda>p. False), h_exists = (\<lambda>p. False),
     h_read = (\<lambda>p. None), h_metadata = (\<lambda>p. None), h_packages = [], h_module_root = (\<lambda>p. None),
     h_defined = (\<lambda>ns x s. ((x = ''UNIX'', True), s)), h_condition = (\<lambda>s. ((False, True), s)),
     h_define_const = (\<lambda>x s. s), h_define_true = (\<lambda>x p e. e)\<rparr>"

definition sample_dqs :: "string \<Rightarrow> unit dqs" where
  "sample_dqs body =
     \<lparr>d_sf = SetCurPosFile (Some \<lparr>sc_index = 0, sc_name = [], sc_fullpath = [], sc_time = 0, sc_body = body\<rparr>) 0
        \<lparr>sf_file = None, sf_cur = 0, sf_prev = 0, sf_prevlen = 0, sf_line = 0, sf_col = 0, sf_clstart = 0,
         sf_prevpos = new_scpos, sf_lastline = 0\<rparr>,
      d_ret = [], d_start = new_scpos, d_cond = [], d_inactive = False, d_brace = True, d_expr = False,
      d_asm = False, d_impl = False, d_files = [], d_deps = [], d_main = [], d_header = [], d_linklibs = [],
      d_root_depth = 0, d_suppress = False, d_errors = [], d_env = ()\<rparr>"

lemma sample_dqs_at: "sf_inv (d_sf (sample_dqs b)) \<and> drop (d_cur (sample_dqs b)) (d_buf (sample_dqs b)) = b
    \<and> sf_file (d_sf (sample_dqs b)) = Some \<lparr>sc_index = 0, sc_name = [], sc_fullpath = [], sc_time = 0, sc_body = b\<rparr>"
  by (simp add: sample_dqs_def SetCurPosFile_def sf_inv_def sf_buf_def RecalcCurLineCol_def SearchClStart_def Let_def)

lemma dq_conditional_compilation_witness:
  "read_words 3 sample_host (sample_dqs (src_text
     (Word ''a'' (Group True ''WIN'' (Word ''b'' Done) (Elif False ''UNIX'' Done (Else (Word ''c'' Done))) Done))))
   = Some [''a'', ''c'']"
proof -
  let ?p = "Word ''a'' (Group True ''WIN'' (Word ''b'' Done) (Elif False ''UNIX'' Done (Else (Word ''c'' Done))) Done)"
  have "answers sample_host (\<lambda>x. x = ''UNIX'')" by (simp add: answers_def sample_host_def)
  moreover have "src_ok ?p" by (simp add: ident_def is_alpha_under_def less_eq_char_def)
  moreover have "\<not> d_expr (sample_dqs (src_text ?p)) \<and> \<not> d_asm (sample_dqs (src_text ?p))
      \<and> \<not> d_inactive (sample_dqs (src_text ?p)) \<and> d_ret (sample_dqs (src_text ?p)) = []"
    by (simp add: sample_dqs_def)
  moreover have "active (\<lambda>x. x = ''UNIX'') ?p = [''a'', ''c'']" by simp
  ultimately show ?thesis
    using dq_conditional_compilation [of sample_host "\<lambda>x. x = ''UNIX''" ?p "sample_dqs (src_text ?p)"] sample_dqs_at
    by (simp only: list.size) (simp add: numeral_eq_Suc)
qed

end
