(* ===== verification/Dq_White.thy ===== *)
theory Dq_White
  imports Dq_Cond Scf_Strings
begin

text \<open>
  White space of the DQ language: blanks, line ends, line comments and block comments. \<open>SkipWhite\<close>
  skips exactly this in active code, and \<open>LineEndsBeforeNextToken\<close> tells, without moving, whether
  a line end lies in it.
\<close>

section \<open>White space of a text\<close>

text \<open>The text behind a block comment whose opening was read; nothing when it is not closed.\<close>

fun after_comment :: "string \<Rightarrow> string" where
  "after_comment [] = []"
| "after_comment [c] = []"
| "after_comment (c # d # r) = (if c = CHR ''*'' \<and> d = CHR ''/'' then r else after_comment (d # r))"

lemma after_comment_suffix: "\<exists>p. r = p @ after_comment r"
proof (induction r rule: after_comment.induct)
  case (3 c d r)
  show ?case
  proof (cases "c = CHR ''*'' \<and> d = CHR ''/''")
    case True
    then show ?thesis by (intro exI [of _ "[c, d]"]) simp
  next
    case False
    with 3 obtain p where "d # r = p @ after_comment (d # r)" by blast
    then have "c # d # r = (c # p) @ after_comment (d # r)" by simp
    moreover have "after_comment (c # d # r) = after_comment (d # r)" using False by auto
    ultimately show ?thesis by metis
  qed
qed simp_all

lemma after_comment_length: "length (after_comment r) \<le> length r"
  using after_comment_suffix [of r] by (metis le_add2 length_append)

abbreviation not_nl :: "char \<Rightarrow> bool" where "not_nl c \<equiv> c \<noteq> LF \<and> c \<noteq> CR"

function ws_skip :: "string \<Rightarrow> string" where
  "ws_skip r =
     (case r of
        [] \<Rightarrow> []
      | c # r1 \<Rightarrow>
          if is_blank True c then ws_skip r1
          else if c = CHR ''/'' \<and> r1 \<noteq> [] \<and> hd r1 = CHR ''/'' then ws_skip (dropWhile not_nl (tl r1))
          else if c = CHR ''/'' \<and> r1 \<noteq> [] \<and> hd r1 = CHR ''*'' then ws_skip (after_comment (tl r1))
          else r)"
  by pat_completeness auto
termination
proof (relation "measure length", goal_cases)
  case (3 r c r1)
  have "length (dropWhile not_nl (tl r1)) \<le> length (tl r1)" by (rule length_dropWhile_le)
  with 3 show ?case by (cases r1) auto
next
  case (4 r c r1)
  with after_comment_length [of "tl r1"] show ?case by (cases r1) auto
qed auto

declare ws_skip.simps [simp del]

lemma ws_skip_simps [simp]:
  "ws_skip [] = []"
  "is_blank True c \<Longrightarrow> ws_skip (c # r) = ws_skip r"
  "ws_skip (CHR ''/'' # CHR ''/'' # r) = ws_skip (dropWhile not_nl r)"
  "ws_skip (CHR ''/'' # CHR ''*'' # r) = ws_skip (after_comment r)"
  by (simp_all add: ws_skip.simps [of "[]"] ws_skip.simps [of "c # r"] ws_skip.simps [of "CHR ''/'' # d # r" for d]
      is_blank_def)

lemma ws_skip_token:
  "\<not> is_blank True c \<Longrightarrow> \<nexists>r'. c # r = ''//'' @ r' \<Longrightarrow> \<nexists>r'. c # r = ''/*'' @ r' \<Longrightarrow> ws_skip (c # r) = c # r"
  by (subst ws_skip.simps) (cases r; auto)

lemma ws_skip_blanks: "ws_skip (dropWhile (is_blank True) r) = ws_skip r"
  by (induction r) auto

lemma ws_skip_cases:
  obtains "r = []"
    | c r1 where "r = c # r1" "is_blank True c"
    | r1 where "r = CHR ''/'' # CHR ''/'' # r1"
    | r1 where "r = CHR ''/'' # CHR ''*'' # r1"
    | c r1 where "r = c # r1" "\<not> is_blank True c" "\<nexists>r'. r = ''//'' @ r'" "\<nexists>r'. r = ''/*'' @ r'" "ws_skip r = r"
proof (cases r)
  case (Cons c r1)
  show ?thesis
  proof (cases "is_blank True c \<or> (\<exists>r'. r = ''//'' @ r') \<or> (\<exists>r'. r = ''/*'' @ r')")
    case True
    then show ?thesis using that Cons by auto
  next
    case False
    then show ?thesis using that(5) [of c r1] Cons ws_skip_token [of c r1] by blast
  qed
qed (use that in blast)

text \<open>Induction along the white space.\<close>

lemma ws_skip_induct [case_names empty blank line block token]:
  assumes "P []"
    and "\<And>c r. is_blank True c \<Longrightarrow> P r \<Longrightarrow> P (c # r)"
    and "\<And>r. P (dropWhile not_nl r) \<Longrightarrow> P (CHR ''/'' # CHR ''/'' # r)"
    and "\<And>r. P (after_comment r) \<Longrightarrow> P (CHR ''/'' # CHR ''*'' # r)"
    and "\<And>c r. \<not> is_blank True c \<Longrightarrow> \<nexists>r'. c # r = ''//'' @ r' \<Longrightarrow> \<nexists>r'. c # r = ''/*'' @ r' \<Longrightarrow>
      ws_skip (c # r) = c # r \<Longrightarrow> P (c # r)"
  shows "P r"
proof (induction r rule: measure_induct_rule [of length])
  case (less r)
  show ?case
  proof (cases r rule: ws_skip_cases)
    case 1
    with assms(1) show ?thesis by simp
  next
    case (2 c r1)
    with less assms(2) show ?thesis by simp
  next
    case (3 r1)
    have "length (dropWhile not_nl r1) \<le> length r1" by (rule length_dropWhile_le)
    with 3 less assms(3) show ?thesis by simp
  next
    case (4 r1)
    with less assms(4) after_comment_length [of r1] show ?thesis by simp
  next
    case (5 c r1)
    with assms(5) show ?thesis by simp
  qed
qed

lemma ws_skip_suffix: "\<exists>p. r = p @ ws_skip r"
proof (induction r rule: ws_skip_induct)
  case (blank c r)
  then obtain p where "r = p @ ws_skip r" by blast
  then have "c # r = (c # p) @ ws_skip (c # r)" using blank(1) by simp
  then show ?case by blast
next
  case (line r)
  then obtain p where "dropWhile not_nl r = p @ ws_skip (dropWhile not_nl r)" by blast
  then have "takeWhile not_nl r @ dropWhile not_nl r = (takeWhile not_nl r @ p) @ ws_skip (dropWhile not_nl r)"
    by simp
  then have "r = (takeWhile not_nl r @ p) @ ws_skip (dropWhile not_nl r)" by (simp only: takeWhile_dropWhile_id)
  then have "CHR ''/'' # CHR ''/'' # r = (CHR ''/'' # CHR ''/'' # takeWhile not_nl r @ p) @ ws_skip (dropWhile not_nl r)"
    by simp
  then show ?case unfolding ws_skip_simps(3) by blast
next
  case (block r)
  then obtain p where p: "after_comment r = p @ ws_skip (after_comment r)" by blast
  obtain p' where "r = p' @ after_comment r" using after_comment_suffix by blast
  with p have "r = (p' @ p) @ ws_skip (after_comment r)" by (metis append.assoc)
  then have "CHR ''/'' # CHR ''*'' # r = (CHR ''/'' # CHR ''*'' # p' @ p) @ ws_skip (after_comment r)" by simp
  then show ?case unfolding ws_skip_simps(4) by blast
next
  case (token c r)
  then show ?case by (intro exI [of _ "[]"]) simp
qed simp

section \<open>Block comments\<close>

lemma search_rest:
  "case sf_search_loop ''*/'' buf p line cls of
     None \<Rightarrow> after_comment (drop p buf) = []
   | Some (i, _) \<Rightarrow> p \<le> i \<and> i + 2 \<le> length buf \<and> after_comment (drop p buf) = drop (i + 2) buf"
proof (induction "''*/''" buf p line cls rule: sf_search_loop.induct)
  case (1 buf p line cls)
  show ?case
  proof (cases "p + 2 < length buf")
    case False
    then have "length (drop p buf) \<le> 2" by simp
    then have "after_comment (drop p buf) = []"
      by (cases "drop p buf" rule: after_comment.cases) auto
    with False show ?thesis by (simp add: sf_search_loop.simps [of _ buf p])
  next
    case True
    then have "p < length buf" "Suc p < length buf" by simp_all
    then obtain r where r: "drop p buf = buf ! p # buf ! Suc p # r" "drop (Suc p) buf = buf ! Suc p # r" "r = drop (p + 2) buf"
      by (metis Cons_nth_drop_Suc add_2_eq_Suc')
    show ?thesis
    proof (cases "pattern_at ''*/'' buf p")
      case True
      then have "buf ! p = CHR ''*''" "buf ! Suc p = CHR ''/''" by (simp_all split: if_splits)
      with True \<open>p + 2 < length buf\<close> r show ?thesis
        by (simp add: sf_search_loop.simps [of _ buf p])
    next
      case False
      then have ac: "after_comment (drop p buf) = after_comment (drop (Suc p) buf)"
        using r by auto
      show ?thesis
      proof (cases "buf ! p = line_end_char")
        case True
        with False \<open>p + 2 < length buf\<close> have "sf_search_loop ''*/'' buf p line cls =
            sf_search_loop ''*/'' buf (Suc p) (line + 1) (Suc p)"
          by (subst sf_search_loop.simps) simp
        with 1(1) [OF _ _ True] False \<open>p + 2 < length buf\<close> ac show ?thesis
          by (auto split: option.splits)
      next
        case nl: False
        with False \<open>p + 2 < length buf\<close> have "sf_search_loop ''*/'' buf p line cls =
            sf_search_loop ''*/'' buf (Suc p) line cls"
          by (subst sf_search_loop.simps) simp
        with 1(2) [OF _ _ nl] False \<open>p + 2 < length buf\<close> ac show ?thesis
          by (auto split: option.splits)
      qed
    qed
  qed
qed

lemma skip_block_comment_rest:
  assumes "sf_inv s"
  shows "sf_same s (skip_block_comment s) \<and> sf_rest (skip_block_comment s) = after_comment (sf_rest s)"
proof (cases "sf_search_loop ''*/'' (sf_buf s) (sf_cur s) (sf_line s) (sf_clstart s)")
  case None
  then show ?thesis using assms search_rest [where buf = "sf_buf s" and p = "sf_cur s" and line = "sf_line s" and cls = "sf_clstart s"]
    sf_move [of "skip_block_comment s" s "sf_end s - sf_cur s"]
    by (simp add: skip_block_comment_def sf_SearchPattern_def sf_rest_def sf_inv_def)
next
  case (Some t)
  then obtain i l c where t: "t = (i, l, c)" by (metis prod_cases3)
  with Some assms search_rest [where buf = "sf_buf s" and p = "sf_cur s" and line = "sf_line s" and cls = "sf_clstart s"]
    sf_move [of "skip_block_comment s" s "i + 2 - sf_cur s"]
  show ?thesis
    by (simp add: skip_block_comment_def sf_SearchPattern_def sf_rest_def sf_inv_def Let_def diff_le_mono)
qed

lemma block_comment_at:
  "text_at s r \<Longrightarrow> moved s (upd_sf skip_block_comment s) \<and> text_at (upd_sf skip_block_comment s) (after_comment r)"
  using skip_block_comment_rest [of "d_sf s"] by (simp add: text_at_def moved_def upd_sf_def sf_same_def)

lemma set_lastline_at [simp]:
  "text_at (set_lastline l s) r = text_at s r" "moved s0 (set_lastline l s) = moved s0 s"
  by (simp add: set_lastline_def upd_sf_def text_at_def sf_rest_def sf_inv_def)
    (cases s; cases s0; auto simp: set_lastline_def upd_sf_def moved_def)

section \<open>One pass over white space\<close>

lemma pass_start:
  assumes "text_at s r" and "dropWhile (is_blank True) r \<noteq> []" and "\<not> d_expr s" and "hd (dropWhile (is_blank True) r) \<noteq> CHR ''#''"
  defines "s1 \<equiv> skip_spaces True s"
  shows "\<not> d_cur s1 \<ge> d_end s1" "d_buf s1 ! d_cur s1 \<noteq> CHR ''#''" "moved s s1"
    "text_at s1 (dropWhile (is_blank True) r)"
proof -
  show at: "moved s s1" "text_at s1 (dropWhile (is_blank True) r)"
    unfolding s1_def using skip_spaces_at [OF assms(1), of True] by simp_all
  obtain c t where "dropWhile (is_blank True) r = c # t" using assms(2) by (cases "dropWhile (is_blank True) r") auto
  with at(2) assms(4) show "\<not> d_cur s1 \<ge> d_end s1" "d_buf s1 ! d_cur s1 \<noteq> CHR ''#''"
    using rest_Cons [of "d_sf s1" c t] by (auto simp: text_at_def)
qed

lemma pass_line_comment:
  assumes "text_at s r" and "dropWhile (is_blank True) r = ''//'' @ t" and "\<not> d_expr s"
  shows "\<exists>s'. SkipWhite_pass h look s = Some (Inr s') \<and> moved s s' \<and> text_at s' (dropWhile not_nl t)"
proof -
  let ?s1 = "skip_spaces True s"
  note s1 = pass_start [OF assms(1) _ assms(3), unfolded assms(2), simplified]
  from s1(4) have "text_at ?s1 (''//'' @ t)" by simp
  from symbol_at [OF this] obtain s2 where
    s2: "rd (sf_CheckSymbol ''//'' True) ?s1 = (True, s2)" "moved ?s1 s2" "text_at s2 t" by blast
  obtain s3 where s3: "snd (rd (sf_ReadTo [LF, CR]) s2) = s3" "moved s2 s3" "text_at s3 (dropWhile not_nl t)"
    using read_to_at [OF s2(3), of "[LF, CR]"] by auto
  have "SkipWhite_pass h look s = Some (Inr (set_lastline (sf_lastline (d_sf ?s1)) s3))"
    using s1(1,2) assms(3) s2(1) s3(1) by (simp add: SkipWhite_pass_def Let_def)
  moreover have "moved s s3" using moved_trans s1(3) s2(2) s3(2) by blast
  ultimately show ?thesis using s3(3) by simp
qed

lemma pass_block_comment:
  assumes "text_at s r" and "dropWhile (is_blank True) r = ''/*'' @ t" and "\<not> d_expr s"
  shows "\<exists>s'. SkipWhite_pass h look s = Some (Inr s') \<and> moved s s' \<and> text_at s' (after_comment t)"
proof -
  let ?s1 = "skip_spaces True s"
  note s1 = pass_start [OF assms(1) _ assms(3), unfolded assms(2), simplified]
  from s1(4) have at1: "text_at ?s1 (''/*'' @ t)" by simp
  from no_symbol_at [OF this, of "''//''" True] obtain s2 where
    s2: "rd (sf_CheckSymbol ''//'' True) ?s1 = (False, s2)" "moved ?s1 s2" "text_at s2 (''/*'' @ t)" by auto
  from symbol_at [OF s2(3)] obtain s3 where
    s3: "rd (sf_CheckSymbol ''/*'' True) s2 = (True, s3)" "moved s2 s3" "text_at s3 t" by blast
  from block_comment_at [OF s3(3)] have s4: "moved s3 (upd_sf skip_block_comment s3)"
    "text_at (upd_sf skip_block_comment s3) (after_comment t)" by simp_all
  have "SkipWhite_pass h look s = Some (Inr (set_lastline (sf_lastline (d_sf ?s1)) (upd_sf skip_block_comment s3)))"
    using s1(1,2) assms(3) s2(1) s3(1) by (simp add: SkipWhite_pass_def Let_def)
  moreover have "moved s (upd_sf skip_block_comment s3)" using moved_trans s1(3) s2(2) s3(2) s4(1) by blast
  ultimately show ?thesis using s4(2) by simp
qed

lemma pass_token:
  assumes "text_at s r" and "dropWhile (is_blank True) r = c # t" and "\<not> d_expr s" and "\<not> d_inactive s"
    and "\<nexists>r'. c # t = ''//'' @ r'" and "\<nexists>r'. c # t = ''/*'' @ r'" and "c \<noteq> CHR ''#''"
  shows "\<exists>s'. SkipWhite_pass h look s = Some (Inl s') \<and> moved s s' \<and> text_at s' (c # t)"
proof -
  let ?s1 = "skip_spaces True s"
  note s1 = pass_start [OF assms(1) _ assms(3), unfolded assms(2), simplified, OF assms(7)]
  obtain s2 where s2: "rd (sf_CheckSymbol ''//'' True) ?s1 = (False, s2)" "moved ?s1 s2" "text_at s2 (c # t)"
    using no_symbol_at [OF s1(4) assms(5)] by blast
  obtain s3 where s3: "rd (sf_CheckSymbol ''/*'' True) s2 = (False, s3)" "moved s2 s3" "text_at s3 (c # t)"
    using no_symbol_at [OF s2(3) assms(6)] by blast
  obtain s4 where s4: "rd (sf_CheckSymbol ''#'' True) s3 = (False, s4)" "moved s3 s4" "text_at s4 (c # t)"
    using no_symbol_at [OF s3(3), of "''#''" True] assms(7) by auto
  have mv: "moved s s3" "moved s s4" using moved_trans s1(3) s2(2) s3(2) s4(2) by blast+
  have "SkipWhite_pass h look s = Some (Inl s4)"
    using s1(1,2) assms(3,4) s2(1) s3(1) s4(1) moved_fields [OF mv(1)] moved_fields [OF mv(2)]
    by (simp add: SkipWhite_pass_def Let_def)
  with mv(2) s4(3) show ?thesis by blast
qed

section \<open>The whole white space\<close>

lemma SkipWhite_step:
  assumes "text_at s r" and "r \<noteq> []" and "SkipWhite_pass h look s = Some x"
  shows "SkipWhite h look s = (case x of Inl s' \<Rightarrow> Some s' | Inr s' \<Rightarrow> SkipWhite h look s')"
  using text_at_cur [OF assms(1,2)] assms(3) by (simp add: SkipWhite.simps [of h look s])

lemma SkipWhite_end:
  assumes "text_at s r" and "dropWhile (is_blank True) r = []" and "\<not> d_expr s" and "d_ret s = []"
  shows "\<exists>s'. SkipWhite h look s = Some s' \<and> moved s s' \<and> text_at s' []"
proof (cases "r = []")
  case True
  with assms(1) have "\<not> d_cur s < d_end s" using rest_nil [of "d_sf s"] by (simp add: text_at_def)
  with assms(1,4) True show ?thesis by (simp add: SkipWhite.simps [of h look s])
next
  case False
  let ?s = "skip_spaces True s"
  from skip_spaces_at [OF assms(1), of True] assms(2) have sk: "moved s ?s" "text_at ?s []" by simp_all
  then have e: "d_cur ?s = d_end ?s" using rest_nil [of "d_sf ?s"] by (simp add: text_at_def)
  then have "SkipWhite_pass h look s = Some (Inr ?s)" using assms(3) by (simp add: SkipWhite_pass_def Let_def)
  from SkipWhite_step [OF assms(1) False this] have "SkipWhite h look s = SkipWhite h look ?s" by simp
  also have "\<dots> = Some ?s"
    using e moved_fields [OF sk(1)] assms(4) by (simp add: SkipWhite.simps [of h look ?s])
  finally show ?thesis using sk by blast
qed

lemma SkipWhite_active:
  assumes "text_at s r" and "\<not> d_expr s" and "\<not> d_inactive s" and "d_ret s = []"
    and "ws_skip r = [] \<or> hd (ws_skip r) \<noteq> CHR ''#''"
  shows "\<exists>s'. SkipWhite h look s = Some s' \<and> moved s s' \<and> text_at s' (ws_skip r)"
  using assms
proof (induction r arbitrary: s rule: measure_induct_rule [of length])
  case (less r)
  let ?d = "dropWhile (is_blank True) r"
  have ws: "ws_skip r = ws_skip ?d" by (simp add: ws_skip_blanks)
  have len: "length ?d \<le> length r" by (rule length_dropWhile_le)
  have step: ?case if "SkipWhite_pass h look s = Some (Inr s1)" "moved s s1" "text_at s1 r1"
      "length r1 < length r" "ws_skip r = ws_skip r1" "r \<noteq> []" for s1 r1
  proof -
    note f = moved_fields [OF that(2)]
    from less.IH [OF that(4,3)] less.prems f that(5) obtain s2 where
      "SkipWhite h look s1 = Some s2" "moved s1 s2" "text_at s2 (ws_skip r1)" by auto
    with SkipWhite_step [OF less.prems(1) that(6,1)] moved_trans [OF that(2)] that(5) show ?thesis by auto
  qed
  show ?case
  proof (cases ?d rule: ws_skip_cases)
    case 1
    moreover have "ws_skip r = []" unfolding ws 1 by simp
    ultimately show ?thesis using SkipWhite_end [OF less.prems(1) _ less.prems(2,4)] by simp
  next
    case (2 c r1)
    then show ?thesis by (metis dropWhile_eq_Cons_conv)
  next
    case (3 r1)
    then have "?d = ''//'' @ r1" by simp
    from pass_line_comment [OF less.prems(1) this less.prems(2)] obtain s1 where
      s1: "SkipWhite_pass h look s = Some (Inr s1)" "moved s s1" "text_at s1 (dropWhile not_nl r1)" by blast
    have "length (dropWhile not_nl r1) \<le> length r1" by (rule length_dropWhile_le)
    with 3 len have "length (dropWhile not_nl r1) < length r" by simp
    moreover have "r \<noteq> []" using 3 by auto
    moreover have "ws_skip r = ws_skip (dropWhile not_nl r1)" unfolding ws 3 by simp
    ultimately show ?thesis using step [OF s1] by blast
  next
    case (4 r1)
    then have "?d = ''/*'' @ r1" by simp
    from pass_block_comment [OF less.prems(1) this less.prems(2)] obtain s1 where
      s1: "SkipWhite_pass h look s = Some (Inr s1)" "moved s s1" "text_at s1 (after_comment r1)" by blast
    from 4 len after_comment_length [of r1] have "length (after_comment r1) < length r" by simp
    moreover have "r \<noteq> []" using 4 by auto
    moreover have "ws_skip r = ws_skip (after_comment r1)" unfolding ws 4 by simp
    ultimately show ?thesis using step [OF s1] by blast
  next
    case (5 c t)
    then have c: "c \<noteq> CHR ''#''" "\<nexists>r'. c # t = ''//'' @ r'" "\<nexists>r'. c # t = ''/*'' @ r'"
      using less.prems(5) ws by auto
    from pass_token [OF less.prems(1) 5(1) less.prems(2,3) c(2,3,1)] obtain s1 where
      s1: "SkipWhite_pass h look s = Some (Inl s1)" "moved s s1" "text_at s1 (c # t)" by blast
    have "r \<noteq> []" using 5 by auto
    from SkipWhite_step [OF less.prems(1) this s1(1)] s1 5 ws show ?thesis by auto
  qed
qed

text \<open>C17: In active code \<open>SkipWhite\<close> ends and stops exactly behind the white space of the language
  (blanks, line ends, line comments and block comments, an unclosed one up to the end of the file),
  when no directive follows; it changes nothing but the feeder, and stays in the file.\<close>

theorem dq_skip_white_exact:
  assumes "sf_inv (d_sf s) \<and> \<not> d_expr s \<and> \<not> d_inactive s \<and> d_ret s = []"
    and "ws_skip (drop (d_cur s) (d_buf s)) = [] \<or> hd (ws_skip (drop (d_cur s) (d_buf s))) \<noteq> CHR ''#''"
  shows "\<exists>s'. SkipWhite h look s = Some s' \<and> s' = s\<lparr>d_sf := d_sf s'\<rparr>
    \<and> sf_file (d_sf s') = sf_file (d_sf s) \<and> d_cur s' \<le> d_end s'
    \<and> drop (d_cur s') (d_buf s') = ws_skip (drop (d_cur s) (d_buf s))"
proof -
  let ?r = "drop (d_cur s) (d_buf s)"
  have "text_at s ?r" using assms(1) by (simp add: text_at_def sf_rest_def)
  from SkipWhite_active [OF this _ _ _ assms(2), of h look] assms(1) obtain s' where
    s': "SkipWhite h look s = Some s'" "moved s s'" "text_at s' (ws_skip ?r)" by blast
  then show ?thesis
    by (intro exI [of _ s'] conjI) (simp_all add: moved_def text_at_def sf_rest_def sf_inv_def)
qed

lemma dq_skip_white_exact_witness:
  "\<exists>s'. SkipWhite sample_host False (sample_dqs '' /*a*/ // b'') = Some s'
    \<and> drop (d_cur s') (d_buf s') = []"
proof -
  let ?b = "'' /*a*/ // b''"
  let ?s = "sample_dqs ?b"
  have "ws_skip ?b = []" by (simp add: ws_skip.simps is_blank_def)
  then have r: "ws_skip (drop (d_cur ?s) (d_buf ?s)) = []"
    using sample_dqs_at [of ?b] by simp
  have "sf_inv (d_sf ?s) \<and> \<not> d_expr ?s \<and> \<not> d_inactive ?s \<and> d_ret ?s = []"
    using sample_dqs_at [of ?b] by (simp add: sample_dqs_def)
  from dq_skip_white_exact [OF this, of sample_host False] r show ?thesis by auto
qed

section \<open>Line ends in the white space\<close>

lemma rest_at: "drop p buf = c # r \<Longrightarrow> p < length buf \<and> buf ! p = c"
  by (metis Cons_nth_drop_Suc drop_eq_Nil linorder_not_le list.distinct(1) list.inject)

lemma two_at_drop: "two_at buf p a b \<longleftrightarrow> drop p buf = a # b # drop (p + 2) buf"
proof
  assume "two_at buf p a b"
  then show "drop p buf = a # b # drop (p + 2) buf"
    using Cons_nth_drop_Suc [of p buf] Cons_nth_drop_Suc [of "Suc p" buf] by simp
next
  assume r: "drop p buf = a # b # drop (p + 2) buf"
  then have "drop (Suc p) buf = b # drop (p + 2) buf" using drop_ConsD [of p buf a "b # drop (p + 2) buf"] by blast
  with r rest_at [of p buf] rest_at [of "Suc p" buf] show "two_at buf p a b" by simp
qed

lemma two_at_ex: "drop p buf = a # b # r \<Longrightarrow> two_at buf p a b"
  using rest_at [of p buf] rest_at [of "Suc p" buf] drop_ConsD [of p buf a] by auto

definition skipped :: "string \<Rightarrow> string" where
  "skipped r = take (length r - length (ws_skip r)) r"

lemma skippedI: "r = p @ ws_skip r \<Longrightarrow> skipped r = p"
  by (metis add_diff_cancel_right' append_eq_conv_conj length_append skipped_def)

lemma skipped_append: "skipped r @ ws_skip r = r"
  using ws_skip_suffix [of r] skippedI [of r] by metis

lemma skipped_simps:
  "skipped [] = []"
  "is_blank True c \<Longrightarrow> skipped (c # r) = c # skipped r"
  "skipped (CHR ''/'' # CHR ''/'' # r) = CHR ''/'' # CHR ''/'' # takeWhile not_nl r @ skipped (dropWhile not_nl r)"
  by (rule skippedI; simp add: skipped_append)+

lemma skipped_block:
  "r = p @ after_comment r \<Longrightarrow> skipped (CHR ''/'' # CHR ''*'' # r) = CHR ''/'' # CHR ''*'' # p @ skipped (after_comment r)"
  by (rule skippedI) (simp add: skipped_append)

definition has_nl :: "string \<Rightarrow> bool" where
  "has_nl r \<longleftrightarrow> set r \<inter> {CR, LF} \<noteq> {}"

lemma has_nl_simps [simp]:
  "\<not> has_nl []" "has_nl (c # r) \<longleftrightarrow> c = CR \<or> c = LF \<or> has_nl r" "has_nl (p @ r) \<longleftrightarrow> has_nl p \<or> has_nl r"
  by (auto simp: has_nl_def)

lemma comment_on_line_text:
  "case comment_on_line buf p of
     None \<Rightarrow> \<exists>q. drop p buf = q @ after_comment (drop p buf) \<and> has_nl q
   | Some p' \<Rightarrow> \<exists>q. drop p buf = q @ after_comment (drop p buf) \<and> \<not> has_nl q \<and> drop p' buf = after_comment (drop p buf)"
proof (induction buf p rule: comment_on_line.induct)
  case (1 buf p)
  show ?case
  proof (cases "p < length buf")
    case False
    then show ?thesis by (simp add: comment_on_line.simps [of buf p])
  next
    case True
    then have d: "drop p buf = buf ! p # drop (Suc p) buf" by (simp add: Cons_nth_drop_Suc)
    consider (nl) "is_nl (buf ! p)" | (stop) "\<not> is_nl (buf ! p)" "two_at buf p (CHR ''*'') (CHR ''/'')"
      | (on) "\<not> is_nl (buf ! p)" "\<not> two_at buf p (CHR ''*'') (CHR ''/'')" by blast
    then show ?thesis
    proof cases
      case nl
      obtain q where q: "drop p buf = q @ after_comment (drop p buf)" using after_comment_suffix by blast
      have "length (after_comment (drop p buf)) < length (drop p buf)"
      proof (cases "drop (Suc p) buf")
        case (Cons c t)
        with nl have "after_comment (drop p buf) = after_comment (c # t)" by (auto simp: d)
        with after_comment_length [of "c # t"] show ?thesis by (simp add: d Cons)
      qed (simp add: d)
      with q have "q \<noteq> []" by (metis append_Nil nat_neq_iff)
      with q d have "hd q = buf ! p" by (metis hd_append2 list.sel(1))
      with \<open>q \<noteq> []\<close> nl have "has_nl q" by (cases q) auto
      with q nl True show ?thesis by (auto simp: comment_on_line.simps [of buf p])
    next
      case stop
      then have "drop (Suc p) buf = CHR ''/'' # drop (p + 2) buf" by (simp add: Cons_nth_drop_Suc [symmetric])
      with d stop have "drop p buf = ''*/'' @ drop (p + 2) buf" by simp
      then show ?thesis using True stop
        by (auto simp: comment_on_line.simps [of buf p] intro!: exI [of _ "''*/''"])
    next
      case on
      have "\<not> (buf ! p = CHR ''*'' \<and> (\<exists>t. drop (Suc p) buf = CHR ''/'' # t))"
        using on(2) rest_at [of "Suc p" buf] by auto
      then have ac: "after_comment (drop p buf) = after_comment (drop (Suc p) buf)"
        unfolding d by (cases "drop (Suc p) buf") auto
      have step: "comment_on_line buf p = comment_on_line buf (Suc p)"
        using True on by (subst comment_on_line.simps) auto
      have ext: "drop p buf = (buf ! p # q) @ after_comment (drop p buf)"
        if "drop (Suc p) buf = q @ after_comment (drop (Suc p) buf)" for q
        using d ac that by (metis append_Cons)
      show ?thesis
      proof (cases "comment_on_line buf (Suc p)")
        case None
        with 1 [OF True on] obtain q where "drop (Suc p) buf = q @ after_comment (drop (Suc p) buf)" "has_nl q" by auto
        with ext [of q] step None show ?thesis by (simp only: option.case) (metis has_nl_simps(2))
      next
        case (Some p')
        with 1 [OF True on] obtain q where q: "drop (Suc p) buf = q @ after_comment (drop (Suc p) buf)" "\<not> has_nl q"
          "drop p' buf = after_comment (drop (Suc p) buf)" by auto
        then have "\<not> has_nl (buf ! p # q)" using on(1) by simp
        with ext [OF q(1)] step Some q(3) ac show ?thesis by (simp only: option.case) blast
      qed
    qed
  qed
qed

lemma line_ends_text:
  "line_ends_loop buf p \<longleftrightarrow> ws_skip (drop p buf) = [] \<or> has_nl (skipped (drop p buf))"
proof (induction buf p rule: line_ends_loop.induct)
  case (1 buf p)
  show ?case
  proof (cases "p < length buf")
    case False
    then show ?thesis by (simp add: line_ends_loop.simps [of buf p])
  next
    case True
    let ?c = "buf ! p"
    have d: "drop p buf = ?c # drop (Suc p) buf" using True by (simp add: Cons_nth_drop_Suc)
    have ll: "two_at buf p (CHR ''/'') (CHR ''/'') \<longleftrightarrow> drop p buf = CHR ''/'' # CHR ''/'' # drop (p + 2) buf"
      and lb: "two_at buf p (CHR ''/'') (CHR ''*'') \<longleftrightarrow> drop p buf = CHR ''/'' # CHR ''*'' # drop (p + 2) buf"
      by (rule two_at_drop)+
    consider (blank) "?c = CHR '' '' \<or> ?c = TAB" | (nl) "\<not> (?c = CHR '' '' \<or> ?c = TAB)" "is_nl ?c"
      | (line) r where "\<not> (?c = CHR '' '' \<or> ?c = TAB)" "\<not> is_nl ?c" "drop p buf = CHR ''/'' # CHR ''/'' # r"
          "two_at buf p (CHR ''/'') (CHR ''/'')"
      | (block) "\<not> (?c = CHR '' '' \<or> ?c = TAB)" "\<not> is_nl ?c" "\<not> two_at buf p (CHR ''/'') (CHR ''/'')"
          "drop p buf = CHR ''/'' # CHR ''*'' # drop (p + 2) buf" "two_at buf p (CHR ''/'') (CHR ''*'')"
      | (token) "\<not> is_blank True ?c" "\<not> two_at buf p (CHR ''/'') (CHR ''/'')" "\<not> two_at buf p (CHR ''/'') (CHR ''*'')"
      using ll lb unfolding is_blank_def by metis
    then show ?thesis
    proof cases
      case blank
      then have "is_blank True ?c" by (auto simp: is_blank_def)
      moreover have "line_ends_loop buf p = line_ends_loop buf (Suc p)" 
        using True blank by (subst line_ends_loop.simps) simp
      moreover have "has_nl (skipped (?c # drop (Suc p) buf)) = has_nl (skipped (drop (Suc p) buf))"
        using blank \<open>is_blank True ?c\<close> by (simp add: skipped_simps(2)) (auto simp: )
      ultimately show ?thesis using 1(1) [OF True blank] unfolding d by (simp only: ws_skip_simps(2))
    next
      case nl
      then have "is_blank True ?c" by (auto simp: is_blank_def)
      then have "skipped (drop p buf) = ?c # skipped (drop (Suc p) buf)" unfolding d by (rule skipped_simps(2))
      then have B: "has_nl (skipped (drop p buf))" using nl(2) by (simp only: has_nl_simps) blast
      have "line_ends_loop buf p" 
        by (subst line_ends_loop.simps) (simp only: True nl if_True if_False simp_thms)
      with B show ?thesis by (simp only: simp_thms)
    next
      case line
      have "ws_skip (dropWhile not_nl r) = [] \<or> has_nl (skipped (dropWhile not_nl r))"
      proof (cases "dropWhile not_nl r")
        case Nil
        show ?thesis unfolding Nil by simp
      next
        case (Cons c t)
        then have "c = LF \<or> c = CR" using hd_dropWhile [of not_nl r] by simp
        with Cons show ?thesis by (auto simp: skipped_simps is_blank_def)
      qed
      moreover have "line_ends_loop buf p" using True line by (subst line_ends_loop.simps) simp
      ultimately show ?thesis unfolding line(3) by (simp add: skipped_simps(3)) blast
    next
      case block
      have eq: "line_ends_loop buf p = (case comment_on_line buf (p + 2) of None \<Rightarrow> True | Some p' \<Rightarrow> line_ends_loop buf p')"
        using True block by (subst line_ends_loop.simps) auto
      show ?thesis
      proof (cases "comment_on_line buf (p + 2)")
        case None
        with comment_on_line_text [of "p + 2" buf] obtain q where
          q: "drop (p + 2) buf = q @ after_comment (drop (p + 2) buf)" "has_nl q" by auto
        with skipped_block [OF q(1)] block(4) None eq show ?thesis by simp
      next
        case (Some p')
        with comment_on_line_text [of "p + 2" buf] obtain q where
          q: "drop (p + 2) buf = q @ after_comment (drop (p + 2) buf)" "\<not> has_nl q"
            "drop p' buf = after_comment (drop (p + 2) buf)" by auto
        have "line_ends_loop buf p' \<longleftrightarrow> ws_skip (drop p' buf) = [] \<or> has_nl (skipped (drop p' buf))"
          using 1(2) [OF True block(1,2,3,5) Some] .
        with skipped_block [OF q(1)] q block(4) Some eq show ?thesis by simp
      qed
    next
      case token
      then have "\<nexists>r'. drop p buf = ''//'' @ r'" "\<nexists>r'. drop p buf = ''/*'' @ r'"
        using two_at_ex [of p buf] by auto
      then have "ws_skip (drop p buf) = drop p buf" unfolding d using token(1) by (intro ws_skip_token)
      moreover have "skipped (drop p buf) = []" using calculation by (simp add: skipped_def)
      moreover have "\<not> line_ends_loop buf p" using True token by (subst line_ends_loop.simps) (auto simp: is_blank_def)
      ultimately show ?thesis using True by simp
    qed
  qed
qed



end
