(* ===== verification/Dq_Inv.thy ===== *)
theory Dq_Inv
  imports Dq_White "HOL-Library.Sublist"
begin

text \<open>
  The state of the DQ feeder as a whole: what every directive, and with them \<open>SkipWhite\<close>, keeps of
  its tables (loaded files, return positions, source dependencies, link libraries).
\<close>

section \<open>The reading operations stay in their file\<close>

lemma sf_sameI: "scanner sf_buf sf_cur sf_inv act \<Longrightarrow> sf_inv s \<Longrightarrow> sf_file (snd (act s)) = sf_file s
    \<Longrightarrow> sf_same s (snd (act s))"
  by (simp add: sf_same_def scanner.act_good)

lemma sf_files [simp]:
  "sf_file (snd (sf_SkipSpaces b s)) = sf_file s"
  "sf_file (snd (sf_ReadTo cs s)) = sf_file s"
  "sf_file (snd (sf_ReadToChar c s)) = sf_file s"
  "sf_file (snd (sf_ReadLine s)) = sf_file s"
  "sf_file (snd (sf_CheckSymbol cs consume s)) = sf_file s"
  "sf_file (snd (sf_ReadIdentifier v consume s)) = sf_file s"
  "sf_file (snd (sf_SearchPattern cs consume s)) = sf_file s"
  by (simp_all add: sf_SkipSpaces_def sf_ReadTo_def sf_ReadToChar_def sf_ReadLine_eq sf_CheckSymbol_def
      sf_ReadIdentifier_def sf_SearchPattern_def Let_def split: prod.split option.split)

lemma sf_file_quoted [simp]: "sf_file (snd (sf_ReadQuotedString v s)) = sf_file s"
  unfolding sf_ReadQuotedString_def Let_def
  by (simp add: goto_pos_def SaveCurPos_def split: option.split prod.split)

lemmas sf_sames =
  sf_sameI [OF sf_skip.scanner_axioms] sf_sameI [OF sf_to.scanner_axioms] sf_sameI [OF sf_to_char.scanner_axioms]
  sf_sameI [OF sf_readline.scanner_axioms] sf_sameI [OF sf_symbol.scanner_axioms]
  sf_sameI [OF sf_ident.scanner_axioms] sf_sameI [OF sf_search.scanner_axioms] sf_sameI [OF sf_quoted.scanner_axioms]

lemma int64_same:
  assumes "sf_inv s" and "sf_ReadInt64Value n s = Some (r, s')"
  shows "sf_same s s'"
proof -
  from assms(2) obtain p v m ok where l: "int64_loop (sf_buf s) (sf_cur s) (sf_cur s) 0 1 False = Some (p, v, m, ok)"
    and s': "s' = (let s1 = s\<lparr>sf_prevpos := SaveCurPos s, sf_prev := sf_cur s\<rparr>
      in if ok then sf_consume p (s1\<lparr>sf_prevlen := p - sf_cur s\<rparr>) else s1)"
    by (auto simp: sf_ReadInt64Value_def Let_def split: Option.bind_splits if_splits)
  from int64_loop_range [OF l] assms(1) s' show ?thesis by (auto simp: sf_same_def sf_inv_def Let_def)
qed

lemma inactive_pass_file: "inactive_pass s = Inr s' \<or> inactive_pass s = Inl s' \<Longrightarrow> sf_file s' = sf_file s"
proof -
  assume a: "inactive_pass s = Inr s' \<or> inactive_pass s = Inl s'"
  obtain ok s1 where r: "sf_ReadTo [DQUOTE, SQUOTE, CHR ''#'', CHR ''/''] s = (ok, s1)" by fastforce
  obtain okq w s2 where q: "sf_ReadQuotedString [] s1 = ((okq, w), s2)" by (metis prod.exhaust)
  obtain b2 s3 where c2: "sf_CheckSymbol ''#'' False s1 = (b2, s3)" by fastforce
  obtain b3 s4 where c3: "sf_CheckSymbol ''//'' False s3 = (b3, s4)" by fastforce
  obtain b4 s5 where c4: "sf_CheckSymbol ''/*'' False s4 = (b4, s5)" by fastforce
  have "sf_file s1 = sf_file s" "sf_file s2 = sf_file s1" "sf_file s3 = sf_file s1" "sf_file s4 = sf_file s3" "sf_file s5 = sf_file s4"
    using r q c2 c3 c4 by (metis snd_conv sf_files sf_file_quoted)+
  with a r q c2 c3 c4 show ?thesis
    by (cases ok; cases okq; cases b2; cases b3; cases b4) (auto simp: inactive_pass_def split: if_splits)
qed

lemma inactive_pass_same:
  assumes "inactive_pass s = Inl s'" and "sf_inv s"
  shows "sf_same s s'"
proof -
  obtain ok s1 where r: "sf_ReadTo [DQUOTE, SQUOTE, CHR ''#'', CHR ''/''] s = (ok, s1)" by fastforce
  obtain okq w s2 where q: "sf_ReadQuotedString [] s1 = ((okq, w), s2)" by (metis prod.exhaust)
  obtain b2 s3 where c2: "sf_CheckSymbol ''#'' False s1 = (b2, s3)" by fastforce
  obtain b3 s4 where c3: "sf_CheckSymbol ''//'' False s3 = (b3, s4)" by fastforce
  obtain b4 s5 where c4: "sf_CheckSymbol ''/*'' False s4 = (b4, s5)" by fastforce
  have "sf_inv s1" using sf_to.act_good [OF assms(2)] r by (metis snd_conv)
  with sf_symbol.act_good c2 c3 c4 have "sf_inv s3" "sf_inv s4" "sf_inv s5" by (metis snd_conv)+
  with \<open>sf_inv s1\<close> assms(1) r q c2 c3 c4 have "sf_inv s'"
    by (cases ok; cases okq; cases b2; cases b3; cases b4) (auto simp: inactive_pass_def split: if_splits)
  then show ?thesis using inactive_pass_file [of s s'] assms(1) by (simp add: sf_same_def)
qed

lemma SkipInactiveCode_same: "sf_inv s \<Longrightarrow> sf_same s (SkipInactiveCode s)"
proof (induction s rule: SkipInactiveCode.induct)
  case (1 s)
  show ?case
  proof (cases "sf_cur s < sf_end s")
    case False
    with 1 show ?thesis by (simp add: SkipInactiveCode.simps [of s] sf_same_refl)
  next
    case True
    show ?thesis
    proof (cases "inactive_pass s")
      case (Inl s')
      with True inactive_pass_same [OF Inl 1(2)] show ?thesis by (simp add: SkipInactiveCode.simps [of s])
    next
      case (Inr s')
      from inactive_pass_Inr [OF Inr True] inactive_pass_file [of s s'] Inr
      have same: "sf_same s s'" by (simp add: sf_same_def sf_inv_def)
      with 1(1) [OF True Inr] Inr True show ?thesis
        by (simp add: SkipInactiveCode.simps [of s]) (metis sf_same_inv sf_same_trans)
    qed
  qed
qed

lemma inactive_asm_pass_same:
  assumes "p < sf_end s"
  shows "(inactive_asm_pass s p = Inl s' \<longrightarrow> sf_same s s') \<and> (inactive_asm_pass s p = Inr (s', p') \<longrightarrow> sf_file s' = sf_file s)"
proof -
  have inv: "sf_inv (s\<lparr>sf_cur := q\<rparr>)" if "q \<le> sf_end s" for q using that by (simp add: sf_inv_def)
  have two: "p + 2 \<le> sf_end s" if "two_at (sf_buf s) p a b" for a b using that by simp
  obtain b t where t: "sf_SearchPattern ''*/'' True (s\<lparr>sf_cur := p + 2\<rparr>) = (b, t)" by fastforce
  have tf: "sf_file t = sf_file s" using sf_files(7) [of "''*/''" True "s\<lparr>sf_cur := p + 2\<rparr>"] unfolding t by simp
  have ti: "sf_inv t" if "p + 2 \<le> sf_end s"
    using sf_search.act_good [OF inv [OF that], of "''*/''" True] unfolding t by simp
  note act = sf_readline.act_good [OF inv [of p]] sf_to.act_good [OF inv [of "p + 2"], of "[CR, LF]"]
  then show ?thesis using assms tf ti
    by (auto simp: inactive_asm_pass_def Let_def sf_same_def sf_inv_def t simp del: add_2_eq_Suc'
        split: if_splits bool.splits)
qed

lemma SkipInactiveAsmCode_same:
  assumes "sf_inv s"
  shows "sf_same s (SkipInactiveAsmCode s)"
proof -
  have "p \<le> sf_end s \<Longrightarrow> sf_file (inactive_asm_loop s p) = sf_file s \<and> sf_inv (inactive_asm_loop s p)" for p
  proof (induction s p rule: inactive_asm_loop.induct)
    case (1 s p)
    show ?case
    proof (cases "p < sf_end s")
      case False
      with 1 show ?thesis
        by (simp add: inactive_asm_loop.simps [of s p] inactive_asm_loop.simps [of s "sf_end s"] sf_inv_def)
    next
      case True
      show ?thesis
      proof (cases "inactive_asm_pass s p")
        case (Inl s')
        with True inactive_asm_pass_same [OF True, of s'] show ?thesis
          by (simp add: inactive_asm_loop.simps [of s p] sf_same_def)
      next
        case (Inr x)
        obtain s' p' where x: "x = (s', p')" by (cases x)
        from inactive_asm_pass_Inr [OF Inr [unfolded x] True] inactive_asm_pass_same [OF True, of s' p'] Inr x
        have "p' \<le> sf_end s'" "sf_file s' = sf_file s" by simp_all
        with 1(1) [OF True Inr x [symmetric, THEN sym, symmetric]] Inr x True show ?thesis
          by (simp add: inactive_asm_loop.simps [of s p])
      qed
    qed
  qed
  then show ?thesis using assms by (simp add: SkipInactiveAsmCode_def sf_same_def sf_inv_def)
qed

section \<open>Well-formed states\<close>

definition file_pos_ok :: "(scfile \<times> nat) list \<Rightarrow> scpos \<Rightarrow> bool" where
  "file_pos_ok fs p \<longleftrightarrow>
     (case pos_file p of None \<Rightarrow> False | Some f \<Rightarrow> f \<in> fst ` set fs \<and> pos_off p \<le> length (sc_body f))"

definition dq_wf :: "'e dqs \<Rightarrow> bool" where
  "dq_wf s \<longleftrightarrow>
     file_pos_ok (d_files s) (SaveCurPos (d_sf s)) \<and> list_all (file_pos_ok (d_files s)) (d_ret s)
     \<and> map (sc_index \<circ> fst) (d_files s) = [0..<length (d_files s)]
     \<and> distinct (map (sc_fullpath \<circ> fst) (d_files s)) \<and> list_all (\<lambda>(f, n). 0 < n) (d_files s)
     \<and> distinct (map dep_filename (d_deps s))
     \<and> distinct (d_linklibs s) \<and> list_all IsValidLinkLibName (d_linklibs s)"

definition dq_ext :: "'e dqs \<Rightarrow> 'e dqs \<Rightarrow> bool" where
  "dq_ext s0 s \<longleftrightarrow> dq_wf s \<and> prefix (map fst (d_files s0)) (map fst (d_files s))
     \<and> prefix (d_deps s0) (d_deps s) \<and> prefix (d_linklibs s0) (d_linklibs s)"

lemma dq_wf_inv: "dq_wf s \<Longrightarrow> sf_inv (d_sf s)"
  by (auto simp: dq_wf_def file_pos_ok_def SaveCurPos_def sf_inv_def sf_buf_def split: option.splits)

lemma dq_ext_refl: "dq_wf s \<Longrightarrow> dq_ext s s"
  by (simp add: dq_ext_def)

lemma dq_ext_trans: "dq_ext s0 s1 \<Longrightarrow> dq_ext s1 s2 \<Longrightarrow> dq_ext s0 s2"
  by (auto simp: dq_ext_def)

lemma dq_ext_fields [simp]:
  "dq_ext s0 (s\<lparr>d_start := a\<rparr>) = dq_ext s0 s" "dq_ext s0 (s\<lparr>d_cond := b\<rparr>) = dq_ext s0 s"
  "dq_ext s0 (s\<lparr>d_inactive := c\<rparr>) = dq_ext s0 s" "dq_ext s0 (s\<lparr>d_brace := c\<rparr>) = dq_ext s0 s"
  "dq_ext s0 (s\<lparr>d_errors := e\<rparr>) = dq_ext s0 s" "dq_ext s0 (s\<lparr>d_env := f\<rparr>) = dq_ext s0 s"
  "dq_ext s0 (s\<lparr>d_root_depth := i\<rparr>) = dq_ext s0 s"
  by (simp_all add: dq_ext_def dq_wf_def)

lemma dq_ext_sf:
  assumes "dq_ext s0 s" and "sf_same (d_sf s) x"
  shows "dq_ext s0 (s\<lparr>d_sf := x\<rparr>)"
  using assms by (auto simp: dq_ext_def dq_wf_def file_pos_ok_def SaveCurPos_def sf_same_def sf_inv_def sf_buf_def
      split: option.splits)

lemma dq_ext_inv: "dq_ext s0 s \<Longrightarrow> sf_inv (d_sf s)"
  by (simp add: dq_ext_def dq_wf_inv)

lemma ext_rd:
  "dq_ext s0 s \<Longrightarrow> (\<And>sf. sf_inv sf \<Longrightarrow> sf_same sf (snd (f sf))) \<Longrightarrow> dq_ext s0 (snd (rd f s))"
  by (simp add: rd_eq dq_ext_sf dq_ext_inv)

lemma ext_reads [simp]:
  assumes "dq_ext s0 s"
  shows "dq_ext s0 (skip_spaces b s)" "dq_ext s0 (snd (rd (sf_ReadTo cs) s))" "dq_ext s0 (snd (rd (sf_ReadToChar c) s))"
    "dq_ext s0 (snd (rd (sf_CheckSymbol cs consume) s))" "dq_ext s0 (snd (rd (sf_ReadIdentifier v consume) s))"
    "dq_ext s0 (snd (rd (sf_ReadQuotedString v) s))"
  by (rule ext_rd [OF assms]; rule sf_sames; simp)+

lemma ext_dq_Error [simp]: "dq_ext s0 (dq_Error e p1 p2 s) = dq_ext s0 s"
  by (simp add: dq_Error_def)

lemma ext_PreprocError [simp]: "dq_ext s0 s \<Longrightarrow> dq_ext s0 (PreprocError2 e p1 p2 r s)"
  by (simp add: PreprocError2_def preproc_recover_def Let_def case_prod_beta)

lemma ext_fail [simp]: "dq_ext s0 s \<Longrightarrow> dq_ext s0 (fail_directive e p s)"
  by (simp add: fail_directive_def)

lemma ext_FindDirectiveEnd [simp]: "dq_ext s0 s \<Longrightarrow> dq_ext s0 (snd (FindDirectiveEnd s))"
  by (simp add: FindDirectiveEnd_def case_prod_beta split: bool.split)

lemma ext_ReadConditionalSymbol [simp]: "dq_ext s0 s \<Longrightarrow> dq_ext s0 (snd (ReadConditionalSymbol d s))"
  by (simp add: ReadConditionalSymbol_def Let_def case_prod_beta split: bool.split)

lemma ext_StartConditionalBranch [simp]: "dq_ext s0 s \<Longrightarrow> dq_ext s0 (StartConditionalBranch s)"
  by (simp add: StartConditionalBranch_def)

lemma ext_wrong_include [simp]: "dq_ext s0 s \<Longrightarrow> dq_ext s0 (wrong_include d s)"
  by (simp add: wrong_include_def Let_def)

lemma ext_set_cond [simp]: "dq_ext s0 (set_cond f s) = dq_ext s0 s"
  by (simp add: set_cond_def)

lemma ext_Continue [simp]: "dq_ext s0 s \<Longrightarrow> dq_ext s0 (snd (ContinueConditionalBranch d s))"
  by (simp add: ContinueConditionalBranch_def Let_def split: list.split)

lemma ext_Apply: "ApplyConditionalResult b s = Some s' \<Longrightarrow> dq_ext s0 s \<Longrightarrow> dq_ext s0 s'"
  by (auto simp: ApplyConditionalResult_def split: if_splits list.splits)

text \<open>The compiler behind the feeder keeps the state well-formed when it reads a condition.\<close>

definition host_keeps :: "'e host \<Rightarrow> bool" where
  "host_keeps h \<longleftrightarrow>
     (\<forall>s. dq_wf s \<longrightarrow> (\<forall>ns x. dq_ext s (snd (h_defined h ns x s))) \<and> dq_ext s (snd (h_condition h s))
        \<and> (\<forall>x. dq_ext s (h_define_const h x s)))"

lemma ext_host:
  assumes "host_keeps h" and "dq_ext s0 s"
  shows "dq_ext s0 (snd (h_defined h ns x s))" "dq_ext s0 (snd (h_condition h s))" "dq_ext s0 (h_define_const h x s)"
  using assms dq_ext_trans unfolding host_keeps_def by (metis dq_ext_def)+

lemma ext_conditional:
  assumes "host_keeps h" and "dq_ext s0 s" and "conditional h aid s = Some (Some s')"
  shows "dq_ext s0 s'"
proof -
  have e: "dq_ext s0 (cond_endif s)" "dq_ext s0 (cond_else s)"
    using assms(2) by (auto simp: cond_endif_def cond_else_def Let_def split: list.split)
  have ad: "apply_defined h w ns x s1 = Some s2 \<Longrightarrow> dq_ext s0 s1 \<Longrightarrow> dq_ext s0 s2" for w ns x s1 s2
    using ext_host(1) [OF assms(1)] by (auto simp: apply_defined_def case_prod_beta split: if_splits intro: ext_Apply)
  have ac: "apply_condition h s1 = Some s2 \<Longrightarrow> dq_ext s0 s1 \<Longrightarrow> dq_ext s0 s2" for s1 s2
    using ext_host(2) [OF assms(1)] by (auto simp: apply_condition_def case_prod_beta intro: ext_Apply)
  have 1: "cond_ifdef h aid w s = Some s' \<Longrightarrow> dq_ext s0 s'" for w
    using assms(2) ad by (auto simp: cond_ifdef_def case_prod_beta split: if_splits)
  have 2: "cond_elifdef h aid w s = Some s' \<Longrightarrow> dq_ext s0 s'" for w
    using assms(2) ad by (auto simp: cond_elifdef_def case_prod_beta split: if_splits)
  have 3: "cond_if h s = Some s' \<Longrightarrow> dq_ext s0 s'"
    using assms(2) ac by (auto simp: cond_if_def Let_def split: if_splits)
  have 4: "cond_elif h s = Some s' \<Longrightarrow> dq_ext s0 s'"
    using assms(2) ac by (auto simp: cond_elif_def case_prod_beta split: if_splits)
  show ?thesis using assms(3) e 1 2 3 4 by (auto simp: conditional_def split: if_splits)
qed

lemma ext_CheckConditionals:
  "host_keeps h \<Longrightarrow> dq_ext s0 s \<Longrightarrow> CheckConditionals h aid s = Some (b, s') \<Longrightarrow> dq_ext s0 s'"
  by (auto simp: CheckConditionals_def split: option.splits dest: ext_conditional)

section \<open>Files\<close>

lemma use_loaded_files:
  "use_loaded full fs = Some (f, fs') \<Longrightarrow>
     map fst fs' = map fst fs \<and> f \<in> fst ` set fs \<and> sc_fullpath f = full
     \<and> (list_all (\<lambda>(f, n). 0 < n) fs \<longrightarrow> list_all (\<lambda>(f, n). 0 < n) fs')"
  by (induction fs arbitrary: fs') (auto split: prod.splits option.splits if_splits)

lemma use_loaded_none: "use_loaded full fs = None \<longleftrightarrow> full \<notin> sc_fullpath ` fst ` set fs"
proof (induction fs)
  case (Cons x fs)
  then show ?case by (cases x) (auto split: option.splits)
qed simp

lemma pos_ok_fst: "map fst fs = map fst fs' \<Longrightarrow> file_pos_ok fs = file_pos_ok fs'"
proof -
  assume "map fst fs = map fst fs'"
  then have "fst ` set fs = fst ` set fs'" by (metis list.set_map)
  then show ?thesis unfolding file_pos_ok_def by (simp only:)
qed

lemma pos_ok_mono: "file_pos_ok fs p \<Longrightarrow> file_pos_ok (fs @ fs') p"
  by (auto simp: file_pos_ok_def split: option.splits)

lemma ext_LoadFile:
  assumes "dq_ext s0 s" and "LoadFile h name s = (r, s')"
  shows "dq_ext s0 s'" "\<And>f. r = Some f \<Longrightarrow> f \<in> fst ` set (d_files s')"
proof -
  let ?full = "h_abs h name"
  have "dq_ext s0 s' \<and> (\<forall>f. r = Some f \<longrightarrow> f \<in> fst ` set (d_files s'))"
  proof (cases "use_loaded ?full (d_files s)")
    case (Some x)
    obtain f fs where x: "x = (f, fs)" by (cases x)
    note u = use_loaded_files [OF Some [unfolded x]]
    from u have l: "length fs = length (d_files s)" by (metis length_map)
    from u have m: "map fst fs = map fst (d_files s)" by blast
    then have i: "map (sc_index \<circ> fst) fs = map (sc_index \<circ> fst) (d_files s)"
      "map (sc_fullpath \<circ> fst) fs = map (sc_fullpath \<circ> fst) (d_files s)" by (metis map_map)+
    from m have "fst ` set fs = fst ` set (d_files s)" by (metis list.set_map)
    moreover have "s' = s\<lparr>d_files := fs\<rparr>" "r = Some f" using assms(2) Some x by (simp_all add: LoadFile_def)
    ultimately show ?thesis
      using assms(1) u l i m pos_ok_fst [OF m] by (simp add: dq_ext_def dq_wf_def)
  next
    case None
    then have new: "?full \<notin> sc_fullpath ` fst ` set (d_files s)" by (simp add: use_loaded_none)
    show ?thesis
    proof (cases "h_read h ?full")
      case None
      with assms \<open>use_loaded _ _ = None\<close> show ?thesis by (auto simp: LoadFile_def)
    next
      case (Some x)
      obtain body time where x: "x = (body, time)" by (cases x)
      with assms \<open>use_loaded _ _ = None\<close> Some new show ?thesis
        by (auto simp: LoadFile_def Let_def dq_ext_def dq_wf_def pos_ok_mono list_all_iff image_iff)
    qed
  qed
  then show "dq_ext s0 s'" "\<And>f. r = Some f \<Longrightarrow> f \<in> fst ` set (d_files s')" by blast+
qed

lemma ext_add_dep: "dq_ext s0 s \<Longrightarrow> \<not> has_dep (dep_filename d) s \<Longrightarrow> dq_ext s0 (add_dep d s)"
  by (auto simp: dq_ext_def dq_wf_def add_dep_def has_dep_def list_ex_iff)

lemma ext_deps:
  assumes "dq_ext s0 s"
  shows "AddSourceDependencyPath h path s = (b, s') \<Longrightarrow> dq_ext s0 s'"
    and "AddSourceDependencyFile h (Some f) s = (b, s') \<Longrightarrow> dq_ext s0 s' \<and> d_files s' = d_files s"
  using assms ext_add_dep [OF assms]
  by (auto simp: AddSourceDependencyPath_def AddSourceDependencyFile_def Let_def add_dep_def split: if_splits option.splits prod.splits)

lemma ext_enter:
  assumes "dq_ext s0 s" and "f \<in> fst ` set (d_files s)"
  shows "dq_ext s0 (upd_sf (SetCurPosFile (Some f) 0) (s\<lparr>d_ret := SaveCurPos (d_sf s) # d_ret s\<rparr>))"
  using assms by (auto simp: dq_ext_def dq_wf_def upd_sf_def SetCurPosFile_def file_pos_ok_def SaveCurPos_def)

lemma ext_enter_include [simp]:
  assumes "dq_ext s0 s"
  shows "dq_ext s0 (enter_include h path name incl s)"
proof -
  obtain r s1 where l: "LoadFile h path s = (r, s1)" by fastforce
  note s1 = ext_LoadFile [OF assms l]
  show ?thesis
  proof (cases r)
    case None
    with l s1 show ?thesis by (simp add: enter_include_def)
  next
    case (Some f)
    obtain b s2 where a: "AddSourceDependencyFile h (Some f) s1 = (b, s2)" by fastforce
    from ext_deps(2) [OF s1(1) a] s1(2) [OF Some] ext_enter [OF s1(1)] ext_enter [of s0 s2 f] s1(1) l Some a show ?thesis
      by (simp add: enter_include_def split: bool.split)
  qed
qed

section \<open>The directives\<close>

lemma ext_run_directive:
  assumes "host_keeps h" and "dq_ext s0 s" and "run_directive h sid s = Some s'"
  shows "dq_ext s0 s'"
proof -
  have 1: "dq_ext s0 (ParseDirectiveDefine h s)"
    using assms(2) ext_host [OF assms(1)]
    by (simp add: ParseDirectiveDefine_def case_prod_beta split: bool.split)
  have ll: "dq_ext s0 (s1\<lparr>d_linklibs := d_linklibs s1 @ [x]\<rparr>)" if "dq_ext s0 s1" "x \<notin> set (d_linklibs s1)" "IsValidLinkLibName x" for s1 x
    using that by (auto simp: dq_ext_def dq_wf_def)
  have 2: "dq_ext s0 (ParseDirectiveLinkLib s)"
    using assms(2) by (simp add: ParseDirectiveLinkLib_def case_prod_beta ll split: bool.split)
  have 3: "ParseDirectiveInclude h s = Some s' \<Longrightarrow> dq_ext s0 s'"
    using assms(2) by (auto simp: ParseDirectiveInclude_def case_prod_beta split: bool.splits if_splits option.splits)
  have dep: "dq_ext s0 (snd (AddSourceDependencyPath h path s1))" if "dq_ext s0 s1" for path s1
    using ext_deps(1) [OF that] by (metis prod.collapse)
  have 4: "ParseDirectiveSourceDependency h s = Some s' \<Longrightarrow> dq_ext s0 s'"
    using assms(2) dep
    by (auto simp: ParseDirectiveSourceDependency_def case_prod_beta split: bool.splits if_splits option.splits)
  have i64: "sf_ReadInt64Value n (d_sf s1) = Some (r, x) \<Longrightarrow> dq_ext s0 s1 \<Longrightarrow> dq_ext s0 (s1\<lparr>d_sf := x\<rparr>)" for n s1 r x
    by (rule dq_ext_sf) (auto intro: int64_same dq_ext_inv)
  have 5: "ParseDirectiveOpt s = Some s' \<Longrightarrow> dq_ext s0 s'"
    using assms(2)
    by (auto simp: ParseDirectiveOpt_def case_prod_beta Let_def dest!: i64 split: bool.splits if_splits option.splits)
  have 6: "ParseIncludeOnce s = Some s' \<Longrightarrow> dq_ext s0 s'"
    using assms(2) ext_FindDirectiveEnd [OF assms(2)]
    by (auto simp: ParseIncludeOnce_def Let_def upd_sf_def sf_same_def sf_inv_def intro!: dq_ext_sf split: if_splits option.splits)
  show ?thesis using assms(2,3) 1 2 3 4 5 6 by (auto simp: run_directive_def split: if_splits)
qed

lemma ext_ParseDirective:
  assumes "host_keeps h" and "dq_ext s0 s" and "ParseDirective h s = Some s'"
  shows "dq_ext s0 s'"
proof -
  let ?s1 = "skip_spaces False (s\<lparr>d_start := sf_prevpos (d_sf s)\<rparr>)"
  define s2 where "s2 = (case rd (sf_CheckSymbol ''{'' True) ?s1 of
                  (True, s') \<Rightarrow> skip_spaces False (s'\<lparr>d_brace := True\<rparr>)
                | (False, s') \<Rightarrow> s'\<lparr>d_brace := False\<rparr>)"
  have s2: "dq_ext s0 s2" using assms(2) by (simp add: s2_def case_prod_beta split: bool.split)
  obtain b sid s3 where r: "rd (sf_ReadIdentifier [] True) s2 = ((b, sid), s3)" by (metis prod.exhaust)
  have s3: "dq_ext s0 s3" using ext_reads(5) [OF s2, of "[]" True] r by simp
  have run: "ParseDirective h s = (if b then (case CheckConditionals h sid s3 of
                None \<Rightarrow> None
              | Some (True, s4) \<Rightarrow> Some s4
              | Some (False, s4) \<Rightarrow> run_directive h sid s4) else Some (fail_directive CDIR_KW_MISSING [] s3))"
    using r by (simp add: ParseDirective_def Let_def s2_def [symmetric])
  show ?thesis
  proof (cases b)
    case False
    with run assms(3) s3 show ?thesis by auto
  next
    case True
    with run assms(3) obtain c s4 where c: "CheckConditionals h sid s3 = Some (c, s4)"
      by (auto split: option.splits)
    from ext_CheckConditionals [OF assms(1) s3 c] ext_run_directive [OF assms(1), of s0 s4 sid s'] run assms(3) True c
    show ?thesis by (cases c) auto
  qed
qed

section \<open>White space\<close>

lemma ext_upd_sf: "dq_ext s0 s \<Longrightarrow> sf_same (d_sf s) (f (d_sf s)) \<Longrightarrow> dq_ext s0 (upd_sf f s)"
  by (simp add: upd_sf_def dq_ext_sf)

lemma ext_set_lastline [simp]: "dq_ext s0 s \<Longrightarrow> dq_ext s0 (set_lastline l s)"
  unfolding set_lastline_def by (rule ext_upd_sf) (auto dest!: dq_ext_inv simp: sf_same_def sf_inv_def)

lemma block_comment_same: "sf_inv s \<Longrightarrow> sf_same s (skip_block_comment s)"
proof -
  assume s: "sf_inv s"
  obtain b t where t: "sf_SearchPattern ''*/'' True s = (b, t)" by fastforce
  with sf_sames(7) [OF s, of "''*/''" True] sf_files(7) [of "''*/''" True s] have "sf_same s t" by simp
  with t show ?thesis by (cases b) (auto simp: skip_block_comment_def sf_same_def sf_inv_def)
qed

lemma ext_inactive [simp]:
  assumes "dq_ext s0 s"
  shows "dq_ext s0 (upd_sf RecalcCurCol s)" "dq_ext s0 (upd_sf SkipInactiveCode s)"
    "dq_ext s0 (upd_sf SkipInactiveAsmCode s)" "dq_ext s0 (upd_sf skip_block_comment s)"
  using dq_ext_inv [OF assms]
  by (auto intro!: ext_upd_sf [OF assms] SkipInactiveCode_same SkipInactiveAsmCode_same block_comment_same
      simp: sf_same_def sf_inv_def)

lemma ext_pass:
  assumes "host_keeps h" and "dq_ext s0 s" and "SkipWhite_pass h look s = Some x"
  shows "dq_ext s0 (case x of Inl s' \<Rightarrow> s' | Inr s' \<Rightarrow> s')"
proof -
  let ?s1 = "skip_spaces (\<not> d_expr s) s"
  obtain b2 s2 where c2: "rd (sf_CheckSymbol ''//'' True) ?s1 = (b2, s2)" by fastforce
  obtain b3 s3 where c3: "rd (sf_CheckSymbol ''/*'' True) s2 = (b3, s3)" by fastforce
  obtain b4 s4 where c4: "rd (sf_CheckSymbol ''#'' True) s3 = (b4, s4)" by fastforce
  have s1: "dq_ext s0 ?s1" using assms(2) by simp
  have s2: "dq_ext s0 s2" using ext_reads(4) [OF s1, of "''//''" True] c2 by simp
  have s3: "dq_ext s0 s3" using ext_reads(4) [OF s2, of "''/*''" True] c3 by simp
  have s4: "dq_ext s0 s4" using ext_reads(4) [OF s3, of "''#''" True] c4 by simp
  note d = ext_ParseDirective [OF assms(1) s4]
  show ?thesis
    using assms(3) s1 s2 s3 s4 c2 c3 c4
    by (cases b2; cases b3; cases b4)
      (auto simp: SkipWhite_pass_def Let_def split: if_splits option.splits dest: d)
qed

lemma ext_return:
  assumes "dq_ext s0 s" and "return_from_include s = Some s'"
  shows "dq_ext s0 s'"
proof (cases "d_ret s")
  case Nil
  with assms show ?thesis by (simp add: return_from_include_def)
next
  case (Cons p ps)
  from assms(1) Cons have p: "file_pos_ok (d_files s) p" by (simp add: dq_ext_def dq_wf_def)
  let ?sf = "goto_pos p (d_sf s)"
  from p have "SetCurPos p (d_sf s) = Some ?sf" by (auto simp: SetCurPos_def file_pos_ok_def split: option.splits)
  with assms(2) Cons have s': "s' = s\<lparr>d_ret := ps, d_sf := ?sf\<lparr>sf_lastline := max 0 (sf_line ?sf - 1)\<rparr>\<rparr>"
    by (simp add: return_from_include_def)
  have "file_pos_ok (d_files s) (SaveCurPos (?sf\<lparr>sf_lastline := l\<rparr>))" for l
    using p by (auto simp: file_pos_ok_def SaveCurPos_def goto_pos_def split: option.splits)
  with assms(1) Cons show ?thesis unfolding s' by (simp add: dq_ext_def dq_wf_def)
qed

lemma ext_SkipWhite:
  assumes "host_keeps h" and "dq_ext s0 s" and "SkipWhite h look s = Some s'"
  shows "dq_ext s0 s'"
proof -
  let ?P = "\<lambda>h' look s s'. h' = h \<longrightarrow> dq_ext s0 s \<longrightarrow> dq_ext s0 s'"
  have "?P h look s s'"
  proof (rule SkipWhite.raw_induct [where P = ?P, OF _ assms(3)], intro impI)
    fix skip h' look s s'
    assume IH: "\<And>h' look s s'. skip h' look s = Some s' \<Longrightarrow> ?P h' look s s'"
      and run: "(if d_cur s < d_end s then
          Option.bind (SkipWhite_pass h' look s) (\<lambda>r. case r of Inl s' \<Rightarrow> Some s' | Inr s' \<Rightarrow> skip h' look s')
        else if \<not> d_expr s \<and> d_ret s \<noteq> [] then Option.bind (return_from_include s) (skip h' look)
        else Some s) = Some s'"
      and h: "h' = h" and s: "dq_ext s0 s"
    from run consider
      (pass) x where "SkipWhite_pass h' look s = Some x" "(case x of Inl t \<Rightarrow> Some t | Inr t \<Rightarrow> skip h' look t) = Some s'"
      | (ret) t where "return_from_include s = Some t" "skip h' look t = Some s'"
      | (stop) "s' = s"
      by (auto split: if_splits simp: bind_eq_Some_conv)
    then show "dq_ext s0 s'"
    proof cases
      case pass
      with IH h ext_pass [OF assms(1) s, of look x] show ?thesis by (cases x) auto
    next
      case ret
      with IH h ext_return [OF s] show ?thesis by blast
    next
      case stop
      with s show ?thesis by simp
    qed
  qed
  with assms(2) show ?thesis by blast
qed



end
