(* ===== verification/Dq_Brace.thy ===== *)
theory Dq_Brace
  imports Dq_Cond
begin

text \<open>
  Directives in braces, \<open>#{...}\<close>: when their end is found, and the directive whose end is never found.
\<close>

section \<open>The end of a directive in braces\<close>

lemma FindDirectiveEnd_brace_ok:
  assumes "text_at s r" and "d_brace s" and "dropWhile (is_blank True) r = CHR ''}'' # t"
  shows "\<exists>s'. FindDirectiveEnd s = (True, s') \<and> moved s s' \<and> text_at s' t"
proof -
  from skip_spaces_at [OF assms(1), of True] assms(3) have
    s1: "moved s (skip_spaces True s)" "text_at (skip_spaces True s) (''}'' @ t)" by simp_all
  from symbol_at [OF s1(2)] obtain s2 where
    "rd (sf_CheckSymbol ''}'' True) (skip_spaces True s) = (True, s2)" "moved (skip_spaces True s) s2" "text_at s2 t"
    by blast
  with moved_trans [OF s1(1)] assms(2) show ?thesis by (auto simp: FindDirectiveEnd_def)
qed

lemma d_errors_rd [simp]: "d_errors (snd (rd f s)) = d_errors s"
  by (simp add: rd_eq)

lemma d_errors_recover [simp]: "d_errors (preproc_recover s) = d_errors s"
  using d_errors_rd by (auto simp: preproc_recover_def rd_eq split: prod.splits)

lemma FindDirectiveEnd_brace_missing:
  assumes "text_at s r" and "d_brace s" and "\<not> d_suppress s"
    and "dropWhile (is_blank True) r = [] \<or> hd (dropWhile (is_blank True) r) \<noteq> CHR ''}''"
  shows "\<exists>s'. FindDirectiveEnd s = (False, s') \<and> d_errors s' = d_errors s @ [(CDIR_CLOSER_MISSING, [], [], d_start s)]"
proof -
  let ?d = "dropWhile (is_blank True) r"
  from skip_spaces_at [OF assms(1), of True] have
    s1: "moved s (skip_spaces True s)" "text_at (skip_spaces True s) ?d" by simp_all
  have no_brace: "\<nexists>r'. ?d = ''}'' @ r'"
  proof
    assume "\<exists>r'. ?d = ''}'' @ r'"
    then obtain r' where d: "?d = CHR ''}'' # r'" by auto
    show False using assms(4) unfolding d by simp
  qed
  obtain s2 where s2: "rd (sf_CheckSymbol ''}'' True) (skip_spaces True s) = (False, s2)"
      "moved (skip_spaces True s) s2"
    using no_symbol_at [OF s1(2), of "''}''" True] no_brace by blast
  have m: "moved s s2" using moved_trans s1(1) s2(2) .
  then have "\<not> d_suppress s2" using assms(3) unfolding moved_def by (cases s; cases s2) simp
  with s2(1) assms(2) moved_fields [OF m] show ?thesis
    by (simp add: FindDirectiveEnd_def PreprocError2_def dq_Error_def Let_def)
qed

text \<open>C26: In braces, \<open>#elif\<close> behind a branch that was taken (or inside inactive code) never succeeds:
  its condition is then not read, so the closing brace is not found behind it, and the directive is
  reported as unclosed, whatever the condition is. Only an empty condition escapes.\<close>

theorem dq_brace_elif_always_fails:
  assumes "sf_inv (d_sf s) \<and> d_brace s \<and> \<not> d_suppress s"
    and "d_cond s = c # cs \<and> c_state c \<noteq> FCOND_ELSE \<and> pos_file (c_startpos c) = sf_file (d_sf s)"
    and "c_branch_taken c \<or> c_parent_inactive c"
    and "dropWhile (is_blank True) (drop (d_cur s) (d_buf s)) = [] \<or>
      hd (dropWhile (is_blank True) (drop (d_cur s) (d_buf s))) \<noteq> CHR ''}''"
  shows "\<exists>s'. CheckConditionals h ''elif'' s = Some (True, s')
    \<and> d_errors s' = d_errors s @ [(CDIR_CLOSER_MISSING, [], [], d_start s)]"
proof -
  let ?s1 = "s\<lparr>d_inactive := True, d_cond := c\<lparr>c_state := FCOND_ELIF\<rparr> # cs\<rparr>"
  have "ContinueConditionalBranch ''#elif'' s = (False, ?s1)"
    using assms(2,3) by (auto simp: ContinueConditionalBranch_def set_cond_def Let_def)
  then have "conditional h ''elif'' s = Some (Some ?s1)"
    by (simp add: conditional_def cond_elif_def)
  moreover have "text_at ?s1 (drop (d_cur s) (d_buf s))" using assms(1) by (simp add: text_at_def sf_rest_def)
  from FindDirectiveEnd_brace_missing [OF this _ _ assms(4)] assms(1) obtain s' where
    "FindDirectiveEnd ?s1 = (False, s')" "d_errors s' = d_errors s @ [(CDIR_CLOSER_MISSING, [], [], d_start s)]" by auto
  ultimately show ?thesis by (simp add: CheckConditionals_def)
qed

lemma dq_brace_elif_always_fails_witness:
  "\<exists>s'. CheckConditionals sample_host ''elif''
      ((sample_dqs '' x} 2'')\<lparr>d_cond := [(new_cond (SaveCurPos (d_sf (sample_dqs '' x} 2''))) False)\<lparr>c_branch_taken := True\<rparr>]\<rparr>)
      = Some (True, s') \<and> length (d_errors s') = 1"
proof -
  let ?b = "'' x} 2''"
  let ?c = "(new_cond (SaveCurPos (d_sf (sample_dqs ?b))) False)\<lparr>c_branch_taken := True\<rparr>"
  let ?s = "(sample_dqs ?b)\<lparr>d_cond := [?c]\<rparr>"
  have r: "drop (d_cur ?s) (d_buf ?s) = ?b" and i: "sf_inv (d_sf ?s)" using sample_dqs_at [of ?b] by simp_all
  have 1: "sf_inv (d_sf ?s) \<and> d_brace ?s \<and> \<not> d_suppress ?s" using i by (simp add: sample_dqs_def)
  have 2: "d_cond ?s = [?c] \<and> c_state ?c \<noteq> FCOND_ELSE \<and> pos_file (c_startpos ?c) = sf_file (d_sf ?s)"
    by (simp add: new_cond_def SaveCurPos_def)
  have 3: "dropWhile (is_blank True) (drop (d_cur ?s) (d_buf ?s)) = [] \<or>
      hd (dropWhile (is_blank True) (drop (d_cur ?s) (d_buf ?s))) \<noteq> CHR ''}''" unfolding r by (simp add: is_blank_def)
  from dq_brace_elif_always_fails [OF 1 2 _ 3, of sample_host] obtain s' where
    "CheckConditionals sample_host ''elif'' ?s = Some (True, s')"
    "d_errors s' = d_errors ?s @ [(CDIR_CLOSER_MISSING, [], [], d_start ?s)]" by auto
  moreover have "d_errors ?s = []" by (simp add: sample_dqs_def)
  ultimately show ?thesis by auto
qed

end
