(* ===== verification/Expr_Ast.thy ===== *)
theory Expr_Ast
  imports "HOL-Library.Word" "HOL-Library.Signed_Division" Prelude
begin

text \<open>
  The scalar expressions of the compiler (\<open>compiler/ast/expressions.{h,cpp}\<close>): their types
  (\<open>compiler/types\<close>), the node constructors with the type each node gets, and the functions
  that build numeric operations (\<open>compiler/ast/dqc_ast.cpp\<close>). Aliases are resolved: \<open>int\<close> is the
  native integer. Floating-point values are an abstract type \<open>'f\<close>.
\<close>

unbundle bit_operations_syntax

type_synonym int64 = "64 word"

section \<open>Types\<close>

text \<open>
  \<open>TChar b\<close> stands for \<open>char\<close>, \<open>char16\<close> and \<open>wchar\<close>, unsigned integers of \<open>b\<close> bits of the kinds
  \<open>TK_CHAR\<close> and \<open>TK_WCHAR\<close>.
\<close>

datatype sty = TInt nat bool | TChar nat | TBool | TFloat nat

record target =
  native_bits :: nat
  float_bits :: nat

definition type_int :: "target \<Rightarrow> sty" where
  "type_int t = TInt (native_bits t) True"

definition type_float :: "target \<Rightarrow> sty" where
  "type_float t = TFloat (float_bits t)"

definition IsCharacterType :: "sty \<Rightarrow> bool" where
  "IsCharacterType ty = (case ty of TChar _ \<Rightarrow> True | _ \<Rightarrow> False)"

text \<open>\<open>FindIntType\<close>: a null pointer for any other width.\<close>

definition FindIntType :: "nat \<Rightarrow> bool \<Rightarrow> sty option" where
  "FindIntType b sg = (if b \<in> {8, 16, 32, 64} then Some (TInt b sg) else None)"

section \<open>Operators and nodes\<close>

datatype binop =
    BINOP_ADD | BINOP_SUB | BINOP_MUL | BINOP_DIV | BINOP_IDIV | BINOP_IREM | BINOP_IMOD
  | BINOP_IAND | BINOP_IOR | BINOP_IXOR | BINOP_ISHL | BINOP_ISHR

datatype cmpop = COMPOP_EQ | COMPOP_NE | COMPOP_LT | COMPOP_LE | COMPOP_GT | COMPOP_GE

datatype logop = LOGIOP_OR | LOGIOP_AND | LOGIOP_XOR

datatype rndmode = RNDMODE_ROUND | RNDMODE_CEIL | RNDMODE_FLOOR | RNDMODE_TRUNC

definition GetBinopSymbol :: "binop \<Rightarrow> string" where
  "GetBinopSymbol op = (case op of
     BINOP_ADD \<Rightarrow> ''+'' | BINOP_SUB \<Rightarrow> ''-'' | BINOP_MUL \<Rightarrow> ''*'' | BINOP_DIV \<Rightarrow> ''/''
   | BINOP_IDIV \<Rightarrow> ''div'' | BINOP_IREM \<Rightarrow> ''rem'' | BINOP_IMOD \<Rightarrow> ''mod''
   | BINOP_IAND \<Rightarrow> ''&'' | BINOP_IOR \<Rightarrow> ''|'' | BINOP_IXOR \<Rightarrow> ''xor'' | BINOP_ISHL \<Rightarrow> ''<<'' | BINOP_ISHR \<Rightarrow> ''>>'')"

definition GetCompareSymbol :: "cmpop \<Rightarrow> string" where
  "GetCompareSymbol op = (case op of
     COMPOP_EQ \<Rightarrow> ''=='' | COMPOP_NE \<Rightarrow> ''<>'' | COMPOP_LT \<Rightarrow> ''<'' | COMPOP_LE \<Rightarrow> ''<=''
   | COMPOP_GT \<Rightarrow> ''>'' | COMPOP_GE \<Rightarrow> ''>='')"

definition GetLogiOpSymbol :: "logop \<Rightarrow> string" where
  "GetLogiOpSymbol op = (case op of LOGIOP_OR \<Rightarrow> ''or'' | LOGIOP_AND \<Rightarrow> ''and'' | LOGIOP_XOR \<Rightarrow> ''xor'')"

text \<open>The value of a constant symbol; a symbol without one is a variable or a parameter.\<close>

datatype 'f constval = CInt int64 | CBool bool | CFloat 'f

text \<open>The node classes; each node that computes its type keeps it, as \<open>ptype\<close>.\<close>

datatype 'f expr =
    OIntLit int64 sty
  | OFloatLit 'f sty
  | OBoolLit bool
  | OLValueVar string sty "'f constval option"
  | OExprTypeConv sty "'f expr"
  | OBinExpr binop sty "'f expr" "'f expr"
  | OCompareExpr cmpop "'f expr" "'f expr"
  | OLogicalExpr logop "'f expr" "'f expr"
  | ONotExpr "'f expr"
  | OBinNotExpr sty "'f expr"
  | ONegExpr sty "'f expr"
  | OIifExpr sty "'f expr" "'f expr" "'f expr"
  | OFloatRoundExpr rndmode sty "'f expr"

fun etype :: "'f expr \<Rightarrow> sty" where
  "etype (OIntLit _ ty) = ty"
| "etype (OFloatLit _ ty) = ty"
| "etype (OBoolLit _) = TBool"
| "etype (OLValueVar _ ty _) = ty"
| "etype (OExprTypeConv ty _) = ty"
| "etype (OBinExpr _ ty _ _) = ty"
| "etype (OCompareExpr _ _ _) = TBool"
| "etype (OLogicalExpr _ _ _) = TBool"
| "etype (ONotExpr _) = TBool"
| "etype (OBinNotExpr ty _) = ty"
| "etype (ONegExpr ty _) = ty"
| "etype (OIifExpr ty _ _ _) = ty"
| "etype (OFloatRoundExpr _ ty _) = ty"

section \<open>The constructors\<close>

text \<open>\<open>new OBinExpr(op, left, right)\<close>: the type of the node.\<close>

definition new_BinExpr :: "target \<Rightarrow> binop \<Rightarrow> 'f expr \<Rightarrow> 'f expr \<Rightarrow> 'f expr" where
  "new_BinExpr t op l r =
     OBinExpr op
       (case etype l of
          TInt _ _ \<Rightarrow>
            (case etype r of
               TFloat _ \<Rightarrow> etype r
             | _ \<Rightarrow> if op = BINOP_DIV then type_float t else etype l)
        | _ \<Rightarrow> etype l) l r"

definition new_BinNotExpr :: "target \<Rightarrow> 'f expr \<Rightarrow> 'f expr" where
  "new_BinNotExpr t e =
     OBinNotExpr (case etype e of TInt _ _ \<Rightarrow> etype e | _ \<Rightarrow> type_int t) e"

text \<open>The sign of an unsigned operand changes; no integer type of its width is a null type.\<close>

definition new_NegExpr :: "'f expr \<Rightarrow> 'f expr option" where
  "new_NegExpr e =
     (case etype e of
        TInt b False \<Rightarrow> map_option (\<lambda>ty. ONegExpr ty e) (FindIntType b True)
      | ty \<Rightarrow> Some (ONegExpr ty e))"

definition new_IntLit :: "target \<Rightarrow> int64 \<Rightarrow> 'f expr" where
  "new_IntLit t v = OIntLit v (type_int t)"

definition new_FloatRoundExpr :: "target \<Rightarrow> rndmode \<Rightarrow> 'f expr \<Rightarrow> 'f expr" where
  "new_FloatRoundExpr t m e = OFloatRoundExpr m (type_int t) e"

section \<open>Numeric operations\<close>

text \<open>A conversion node where the type differs.\<close>

definition conv_to :: "sty \<Rightarrow> 'f expr \<Rightarrow> 'f expr" where
  "conv_to ty e = (if etype e = ty then e else OExprTypeConv ty e)"

text \<open>
  \<open>HarmonizeNumericOperands\<close>: whether the operands are numeric, and the operands converted to
  their common type. A missing integer type is a null type in a conversion node: \<open>None\<close>.
\<close>

definition HarmonizeNumericOperands ::
  "'f expr \<Rightarrow> 'f expr \<Rightarrow> bool \<Rightarrow> (bool \<times> 'f expr \<times> 'f expr) option" where
  "HarmonizeNumericOperands l r force_signed =
     (case (etype l, etype r) of
        (TInt bl sl, TInt br sr) \<Rightarrow>
          map_option (\<lambda>ty. (True, conv_to ty l, conv_to ty r))
            (FindIntType (max bl br) (force_signed \<or> sl \<or> sr))
      | (TInt _ _, TFloat _) \<Rightarrow> Some (True, OExprTypeConv (etype r) l, r)
      | (TFloat _, TInt _ _) \<Rightarrow> Some (True, l, OExprTypeConv (etype l) r)
      | (TFloat bl, TFloat br) \<Rightarrow>
          Some (True,
            if bl < br then OExprTypeConv (etype r) l else l,
            if bl > br then OExprTypeConv (etype l) r else r)
      | _ \<Rightarrow> Some (False, l, r))"

definition is_intty :: "sty \<Rightarrow> bool" where
  "is_intty ty = (case ty of TInt _ _ \<Rightarrow> True | _ \<Rightarrow> False)"

text \<open>The kinds of \<open>ETypeKind\<close> that the scalar types have.\<close>

datatype tkind = TK_INT | TK_FLOAT | TK_BOOL | TK_CHAR | TK_WCHAR

definition tkind_of :: "sty \<Rightarrow> tkind" where
  "tkind_of ty = (case ty of TInt _ _ \<Rightarrow> TK_INT | TFloat _ \<Rightarrow> TK_FLOAT | TBool \<Rightarrow> TK_BOOL
     | TChar b \<Rightarrow> if b = 32 then TK_WCHAR else TK_CHAR)"

definition is_bitop :: "binop \<Rightarrow> bool" where
  "is_bitop op \<longleftrightarrow> op \<in> {BINOP_IAND, BINOP_IOR, BINOP_IXOR, BINOP_ISHL, BINOP_ISHR}"

datatype builderr = NullType | TYPEMISM_FOR_OP sty string sty | BOOL_EXPR_EXPECTED sty

text \<open>\<open>CreateBinExpr\<close> on scalar operands, all of it but text concatenation and pointers.\<close>

definition CreateBinExpr :: "target \<Rightarrow> binop \<Rightarrow> 'f expr \<Rightarrow> 'f expr \<Rightarrow> builderr + 'f expr" where
  "CreateBinExpr t op l r =
     (let tl = etype l; tr = etype r;
          mismatch = Inl (TYPEMISM_FOR_OP tl (GetBinopSymbol op) tr);
          build = (\<lambda>x. case x of None \<Rightarrow> Inl NullType | Some (_, l', r') \<Rightarrow> Inr (new_BinExpr t op l' r'))
      in if IsCharacterType tl \<or> IsCharacterType tr then mismatch
         else if is_bitop op then
           (if \<not> is_intty tl \<or> \<not> is_intty tr then mismatch
            else if op = BINOP_ISHL \<or> op = BINOP_ISHR
            then Inr (new_BinExpr t op l (if tr \<noteq> tl then OExprTypeConv tl r else r))
            else build (HarmonizeNumericOperands l r False))
         else if tkind_of tl \<noteq> tkind_of tr then
           (case HarmonizeNumericOperands l r False of
              Some (False, _, _) \<Rightarrow> mismatch
            | x \<Rightarrow> build x)
         else if is_intty tl then
           (if op = BINOP_DIV
            then Inr (new_BinExpr t op (OExprTypeConv (type_float t) l) (OExprTypeConv (type_float t) r))
            else build (HarmonizeNumericOperands l r (op = BINOP_SUB)))
         else build (HarmonizeNumericOperands l r False))"

text \<open>\<open>CreateLogicalExpr\<close> and \<open>ParseExprNot\<close> replace an operand that is not a condition.\<close>

definition CreateLogicalExpr :: "logop \<Rightarrow> 'f expr \<Rightarrow> 'f expr \<Rightarrow> builderr option \<times> 'f expr" where
  "CreateLogicalExpr op l r =
     (if etype l \<noteq> TBool \<or> etype r \<noteq> TBool
      then (Some (TYPEMISM_FOR_OP (etype l) (GetLogiOpSymbol op) (etype r)), OBoolLit False)
      else (None, OLogicalExpr op l r))"

definition create_not :: "'f expr \<Rightarrow> builderr option \<times> 'f expr" where
  "create_not e =
     (if etype e \<noteq> TBool then (Some (BOOL_EXPR_EXPECTED (etype e)), OBoolLit False)
      else (None, ONotExpr e))"

end
