(* ===== verification/Expr_Fold.thy ===== *)
theory Expr_Fold
  imports Expr_Ast
begin

text \<open>
  Compile-time evaluation: \<open>CalculateConstant\<close> of the integer, Boolean and floating-point values
  (\<open>compiler/types/otype_int.cpp\<close>, \<open>otype_bool.cpp\<close>, \<open>otype_float.cpp\<close>), the folding of expression
  trees (\<open>FoldTree\<close>, \<open>FoldScalarExpr\<close>) and the conversions between scalar types. Arithmetic
  that C++ leaves undefined (signed overflow, division by zero, a shift out of range) is the result
  \<open>Undef\<close>. The host's \<open>double\<close> arithmetic is the record \<open>'f fpu\<close>.
\<close>

section \<open>Results\<close>

datatype cerr =
    NoReport | CONSTEXPR_NONCONST_SYM string string | TYPE_EXPECTED string sty
  | OP_UNHANDLED_FOR binop | OP_INVALID_FOR binop
  | INT_CONSTEXPR_ERROR | BOOL_CONSTEXPR_ERROR | FLOAT_CONSTEXPR_ERROR

datatype 'a folded = Undef | NotConst cerr | Const 'a

fun fbind :: "'a folded \<Rightarrow> ('a \<Rightarrow> 'b folded) \<Rightarrow> 'b folded" where
  "fbind (Const x) f = f x"
| "fbind (NotConst e) f = NotConst e"
| "fbind Undef f = Undef"

lemma fbind_Const [simp]: "fbind x f = Const y \<longleftrightarrow> (\<exists>v. x = Const v \<and> f v = Const y)"
  by (cases x) auto

lemma fbind_NotConst [simp]: "fbind x f = NotConst e \<longleftrightarrow> x = NotConst e \<or> (\<exists>v. x = Const v \<and> f v = NotConst e)"
  by (cases x) auto

record 'f fpu =
  fp_of_int :: "int \<Rightarrow> 'f"
  fp_to_int64 :: "'f \<Rightarrow> int option"
  fp_to_uint64 :: "'f \<Rightarrow> int option"
  fp_neg :: "'f \<Rightarrow> 'f"
  fp_bin :: "binop \<Rightarrow> 'f \<Rightarrow> 'f \<Rightarrow> 'f"
  fp_cmp :: "cmpop \<Rightarrow> 'f \<Rightarrow> 'f \<Rightarrow> bool"
  fp_round :: "rndmode \<Rightarrow> 'f \<Rightarrow> 'f"

section \<open>Integers of a type\<close>

definition ty_bits :: "sty \<Rightarrow> nat" where
  "ty_bits ty = (case ty of TInt b _ \<Rightarrow> b | TChar b \<Rightarrow> b | TFloat b \<Rightarrow> b | TBool \<Rightarrow> 1)"

definition ty_signed :: "sty \<Rightarrow> bool" where
  "ty_signed ty = (case ty of TInt _ s \<Rightarrow> s | _ \<Rightarrow> False)"

lemma ty_simps [simp]:
  "ty_bits (TInt b sg) = b" "ty_bits (TChar b) = b" "ty_bits (TFloat b) = b" "ty_bits TBool = 1"
  "ty_signed (TInt b sg) = sg" "\<not> ty_signed (TChar b)" "\<not> ty_signed TBool" "\<not> ty_signed (TFloat b)"
  by (simp_all add: ty_bits_def ty_signed_def)

definition NormalizeConstant :: "sty \<Rightarrow> 64 word \<Rightarrow> int64" where
  "NormalizeConstant ty rawbits =
     (if ty_bits ty \<ge> 64 then rawbits
      else
        let mask = push_bit (ty_bits ty) 1 - 1;
            raw = rawbits AND mask
        in if ty_signed ty \<and> raw AND push_bit (ty_bits ty - 1) 1 \<noteq> 0 then raw OR NOT mask else raw)"

definition ConvertConstant :: "sty \<Rightarrow> int64 \<Rightarrow> int64" where
  "ConvertConstant ty value = NormalizeConstant ty value"

text \<open>A signed result: overflow is undefined.\<close>

definition i64 :: "int \<Rightarrow> int64 folded" where
  "i64 x = (if - (2 ^ 63) \<le> x \<and> x < 2 ^ 63 then Const (word_of_int x) else Undef)"

text \<open>\<open>value = left op right\<close>, before it is converted to the type.\<close>

definition int_binop :: "sty \<Rightarrow> binop \<Rightarrow> int64 \<Rightarrow> int64 \<Rightarrow> int64 folded" where
  "int_binop ty op x y =
     (case op of
        BINOP_ADD \<Rightarrow> i64 (sint x + sint y)
      | BINOP_SUB \<Rightarrow> i64 (sint x - sint y)
      | BINOP_MUL \<Rightarrow> i64 (sint x * sint y)
      | BINOP_IDIV \<Rightarrow>
          if y = 0 then Undef
          else if ty_signed ty then i64 (sint x sdiv sint y) else Const (x div y)
      | BINOP_IREM \<Rightarrow>
          if y = 0 then Undef
          else if ty_signed ty then fbind (i64 (sint x sdiv sint y)) (\<lambda>_. i64 (sint x smod sint y))
          else Const (x mod y)
      | BINOP_IMOD \<Rightarrow>
          if y = 0 then Undef
          else if ty_signed ty then
            fbind (i64 (sint x sdiv sint y)) (\<lambda>_.
              fbind (i64 (sint x smod sint y)) (\<lambda>v.
                Const (if sint v < 0 then v + (if sint y > 0 then y else - y) else v)))
          else Const (x mod y)
      | BINOP_IAND \<Rightarrow> Const (x AND y)
      | BINOP_IOR \<Rightarrow> Const (x OR y)
      | BINOP_IXOR \<Rightarrow> Const (x XOR y)
      | BINOP_ISHL \<Rightarrow> if 0 \<le> sint y \<and> sint y < 64 then Const (push_bit (nat (sint y)) x) else Undef
      | BINOP_ISHR \<Rightarrow> if 0 \<le> sint y \<and> sint y < 64 then Const (word_of_int (drop_bit (nat (sint y)) (sint x))) else Undef
      | BINOP_DIV \<Rightarrow> NotConst (OP_UNHANDLED_FOR op))"

definition int_cmp :: "cmpop \<Rightarrow> int64 \<Rightarrow> int64 \<Rightarrow> bool" where
  "int_cmp op x y = (case op of
     COMPOP_EQ \<Rightarrow> sint x = sint y | COMPOP_NE \<Rightarrow> sint x \<noteq> sint y | COMPOP_LT \<Rightarrow> sint x < sint y
   | COMPOP_LE \<Rightarrow> sint x \<le> sint y | COMPOP_GT \<Rightarrow> sint x > sint y | COMPOP_GE \<Rightarrow> sint x \<ge> sint y)"

text \<open>\<open>int64_t(x)\<close> and \<open>uint64_t(x)\<close> of a floating-point value out of range are undefined.\<close>

definition of_fp :: "int option \<Rightarrow> int64 folded" where
  "of_fp x = (case x of None \<Rightarrow> Undef | Some i \<Rightarrow> Const (word_of_int i))"

section \<open>\<open>CalculateConstant\<close>\<close>

fun calc_int :: "target \<Rightarrow> 'f fpu \<Rightarrow> sty \<Rightarrow> 'f expr \<Rightarrow> int64 folded"
  and calc_bool :: "target \<Rightarrow> 'f fpu \<Rightarrow> 'f expr \<Rightarrow> bool folded"
  and calc_float :: "target \<Rightarrow> 'f fpu \<Rightarrow> 'f expr \<Rightarrow> 'f folded" where
  "calc_int t fp ty e =
     (case e of
        OIntLit v _ \<Rightarrow> Const (ConvertConstant ty v)
      | ONegExpr _ x \<Rightarrow> fbind (calc_int t fp ty x) (\<lambda>v. fbind (i64 (- sint v)) (\<lambda>w. Const (ConvertConstant ty w)))
      | OBinNotExpr _ x \<Rightarrow> fbind (calc_int t fp ty x) (\<lambda>v. Const (ConvertConstant ty (NOT v)))
      | OExprTypeConv _ x \<Rightarrow>
          (case etype x of
             TInt _ _ \<Rightarrow> fbind (calc_int t fp (etype x) x) (\<lambda>v. Const (ConvertConstant ty v))
           | TFloat _ \<Rightarrow>
               fbind (calc_float t fp x) (\<lambda>v.
                 if ty_signed ty then fbind (of_fp (fp_to_int64 fp v)) (\<lambda>w. Const (ConvertConstant ty w))
                 else fbind (of_fp (fp_to_uint64 fp v)) (\<lambda>w. Const (NormalizeConstant ty w)))
           | TBool \<Rightarrow> fbind (calc_bool t fp x) (\<lambda>b. Const (ConvertConstant ty (if b then 1 else 0)))
           | TChar _ \<Rightarrow> NotConst INT_CONSTEXPR_ERROR)
      | OLValueVar n vt c \<Rightarrow>
          (case c of
             None \<Rightarrow> NotConst (CONSTEXPR_NONCONST_SYM n ''int'')
           | Some (CInt v) \<Rightarrow> Const (ConvertConstant ty v)
           | Some _ \<Rightarrow> NotConst (TYPE_EXPECTED ''int'' vt))
      | OBinExpr op _ x y \<Rightarrow>
          fbind (calc_int t fp ty x) (\<lambda>v. fbind (calc_int t fp ty y) (\<lambda>w.
            fbind (int_binop ty op v w) (\<lambda>u. Const (ConvertConstant ty u))))
      | OFloatRoundExpr m _ x \<Rightarrow>
          fbind (calc_float t fp x) (\<lambda>v. fbind (of_fp (fp_to_int64 fp (fp_round fp m v)))
            (\<lambda>w. Const (ConvertConstant ty w)))
      | _ \<Rightarrow> NotConst INT_CONSTEXPR_ERROR)"
| "calc_bool t fp e =
     (case e of
        OBoolLit b \<Rightarrow> Const b
      | ONotExpr x \<Rightarrow> fbind (calc_bool t fp x) (\<lambda>b. Const (\<not> b))
      | OLValueVar n vt c \<Rightarrow>
          (case c of
             None \<Rightarrow> NotConst (CONSTEXPR_NONCONST_SYM n ''bool'')
           | Some (CBool b) \<Rightarrow> Const b
           | Some _ \<Rightarrow> NotConst (TYPE_EXPECTED ''bool'' vt))
      | OLogicalExpr op x y \<Rightarrow>
          fbind (calc_bool t fp x) (\<lambda>a. fbind (calc_bool t fp y) (\<lambda>b.
            Const (case op of LOGIOP_AND \<Rightarrow> a \<and> b | LOGIOP_OR \<Rightarrow> a \<or> b | LOGIOP_XOR \<Rightarrow> a \<noteq> b)))
      | OCompareExpr op x y \<Rightarrow>
          (case etype x of
             TBool \<Rightarrow>
               if op = COMPOP_EQ \<or> op = COMPOP_NE then
                 fbind (calc_bool t fp x) (\<lambda>a. fbind (calc_bool t fp y) (\<lambda>b.
                   Const (if op = COMPOP_EQ then a = b else a \<noteq> b)))
               else NotConst BOOL_CONSTEXPR_ERROR
           | TInt _ _ \<Rightarrow>
               fbind (calc_int t fp (type_int t) x) (\<lambda>a. fbind (calc_int t fp (type_int t) y) (\<lambda>b.
                 Const (int_cmp op a b)))
           | TFloat _ \<Rightarrow>
               fbind (calc_float t fp x) (\<lambda>a. fbind (calc_float t fp y) (\<lambda>b. Const (fp_cmp fp op a b)))
           | TChar _ \<Rightarrow> NotConst BOOL_CONSTEXPR_ERROR)
      | _ \<Rightarrow> NotConst BOOL_CONSTEXPR_ERROR)"
| "calc_float t fp e =
     (case e of
        OIntLit v _ \<Rightarrow> Const (fp_of_int fp (sint v))
      | OFloatLit v _ \<Rightarrow> Const v
      | OExprTypeConv _ x \<Rightarrow>
          (case etype x of
             TFloat _ \<Rightarrow> calc_float t fp x
           | TInt _ _ \<Rightarrow> fbind (calc_int t fp (etype x) x) (\<lambda>v. Const (fp_of_int fp (sint v)))
           | _ \<Rightarrow> NotConst NoReport)
      | ONegExpr _ x \<Rightarrow> fbind (calc_float t fp x) (\<lambda>v. Const (fp_neg fp v))
      | OLValueVar n vt c \<Rightarrow>
          (case c of
             None \<Rightarrow> NotConst (CONSTEXPR_NONCONST_SYM n ''float'')
           | Some (CFloat v) \<Rightarrow> Const v
           | Some _ \<Rightarrow> NotConst (TYPE_EXPECTED ''float'' vt))
      | OBinExpr op _ x y \<Rightarrow>
          fbind (calc_float t fp x) (\<lambda>v. fbind (calc_float t fp y) (\<lambda>w.
            if op \<in> {BINOP_ADD, BINOP_SUB, BINOP_MUL, BINOP_DIV} then Const (fp_bin fp op v w)
            else NotConst (OP_INVALID_FOR op)))
      | _ \<Rightarrow> NotConst FLOAT_CONSTEXPR_ERROR)"

declare calc_int.simps [simp del] calc_bool.simps [simp del] calc_float.simps [simp del]

section \<open>Folding\<close>

text \<open>\<open>FoldScalarExpr\<close>: the literal of a constant expression; undefined arithmetic is \<open>None\<close>.\<close>

definition FoldScalarExpr :: "target \<Rightarrow> 'f fpu \<Rightarrow> 'f expr \<Rightarrow> 'f expr option" where
  "FoldScalarExpr t fp e =
     (case etype e of
        TFloat _ \<Rightarrow>
          (case calc_float t fp e of Undef \<Rightarrow> None | NotConst _ \<Rightarrow> Some e | Const v \<Rightarrow> Some (OFloatLit v (etype e)))
      | TBool \<Rightarrow>
          (case calc_bool t fp e of Undef \<Rightarrow> None | NotConst _ \<Rightarrow> Some e | Const b \<Rightarrow> Some (OBoolLit b))
      | _ \<Rightarrow>
          (case calc_int t fp (etype e) e of Undef \<Rightarrow> None | NotConst _ \<Rightarrow> Some e
           | Const v \<Rightarrow> Some (OIntLit v (etype e))))"

text \<open>\<open>FoldTree\<close>: the children first, then the node; only the branch of an \<open>iif\<close> that is kept.\<close>

fun FoldTree :: "target \<Rightarrow> 'f fpu \<Rightarrow> 'f expr \<Rightarrow> 'f expr option" where
  "FoldTree t fp (OExprTypeConv ty x) =
     Option.bind (FoldTree t fp x) (\<lambda>x'. FoldScalarExpr t fp (OExprTypeConv ty x'))"
| "FoldTree t fp (OBinExpr op ty x y) =
     Option.bind (FoldTree t fp x) (\<lambda>x'. Option.bind (FoldTree t fp y) (\<lambda>y'.
       FoldScalarExpr t fp (OBinExpr op ty x' y')))"
| "FoldTree t fp (OCompareExpr op x y) =
     Option.bind (FoldTree t fp x) (\<lambda>x'. Option.bind (FoldTree t fp y) (\<lambda>y'.
       FoldScalarExpr t fp (OCompareExpr op x' y')))"
| "FoldTree t fp (OLogicalExpr op x y) =
     Option.bind (FoldTree t fp x) (\<lambda>x'. Option.bind (FoldTree t fp y) (\<lambda>y'.
       FoldScalarExpr t fp (OLogicalExpr op x' y')))"
| "FoldTree t fp (ONotExpr x) = Option.bind (FoldTree t fp x) (\<lambda>x'. FoldScalarExpr t fp (ONotExpr x'))"
| "FoldTree t fp (OBinNotExpr ty x) =
     Option.bind (FoldTree t fp x) (\<lambda>x'. FoldScalarExpr t fp (OBinNotExpr ty x'))"
| "FoldTree t fp (ONegExpr ty x) =
     Option.bind (FoldTree t fp x) (\<lambda>x'. FoldScalarExpr t fp (ONegExpr ty x'))"
| "FoldTree t fp (OFloatRoundExpr m ty x) =
     Option.bind (FoldTree t fp x) (\<lambda>x'. FoldScalarExpr t fp (OFloatRoundExpr m ty x'))"
| "FoldTree t fp (OIifExpr ty c x y) =
     Option.bind (FoldTree t fp c) (\<lambda>c'.
       case c' of
         OBoolLit b \<Rightarrow> if b then FoldTree t fp x else FoldTree t fp y
       | _ \<Rightarrow> Option.bind (FoldTree t fp x) (\<lambda>x'. Option.bind (FoldTree t fp y) (\<lambda>y'.
                Some (OIifExpr ty c' x' y'))))"
| "FoldTree t fp e = Some e"

definition TryCalculateIntConstant :: "target \<Rightarrow> 'f fpu \<Rightarrow> 'f expr \<Rightarrow> int64 folded" where
  "TryCalculateIntConstant t fp e =
     (case etype e of
        TInt _ _ \<Rightarrow> calc_int t fp (etype e) e
      | TChar _ \<Rightarrow> calc_int t fp (etype e) e
      | _ \<Rightarrow> NotConst NoReport)"

section \<open>Conversions\<close>

text \<open>A direct character literal: an integer literal of type \<open>wchar\<close>.\<close>

definition TryGetDirectWCharLiteralValue :: "'f expr \<Rightarrow> int64 option" where
  "TryGetDirectWCharLiteralValue e = (case e of OIntLit v (TChar b) \<Rightarrow> if b = 32 then Some v else None | _ \<Rightarrow> None)"

definition IsValidWCharValue :: "int \<Rightarrow> bool" where
  "IsValidWCharValue v \<longleftrightarrow> 0 \<le> v \<and> v \<le> 0x10FFFF \<and> \<not> (0xD800 \<le> v \<and> v \<le> 0xDFFF)"

definition CharConstantAccepted :: "nat \<Rightarrow> int \<Rightarrow> bool" where
  "CharConstantAccepted b v =
     (if b = 8 then 0 \<le> v \<and> v \<le> 255
      else if b = 16 then 0 \<le> v \<and> v \<le> 0xFFFF
      else if b = 32 then IsValidWCharValue v
      else False)"

datatype converr = CAST_INVALID sty sty | TYPEMISM_ASSIGN sty sty | CAST_FLOAT_TO_INT sty sty | UNDEFINED_ARITH

definition ConversionError :: "bool \<Rightarrow> sty \<Rightarrow> sty \<Rightarrow> converr" where
  "ConversionError explicit dst src = (if explicit then CAST_INVALID src dst else TYPEMISM_ASSIGN dst src)"

text \<open>\<open>WrapTypeConv\<close>: the conversion node, folded.\<close>

definition WrapTypeConv :: "target \<Rightarrow> 'f fpu \<Rightarrow> sty \<Rightarrow> 'f expr \<Rightarrow> converr + 'f expr" where
  "WrapTypeConv t fp dst e =
     (case FoldTree t fp (OExprTypeConv dst e) of None \<Rightarrow> Inl UNDEFINED_ARITH | Some e' \<Rightarrow> Inr e')"

text \<open>\<open>AnalyzeConversion\<close> of the scalar types, when it converts; \<open>explicit\<close> is a cast in the source.\<close>

definition ConvertScalar :: "target \<Rightarrow> 'f fpu \<Rightarrow> bool \<Rightarrow> sty \<Rightarrow> 'f expr \<Rightarrow> converr + 'f expr" where
  "ConvertScalar t fp explicit dst e =
     (let src = etype e; wrap = WrapTypeConv t fp dst e; err = Inl (ConversionError explicit dst src) in
      if dst = src then Inr e
      else (case dst of
        TInt _ _ \<Rightarrow>
          (case src of
             TInt _ _ \<Rightarrow> wrap
           | TBool \<Rightarrow> if explicit then wrap else err
           | TFloat _ \<Rightarrow> if explicit then Inl (CAST_FLOAT_TO_INT src dst) else err
           | TChar _ \<Rightarrow> err)
      | TFloat _ \<Rightarrow>
          (case src of TInt _ _ \<Rightarrow> wrap | TFloat _ \<Rightarrow> wrap | _ \<Rightarrow> err)
      | TBool \<Rightarrow> err
      | TChar b \<Rightarrow>
          (case TryGetDirectWCharLiteralValue e of
             Some v \<Rightarrow> if CharConstantAccepted b (sint v) then wrap else err
           | None \<Rightarrow>
               if \<not> explicit \<or> \<not> is_intty src then err
               else (case TryCalculateIntConstant t fp e of
                       Undef \<Rightarrow> Inl UNDEFINED_ARITH
                     | NotConst _ \<Rightarrow> wrap
                     | Const v \<Rightarrow> if CharConstantAccepted b (sint v) then wrap else err))))"

text \<open>\<open>CreateCompareExpr\<close> on scalar operands; a mismatch gives \<open>false\<close> after the error.\<close>

definition compare_mismatch :: "cmpop \<Rightarrow> sty \<Rightarrow> sty \<Rightarrow> (builderr option \<times> 'f expr)" where
  "compare_mismatch op l r = (Some (TYPEMISM_FOR_OP l (GetCompareSymbol op) r), OBoolLit False)"

text \<open>The other operand of a character literal decides its type.\<close>

definition adapt_literal :: "target \<Rightarrow> 'f fpu \<Rightarrow> sty \<Rightarrow> 'f expr \<Rightarrow> 'f expr" where
  "adapt_literal t fp ty e = (case ConvertScalar t fp False ty e of Inl _ \<Rightarrow> e | Inr e' \<Rightarrow> e')"

definition CreateCompareExpr :: "target \<Rightarrow> 'f fpu \<Rightarrow> cmpop \<Rightarrow> 'f expr \<Rightarrow> 'f expr \<Rightarrow> builderr option \<times> 'f expr" where
  "CreateCompareExpr t fp op l r =
     (let tl = etype l; tr = etype r;
          ll = TryGetDirectWCharLiteralValue l \<noteq> None; rl = TryGetDirectWCharLiteralValue r \<noteq> None;
          compare = (\<lambda>l r. case HarmonizeNumericOperands l r False of
            None \<Rightarrow> (Some NullType, OCompareExpr op l r)
          | Some (_, l', r') \<Rightarrow> (None, OCompareExpr op l' r'))
      in if tl = TBool \<or> tr = TBool then
           (if tl \<noteq> tr \<or> (op \<noteq> COMPOP_EQ \<and> op \<noteq> COMPOP_NE) then compare_mismatch op tl tr
            else (None, OCompareExpr op l r))
         else if (IsCharacterType tl \<or> IsCharacterType tr) \<and> tl \<noteq> tr then
           (if IsCharacterType tl \<and> \<not> ll \<and> rl then (None, OCompareExpr op l (adapt_literal t fp tl r))
            else if IsCharacterType tr \<and> \<not> rl \<and> ll then (None, OCompareExpr op (adapt_literal t fp tr l) r)
            else compare_mismatch op tl tr)
         else if IsCharacterType tl then (None, OCompareExpr op l r)
         else compare l r)"

end
