(* ===== verification/Expr_Gen.thy ===== *)
theory Expr_Gen
  imports Expr_Fold
begin

text \<open>
  Code generation of scalar expressions: the instructions that \<open>Generate\<close> of the expression nodes and
  \<open>GenerateConversion\<close> of the types ask the LLVM builder for, as a tree of builder calls, and what
  these instructions compute. The meaning of the instructions is a parameter \<open>L\<close> of the evaluation;
  \<open>llvm_langref L\<close> states what LLVM documents of it. Conditional branches that join in a phi node are
  one node \<open>LBranch\<close>. Captured variables, references and objects are not modelled.
\<close>

section \<open>Instructions\<close>

datatype lltype = LInt nat | LFloat nat

datatype lbin =
    LAdd | LSub | LMul | LSDiv | LUDiv | LSRem | LURem | LAnd | LOr | LXor | LShl | LAShr | LLShr

datatype lpred = LEQ | LNE | LSLT | LSGT | LSLE | LSGE | LULT | LUGT | LULE | LUGE

datatype lcast = LSExt | LZExt | LTrunc | LFPToSI | LFPToUI | LSIToFP | LUIToFP | LFPExt | LFPTrunc

datatype 'f ll =
    LConst nat int
  | LFConst nat 'f
  | LHalf nat bool
  | LLoad lltype string
  | LBin lbin "'f ll" "'f ll"
  | LFBin binop "'f ll" "'f ll"
  | LNeg "'f ll"
  | LFNeg "'f ll"
  | LNot "'f ll"
  | LICmp lpred "'f ll" "'f ll"
  | LFCmp cmpop "'f ll" "'f ll"
  | LCast lcast lltype "'f ll"
  | LSelect "'f ll" "'f ll" "'f ll"
  | LBranch "'f ll" "'f ll" "'f ll"

definition GetLlType :: "sty \<Rightarrow> lltype" where
  "GetLlType ty = (case ty of TInt b _ \<Rightarrow> LInt b | TChar b \<Rightarrow> LInt b | TBool \<Rightarrow> LInt 1
     | TFloat b \<Rightarrow> LFloat (if b > 32 then 64 else 32))"

section \<open>\<open>Generate\<close>\<close>

definition GenerateRemainder :: "bool \<Rightarrow> 'f ll \<Rightarrow> 'f ll \<Rightarrow> 'f ll" where
  "GenerateRemainder sg l r = LBin (if sg then LSRem else LURem) l r"

definition GenerateModulo :: "nat \<Rightarrow> bool \<Rightarrow> 'f ll \<Rightarrow> 'f ll \<Rightarrow> 'f ll" where
  "GenerateModulo b sg l r =
     (let rm = GenerateRemainder sg l r; zero = LConst b 0 in
      if \<not> sg then rm
      else LSelect (LICmp LSLT rm zero)
             (LSelect (LICmp LSGT r zero) (LBin LAdd rm r) (LBin LSub rm r)) rm)"

text \<open>An operation on integers of one type; \<open>None\<close> is the exception \<open>logic_error\<close>.\<close>

definition gen_intop :: "binop \<Rightarrow> nat \<Rightarrow> bool \<Rightarrow> 'f ll \<Rightarrow> 'f ll \<Rightarrow> 'f ll option" where
  "gen_intop op b sg l r =
     (case op of
        BINOP_ADD \<Rightarrow> Some (LBin LAdd l r)
      | BINOP_SUB \<Rightarrow> Some (LBin LSub l r)
      | BINOP_MUL \<Rightarrow> Some (LBin LMul l r)
      | BINOP_IDIV \<Rightarrow> Some (LBin (if sg then LSDiv else LUDiv) l r)
      | BINOP_IREM \<Rightarrow> Some (GenerateRemainder sg l r)
      | BINOP_IMOD \<Rightarrow> Some (GenerateModulo b sg l r)
      | BINOP_IOR \<Rightarrow> Some (LBin LOr l r)
      | BINOP_IAND \<Rightarrow> Some (LBin LAnd l r)
      | BINOP_IXOR \<Rightarrow> Some (LBin LXor l r)
      | BINOP_ISHL \<Rightarrow> Some (LBin LShl l r)
      | BINOP_ISHR \<Rightarrow> Some (LBin (if sg then LAShr else LLShr) l r)
      | BINOP_DIV \<Rightarrow> None)"

definition gen_binop :: "binop \<Rightarrow> sty \<Rightarrow> 'f ll \<Rightarrow> 'f ll \<Rightarrow> 'f ll option" where
  "gen_binop op ty l r =
     (case ty of
        TInt b sg \<Rightarrow> gen_intop op b sg l r
      | TFloat _ \<Rightarrow> if op \<in> {BINOP_ADD, BINOP_SUB, BINOP_MUL, BINOP_DIV} then Some (LFBin op l r) else None
      | _ \<Rightarrow> None)"

definition icmp_pred :: "cmpop \<Rightarrow> bool \<Rightarrow> lpred" where
  "icmp_pred op sg = (case op of
     COMPOP_EQ \<Rightarrow> LEQ | COMPOP_NE \<Rightarrow> LNE
   | COMPOP_LT \<Rightarrow> if sg then LSLT else LULT | COMPOP_GT \<Rightarrow> if sg then LSGT else LUGT
   | COMPOP_LE \<Rightarrow> if sg then LSLE else LULE | COMPOP_GE \<Rightarrow> if sg then LSGE else LUGE)"

text \<open>\<open>OCompareExpr::Generate\<close> by the type of the left operand.\<close>

definition gen_compare :: "cmpop \<Rightarrow> sty \<Rightarrow> 'f ll \<Rightarrow> 'f ll \<Rightarrow> 'f ll option" where
  "gen_compare op ty l r =
     (case ty of
        TFloat _ \<Rightarrow> Some (LFCmp op l r)
      | TBool \<Rightarrow> if op = COMPOP_EQ \<or> op = COMPOP_NE then Some (LICmp (icmp_pred op False) l r) else None
      | _ \<Rightarrow> Some (LICmp (icmp_pred op (ty_signed ty)) l r))"

text \<open>\<open>GenerateConversion\<close> of the destination type; \<open>bool\<close> has only the null result of \<open>OType\<close>.\<close>

definition gen_conv :: "sty \<Rightarrow> sty \<Rightarrow> 'f ll \<Rightarrow> 'f ll option" where
  "gen_conv dst src x =
     (let to_int = (\<lambda>b sg.
        case src of
          TFloat _ \<Rightarrow> Some (LCast (if sg then LFPToSI else LFPToUI) (LInt b) x)
        | TBool \<Rightarrow> Some (if b > 1 then LCast LZExt (LInt b) x else x)
        | _ \<Rightarrow> Some (if b > ty_bits src then LCast (if ty_signed src then LSExt else LZExt) (LInt b) x
                      else LCast LTrunc (LInt b) x))
      in case dst of
        TInt b sg \<Rightarrow> to_int b sg
      | TChar b \<Rightarrow> to_int b False
      | TFloat b \<Rightarrow>
          (case src of
             TFloat b2 \<Rightarrow> Some (if b > b2 then LCast LFPExt (GetLlType dst) x
                               else if b < b2 then LCast LFPTrunc (GetLlType dst) x else x)
           | TBool \<Rightarrow> None
           | _ \<Rightarrow> Some (LCast (if ty_signed src then LSIToFP else LUIToFP) (GetLlType dst) x))
      | TBool \<Rightarrow> None)"

text \<open>\<open>OFloatRoundExpr::Generate\<close>; \<open>LHalf\<close> is the constant 0.5 or -0.5 in the operand's type.\<close>

definition gen_round :: "rndmode \<Rightarrow> nat \<Rightarrow> nat \<Rightarrow> 'f \<Rightarrow> 'f ll \<Rightarrow> 'f ll" where
  "gen_round m fb ib zero x =
     (let toint = LCast LFPToSI (LInt ib); back = LCast LSIToFP (LFloat fb) (toint x) in
      case m of
        RNDMODE_ROUND \<Rightarrow>
          toint (LFBin BINOP_ADD x (LSelect (LFCmp COMPOP_GE x (LFConst fb zero)) (LHalf fb True) (LHalf fb False)))
      | RNDMODE_FLOOR \<Rightarrow> LBin LSub (toint x) (LCast LZExt (LInt ib) (LFCmp COMPOP_LT x back))
      | RNDMODE_CEIL \<Rightarrow> LBin LAdd (toint x) (LCast LZExt (LInt ib) (LFCmp COMPOP_GT x back))
      | RNDMODE_TRUNC \<Rightarrow> toint x)"

definition int_const :: "sty \<Rightarrow> int64 \<Rightarrow> 'f ll" where
  "int_const ty v = LConst (ty_bits ty) (uint v)"

definition bool_const :: "bool \<Rightarrow> 'f ll" where
  "bool_const b = LConst 1 (if b then 1 else 0)"

text \<open>\<open>OLValueVar::Generate\<close>: the constant's value, or a load of the variable.\<close>

definition gen_var :: "string \<Rightarrow> sty \<Rightarrow> 'f constval option \<Rightarrow> 'f ll" where
  "gen_var n ty c =
     (case c of
        None \<Rightarrow> LLoad (GetLlType ty) n
      | Some (CInt v) \<Rightarrow> int_const ty v
      | Some (CBool b) \<Rightarrow> bool_const b
      | Some (CFloat x) \<Rightarrow> LFConst (ty_bits ty) x)"

definition bind2 :: "'a option \<Rightarrow> 'a option \<Rightarrow> ('a \<Rightarrow> 'a \<Rightarrow> 'b option) \<Rightarrow> 'b option" where
  "bind2 x y f = Option.bind x (\<lambda>a. Option.bind y (f a))"

lemma bind2_Some [simp]: "bind2 x y f = Some z \<longleftrightarrow> (\<exists>a b. x = Some a \<and> y = Some b \<and> f a b = Some z)"
  by (auto simp: bind2_def bind_eq_Some_conv)

fun Generate :: "target \<Rightarrow> 'f fpu \<Rightarrow> 'f expr \<Rightarrow> 'f ll option" where
  "Generate t fp (OIntLit v ty) = Some (int_const ty v)"
| "Generate t fp (OFloatLit x ty) = Some (LFConst (ty_bits ty) x)"
| "Generate t fp (OBoolLit b) = Some (bool_const b)"
| "Generate t fp (OLValueVar n ty c) = Some (gen_var n ty c)"
| "Generate t fp (OExprTypeConv ty x) = Option.bind (Generate t fp x) (gen_conv ty (etype x))"
| "Generate t fp (OBinExpr op ty x y) = bind2 (Generate t fp x) (Generate t fp y) (gen_binop op ty)"
| "Generate t fp (OCompareExpr op x y) = bind2 (Generate t fp x) (Generate t fp y) (gen_compare op (etype x))"
| "Generate t fp (OLogicalExpr op x y) =
     bind2 (Generate t fp x) (Generate t fp y) (\<lambda>a b. Some
       (case op of
          LOGIOP_XOR \<Rightarrow> LBin LXor a b
        | LOGIOP_AND \<Rightarrow> LBranch a b (bool_const False)
        | LOGIOP_OR \<Rightarrow> LBranch a (bool_const True) b))"
| "Generate t fp (ONotExpr x) = map_option (\<lambda>a. LBin LXor a (LConst 1 1)) (Generate t fp x)"
| "Generate t fp (OBinNotExpr ty x) = map_option LNot (Generate t fp x)"
| "Generate t fp (ONegExpr ty x) =
     map_option (\<lambda>a. case etype x of TFloat _ \<Rightarrow> LFNeg a | _ \<Rightarrow> LNeg a) (Generate t fp x)"
| "Generate t fp (OIifExpr ty c x y) =
     (if etype c \<noteq> TBool then None
      else Option.bind (Generate t fp c) (\<lambda>a. bind2 (Generate t fp x) (Generate t fp y) (\<lambda>b d. Some (LBranch a b d))))"
| "Generate t fp (OFloatRoundExpr m ty x) =
     map_option (\<lambda>a. gen_round m (ty_bits (etype x)) (native_bits t) (fp_of_int fp 0) a) (Generate t fp x)"

section \<open>What the instructions compute\<close>

text \<open>An integer value is its bit pattern, a number below \<open>2 ^ w\<close>; \<open>sgnd\<close> reads it as signed.\<close>

definition sgnd :: "nat \<Rightarrow> int \<Rightarrow> int" where
  "sgnd w a = signed_take_bit (w - 1) a"

record llsem =
  s_const :: "nat \<Rightarrow> int \<Rightarrow> int"
  s_bin :: "lbin \<Rightarrow> nat \<Rightarrow> int \<Rightarrow> int \<Rightarrow> int option"
  s_icmp :: "lpred \<Rightarrow> nat \<Rightarrow> int \<Rightarrow> int \<Rightarrow> bool"
  s_cast :: "lcast \<Rightarrow> nat \<Rightarrow> nat \<Rightarrow> int \<Rightarrow> int"

text \<open>Division by zero and overflowing division are undefined, a shift count out of range is poison.\<close>

definition div_undefined :: "nat \<Rightarrow> int \<Rightarrow> int \<Rightarrow> bool" where
  "div_undefined w a b \<longleftrightarrow> b = 0 \<or> sgnd w a = - (2 ^ (w - 1)) \<and> sgnd w b = - 1"

definition ref_bin :: "lbin \<Rightarrow> nat \<Rightarrow> int \<Rightarrow> int \<Rightarrow> int option" where
  "ref_bin op w a b =
     (case op of
        LAdd \<Rightarrow> Some (take_bit w (a + b))
      | LSub \<Rightarrow> Some (take_bit w (a - b))
      | LMul \<Rightarrow> Some (take_bit w (a * b))
      | LSDiv \<Rightarrow> if div_undefined w a b then None else Some (take_bit w (sgnd w a sdiv sgnd w b))
      | LSRem \<Rightarrow> if div_undefined w a b then None else Some (take_bit w (sgnd w a smod sgnd w b))
      | LUDiv \<Rightarrow> if b = 0 then None else Some (a div b)
      | LURem \<Rightarrow> if b = 0 then None else Some (a mod b)
      | LAnd \<Rightarrow> Some (a AND b)
      | LOr \<Rightarrow> Some (a OR b)
      | LXor \<Rightarrow> Some (a XOR b)
      | LShl \<Rightarrow> if b \<ge> int w then None else Some (take_bit w (push_bit (nat b) a))
      | LLShr \<Rightarrow> if b \<ge> int w then None else Some (drop_bit (nat b) a)
      | LAShr \<Rightarrow> if b \<ge> int w then None else Some (take_bit w (drop_bit (nat b) (sgnd w a))))"

definition ref_icmp :: "lpred \<Rightarrow> nat \<Rightarrow> int \<Rightarrow> int \<Rightarrow> bool" where
  "ref_icmp p w a b =
     (case p of
        LEQ \<Rightarrow> a = b | LNE \<Rightarrow> a \<noteq> b
      | LULT \<Rightarrow> a < b | LUGT \<Rightarrow> a > b | LULE \<Rightarrow> a \<le> b | LUGE \<Rightarrow> a \<ge> b
      | LSLT \<Rightarrow> sgnd w a < sgnd w b | LSGT \<Rightarrow> sgnd w a > sgnd w b
      | LSLE \<Rightarrow> sgnd w a \<le> sgnd w b | LSGE \<Rightarrow> sgnd w a \<ge> sgnd w b)"

definition ref_cast :: "lcast \<Rightarrow> nat \<Rightarrow> nat \<Rightarrow> int \<Rightarrow> int" where
  "ref_cast c w w2 a =
     (case c of LSExt \<Rightarrow> take_bit w2 (sgnd w a) | LTrunc \<Rightarrow> take_bit w2 a | _ \<Rightarrow> a)"

text \<open>The documented behaviour, on patterns of the width, and for the integer casts.\<close>

definition llvm_langref :: "llsem \<Rightarrow> bool" where
  "llvm_langref L \<longleftrightarrow>
     (\<forall>w a b. 0 < w \<and> 0 \<le> a \<and> a < 2 ^ w \<and> 0 \<le> b \<and> b < 2 ^ w \<longrightarrow>
        (\<forall>op. s_bin L op w a b = ref_bin op w a b) \<and> (\<forall>p. s_icmp L p w a b = ref_icmp p w a b)) \<and>
     (\<forall>w x. 0 < w \<longrightarrow> s_const L w x = take_bit w x) \<and>
     (\<forall>c w w2 a. 0 < w \<and> 0 \<le> a \<and> a < 2 ^ w \<and>
        (c \<in> {LSExt, LZExt} \<and> w < w2 \<or> c = LTrunc \<and> 0 < w2 \<and> w2 \<le> w) \<longrightarrow> s_cast L c w w2 a = ref_cast c w w2 a)"

text \<open>
  The value of an instruction with its width, in a memory \<open>env\<close>; \<open>None\<close> when it is undefined.
  Floating-point instructions have no value here.
\<close>

fun ll_eval :: "llsem \<Rightarrow> (string \<Rightarrow> int) \<Rightarrow> 'f ll \<Rightarrow> (nat \<times> int) option" where
  "ll_eval L env (LConst w v) = Some (w, s_const L w v)"
| "ll_eval L env (LLoad ty x) = (case ty of LInt w \<Rightarrow> Some (w, take_bit w (env x)) | LFloat _ \<Rightarrow> None)"
| "ll_eval L env (LBin op a b) =
     bind2 (ll_eval L env a) (ll_eval L env b) (\<lambda>(w, x) (w2, y).
       if w = w2 then map_option (Pair w) (s_bin L op w x y) else None)"
| "ll_eval L env (LNeg a) =
     Option.bind (ll_eval L env a) (\<lambda>(w, x). map_option (Pair w) (s_bin L LSub w 0 x))"
| "ll_eval L env (LNot a) =
     Option.bind (ll_eval L env a) (\<lambda>(w, x). map_option (Pair w) (s_bin L LXor w x (s_const L w (- 1))))"
| "ll_eval L env (LICmp p a b) =
     bind2 (ll_eval L env a) (ll_eval L env b) (\<lambda>(w, x) (w2, y).
       if w = w2 then Some (1, of_bool (s_icmp L p w x y)) else None)"
| "ll_eval L env (LCast c ty a) =
     Option.bind (ll_eval L env a) (\<lambda>(w, x).
       case ty of
         LInt w2 \<Rightarrow> if c \<in> {LSExt, LZExt, LTrunc} then Some (w2, s_cast L c w w2 x) else None
       | LFloat _ \<Rightarrow> None)"
| "ll_eval L env (LSelect c a b) =
     Option.bind (ll_eval L env c) (\<lambda>(_, x).
       bind2 (ll_eval L env a) (ll_eval L env b) (\<lambda>y z. Some (if x \<noteq> 0 then y else z)))"
| "ll_eval L env (LBranch c a b) =
     Option.bind (ll_eval L env c) (\<lambda>(_, x). if x \<noteq> 0 then ll_eval L env a else ll_eval L env b)"
| "ll_eval L env _ = None"

text \<open>Running the generated code of an expression.\<close>

definition run_expr :: "target \<Rightarrow> 'f fpu \<Rightarrow> llsem \<Rightarrow> (string \<Rightarrow> int) \<Rightarrow> 'f expr \<Rightarrow> (nat \<times> int) option" where
  "run_expr t fp L env e = Option.bind (Generate t fp e) (ll_eval L env)"

end
