(* ===== verification/Expr_Num.thy ===== *)
theory Expr_Num
  imports Expr_Gen
begin

text \<open>
  Bit patterns and the constants of the compiler: the value of an integer type kept in 64 bits
  against the pattern of the type's width, operation by operation.
\<close>

section \<open>Patterns and numbers\<close>

definition pat :: "nat \<Rightarrow> int64 \<Rightarrow> int" where
  "pat b v = take_bit b (uint v)"

definition val :: "nat \<Rightarrow> bool \<Rightarrow> int \<Rightarrow> int" where
  "val b sg p = (if sg then sgnd b p else p)"

lemma NormalizeConstant_word:
  assumes "0 < ty_bits ty"
  shows "NormalizeConstant ty v =
    (if ty_bits ty \<ge> 64 then v else if ty_signed ty then signed_take_bit (ty_bits ty - 1) v else take_bit (ty_bits ty) v)"
proof (cases "ty_bits ty \<ge> 64")
  case False
  let ?b = "ty_bits ty"
  let ?raw = "v AND (push_bit ?b 1 - 1)"
  have raw: "?raw = take_bit ?b v" by (simp add: take_bit_eq_mask mask_eq_exp_minus_1 push_bit_eq_mult)
  have m: "(push_bit ?b 1 - 1 :: 64 word) = mask ?b" by (simp add: mask_eq_exp_minus_1 push_bit_eq_mult)
  have "?raw AND push_bit (?b - 1) 1 \<noteq> 0 \<longleftrightarrow> bit ?raw (?b - 1)"
    by (simp add: bit_iff_and_push_bit_not_eq_0)
  also have "\<dots> \<longleftrightarrow> bit v (?b - 1)" unfolding raw using assms by (simp add: bit_take_bit_iff)
  finally have test: "?raw AND push_bit (?b - 1) 1 \<noteq> 0 \<longleftrightarrow> bit v (?b - 1)" .
  have low: "min n (?b - Suc 0) = (if n < ?b then n else ?b - Suc 0)" "min (?b - Suc 0) n = (if n < ?b then n else ?b - Suc 0)" for n
    using assms by auto
  have neg: "signed_take_bit (?b - 1) v = take_bit ?b v OR NOT (mask ?b)" if "bit v (?b - 1)"
    using False that
    by (intro bit_eqI) (auto simp: bit_signed_take_bit_iff low bit_or_iff bit_take_bit_iff bit_not_iff bit_mask_iff)
  have pos: "signed_take_bit (?b - 1) v = take_bit ?b v" if "\<not> bit v (?b - 1)"
    using False that
    by (intro bit_eqI) (auto simp: bit_signed_take_bit_iff low bit_take_bit_iff)
  show ?thesis
    unfolding NormalizeConstant_def Let_def unfolding test unfolding raw unfolding m
    using False neg pos by (cases "bit v (?b - 1)"; cases "ty_signed ty") simp_all
qed (simp add: NormalizeConstant_def)

lemma uint_signed_take:
  assumes "b \<le> 64" and "0 < b"
  shows "take_bit b (uint (signed_take_bit (b - 1) (v :: int64))) = take_bit b (uint v)"
proof (rule bit_eqI)
  fix n
  have "min n (b - 1) = n" if "n < b" using that by simp
  then show "bit (take_bit b (uint (signed_take_bit (b - 1) v))) n \<longleftrightarrow> bit (take_bit b (uint v)) n"
    using assms by (auto simp: bit_take_bit_iff bit_uint_iff bit_signed_take_bit_iff)
qed

lemma pat_conv [simp]:
  assumes "0 < ty_bits ty" and "ty_bits ty \<le> 64"
  shows "pat (ty_bits ty) (ConvertConstant ty v) = pat (ty_bits ty) v"
  using assms uint_signed_take [of "ty_bits ty" v]
  by (simp add: ConvertConstant_def NormalizeConstant_word pat_def unsigned_take_bit_eq)

lemma conv_idem:
  assumes "0 < ty_bits ty"
  shows "ConvertConstant ty (ConvertConstant ty v) = ConvertConstant ty v"
  using assms by (simp add: ConvertConstant_def NormalizeConstant_word)

lemma signed_take_63: "signed_take_bit 63 v = (v :: int64)"
proof (rule bit_word_eqI)
  fix n
  assume "n < LENGTH(64)"
  then have "min 63 n = n" by simp
  then show "bit (signed_take_bit 63 v) n \<longleftrightarrow> bit v n" using \<open>n < _\<close> by (simp add: bit_signed_take_bit_iff min.commute)
qed

lemma bit_sint: "bit (sint (v :: int64)) n \<longleftrightarrow> bit v (min n 63)"
  using bit_imp_le_length [of v n] by (cases "n < 64") (auto simp: bit_sint_iff min_def)

lemma sint_signed_take:
  assumes "b \<le> 64" and "0 < b" and v: "signed_take_bit (b - 1) v = (v :: int64)"
  shows "sint v = sgnd b (pat b v)"
proof (rule bit_eqI)
  fix n
  have b: "bit v k \<longleftrightarrow> bit v (min k (b - 1))" if "k < 64" for k
    using that arg_cong [OF v, of "\<lambda>v. bit v k"] by (simp add: bit_signed_take_bit_iff min.commute)
  have "min (min n 63) (b - 1) = min n (b - 1)" using assms(1) by simp
  with b [of "min n 63"] have "bit v (min n 63) \<longleftrightarrow> bit v (min n (b - 1))" by simp
  moreover have "bit (sgnd b (pat b v)) n \<longleftrightarrow> bit v (min n (b - 1))"
    using assms(1,2) by (auto simp: sgnd_def pat_def bit_signed_take_bit_iff bit_take_bit_iff bit_uint_iff min.commute [of "b - Suc 0" n])
  ultimately show "bit (sint v) n \<longleftrightarrow> bit (sgnd b (pat b v)) n" by (simp add: bit_sint)
qed

lemma norm_val:
  assumes "0 < ty_bits ty" and "ty_bits ty \<le> 64" and "ConvertConstant ty v = v"
    and "ty_signed ty \<or> ty_bits ty < 64"
  shows "sint v = val (ty_bits ty) (ty_signed ty) (pat (ty_bits ty) v)"
proof -
  let ?b = "ty_bits ty"
  show ?thesis
  proof (cases "ty_signed ty")
    case True
    have "signed_take_bit (?b - 1) v = v"
      using assms True signed_take_63 [of v] by (auto simp: ConvertConstant_def NormalizeConstant_word split: if_splits)
    from sint_signed_take [OF assms(2,1) this] True show ?thesis by (simp add: val_def)
  next
    case False
    then have b: "?b < 64" using assms(4) by simp
    have v: "take_bit ?b v = v"
      using assms b False by (simp add: ConvertConstant_def NormalizeConstant_word split: if_splits)
    have bv: "bit v k \<longleftrightarrow> k < ?b \<and> bit v k" if "k < 64" for k
      using that arg_cong [OF v, of "\<lambda>v. bit v k"] by (auto simp: bit_take_bit_iff)
    have bs: "bit (sint v) n \<longleftrightarrow> n < ?b \<and> bit v n" for n
    proof (cases "n < 64")
      case True
      then have "min n 63 = n" by simp
      with bv [OF True] show ?thesis by (simp only: bit_sint)
    next
      case n: False
      then have "min n 63 = 63" by simp
      with bv [of 63] b n show ?thesis by (simp add: bit_sint)
    qed
    have "sint v = pat ?b v"
      using b by (intro bit_eqI) (auto simp: bs pat_def bit_take_bit_iff bit_uint_iff)
    then show ?thesis using False by (simp add: val_def)
  qed
qed

lemma pat_word_of_int: "b \<le> 64 \<Longrightarrow> pat b (word_of_int z) = take_bit b z"
  by (simp add: pat_def unsigned_of_int take_bit_take_bit min_def)

lemma take_bit_sint: "b \<le> 64 \<Longrightarrow> take_bit b (sint v) = pat b v"
  using pat_word_of_int [of b "sint v"] by simp

lemma pat_range: "0 \<le> pat b v" "pat b v < 2 ^ b"
  by (simp_all add: pat_def)

lemma take_64 [simp]: "take_bit 64 (uint (v :: int64)) = uint v"
  using uint_lt2p [of v] by (simp add: take_bit_int_eq_self)

lemma norm_uint:
  assumes "0 < ty_bits ty" and "ty_bits ty \<le> 64" and "ConvertConstant ty v = v" and "\<not> ty_signed ty"
  shows "pat (ty_bits ty) v = uint v"
proof (cases "ty_bits ty = 64")
  case True
  then show ?thesis by (simp add: pat_def)
next
  case False
  with assms have "take_bit (ty_bits ty) v = v"
    by (simp add: ConvertConstant_def NormalizeConstant_word split: if_splits)
  then show ?thesis unfolding pat_def by (metis unsigned_take_bit_eq)
qed

lemma sgnd_small: "0 < b \<Longrightarrow> 0 \<le> q \<Longrightarrow> q < 2 ^ (b - 1) \<Longrightarrow> sgnd b q = q"
  by (simp add: sgnd_def signed_take_bit_int_eq_self)

lemma sgnd_range: "0 < b \<Longrightarrow> - (2 ^ (b - 1)) \<le> sgnd b q \<and> sgnd b q < 2 ^ (b - 1)"
  by (simp add: sgnd_def signed_take_bit_int_greater_eq_minus_exp signed_take_bit_int_less_exp)

lemma take_bit_sgnd: "0 < b \<Longrightarrow> take_bit b (sgnd b q) = take_bit b q"
  by (simp add: sgnd_def take_bit_signed_take_bit)

lemma sgnd_take_bit: "0 < b \<Longrightarrow> - (2 ^ (b - 1)) \<le> r \<Longrightarrow> r < 2 ^ (b - 1) \<Longrightarrow> sgnd b (take_bit b r) = r"
  by (cases b) (simp_all add: sgnd_def signed_take_bit_take_bit signed_take_bit_int_eq_self)

lemma exp_ge: "0 < b \<Longrightarrow> int b \<le> 2 ^ (b - 1)"
proof (induction b)
  case (Suc b)
  then show ?case by (cases b) auto
qed simp

lemma shift_count:
  assumes "0 < ty_bits ty" and "ty_bits ty \<le> 64" and "ConvertConstant ty y = y" and "pat (ty_bits ty) y < int (ty_bits ty)"
  shows "sint y = pat (ty_bits ty) y"
proof (cases "ty_signed ty \<or> ty_bits ty < 64")
  case True
  let ?q = "pat (ty_bits ty) y"
  have "?q < 2 ^ (ty_bits ty - 1)" using assms(4) exp_ge [OF assms(1)] by linarith
  with norm_val [OF assms(1-3) True] sgnd_small [OF assms(1) pat_range(1)] show ?thesis by (simp add: val_def)
next
  case False
  then have b: "ty_bits ty = 64" using assms(2) by simp
  with assms(4) have "uint y < 64" by (simp add: pat_def)
  then have "sint y = uint y" using sgnd_small [of 64 "uint y"] by (simp add: sint_uint sgnd_def)
  with b show ?thesis by (simp add: pat_def)
qed

text \<open>What an operation computes on the patterns of its operands.\<close>

definition ref_intop :: "binop \<Rightarrow> nat \<Rightarrow> bool \<Rightarrow> int \<Rightarrow> int \<Rightarrow> int option" where
  "ref_intop op b sg p q =
     (case op of
        BINOP_ADD \<Rightarrow> ref_bin LAdd b p q
      | BINOP_SUB \<Rightarrow> ref_bin LSub b p q
      | BINOP_MUL \<Rightarrow> ref_bin LMul b p q
      | BINOP_IDIV \<Rightarrow> ref_bin (if sg then LSDiv else LUDiv) b p q
      | BINOP_IREM \<Rightarrow> ref_bin (if sg then LSRem else LURem) b p q
      | BINOP_IMOD \<Rightarrow>
          if \<not> sg then ref_bin LURem b p q
          else Option.bind (ref_bin LSRem b p q) (\<lambda>r.
            if sgnd b r < 0 then (if 0 < sgnd b q then ref_bin LAdd b r q else ref_bin LSub b r q) else Some r)
      | BINOP_IOR \<Rightarrow> ref_bin LOr b p q
      | BINOP_IAND \<Rightarrow> ref_bin LAnd b p q
      | BINOP_IXOR \<Rightarrow> ref_bin LXor b p q
      | BINOP_ISHL \<Rightarrow> ref_bin LShl b p q
      | BINOP_ISHR \<Rightarrow> ref_bin (if sg then LAShr else LLShr) b p q
      | BINOP_DIV \<Rightarrow> None)"

lemma i64_Const: "i64 z = Const u \<longleftrightarrow> - (2 ^ 63) \<le> z \<and> z < 2 ^ 63 \<and> u = word_of_int z"
  by (auto simp: i64_def)

lemma sint_word_of_int: "- (2 ^ 63) \<le> z \<Longrightarrow> z < 2 ^ 63 \<Longrightarrow> sint (word_of_int z :: int64) = z"
  by (simp add: signed_of_int signed_take_bit_int_eq_self)

lemma div_le: "0 \<le> m \<Longrightarrow> 0 \<le> n \<Longrightarrow> m div n \<le> m" for m n :: int
proof (cases "n = 0")
  case False
  assume "0 \<le> m" "0 \<le> n"
  with False have "m div n \<le> m div 1" by (intro zdiv_mono2) auto
  then show ?thesis by simp
qed simp

lemma smod_bound:
  fixes a b :: int
  assumes "b \<noteq> 0"
  shows "\<bar>a smod b\<bar> < \<bar>b\<bar>"
proof -
  have "0 \<le> \<bar>a\<bar> mod \<bar>b\<bar>" "\<bar>a\<bar> mod \<bar>b\<bar> < \<bar>b\<bar>" using assms by simp_all
  then show ?thesis using assms by (auto simp: smod_int_alt_def abs_mult sgn_if)
qed

lemma mul_take_bit: "take_bit b (x * y) = take_bit b (take_bit b x * take_bit b y)" for x y :: int
  by (simp add: take_bit_mult)

lemma pat_arith:
  assumes "b \<le> 64"
  shows "pat b (x + y) = take_bit b (pat b x + pat b y)" "pat b (x - y) = take_bit b (pat b x - pat b y)"
    "pat b (x * y) = take_bit b (pat b x * pat b y)" "pat b (- y) = take_bit b (- pat b y)"
proof -
  have "x + y = word_of_int (uint x + uint y)" "x - y = word_of_int (uint x - uint y)"
    "x * y = word_of_int (uint x * uint y)" "- y = word_of_int (- uint y)" by simp_all
  then show "pat b (x + y) = take_bit b (pat b x + pat b y)" "pat b (x - y) = take_bit b (pat b x - pat b y)"
    "pat b (x * y) = take_bit b (pat b x * pat b y)" "pat b (- y) = take_bit b (- pat b y)"
    unfolding pat_word_of_int [OF assms, symmetric]
    by (simp_all only: pat_word_of_int [OF assms]) (simp_all add: pat_def take_bit_add take_bit_diff take_bit_mult take_bit_minus)
qed

text \<open>The constants agree with the instructions; only the shift of 64-bit unsigned values differs.\<close>

lemma int_binop_pat:
  assumes b: "0 < b" "b \<le> 64" and x: "ConvertConstant (TInt b sg) x = x" and y: "ConvertConstant (TInt b sg) y = y"
    and c: "int_binop (TInt b sg) op x y = Const u" and r: "ref_intop op b sg (pat b x) (pat b y) = Some r"
    and shr: "op = BINOP_ISHR \<Longrightarrow> sg \<or> b < 64"
  shows "pat b u = r"
proof -
  let ?p = "pat b x" and ?q = "pat b y"
  note facts = b x y
  have sx: "sint x = sgnd b ?p" "sint y = sgnd b ?q" if sg
    using norm_val [of "TInt b sg" x] norm_val [of "TInt b sg" y] facts that by (simp_all add: val_def)
  have ux: "?p = uint x" "?q = uint y" if "\<not> sg"
    using norm_uint [of "TInt b sg" x] norm_uint [of "TInt b sg" y] facts that by simp_all
  have cnt: "sint y = ?q" if "?q < int b" using shift_count [of "TInt b sg" y] facts that by simp
  note tb = take_bit_sint [OF b(2)] pat_word_of_int [OF b(2)]
  have add: "take_bit b (m + n) = take_bit b (take_bit b m + take_bit b n)" for m n :: int
    by (simp add: take_bit_add)
  have umod: "take_bit b (uint (x mod y)) = uint x mod uint y" if "\<not> sg" "y \<noteq> 0"
  proof -
    have "uint y > 0" using that(2) unsigned_greater_eq [of y] by (simp add: less_le unsigned_eq_0_iff)
    then have "uint x mod uint y < uint y" by simp
    moreover have "uint y < 2 ^ b" using ux(2) [OF that(1)] pat_range(2) [of b y] by simp
    ultimately have "uint x mod uint y < 2 ^ b" by (rule order.strict_trans)
    moreover have "0 \<le> uint x mod uint y" using \<open>uint y > 0\<close> by simp
    ultimately show ?thesis by (simp add: uint_mod take_bit_int_eq_self)
  qed
  show ?thesis
  proof (cases op)
    case BINOP_ADD
    with c r show ?thesis by (auto simp: int_binop_def ref_intop_def ref_bin_def i64_Const pat_arith [OF b(2)])
  next
    case BINOP_SUB
    with c r show ?thesis by (auto simp: int_binop_def ref_intop_def ref_bin_def i64_Const pat_arith [OF b(2)])
  next
    case BINOP_MUL
    with c r show ?thesis by (auto simp: int_binop_def ref_intop_def ref_bin_def i64_Const pat_arith [OF b(2)])
  next
    case BINOP_DIV
    with c show ?thesis by (simp add: int_binop_def)
  next
    case BINOP_IDIV
    show ?thesis
    proof (cases sg)
      case True
      with BINOP_IDIV c r show ?thesis
        by (auto simp: int_binop_def ref_intop_def ref_bin_def i64_Const tb sx split: if_splits)
    next
      case False
      have pos: "0 \<le> uint x div uint y" using unsigned_greater_eq [of "x div y"] by (metis uint_div)
      have "uint x div uint y \<le> uint x" using div_le [of "uint x" "uint y"] by simp
      moreover have "uint x < 2 ^ b" using ux(1) [OF False] pat_range(2) [of b x] by simp
      ultimately have "uint x div uint y < 2 ^ b" by (rule order.strict_trans1)
      then have "take_bit b (uint (x div y)) = uint (x div y)"
        unfolding uint_div by (intro take_bit_int_eq_self pos) simp_all
      then have "take_bit b (uint (x div y)) = uint x div uint y" by (simp only: uint_div)
      with BINOP_IDIV c r False ux show ?thesis
        by (auto simp: int_binop_def ref_intop_def ref_bin_def pat_def [of b u] split: if_splits)
    qed
  next
    case BINOP_IREM
    show ?thesis
    proof (cases sg)
      case True
      with BINOP_IREM c r show ?thesis
        by (auto simp: int_binop_def ref_intop_def ref_bin_def i64_Const tb sx split: if_splits)
    next
      case False
      with BINOP_IREM c r ux umod show ?thesis
        by (auto simp: int_binop_def ref_intop_def ref_bin_def pat_def [of b u] split: if_splits)
    qed
  next
    case BINOP_IMOD
    show ?thesis
    proof (cases sg)
      case False
      with BINOP_IMOD c r ux umod show ?thesis
        by (auto simp: int_binop_def ref_intop_def ref_bin_def pat_def [of b u] split: if_splits)
    next
      case True
      let ?a = "sgnd b ?p" and ?d = "sgnd b ?q"
      let ?m = "?a smod ?d"
      from r BINOP_IMOD True have nd: "\<not> div_undefined b ?p ?q"
        by (auto simp: ref_intop_def ref_bin_def split: if_splits)
      then have "?d \<noteq> 0"
        using take_bit_sgnd [OF b(1), of ?q] by (auto simp: div_undefined_def pat_def)
      have small: "- (2 ^ (b - 1)) \<le> ?m" "?m < 2 ^ (b - 1)"
        using smod_bound [OF \<open>?d \<noteq> 0\<close>, of ?a] sgnd_range [OF b(1), of ?q] by linarith+
      have R: "sgnd b (take_bit b ?m) = ?m" using sgnd_take_bit [OF b(1) small] .
      from c BINOP_IMOD True obtain v where v: "v = word_of_int ?m" "- (2 ^ 63) \<le> ?m" "?m < 2 ^ 63"
        and u: "u = (if sint v < 0 then v + (if sint y > 0 then y else - y) else v)"
        by (auto simp: int_binop_def i64_Const sx split: if_splits)
      have sv: "sint v = ?m" using v by (simp add: sint_word_of_int)
      have pv: "pat b v = take_bit b ?m" using v(1) tb(2) by simp
      note padd = pat_arith(1) [OF b(2), of v, unfolded pv] and pneg = pat_arith(4) [OF b(2), of y]
      have psub: "take_bit b (take_bit b ?m + take_bit b (- ?q)) = take_bit b (take_bit b ?m - ?q)"
        using add [of "take_bit b ?m" "- ?q"] by simp
      have ref: "Some r = (if ?m < 0 then if 0 < ?d then Some (take_bit b (take_bit b ?m + ?q))
          else Some (take_bit b (take_bit b ?m - ?q)) else Some (take_bit b ?m))"
        using r BINOP_IMOD True nd R by (simp add: ref_intop_def ref_bin_def split: if_splits)
      show ?thesis
        using ref u sv sx(2) [OF True] pv padd [of y] padd [of "- y"] pneg psub by (simp split: if_splits)
    qed
  next
    case BINOP_IAND
    with c r show ?thesis by (auto simp: int_binop_def ref_intop_def ref_bin_def pat_def unsigned_and_eq)
  next
    case BINOP_IOR
    with c r show ?thesis by (auto simp: int_binop_def ref_intop_def ref_bin_def pat_def unsigned_or_eq)
  next
    case BINOP_IXOR
    with c r show ?thesis by (auto simp: int_binop_def ref_intop_def ref_bin_def pat_def unsigned_xor_eq)
  next
    case BINOP_ISHL
    with r have q: "?q < int b" and rr: "r = take_bit b (push_bit (nat ?q) ?p)"
      by (auto simp: ref_intop_def ref_bin_def split: if_splits)
    from c BINOP_ISHL have u: "u = push_bit (nat (sint y)) x" by (auto simp: int_binop_def split: if_splits)
    have "pat b (push_bit n x) = take_bit b (push_bit n ?p)" for n
    proof -
      have "pat b (push_bit n x) = take_bit b (2 ^ n * uint x)"
      proof -
        have "push_bit n x = word_of_int (2 ^ n * uint x)" by (simp add: push_bit_eq_mult mult.commute)
        then show ?thesis using b(2) by (simp only: pat_word_of_int)
      qed
      also have "\<dots> = take_bit b (push_bit n ?p)"
        using mul_take_bit [of b "2 ^ n" "uint x"] mul_take_bit [of b "2 ^ n" ?p] by (simp add: pat_def push_bit_eq_mult mult.commute)
      finally show ?thesis .
    qed
    with rr u cnt [OF q] show ?thesis by simp
  next
    case BINOP_ISHR
    with r have q: "?q < int b" by (auto simp: ref_intop_def ref_bin_def split: if_splits)
    from c BINOP_ISHR have u: "u = word_of_int (drop_bit (nat ?q) (sint x))"
      using cnt [OF q] by (auto simp: int_binop_def split: if_splits)
    show ?thesis
    proof (cases sg)
      case True
      with r BINOP_ISHR q u tb(2) sx(1) show ?thesis by (simp add: ref_intop_def ref_bin_def)
    next
      case False
      with shr [OF BINOP_ISHR] have "b < 64" by simp
      with False norm_val [of "TInt b sg" x] facts have sxp: "sint x = ?p" by (simp add: val_def)
      have "take_bit b (drop_bit n ?p) = drop_bit n ?p" for n
        using pat_range [of b x] by (intro take_bit_int_eq_self) (simp_all add: drop_bit_eq_div pos_imp_zdiv_nonneg_iff order.strict_trans1 [OF div_le])
      with r BINOP_ISHR q u tb(2) sxp False show ?thesis by (auto simp: ref_intop_def ref_bin_def)
    qed
  qed
qed

end
