(* ===== verification/Expr_Wt.thy ===== *)
theory Expr_Wt
  imports Expr_Num
begin

text \<open>
  Well-typed expressions, and what their generated code computes: every well-typed tree has code,
  operations on integers compute \<open>ref_intop\<close>, a node's code depends on its operands' values only.
\<close>

section \<open>Well-typed trees\<close>

definition sty_ok :: "sty \<Rightarrow> bool" where
  "sty_ok ty = (case ty of TInt b _ \<Rightarrow> b \<in> {8, 16, 32, 64} | TChar b \<Rightarrow> b \<in> {8, 16, 32}
     | TFloat b \<Rightarrow> b \<in> {32, 64} | TBool \<Rightarrow> True)"

definition is_float :: "sty \<Rightarrow> bool" where
  "is_float ty = (case ty of TFloat _ \<Rightarrow> True | _ \<Rightarrow> False)"

definition integral :: "sty \<Rightarrow> bool" where
  "integral ty \<longleftrightarrow> is_intty ty \<or> IsCharacterType ty"

lemmas kind_defs = sty_ok_def is_float_def integral_def is_intty_def IsCharacterType_def

lemma kind_simps [simp]:
  "is_intty (TInt b s)" "\<not> is_intty (TChar b)" "\<not> is_intty (TFloat b)" "\<not> is_intty TBool"
  "integral (TInt b s)" "integral (TChar b)" "\<not> integral (TFloat b)" "\<not> integral TBool"
  "is_float (TFloat b)" "\<not> is_float (TInt b s)" "\<not> is_float (TChar b)" "\<not> is_float TBool"
  by (simp_all add: kind_defs)

lemma sty_ok_bits: "sty_ok ty \<Longrightarrow> 0 < ty_bits ty \<and> ty_bits ty \<le> 64"
  by (cases ty) (auto simp: sty_ok_def)

text \<open>A constant fits its type: an integer is stored normalized.\<close>

definition const_ok :: "sty \<Rightarrow> 'f constval \<Rightarrow> bool" where
  "const_ok ty c = (case c of CInt v \<Rightarrow> integral ty \<and> ConvertConstant ty v = v
     | CBool _ \<Rightarrow> ty = TBool | CFloat _ \<Rightarrow> is_float ty)"

definition fop :: "binop \<Rightarrow> bool" where
  "fop op \<longleftrightarrow> op \<in> {BINOP_ADD, BINOP_SUB, BINOP_MUL, BINOP_DIV}"

fun wt :: "target \<Rightarrow> 'f expr \<Rightarrow> bool" where
  "wt t (OIntLit v ty) \<longleftrightarrow> sty_ok ty \<and> integral ty \<and> ConvertConstant ty v = v"
| "wt t (OFloatLit _ ty) \<longleftrightarrow> sty_ok ty \<and> is_float ty"
| "wt t (OBoolLit _) \<longleftrightarrow> True"
| "wt t (OLValueVar _ ty c) \<longleftrightarrow> sty_ok ty \<and> (case c of None \<Rightarrow> True | Some k \<Rightarrow> const_ok ty k)"
| "wt t (OExprTypeConv ty x) \<longleftrightarrow> wt t x \<and> sty_ok ty \<and> ty \<noteq> TBool \<and> (is_float ty \<longrightarrow> etype x \<noteq> TBool)"
| "wt t (OBinExpr op ty x y) \<longleftrightarrow> wt t x \<and> wt t y \<and> etype x = ty \<and> etype y = ty \<and>
     (case ty of TInt _ _ \<Rightarrow> op \<noteq> BINOP_DIV | TFloat _ \<Rightarrow> fop op | _ \<Rightarrow> False)"
| "wt t (OCompareExpr op x y) \<longleftrightarrow> wt t x \<and> wt t y \<and> etype x = etype y \<and>
     (etype x = TBool \<longrightarrow> op \<in> {COMPOP_EQ, COMPOP_NE})"
| "wt t (OLogicalExpr op x y) \<longleftrightarrow> wt t x \<and> wt t y \<and> etype x = TBool \<and> etype y = TBool"
| "wt t (ONotExpr x) \<longleftrightarrow> wt t x \<and> etype x = TBool"
| "wt t (OBinNotExpr ty x) \<longleftrightarrow> wt t x \<and> etype x = ty \<and> is_intty ty"
| "wt t (ONegExpr ty x) \<longleftrightarrow> wt t x \<and>
     (case etype x of TInt b _ \<Rightarrow> ty = TInt b True | TFloat b \<Rightarrow> ty = TFloat b | _ \<Rightarrow> False)"
| "wt t (OIifExpr ty c x y) \<longleftrightarrow> wt t c \<and> wt t x \<and> wt t y \<and> etype c = TBool \<and> etype x = ty \<and> etype y = ty"
| "wt t (OFloatRoundExpr m ty x) \<longleftrightarrow> wt t x \<and> is_float (etype x) \<and> ty = type_int t \<and> sty_ok ty"

lemma wt_sty: "wt t e \<Longrightarrow> sty_ok (etype e)"
proof (induction e)
  case (ONegExpr ty e)
  then show ?case by (auto simp: sty_ok_def split: sty.splits)
qed (auto simp: sty_ok_def)

lemma gen_intop_total: "op \<noteq> BINOP_DIV \<Longrightarrow> \<exists>g. gen_intop op b sg l r = Some g"
  by (cases op) (auto simp: gen_intop_def)

lemma gen_binop_total:
  "(case ty of TInt _ _ \<Rightarrow> op \<noteq> BINOP_DIV | TFloat _ \<Rightarrow> fop op | _ \<Rightarrow> False) \<Longrightarrow> \<exists>g. gen_binop op ty l r = Some g"
  by (cases ty) (auto simp: gen_binop_def fop_def gen_intop_total)

lemma gen_compare_total: "ty = TBool \<longrightarrow> op \<in> {COMPOP_EQ, COMPOP_NE} \<Longrightarrow> \<exists>g. gen_compare op ty l r = Some g"
  by (cases ty) (auto simp: gen_compare_def)

lemma gen_conv_total: "ty \<noteq> TBool \<Longrightarrow> is_float ty \<longrightarrow> src \<noteq> TBool \<Longrightarrow> \<exists>g. gen_conv ty src x = Some g"
  by (cases ty; cases src) (auto simp: gen_conv_def)

lemma Generate_total:
  "wt t e \<Longrightarrow> \<exists>g. Generate t fp e = Some g"
proof (induction e)
  case (OExprTypeConv ty e)
  then show ?case using gen_conv_total [of ty "etype e"] by fastforce
next
  case (OBinExpr op ty x y)
  then show ?case using gen_binop_total [where ty = ty and op = op] by fastforce
next
  case (OCompareExpr op x y)
  then show ?case using gen_compare_total [of "etype x" op] by fastforce
next
  case (OIifExpr ty c x y)
  then show ?case by (auto simp: bind2_def)
next
  case (OLogicalExpr op x y)
  then show ?case by (auto simp: bind2_def)
qed auto

section \<open>The value of a node depends on its operands' values\<close>

definition ll_le :: "llsem \<Rightarrow> (string \<Rightarrow> int) \<Rightarrow> 'f ll \<Rightarrow> 'f ll \<Rightarrow> bool" where
  "ll_le L env a b \<longleftrightarrow> (\<forall>v. ll_eval L env a = Some v \<longrightarrow> ll_eval L env b = Some v)"

lemma ll_le_eq: "ll_le L env a b \<longleftrightarrow> ll_eval L env a = None \<or> ll_eval L env b = ll_eval L env a"
  by (cases "ll_eval L env a") (auto simp: ll_le_def)

named_theorems ll_mono

lemma ll_le_refl [ll_mono]: "ll_le L env a a"
  by (simp add: ll_le_def)

lemma ll_le_bin [ll_mono]: "ll_le L env a a' \<Longrightarrow> ll_le L env b b' \<Longrightarrow> ll_le L env (LBin op a b) (LBin op a' b')"
  by (fastforce simp: ll_le_eq bind2_def)

lemma ll_le_icmp [ll_mono]: "ll_le L env a a' \<Longrightarrow> ll_le L env b b' \<Longrightarrow> ll_le L env (LICmp p a b) (LICmp p a' b')"
  by (fastforce simp: ll_le_eq bind2_def)

lemma ll_le_un [ll_mono]:
  "ll_le L env a a' \<Longrightarrow> ll_le L env (LNeg a) (LNeg a')" "ll_le L env a a' \<Longrightarrow> ll_le L env (LNot a) (LNot a')"
  "ll_le L env a a' \<Longrightarrow> ll_le L env (LCast c ty a) (LCast c ty a')"
  by (fastforce simp: ll_le_eq)+

lemma ll_le_select [ll_mono]:
  "ll_le L env c c' \<Longrightarrow> ll_le L env a a' \<Longrightarrow> ll_le L env b b' \<Longrightarrow> ll_le L env (LSelect c a b) (LSelect c' a' b')"
  by (cases "ll_eval L env c") (fastforce simp: ll_le_eq bind2_def)+

lemma ll_le_branch [ll_mono]:
  "ll_le L env c c' \<Longrightarrow> ll_le L env a a' \<Longrightarrow> ll_le L env b b' \<Longrightarrow> ll_le L env (LBranch c a b) (LBranch c' a' b')"
  by (cases "ll_eval L env c") (auto simp: ll_le_def)

lemma ll_le_float [ll_mono]:
  "ll_le L env (LFBin op a b) x" "ll_le L env (LFNeg a) x" "ll_le L env (LFCmp p a b) x"
  by (simp_all add: ll_le_def)

lemma gen_binop_mono:
  assumes "gen_binop op ty l r = Some g" "ll_le L env l l'" "ll_le L env r r'"
  shows "\<exists>g'. gen_binop op ty l' r' = Some g' \<and> ll_le L env g g'"
  using assms
  by (cases ty; cases op)
    (auto simp: gen_binop_def gen_intop_def GenerateRemainder_def GenerateModulo_def Let_def intro!: ll_mono)

lemma gen_compare_mono:
  assumes "gen_compare op ty l r = Some g" "ll_le L env l l'" "ll_le L env r r'"
  shows "\<exists>g'. gen_compare op ty l' r' = Some g' \<and> ll_le L env g g'"
  using assms by (cases ty) (auto simp: gen_compare_def intro!: ll_mono split: if_splits)

lemma gen_conv_mono:
  assumes "gen_conv ty src l = Some g" "ll_le L env l l'"
  shows "\<exists>g'. gen_conv ty src l' = Some g' \<and> ll_le L env g g'"
  using assms by (cases ty; cases src) (auto simp: gen_conv_def intro!: ll_mono split: if_splits)

section \<open>Evaluation\<close>

lemma run_Some: "run_expr t fp L env e = Some v \<longleftrightarrow> (\<exists>g. Generate t fp e = Some g \<and> ll_eval L env g = Some v)"
  by (auto simp: run_expr_def bind_eq_Some_conv)

text \<open>Floating-point values have no integer evaluation.\<close>

lemma gen_binop_float: "gen_binop op (TFloat b) l r = Some g \<Longrightarrow> ll_eval L env g = None"
  by (auto simp: gen_binop_def split: if_splits)

lemma integral_not_float [simp]: "integral ty \<Longrightarrow> \<not> is_float ty"
  by (cases ty) auto

lemma ll_eval_float_cast [simp]: "ll_eval L env (LCast c (LFloat b) a) = None"
  by (cases "ll_eval L env a") auto

lemma Generate_float: "wt t e \<Longrightarrow> is_float (etype e) \<Longrightarrow> Generate t fp e = Some g \<Longrightarrow> ll_eval L env g = None"
proof (induction e arbitrary: g)
  case (OLValueVar n ty c)
  then show ?case by (cases ty) (auto simp: gen_var_def GetLlType_def const_ok_def split: option.splits constval.splits)
next
  case (OExprTypeConv ty x)
  then show ?case
    by (cases ty; cases "etype x") (auto simp: gen_conv_def GetLlType_def bind_eq_Some_conv simp del: ll_eval.simps(7) split: if_splits)
next
  case (OBinExpr op ty x y)
  then show ?case by (cases ty) (auto dest: gen_binop_float)
next
  case (ONegExpr ty x)
  then show ?case by (cases "etype x") auto
next
  case (OIifExpr ty c x y)
  then show ?case by (auto simp: bind_eq_Some_conv Option.bind_eq_None_conv split: prod.splits)
qed (auto simp: bind_eq_Some_conv type_int_def)

lemma run_float: "wt t e \<Longrightarrow> is_float (etype e) \<Longrightarrow> run_expr t fp L env e = None"
  using Generate_float [of t e fp] by (cases "Generate t fp e") (auto simp: run_expr_def)

lemma ll_eval_round: "ll_eval L env a = None \<Longrightarrow> ll_eval L env (gen_round m fb ib z a) = None"
  by (cases m) (simp_all add: gen_round_def Let_def bind2_def)

section \<open>The documented instructions\<close>

lemma langref_bin: "llvm_langref L \<Longrightarrow> 0 < w \<Longrightarrow> 0 \<le> a \<Longrightarrow> a < 2 ^ w \<Longrightarrow> 0 \<le> b \<Longrightarrow> b < 2 ^ w \<Longrightarrow>
    s_bin L op w a b = ref_bin op w a b"
  and langref_icmp: "llvm_langref L \<Longrightarrow> 0 < w \<Longrightarrow> 0 \<le> a \<Longrightarrow> a < 2 ^ w \<Longrightarrow> 0 \<le> b \<Longrightarrow> b < 2 ^ w \<Longrightarrow>
    s_icmp L p w a b = ref_icmp p w a b"
  and langref_const: "llvm_langref L \<Longrightarrow> 0 < w \<Longrightarrow> s_const L w x = take_bit w x"
  by (simp_all add: llvm_langref_def)

lemma langref_cast:
  assumes "llvm_langref L" "0 < w" "0 \<le> a" "a < 2 ^ w" "c \<in> {LSExt, LZExt} \<and> w < w2 \<or> c = LTrunc \<and> 0 < w2 \<and> w2 \<le> w"
  shows "s_cast L c w w2 a = ref_cast c w w2 a"
  using assms by (simp add: llvm_langref_def)

lemma ref_srem_range: "ref_bin LSRem w a b = Some r \<Longrightarrow> 0 \<le> r \<and> r < 2 ^ w"
  by (auto simp: ref_bin_def split: if_splits)

lemma sgnd_0 [simp]: "sgnd w 0 = 0"
  by (simp add: sgnd_def)

lemma gen_intop_eval:
  assumes L: "llvm_langref L" and b: "0 < b"
    and l: "ll_eval L env l = Some (b, p)" "0 \<le> p" "p < 2 ^ b"
    and r: "ll_eval L env r = Some (b, q)" "0 \<le> q" "q < 2 ^ b"
    and g: "gen_intop op b sg l r = Some g"
  shows "ll_eval L env g = map_option (Pair b) (ref_intop op b sg p q)"
proof (cases "op = BINOP_IMOD \<and> sg")
  case False
  then show ?thesis
    using g l r langref_bin [OF L b l(2,3) r(2,3)]
    by (cases op) (auto simp: gen_intop_def ref_intop_def GenerateRemainder_def GenerateModulo_def bind2_def)
next
  case True
  note rem = langref_bin [OF L b l(2,3) r(2,3), of LSRem]
  show ?thesis
  proof (cases "ref_bin LSRem b p q")
    case None
    with True g l r rem show ?thesis
      by (auto simp: gen_intop_def ref_intop_def GenerateRemainder_def GenerateModulo_def bind2_def Let_def)
  next
    case (Some m)
    note m = ref_srem_range [OF Some]
    have z: "s_const L b 0 = 0" using langref_const [OF L b, of 0] by simp
    have "s_icmp L LSLT b m 0 \<longleftrightarrow> sgnd b m < 0" "s_icmp L LSGT b q 0 \<longleftrightarrow> 0 < sgnd b q"
      using langref_icmp [OF L b, of m 0 LSLT] langref_icmp [OF L b, of q 0 LSGT] m r by (simp_all add: ref_icmp_def)
    with Some True g l r rem z langref_bin [OF L b, of m q] m show ?thesis
      by (auto simp: gen_intop_def ref_intop_def GenerateRemainder_def GenerateModulo_def bind2_def Let_def ref_bin_def)
  qed
qed

end
