(* ===== verification/Expr_Sound.thy ===== *)
theory Expr_Sound
  imports Expr_Wt
begin

text \<open>
  Folding preserves the meaning of the generated code, for the operations on which constants and
  code agree.
\<close>

section \<open>Folded trees\<close>

text \<open>A folded tree is a constant leaf or no constant at all.\<close>

definition leaf :: "'f expr \<Rightarrow> bool" where
  "leaf e = (case e of OIntLit _ _ \<Rightarrow> True | OFloatLit _ _ \<Rightarrow> True | OBoolLit _ \<Rightarrow> True
     | OLValueVar _ _ c \<Rightarrow> c \<noteq> None | _ \<Rightarrow> False)"

definition nonconst :: "target \<Rightarrow> 'f fpu \<Rightarrow> 'f expr \<Rightarrow> bool" where
  "nonconst t fp e \<longleftrightarrow> (\<forall>ty. \<exists>r. calc_int t fp ty e = NotConst r) \<and>
     (\<exists>r. calc_bool t fp e = NotConst r) \<and> (\<exists>r. calc_float t fp e = NotConst r)"

definition folded :: "target \<Rightarrow> 'f fpu \<Rightarrow> 'f expr \<Rightarrow> bool" where
  "folded t fp e \<longleftrightarrow> leaf e \<or> nonconst t fp e"

lemma leaf_total:
  assumes "leaf e"
  shows "calc_int t fp ty e \<noteq> Undef" "calc_bool t fp e \<noteq> Undef" "calc_float t fp e \<noteq> Undef"
  using assms
  by (auto simp: leaf_def calc_int.simps [of t fp ty e] calc_bool.simps [of t fp e] calc_float.simps [of t fp e]
      split: expr.splits option.splits constval.splits)

lemma folded_total:
  assumes "folded t fp e"
  shows "calc_int t fp ty e \<noteq> Undef" "calc_bool t fp e \<noteq> Undef" "calc_float t fp e \<noteq> Undef"
  using assms leaf_total [of e] unfolding folded_def nonconst_def by (metis folded.distinct(1))+

definition nc :: "'a folded \<Rightarrow> bool" where
  "nc x \<longleftrightarrow> (\<exists>r. x = NotConst r)"

lemma nc_simps [simp]: "nc (NotConst r)" "\<not> nc (Const v)" "\<not> nc Undef"
  by (simp_all add: nc_def)

lemma nc_fbind: "nc x \<Longrightarrow> nc (fbind x f)" "x \<noteq> Undef \<Longrightarrow> (\<And>v. nc (f v)) \<Longrightarrow> nc (fbind x f)"
  by (cases x; simp)+

lemma nonconst_nc: "nonconst t fp e \<longleftrightarrow> (\<forall>ty. nc (calc_int t fp ty e)) \<and> nc (calc_bool t fp e) \<and> nc (calc_float t fp e)"
  by (simp add: nonconst_def nc_def)

lemma nc_fbind2: "x \<noteq> Undef \<Longrightarrow> nc x \<or> nc y \<Longrightarrow> nc (fbind x (\<lambda>v. fbind y (f v)))"
  by (cases x; cases y) auto

lemma nonconst1:
  assumes "nonconst t fp x"
  shows "nonconst t fp (ONegExpr ty x)" "nonconst t fp (OBinNotExpr ty x)" "nonconst t fp (ONotExpr x)"
    "nonconst t fp (OExprTypeConv ty x)" "nonconst t fp (OFloatRoundExpr m ty x)"
  using assms unfolding nonconst_nc
  by (simp_all add: calc_int.simps [of t fp _ "ONegExpr ty x"] calc_bool.simps [of t fp "ONegExpr ty x"] calc_float.simps [of t fp "ONegExpr ty x"]
     calc_int.simps [of t fp _ "OBinNotExpr ty x"] calc_bool.simps [of t fp "OBinNotExpr ty x"] calc_float.simps [of t fp "OBinNotExpr ty x"]
     calc_int.simps [of t fp _ "ONotExpr x"] calc_bool.simps [of t fp "ONotExpr x"] calc_float.simps [of t fp "ONotExpr x"]
     calc_int.simps [of t fp _ "OExprTypeConv ty x"] calc_bool.simps [of t fp "OExprTypeConv ty x"] calc_float.simps [of t fp "OExprTypeConv ty x"]
     calc_int.simps [of t fp _ "OFloatRoundExpr m ty x"] calc_bool.simps [of t fp "OFloatRoundExpr m ty x"] calc_float.simps [of t fp "OFloatRoundExpr m ty x"]
     nc_fbind split: sty.splits)

lemma nonconst2:
  assumes "folded t fp x" "nonconst t fp x \<or> nonconst t fp y"
  shows "nonconst t fp (OBinExpr op ty x y)" "nonconst t fp (OCompareExpr cop x y)" "nonconst t fp (OLogicalExpr lop x y)"
  using assms(2) folded_total [OF assms(1)] unfolding nonconst_nc
  by (auto simp: calc_int.simps [of t fp _ "OBinExpr op ty x y"] calc_bool.simps [of t fp "OBinExpr op ty x y"] calc_float.simps [of t fp "OBinExpr op ty x y"]
     calc_int.simps [of t fp _ "OCompareExpr cop x y"] calc_bool.simps [of t fp "OCompareExpr cop x y"] calc_float.simps [of t fp "OCompareExpr cop x y"]
     calc_int.simps [of t fp _ "OLogicalExpr lop x y"] calc_bool.simps [of t fp "OLogicalExpr lop x y"] calc_float.simps [of t fp "OLogicalExpr lop x y"]
     intro: nc_fbind2 split: sty.splits)

lemma nonconst_iif: "nonconst t fp (OIifExpr ty c x y)"
  unfolding nonconst_nc
  by (simp add: calc_int.simps [of t fp _ "OIifExpr ty c x y"] calc_bool.simps [of t fp "OIifExpr ty c x y"] calc_float.simps [of t fp "OIifExpr ty c x y"])

text \<open>The constants that a folded operand can have.\<close>

definition leaf_int :: "'f expr \<Rightarrow> int64 option" where
  "leaf_int e = (case e of OIntLit v _ \<Rightarrow> Some v | OLValueVar _ _ (Some (CInt v)) \<Rightarrow> Some v | _ \<Rightarrow> None)"

definition leaf_bool :: "'f expr \<Rightarrow> bool option" where
  "leaf_bool e = (case e of OBoolLit v \<Rightarrow> Some v | OLValueVar _ _ (Some (CBool v)) \<Rightarrow> Some v | _ \<Rightarrow> None)"

lemma folded_leaf:
  assumes "folded t fp e" "calc_int t fp ty e = Const v \<or> calc_bool t fp e = Const b \<or> calc_float t fp e = Const x"
  shows "leaf e"
  using assms unfolding folded_def nonconst_def by (metis folded.distinct(5))

lemma folded_int:
  assumes "folded t fp e" "calc_int t fp ty e = Const v"
  shows "\<exists>w. leaf_int e = Some w \<and> v = ConvertConstant ty w"
  using folded_leaf [OF assms(1), of ty v] assms(2)
  by (auto simp: leaf_def leaf_int_def calc_int.simps [of t fp ty e] split: expr.splits option.splits constval.splits)

lemma folded_bool:
  assumes "folded t fp e" "calc_bool t fp e = Const v"
  shows "leaf_bool e = Some v"
  using folded_leaf [OF assms(1)] assms(2)
  by (auto simp: leaf_def leaf_bool_def calc_bool.simps [of t fp e] split: expr.splits option.splits constval.splits)

lemma leaf_int_wt:
  assumes "wt t e" "leaf_int e = Some w"
  shows "ConvertConstant (etype e) w = w" "integral (etype e)" "0 < ty_bits (etype e)" "ty_bits (etype e) \<le> 64"
    "leaf e" "Generate t fp e = Some (int_const (etype e) w)"
  using assms sty_ok_bits [OF wt_sty [OF assms(1)]]
  by (auto simp: leaf_int_def leaf_def const_ok_def gen_var_def split: expr.splits option.splits constval.splits)

lemma leaf_bool_wt:
  assumes "wt t e" "leaf_bool e = Some w"
  shows "etype e = TBool" "leaf e" "Generate t fp e = Some (bool_const w)"
  using assms
  by (auto simp: leaf_bool_def leaf_def const_ok_def gen_var_def split: expr.splits option.splits constval.splits)

lemma leaf_calc:
  assumes "wt t e" "leaf e"
  shows "integral (etype e) \<Longrightarrow> \<exists>v. calc_int t fp ty e = Const v"
    "etype e = TBool \<Longrightarrow> \<exists>b. calc_bool t fp e = Const b"
    "is_float (etype e) \<Longrightarrow> \<exists>x. calc_float t fp e = Const x"
  using assms
  by (auto simp: leaf_def const_ok_def calc_int.simps [of t fp ty e] calc_bool.simps [of t fp e] calc_float.simps [of t fp e]
      split: expr.splits option.splits constval.splits)

text \<open>The calculation of a node's own type.\<close>

definition own_nc :: "target \<Rightarrow> 'f fpu \<Rightarrow> 'f expr \<Rightarrow> bool" where
  "own_nc t fp e \<longleftrightarrow> (case etype e of TFloat _ \<Rightarrow> nc (calc_float t fp e) | TBool \<Rightarrow> nc (calc_bool t fp e)
     | ty \<Rightarrow> nc (calc_int t fp ty e))"

lemma FoldScalar_cases:
  assumes "FoldScalarExpr t fp e = Some e'"
  obtains "e' = e" "own_nc t fp e"
  | v where "integral (etype e)" "calc_int t fp (etype e) e = Const v" "e' = OIntLit v (etype e)"
  | b where "etype e = TBool" "calc_bool t fp e = Const b" "e' = OBoolLit b"
  | x where "is_float (etype e)" "calc_float t fp e = Const x" "e' = OFloatLit x (etype e)"
  using assms unfolding FoldScalarExpr_def own_nc_def
  by (cases "etype e"; cases "calc_int t fp (etype e) e"; cases "calc_bool t fp e"; cases "calc_float t fp e") auto

lemma not_nc_bind: "x = Const v \<Longrightarrow> nc (fbind x f) \<longleftrightarrow> nc (f v)"
  by simp

lemma i64_nc [simp]: "\<not> nc (i64 z)" "\<not> nc (fbind (i64 z) (\<lambda>w. Const (f w)))"
  by (simp_all add: i64_def)

lemma int_binop_nc: "op \<noteq> BINOP_DIV \<Longrightarrow> \<not> nc (int_binop ty op x y)"
  by (cases op) (auto simp: int_binop_def i64_def)

lemma nc_bind_Const [simp]: "nc (fbind x (\<lambda>w. Const (f w))) \<longleftrightarrow> nc x"
  by (cases x) simp_all

lemma of_fp_nc [simp]: "\<not> nc (of_fp x)"
  by (simp add: of_fp_def split: option.splits)

lemma node_nc_bin:
  assumes w: "wt t (OBinExpr op ty x y)" and f: "folded t fp x" "folded t fp y" and n: "own_nc t fp (OBinExpr op ty x y)"
  shows "nonconst t fp (OBinExpr op ty x y)"
proof (cases "nonconst t fp x \<or> nonconst t fp y")
  case False
  with f have l: "leaf x" "leaf y" by (simp_all add: folded_def)
  from w have wx: "wt t x" "wt t y" "etype x = ty" "etype y = ty" by simp_all
  show ?thesis
  proof (cases ty)
    case (TInt b sg)
    with leaf_calc(1) [OF wx(1) l(1), of fp ty] leaf_calc(1) [OF wx(2) l(2), of fp ty] wx(3,4)
    obtain v u where "calc_int t fp ty x = Const v" "calc_int t fp ty y = Const u" by auto
    with n w TInt show ?thesis
      by (simp add: own_nc_def calc_int.simps [of t fp _ "OBinExpr op (TInt b sg) x y"] int_binop_nc)
  next
    case (TFloat b)
    with leaf_calc(3) [OF wx(1) l(1), of fp] leaf_calc(3) [OF wx(2) l(2), of fp] wx(3,4)
    obtain v u where "calc_float t fp x = Const v" "calc_float t fp y = Const u" by auto
    with n w TFloat show ?thesis
      by (auto simp: own_nc_def calc_float.simps [of t fp "OBinExpr op (TFloat b) x y"] fop_def)
  qed (use w in auto)
qed (rule nonconst2(1) [OF f(1)])

lemma node_nc_cmp:
  assumes w: "wt t (OCompareExpr op x y)" and f: "folded t fp x" "folded t fp y" and n: "own_nc t fp (OCompareExpr op x y)"
  shows "nonconst t fp (OCompareExpr op x y)"
proof (cases "nonconst t fp x \<or> nonconst t fp y")
  case False
  with f have l: "leaf x" "leaf y" by (simp_all add: folded_def)
  from w have wx: "wt t x" "wt t y" "etype y = etype x" by simp_all
  note c = calc_bool.simps [of t fp "OCompareExpr op x y"]
  show ?thesis
  proof (cases "etype x")
    case (TInt b sg)
    with leaf_calc(1) [OF wx(1) l(1), of fp "type_int t"] leaf_calc(1) [OF wx(2) l(2), of fp "type_int t"] wx(3) n
    show ?thesis by (auto simp: own_nc_def c)
  next
    case (TChar b)
    then show ?thesis unfolding nonconst_nc c
      by (simp add: calc_int.simps [of t fp _ "OCompareExpr op x y"] calc_float.simps [of t fp "OCompareExpr op x y"])
  next
    case TBool
    with leaf_calc(2) [OF wx(1) l(1), of fp] leaf_calc(2) [OF wx(2) l(2), of fp] wx(3) n w
    show ?thesis by (auto simp: own_nc_def c)
  next
    case (TFloat b)
    with leaf_calc(3) [OF wx(1) l(1), of fp] leaf_calc(3) [OF wx(2) l(2), of fp] wx(3) n
    show ?thesis by (auto simp: own_nc_def c)
  qed
qed (rule nonconst2(2) [OF f(1)])

lemma node_nc_logical:
  assumes w: "wt t (OLogicalExpr op x y)" and f: "folded t fp x" "folded t fp y" and n: "own_nc t fp (OLogicalExpr op x y)"
  shows "nonconst t fp (OLogicalExpr op x y)"
proof (cases "nonconst t fp x \<or> nonconst t fp y")
  case False
  with f have l: "leaf x" "leaf y" by (simp_all add: folded_def)
  from w have wx: "wt t x" "wt t y" "etype x = TBool" "etype y = TBool" by simp_all
  from leaf_calc(2) [OF wx(1) l(1), of fp] leaf_calc(2) [OF wx(2) l(2), of fp] wx n
  show ?thesis by (auto simp: own_nc_def calc_bool.simps [of t fp "OLogicalExpr op x y"])
qed (rule nonconst2(3) [OF f(1)])

lemma node_nc_un:
  assumes f: "folded t fp x"
  shows "wt t (ONotExpr x) \<Longrightarrow> own_nc t fp (ONotExpr x) \<Longrightarrow> nonconst t fp (ONotExpr x)"
    and "wt t (OBinNotExpr ty x) \<Longrightarrow> own_nc t fp (OBinNotExpr ty x) \<Longrightarrow> nonconst t fp (OBinNotExpr ty x)"
    and "wt t (ONegExpr ty x) \<Longrightarrow> own_nc t fp (ONegExpr ty x) \<Longrightarrow> nonconst t fp (ONegExpr ty x)"
    and "wt t (OFloatRoundExpr m ty x) \<Longrightarrow> own_nc t fp (OFloatRoundExpr m ty x) \<Longrightarrow> nonconst t fp (OFloatRoundExpr m ty x)"
proof -
  have l: "leaf x" if "\<not> nonconst t fp x" using f that by (simp add: folded_def)
  note lc = leaf_calc [OF _ l]
  show "nonconst t fp (ONotExpr x)" if w: "wt t (ONotExpr x)" and n: "own_nc t fp (ONotExpr x)"
    using lc(2) [of t fp] w n nonconst1(3) [of t fp x]
    by (cases "nonconst t fp x") (auto simp: own_nc_def calc_bool.simps [of t fp "ONotExpr x"])
  show "nonconst t fp (OBinNotExpr ty x)" if w: "wt t (OBinNotExpr ty x)" and n: "own_nc t fp (OBinNotExpr ty x)"
    using lc(1) [of t fp ty] w n nonconst1(2) [of t fp x ty]
    by (cases "nonconst t fp x"; cases ty) (auto simp: own_nc_def calc_int.simps [of t fp _ "OBinNotExpr _ x"])
  show "nonconst t fp (ONegExpr ty x)" if w: "wt t (ONegExpr ty x)" and n: "own_nc t fp (ONegExpr ty x)"
    using lc(1) [of t fp ty] lc(3) [of t fp] w n nonconst1(1) [of t fp x ty]
    by (cases "nonconst t fp x"; cases "etype x") (auto simp: own_nc_def calc_int.simps [of t fp _ "ONegExpr _ x"] calc_float.simps [of t fp "ONegExpr _ x"])
  show "nonconst t fp (OFloatRoundExpr m ty x)" if w: "wt t (OFloatRoundExpr m ty x)" and n: "own_nc t fp (OFloatRoundExpr m ty x)"
    using lc(3) [of t fp] w n nonconst1(5) [of t fp x m ty]
    by (cases "nonconst t fp x") (auto simp: own_nc_def type_int_def calc_int.simps [of t fp _ "OFloatRoundExpr m _ x"])
qed

lemma node_nc_conv:
  assumes f: "folded t fp x" and w: "wt t (OExprTypeConv ty x)" and n: "own_nc t fp (OExprTypeConv ty x)"
  shows "nonconst t fp (OExprTypeConv ty x)"
proof (cases "nonconst t fp x \<or> (\<exists>b. etype x = TChar b)")
  case True
  then show ?thesis
  proof
    assume "\<exists>b. etype x = TChar b"
    then obtain b where "etype x = TChar b" ..
    then show ?thesis unfolding nonconst_nc
      by (simp add: calc_int.simps [of t fp _ "OExprTypeConv ty x"] calc_bool.simps [of t fp "OExprTypeConv ty x"] calc_float.simps [of t fp "OExprTypeConv ty x"])
  qed (rule nonconst1(4))
next
  case False
  with f have l: "leaf x" by (simp add: folded_def)
  from w have wx: "wt t x" by simp
  note lc = leaf_calc [OF wx l, of fp]
  show ?thesis
    using lc(1) [of "etype x"] lc(2) lc(3) n w False
    by (cases ty; cases "etype x")
      (auto simp: own_nc_def calc_int.simps [of t fp _ "OExprTypeConv _ x"] calc_float.simps [of t fp "OExprTypeConv _ x"] split: if_splits)
qed

section \<open>A folded node computes what its code computes\<close>

lemma eval_int_const:
  "llvm_langref L \<Longrightarrow> 0 < ty_bits ty \<Longrightarrow> ll_eval L env (int_const ty v) = Some (ty_bits ty, pat (ty_bits ty) v)"
  by (simp add: int_const_def langref_const pat_def)

lemma eval_bool_const: "llvm_langref L \<Longrightarrow> ll_eval L env (bool_const b) = Some (1, of_bool b)"
  by (cases b) (simp_all add: bool_const_def langref_const)

text \<open>The operations on which a constant and the code may differ are left out.\<close>

definition node_safe :: "target \<Rightarrow> 'f expr \<Rightarrow> bool" where
  "node_safe t e = (case e of
     OBinExpr op ty _ _ \<Rightarrow> \<not> (op = BINOP_ISHR \<and> ty = TInt 64 False)
   | OCompareExpr op x _ \<Rightarrow>
       (case etype x of
          TInt b sg \<Rightarrow> b < native_bits t \<or> b = native_bits t \<and> (sg \<or> op \<in> {COMPOP_EQ, COMPOP_NE})
        | _ \<Rightarrow> True)
   | _ \<Rightarrow> True)"

lemma bin_int_sound:
  assumes L: "llvm_langref L" and w: "wt t (OBinExpr op (TInt b sg) x y)" and f: "folded t fp x" "folded t fp y"
    and s: "node_safe t (OBinExpr op (TInt b sg) x y)"
    and c: "calc_int t fp (TInt b sg) (OBinExpr op (TInt b sg) x y) = Const v"
    and g: "Generate t fp (OBinExpr op (TInt b sg) x y) = Some g" and e: "ll_eval L env g = Some r"
  shows "r = (b, pat b v)"
proof -
  from c obtain v1 v2 u where cc: "calc_int t fp (TInt b sg) x = Const v1" "calc_int t fp (TInt b sg) y = Const v2"
    "int_binop (TInt b sg) op v1 v2 = Const u" "v = ConvertConstant (TInt b sg) u"
    by (auto simp: calc_int.simps [of t fp _ "OBinExpr op (TInt b sg) x y"])
  from folded_int [OF f(1) cc(1)] obtain w1 where l1: "leaf_int x = Some w1" "v1 = ConvertConstant (TInt b sg) w1" by blast
  from folded_int [OF f(2) cc(2)] obtain w2 where l2: "leaf_int y = Some w2" "v2 = ConvertConstant (TInt b sg) w2" by blast
  from w have wx: "wt t x" "wt t y" "etype x = TInt b sg" "etype y = TInt b sg" "op \<noteq> BINOP_DIV" by simp_all
  note n1 = leaf_int_wt [OF wx(1) l1(1), unfolded wx(3)] and n2 = leaf_int_wt [OF wx(2) l2(1), unfolded wx(4)]
  have b: "0 < b" "b \<le> 64" using n1(3,4) by simp_all
  have v12: "v1 = w1" "v2 = w2" using l1(2) l2(2) n1(1) n2(1) by simp_all
  from g n1(6) n2(6) have gg: "gen_intop op b sg (int_const (TInt b sg) w1) (int_const (TInt b sg) w2) = Some g"
    by (auto simp: gen_binop_def)
  note ev = eval_int_const [OF L, of "TInt b sg", simplified, OF b(1)]
  have "ll_eval L env g = map_option (Pair b) (ref_intop op b sg (pat b w1) (pat b w2))"
    by (rule gen_intop_eval [OF L b(1) ev pat_range ev pat_range gg])
  with e obtain m where m: "ref_intop op b sg (pat b w1) (pat b w2) = Some m" "r = (b, m)" by auto
  have sh: "op = BINOP_ISHR \<Longrightarrow> sg \<or> b < 64" using s b(2) by (auto simp: node_safe_def)
  have "pat b u = m" using int_binop_pat [OF b n1(1) n2(1) _ m(1) sh] cc(3) v12 by simp
  then show ?thesis using m(2) cc(4) pat_conv [of "TInt b sg" u] b by simp
qed

lemma un_int_sound:
  assumes L: "llvm_langref L" and f: "folded t fp x" and wx: "wt t x" "etype x = TInt b sg"
  shows "calc_int t fp (TInt b sg) (OBinNotExpr (TInt b sg) x) = Const v \<Longrightarrow>
      Generate t fp (OBinNotExpr (TInt b sg) x) = Some g \<Longrightarrow> ll_eval L env g = Some r \<Longrightarrow> r = (b, pat b v)"
    and "calc_int t fp (TInt b True) (ONegExpr (TInt b True) x) = Const v \<Longrightarrow>
      Generate t fp (ONegExpr (TInt b True) x) = Some g \<Longrightarrow> ll_eval L env g = Some r \<Longrightarrow> r = (b, pat b v)"
proof -
  have b: "0 < b" "b \<le> 64" using sty_ok_bits [OF wt_sty [OF wx(1)]] wx(2) by simp_all
  note ev = eval_int_const [OF L, of "TInt b sg", simplified, OF b(1)]
  have leaf: "\<exists>w. v1 = ConvertConstant ty w \<and> Generate t fp x = Some (int_const (TInt b sg) w)"
    if "calc_int t fp ty x = Const v1" for ty v1
    using folded_int [OF f that] leaf_int_wt(6) [OF wx(1)] wx(2) by auto
  show "r = (b, pat b v)" if c: "calc_int t fp (TInt b sg) (OBinNotExpr (TInt b sg) x) = Const v"
    and g: "Generate t fp (OBinNotExpr (TInt b sg) x) = Some g" and e: "ll_eval L env g = Some r"
  proof -
    from c obtain v1 where v1: "calc_int t fp (TInt b sg) x = Const v1" "v = ConvertConstant (TInt b sg) (NOT v1)"
      by (auto simp: calc_int.simps [of t fp _ "OBinNotExpr (TInt b sg) x"])
    from leaf [OF v1(1)] obtain w where w: "v1 = ConvertConstant (TInt b sg) w" "Generate t fp x = Some (int_const (TInt b sg) w)"
      by blast
    have p1: "pat b v1 = pat b w" using w(1) pat_conv [of "TInt b sg" w] b by simp
    note pm = take_bit_int_less_exp [of b "- 1"] take_bit_nonnegative [of b "- 1"]
    have "pat b (NOT v1) = pat b v1 XOR take_bit b (- 1)"
      using b(2) by (intro bit_eqI) (auto simp: pat_def bit_take_bit_iff bit_uint_iff bit_not_iff bit_xor_iff bit_mask_iff)
    moreover have "ll_eval L env g = Some (b, pat b w XOR take_bit b (- 1))"
      using g w(2) langref_bin [OF L b(1) pat_range [of b w] pm(2,1), of LXor]
      by (auto simp: ev langref_const [OF L b(1)] ref_bin_def)
    ultimately show ?thesis using e v1(2) p1 pat_conv [of "TInt b sg" "NOT v1"] b by simp
  qed
  show "r = (b, pat b v)" if c: "calc_int t fp (TInt b True) (ONegExpr (TInt b True) x) = Const v"
    and g: "Generate t fp (ONegExpr (TInt b True) x) = Some g" and e: "ll_eval L env g = Some r"
  proof -
    from c obtain v1 u where v1: "calc_int t fp (TInt b True) x = Const v1" "i64 (- sint v1) = Const u"
      "v = ConvertConstant (TInt b True) u"
      by (auto simp: calc_int.simps [of t fp _ "ONegExpr (TInt b True) x"])
    from leaf [OF v1(1)] obtain w where w: "v1 = ConvertConstant (TInt b True) w" "Generate t fp x = Some (int_const (TInt b sg) w)"
      by blast
    have p1: "pat b v1 = pat b w" using w(1) pat_conv [of "TInt b True" w] b by simp
    have "u = - v1" using v1(2) by (simp add: i64_Const)
    then have "pat b u = take_bit b (0 - pat b w)" using pat_arith(4) [OF b(2), of v1] p1 by simp
    moreover have "ll_eval L env g = Some (b, take_bit b (0 - pat b w))"
      using g w(2) wx(2) langref_bin [OF L b(1) _ _ pat_range [of b w], of 0 LSub]
      by (auto simp: ev ref_bin_def)
    ultimately show ?thesis using e v1(3) pat_conv [of "TInt b True" u] b by simp
  qed
qed

lemma sint_inj: "sint v = sint w \<longleftrightarrow> v = w" for v w :: int64
  by (auto intro: signed_word_eqI)

lemma conv_native:
  assumes "0 < b" "b \<le> n" "n \<le> 64" "ConvertConstant (TInt b sg) w = w" "b < n \<or> sg"
  shows "ConvertConstant (TInt n True) w = w"
proof (cases "n = 64")
  case False
  with assms have n: "n < 64" "b < 64" by simp_all
  show ?thesis
  proof (cases sg)
    case True
    with assms n have "signed_take_bit (b - 1) w = w" by (simp add: ConvertConstant_def NormalizeConstant_word)
    moreover have "signed_take_bit (n - 1) (signed_take_bit (b - 1) w) = signed_take_bit (b - 1) w"
      using assms(2) by (simp add: signed_take_bit_signed_take_bit min_absorb2)
    ultimately have "signed_take_bit (n - 1) w = w" by simp
    then show ?thesis using n assms by (simp add: ConvertConstant_def NormalizeConstant_word)
  next
    case False
    with assms n have tw: "take_bit b w = w" and bn: "b < n" by (simp_all add: ConvertConstant_def NormalizeConstant_word)
    have hi: "\<not> bit w k" if "k \<ge> b" for k using arg_cong [OF tw, of "\<lambda>v. bit v k"] that by (simp add: bit_take_bit_iff)
    have "signed_take_bit (n - 1) w = w"
      using hi bn by (intro bit_word_eqI) (auto simp: bit_signed_take_bit_iff min_def not_le)
    then show ?thesis using n assms by (simp add: ConvertConstant_def NormalizeConstant_word)
  qed
qed (simp add: ConvertConstant_def NormalizeConstant_def)

lemma sgnd_inj: "0 < b \<Longrightarrow> 0 \<le> p \<Longrightarrow> p < 2 ^ b \<Longrightarrow> 0 \<le> q \<Longrightarrow> q < 2 ^ b \<Longrightarrow> sgnd b p = sgnd b q \<longleftrightarrow> p = q"
  by (metis take_bit_sgnd take_bit_int_eq_self)

lemma conv_eq_pat:
  assumes "0 < b" "b \<le> n" "n \<le> 64" "ConvertConstant (TInt b sg) w = w" "ConvertConstant (TInt b sg) w' = w'"
  shows "ConvertConstant (TInt n True) w = ConvertConstant (TInt n True) w' \<longleftrightarrow> pat b w = pat b w'"
proof
  assume "ConvertConstant (TInt n True) w = ConvertConstant (TInt n True) w'"
  then have "pat n w = pat n w'" using pat_conv [of "TInt n True" w] pat_conv [of "TInt n True" w'] assms by simp
  then have "take_bit b (pat n w) = take_bit b (pat n w')" by simp
  then show "pat b w = pat b w'" using assms(2) by (simp add: pat_def take_bit_take_bit min_def)
next
  assume p: "pat b w = pat b w'"
  have "w = w'"
  proof (cases "sg \<or> b < 64")
    case True
    with norm_val [of "TInt b sg" w] norm_val [of "TInt b sg" w'] assms p have "sint w = sint w'" by simp
    then show ?thesis by (simp add: sint_inj)
  next
    case False
    then have "b = 64" using assms by simp
    with p show ?thesis by (simp add: pat_def unsigned_word_eqI)
  qed
  then show "ConvertConstant (TInt n True) w = ConvertConstant (TInt n True) w'" by simp
qed

lemma int_cmp_pat:
  assumes b: "0 < b" "b \<le> n" "n \<le> 64" and w: "ConvertConstant (TInt b sg) w1 = w1" "ConvertConstant (TInt b sg) w2 = w2"
    and s: "b < n \<or> b = n \<and> (sg \<or> op \<in> {COMPOP_EQ, COMPOP_NE})"
  shows "int_cmp op (ConvertConstant (TInt n True) w1) (ConvertConstant (TInt n True) w2)
    = ref_icmp (icmp_pred op sg) b (pat b w1) (pat b w2)"
proof (cases "op \<in> {COMPOP_EQ, COMPOP_NE}")
  case True
  then show ?thesis
    using conv_eq_pat [OF b w] by (auto simp: int_cmp_def icmp_pred_def ref_icmp_def sint_inj)
next
  case False
  with s have o: "b < n \<or> sg" by auto
  note c = conv_native [OF b w(1) o] conv_native [OF b w(2) o]
  have "sg \<or> b < 64" using o b by auto
  then have v: "sint w1 = val b sg (pat b w1)" "sint w2 = val b sg (pat b w2)"
    using norm_val [of "TInt b sg" w1] norm_val [of "TInt b sg" w2] w b by simp_all
  show ?thesis unfolding c using v False by (cases op) (simp_all add: int_cmp_def icmp_pred_def ref_icmp_def val_def)
qed

lemma cmp_sound:
  assumes L: "llvm_langref L" and nb: "native_bits t \<le> 64" and w: "wt t (OCompareExpr op x y)"
    and f: "folded t fp x" "folded t fp y" and s: "node_safe t (OCompareExpr op x y)"
    and c: "calc_bool t fp (OCompareExpr op x y) = Const v"
    and g: "Generate t fp (OCompareExpr op x y) = Some g" and e: "ll_eval L env g = Some r"
  shows "r = (1, of_bool v)"
proof (cases "etype x")
  case (TInt b sg)
  from w TInt have wx: "wt t x" "wt t y" "etype x = TInt b sg" "etype y = TInt b sg" by simp_all
  from c TInt obtain v1 v2 where cc: "calc_int t fp (type_int t) x = Const v1" "calc_int t fp (type_int t) y = Const v2"
    "v = int_cmp op v1 v2"
    by (auto simp: calc_bool.simps [of t fp "OCompareExpr op x y"])
  from folded_int [OF f(1) cc(1)] obtain w1 where l1: "leaf_int x = Some w1" "v1 = ConvertConstant (type_int t) w1" by blast
  from folded_int [OF f(2) cc(2)] obtain w2 where l2: "leaf_int y = Some w2" "v2 = ConvertConstant (type_int t) w2" by blast
  note n1 = leaf_int_wt [OF wx(1) l1(1), unfolded wx(3)] and n2 = leaf_int_wt [OF wx(2) l2(1), unfolded wx(4)]
  have b: "0 < b" using n1(3) by simp
  note ev = eval_int_const [OF L, of "TInt b sg", simplified, OF b]
  have sf: "b < native_bits t \<or> b = native_bits t \<and> (sg \<or> op \<in> {COMPOP_EQ, COMPOP_NE})"
    using s TInt by (simp add: node_safe_def)
  then have "b \<le> native_bits t" by auto
  note cp = int_cmp_pat [OF b this nb n1(1) n2(1) sf]
  from g n1(6) n2(6) TInt have "g = LICmp (icmp_pred op sg) (int_const (TInt b sg) w1) (int_const (TInt b sg) w2)"
    by (auto simp: gen_compare_def)
  with e show ?thesis
    using cc(3) l1(2) l2(2) cp langref_icmp [OF L b pat_range [of b w1] pat_range [of b w2]] by (auto simp: ev type_int_def)
next
  case TBool
  from w TBool have wx: "wt t x" "wt t y" "op \<in> {COMPOP_EQ, COMPOP_NE}" by simp_all
  have "calc_bool t fp (OCompareExpr op x y) = fbind (calc_bool t fp x) (\<lambda>a. fbind (calc_bool t fp y) (\<lambda>b.
      Const (if op = COMPOP_EQ then a = b else a \<noteq> b)))"
    using TBool wx(3) by (simp add: calc_bool.simps [of t fp "OCompareExpr op x y"])
  from c [unfolded this] obtain v1 v2 where cc: "calc_bool t fp x = Const v1" "calc_bool t fp y = Const v2"
    "v = (if op = COMPOP_EQ then v1 = v2 else v1 \<noteq> v2)"
    unfolding fbind_Const folded.inject by metis
  note g1 = leaf_bool_wt(3) [OF wx(1) folded_bool [OF f(1) cc(1)], of fp] and g2 = leaf_bool_wt(3) [OF wx(2) folded_bool [OF f(2) cc(2)], of fp]
  from g g1 g2 TBool wx(3) have "g = LICmp (icmp_pred op False) (bool_const v1) (bool_const v2)"
    by (auto simp: gen_compare_def split: if_splits)
  moreover have "s_icmp L p 1 (of_bool v1) (of_bool v2) = ref_icmp p 1 (of_bool v1) (of_bool v2)" for p
    by (rule langref_icmp [OF L]) simp_all
  ultimately have "r = (1, of_bool (ref_icmp (icmp_pred op False) 1 (of_bool v1) (of_bool v2)))"
    using e by (simp add: eval_bool_const [OF L] bind2_def)
  with wx(3) cc(3) show ?thesis by (cases op) (simp_all add: icmp_pred_def ref_icmp_def)
next
  case (TChar b)
  with c show ?thesis by (simp add: calc_bool.simps [of t fp "OCompareExpr op x y"])
next
  case (TFloat b)
  with g e show ?thesis by (auto simp: gen_compare_def)
qed

lemma pat_small: "0 < b \<Longrightarrow> b \<le> 64 \<Longrightarrow> pat b (of_bool x) = of_bool x"
  by (cases x) (simp_all add: pat_def)

lemma cast_pat:
  assumes b: "0 < b1" "b1 \<le> 64" "0 < b2" "b2 \<le> 64" and w: "ConvertConstant ty w = w" "ty_bits ty = b1"
  shows "ref_cast (if b2 > b1 then (if ty_signed ty then LSExt else LZExt) else LTrunc) b1 b2 (pat b1 w) = pat b2 w"
proof (cases "b2 > b1")
  case True
  show ?thesis
  proof (cases "ty_signed ty")
    case sg: True
    have "sint w = sgnd b1 (pat b1 w)" using norm_val [of ty w] b w sg by (simp add: val_def)
    then show ?thesis using True sg take_bit_sint [OF b(4), of w] by (simp add: ref_cast_def)
  next
    case False
    have u: "pat b1 w = uint w" using norm_uint [of ty w] b w False by simp
    moreover have "uint w < 2 ^ b2"
      by (rule order.strict_trans2 [of _ "2 ^ b1"]) (use pat_range(2) [of b1 w] u True in simp_all)
    ultimately show ?thesis using True False by (simp add: ref_cast_def pat_def take_bit_int_eq_self)
  qed
next
  case False
  then show ?thesis by (simp add: ref_cast_def pat_def take_bit_take_bit min_def)
qed

lemma conv_sound:
  assumes L: "llvm_langref L" and w: "wt t (OExprTypeConv ty x)" and f: "folded t fp x" and i: "integral ty"
    and c: "calc_int t fp ty (OExprTypeConv ty x) = Const v"
    and g: "Generate t fp (OExprTypeConv ty x) = Some g" and e: "ll_eval L env g = Some r"
  shows "r = (ty_bits ty, pat (ty_bits ty) v)"
proof -
  from w have wx: "wt t x" and b2: "0 < ty_bits ty" "ty_bits ty \<le> 64" using sty_ok_bits [of ty] by simp_all
  note cs = calc_int.simps [of t fp ty "OExprTypeConv ty x"]
  obtain gx where gx: "Generate t fp x = Some gx" "gen_conv ty (etype x) gx = Some g"
    using g by (auto simp: bind_eq_Some_conv)
  show ?thesis
  proof (cases "etype x")
    case (TInt b1 sg)
    with c obtain v1 where v1: "calc_int t fp (TInt b1 sg) x = Const v1" "v = ConvertConstant ty v1" by (auto simp: cs)
    from folded_int [OF f v1(1)] obtain w1 where w1: "leaf_int x = Some w1" "v1 = ConvertConstant (TInt b1 sg) w1" by blast
    note n = leaf_int_wt [OF wx w1(1), unfolded TInt]
    have b1: "0 < b1" "b1 \<le> 64" using n(3,4) by simp_all
    note ev = eval_int_const [OF L, of "TInt b1 sg", simplified, OF b1(1)]
    let ?c = "if ty_bits ty > b1 then (if sg then LSExt else LZExt) else LTrunc"
    have "g = LCast ?c (LInt (ty_bits ty)) (int_const (TInt b1 sg) w1)"
      using gx n(6) TInt i by (cases ty) (auto simp: gen_conv_def)
    moreover have "s_cast L ?c b1 (ty_bits ty) (pat b1 w1) = pat (ty_bits ty) w1"
      using langref_cast [OF L b1(1) pat_range [of b1 w1], of ?c "ty_bits ty"] b1 b2 n(1)
        cast_pat [OF b1 b2, of "TInt b1 sg" w1] by (auto split: if_splits)
    ultimately have "ll_eval L env g = Some (ty_bits ty, pat (ty_bits ty) w1)" by (auto simp: ev)
    then show ?thesis using e v1(2) w1(2) n(1) b2 by simp
  next
    case TBool
    with c obtain a where a: "calc_bool t fp x = Const a" "v = ConvertConstant ty (of_bool a)"
      by (auto simp: cs of_bool_def)
    note ga = leaf_bool_wt(3) [OF wx folded_bool [OF f a(1)], of fp]
    have "ty_bits ty > 1" using w i by (cases ty) (auto simp: sty_ok_def)
    then have "g = LCast LZExt (LInt (ty_bits ty)) (bool_const a)"
      using gx ga TBool i by (cases ty) (auto simp: gen_conv_def)
    moreover have "s_cast L LZExt 1 (ty_bits ty) (of_bool a) = of_bool a"
      using langref_cast [OF L, of 1 "of_bool a" LZExt "ty_bits ty"] \<open>ty_bits ty > 1\<close> by (cases a) (simp_all add: ref_cast_def)
    ultimately have "ll_eval L env g = Some (ty_bits ty, of_bool a)" by (auto simp: eval_bool_const [OF L])
    then show ?thesis using e a(2) b2 pat_small [OF b2, of a] by simp
  next
    case (TChar b)
    with c show ?thesis by (simp add: cs)
  next
    case (TFloat b)
    then have "ll_eval L env gx = None" using Generate_float [OF wx _ gx(1)] by simp
    then show ?thesis using gx(2) e TFloat i by (cases ty) (auto simp: gen_conv_def)
  qed
qed

lemma not_sound:
  assumes L: "llvm_langref L" and w: "wt t (ONotExpr x)" and f: "folded t fp x"
    and c: "calc_bool t fp (ONotExpr x) = Const v"
    and g: "Generate t fp (ONotExpr x) = Some g" and e: "ll_eval L env g = Some r"
  shows "r = (1, of_bool v)"
proof -
  from c obtain a where a: "calc_bool t fp x = Const a" "v = (\<not> a)" by (auto simp: calc_bool.simps [of t fp "ONotExpr x"])
  note ga = leaf_bool_wt(3) [OF _ folded_bool [OF f a(1)], of t fp]
  have "s_bin L LXor 1 (of_bool a) 1 = Some (of_bool (\<not> a))"
    using langref_bin [OF L, of 1 "of_bool a" 1 LXor] by (cases a) (simp_all add: ref_bin_def)
  then show ?thesis using g ga w e a(2) by (auto simp: eval_bool_const [OF L] langref_const [OF L] bind2_def)
qed

lemma logical_sound:
  assumes L: "llvm_langref L" and w: "wt t (OLogicalExpr op x y)" and f: "folded t fp x" "folded t fp y"
    and c: "calc_bool t fp (OLogicalExpr op x y) = Const v"
    and g: "Generate t fp (OLogicalExpr op x y) = Some g" and e: "ll_eval L env g = Some r"
  shows "r = (1, of_bool v)"
proof -
  from c obtain a b where ab: "calc_bool t fp x = Const a" "calc_bool t fp y = Const b"
    "v = (case op of LOGIOP_AND \<Rightarrow> a \<and> b | LOGIOP_OR \<Rightarrow> a \<or> b | LOGIOP_XOR \<Rightarrow> a \<noteq> b)"
    by (auto simp: calc_bool.simps [of t fp "OLogicalExpr op x y"])
  from w have wx: "wt t x" "wt t y" by simp_all
  note ga = leaf_bool_wt(3) [OF wx(1) folded_bool [OF f(1) ab(1)], of fp] and gb = leaf_bool_wt(3) [OF wx(2) folded_bool [OF f(2) ab(2)], of fp]
  have "s_bin L LXor 1 (of_bool a) (of_bool b) = Some (of_bool (a \<noteq> b))"
    using langref_bin [OF L, of 1 "of_bool a" "of_bool b" LXor] by (cases a; cases b) (simp_all add: ref_bin_def)
  then show ?thesis
    using g ga gb e ab(3) by (cases op) (auto simp: eval_bool_const [OF L] bind2_def)
qed

section \<open>Folding a tree\<close>

text \<open>What folding a node, or a tree, is worth.\<close>

definition fold_ok :: "target \<Rightarrow> 'f fpu \<Rightarrow> llsem \<Rightarrow> (string \<Rightarrow> int) \<Rightarrow> 'f expr \<Rightarrow> 'f expr \<Rightarrow> bool" where
  "fold_ok t fp L env e e' \<longleftrightarrow> wt t e' \<and> etype e' = etype e \<and> folded t fp e' \<and>
     (\<forall>v. run_expr t fp L env e = Some v \<longrightarrow> run_expr t fp L env e' = Some v)"

lemma fold_ok_node:
  assumes L: "llvm_langref L" and w: "wt t e" and r: "FoldScalarExpr t fp e = Some e'"
    and n: "own_nc t fp e \<Longrightarrow> nonconst t fp e"
    and i: "\<And>v g r. integral (etype e) \<Longrightarrow> calc_int t fp (etype e) e = Const v \<Longrightarrow> Generate t fp e = Some g \<Longrightarrow>
        ll_eval L env g = Some r \<Longrightarrow> r = (ty_bits (etype e), pat (ty_bits (etype e)) v)"
    and i2: "\<And>v. integral (etype e) \<Longrightarrow> calc_int t fp (etype e) e = Const v \<Longrightarrow> ConvertConstant (etype e) v = v"
    and b: "\<And>v g r. etype e = TBool \<Longrightarrow> calc_bool t fp e = Const v \<Longrightarrow> Generate t fp e = Some g \<Longrightarrow>
        ll_eval L env g = Some r \<Longrightarrow> r = (1, of_bool v)"
  shows "fold_ok t fp L env e e'"
  using r
proof (cases rule: FoldScalar_cases)
  case 1
  with w n show ?thesis by (simp add: fold_ok_def folded_def)
next
  case (2 v)
  have b: "0 < ty_bits (etype e)" using sty_ok_bits [OF wt_sty [OF w]] by simp
  from 2 i2 w wt_sty [OF w] i [OF 2(1,2)] show ?thesis
    by (auto simp: fold_ok_def folded_def leaf_def run_Some eval_int_const [OF L b])
next
  case (3 v)
  from 3 b [OF 3(1,2)] show ?thesis
    by (auto simp: fold_ok_def folded_def leaf_def run_Some eval_bool_const [OF L])
next
  case (4 v)
  with w wt_sty [OF w] run_float [OF w 4(1)] show ?thesis by (simp add: fold_ok_def folded_def leaf_def)
qed

fun kids_folded :: "target \<Rightarrow> 'f fpu \<Rightarrow> 'f expr \<Rightarrow> bool" where
  "kids_folded t fp (OExprTypeConv _ x) \<longleftrightarrow> folded t fp x"
| "kids_folded t fp (OBinExpr _ _ x y) \<longleftrightarrow> folded t fp x \<and> folded t fp y"
| "kids_folded t fp (OCompareExpr _ x y) \<longleftrightarrow> folded t fp x \<and> folded t fp y"
| "kids_folded t fp (OLogicalExpr _ x y) \<longleftrightarrow> folded t fp x \<and> folded t fp y"
| "kids_folded t fp (ONotExpr x) \<longleftrightarrow> folded t fp x"
| "kids_folded t fp (OBinNotExpr _ x) \<longleftrightarrow> folded t fp x"
| "kids_folded t fp (ONegExpr _ x) \<longleftrightarrow> folded t fp x"
| "kids_folded t fp (OFloatRoundExpr _ _ x) \<longleftrightarrow> folded t fp x"
| "kids_folded t fp _ \<longleftrightarrow> False"

lemma kids_nc: "wt t e \<Longrightarrow> kids_folded t fp e \<Longrightarrow> own_nc t fp e \<Longrightarrow> nonconst t fp e"
  by (cases e) (simp_all only: kids_folded.simps node_nc_bin node_nc_cmp node_nc_logical node_nc_un node_nc_conv)

lemma kids_norm:
  assumes "kids_folded t fp e" "0 < ty_bits ty" "calc_int t fp ty e = Const v"
  shows "ConvertConstant ty v = v"
proof -
  have n: "NormalizeConstant ty (NormalizeConstant ty u) = NormalizeConstant ty u" for u
    using conv_idem [OF assms(2), of u] by (simp add: ConvertConstant_def)
  from assms show ?thesis
    by (cases e) (auto simp: calc_int.simps [of t fp ty] ConvertConstant_def n split: sty.splits if_splits)
qed

lemma kids_bool:
  assumes L: "llvm_langref L" and nb: "native_bits t \<le> 64" and "wt t e" "kids_folded t fp e" "node_safe t e" "etype e = TBool"
    and "calc_bool t fp e = Const v" "Generate t fp e = Some g" "ll_eval L env g = Some r"
  shows "r = (1, of_bool v)"
proof (cases e)
  case (OCompareExpr op x y)
  show ?thesis by (rule cmp_sound [OF L nb, of op x y fp v g env r]) (use assms OCompareExpr in simp_all)
next
  case (ONotExpr x)
  show ?thesis by (rule not_sound [OF L, of t x fp v g env r]) (use assms ONotExpr in simp_all)
next
  case (OLogicalExpr op x y)
  show ?thesis by (rule logical_sound [OF L, of t op x y fp v g env r]) (use assms OLogicalExpr in simp_all)
qed (use assms in \<open>auto simp: type_int_def split: sty.splits\<close>)

lemma kids_int:
  assumes L: "llvm_langref L" and "wt t e" "kids_folded t fp e" "node_safe t e" "integral (etype e)"
    and "calc_int t fp (etype e) e = Const v" "Generate t fp e = Some g" "ll_eval L env g = Some r"
  shows "r = (ty_bits (etype e), pat (ty_bits (etype e)) v)"
proof (cases e)
  case (OExprTypeConv ty x)
  have "r = (ty_bits ty, pat (ty_bits ty) v)"
    by (rule conv_sound [OF L, of t ty x fp v g env r]) (use assms OExprTypeConv in simp_all)
  with OExprTypeConv show ?thesis by simp
next
  case (OBinExpr op ty x y)
  with assms obtain b sg where ty: "ty = TInt b sg" by (cases ty) auto
  have "r = (b, pat b v)"
    by (rule bin_int_sound [OF L, of t op b sg x y fp v g env r]) (use assms OBinExpr ty in simp_all)
  with OBinExpr ty show ?thesis by simp
next
  case (OBinNotExpr ty x)
  with assms obtain b sg where ty: "ty = TInt b sg" by (cases ty) auto
  have "r = (b, pat b v)"
    by (rule un_int_sound(1) [OF L, of t fp x b sg v g env r]) (use assms OBinNotExpr ty in simp_all)
  with OBinNotExpr ty show ?thesis by simp
next
  case (ONegExpr ty x)
  with assms obtain b sg where ty: "etype x = TInt b sg" "ty = TInt b True" by (cases "etype x") auto
  have "r = (b, pat b v)"
    by (rule un_int_sound(2) [OF L, of t fp x b sg v g env r]) (use assms ONegExpr ty in simp_all)
  with ONegExpr ty show ?thesis by simp
next
  case (OFloatRoundExpr m ty x)
  with assms obtain gx where gx: "Generate t fp x = Some gx" "g = gen_round m (ty_bits (etype x)) (native_bits t) (fp_of_int fp 0) gx"
    by auto
  with assms OFloatRoundExpr have "ll_eval L env gx = None" using Generate_float [of t x fp gx] by simp
  then have "ll_eval L env g = None" unfolding gx(2) by (rule ll_eval_round)
  with assms show ?thesis by simp
qed (use assms in auto)

lemma fold_node:
  assumes L: "llvm_langref L" and nb: "native_bits t \<le> 64" and w: "wt t e" and k: "kids_folded t fp e" and s: "node_safe t e"
    and r: "FoldScalarExpr t fp e = Some e'"
  shows "fold_ok t fp L env e e'"
proof (rule fold_ok_node [OF L w r])
  show "nonconst t fp e" if "own_nc t fp e" using kids_nc [OF w k that] .
  show "ConvertConstant (etype e) v = v" if "calc_int t fp (etype e) e = Const v" for v
    using kids_norm [OF k _ that] sty_ok_bits [OF wt_sty [OF w]] by simp
qed (use kids_int [OF L w k s] kids_bool [OF L nb w k s] in blast)+

fun fold_safe :: "target \<Rightarrow> 'f expr \<Rightarrow> bool" where
  "fold_safe t (OExprTypeConv ty x) \<longleftrightarrow> fold_safe t x"
| "fold_safe t (OBinExpr op ty x y) \<longleftrightarrow> fold_safe t x \<and> fold_safe t y \<and> node_safe t (OBinExpr op ty x y)"
| "fold_safe t (OCompareExpr op x y) \<longleftrightarrow> fold_safe t x \<and> fold_safe t y \<and> node_safe t (OCompareExpr op x y)"
| "fold_safe t (OLogicalExpr op x y) \<longleftrightarrow> fold_safe t x \<and> fold_safe t y"
| "fold_safe t (ONotExpr x) \<longleftrightarrow> fold_safe t x"
| "fold_safe t (OBinNotExpr ty x) \<longleftrightarrow> fold_safe t x"
| "fold_safe t (ONegExpr ty x) \<longleftrightarrow> fold_safe t x"
| "fold_safe t (OFloatRoundExpr m ty x) \<longleftrightarrow> fold_safe t x"
| "fold_safe t (OIifExpr ty c x y) \<longleftrightarrow> fold_safe t c \<and> fold_safe t x \<and> fold_safe t y"
| "fold_safe t _ \<longleftrightarrow> True"

text \<open>The value of a node with the same kinds of operands, each worth at least as much.\<close>

definition run_le :: "target \<Rightarrow> 'f fpu \<Rightarrow> llsem \<Rightarrow> (string \<Rightarrow> int) \<Rightarrow> 'f expr \<Rightarrow> 'f expr \<Rightarrow> bool" where
  "run_le t fp L env e e' \<longleftrightarrow> (\<forall>g. Generate t fp e = Some g \<longrightarrow> (\<exists>g'. Generate t fp e' = Some g' \<and> ll_le L env g g'))"

lemma run_le_run: "run_le t fp L env e e' \<Longrightarrow> run_expr t fp L env e = Some v \<Longrightarrow> run_expr t fp L env e' = Some v"
  unfolding run_le_def ll_le_def run_Some by blast

lemma fold_ok_le: "fold_ok t fp L env e e' \<Longrightarrow> run_le t fp L env e e'"
  using Generate_total [of t e' fp] unfolding fold_ok_def run_le_def ll_le_def run_Some by (metis option.inject)

lemma run_le_conv: "run_le t fp L env x x' \<Longrightarrow> etype x' = etype x \<Longrightarrow> run_le t fp L env (OExprTypeConv ty x) (OExprTypeConv ty x')"
  unfolding run_le_def using gen_conv_mono by (fastforce simp: bind_eq_Some_conv)

lemma run_le_bin: "run_le t fp L env x x' \<Longrightarrow> run_le t fp L env y y' \<Longrightarrow>
    run_le t fp L env (OBinExpr op ty x y) (OBinExpr op ty x' y')"
  unfolding run_le_def using gen_binop_mono by fastforce

lemma run_le_cmp: "run_le t fp L env x x' \<Longrightarrow> run_le t fp L env y y' \<Longrightarrow> etype x' = etype x \<Longrightarrow>
    run_le t fp L env (OCompareExpr op x y) (OCompareExpr op x' y')"
  unfolding run_le_def using gen_compare_mono by fastforce

lemma run_le_logical: "run_le t fp L env x x' \<Longrightarrow> run_le t fp L env y y' \<Longrightarrow>
    run_le t fp L env (OLogicalExpr op x y) (OLogicalExpr op x' y')"
  unfolding run_le_def by (cases op) (fastforce intro: ll_mono)+

lemma run_le_un:
  assumes "run_le t fp L env x x'" "etype x' = etype x"
  shows "run_le t fp L env (ONotExpr x) (ONotExpr x')" "run_le t fp L env (OBinNotExpr ty x) (OBinNotExpr ty x')"
    "run_le t fp L env (ONegExpr ty x) (ONegExpr ty x')"
  using assms unfolding run_le_def by (fastforce intro: ll_mono split: sty.splits)+

lemma run_le_round:
  assumes "wt t (OFloatRoundExpr m ty x)" "etype x' = etype x" "wt t x'"
  shows "run_le t fp L env (OFloatRoundExpr m ty x) (OFloatRoundExpr m ty x')"
proof -
  obtain a where "Generate t fp x' = Some a" using Generate_total [OF assms(3)] by blast
  moreover have "ll_eval L env (gen_round m fb ib z b) = None" if "Generate t fp x = Some b" for fb ib z b
    using Generate_float [of t x fp b] assms(1) that by (intro ll_eval_round) simp
  ultimately show ?thesis unfolding run_le_def ll_le_def by auto
qed

lemma run_le_iif:
  assumes "run_le t fp L env c c'" "run_le t fp L env x x'" "run_le t fp L env y y'" "etype c' = etype c"
  shows "run_le t fp L env (OIifExpr ty c x y) (OIifExpr ty c' x' y')"
  unfolding run_le_def
proof (intro allI impI)
  fix g
  assume "Generate t fp (OIifExpr ty c x y) = Some g"
  then obtain a b d where g: "etype c = TBool" "Generate t fp c = Some a" "Generate t fp x = Some b" "Generate t fp y = Some d"
    "g = LBranch a b d"
    by (auto simp: bind_eq_Some_conv split: if_splits)
  with assms(1-3) obtain a' b' d' where "Generate t fp c' = Some a'" "Generate t fp x' = Some b'" "Generate t fp y' = Some d'"
    "ll_le L env a a'" "ll_le L env b b'" "ll_le L env d d'"
    unfolding run_le_def by blast
  with g assms(4) show "\<exists>g'. Generate t fp (OIifExpr ty c' x' y') = Some g' \<and> ll_le L env g g'"
    by (simp add: ll_le_branch)
qed

text \<open>The constant branch of an \<open>iif\<close>.\<close>

lemma run_iif_const:
  assumes L: "llvm_langref L" and c: "run_le t fp L env c (OBoolLit b)"
    and r: "run_expr t fp L env (OIifExpr ty c x y) = Some v"
  shows "run_expr t fp L env (if b then x else y) = Some v"
proof -
  from r obtain a gx gy where g: "Generate t fp c = Some a" "Generate t fp x = Some gx" "Generate t fp y = Some gy"
    "ll_eval L env (LBranch a gx gy) = Some v"
    by (auto simp: run_Some bind_eq_Some_conv split: if_splits)
  from c g(1) have "ll_le L env a (bool_const b)" by (simp add: run_le_def)
  with g(4) have "ll_eval L env a = Some (1, of_bool b)"
    by (cases "ll_eval L env a") (auto simp: ll_le_def eval_bool_const [OF L])
  with g show ?thesis by (cases b) (auto simp: run_Some)
qed

lemma fold_ok_via:
  assumes "llvm_langref L" "native_bits t \<le> 64" "wt t n" "kids_folded t fp n" "node_safe t n" "FoldScalarExpr t fp n = Some e'"
    and "etype n = etype e" "run_le t fp L env e n"
  shows "fold_ok t fp L env e e'"
  using fold_node [OF assms(1-6), of env] assms(7) run_le_run [OF assms(8)] by (simp add: fold_ok_def)

lemma FoldTree_ok:
  assumes L: "llvm_langref L" and nb: "native_bits t \<le> 64"
  shows "wt t e \<Longrightarrow> fold_safe t e \<Longrightarrow> FoldTree t fp e = Some e' \<Longrightarrow> fold_ok t fp L env e e'"
proof (induction e arbitrary: e')
  case (OLValueVar n ty c)
  moreover have "folded t fp (OLValueVar n ty c)"
    by (cases c) (simp_all add: folded_def leaf_def nonconst_nc calc_int.simps [of t fp _ "OLValueVar n ty _"]
        calc_bool.simps [of t fp "OLValueVar n ty _"] calc_float.simps [of t fp "OLValueVar n ty _"])
  ultimately show ?case by (auto simp: fold_ok_def)
next
  case (OExprTypeConv ty x)
  then obtain x' where x: "FoldTree t fp x = Some x'" "FoldScalarExpr t fp (OExprTypeConv ty x') = Some e'"
    by (auto simp: bind_eq_Some_conv)
  with OExprTypeConv have ok: "fold_ok t fp L env x x'" by simp
  then have w: "wt t (OExprTypeConv ty x')" using OExprTypeConv.prems(1) by (auto simp: fold_ok_def)
  show ?case
    by (rule fold_ok_via [OF L nb w _ _ x(2)]) (use ok fold_ok_le [OF ok] OExprTypeConv.prems(1) w in \<open>simp_all add: run_le_conv node_safe_def fold_ok_def\<close>)
next
  case (OBinExpr op ty x y)
  then obtain x' y' where x: "FoldTree t fp x = Some x'" "FoldTree t fp y = Some y'" "FoldScalarExpr t fp (OBinExpr op ty x' y') = Some e'"
    by (auto simp: bind_eq_Some_conv)
  with OBinExpr have ok: "fold_ok t fp L env x x'" "fold_ok t fp L env y y'" by simp_all
  then have w: "wt t (OBinExpr op ty x' y')" using OBinExpr.prems(1) by (auto simp: fold_ok_def)
  show ?case
    by (rule fold_ok_via [OF L nb w _ _ x(3)])
      (use ok fold_ok_le [OF ok(1)] fold_ok_le [OF ok(2)] OBinExpr.prems(2) in \<open>simp_all add: run_le_bin node_safe_def fold_ok_def\<close>)
next
  case (OCompareExpr op x y)
  then obtain x' y' where x: "FoldTree t fp x = Some x'" "FoldTree t fp y = Some y'" "FoldScalarExpr t fp (OCompareExpr op x' y') = Some e'"
    by (auto simp: bind_eq_Some_conv)
  with OCompareExpr have ok: "fold_ok t fp L env x x'" "fold_ok t fp L env y y'" by simp_all
  then have w: "wt t (OCompareExpr op x' y')" using OCompareExpr.prems(1) by (auto simp: fold_ok_def)
  show ?case
    by (rule fold_ok_via [OF L nb w _ _ x(3)])
      (use ok fold_ok_le [OF ok(1)] fold_ok_le [OF ok(2)] OCompareExpr.prems(2) in \<open>simp_all add: run_le_cmp node_safe_def fold_ok_def\<close>)
next
  case (OLogicalExpr op x y)
  then obtain x' y' where x: "FoldTree t fp x = Some x'" "FoldTree t fp y = Some y'" "FoldScalarExpr t fp (OLogicalExpr op x' y') = Some e'"
    by (auto simp: bind_eq_Some_conv)
  with OLogicalExpr have ok: "fold_ok t fp L env x x'" "fold_ok t fp L env y y'" by simp_all
  then have w: "wt t (OLogicalExpr op x' y')" using OLogicalExpr.prems(1) by (auto simp: fold_ok_def)
  show ?case
    by (rule fold_ok_via [OF L nb w _ _ x(3)])
      (use ok fold_ok_le [OF ok(1)] fold_ok_le [OF ok(2)] OLogicalExpr.prems(2) in \<open>simp_all add: run_le_logical node_safe_def fold_ok_def\<close>)
next
  case (ONotExpr x)
  then obtain x' where x: "FoldTree t fp x = Some x'" "FoldScalarExpr t fp (ONotExpr x') = Some e'"
    by (auto simp: bind_eq_Some_conv)
  with ONotExpr have ok: "fold_ok t fp L env x x'" by simp
  then have w: "wt t (ONotExpr x')" using ONotExpr.prems(1) by (auto simp: fold_ok_def)
  show ?case
    by (rule fold_ok_via [OF L nb w _ _ x(2)]) (use ok fold_ok_le [OF ok] ONotExpr.prems(1) w in \<open>simp_all add: run_le_un node_safe_def fold_ok_def\<close>)
next
  case (OBinNotExpr ty x)
  then obtain x' where x: "FoldTree t fp x = Some x'" "FoldScalarExpr t fp (OBinNotExpr ty x') = Some e'"
    by (auto simp: bind_eq_Some_conv)
  with OBinNotExpr have ok: "fold_ok t fp L env x x'" by simp
  then have w: "wt t (OBinNotExpr ty x')" using OBinNotExpr.prems(1) by (auto simp: fold_ok_def)
  show ?case
    by (rule fold_ok_via [OF L nb w _ _ x(2)]) (use ok fold_ok_le [OF ok] OBinNotExpr.prems(1) w in \<open>simp_all add: run_le_un node_safe_def fold_ok_def\<close>)
next
  case (ONegExpr ty x)
  then obtain x' where x: "FoldTree t fp x = Some x'" "FoldScalarExpr t fp (ONegExpr ty x') = Some e'"
    by (auto simp: bind_eq_Some_conv)
  with ONegExpr have ok: "fold_ok t fp L env x x'" by simp
  then have w: "wt t (ONegExpr ty x')" using ONegExpr.prems(1) by (auto simp: fold_ok_def)
  show ?case
    by (rule fold_ok_via [OF L nb w _ _ x(2)]) (use ok fold_ok_le [OF ok] ONegExpr.prems(1) w in \<open>simp_all add: run_le_un node_safe_def fold_ok_def\<close>)
next
  case (OFloatRoundExpr m ty x)
  then obtain x' where x: "FoldTree t fp x = Some x'" "FoldScalarExpr t fp (OFloatRoundExpr m ty x') = Some e'"
    by (auto simp: bind_eq_Some_conv)
  with OFloatRoundExpr have ok: "fold_ok t fp L env x x'" by simp
  then have w: "wt t (OFloatRoundExpr m ty x')" using OFloatRoundExpr.prems(1) by (auto simp: fold_ok_def)
  show ?case
    by (rule fold_ok_via [OF L nb w _ _ x(2)]) (use ok fold_ok_le [OF ok] OFloatRoundExpr.prems(1) w in \<open>simp_all add: run_le_round node_safe_def fold_ok_def\<close>)
next
  case (OIifExpr ty c x y)
  from OIifExpr.prems(3) obtain c' where c: "FoldTree t fp c = Some c'" by (auto simp: bind_eq_Some_conv)
  have okc: "fold_ok t fp L env c c'" using OIifExpr.IH(1) [OF _ _ c] OIifExpr.prems(1,2) by simp
  show ?case
  proof (cases "\<exists>b. c' = OBoolLit b")
    case True
    then obtain b where b: "c' = OBoolLit b" ..
    with c OIifExpr.prems(3) have f: "FoldTree t fp (if b then x else y) = Some e'" by (cases b) simp_all
    have ok: "fold_ok t fp L env (if b then x else y) e'"
      using OIifExpr.IH(2) [of e'] OIifExpr.IH(3) [of e'] OIifExpr.prems(1,2) f by (cases b) simp_all
    have "run_expr t fp L env e' = Some v" if "run_expr t fp L env (OIifExpr ty c x y) = Some v" for v
      using run_iif_const [OF L fold_ok_le [OF okc [unfolded b]] that] ok by (simp add: fold_ok_def)
    with ok OIifExpr.prems(1) show ?thesis by (simp add: fold_ok_def split: if_splits)
  next
    case False
    with c OIifExpr.prems(3) obtain x' y' where xy: "FoldTree t fp x = Some x'" "FoldTree t fp y = Some y'" "e' = OIifExpr ty c' x' y'"
      by (cases c') (auto simp: bind_eq_Some_conv)
    have okx: "fold_ok t fp L env x x'" and oky: "fold_ok t fp L env y y'"
      using OIifExpr.IH(2) [OF _ _ xy(1)] OIifExpr.IH(3) [OF _ _ xy(2)] OIifExpr.prems(1,2) by simp_all
    have "run_le t fp L env (OIifExpr ty c x y) e'"
      unfolding xy(3) using run_le_iif [OF fold_ok_le [OF okc] fold_ok_le [OF okx] fold_ok_le [OF oky]] okc by (simp add: fold_ok_def)
    with xy okc okx oky OIifExpr.prems(1) run_le_run show ?thesis
      by (fastforce simp: fold_ok_def folded_def nonconst_iif)
  qed
qed (auto simp: fold_ok_def folded_def leaf_def)

end
