(* ===== verification/Expr_Type.thy ===== *)
theory Expr_Type
  imports Expr_Sound
begin

text \<open>The value of a well-typed expression is a pattern of its type.\<close>

lemma and_range: "0 \<le> p \<Longrightarrow> p < 2 ^ b \<Longrightarrow> 0 \<le> p AND q \<and> p AND q < 2 ^ b" for p q :: int
  using AND_upper1 [of p q] by (simp add: order.strict_trans1)

lemma ref_intop_range:
  assumes "ref_intop op b sg p q = Some r" "0 \<le> p" "p < 2 ^ b" "0 \<le> q" "q < 2 ^ b"
  shows "0 \<le> r \<and> r < 2 ^ b"
proof -
  have m: "0 \<le> p mod q \<and> p mod q < 2 ^ b" if "q \<noteq> 0"
  proof -
    have "0 < q" using that assms(4) by simp
    then have "0 \<le> p mod q" "p mod q < q" by simp_all
    then show ?thesis using assms(5) by linarith
  qed
  have d: "0 \<le> p div q \<and> p div q < 2 ^ b" 
    using assms div_le [of p q] by (simp add: div_int_pos_iff order.strict_trans1)
  have s: "0 \<le> drop_bit n p \<and> drop_bit n p < 2 ^ b" for n
    using assms div_le [of p "2 ^ n"] by (simp add: drop_bit_eq_div div_int_pos_iff order.strict_trans1)
  have a: "0 \<le> p AND q \<and> p AND q < 2 ^ b" using and_range assms by simp
  have o: "0 \<le> p OR q \<and> p OR q < 2 ^ b" using assms OR_upper [of p b q] by simp
  have x: "0 \<le> p XOR q \<and> p XOR q < 2 ^ b" using assms XOR_upper [of p b q] by simp
  show ?thesis
    using assms(1) m d s a o x
    by (cases op) (auto simp: ref_intop_def ref_bin_def bind_eq_Some_conv split: if_splits)
qed

definition in_type :: "sty \<Rightarrow> nat \<times> int \<Rightarrow> bool" where
  "in_type ty v \<longleftrightarrow> (case v of (w, p) \<Rightarrow> GetLlType ty = LInt w \<and> 0 < w \<and> 0 \<le> p \<and> p < 2 ^ w)"

lemma in_type_integral: "integral ty \<Longrightarrow> in_type ty (w, p) \<longleftrightarrow> w = ty_bits ty \<and> 0 < w \<and> 0 \<le> p \<and> p < 2 ^ w"
  by (cases ty) (auto simp: in_type_def GetLlType_def)

lemma in_type_bool: "in_type TBool (w, p) \<longleftrightarrow> w = 1 \<and> 0 \<le> p \<and> p < 2"
  by (auto simp: in_type_def GetLlType_def)

lemma cast_range:
  assumes "0 \<le> p" "p < 2 ^ b1" "0 < b1"
  shows "0 \<le> ref_cast c b1 b2 p" "b1 \<le> b2 \<or> c = LTrunc \<or> c = LSExt \<Longrightarrow> ref_cast c b1 b2 p < 2 ^ b2"
proof -
  show "0 \<le> ref_cast c b1 b2 p" using assms by (simp add: ref_cast_def split: lcast.splits)
  show "ref_cast c b1 b2 p < 2 ^ b2" if "b1 \<le> b2 \<or> c = LTrunc \<or> c = LSExt"
  proof (cases "c = LTrunc \<or> c = LSExt")
    case True
    then show ?thesis by (auto simp: ref_cast_def)
  next
    case False
    with that have "p < 2 ^ b2" using assms order.strict_trans2 [of p "2 ^ b1" "2 ^ b2"] by simp
    with False show ?thesis by (cases c) (auto simp: ref_cast_def)
  qed
qed

lemma gen_conv_type:
  assumes L: "llvm_langref L" and s: "sty_ok ty" "sty_ok src" and i: "integral ty" "\<not> is_float src"
    and g: "gen_conv ty src x = Some g" and x: "ll_eval L env x = Some v" "in_type src v" and e: "ll_eval L env g = Some r"
  shows "in_type ty r"
proof -
  obtain b1 p where v: "v = (b1, p)" by (cases v)
  have b2: "0 < ty_bits ty" "1 < ty_bits ty" using s i by (cases ty; auto simp: sty_ok_def)+
  have p: "0 < b1" "0 \<le> p" "p < 2 ^ b1" "GetLlType src = LInt b1" using x(2) v by (auto simp: in_type_def)
  show ?thesis
  proof (cases "src = TBool")
    case True
    with p have b1: "b1 = 1" by (simp add: GetLlType_def)
    have "g = LCast LZExt (LInt (ty_bits ty)) x" using g True i b2 by (cases ty) (auto simp: gen_conv_def)
    moreover have "s_cast L LZExt b1 (ty_bits ty) p = p"
      using langref_cast [OF L p(1-3), of LZExt "ty_bits ty"] b2 b1 by (simp add: ref_cast_def)
    ultimately have "r = (ty_bits ty, p)" using e x(1) v by auto
    moreover have "p < 2 ^ ty_bits ty" using p(3) b1 b2(1) by (simp add: order.strict_trans2 [of p 2] self_le_power)
    ultimately show ?thesis using i b2 p by (simp add: in_type_integral)
  next
    case False
    with p i(2) have b1: "b1 = ty_bits src" by (cases src) (auto simp: GetLlType_def)
    let ?c = "if ty_bits ty > b1 then (if ty_signed src then LSExt else LZExt) else LTrunc"
    have "g = LCast ?c (LInt (ty_bits ty)) x"
      using g False i b1 by (cases ty; cases src) (auto simp: gen_conv_def)
    moreover have "s_cast L ?c b1 (ty_bits ty) p = ref_cast ?c b1 (ty_bits ty) p"
      by (rule langref_cast [OF L p(1-3)]) (use b2 in auto)
    ultimately have "r = (ty_bits ty, ref_cast ?c b1 (ty_bits ty) p)" using e x(1) v by (auto split: if_splits)
    then show ?thesis using i b2 cast_range(1) [OF p(2,3,1), of ?c "ty_bits ty"] cast_range(2) [OF p(2,3,1), of "ty_bits ty" ?c] by (auto simp: in_type_integral)
  qed
qed

lemma gen_compare_type:
  assumes L: "llvm_langref L" and g: "gen_compare op ty a b = Some g" and e: "ll_eval L env g = Some r"
  shows "in_type TBool r"
  using g e by (cases ty) (auto simp: gen_compare_def in_type_bool split: if_splits)

lemma bool_ops:
  assumes "a = (0 :: int) \<or> a = 1" "b = 0 \<or> b = 1"
  shows "a XOR b = 0 \<or> a XOR b = 1"
  using assms by auto

lemma in_type_TBool: "in_type TBool v \<longleftrightarrow> v = (1, 0) \<or> v = (1, 1)"
  by (cases v) (auto simp: in_type_bool)

lemma xor_type:
  assumes L: "llvm_langref L" and v: "in_type TBool v" "in_type TBool u"
    and e: "ll_eval L env a = Some v" "ll_eval L env b = Some u" "ll_eval L env (LBin LXor a b) = Some r"
  shows "in_type TBool r"
proof -
  obtain p q where pq: "v = (1, p)" "u = (1, q)" "p = 0 \<or> p = 1" "q = 0 \<or> q = 1" using v by (auto simp: in_type_TBool)
  have "s_bin L LXor 1 p q = Some (p XOR q)" using langref_bin [OF L, of 1 p q LXor] pq by (auto simp: ref_bin_def)
  then show ?thesis using e pq bool_ops [OF pq(3,4)] by (auto simp: in_type_TBool)
qed

lemma gen_intop_type:
  assumes L: "llvm_langref L" and g: "gen_intop op b sg gx gy = Some g"
    and x: "\<And>v. ll_eval L env gx = Some v \<Longrightarrow> in_type (TInt b sg) v"
    and y: "\<And>v. ll_eval L env gy = Some v \<Longrightarrow> in_type (TInt b sg) v"
    and e: "ll_eval L env g = Some r"
  shows "in_type (TInt b sg) r"
proof -
  have "ll_eval L env gx \<noteq> None \<and> ll_eval L env gy \<noteq> None"
    using g e
    by (cases op) (auto simp: gen_intop_def GenerateRemainder_def GenerateModulo_def Let_def bind_eq_Some_conv split: if_splits)
  then obtain v u where vu: "ll_eval L env gx = Some v" "ll_eval L env gy = Some u" by auto
  from x [OF vu(1)] y [OF vu(2)]
  obtain p q where pq: "v = (b, p)" "0 \<le> p" "p < 2 ^ b" "u = (b, q)" "0 \<le> q" "q < 2 ^ b" "0 < b"
    by (cases v; cases u) (auto simp: in_type_integral)
  from gen_intop_eval [OF L pq(7) vu(1) [unfolded pq(1)] pq(2,3) vu(2) [unfolded pq(4)] pq(5,6) g] e
  obtain m where m: "ref_intop op b sg p q = Some m" "r = (b, m)" by (cases "ref_intop op b sg p q") auto
  with ref_intop_range [OF m(1) pq(2,3,5,6)] pq(7) show ?thesis by (simp add: in_type_integral)
qed

lemma branch_type:
  assumes "ll_eval L env (LBranch a b c) = Some r"
    and "\<And>v. ll_eval L env b = Some v \<Longrightarrow> in_type ty v" "\<And>v. ll_eval L env c = Some v \<Longrightarrow> in_type ty v"
  shows "in_type ty r"
proof -
  from assms(1) have "ll_eval L env b = Some r \<or> ll_eval L env c = Some r" by (auto simp: bind_eq_Some_conv split: if_splits)
  with assms(2,3) show ?thesis by blast
qed

lemma Generate_in_type:
  assumes L: "llvm_langref L"
  shows "wt t e \<Longrightarrow> Generate t fp e = Some g \<Longrightarrow> ll_eval L env g = Some r \<Longrightarrow> in_type (etype e) r"
proof (induction e arbitrary: g r)
  case (OIntLit v ty)
  then show ?case using sty_ok_bits [of ty] by (auto simp: eval_int_const [OF L] in_type_integral pat_range)
next
  case (OBoolLit b)
  then show ?case by (cases b) (auto simp: eval_bool_const [OF L] in_type_TBool)
next
  case (OLValueVar n ty c)
  show ?case
  proof (cases c)
    case None
    with OLValueVar sty_ok_bits [of ty] show ?thesis
      by (cases ty) (auto simp: gen_var_def GetLlType_def in_type_def)
  next
    case (Some k)
    with OLValueVar sty_ok_bits [of ty] show ?thesis
      by (cases k) (auto simp: gen_var_def const_ok_def eval_int_const [OF L] eval_bool_const [OF L] in_type_integral pat_range in_type_TBool)
  qed
next
  case (OExprTypeConv ty x)
  then obtain gx where gx: "Generate t fp x = Some gx" "gen_conv ty (etype x) gx = Some g" by (auto simp: bind_eq_Some_conv)
  show ?case
  proof (cases "is_float ty")
    case True
    then show ?thesis using Generate_float [OF OExprTypeConv.prems(1) _ OExprTypeConv.prems(2)] OExprTypeConv.prems(3) by simp
  next
    case False
    with OExprTypeConv.prems(1) have i: "integral ty" by (cases ty) auto
    show ?thesis
    proof (cases "ll_eval L env gx")
      case None
      have "ll_le L env gx g'" for g' using None by (simp add: ll_le_def)
      with gx(2) None OExprTypeConv.prems(3) i show ?thesis
        by (cases ty; cases "etype x") (auto simp: gen_conv_def split: if_splits)
    next
      case (Some v)
      have nf: "\<not> is_float (etype x)" using Generate_float [of t x fp gx] OExprTypeConv.prems(1) gx(1) Some by auto
      show ?thesis
        using gen_conv_type [OF L _ _ i nf gx(2) Some _ OExprTypeConv.prems(3)] OExprTypeConv gx(1) Some wt_sty [of t x] by simp
    qed
  qed
next
  case (OBinExpr op ty x y)
  then obtain gx gy where g: "Generate t fp x = Some gx" "Generate t fp y = Some gy" "gen_binop op ty gx gy = Some g" by auto
  from OBinExpr.prems have w: "wt t x" "wt t y" "etype x = ty" "etype y = ty" by simp_all
  show ?case
  proof (cases "is_float ty")
    case True
    then show ?thesis using Generate_float [OF OBinExpr.prems(1) _ OBinExpr.prems(2)] OBinExpr.prems(3) by simp
  next
    case False
    with OBinExpr.prems(1) obtain b sg where ty: "ty = TInt b sg" by (cases ty) auto
    with g(3) have gi: "gen_intop op b sg gx gy = Some g" by (simp add: gen_binop_def)
    have "in_type (TInt b sg) r"
    proof (rule gen_intop_type [OF L gi _ _ OBinExpr.prems(3)])
      show "in_type (TInt b sg) v" if "ll_eval L env gx = Some v" for v
        using OBinExpr.IH(1) [OF w(1) g(1) that] w(3) ty by simp
      show "in_type (TInt b sg) v" if "ll_eval L env gy = Some v" for v
        using OBinExpr.IH(2) [OF w(2) g(2) that] w(4) ty by simp
    qed
    with ty show ?thesis by simp
  qed
next
  case (OCompareExpr op x y)
  then obtain a b where "gen_compare op (etype x) a b = Some g" by auto
  from gen_compare_type [OF L this OCompareExpr.prems(3)] show ?case by simp
next
  case (OLogicalExpr op x y)
  then obtain gx gy where g: "Generate t fp x = Some gx" "Generate t fp y = Some gy" by auto
  have t: "in_type TBool v" if "ll_eval L env gx = Some v" for v using OLogicalExpr.IH(1) OLogicalExpr.prems(1) g(1) that by simp
  have u: "in_type TBool v" if "ll_eval L env gy = Some v" for v using OLogicalExpr.IH(2) OLogicalExpr.prems(1) g(2) that by simp
  have c: "in_type TBool v" if "ll_eval L env (bool_const k) = Some v" for v k
    using that by (cases k) (auto simp: eval_bool_const [OF L] in_type_TBool)
  show ?case
  proof (cases op)
    case LOGIOP_XOR
    with OLogicalExpr.prems g have ge: "g = LBin LXor gx gy" by simp
    with OLogicalExpr.prems(3) obtain v w where vw: "ll_eval L env gx = Some v" "ll_eval L env gy = Some w" by auto
    from OLogicalExpr.prems(3) ge have "ll_eval L env (LBin LXor gx gy) = Some r" by simp
    from xor_type [OF L t [OF vw(1)] u [OF vw(2)] vw this] show ?thesis by simp
  next
    case LOGIOP_OR
    with OLogicalExpr.prems g have "ll_eval L env (LBranch gx (bool_const True) gy) = Some r" by simp
    from branch_type [OF this c u] show ?thesis by simp
  next
    case LOGIOP_AND
    with OLogicalExpr.prems g have "ll_eval L env (LBranch gx gy (bool_const False)) = Some r" by simp
    from branch_type [OF this u c] show ?thesis by simp
  qed
next
  case (ONotExpr x)
  then obtain gx where g: "Generate t fp x = Some gx" "g = LBin LXor gx (LConst 1 1)" by auto
  with ONotExpr.prems(3) obtain v where v: "ll_eval L env gx = Some v" by auto
  have "ll_eval L env (LConst 1 1) = Some (1, 1)" by (simp add: langref_const [OF L])
  moreover have "in_type TBool v" using ONotExpr.IH [OF _ g(1) v] ONotExpr.prems(1) by simp
  ultimately show ?case using xor_type [OF L _ _ v _ ONotExpr.prems(3) [unfolded g(2)], of "(1, 1)"] by (simp add: in_type_TBool)
next
  case (OBinNotExpr ty x)
  then obtain gx where g: "Generate t fp x = Some gx" "g = LNot gx" by auto
  with OBinNotExpr.prems(3) obtain v where v: "ll_eval L env gx = Some v" by (auto simp: bind_eq_Some_conv)
  from OBinNotExpr.prems(1) obtain b sg where ty: "ty = TInt b sg" "etype x = ty" "wt t x" by (cases ty) auto
  obtain p where p: "v = (b, p)" "0 < b" "0 \<le> p" "p < 2 ^ b"
    using OBinNotExpr.IH [OF ty(3) g(1) v] ty by (cases v) (auto simp: in_type_integral)
  note m = take_bit_int_less_exp [of b "- 1"] take_bit_nonnegative [of b "- 1"]
  have "r = (b, p XOR take_bit b (- 1))"
    using OBinNotExpr.prems(3) g(2) v p langref_bin [OF L p(2-4) m(2,1), of LXor]
    by (auto simp: ref_bin_def langref_const [OF L p(2)])
  then show ?case using ty p m XOR_upper [of p b "take_bit b (- 1)"] by (simp add: in_type_integral)
next
  case (ONegExpr ty x)
  then obtain gx where g: "Generate t fp x = Some gx" by auto
  show ?case
  proof (cases "etype x")
    case (TInt b sg)
    with ONegExpr.prems g have ge: "g = LNeg gx" "ty = TInt b True" by auto
    with ONegExpr.prems(3) obtain v where v: "ll_eval L env gx = Some v" by (auto simp: bind_eq_Some_conv)
    obtain p where p: "v = (b, p)" "0 < b" "0 \<le> p" "p < 2 ^ b"
      using ONegExpr.IH [OF _ g v] ONegExpr.prems(1) TInt by (cases v) (auto simp: in_type_integral)
    have "r = (b, take_bit b (0 - p))"
      using ONegExpr.prems(3) ge v p langref_bin [OF L p(2) _ _ p(3,4), of 0 LSub] by (auto simp: ref_bin_def)
    then show ?thesis using ge p by (simp add: in_type_integral)
  qed (use ONegExpr.prems g in auto)
next
  case (OIifExpr ty c x y)
  then obtain a gx gy where g: "Generate t fp x = Some gx" "Generate t fp y = Some gy" "g = LBranch a gx gy"
    by (auto simp: bind_eq_Some_conv split: if_splits)
  have "in_type ty v" if "ll_eval L env gx = Some v" for v using OIifExpr.IH(2) [OF _ g(1) that] OIifExpr.prems(1) by simp
  moreover have "in_type ty v" if "ll_eval L env gy = Some v" for v using OIifExpr.IH(3) [OF _ g(2) that] OIifExpr.prems(1) by simp
  ultimately show ?case using branch_type [OF OIifExpr.prems(3) [unfolded g(3)]] by simp
next
  case (OFloatRoundExpr m ty x)
  then obtain gx where gx: "Generate t fp x = Some gx" "g = gen_round m (ty_bits (etype x)) (native_bits t) (fp_of_int fp 0) gx" by auto
  have "ll_eval L env gx = None" using Generate_float [of t x fp gx] OFloatRoundExpr.prems(1) gx(1) by simp
  from ll_eval_round [OF this] OFloatRoundExpr.prems(3) gx(2) show ?case by simp
qed auto

end
