(* ===== verification/Expr_Props.thy ===== *)
theory Expr_Props
  imports Expr_Type
begin

text \<open>
  The properties of scalar expressions: folding against generated code, the types of the
  operations, \<open>mod\<close>, and where the compiler's constants differ from its code.
\<close>

text \<open>The documented instructions as a semantics, for concrete runs.\<close>

definition ref_llsem :: llsem where
  "ref_llsem = \<lparr>s_const = take_bit, s_bin = ref_bin, s_icmp = ref_icmp, s_cast = ref_cast\<rparr>"

lemma ref_llsem_ok: "llvm_langref ref_llsem"
  by (simp add: llvm_langref_def ref_llsem_def)

definition unit_fpu :: "unit fpu" where
  "unit_fpu = \<lparr>fp_of_int = \<lambda>_. (), fp_to_int64 = \<lambda>_. None, fp_to_uint64 = \<lambda>_. None, fp_neg = id,
     fp_bin = \<lambda>_ _ _. (), fp_cmp = \<lambda>_ _ _. True, fp_round = \<lambda>_ _. ()\<rparr>"

definition target64 :: target where
  "target64 = \<lparr>native_bits = 64, float_bits = 64\<rparr>"

text \<open>\<open>x + (7 - 2) * 3\<close>, \<open>x\<close> a variable of type \<open>int32\<close>.\<close>

definition sample_expr :: "unit expr" where
  "sample_expr =
     (let i = TInt 32 True in
      OBinExpr BINOP_ADD i (OLValueVar ''x'' i None)
        (OBinExpr BINOP_MUL i (OBinExpr BINOP_SUB i (OIntLit 7 i) (OIntLit 2 i)) (OIntLit 3 i)))"


definition sample_folded :: "unit expr" where
  "sample_folded = OBinExpr BINOP_ADD (TInt 32 True) (OLValueVar ''x'' (TInt 32 True) None) (OIntLit 15 (TInt 32 True))"

lemma sample_runs:
  "wt target64 sample_expr" "fold_safe target64 sample_expr" "FoldTree target64 unit_fpu sample_expr = Some sample_folded"
  "run_expr target64 unit_fpu ref_llsem (\<lambda>_. 4) sample_expr = Some (32, 19)"
  by code_simp+


text \<open>C19: A well-typed scalar expression always has code, without the exceptions of \<open>Generate\<close>, and a value that this code computes has the width of the LLVM type of the expression and is a bit pattern of it.\<close>

theorem dq_expr_type_sound:
  assumes "llvm_langref L" and "wt t e"
  shows "\<exists>g. Generate t fp e = Some g \<and> (case ll_eval L env g of None \<Rightarrow> True | Some v \<Rightarrow> in_type (etype e) v)"
  using Generate_total [OF assms(2), of fp] Generate_in_type [OF assms] by (auto split: option.splits)

theorem dq_expr_type_sound_witness:
  "\<exists>g. Generate target64 unit_fpu sample_expr = Some g \<and>
     (case ll_eval ref_llsem (\<lambda>_. 4) g of None \<Rightarrow> True | Some v \<Rightarrow> in_type (etype sample_expr) v)"
  by (rule dq_expr_type_sound [OF ref_llsem_ok sample_runs(1)])

lemma ty32: "FindIntType (max bl br) sg = Some (TInt (max bl br) sg)" if "sty_ok (TInt bl sl)" "sty_ok (TInt br sr)"
  using that by (auto simp: FindIntType_def sty_ok_def max_def)

lemma wt_conv_to: "wt t e \<Longrightarrow> sty_ok ty \<Longrightarrow> integral ty \<Longrightarrow> wt t (conv_to ty e)" "etype (conv_to ty e) = ty"
  by (cases ty; simp add: conv_to_def)+

lemma sty_ok_max: "sty_ok (TInt bl sl) \<Longrightarrow> sty_ok (TInt br sr) \<Longrightarrow> sty_ok (TInt (max bl br) sg)"
  by (auto simp: sty_ok_def max_def)

definition int_result :: "target \<Rightarrow> binop \<Rightarrow> nat \<Rightarrow> bool \<Rightarrow> nat \<Rightarrow> bool \<Rightarrow> sty" where
  "int_result t op bl sl br sr =
     (if op = BINOP_DIV then type_float t
      else if op = BINOP_ISHL \<or> op = BINOP_ISHR then TInt bl sl
      else TInt (max bl br) (sl \<or> sr \<or> op = BINOP_SUB))"

text \<open>C20: Any operator on two integer operands of any widths and signs is accepted and gives a well-typed node; its type is the wider width, signed when an operand is or for a subtraction, the left type for a shift and the default float for \<open>/\<close>.\<close>

theorem dq_bin_expr_typed:
  assumes "wt t l" and "wt t r" and "etype l = TInt bl sl" and "etype r = TInt br sr" and "sty_ok (type_float t)"
  shows "\<exists>e. CreateBinExpr t op l r = Inr e \<and> wt t e \<and> etype e = int_result t op bl sl br sr"
proof -
  have o: "sty_ok (TInt bl sl)" "sty_ok (TInt br sr)" using wt_sty [OF assms(1)] wt_sty [OF assms(2)] assms(3,4) by simp_all
  note h = ty32 [OF o] sty_ok_max [OF o] wt_conv_to(1) [OF assms(1)] wt_conv_to(1) [OF assms(2)]
  note d = CreateBinExpr_def new_BinExpr_def HarmonizeNumericOperands_def IsCharacterType_def is_bitop_def int_result_def Let_def tkind_of_def
  show ?thesis
  proof (cases "op = BINOP_DIV \<or> op = BINOP_ISHL \<or> op = BINOP_ISHR")
    case True
    with assms o show ?thesis by (auto simp: d type_float_def fop_def sty_ok_def [of "TFloat _"])
  next
    case False
    with assms h show ?thesis by (cases op) (simp_all add: d wt_conv_to(2))
  qed
qed

theorem dq_bin_expr_typed_witness:
  "\<exists>e. CreateBinExpr target64 BINOP_SUB (OIntLit 7 (TInt 8 False) :: unit expr) (OIntLit 2 (TInt 32 False)) = Inr e \<and>
     wt target64 e \<and> etype e = TInt 32 True"
proof -
  have "\<exists>e. CreateBinExpr target64 BINOP_SUB (OIntLit 7 (TInt 8 False) :: unit expr) (OIntLit 2 (TInt 32 False)) = Inr e \<and>
     wt target64 e \<and> etype e = int_result target64 BINOP_SUB 8 False 32 False"
    by (rule dq_bin_expr_typed) (simp_all add: sty_ok_def target64_def type_float_def ConvertConstant_def NormalizeConstant_def)
  then show ?thesis by (simp add: int_result_def)
qed

text \<open>The remainder made nonnegative.\<close>

lemma smod_abs: "d \<noteq> 0 \<Longrightarrow> (if a smod d < 0 then a smod d + \<bar>d\<bar> else a smod d) = a mod \<bar>d\<bar>" for a d :: int
proof (cases "a < 0")
  case True
  assume d: "d \<noteq> 0"
  have "a mod \<bar>d\<bar> = (if (- a) mod \<bar>d\<bar> = 0 then 0 else \<bar>d\<bar> - (- a) mod \<bar>d\<bar>)"
    using zmod_zminus1_eq_if [of "- a" "\<bar>d\<bar>"] by simp
  moreover have "a smod d = - ((- a) mod \<bar>d\<bar>)" using True by (simp add: smod_int_alt_def sgn_if)
  moreover have "0 \<le> (- a) mod \<bar>d\<bar>" using d by simp
  ultimately show ?thesis by (simp add: less_le)
next
  case False
  assume d: "d \<noteq> 0"
  from False have "a smod d = a mod \<bar>d\<bar>" by (auto simp: smod_int_alt_def sgn_if)
  moreover have "0 \<le> a mod \<bar>d\<bar>" using d by simp
  ultimately show ?thesis by simp
qed

text \<open>C21: The code generated for \<open>mod\<close> computes the nonnegative modulo by the magnitude of the divisor, for all signed operands of a width on which division is defined.\<close>

theorem dq_mod_nonnegative:
  assumes "llvm_langref L" and "0 < b" and "ll_eval L env l = Some (b, p)" and "0 \<le> p" and "p < 2 ^ b"
    and "ll_eval L env r = Some (b, q)" and "0 \<le> q" and "q < 2 ^ b"
  shows "ll_eval L env (GenerateModulo b True l r) =
    (if div_undefined b p q then None else Some (b, sgnd b p mod \<bar>sgnd b q\<bar>))"
proof -
  have g: "gen_intop BINOP_IMOD b True l r = Some (GenerateModulo b True l r)" by (simp add: gen_intop_def)
  let ?a = "sgnd b p" and ?d = "sgnd b q"
  note ev = gen_intop_eval [OF assms(1-8) g]
  show ?thesis
  proof (cases "div_undefined b p q")
    case True
    then show ?thesis unfolding ev by (simp add: ref_intop_def ref_bin_def)
  next
    case False
    have q: "q = take_bit b ?d" using take_bit_sgnd [OF assms(2), of q] assms(7,8) by (simp add: take_bit_int_eq_self)
    have d: "?d \<noteq> 0" using False q by (auto simp: div_undefined_def)
    have small: "- (2 ^ (b - 1)) \<le> ?a smod ?d" "?a smod ?d < 2 ^ (b - 1)"
      using smod_bound [OF d, of ?a] sgnd_range [OF assms(2), of q] by linarith+
    have R: "sgnd b (take_bit b (?a smod ?d)) = ?a smod ?d" using sgnd_take_bit [OF assms(2) small] .
    have k: "take_bit b (?a mod \<bar>?d\<bar>) = ?a mod \<bar>?d\<bar>"
    proof (rule take_bit_int_eq_self)
      show "0 \<le> ?a mod \<bar>?d\<bar>" using d by simp
      have "?a mod \<bar>?d\<bar> < \<bar>?d\<bar>" using d by simp
      also have "\<bar>?d\<bar> \<le> 2 ^ (b - 1)" using sgnd_range [OF assms(2), of q] by linarith
      also have "\<dots> \<le> (2 :: int) ^ b" by simp
      finally show "?a mod \<bar>?d\<bar> < 2 ^ b" .
    qed
    have a: "take_bit b (take_bit b (?a smod ?d) + q) = take_bit b (?a smod ?d + ?d)"
      "take_bit b (take_bit b (?a smod ?d) - q) = take_bit b (?a smod ?d - ?d)"
      by (subst (2) q, simp add: take_bit_add, subst (2) q, simp add: take_bit_diff)
    show ?thesis unfolding ev
      using False R a k smod_abs [OF d, of ?a] by (auto simp: ref_intop_def ref_bin_def abs_if split: if_splits)
  qed
qed

theorem dq_mod_nonnegative_witness:
  "ll_eval ref_llsem (\<lambda>_. 0) (GenerateModulo 8 True (LConst 8 249) (LConst 8 253) :: unit ll) = Some (8, 2)"
proof -
  have "ll_eval ref_llsem (\<lambda>_. 0) (GenerateModulo 8 True (LConst 8 249) (LConst 8 253) :: unit ll)
     = (if div_undefined 8 249 253 then None else Some (8, sgnd 8 249 mod \<bar>sgnd 8 253\<bar>))"
    by (rule dq_mod_nonnegative [OF ref_llsem_ok]) (simp_all add: ref_llsem_def)
  also have "\<dots> = Some (8, 2)" by code_simp
  finally show ?thesis .
qed

text \<open>C25: Folding \<open>div\<close>, \<open>rem\<close> or \<open>mod\<close> of constants by the constant zero divides by zero in the compiler itself: no folded tree exists.\<close>

theorem dq_fold_div_zero_undefined:
  assumes "op \<in> {BINOP_IDIV, BINOP_IREM, BINOP_IMOD}"
    and "FoldTree t fp x = Some (OIntLit v tx)" and "FoldTree t fp y = Some (OIntLit 0 ty)"
  shows "FoldTree t fp (OBinExpr op (TInt b sg) x y) = None"
proof -
  have z: "ConvertConstant (TInt b sg) 0 = 0" by (auto simp: ConvertConstant_def NormalizeConstant_def Let_def)
  show ?thesis
    using assms
    by (auto simp: FoldScalarExpr_def calc_int.simps [of t fp _ "OBinExpr _ _ _ _"] calc_int.simps [of t fp _ "OIntLit _ _"] int_binop_def z)
qed

theorem dq_fold_div_zero_undefined_witness:
  "FoldTree target64 unit_fpu (OBinExpr BINOP_IDIV (TInt 32 True) (OIntLit 7 (TInt 32 True)) (OIntLit 0 (TInt 32 True))) = None"
  by (rule dq_fold_div_zero_undefined [where v = 7 and tx = "TInt 32 True" and ty = "TInt 32 True"]) simp_all

text \<open>C24: Arithmetic on two Boolean operands, and \<open>div\<close>, \<open>rem\<close> and \<open>mod\<close> on two floating-point operands of one type, pass the type check of \<open>CreateBinExpr\<close> and then have no code: \<open>Generate\<close> throws.\<close>

theorem dq_bool_arith_no_code:
  assumes "etype l = ty" and "etype r = ty"
    and "ty = TBool \<and> \<not> is_bitop op \<or> (\<exists>b. ty = TFloat b) \<and> op \<in> {BINOP_IDIV, BINOP_IREM, BINOP_IMOD}"
  shows "CreateBinExpr t op l r = Inr (OBinExpr op ty l r) \<and> Generate t fp (OBinExpr op ty l r) = None"
  using assms
  by (auto simp: CreateBinExpr_def HarmonizeNumericOperands_def IsCharacterType_def is_bitop_def new_BinExpr_def
      gen_binop_def bind2_def Let_def bind_eq_None_conv)

theorem dq_bool_arith_no_code_witness:
  "CreateBinExpr target64 BINOP_ADD (OBoolLit True) (OBoolLit True :: unit expr)
     = Inr (OBinExpr BINOP_ADD TBool (OBoolLit True) (OBoolLit True)) \<and>
   Generate target64 unit_fpu (OBinExpr BINOP_ADD TBool (OBoolLit True) (OBoolLit True)) = None"
  by (rule dq_bool_arith_no_code) (simp_all add: is_bitop_def)

text \<open>Unsigned 64-bit constants are computed as signed numbers.\<close>

abbreviation u64 :: sty where "u64 \<equiv> TInt 64 False"

lemma conv64 [simp]: "ConvertConstant (TInt 64 sg) v = v"
  by (simp add: ConvertConstant_def NormalizeConstant_def)

lemma uint_of_sint: "uint v = (if sint v < 0 then sint v + 2 ^ 64 else sint v)" for v :: int64
proof -
  have r: "- (2 ^ 63) \<le> sint v" "sint v < 2 ^ 63" using sint_greater_eq [of v] sint_less [of v] by simp_all
  have "uint v = sint v mod 2 ^ 64" by (simp add: uint_sint take_bit_eq_mod)
  also have "\<dots> = (if sint v < 0 then sint v + 2 ^ 64 else sint v)"
    using r mod_pos_pos_trivial [of "sint v + 2 ^ 64" "2 ^ 64"] by (auto simp: mod_pos_pos_trivial)
  finally show ?thesis .
qed

lemma sint_high: "2 ^ 63 \<le> uint v \<Longrightarrow> sint v = uint v - 2 ^ 64" for v :: int64
  using uint_of_sint [of v] sint_less [of v] by (simp split: if_splits)

lemma sint_low: "uint v < 2 ^ 63 \<Longrightarrow> sint v = uint v" for v :: int64
  using uint_of_sint [of v] sint_greater_eq [of v] by (simp split: if_splits)

lemma drop_bound:
  assumes "0 \<le> (x :: int)" "x < 2 ^ 64" "0 < n"
  shows "drop_bit n x < 2 ^ 63"
proof -
  have "drop_bit n x = drop_bit (n - 1) (drop_bit 1 x)" using assms(3) by simp
  also have "\<dots> \<le> drop_bit 1 x" using assms by (simp add: drop_bit_eq_div div_le)
  also have "\<dots> < 2 ^ 63" using assms by (simp add: drop_bit_eq_div)
  finally show ?thesis .
qed

text \<open>C22: A right shift of \<open>uint64\<close> constants with the top bit set folds to a different number than the generated shift computes.\<close>

theorem dq_shr_uint64_differs:
  assumes "llvm_langref L" and "2 ^ 63 \<le> uint v" and "0 < uint n" and "uint n < 64"
  shows "\<exists>w. FoldTree t fp (OBinExpr BINOP_ISHR u64 (OIntLit v u64) (OIntLit n u64)) = Some (OIntLit w u64) \<and>
    run_expr t fp L env (OBinExpr BINOP_ISHR u64 (OIntLit v u64) (OIntLit n u64)) = Some (64, drop_bit (nat (uint n)) (uint v)) \<and>
    uint w \<noteq> drop_bit (nat (uint n)) (uint v)"
proof -
  have pn: "0 < nat (uint n)" using assms(3) by (simp only: zero_less_nat_eq)
  have sn: "sint n = uint n" using assms(4) sint_low [of n] by simp
  let ?w = "word_of_int (drop_bit (nat (uint n)) (sint v)) :: int64"
  have f: "FoldTree t fp (OBinExpr BINOP_ISHR u64 (OIntLit v u64) (OIntLit n u64)) = Some (OIntLit ?w u64)"
    using assms(3,4) sn
    by (simp add: FoldScalarExpr_def calc_int.simps [of t fp _ "OBinExpr _ _ _ _"] calc_int.simps [of t fp _ "OIntLit _ _"] int_binop_def)
  have r: "run_expr t fp L env (OBinExpr BINOP_ISHR u64 (OIntLit v u64) (OIntLit n u64)) = Some (64, drop_bit (nat (uint n)) (uint v))"
    using assms(4) langref_bin [OF assms(1), of 64 "uint v" "uint n" LLShr] uint_lt2p [of v] uint_lt2p [of n]
    by (simp add: run_expr_def gen_binop_def gen_intop_def int_const_def langref_const [OF assms(1)] bind2_def ref_bin_def)
  have "sint v < 0" using sint_high [OF assms(2)] uint_lt2p [of v] by simp
  then have neg: "drop_bit (nat (uint n)) (sint v) < 0" by simp
  have "sint ?w = drop_bit (nat (uint n)) (sint v)"
  proof (rule sint_word_of_int)
    have "sint v \<le> drop_bit (nat (uint n)) (sint v)"
      using zdiv_mono2_neg [OF \<open>sint v < 0\<close>, of 1 "2 ^ nat (uint n)"] by (simp add: drop_bit_eq_div)
    then show "- (2 ^ 63) \<le> drop_bit (nat (uint n)) (sint v)" using sint_high [OF assms(2)] assms(2) by simp
    show "drop_bit (nat (uint n)) (sint v) < 2 ^ 63" using neg by (rule order.strict_trans) simp
  qed
  moreover have "0 \<le> uint ?w" by simp
  ultimately have "\<not> uint ?w < 2 ^ 63" using sint_low [of ?w] neg by linarith
  moreover have "drop_bit (nat (uint n)) (uint v) < 2 ^ 63"
    by (rule drop_bound [OF _ _ pn]) (use uint_lt2p [of v] in simp_all)
  ultimately show ?thesis using f r by auto
qed

theorem dq_shr_uint64_differs_witness:
  "\<exists>w. FoldTree target64 unit_fpu (OBinExpr BINOP_ISHR u64 (OIntLit (2 ^ 63) u64) (OIntLit 1 u64)) = Some (OIntLit w u64) \<and>
    run_expr target64 unit_fpu ref_llsem (\<lambda>_. 0) (OBinExpr BINOP_ISHR u64 (OIntLit (2 ^ 63) u64) (OIntLit 1 u64))
      = Some (64, drop_bit (nat (uint (1 :: int64))) (uint (2 ^ 63 :: int64))) \<and>
    uint w \<noteq> drop_bit (nat (uint (1 :: int64))) (uint (2 ^ 63 :: int64))"
  by (rule dq_shr_uint64_differs [OF ref_llsem_ok]) simp_all

text \<open>C23: On a 64-bit target, \<open>v < w\<close> on \<open>uint64\<close> constants with \<open>v\<close> from 2^63 on and \<open>w\<close> below folds to true while the generated comparison gives false.\<close>

theorem dq_less_uint64_differs:
  assumes "llvm_langref L" and "native_bits t = 64" and "2 ^ 63 \<le> uint v" and "uint w < 2 ^ 63"
  shows "FoldTree t fp (OCompareExpr COMPOP_LT (OIntLit v u64) (OIntLit w u64)) = Some (OBoolLit True) \<and>
    run_expr t fp L env (OCompareExpr COMPOP_LT (OIntLit v u64) (OIntLit w u64)) = Some (1, 0)"
proof -
  have "0 \<le> uint w" "uint v < 2 ^ 64" using uint_lt2p [of v] by simp_all
  then have "sint v < sint w" unfolding sint_high [OF assms(3)] sint_low [OF assms(4)] by linarith
  then have "FoldTree t fp (OCompareExpr COMPOP_LT (OIntLit v u64) (OIntLit w u64)) = Some (OBoolLit True)"
    using assms(2)
    by (simp add: FoldScalarExpr_def calc_bool.simps [of t fp "OCompareExpr _ _ _"] calc_int.simps [of t fp _ "OIntLit _ _"]
        type_int_def int_cmp_def)
  moreover have "\<not> uint v < uint w" using assms(3,4) by linarith
  ultimately show ?thesis
    using langref_icmp [OF assms(1), of 64 "uint v" "uint w" LULT] uint_lt2p [of v] uint_lt2p [of w]
    by (simp add: run_expr_def gen_compare_def icmp_pred_def int_const_def langref_const [OF assms(1)] bind2_def ref_icmp_def)
qed

theorem dq_less_uint64_differs_witness:
  "FoldTree target64 unit_fpu (OCompareExpr COMPOP_LT (OIntLit (2 ^ 63) u64) (OIntLit 1 u64)) = Some (OBoolLit True) \<and>
   run_expr target64 unit_fpu ref_llsem (\<lambda>_. 0) (OCompareExpr COMPOP_LT (OIntLit (2 ^ 63) u64) (OIntLit 1 u64)) = Some (1, 0)"
  by (rule dq_less_uint64_differs [OF ref_llsem_ok]) (simp_all add: target64_def)

end
