(* ===== verification/Stmt_Ast.thy ===== *)
theory Stmt_Ast
  imports Expr_Gen "HOL-Library.Monad_Syntax"
begin

text \<open>
  The statements of a function (\<open>compiler/ast/statements.h\<close>) and their meaning in the language:
  blocks whose objects are destroyed when they are left, loops, \<open>break\<close>, \<open>continue\<close>, \<open>return\<close> and
  \<open>try\<close> with \<open>finally\<close>. Scalar variables hold bit patterns; a managed variable is an object with a
  destructor; a call statement names a function. What a program does is its trace of calls,
  initializations and destructions, and the values of its variables.
\<close>

section \<open>Statements\<close>

text \<open>A block keeps the names of the objects its scope owns, in the order they were defined.\<close>

datatype 'f stmt =
    OStmtVarDecl string sty "'f expr option"
  | OStmtVarManaged string
  | OStmtAssign string sty "'f expr"
  | OStmtModifyAssign string sty binop "'f expr"
  | OStmtVoidCall string
  | OStmtReturn "'f expr option"
  | OBreakStmt
  | OContinueStmt
  | OStmtWhile "'f expr" "'f block"
  | OStmtFor "'f block" "'f expr" "'f block" "'f block"
  | OStmtIf "('f expr option \<times> 'f block) list"
  | OStmtTry "'f block" "'f block"
and 'f block = OStmtBlock (blk_owned: "string list") (blk_stmts: "'f stmt list")

section \<open>Execution\<close>

datatype event = EvCall string | EvInit string | EvDestroy string

type_synonym mem = "string \<Rightarrow> int"

record sst =
  s_env :: mem
  s_trace :: "event list"
  s_live :: "string list"

datatype outcome = Normal | Break | Continue | Return | Raise

text \<open>The run-time: the LLVM semantics and the functions called, which may raise an exception.\<close>

record 'f rt =
  r_target :: target
  r_fpu :: "'f fpu"
  r_sem :: llsem
  r_call :: "string \<Rightarrow> mem \<Rightarrow> bool \<times> mem"

definition eval_expr :: "'f rt \<Rightarrow> 'f expr \<Rightarrow> mem \<Rightarrow> (nat \<times> int) option" where
  "eval_expr R e env = run_expr (r_target R) (r_fpu R) (r_sem R) env e"

definition cond_val :: "'f rt \<Rightarrow> 'f expr \<Rightarrow> mem \<Rightarrow> bool option" where
  "cond_val R e env = map_option (\<lambda>(_, p). p \<noteq> 0) (eval_expr R e env)"

definition do_assign :: "string \<Rightarrow> (nat \<times> int) option \<Rightarrow> sst \<Rightarrow> (outcome \<times> sst) option" where
  "do_assign x v s = map_option (\<lambda>(_, p). (Normal, s\<lparr>s_env := (s_env s)(x := p)\<rparr>)) v"

text \<open>Leaving a block: the objects above \<open>base\<close> are destroyed, the last one first.\<close>

definition leave :: "nat \<Rightarrow> sst \<Rightarrow> sst" where
  "leave k s =
     (let n = length (s_live s) - k in
      s\<lparr>s_trace := s_trace s @ map EvDestroy (take n (s_live s)), s_live := drop n (s_live s)\<rparr>)"

text \<open>
  The parts of a program that are executed: a statement, a sequence, a block, the branches of an
  \<open>if\<close> that are left, a loop at its condition, with its step block if it has one. Execution is bounded
  by fuel; \<open>None\<close> is an execution that is not finished or has no value.
\<close>

datatype 'f code =
    CStmt "'f stmt"
  | CSeq "'f stmt list"
  | CBlock "'f block"
  | CBranches "('f expr option \<times> 'f block) list"
  | CLoop "'f expr" "'f block" "'f block option"

primrec exec :: "nat \<Rightarrow> 'f rt \<Rightarrow> 'f code \<Rightarrow> sst \<Rightarrow> (outcome \<times> sst) option" where
  "exec 0 R c s = None"
| "exec (Suc n) R c s =
     (case c of
        CStmt stm \<Rightarrow>
          (case stm of
             OStmtVarDecl x ty e \<Rightarrow>
               (case e of None \<Rightarrow> Some (Normal, s) | Some e \<Rightarrow> do_assign x (eval_expr R e (s_env s)) s)
           | OStmtVarManaged x \<Rightarrow> Some (Normal, s\<lparr>s_trace := s_trace s @ [EvInit x], s_live := x # s_live s\<rparr>)
           | OStmtAssign x ty e \<Rightarrow> do_assign x (eval_expr R e (s_env s)) s
           | OStmtModifyAssign x ty op e \<Rightarrow>
               do_assign x (eval_expr R (OBinExpr op ty (OLValueVar x ty None) e) (s_env s)) s
           | OStmtVoidCall f \<Rightarrow>
               (case r_call R f (s_env s) of (raised, env) \<Rightarrow>
                  Some (if raised then Raise else Normal, s\<lparr>s_env := env, s_trace := s_trace s @ [EvCall f]\<rparr>))
           | OStmtReturn e \<Rightarrow>
               (case e of
                  None \<Rightarrow> Some (Return, s)
                | Some e \<Rightarrow> map_option (\<lambda>(_, s'). (Return, s')) (do_assign ''result'' (eval_expr R e (s_env s)) s))
           | OBreakStmt \<Rightarrow> Some (Break, s)
           | OContinueStmt \<Rightarrow> Some (Continue, s)
           | OStmtWhile e b \<Rightarrow> exec n R (CLoop e b None) s
           | OStmtFor i e b st \<Rightarrow>
               map_option (\<lambda>(o1, s2). (o1, leave (length (s_live s)) s2))
                 (case exec n R (CSeq (blk_stmts i)) s of
                    None \<Rightarrow> None
                  | Some (o1, s1) \<Rightarrow> if o1 = Normal then exec n R (CLoop e b (Some st)) s1 else Some (o1, s1))
           | OStmtIf brs \<Rightarrow> exec n R (CBranches brs) s
           | OStmtTry b f \<Rightarrow>
               (case exec n R (CBlock b) s of
                  None \<Rightarrow> None
                | Some (o1, s1) \<Rightarrow>
                    map_option (\<lambda>(o2, s2). (if o2 = Normal then o1 else o2, s2)) (exec n R (CBlock f) s1)))
      | CSeq cs \<Rightarrow>
          (case cs of
             [] \<Rightarrow> Some (Normal, s)
           | stm # cs' \<Rightarrow>
               (case exec n R (CStmt stm) s of
                  None \<Rightarrow> None
                | Some (o1, s1) \<Rightarrow> if o1 = Normal then exec n R (CSeq cs') s1 else Some (o1, s1)))
      | CBlock b \<Rightarrow> map_option (\<lambda>(o1, s1). (o1, leave (length (s_live s)) s1)) (exec n R (CSeq (blk_stmts b)) s)
      | CBranches brs \<Rightarrow>
          (case brs of
             [] \<Rightarrow> Some (Normal, s)
           | (e, b) # brs' \<Rightarrow>
               (case e of
                  None \<Rightarrow> exec n R (CBlock b) s
                | Some e \<Rightarrow>
                    (case cond_val R e (s_env s) of
                       None \<Rightarrow> None
                     | Some t \<Rightarrow> if t then exec n R (CBlock b) s else exec n R (CBranches brs') s)))
      | CLoop e b st \<Rightarrow>
          (case cond_val R e (s_env s) of
             None \<Rightarrow> None
           | Some t \<Rightarrow>
               if \<not> t then Some (Normal, s)
               else (case exec n R (CBlock b) s of
                  None \<Rightarrow> None
                | Some (o1, s1) \<Rightarrow>
                    if o1 = Break then Some (Normal, s1)
                    else if o1 = Normal \<or> o1 = Continue then
                      (case st of
                         None \<Rightarrow> exec n R (CLoop e b st) s1
                       | Some stb \<Rightarrow>
                           (case exec n R (CBlock stb) s1 of
                              None \<Rightarrow> None
                            | Some (o2, s2) \<Rightarrow> if o2 = Normal then exec n R (CLoop e b st) s2 else Some (o2, s2)))
                    else Some (o1, s1))))"

declare exec.simps(2) [simp del]

end
