(* ===== verification/Stmt_Gen.thy ===== *)
theory Stmt_Gen
  imports Stmt_Ast
begin

text \<open>
  Code generation of statements (\<open>compiler/ast/statements.cpp\<close>, the scopes in
  \<open>compiler/codegen/oscope_codegen.cpp\<close>, the \<open>finally\<close> blocks in \<open>compiler/codegen/dqc_codegen.cpp\<close>
  and the function body in \<open>compiler/types/otype_func.cpp\<close>): the basic blocks the LLVM builder is
  asked for. The builder is a state with an insert block; an instruction behind a terminator and an
  exception of the generator are \<open>None\<close>. Allocas, debug positions and the expression's own basic
  blocks are left out; a destructor is one instruction.
\<close>

section \<open>The builder\<close>

datatype 'f instr = IStore string "'f ll" | IZero string | INull string | ICall string | IDestroy string | ILandingPad

datatype 'f bterm = TBr nat | TCondBr "'f ll" nat nat | TInvoke string nat nat | TRet | TResume

text \<open>\<open>b_alloc\<close> holds the managed variables whose \<open>ll_value\<close> is set.\<close>

record 'f bld =
  b_code :: "nat \<Rightarrow> 'f instr list"
  b_term :: "nat \<Rightarrow> 'f bterm option"
  b_next :: nat
  b_cur :: nat
  b_alloc :: "string list"

definition terminated :: "'f bld \<Rightarrow> bool" where
  "terminated st \<longleftrightarrow> b_term st (b_cur st) \<noteq> None"

definition emit :: "'f instr \<Rightarrow> 'f bld \<Rightarrow> 'f bld option" where
  "emit i st =
     (if terminated st then None
      else Some (st\<lparr>b_code := (b_code st)(b_cur st := b_code st (b_cur st) @ [i])\<rparr>))"

definition terminate :: "'f bterm \<Rightarrow> 'f bld \<Rightarrow> 'f bld option" where
  "terminate t st =
     (if terminated st then None else Some (st\<lparr>b_term := (b_term st)(b_cur st := Some t)\<rparr>))"

definition terminate_open :: "'f bterm \<Rightarrow> 'f bld \<Rightarrow> 'f bld option" where
  "terminate_open t st = (if terminated st then Some st else terminate t st)"

definition SetInsertPoint :: "nat \<Rightarrow> 'f bld \<Rightarrow> 'f bld" where
  "SetInsertPoint b st = st\<lparr>b_cur := b\<rparr>"

text \<open>\<open>LlBasicBlock::Create\<close>: blocks are numbered.\<close>

definition new_blocks :: "nat \<Rightarrow> 'f bld \<Rightarrow> 'f bld" where
  "new_blocks k st = st\<lparr>b_next := b_next st + k\<rparr>"

section \<open>Scopes\<close>

record scope =
  sc_owned :: "string list"
  sc_lpad :: "nat option"
  sc_cleanup :: "nat option"

type_synonym scopes = "scope list"

text \<open>The blocks of the innermost scope that has one.\<close>

primrec first_some :: "'a option list \<Rightarrow> 'a option" where
  "first_some [] = None"
| "first_some (x # xs) = (case x of None \<Rightarrow> first_some xs | Some y \<Rightarrow> Some y)"

definition GetExceptionCleanupBB :: "scopes \<Rightarrow> nat option" where
  "GetExceptionCleanupBB scs = first_some (map sc_lpad scs)"

definition GetUnwindCleanupBB :: "scopes \<Rightarrow> nat option" where
  "GetUnwindCleanupBB scs = first_some (map sc_cleanup scs)"

primrec emit_destroys :: "string list \<Rightarrow> 'f bld \<Rightarrow> 'f bld option" where
  "emit_destroys [] st = Some st"
| "emit_destroys (x # xs) st =
     Option.bind (if x \<in> set (b_alloc st) then emit (IDestroy x) st else Some st) (emit_destroys xs)"

definition EmitOwnedObjectDestructors :: "scope \<Rightarrow> 'f bld \<Rightarrow> 'f bld option" where
  "EmitOwnedObjectDestructors sc = emit_destroys (rev (sc_owned sc))"

text \<open>The first \<open>k\<close> scopes of the chain: up to the scope at which destruction stops.\<close>

definition EmitOwnedObjectDestructorsUntil :: "nat \<Rightarrow> scopes \<Rightarrow> 'f bld \<Rightarrow> 'f bld option" where
  "EmitOwnedObjectDestructorsUntil k scs = emit_destroys (concat (map (rev \<circ> sc_owned) (take k scs)))"

definition GenerateCallOrInvoke :: "scopes \<Rightarrow> string \<Rightarrow> 'f bld \<Rightarrow> 'f bld option" where
  "GenerateCallOrInvoke scs f st =
     (case GetExceptionCleanupBB scs of
        None \<Rightarrow> emit (ICall f) st
      | Some lpad \<Rightarrow>
          map_option (SetInsertPoint (b_next st)) (terminate (TInvoke f (b_next st) lpad) (new_blocks 1 st)))"

section \<open>Statements\<close>

record 'f opts =
  o_exceptions :: bool
  o_target :: target
  o_fpu :: "'f fpu"
  o_result :: bool

text \<open>A loop on \<open>ll_loop_stack\<close>: the targets of \<open>continue\<close> and \<open>break\<close> and the depth of its body's scope.\<close>

record loopctx =
  l_cond :: nat
  l_end :: nat
  l_depth :: nat

definition gen_store :: "'f opts \<Rightarrow> string \<Rightarrow> 'f expr \<Rightarrow> 'f bld \<Rightarrow> 'f bld option" where
  "gen_store P x e st = Option.bind (Generate (o_target P) (o_fpu P) e) (\<lambda>g. emit (IStore x g) st)"

text \<open>\<open>GenerateModifyAssignValue\<close> on scalar types.\<close>

definition GenerateModifyAssignValue :: "sty \<Rightarrow> binop \<Rightarrow> 'f ll \<Rightarrow> 'f ll \<Rightarrow> 'f ll option" where
  "GenerateModifyAssignValue ty op cur v = gen_binop op ty cur v"

definition gen_cond :: "'f opts \<Rightarrow> 'f expr \<Rightarrow> 'f ll option" where
  "gen_cond P e = (if etype e \<noteq> TBool then None else Generate (o_target P) (o_fpu P) e)"

text \<open>A \<open>finally\<close> block on \<open>ll_finally_stack\<close> with the depth of its parent scope.\<close>

type_synonym 'f fins = "(nat \<times> 'f block) list"

text \<open>\<open>ACTIVE\<close> is \<open>EmitActiveFinallyBlocks\<close>; \<open>GBranches\<close> the loop of \<open>OStmtIf::Generate\<close>.\<close>

datatype 'f gcode =
    GStmt "'f stmt"
  | GSeq "'f stmt list"
  | GBlock "'f block"
  | GBranches nat "('f expr option \<times> 'f block) list"
  | EmitActiveFinallyBlocks

fun gsize :: "'f gcode \<Rightarrow> nat" where
  "gsize (GStmt c) = 2 * size c + 2"
| "gsize (GSeq cs) = 2 * size_list size cs + 1"
| "gsize (GBlock b) = 2 * size b"
| "gsize (GBranches m brs) = 2 * size_list (size_prod (size_option size) size) brs + 1"
| "gsize EmitActiveFinallyBlocks = 0"

function gen :: "'f opts \<Rightarrow> scopes \<Rightarrow> loopctx list \<Rightarrow> 'f fins \<Rightarrow> 'f gcode \<Rightarrow> 'f bld \<Rightarrow> 'f bld option" where
  "gen P scs loops fins c st =
     (case c of
        EmitActiveFinallyBlocks \<Rightarrow>
          (case fins of
             [] \<Rightarrow> Some st
           | (d, f) # rest \<Rightarrow> do {
               st1 \<leftarrow> gen P (drop (length scs - d) scs) loops rest (GBlock f) st;
               if terminated st1 then Some st1 else gen P scs loops rest EmitActiveFinallyBlocks st1 })
      | GSeq cs \<Rightarrow>
          (case cs of
             [] \<Rightarrow> Some st
           | c # cs' \<Rightarrow> do {
               st1 \<leftarrow> gen P scs loops fins (GStmt c) st;
               if terminated st1 then Some st1 else gen P scs loops fins (GSeq cs') st1 })
      | GBranches merge brs \<Rightarrow>
          (case brs of
             [] \<Rightarrow> Some (SetInsertPoint merge st)
           | (e, b) # brs' \<Rightarrow>
               (case e of
                  None \<Rightarrow> do {
                    st1 \<leftarrow> gen P scs loops fins (GBlock b) st;
                    st2 \<leftarrow> terminate_open (TBr merge) st1;
                    gen P scs loops fins (GBranches merge brs') st2 }
                | Some e \<Rightarrow> do {
                    g \<leftarrow> gen_cond P e;
                    let bb_then = b_next st;
                    let bb_else = (if brs' = [] then merge else Suc bb_then);
                    let st0 = new_blocks (if brs' = [] then 1 else 2) st;
                    st1 \<leftarrow> terminate (TCondBr g bb_then bb_else) st0;
                    st2 \<leftarrow> gen P scs loops fins (GBlock b) (SetInsertPoint bb_then st1);
                    st3 \<leftarrow> terminate_open (TBr merge) st2;
                    gen P scs loops fins (GBranches merge brs') (SetInsertPoint bb_else st3) }))
      | GBlock (OStmtBlock owned cs) \<Rightarrow>
          (if o_exceptions P \<and> owned \<noteq> [] then do {
             let lpad = b_next st; let cleanup = lpad + 1; let dn = lpad + 2; let st0 = new_blocks 3 st;
             let sc = \<lparr>sc_owned = owned, sc_lpad = Some lpad, sc_cleanup = Some cleanup\<rparr>;
             st1 \<leftarrow> gen P (sc # scs) loops fins (GSeq cs) st0;
             st2 \<leftarrow> (if terminated st1 then Some st1
                     else Option.bind (EmitOwnedObjectDestructors sc st1) (terminate (TBr dn)));
             st3 \<leftarrow> Option.bind (emit ILandingPad (SetInsertPoint lpad st2)) (terminate (TBr cleanup));
             st4 \<leftarrow> EmitOwnedObjectDestructors sc (SetInsertPoint cleanup st3);
             st5 \<leftarrow> terminate (case GetUnwindCleanupBB scs of Some t \<Rightarrow> TBr t | None \<Rightarrow> TResume) st4;
             Some (SetInsertPoint dn st5) }
           else do {
             let sc = \<lparr>sc_owned = owned, sc_lpad = None, sc_cleanup = None\<rparr>;
             st1 \<leftarrow> gen P (sc # scs) loops fins (GSeq cs) st;
             if terminated st1 then Some st1 else EmitOwnedObjectDestructors sc st1 })
      | GStmt c \<Rightarrow>
          (case c of
             OStmtVarDecl x ty e \<Rightarrow> (case e of None \<Rightarrow> Some st | Some e \<Rightarrow> gen_store P x e st)
           | OStmtVarManaged x \<Rightarrow> emit (INull x) (st\<lparr>b_alloc := x # b_alloc st\<rparr>)
           | OStmtAssign x ty e \<Rightarrow> gen_store P x e st
           | OStmtModifyAssign x ty op e \<Rightarrow> do {
               g \<leftarrow> Generate (o_target P) (o_fpu P) e;
               v \<leftarrow> GenerateModifyAssignValue ty op (LLoad (GetLlType ty) x) g;
               emit (IStore x v) st }
           | OStmtVoidCall f \<Rightarrow> GenerateCallOrInvoke scs f st
           | OStmtReturn e \<Rightarrow> do {
               st1 \<leftarrow> (case e of None \<Rightarrow> Some st
                       | Some e \<Rightarrow> if o_result P then gen_store P ''result'' e st else None);
               st2 \<leftarrow> gen P scs loops fins EmitActiveFinallyBlocks st1;
               if terminated st2 then Some st2
               else Option.bind (EmitOwnedObjectDestructorsUntil (length scs) scs st2) (terminate TRet) }
           | OBreakStmt \<Rightarrow>
               (case loops of
                  [] \<Rightarrow> None
                | l # _ \<Rightarrow> do {
                    st1 \<leftarrow> gen P scs loops fins EmitActiveFinallyBlocks st;
                    if terminated st1 then Some st1
                    else Option.bind (EmitOwnedObjectDestructorsUntil (length scs + 1 - l_depth l) scs st1)
                           (terminate (TBr (l_end l))) })
           | OContinueStmt \<Rightarrow>
               (case loops of
                  [] \<Rightarrow> None
                | l # _ \<Rightarrow> do {
                    st1 \<leftarrow> gen P scs loops fins EmitActiveFinallyBlocks st;
                    if terminated st1 then Some st1
                    else Option.bind (EmitOwnedObjectDestructorsUntil (length scs + 1 - l_depth l) scs st1)
                           (terminate (TBr (l_cond l))) })
           | OStmtWhile e b \<Rightarrow> do {
               let cond_bb = b_next st; let body_bb = cond_bb + 1; let end_bb = cond_bb + 2;
               let l = \<lparr>l_cond = cond_bb, l_end = end_bb, l_depth = Suc (length scs)\<rparr>;
               st1 \<leftarrow> terminate (TBr cond_bb) (new_blocks 3 st);
               g \<leftarrow> gen_cond P e;
               st2 \<leftarrow> terminate (TCondBr g body_bb end_bb) (SetInsertPoint cond_bb st1);
               st3 \<leftarrow> gen P scs (l # loops) fins (GBlock b) (SetInsertPoint body_bb st2);
               st4 \<leftarrow> terminate_open (TBr cond_bb) st3;
               Some (SetInsertPoint end_bb st4) }
           | OStmtFor i e b stp \<Rightarrow> do {
               st0 \<leftarrow> gen P scs loops fins (GBlock i) st;
               if terminated st0 then Some st0
               else do {
                 let cond_bb = b_next st0; let body_bb = cond_bb + 1; let step_bb = cond_bb + 2; let end_bb = cond_bb + 3;
                 let isc = \<lparr>sc_owned = blk_owned i, sc_lpad = None, sc_cleanup = None\<rparr>;
                 let l = \<lparr>l_cond = step_bb, l_end = end_bb, l_depth = Suc (Suc (length scs))\<rparr>;
                 st1 \<leftarrow> terminate (TBr cond_bb) (new_blocks 4 st0);
                 g \<leftarrow> gen_cond P e;
                 st2 \<leftarrow> terminate (TCondBr g body_bb end_bb) (SetInsertPoint cond_bb st1);
                 st3 \<leftarrow> gen P (isc # scs) (l # loops) fins (GBlock b) (SetInsertPoint body_bb st2);
                 st4 \<leftarrow> terminate_open (TBr step_bb) st3;
                 st5 \<leftarrow> gen P (isc # scs) (l # loops) fins (GBlock stp) (SetInsertPoint step_bb st4);
                 st6 \<leftarrow> terminate_open (TBr cond_bb) st5;
                 Some (SetInsertPoint end_bb st6) } }
           | OStmtIf brs \<Rightarrow> gen P scs loops fins (GBranches (b_next st) brs) (new_blocks 1 st)
           | OStmtTry b f \<Rightarrow>
               (case scs of
                  [] \<Rightarrow> None
                | sc # outer \<Rightarrow> do {
                    let lpad = b_next st; let dispatch = lpad + 1; let after = lpad + 2; let fin = lpad + 3; let dn = lpad + 4;
                    let sc' = sc\<lparr>sc_lpad := Some lpad, sc_cleanup := Some dispatch\<rparr>;
                    st1 \<leftarrow> gen P (sc' # outer) loops ((length scs, f) # fins) (GBlock b) (new_blocks 5 st);
                    st2 \<leftarrow> terminate_open (TBr after) st1;
                    st3 \<leftarrow> Option.bind (emit ILandingPad (SetInsertPoint lpad st2)) (terminate (TBr dispatch));
                    st4 \<leftarrow> gen P scs loops fins (GBlock f) (SetInsertPoint dispatch st3);
                    st5 \<leftarrow> terminate_open (case sc_cleanup sc of Some t \<Rightarrow> TBr t | None \<Rightarrow> TResume) st4;
                    st6 \<leftarrow> terminate (TBr fin) (SetInsertPoint after st5);
                    st7 \<leftarrow> gen P scs loops fins (GBlock f) (SetInsertPoint fin st6);
                    st8 \<leftarrow> terminate_open (TBr dn) st7;
                    Some (SetInsertPoint dn st8) })))"
  by pat_completeness auto
termination
  by (relation "measure (\<lambda>(P, scs, loops, fins, c, st). gsize c + (\<Sum>(d, f) \<leftarrow> fins. 2 * size f + 1))") auto

declare gen.simps [simp del]

end
