(* ===== verification/Stmt_Frame.thy ===== *)
theory Stmt_Frame
  imports Stmt_Gen "HOL-Library.Sublist"
begin

text \<open>
  Code generation only adds code at the insert point and in new blocks, leaves at most one block open,
  the insert point, and only jumps to blocks that exist.
\<close>

section \<open>The equations by construct\<close>

abbreviation active :: "'f opts \<Rightarrow> scopes \<Rightarrow> loopctx list \<Rightarrow> 'f fins \<Rightarrow> 'f bld \<Rightarrow> 'f bld option" where
  "active P scs loops fins \<equiv> gen P scs loops fins EmitActiveFinallyBlocks"

text \<open>The end of a jump: the objects of \<open>k\<close> scopes are destroyed, then the terminator.\<close>

definition jump :: "nat \<Rightarrow> scopes \<Rightarrow> 'f bterm \<Rightarrow> 'f bld \<Rightarrow> 'f bld option" where
  "jump k scs t st = (if terminated st then Some st
     else Option.bind (EmitOwnedObjectDestructorsUntil k scs st) (terminate t))"

lemma gen_active:
  "gen P scs loops [] EmitActiveFinallyBlocks st = Some st"
  "gen P scs loops ((d, f) # rest) EmitActiveFinallyBlocks st =
     Option.bind (gen P (drop (length scs - d) scs) loops rest (GBlock f) st) (\<lambda>st1.
       if terminated st1 then Some st1 else gen P scs loops rest EmitActiveFinallyBlocks st1)"
  by (rule trans [OF gen.simps], simp only: gcode.simps stmt.simps block.simps block.sel list.simps option.simps prod.simps Let_def)+

lemma gen_seq:
  "gen P scs loops fins (GSeq []) st = Some st"
  "gen P scs loops fins (GSeq (c # cs)) st =
     Option.bind (gen P scs loops fins (GStmt c) st) (\<lambda>st1.
       if terminated st1 then Some st1 else gen P scs loops fins (GSeq cs) st1)"
  by (rule trans [OF gen.simps], simp only: gcode.simps stmt.simps block.simps block.sel list.simps option.simps prod.simps Let_def)+

lemma gen_branches:
  "gen P scs loops fins (GBranches m []) st = Some (SetInsertPoint m st)"
  "gen P scs loops fins (GBranches m ((None, b) # brs)) st =
     Option.bind (Option.bind (gen P scs loops fins (GBlock b) st) (terminate_open (TBr m)))
       (gen P scs loops fins (GBranches m brs))"
  "gen P scs loops fins (GBranches m ((Some e, b) # brs)) st =
     Option.bind (gen_cond P e) (\<lambda>g.
     Option.bind (terminate (TCondBr g (b_next st) (if brs = [] then m else Suc (b_next st)))
         (new_blocks (if brs = [] then 1 else 2) st)) (\<lambda>st1.
     Option.bind (gen P scs loops fins (GBlock b) (SetInsertPoint (b_next st) st1)) (\<lambda>st2.
     Option.bind (terminate_open (TBr m) st2) (\<lambda>st3.
       gen P scs loops fins (GBranches m brs) (SetInsertPoint (if brs = [] then m else Suc (b_next st)) st3)))))"
  by (rule trans [OF gen.simps], simp only: gcode.simps stmt.simps block.simps block.sel list.simps option.simps prod.simps Let_def bind_assoc)+

text \<open>The scope of a block while its statements are generated.\<close>

definition unwinds :: "'f opts \<Rightarrow> 'f block \<Rightarrow> bool" where
  "unwinds P b \<longleftrightarrow> o_exceptions P \<and> blk_owned b \<noteq> []"

definition body_scope :: "'f opts \<Rightarrow> 'f block \<Rightarrow> nat \<Rightarrow> scope" where
  "body_scope P b n =
     (if unwinds P b then \<lparr>sc_owned = blk_owned b, sc_lpad = Some n, sc_cleanup = Some (n + 1)\<rparr>
      else \<lparr>sc_owned = blk_owned b, sc_lpad = None, sc_cleanup = None\<rparr>)"

lemma gen_block_plain:
  assumes "\<not> unwinds P b"
  shows "gen P scs loops fins (GBlock b) st =
     Option.bind (gen P (body_scope P b n # scs) loops fins (GSeq (blk_stmts b)) st) (\<lambda>st1.
       if terminated st1 then Some st1 else EmitOwnedObjectDestructors (body_scope P b n) st1)"
proof (cases b)
  case (OStmtBlock owned cs)
  with assms have u: "\<not> (o_exceptions P \<and> owned \<noteq> [])" by (simp add: unwinds_def)
  have sc: "body_scope P b n = \<lparr>sc_owned = owned, sc_lpad = None, sc_cleanup = None\<rparr>"
    using assms OStmtBlock by (simp add: body_scope_def)
  show ?thesis unfolding sc unfolding OStmtBlock
    by (rule trans [OF gen.simps]) (simp only: gcode.simps stmt.simps block.simps block.sel list.simps option.simps prod.simps Let_def u if_False)
qed

text \<open>The landing pad of a scope, and the end of a block that unwinds.\<close>

definition pad_block :: "nat \<Rightarrow> 'f bterm \<Rightarrow> 'f bld \<Rightarrow> 'f bld option" where
  "pad_block n t st = Option.bind (emit ILandingPad (SetInsertPoint n st)) (terminate t)"

definition block_end :: "scope \<Rightarrow> 'f bterm \<Rightarrow> 'f bld \<Rightarrow> 'f bld option" where
  "block_end sc t st = (if terminated st then Some st
     else Option.bind (EmitOwnedObjectDestructors sc st) (terminate t))"

definition unwind_to :: "nat option \<Rightarrow> 'f bterm" where
  "unwind_to c = (case c of Some t \<Rightarrow> TBr t | None \<Rightarrow> TResume)"

lemma gen_block_unwind:
  assumes "unwinds P b"
  shows "gen P scs loops fins (GBlock b) st =
     (let n = b_next st; sc = body_scope P b n in
     Option.bind (gen P (sc # scs) loops fins (GSeq (blk_stmts b)) (new_blocks 3 st)) (\<lambda>st1.
     Option.bind (block_end sc (TBr (n + 2)) st1) (\<lambda>st2.
     Option.bind (pad_block n (TBr (n + 1)) st2) (\<lambda>st3.
     Option.bind (EmitOwnedObjectDestructors sc (SetInsertPoint (n + 1) st3)) (\<lambda>st4.
     Option.bind (terminate (unwind_to (GetUnwindCleanupBB scs)) st4) (\<lambda>st5.
       Some (SetInsertPoint (n + 2) st5)))))))"
proof (cases b)
  case (OStmtBlock owned cs)
  with assms have u: "o_exceptions P \<and> owned \<noteq> []" by (simp add: unwinds_def)
  have sc: "body_scope P b n = \<lparr>sc_owned = owned, sc_lpad = Some n, sc_cleanup = Some (n + 1)\<rparr>" for n
    using assms OStmtBlock by (simp add: body_scope_def)
  show ?thesis unfolding sc unfolding OStmtBlock
    by (rule trans [OF gen.simps]) (simp only: gcode.simps stmt.simps block.simps block.sel list.simps option.simps prod.simps Let_def u if_True simp_thms pad_block_def block_end_def unwind_to_def)
qed

lemma gen_simple:
  "gen P scs loops fins (GStmt (OStmtVarDecl x ty None)) st = Some st"
  "gen P scs loops fins (GStmt (OStmtVarDecl x ty (Some e))) st = gen_store P x e st"
  "gen P scs loops fins (GStmt (OStmtVarManaged x)) st = emit (INull x) (st\<lparr>b_alloc := x # b_alloc st\<rparr>)"
  "gen P scs loops fins (GStmt (OStmtAssign x ty e)) st = gen_store P x e st"
  "gen P scs loops fins (GStmt (OStmtModifyAssign x ty op e)) st =
     Option.bind (Generate (o_target P) (o_fpu P) e) (\<lambda>g.
     Option.bind (GenerateModifyAssignValue ty op (LLoad (GetLlType ty) x) g) (\<lambda>v. emit (IStore x v) st))"
  "gen P scs loops fins (GStmt (OStmtVoidCall f)) st = GenerateCallOrInvoke scs f st"
  by (rule trans [OF gen.simps], simp only: gcode.simps stmt.simps block.simps block.sel list.simps option.simps prod.simps Let_def)+

lemma gen_jumps:
  "gen P scs loops fins (GStmt (OStmtReturn e)) st =
     Option.bind (case e of None \<Rightarrow> Some st
                  | Some e \<Rightarrow> if o_result P then gen_store P ''result'' e st else None) (\<lambda>st1.
     Option.bind (active P scs loops fins st1) (jump (length scs) scs TRet))"
  "gen P scs [] fins (GStmt OBreakStmt) st = None"
  "gen P scs [] fins (GStmt OContinueStmt) st = None"
  "gen P scs (l # loops) fins (GStmt OBreakStmt) st =
     Option.bind (active P scs (l # loops) fins st) (jump (length scs + 1 - l_depth l) scs (TBr (l_end l)))"
  "gen P scs (l # loops) fins (GStmt OContinueStmt) st =
     Option.bind (active P scs (l # loops) fins st) (jump (length scs + 1 - l_depth l) scs (TBr (l_cond l)))"
  by (rule trans [OF gen.simps], simp only: gcode.simps stmt.simps block.simps block.sel list.simps option.simps prod.simps Let_def jump_def [abs_def])+

lemma gen_if: "gen P scs loops fins (GStmt (OStmtIf brs)) st = gen P scs loops fins (GBranches (b_next st) brs) (new_blocks 1 st)"
  by (rule trans [OF gen.simps]) (simp only: gcode.simps stmt.simps block.simps block.sel list.simps option.simps prod.simps Let_def)

text \<open>A loop from its first jump to the condition; \<open>k\<close> is the number of blocks in front of the body.\<close>

definition while_ctx :: "nat \<Rightarrow> scopes \<Rightarrow> loopctx" where
  "while_ctx n scs = \<lparr>l_cond = n, l_end = n + 2, l_depth = Suc (length scs)\<rparr>"

definition for_ctx :: "nat \<Rightarrow> scopes \<Rightarrow> loopctx" where
  "for_ctx n scs = \<lparr>l_cond = n + 2, l_end = n + 3, l_depth = Suc (Suc (length scs))\<rparr>"

definition init_scope :: "'f block \<Rightarrow> scope" where
  "init_scope i = \<lparr>sc_owned = blk_owned i, sc_lpad = None, sc_cleanup = None\<rparr>"

lemma gen_while:
  "gen P scs loops fins (GStmt (OStmtWhile e b)) st =
     (let n = b_next st in
      Option.bind (terminate (TBr n) (new_blocks 3 st)) (\<lambda>st1.
      Option.bind (gen_cond P e) (\<lambda>g.
      Option.bind (terminate (TCondBr g (n + 1) (n + 2)) (SetInsertPoint n st1)) (\<lambda>st2.
      Option.bind (gen P scs (while_ctx n scs # loops) fins (GBlock b) (SetInsertPoint (n + 1) st2)) (\<lambda>st3.
      Option.bind (terminate_open (TBr n) st3) (\<lambda>st4. Some (SetInsertPoint (n + 2) st4)))))))"
  by (rule trans [OF gen.simps]) (simp only: gcode.simps stmt.simps block.simps block.sel list.simps option.simps prod.simps Let_def while_ctx_def)

lemma gen_for:
  "gen P scs loops fins (GStmt (OStmtFor i e b stp)) st =
     Option.bind (gen P scs loops fins (GBlock i) st) (\<lambda>st0.
      if terminated st0 then Some st0 else
      (let n = b_next st0 in
      Option.bind (terminate (TBr n) (new_blocks 4 st0)) (\<lambda>st1.
      Option.bind (gen_cond P e) (\<lambda>g.
      Option.bind (terminate (TCondBr g (n + 1) (n + 3)) (SetInsertPoint n st1)) (\<lambda>st2.
      Option.bind (gen P (init_scope i # scs) (for_ctx n scs # loops) fins (GBlock b) (SetInsertPoint (n + 1) st2)) (\<lambda>st3.
      Option.bind (terminate_open (TBr (n + 2)) st3) (\<lambda>st4.
      Option.bind (gen P (init_scope i # scs) (for_ctx n scs # loops) fins (GBlock stp) (SetInsertPoint (n + 2) st4)) (\<lambda>st5.
      Option.bind (terminate_open (TBr n) st5) (\<lambda>st6. Some (SetInsertPoint (n + 3) st6))))))))))"
  by (rule trans [OF gen.simps]) (simp only: gcode.simps stmt.simps block.simps block.sel list.simps option.simps prod.simps Let_def for_ctx_def init_scope_def)

text \<open>The scope of a \<open>try\<close> statement while its body is generated.\<close>

definition try_scope :: "nat \<Rightarrow> scope \<Rightarrow> scope" where
  "try_scope n sc = sc\<lparr>sc_lpad := Some n, sc_cleanup := Some (n + 1)\<rparr>"

lemma gen_try:
  "gen P [] loops fins (GStmt (OStmtTry b f)) st = None"
  "gen P (sc # scs) loops fins (GStmt (OStmtTry b f)) st =
     (let n = b_next st in
      Option.bind (gen P (try_scope n sc # scs) loops ((Suc (length scs), f) # fins) (GBlock b) (new_blocks 5 st)) (\<lambda>st1.
      Option.bind (terminate_open (TBr (n + 2)) st1) (\<lambda>st2.
      Option.bind (pad_block n (TBr (n + 1)) st2) (\<lambda>st3.
      Option.bind (gen P (sc # scs) loops fins (GBlock f) (SetInsertPoint (n + 1) st3)) (\<lambda>st4.
      Option.bind (terminate_open (unwind_to (sc_cleanup sc)) st4) (\<lambda>st5.
      Option.bind (terminate (TBr (n + 3)) (SetInsertPoint (n + 2) st5)) (\<lambda>st6.
      Option.bind (gen P (sc # scs) loops fins (GBlock f) (SetInsertPoint (n + 3) st6)) (\<lambda>st7.
      Option.bind (terminate_open (TBr (n + 4)) st7) (\<lambda>st8. Some (SetInsertPoint (n + 4) st8))))))))))"
  by (rule trans [OF gen.simps], simp only: gcode.simps stmt.simps block.simps block.sel list.simps option.simps prod.simps Let_def try_scope_def pad_block_def unwind_to_def list.size add_0_right add_Suc_right)+

section \<open>Growing a function\<close>

definition wfb :: "'f bld \<Rightarrow> bool" where
  "wfb st \<longleftrightarrow> b_cur st < b_next st \<and> (\<forall>b\<ge>b_next st. b_code st b = [] \<and> b_term st b = None)"

definition same_block :: "'f bld \<Rightarrow> 'f bld \<Rightarrow> nat \<Rightarrow> bool" where
  "same_block st st' b \<longleftrightarrow> b_code st' b = b_code st b \<and> b_term st' b = b_term st b"

definition frame :: "'f bld \<Rightarrow> 'f bld \<Rightarrow> bool" where
  "frame st st' \<longleftrightarrow> wfb st' \<and> b_next st \<le> b_next st' \<and> (b_cur st' = b_cur st \<or> b_next st \<le> b_cur st') \<and>
     (\<forall>b<b_next st. b \<noteq> b_cur st \<or> b_term st b \<noteq> None \<longrightarrow> same_block st st' b) \<and>
     prefix (b_code st (b_cur st)) (b_code st' (b_cur st))"

lemma frame_refl: "wfb st \<Longrightarrow> frame st st"
  by (simp add: frame_def same_block_def)

lemma frame_trans:
  assumes "frame a b" "frame b c" "wfb a"
  shows "frame a c"
proof -
  have "same_block a c k" if k: "k < b_next a" "k \<noteq> b_cur a \<or> b_term a k \<noteq> None" for k
  proof -
    have ab: "same_block a b k" using assms(1) k by (simp add: frame_def)
    have "k \<noteq> b_cur b \<or> b_term b k \<noteq> None" using assms(1) k ab by (auto simp: frame_def same_block_def)
    moreover have "k < b_next b" using assms(1) k by (auto simp: frame_def)
    ultimately have "same_block b c k" using assms(2) unfolding frame_def by blast
    with ab show ?thesis by (simp add: same_block_def)
  qed
  moreover have "prefix (b_code a (b_cur a)) (b_code c (b_cur a))"
  proof (cases "b_cur b = b_cur a")
    case True
    with assms(1,2) show ?thesis unfolding frame_def by (metis prefix_order.trans)
  next
    case False
    have "b_cur a < b_next b" using assms by (auto simp: frame_def wfb_def)
    with False assms(2) have "same_block b c (b_cur a)" unfolding frame_def by metis
    with assms(1) show ?thesis by (simp add: frame_def same_block_def)
  qed
  ultimately show ?thesis using assms by (auto simp: frame_def)
qed

text \<open>The primitives, from a fixed start \<open>s0\<close>.\<close>

lemma emit_wfb: "wfb st \<Longrightarrow> emit i st = Some st' \<Longrightarrow> wfb st'"
  by (auto simp: wfb_def emit_def split: if_splits)

lemma terminate_wfb: "wfb st \<Longrightarrow> terminate t st = Some st' \<Longrightarrow> wfb st'"
  by (auto simp: wfb_def terminate_def split: if_splits)

lemma frame_emit:
  assumes "frame s0 st" "wfb s0" "emit i st = Some st'"
  shows "frame s0 st'"
proof (rule frame_trans [OF assms(1) _ assms(2)])
  have "wfb st" using assms(1) by (simp add: frame_def)
  with assms(3) emit_wfb [OF this assms(3)] show "frame st st'"
    by (auto simp: frame_def emit_def terminated_def same_block_def split: if_splits)
qed

lemma frame_terminate:
  assumes "frame s0 st" "wfb s0" "terminate t st = Some st'"
  shows "frame s0 st'"
proof (rule frame_trans [OF assms(1) _ assms(2)])
  have "wfb st" using assms(1) by (simp add: frame_def)
  with assms(3) terminate_wfb [OF this assms(3)] show "frame st st'"
    by (auto simp: frame_def terminate_def terminated_def same_block_def split: if_splits)
qed

lemma frame_terminate_open:
  "frame s0 st \<Longrightarrow> wfb s0 \<Longrightarrow> terminate_open t st = Some st' \<Longrightarrow> frame s0 st'"
  using frame_terminate by (auto simp: terminate_open_def split: if_splits)

lemma frame_new: "frame s0 st \<Longrightarrow> frame s0 (new_blocks k st)"
  by (auto simp: frame_def wfb_def new_blocks_def same_block_def)

lemma frame_set: "frame s0 st \<Longrightarrow> b_next s0 \<le> b \<Longrightarrow> b < b_next st \<Longrightarrow> frame s0 (SetInsertPoint b st)"
  by (auto simp: frame_def wfb_def SetInsertPoint_def same_block_def)

lemma frame_alloc: "frame s0 st \<Longrightarrow> frame s0 (st\<lparr>b_alloc := a\<rparr>)"
  by (auto simp: frame_def wfb_def same_block_def)

lemma frame_destroys:
  "frame s0 st \<Longrightarrow> wfb s0 \<Longrightarrow> emit_destroys xs st = Some st' \<Longrightarrow> frame s0 st'"
  by (induction xs arbitrary: st) (auto simp: bind_eq_Some_conv dest: frame_emit split: if_splits)

section \<open>Open blocks\<close>

definition opn :: "'f bld \<Rightarrow> nat set" where
  "opn st = {b. b < b_next st \<and> b_term st b = None}"

lemma opn_emit: "emit i st = Some st' \<Longrightarrow> opn st' = opn st"
  by (auto simp: opn_def emit_def split: if_splits)

lemma opn_terminate: "terminate t st = Some st' \<Longrightarrow> opn st' = opn st - {b_cur st}"
  by (auto simp: opn_def terminate_def terminated_def split: if_splits)

lemma opn_terminate_open: "terminate_open t st = Some st' \<Longrightarrow> opn st' \<subseteq> opn st - {b_cur st}"
  using opn_terminate [of t st st'] by (auto simp: terminate_open_def opn_def terminated_def split: if_splits)

lemma opn_new: "wfb st \<Longrightarrow> opn (new_blocks k st) = opn st \<union> {b_next st..<b_next st + k}"
  by (auto simp: opn_def new_blocks_def wfb_def)

lemma opn_set [simp]: "opn (SetInsertPoint b st) = opn st"
  by (simp add: opn_def SetInsertPoint_def)

lemma opn_alloc [simp]: "opn (st\<lparr>b_alloc := a\<rparr>) = opn st"
  by (simp add: opn_def)

lemma opn_destroys: "emit_destroys xs st = Some st' \<Longrightarrow> opn st' = opn st"
  by (induction xs arbitrary: st) (auto simp: bind_eq_Some_conv dest: opn_emit split: if_splits)

section \<open>Code generation grows the function\<close>

definition grown :: "'f bld \<Rightarrow> nat \<Rightarrow> 'f bld \<Rightarrow> bool" where
  "grown s0 k st \<longleftrightarrow> wfb s0 \<and> frame s0 st \<and> k \<le> b_next st"

lemma grown_wfb: "grown s0 k st \<Longrightarrow> wfb st"
  by (simp add: grown_def frame_def)

lemma grown_refl: "wfb st \<Longrightarrow> grown st (b_next st) st"
  by (simp add: grown_def frame_refl)

named_theorems grow

lemma b_next_prims:
  "emit i st = Some st' \<Longrightarrow> b_next st' = b_next st"
  "terminate t st = Some st' \<Longrightarrow> b_next st' = b_next st"
  "terminate_open t st = Some st' \<Longrightarrow> b_next st' = b_next st"
  by (auto simp: emit_def terminate_def terminate_open_def split: if_splits)

lemma b_next_destroys: "emit_destroys xs st = Some st' \<Longrightarrow> b_next st' = b_next st"
  by (induction xs arbitrary: st) (auto simp: bind_eq_Some_conv dest: b_next_prims split: if_splits)

lemma grown_prims [grow]:
  "grown s0 k st \<Longrightarrow> emit i st = Some st' \<Longrightarrow> grown s0 k st'"
  "grown s0 k st \<Longrightarrow> terminate t st = Some st' \<Longrightarrow> grown s0 k st'"
  "grown s0 k st \<Longrightarrow> terminate_open t st = Some st' \<Longrightarrow> grown s0 k st'"
  "grown s0 k st \<Longrightarrow> emit_destroys xs st = Some st' \<Longrightarrow> grown s0 k st'"
  using frame_emit frame_terminate frame_terminate_open frame_destroys b_next_prims b_next_destroys
  unfolding grown_def by metis+

lemma grown_new: "grown s0 k st \<Longrightarrow> grown s0 (b_next st + j) (new_blocks j st)"
  by (auto simp: grown_def frame_new) (simp add: new_blocks_def)

lemma grown_new' [grow]: "grown s0 k st \<Longrightarrow> grown s0 k (new_blocks j st)"
  by (auto simp: grown_def frame_new) (simp add: new_blocks_def)

lemma grown_set: "grown s0 k st \<Longrightarrow> b_next s0 \<le> b \<Longrightarrow> b < k \<Longrightarrow> grown s0 k (SetInsertPoint b st)"
  by (auto simp: grown_def frame_set) (simp add: SetInsertPoint_def)

lemma grown_alloc [grow]: "grown s0 k st \<Longrightarrow> grown s0 k (st\<lparr>b_alloc := a\<rparr>)"
  by (auto simp: grown_def frame_alloc)

lemma grown_less: "grown s0 k st \<Longrightarrow> j \<le> k \<Longrightarrow> grown s0 j st"
  by (simp add: grown_def)

lemma grown_next: "grown s0 k st \<Longrightarrow> b_next s0 \<le> b_next st"
  by (simp add: grown_def frame_def)

lemma grown_max: "grown s0 k st \<Longrightarrow> grown s0 (b_next st) st"
  by (simp add: grown_def)

text \<open>A step of the generator that grows the function.\<close>

definition grows :: "('f bld \<Rightarrow> 'f bld option) \<Rightarrow> bool" where
  "grows F \<longleftrightarrow> (\<forall>s0 k st st'. grown s0 k st \<longrightarrow> F st = Some st' \<longrightarrow> grown s0 k st')"

definition grows_to :: "nat \<Rightarrow> ('f bld \<Rightarrow> 'f bld option) \<Rightarrow> bool" where
  "grows_to m F \<longleftrightarrow> (\<forall>s0 k st st'. grown s0 k st \<longrightarrow> b_next s0 \<le> m \<longrightarrow> m < k \<longrightarrow> F st = Some st' \<longrightarrow> grown s0 k st')"

lemma growsI: "(\<And>s0 k st st'. grown s0 k st \<Longrightarrow> F st = Some st' \<Longrightarrow> grown s0 k st') \<Longrightarrow> grows F"
  by (simp add: grows_def)

lemma growsD: "grows F \<Longrightarrow> grown s0 k st \<Longrightarrow> F st = Some st' \<Longrightarrow> grown s0 k st'"
  by (auto simp: grows_def)

lemma grows_toD: "grows_to m F \<Longrightarrow> grown s0 k st \<Longrightarrow> b_next s0 \<le> m \<Longrightarrow> m < k \<Longrightarrow> F st = Some st' \<Longrightarrow> grown s0 k st'"
  by (auto simp: grows_to_def)

lemma grows_emit: "grows (emit i)" "grows (terminate t)" "grows (terminate_open t)" "grows (emit_destroys xs)" "grows Some"
  unfolding grows_def by (intro allI impI, erule (1) grown_prims)+ simp

lemma grows_bind: "grows F \<Longrightarrow> grows H \<Longrightarrow> grows (\<lambda>st. Option.bind (F st) H)"
proof (rule growsI)
  fix s0 k st st'
  assume F: "grows F" and H: "grows H" and g: "grown s0 k st" and b: "Option.bind (F st) H = Some st'"
  from b obtain st1 where 1: "F st = Some st1" "H st1 = Some st'" by (auto simp: bind_eq_Some_conv)
  show "grown s0 k st'" by (rule growsD [OF H growsD [OF F g 1(1)] 1(2)])
qed

lemma grows_guard: "grows H \<Longrightarrow> grows (\<lambda>st. if terminated st then Some st else H st)"
  by (rule growsI, simp split: if_splits, erule (2) growsD)

lemma grows_call: "grows (GenerateCallOrInvoke scs f)"
proof -
  have "grown s0 k (SetInsertPoint (b_next st) st1)"
    if g: "grown s0 k st" and t: "terminate t (new_blocks 1 st) = Some st1" for s0 k and st st1 :: "'a bld" and t
  proof -
    have "grown s0 (b_next st + 1) st1" by (rule grown_prims(2) [OF grown_new [OF g] t])
    then have "grown s0 (b_next st + 1) (SetInsertPoint (b_next st) st1)"
      by (rule grown_set) (use grown_next [OF g] in simp_all)
    then show ?thesis by (rule grown_less) (use g in \<open>simp add: grown_def\<close>)
  qed
  then show ?thesis
    by (fastforce simp: grows_def GenerateCallOrInvoke_def split: option.splits dest: grown_prims(1))
qed

lemma grows_jump: "grows (jump n scs t)"
  unfolding jump_def EmitOwnedObjectDestructorsUntil_def by (intro grows_guard grows_bind grows_emit)

lemma grown_at:
  "grows F \<Longrightarrow> grown s0 k st \<Longrightarrow> b_next s0 \<le> b \<Longrightarrow> b < k \<Longrightarrow> F (SetInsertPoint b st) = Some st' \<Longrightarrow> grown s0 k st'"
  by (erule growsD) (rule grown_set)

lemma grows_store: "grows (gen_store P x e)"
  by (rule growsI) (auto simp: gen_store_def bind_eq_Some_conv dest: grown_prims(1))

lemma grown_pad: "grown s0 k st \<Longrightarrow> b_next s0 \<le> n \<Longrightarrow> n < k \<Longrightarrow> pad_block n t st = Some st' \<Longrightarrow> grown s0 k st'"
  by (rule grown_at [OF grows_bind [OF grows_emit(1) grows_emit(2)]]) (auto simp: pad_block_def)

lemma grows_end: "grows (block_end sc t)"
  unfolding block_end_def EmitOwnedObjectDestructors_def by (intro grows_guard grows_bind grows_emit)

text \<open>The states of the builder inside a block that unwinds.\<close>

lemma gen_block_unwind_steps:
  assumes "unwinds P b" "gen P scs loops fins (GBlock b) st = Some st'"
    and n: "n = b_next st" and sc: "sc = body_scope P b n"
  obtains st1 st2 st3 st4 st5 where
    "gen P (sc # scs) loops fins (GSeq (blk_stmts b)) (new_blocks 3 st) = Some st1"
    "block_end sc (TBr (n + 2)) st1 = Some st2"
    "pad_block n (TBr (n + 1)) st2 = Some st3"
    "EmitOwnedObjectDestructors sc (SetInsertPoint (n + 1) st3) = Some st4"
    "terminate (unwind_to (GetUnwindCleanupBB scs)) st4 = Some st5" "st' = SetInsertPoint (n + 2) st5"
  using assms(2) unfolding gen_block_unwind [OF assms(1)] Let_def n [symmetric] sc [symmetric] bind_eq_Some_conv
  by blast

lemma grows_branches:
  assumes "\<And>e b. (e, b) \<in> set brs \<Longrightarrow> grows (gen P scs loops fins (GBlock b))"
  shows "grows_to m (gen P scs loops fins (GBranches m brs))"
  using assms
proof (induction brs)
  case Nil
  then show ?case by (simp add: grows_to_def gen_branches grown_set)
next
  case (Cons eb brs)
  obtain e b where eb: "eb = (e, b)" by (cases eb)
  have IH: "grows_to m (gen P scs loops fins (GBranches m brs))" and b: "grows (gen P scs loops fins (GBlock b))"
    using Cons eb by auto
  show ?case unfolding grows_to_def
  proof (intro allI impI)
    fix s0 k st st'
    assume g: "grown s0 k st" and m: "b_next s0 \<le> m" "m < k" and r: "gen P scs loops fins (GBranches m (eb # brs)) st = Some st'"
    show "grown s0 k st'"
    proof (cases e)
      case None
      from r obtain st1 st2 where 1: "gen P scs loops fins (GBlock b) st = Some st1" "terminate_open (TBr m) st1 = Some st2"
        "gen P scs loops fins (GBranches m brs) st2 = Some st'"
        by (auto simp: eb None gen_branches bind_eq_Some_conv)
      have "grown s0 k st2" by (rule grown_prims(3) [OF growsD [OF b g 1(1)] 1(2)])
      from grows_toD [OF IH this m 1(3)] show ?thesis .
    next
      case (Some e)
      define j where "j = (if brs = [] then 1 else 2::nat)"
      from r obtain g' st1 st2 st3 where 1:
        "terminate (TCondBr g' (b_next st) (if brs = [] then m else Suc (b_next st))) (new_blocks j st) = Some st1"
        "gen P scs loops fins (GBlock b) (SetInsertPoint (b_next st) st1) = Some st2"
        "terminate_open (TBr m) st2 = Some st3"
        "gen P scs loops fins (GBranches m brs) (SetInsertPoint (if brs = [] then m else Suc (b_next st)) st3) = Some st'"
        by (auto simp: eb Some j_def gen_branches bind_eq_Some_conv simp del: One_nat_def)
      have n: "b_next s0 \<le> b_next st" "k \<le> b_next st" using g by (auto simp: grown_def frame_def)
      have "grown s0 (b_next st + j) st1" by (rule grown_prims(2) [OF grown_new [OF g] 1(1)])
      from grown_at [OF b this n(1) _ 1(2)] have "grown s0 (b_next st + j) st2" by (simp add: j_def)
      from grown_prims(3) [OF this 1(3)] have "grown s0 (b_next st + j) st3" .
      then have "grown s0 (b_next st + j) (SetInsertPoint (if brs = [] then m else Suc (b_next st)) st3)"
        by (rule grown_set) (use n m in \<open>auto simp: j_def\<close>)
      from grows_toD [OF IH this m(1) _ 1(4)] m n have "grown s0 (b_next st + j) st'" by simp
      then show ?thesis by (rule grown_less) (use n in simp)
    qed
  qed
qed

lemma grows_block:
  assumes "\<And>sc. grows (gen P (sc # scs) loops fins (GSeq (blk_stmts b)))"
  shows "grows (gen P scs loops fins (GBlock b))"
proof (rule growsI)
  fix s0 k st st'
  assume g: "grown s0 k st" and r: "gen P scs loops fins (GBlock b) st = Some st'"
  show "grown s0 k st'"
  proof (cases "unwinds P b")
    case False
    have "grows (\<lambda>st. Option.bind (gen P (body_scope P b 0 # scs) loops fins (GSeq (blk_stmts b)) st) (\<lambda>st1.
       if terminated st1 then Some st1 else EmitOwnedObjectDestructors (body_scope P b 0) st1))"
      unfolding EmitOwnedObjectDestructors_def by (intro grows_bind grows_guard grows_emit assms)
    from growsD [OF this g] show ?thesis
      using r by (simp only: gen_block_plain [OF False, where n = 0])
  next
    case True
    define n where "n = b_next st"
    define sc where "sc = body_scope P b n"
    have ds: "grows (EmitOwnedObjectDestructors sc)" unfolding EmitOwnedObjectDestructors_def by (rule grows_emit)
    from gen_block_unwind_steps [OF True r n_def sc_def] obtain st1 st2 st3 st4 st5 where 1:
      "gen P (sc # scs) loops fins (GSeq (blk_stmts b)) (new_blocks 3 st) = Some st1"
      "block_end sc (TBr (n + 2)) st1 = Some st2"
      "pad_block n (TBr (n + 1)) st2 = Some st3"
      "EmitOwnedObjectDestructors sc (SetInsertPoint (n + 1) st3) = Some st4"
      "terminate (unwind_to (GetUnwindCleanupBB scs)) st4 = Some st5" "st' = SetInsertPoint (n + 2) st5" .
    have n: "b_next s0 \<le> n" "k \<le> n" using g by (auto simp: grown_def frame_def n_def)
    have 2: "grown s0 (n + 3) st1" unfolding n_def by (rule growsD [OF assms grown_new [OF g] 1(1)])
    have 3: "grown s0 (n + 3) st2" by (rule growsD [OF grows_end 2 1(2)])
    have 4: "grown s0 (n + 3) st3" by (rule grown_pad [OF 3 n(1) _ 1(3)]) simp
    have 5: "grown s0 (n + 3) st4" by (rule grown_at [OF ds 4 _ _ 1(4)]) (use n in simp_all)
    have "grown s0 (n + 3) (SetInsertPoint (n + 2) st5)"
      by (rule grown_set [OF grown_prims(2) [OF 5 1(5)]]) (use n in simp_all)
    then show ?thesis unfolding 1(6) by (rule grown_less) (use n in simp)
  qed
qed

lemma gen_while_steps:
  assumes "gen P scs loops fins (GStmt (OStmtWhile e b)) st = Some st'" and n: "n = b_next st"
  obtains g st1 st2 st3 st4 where
    "gen_cond P e = Some g" "terminate (TBr n) (new_blocks 3 st) = Some st1"
    "terminate (TCondBr g (n + 1) (n + 2)) (SetInsertPoint n st1) = Some st2"
    "gen P scs (while_ctx n scs # loops) fins (GBlock b) (SetInsertPoint (n + 1) st2) = Some st3"
    "terminate_open (TBr n) st3 = Some st4" "st' = SetInsertPoint (n + 2) st4"
  using assms(1) unfolding gen_while Let_def n [symmetric] bind_eq_Some_conv by blast

text \<open>A \<open>for\<close> loop from the end of its initialization.\<close>

definition for_rest :: "'f opts \<Rightarrow> scopes \<Rightarrow> loopctx list \<Rightarrow> 'f fins \<Rightarrow> 'f block \<Rightarrow> 'f expr \<Rightarrow> 'f block \<Rightarrow> 'f block \<Rightarrow> 'f bld \<Rightarrow> 'f bld option" where
  "for_rest P scs loops fins i e b stp st0 =
     (let n = b_next st0 in
      Option.bind (terminate (TBr n) (new_blocks 4 st0)) (\<lambda>st1.
      Option.bind (gen_cond P e) (\<lambda>g.
      Option.bind (terminate (TCondBr g (n + 1) (n + 3)) (SetInsertPoint n st1)) (\<lambda>st2.
      Option.bind (gen P (init_scope i # scs) (for_ctx n scs # loops) fins (GBlock b) (SetInsertPoint (n + 1) st2)) (\<lambda>st3.
      Option.bind (terminate_open (TBr (n + 2)) st3) (\<lambda>st4.
      Option.bind (gen P (init_scope i # scs) (for_ctx n scs # loops) fins (GBlock stp) (SetInsertPoint (n + 2) st4)) (\<lambda>st5.
      Option.bind (terminate_open (TBr n) st5) (\<lambda>st6. Some (SetInsertPoint (n + 3) st6)))))))))"

lemma gen_for_rest:
  "gen P scs loops fins (GStmt (OStmtFor i e b stp)) st =
     Option.bind (gen P scs loops fins (GBlock i) st) (\<lambda>st0.
      if terminated st0 then Some st0 else for_rest P scs loops fins i e b stp st0)"
  unfolding for_rest_def by (rule gen_for)

lemma for_rest_steps:
  assumes "for_rest P scs loops fins i e b stp st = Some st'" and n: "n = b_next st"
  obtains g st1 st2 st3 st4 st5 st6 where
    "gen_cond P e = Some g" "terminate (TBr n) (new_blocks 4 st) = Some st1"
    "terminate (TCondBr g (n + 1) (n + 3)) (SetInsertPoint n st1) = Some st2"
    "gen P (init_scope i # scs) (for_ctx n scs # loops) fins (GBlock b) (SetInsertPoint (n + 1) st2) = Some st3"
    "terminate_open (TBr (n + 2)) st3 = Some st4"
    "gen P (init_scope i # scs) (for_ctx n scs # loops) fins (GBlock stp) (SetInsertPoint (n + 2) st4) = Some st5"
    "terminate_open (TBr n) st5 = Some st6" "st' = SetInsertPoint (n + 3) st6"
  using assms(1) unfolding for_rest_def Let_def n [symmetric] bind_eq_Some_conv by blast

lemma gen_try_steps:
  assumes "gen P (sc # scs) loops fins (GStmt (OStmtTry b f)) st = Some st'" and n: "n = b_next st"
  obtains st1 st2 st3 st4 st5 st6 st7 st8 where
    "gen P (try_scope n sc # scs) loops ((Suc (length scs), f) # fins) (GBlock b) (new_blocks 5 st) = Some st1"
    "terminate_open (TBr (n + 2)) st1 = Some st2"
    "pad_block n (TBr (n + 1)) st2 = Some st3"
    "gen P (sc # scs) loops fins (GBlock f) (SetInsertPoint (n + 1) st3) = Some st4"
    "terminate_open (unwind_to (sc_cleanup sc)) st4 = Some st5"
    "terminate (TBr (n + 3)) (SetInsertPoint (n + 2) st5) = Some st6"
    "gen P (sc # scs) loops fins (GBlock f) (SetInsertPoint (n + 3) st6) = Some st7"
    "terminate_open (TBr (n + 4)) st7 = Some st8" "st' = SetInsertPoint (n + 4) st8"
  using assms(1) unfolding gen_try Let_def n [symmetric] bind_eq_Some_conv by blast

lemma grows_while:
  assumes "\<And>l. grows (gen P scs (l # loops) fins (GBlock b))"
  shows "grows (gen P scs loops fins (GStmt (OStmtWhile e b)))"
proof (rule growsI)
  fix s0 k st st'
  assume g: "grown s0 k st" and r: "gen P scs loops fins (GStmt (OStmtWhile e b)) st = Some st'"
  define n where "n = b_next st"
  from gen_while_steps [OF r n_def] obtain g' st1 st2 st3 st4 where 1:
    "gen_cond P e = Some g'" "terminate (TBr n) (new_blocks 3 st) = Some st1"
    "terminate (TCondBr g' (n + 1) (n + 2)) (SetInsertPoint n st1) = Some st2"
    "gen P scs (while_ctx n scs # loops) fins (GBlock b) (SetInsertPoint (n + 1) st2) = Some st3"
    "terminate_open (TBr n) st3 = Some st4" "st' = SetInsertPoint (n + 2) st4" .
  have n: "b_next s0 \<le> n" "k \<le> n" using g by (auto simp: grown_def frame_def n_def)
  have 2: "grown s0 (n + 3) st1" unfolding n_def by (rule grown_prims(2) [OF grown_new [OF g]]) (use 1(2) n_def in simp)
  have 3: "grown s0 (n + 3) st2" by (rule grown_at [OF grows_emit(2) 2 n(1) _ 1(3)]) simp
  have 4: "grown s0 (n + 3) st3" by (rule grown_at [OF assms 3 _ _ 1(4)]) (use n in simp_all)
  have "grown s0 (n + 3) (SetInsertPoint (n + 2) st4)"
    by (rule grown_set [OF grown_prims(3) [OF 4 1(5)]]) (use n in simp_all)
  then show "grown s0 k st'" unfolding 1(6) by (rule grown_less) (use n in simp)
qed

lemma grows_for_rest:
  assumes b: "\<And>sc l. grows (gen P (sc # scs) (l # loops) fins (GBlock b))"
    and s: "\<And>sc l. grows (gen P (sc # scs) (l # loops) fins (GBlock stp))"
  shows "grows (for_rest P scs loops fins i e b stp)"
proof (rule growsI)
  fix s0 k st st'
  assume g: "grown s0 k st" and r: "for_rest P scs loops fins i e b stp st = Some st'"
  define n where "n = b_next st"
  from for_rest_steps [OF r n_def] obtain g' st1 st2 st3 st4 st5 st6 where 1:
    "gen_cond P e = Some g'" "terminate (TBr n) (new_blocks 4 st) = Some st1"
    "terminate (TCondBr g' (n + 1) (n + 3)) (SetInsertPoint n st1) = Some st2"
    "gen P (init_scope i # scs) (for_ctx n scs # loops) fins (GBlock b) (SetInsertPoint (n + 1) st2) = Some st3"
    "terminate_open (TBr (n + 2)) st3 = Some st4"
    "gen P (init_scope i # scs) (for_ctx n scs # loops) fins (GBlock stp) (SetInsertPoint (n + 2) st4) = Some st5"
    "terminate_open (TBr n) st5 = Some st6" "st' = SetInsertPoint (n + 3) st6" .
  have n: "b_next s0 \<le> n" "k \<le> n" using g by (auto simp: grown_def frame_def n_def)
  have 2: "grown s0 (n + 4) st1" unfolding n_def by (rule grown_prims(2) [OF grown_new [OF g]]) (use 1(2) n_def in simp)
  have 3: "grown s0 (n + 4) st2" by (rule grown_at [OF grows_emit(2) 2 n(1) _ 1(3)]) simp
  have 4: "grown s0 (n + 4) st3" by (rule grown_at [OF b 3 _ _ 1(4)]) (use n in simp_all)
  have 5: "grown s0 (n + 4) st5" by (rule grown_at [OF s grown_prims(3) [OF 4 1(5)] _ _ 1(6)]) (use n in simp_all)
  have "grown s0 (n + 4) (SetInsertPoint (n + 3) st6)"
    by (rule grown_set [OF grown_prims(3) [OF 5 1(7)]]) (use n in simp_all)
  then show "grown s0 k st'" unfolding 1(8) by (rule grown_less) (use n in simp)
qed

lemma grows_for:
  assumes "grows (gen P scs loops fins (GBlock i))"
    and "\<And>sc l. grows (gen P (sc # scs) (l # loops) fins (GBlock b))"
    and "\<And>sc l. grows (gen P (sc # scs) (l # loops) fins (GBlock stp))"
  shows "grows (gen P scs loops fins (GStmt (OStmtFor i e b stp)))"
  unfolding gen_for_rest by (intro grows_bind grows_guard grows_for_rest assms)

lemma grows_try:
  assumes b: "\<And>sc. grows (gen P (sc # scs) loops ((Suc (length scs), f) # fins) (GBlock b))"
    and f: "grows (gen P (sc # scs) loops fins (GBlock f))"
  shows "grows (gen P (sc # scs) loops fins (GStmt (OStmtTry b f)))"
proof (rule growsI)
  fix s0 k st st'
  assume g: "grown s0 k st" and r: "gen P (sc # scs) loops fins (GStmt (OStmtTry b f)) st = Some st'"
  define n where "n = b_next st"
  from gen_try_steps [OF r n_def] obtain st1 st2 st3 st4 st5 st6 st7 st8 where 1:
    "gen P (try_scope n sc # scs) loops ((Suc (length scs), f) # fins) (GBlock b) (new_blocks 5 st) = Some st1"
    "terminate_open (TBr (n + 2)) st1 = Some st2" "pad_block n (TBr (n + 1)) st2 = Some st3"
    "gen P (sc # scs) loops fins (GBlock f) (SetInsertPoint (n + 1) st3) = Some st4"
    "terminate_open (unwind_to (sc_cleanup sc)) st4 = Some st5"
    "terminate (TBr (n + 3)) (SetInsertPoint (n + 2) st5) = Some st6"
    "gen P (sc # scs) loops fins (GBlock f) (SetInsertPoint (n + 3) st6) = Some st7"
    "terminate_open (TBr (n + 4)) st7 = Some st8" "st' = SetInsertPoint (n + 4) st8" .
  have n: "b_next s0 \<le> n" "k \<le> n" using g by (auto simp: grown_def frame_def n_def)
  have 2: "grown s0 (n + 5) st1" unfolding n_def by (rule growsD [OF b grown_new [OF g]]) (use 1(1) n_def in simp)
  have 3: "grown s0 (n + 5) st3" by (rule grown_pad [OF grown_prims(3) [OF 2 1(2)] n(1) _ 1(3)]) simp
  have 4: "grown s0 (n + 5) st4" by (rule grown_at [OF f 3 _ _ 1(4)]) (use n in simp_all)
  have 5: "grown s0 (n + 5) st6" by (rule grown_at [OF grows_emit(2) grown_prims(3) [OF 4 1(5)] _ _ 1(6)]) (use n in simp_all)
  have 6: "grown s0 (n + 5) st7" by (rule grown_at [OF f 5 _ _ 1(7)]) (use n in simp_all)
  have "grown s0 (n + 5) (SetInsertPoint (n + 4) st8)"
    by (rule grown_set [OF grown_prims(3) [OF 6 1(8)]]) (use n in simp_all)
  then show "grown s0 k st'" unfolding 1(9) by (rule grown_less) (use n in simp)
qed

text \<open>Code is generated by recursion on this measure.\<close>

definition gmeasure :: "'f fins \<Rightarrow> 'f gcode \<Rightarrow> nat" where
  "gmeasure fins c = gsize c + (\<Sum>(d, f) \<leftarrow> fins. 2 * size f + 1)"

lemma gmeasure_active: "gmeasure rest (GBlock f) < gmeasure ((d, f) # rest) EmitActiveFinallyBlocks"
  "gmeasure rest EmitActiveFinallyBlocks < gmeasure ((d, f) # rest) EmitActiveFinallyBlocks"
  by (simp_all add: gmeasure_def)

lemma gmeasure_seq: "gmeasure fins (GStmt c) < gmeasure fins (GSeq (c # cs))"
  "gmeasure fins (GSeq cs) < gmeasure fins (GSeq (c # cs))"
  by (simp_all add: gmeasure_def)

lemma gmeasure_block: "gmeasure fins (GSeq (blk_stmts b)) < gmeasure fins (GBlock b)"
  by (cases b) (simp add: gmeasure_def)

lemma gmeasure_branch: "(e, b) \<in> set brs \<Longrightarrow> gmeasure fins (GBlock b) < gmeasure fins (GBranches m brs)"
  by (induction brs) (auto simp: gmeasure_def)

lemma gmeasure_stmt:
  "gmeasure fins EmitActiveFinallyBlocks < gmeasure fins (GStmt c)"
  "gmeasure fins (GBranches m brs) < gmeasure fins (GStmt (OStmtIf brs))"
  "gmeasure fins (GBlock b) < gmeasure fins (GStmt (OStmtWhile e b))"
  "gmeasure fins (GBlock i) < gmeasure fins (GStmt (OStmtFor i e b stp))"
  "gmeasure fins (GBlock b) < gmeasure fins (GStmt (OStmtFor i e b stp))"
  "gmeasure fins (GBlock stp) < gmeasure fins (GStmt (OStmtFor i e b stp))"
  "gmeasure ((d, f) # fins) (GBlock b) < gmeasure fins (GStmt (OStmtTry b f))"
  "gmeasure fins (GBlock f) < gmeasure fins (GStmt (OStmtTry b f))"
  by (simp_all add: gmeasure_def)

lemma grows_stmt:
  assumes IH: "\<And>scs loops fins' c'. gmeasure fins' c' < gmeasure fins (GStmt c) \<Longrightarrow> (\<forall>m brs. c' \<noteq> GBranches m brs) \<Longrightarrow>
      grows (gen P scs loops fins' c')"
  shows "grows (gen P scs loops fins (GStmt c))"
proof (cases c)
  case (OStmtVarDecl x ty e)
  show ?thesis unfolding OStmtVarDecl
    by (cases e) (simp_all add: grows_def gen_simple growsD [OF grows_store])
next
  case (OStmtVarManaged x)
  show ?thesis unfolding OStmtVarManaged
    by (rule growsI) (auto simp: gen_simple intro: grown_prims(1) grown_alloc)
next
  case (OStmtAssign x ty e)
  show ?thesis unfolding OStmtAssign by (rule growsI) (simp add: gen_simple growsD [OF grows_store])
next
  case (OStmtModifyAssign x ty op e)
  show ?thesis unfolding OStmtModifyAssign
    by (rule growsI) (auto simp: gen_simple bind_eq_Some_conv intro: grown_prims(1))
next
  case (OStmtVoidCall f)
  show ?thesis unfolding OStmtVoidCall by (rule growsI) (simp add: gen_simple growsD [OF grows_call])
next
  case (OStmtReturn e)
  have a: "grows (\<lambda>st. Option.bind (active P scs loops fins st) (jump (length scs) scs TRet))"
    by (intro grows_bind grows_jump IH) (simp_all add: OStmtReturn gmeasure_stmt)
  have "grows (\<lambda>st. case e of None \<Rightarrow> Some st | Some e \<Rightarrow> if o_result P then gen_store P ''result'' e st else None)"
    by (cases e) (simp_all add: grows_def growsD [OF grows_store])
  from grows_bind [OF this a] show ?thesis unfolding OStmtReturn gen_jumps .
next
  case OBreakStmt
  show ?thesis
  proof (cases loops)
    case Nil
    then show ?thesis by (simp add: OBreakStmt grows_def gen_jumps)
  next
    case (Cons l ls)
    show ?thesis unfolding OBreakStmt Cons gen_jumps
      by (intro grows_bind grows_jump IH) (simp_all add: OBreakStmt gmeasure_stmt)
  qed
next
  case OContinueStmt
  show ?thesis
  proof (cases loops)
    case Nil
    then show ?thesis by (simp add: OContinueStmt grows_def gen_jumps)
  next
    case (Cons l ls)
    show ?thesis unfolding OContinueStmt Cons gen_jumps
      by (intro grows_bind grows_jump IH) (simp_all add: OContinueStmt gmeasure_stmt)
  qed
next
  case (OStmtWhile e b)
  show ?thesis unfolding OStmtWhile by (intro grows_while IH) (simp_all add: OStmtWhile gmeasure_stmt)
next
  case (OStmtFor i e b stp)
  show ?thesis unfolding OStmtFor by (intro grows_for IH) (simp_all add: OStmtFor gmeasure_stmt)
next
  case (OStmtIf brs)
  have br: "grows_to m (gen P scs loops fins (GBranches m brs))" for m
    by (rule grows_branches, rule IH)
      (auto simp: OStmtIf intro: less_trans [OF gmeasure_branch gmeasure_stmt(2)])
  show ?thesis unfolding OStmtIf
  proof (rule growsI)
    fix s0 k st st'
    assume g: "grown s0 k st" and r: "gen P scs loops fins (GStmt (OStmtIf brs)) st = Some st'"
    have "grown s0 (b_next st + 1) st'"
      by (rule grows_toD [OF br grown_new [OF g] grown_next [OF g]]) (use r in \<open>simp_all add: gen_if\<close>)
    then show "grown s0 k st'" by (rule grown_less) (use g in \<open>simp add: grown_def\<close>)
  qed
next
  case (OStmtTry b f)
  show ?thesis
  proof (cases scs)
    case Nil
    then show ?thesis by (simp add: OStmtTry grows_def gen_try)
  next
    case (Cons sc outer)
    show ?thesis unfolding OStmtTry Cons by (intro grows_try IH) (simp_all add: OStmtTry gmeasure_stmt)
  qed
qed

lemma gen_grows_all: "(\<forall>m brs. c \<noteq> GBranches m brs) \<Longrightarrow> grows (gen P scs loops fins c)"
proof (induction "gmeasure fins c" arbitrary: fins c scs loops rule: less_induct)
  case less
  show ?case
  proof (cases c)
    case (GStmt s)
    then show ?thesis by (simp add: grows_stmt less(1))
  next
    case (GSeq cs)
    show ?thesis
    proof (cases cs)
      case Nil
      then show ?thesis by (simp add: GSeq grows_def gen_seq)
    next
      case (Cons s cs')
      show ?thesis unfolding GSeq Cons gen_seq
        by (intro grows_bind grows_guard less(1)) (simp_all add: GSeq Cons gmeasure_seq)
    qed
  next
    case (GBlock b)
    show ?thesis unfolding GBlock by (intro grows_block less(1)) (simp_all add: GBlock gmeasure_block)
  next
    case (GBranches m brs)
    with less(2) show ?thesis by simp
  next
    case EmitActiveFinallyBlocks
    show ?thesis
    proof (cases fins)
      case Nil
      then show ?thesis by (simp add: EmitActiveFinallyBlocks grows_def gen_active)
    next
      case (Cons df rest)
      obtain d f where df: "df = (d, f)" by (cases df)
      show ?thesis unfolding EmitActiveFinallyBlocks Cons df gen_active
        by (intro grows_bind grows_guard less(1)) (simp_all add: EmitActiveFinallyBlocks Cons df gmeasure_active)
    qed
  qed
qed

lemma gen_grows:
  "grows (gen P scs loops fins (GStmt c))" "grows (gen P scs loops fins (GSeq cs))"
  "grows (gen P scs loops fins (GBlock b))" "grows (active P scs loops fins)"
  "grows_to m (gen P scs loops fins (GBranches m brs))"
  by (simp_all add: gen_grows_all grows_branches)

lemma gen_frame:
  "gen P scs loops fins c st = Some st' \<Longrightarrow> (\<forall>m brs. c \<noteq> GBranches m brs) \<Longrightarrow> wfb st \<Longrightarrow> frame st st'"
  using growsD [OF gen_grows_all grown_refl] unfolding grown_def by blast

end
