(* ===== verification/Stmt_Cfg.thy ===== *)
theory Stmt_Cfg
  imports Stmt_Frame
begin

text \<open>
  What generated code does: the steps of a function's blocks, and the steps that each primitive of the
  builder adds to the finished function.
\<close>

section \<open>Running a function\<close>

datatype config = At nat nat mem "event list" | Done mem "event list" | Unwound mem "event list"

definition cstep :: "'f rt \<Rightarrow> 'f bld \<Rightarrow> config \<Rightarrow> config option" where
  "cstep R G cfg =
     (case cfg of
        At b i env tr \<Rightarrow>
          if i < length (b_code G b) then
            (case b_code G b ! i of
               IStore x g \<Rightarrow> map_option (\<lambda>(_, v). At b (Suc i) (env(x := v)) tr) (ll_eval (r_sem R) env g)
             | IZero x \<Rightarrow> Some (At b (Suc i) (env(x := 0)) tr)
             | INull x \<Rightarrow> Some (At b (Suc i) env (tr @ [EvInit x]))
             | ICall f \<Rightarrow>
                 (case r_call R f env of (raised, env') \<Rightarrow>
                    Some (if raised then Unwound env' (tr @ [EvCall f]) else At b (Suc i) env' (tr @ [EvCall f])))
             | IDestroy x \<Rightarrow> Some (At b (Suc i) env (tr @ [EvDestroy x]))
             | ILandingPad \<Rightarrow> Some (At b (Suc i) env tr))
          else
            (case b_term G b of
               None \<Rightarrow> None
             | Some (TBr t) \<Rightarrow> Some (At t 0 env tr)
             | Some (TCondBr g t e) \<Rightarrow> map_option (\<lambda>(_, v). At (if v \<noteq> 0 then t else e) 0 env tr) (ll_eval (r_sem R) env g)
             | Some (TInvoke f t l) \<Rightarrow>
                 (case r_call R f env of (raised, env') \<Rightarrow> Some (At (if raised then l else t) 0 env' (tr @ [EvCall f])))
             | Some TRet \<Rightarrow> Some (Done env tr)
             | Some TResume \<Rightarrow> Some (Unwound env tr))
      | _ \<Rightarrow> None)"

text \<open>A run stops in a configuration that has no next one, or when the fuel is used.\<close>

primrec crun :: "nat \<Rightarrow> 'f rt \<Rightarrow> 'f bld \<Rightarrow> config \<Rightarrow> config" where
  "crun 0 R G cfg = cfg"
| "crun (Suc n) R G cfg = (case cstep R G cfg of None \<Rightarrow> cfg | Some cfg' \<Rightarrow> crun n R G cfg')"

definition reach :: "'f rt \<Rightarrow> 'f bld \<Rightarrow> config \<Rightarrow> config \<Rightarrow> bool" where
  "reach R G = (\<lambda>a b. cstep R G a = Some b)\<^sup>*\<^sup>*"

lemma reach_refl [simp]: "reach R G a a"
  by (simp add: reach_def)

lemma reach_trans [trans]: "reach R G a b \<Longrightarrow> reach R G b c \<Longrightarrow> reach R G a c"
  unfolding reach_def by (rule rtranclp_trans)

lemma reach_step: "cstep R G a = Some b \<Longrightarrow> reach R G a b"
  by (auto simp: reach_def)

lemma reach_first: "cstep R G a = Some b \<Longrightarrow> reach R G b c \<Longrightarrow> reach R G a c"
  by (rule reach_trans [OF reach_step])

lemma reach_crun: "reach R G a b \<Longrightarrow> \<exists>n. crun n R G a = b"
  unfolding reach_def
proof (induction rule: converse_rtranclp_induct)
  case base
  show ?case by (rule exI [of _ 0]) simp
next
  case (step a c)
  then obtain n where "crun n R G c = b" by blast
  with step(1) have "crun (Suc n) R G a = b" by simp
  then show ?case by blast
qed

lemma crun_stuck: "cstep R G a = None \<Longrightarrow> crun n R G a = a"
  by (cases n) simp_all

lemma crun_add: "crun (m + n) R G a = crun n R G (crun m R G a)"
  by (induction m arbitrary: a) (auto simp: crun_stuck split: option.splits)

section \<open>The finished function extends its parts\<close>

definition ext :: "'f bld \<Rightarrow> 'f bld \<Rightarrow> bool" where
  "ext G st \<longleftrightarrow> (\<forall>b. (b_term st b \<noteq> None \<longrightarrow> same_block st G b) \<and> prefix (b_code st b) (b_code G b))"

lemma ext_refl [simp]: "ext st st"
  by (simp add: ext_def same_block_def)

lemma ext_trans: "ext G st' \<Longrightarrow> ext st' st \<Longrightarrow> ext G st"
  unfolding ext_def same_block_def by (metis prefix_order.trans)

lemma ext_prims:
  "emit i st = Some st' \<Longrightarrow> ext st' st" "terminate t st = Some st' \<Longrightarrow> ext st' st"
  "terminate_open t st = Some st' \<Longrightarrow> ext st' st"
  by (auto simp: ext_def emit_def terminate_def terminate_open_def terminated_def same_block_def split: if_splits)

lemma ext_set [simp]: "ext (SetInsertPoint b st) st" "ext G (SetInsertPoint b st) = ext G st"
  by (simp_all add: ext_def same_block_def SetInsertPoint_def)

lemma ext_new [simp]: "ext (new_blocks k st) st" "ext G (new_blocks k st) = ext G st"
  by (simp_all add: ext_def same_block_def new_blocks_def)

lemma ext_alloc [simp]: "ext G (st\<lparr>b_alloc := a\<rparr>) = ext G st"
  by (simp add: ext_def same_block_def)

lemma ext_frame: "frame st st' \<Longrightarrow> wfb st \<Longrightarrow> ext st' st"
  unfolding ext_def frame_def wfb_def same_block_def
  by (metis linorder_not_less prefix_order.refl Nil_prefix)

text \<open>The configuration at the insert point, and at the start of a block.\<close>

definition here :: "'f bld \<Rightarrow> sst \<Rightarrow> config" where
  "here st s = At (b_cur st) (length (b_code st (b_cur st))) (s_env s) (s_trace s)"

definition start_of :: "nat \<Rightarrow> sst \<Rightarrow> config" where
  "start_of b s = At b 0 (s_env s) (s_trace s)"

lemma here_prims [simp]: "here (new_blocks k st) s = here st s" "here (st\<lparr>b_alloc := a\<rparr>) s = here st s"
  by (simp_all add: here_def new_blocks_def)

lemma here_start: "b_code st b = [] \<Longrightarrow> here (SetInsertPoint b st) s = start_of b s"
  by (simp add: here_def start_of_def SetInsertPoint_def)

lemma emit_at:
  assumes "emit i st = Some st'" "ext G st'"
  shows "length (b_code st (b_cur st)) < length (b_code G (b_cur st))"
    and "b_code G (b_cur st) ! length (b_code st (b_cur st)) = i"
    and "here st' s = At (b_cur st) (Suc (length (b_code st (b_cur st)))) (s_env s) (s_trace s)"
proof -
  let ?b = "b_cur st"
  have "prefix (b_code st ?b @ [i]) (b_code G ?b)"
    using assms unfolding ext_def by (auto simp: emit_def split: if_splits dest: spec [of _ ?b])
  then show "length (b_code st ?b) < length (b_code G ?b)" "b_code G ?b ! length (b_code st ?b) = i"
    by (auto simp: prefix_def nth_append)
  show "here st' s = At ?b (Suc (length (b_code st ?b))) (s_env s) (s_trace s)"
    using assms(1) by (auto simp: here_def emit_def split: if_splits)
qed

lemma terminate_at:
  assumes "terminate t st = Some st'" "ext G st'"
  shows "b_code G (b_cur st) = b_code st (b_cur st)" "b_term G (b_cur st) = Some t"
proof -
  have "b_term st' (b_cur st) = Some t" "b_code st' (b_cur st) = b_code st (b_cur st)"
    using assms(1) by (auto simp: terminate_def split: if_splits)
  moreover from assms(2) this(1) have "same_block st' G (b_cur st)" unfolding ext_def by blast
  ultimately show "b_code G (b_cur st) = b_code st (b_cur st)" "b_term G (b_cur st) = Some t"
    by (simp_all add: same_block_def)
qed

lemma terminate_cstep:
  assumes "terminate t st = Some st'" "ext G st'"
  shows "cstep R G (here st s) =
    (case t of
       TBr b \<Rightarrow> Some (start_of b s)
     | TCondBr g b e \<Rightarrow> map_option (\<lambda>(_, v). start_of (if v \<noteq> 0 then b else e) s) (ll_eval (r_sem R) (s_env s) g)
     | TInvoke f b l \<Rightarrow>
         (case r_call R f (s_env s) of (raised, env') \<Rightarrow>
            Some (start_of (if raised then l else b) (s\<lparr>s_env := env', s_trace := s_trace s @ [EvCall f]\<rparr>)))
     | TRet \<Rightarrow> Some (Done (s_env s) (s_trace s))
     | TResume \<Rightarrow> Some (Unwound (s_env s) (s_trace s)))"
  using terminate_at [OF assms] by (simp add: cstep_def here_def start_of_def split: bterm.split prod.split)

lemma terminate_br: "terminate (TBr b) st = Some st' \<Longrightarrow> ext G st' \<Longrightarrow> reach R G (here st s) (start_of b s)"
  by (rule reach_step) (simp add: terminate_cstep)

lemma terminate_open_br:
  "terminate_open (TBr b) st = Some st' \<Longrightarrow> \<not> terminated st \<Longrightarrow> ext G st' \<Longrightarrow> reach R G (here st s) (start_of b s)"
  by (simp add: terminate_open_def terminate_br)

lemma terminate_unwind:
  "terminate (unwind_to c) st = Some st' \<Longrightarrow> ext G st' \<Longrightarrow>
     reach R G (here st s) (case c of Some b \<Rightarrow> start_of b s | None \<Rightarrow> Unwound (s_env s) (s_trace s))"
  by (rule reach_step) (simp add: terminate_cstep unwind_to_def split: option.split)

text \<open>Destruction of the objects that exist at compile time.\<close>

definition destroyed :: "string list \<Rightarrow> sst \<Rightarrow> sst" where
  "destroyed xs s = s\<lparr>s_trace := s_trace s @ map EvDestroy xs\<rparr>"

lemma destroyed_simps [simp]: "destroyed [] s = s" "s_env (destroyed xs s) = s_env s"
  by (simp_all add: destroyed_def)

lemma b_alloc_prims [simp]:
  "emit i st = Some st' \<Longrightarrow> b_alloc st' = b_alloc st" "terminate t st = Some st' \<Longrightarrow> b_alloc st' = b_alloc st"
  "terminate_open t st = Some st' \<Longrightarrow> b_alloc st' = b_alloc st"
  "b_alloc (SetInsertPoint b st) = b_alloc st" "b_alloc (new_blocks k st) = b_alloc st"
  by (auto simp: emit_def terminate_def terminate_open_def SetInsertPoint_def new_blocks_def split: if_splits)

lemma b_alloc_destroys: "emit_destroys xs st = Some st' \<Longrightarrow> b_alloc st' = b_alloc st"
  by (induction xs arbitrary: st) (auto simp: bind_eq_Some_conv split: if_splits)

lemma ext_destroys: "emit_destroys xs st = Some st' \<Longrightarrow> ext st' st"
proof (induction xs arbitrary: st)
  case (Cons x xs)
  then obtain st1 where "ext st1 st" "emit_destroys xs st1 = Some st'"
    by (auto simp: bind_eq_Some_conv split: if_splits intro: ext_prims(1) ext_refl)
  with Cons.IH show ?case by (blast intro: ext_trans)
qed simp

lemma destroys_reach:
  "emit_destroys xs st = Some st' \<Longrightarrow> ext G st' \<Longrightarrow>
     reach R G (here st s) (here st' (destroyed (filter (\<lambda>x. x \<in> set (b_alloc st)) xs) s))"
proof (induction xs arbitrary: st s)
  case (Cons x xs)
  show ?case
  proof (cases "x \<in> set (b_alloc st)")
    case False
    with Cons show ?thesis by (simp add: bind_eq_Some_conv)
  next
    case True
    with Cons(2) obtain st1 where 1: "emit (IDestroy x) st = Some st1" "emit_destroys xs st1 = Some st'"
      by (auto simp: bind_eq_Some_conv)
    have e: "ext G st1" using ext_trans [OF Cons(3) ext_destroys [OF 1(2)]] .
    have f: "cstep R G (here st s) = Some (here st1 (destroyed [x] s))"
      using emit_at(1,2) [OF 1(1) e] unfolding emit_at(3) [OF 1(1) e] by (simp add: cstep_def here_def destroyed_def)
    have "reach R G (here st1 (destroyed [x] s))
        (here st' (destroyed (filter (\<lambda>x. x \<in> set (b_alloc st1)) xs) (destroyed [x] s)))"
      by (rule Cons.IH [OF 1(2) Cons(3)])
    from reach_first [OF f this] show ?thesis using True 1(1) by (simp add: destroyed_def)
  qed
qed simp

end
