(* ===== verification/Stmt_Ok.thy ===== *)
theory Stmt_Ok
  imports Stmt_Cfg
begin

text \<open>
  The programs whose code does what the language says: a static condition on statements, computed from
  the statement tree, and facts about execution that do not depend on the generated code.
\<close>

section \<open>Managed variables\<close>

fun managed :: "'f stmt list \<Rightarrow> string list" where
  "managed [] = []"
| "managed (OStmtVarManaged x # cs) = x # managed cs"
| "managed (_ # cs) = managed cs"

lemma managed_append: "managed (c # cs) = managed [c] @ managed cs"
  by (cases c) simp_all

text \<open>All the managed variables of a statement, its blocks included.\<close>

fun names_stmt :: "'f stmt \<Rightarrow> string list"
  and names_seq :: "'f stmt list \<Rightarrow> string list"
  and names_block :: "'f block \<Rightarrow> string list"
  and names_branches :: "('f expr option \<times> 'f block) list \<Rightarrow> string list" where
  "names_stmt (OStmtVarManaged x) = [x]"
| "names_stmt (OStmtWhile e b) = names_block b"
| "names_stmt (OStmtFor i e b stp) = names_block i @ names_block b @ names_block stp"
| "names_stmt (OStmtIf brs) = names_branches brs"
| "names_stmt (OStmtTry b f) = names_block b @ names_block f"
| "names_stmt _ = []"
| "names_seq [] = []"
| "names_seq (c # cs) = names_stmt c @ names_seq cs"
| "names_block (OStmtBlock owned cs) = names_seq cs"
| "names_branches [] = []"
| "names_branches ((e, b) # brs) = names_block b @ names_branches brs"

lemma managed_names: "set (managed cs) \<subseteq> set (names_seq cs)"
  by (induction cs rule: managed.induct) auto

section \<open>The condition\<close>

text \<open>
  What a statement may do, from where it stands: whether it is in the body of a \<open>try\<close>, whether
  \<open>break\<close> and \<open>continue\<close>, \<open>return\<close>, managed variables and calls that raise are allowed, and whether its
  scope and the scopes around it have an unwind cleanup.
\<close>

record perm =
  x_try :: bool
  x_brk :: bool
  x_ret :: bool
  x_own :: bool
  x_raise :: bool
  x_cur :: bool
  x_out :: bool

definition fin_perm :: perm where
  "fin_perm = \<lparr>x_try = True, x_brk = False, x_ret = False, x_own = False, x_raise = False, x_cur = False, x_out = False\<rparr>"

definition no_jump :: "perm \<Rightarrow> perm" where
  "no_jump p = p\<lparr>x_brk := False, x_ret := False\<rparr>"

text \<open>Inside a \<open>try\<close> a block with objects must not be left by a jump.\<close>

definition block_perm :: "bool \<Rightarrow> string list \<Rightarrow> perm \<Rightarrow> perm" where
  "block_perm ex owned p =
     (let kept = \<not> (x_try p \<and> owned \<noteq> []) in
      p\<lparr>x_brk := x_brk p \<and> kept, x_ret := x_ret p \<and> kept,
        x_cur := ex \<and> owned \<noteq> [], x_out := x_cur p \<or> x_out p\<rparr>)"

definition loop_perm :: "perm \<Rightarrow> perm" where
  "loop_perm p = p\<lparr>x_brk := \<not> x_try p\<rparr>"

text \<open>The scope of a \<open>for\<close> loop's initialization.\<close>

definition for_perm :: "perm \<Rightarrow> perm" where
  "for_perm p = p\<lparr>x_cur := False, x_out := x_cur p \<or> x_out p\<rparr>"

definition try_perm :: "perm \<Rightarrow> perm" where
  "try_perm p = p\<lparr>x_try := True, x_cur := True\<rparr>"

definition before_perm :: "'f stmt list \<Rightarrow> perm \<Rightarrow> perm" where
  "before_perm cs p = p\<lparr>x_raise := x_raise p \<and> managed cs = []\<rparr>"

lemmas perm_defs = fin_perm_def no_jump_def block_perm_def loop_perm_def for_perm_def try_perm_def before_perm_def

text \<open>\<open>nt\<close> holds of the functions that never raise an exception, \<open>ex\<close> when exceptions are compiled in.\<close>

fun ok_stmt :: "(string \<Rightarrow> bool) \<Rightarrow> bool \<Rightarrow> perm \<Rightarrow> 'f stmt \<Rightarrow> bool"
  and ok_seq :: "(string \<Rightarrow> bool) \<Rightarrow> bool \<Rightarrow> perm \<Rightarrow> 'f stmt list \<Rightarrow> bool"
  and ok_block :: "(string \<Rightarrow> bool) \<Rightarrow> bool \<Rightarrow> perm \<Rightarrow> 'f block \<Rightarrow> bool"
  and ok_branches :: "(string \<Rightarrow> bool) \<Rightarrow> bool \<Rightarrow> perm \<Rightarrow> ('f expr option \<times> 'f block) list \<Rightarrow> bool" where
  "ok_stmt nt ex p (OStmtVarManaged x) \<longleftrightarrow> x_own p"
| "ok_stmt nt ex p (OStmtVoidCall f) \<longleftrightarrow> nt f \<or> x_raise p"
| "ok_stmt nt ex p (OStmtReturn e) \<longleftrightarrow> x_ret p"
| "ok_stmt nt ex p OBreakStmt \<longleftrightarrow> x_brk p"
| "ok_stmt nt ex p OContinueStmt \<longleftrightarrow> x_brk p"
| "ok_stmt nt ex p (OStmtWhile e b) \<longleftrightarrow> ok_block nt ex (loop_perm p) b"
| "ok_stmt nt ex p (OStmtFor i e b stp) \<longleftrightarrow>
     blk_owned i = [] \<and> ok_block nt ex (no_jump p) i \<and> ok_block nt ex (loop_perm (for_perm p)) b \<and>
     ok_block nt ex (no_jump (for_perm p)) stp"
| "ok_stmt nt ex p (OStmtIf brs) \<longleftrightarrow> brs \<noteq> [] \<and> ok_branches nt ex p brs"
| "ok_stmt nt ex p (OStmtTry b f) \<longleftrightarrow>
     (x_raise p \<longrightarrow> x_cur p \<or> \<not> x_out p) \<and> ok_block nt ex (try_perm p) b \<and> ok_block nt ex fin_perm f"
| "ok_stmt nt ex p _ \<longleftrightarrow> True"
| "ok_seq nt ex p [] \<longleftrightarrow> True"
| "ok_seq nt ex p (c # cs) \<longleftrightarrow> ok_stmt nt ex (before_perm cs p) c \<and> ok_seq nt ex p cs"
| "ok_block nt ex p (OStmtBlock owned cs) \<longleftrightarrow> owned = managed cs \<and> ok_seq nt ex (block_perm ex owned p) cs"
| "ok_branches nt ex p [] \<longleftrightarrow> True"
| "ok_branches nt ex p ((e, b) # brs) \<longleftrightarrow> (e = None \<longrightarrow> brs = []) \<and> ok_block nt ex p b \<and> ok_branches nt ex p brs"

lemma ok_blockD: "ok_block nt ex p b \<Longrightarrow> blk_owned b = managed (blk_stmts b) \<and> ok_seq nt ex (block_perm ex (blk_owned b) p) (blk_stmts b)"
  by (cases b) simp

text \<open>A \<open>finally\<close> block has no managed variables.\<close>

lemma ok_no_names:
  fixes c :: "'f stmt" and cs :: "'f stmt list" and b :: "'f block" and brs :: "('f expr option \<times> 'f block) list"
  shows "ok_stmt nt ex p c \<Longrightarrow> \<not> x_own p \<Longrightarrow> names_stmt c = []"
  "ok_seq nt ex p cs \<Longrightarrow> \<not> x_own p \<Longrightarrow> names_seq cs = []"
  "ok_block nt ex p b \<Longrightarrow> \<not> x_own p \<Longrightarrow> names_block b = []"
  "ok_branches nt ex p brs \<Longrightarrow> \<not> x_own p \<Longrightarrow> names_branches brs = []"
  by (induction nt ex p c and nt ex p cs and nt ex p b and nt ex p brs rule: ok_stmt_ok_seq_ok_block_ok_branches.induct)
    (simp_all add: perm_defs Let_def)

section \<open>Leaving a block\<close>

lemma leave_simps [simp]: "s_env (leave k s) = s_env s"
  by (simp add: leave_def Let_def)

lemma leave_append: "s_live s = X @ Y \<Longrightarrow> leave (length Y) s = s\<lparr>s_trace := s_trace s @ map EvDestroy X, s_live := Y\<rparr>"
  by (simp add: leave_def Let_def)

lemma leave_same [simp]: "leave (length (s_live s)) s = s"
  by (simp add: leave_def)

lemma leave_leave: "j \<le> k \<Longrightarrow> k \<le> length (s_live s) \<Longrightarrow> leave j (leave k s) = leave j s"
proof -
  assume "j \<le> k" "k \<le> length (s_live s)"
  then have "take (length (s_live s) - j) (s_live s) =
      take (length (s_live s) - k) (s_live s) @ take (k - j) (drop (length (s_live s) - k) (s_live s))"
    using take_add [of "length (s_live s) - k" "k - j" "s_live s"] by simp
  with \<open>j \<le> k\<close> \<open>k \<le> length (s_live s)\<close> show ?thesis
    by (simp add: leave_def Let_def)
qed

text \<open>Execution leaves the objects that were alive, below those of the statements executed.\<close>

fun cmanaged :: "'f code \<Rightarrow> string list" where
  "cmanaged (CStmt c) = managed [c]"
| "cmanaged (CSeq cs) = managed cs"
| "cmanaged _ = []"

definition lives :: "string list \<Rightarrow> sst \<Rightarrow> sst \<Rightarrow> bool" where
  "lives M s s' \<longleftrightarrow> (\<exists>X. s_live s' = X @ s_live s \<and> set X \<subseteq> set M)"

lemma lives_refl: "s_live s' = s_live s \<Longrightarrow> lives M s s'"
  by (simp add: lives_def)

lemma lives_Nil: "lives [] s s' \<longleftrightarrow> s_live s' = s_live s"
  by (auto simp: lives_def)

lemma lives_trans: "lives M s s1 \<Longrightarrow> lives N s1 s2 \<Longrightarrow> lives (M @ N) s s2"
proof -
  assume "lives M s s1" "lives N s1 s2"
  then obtain X Y where "s_live s1 = X @ s_live s" "set X \<subseteq> set M" "s_live s2 = Y @ s_live s1" "set Y \<subseteq> set N"
    unfolding lives_def by blast
  then have "s_live s2 = (Y @ X) @ s_live s" "set (Y @ X) \<subseteq> set (M @ N)" by auto
  then show ?thesis unfolding lives_def by blast
qed

lemma lives_leave: "lives M s s' \<Longrightarrow> s_live (leave (length (s_live s)) s') = s_live s"
  by (auto simp: lives_def leave_append)

lemma exec_assign: "do_assign x v s = Some (o1, s1) \<Longrightarrow> o1 = Normal \<and> s_live s1 = s_live s \<and> s_trace s1 = s_trace s"
  by (auto simp: do_assign_def)

lemma exec_lives: "exec n R c s = Some (o1, s1) \<Longrightarrow> lives (cmanaged c) s s1"
proof (induction n arbitrary: c s o1 s1)
  case 0
  then show ?case by simp
next
  case (Suc n)
  show ?case
  proof (cases c)
    case (CStmt stm)
    show ?thesis
    proof (cases stm)
      case (OStmtFor i e b stp)
      with Suc.prems CStmt obtain s2 where s1: "s1 = leave (length (s_live s)) s2"
        and x: "exec n R (CSeq (blk_stmts i)) s = Some (o1, s2) \<or>
          (\<exists>s3. exec n R (CSeq (blk_stmts i)) s = Some (Normal, s3) \<and> exec n R (CLoop e b (Some stp)) s3 = Some (o1, s2))"
        by (auto simp: exec.simps(2) split: option.splits if_splits)
      have "lives (managed (blk_stmts i)) s s2"
        using x Suc.IH [of "CSeq (blk_stmts i)" s] Suc.IH [of "CLoop e b (Some stp)"] by (auto simp: lives_Nil lives_def)
      then show ?thesis using lives_leave s1 by (auto simp: lives_def)
    next
      case (OStmtTry b f)
      with Suc.prems CStmt obtain o2 s2 o3 where "exec n R (CBlock b) s = Some (o2, s2)" "exec n R (CBlock f) s2 = Some (o3, s1)"
        by (auto simp: exec.simps(2) split: option.splits)
      from Suc.IH [OF this(1)] Suc.IH [OF this(2)] show ?thesis using CStmt OStmtTry by (simp add: lives_Nil)
    next
      case (OStmtWhile e b)
      with Suc.prems CStmt have "exec n R (CLoop e b None) s = Some (o1, s1)" by (simp add: exec.simps(2))
      from Suc.IH [OF this] show ?thesis using CStmt OStmtWhile by simp
    next
      case (OStmtIf brs)
      with Suc.prems CStmt have "exec n R (CBranches brs) s = Some (o1, s1)" by (simp add: exec.simps(2))
      from Suc.IH [OF this] show ?thesis using CStmt OStmtIf by simp
    next
      case (OStmtVarManaged x)
      with Suc.prems CStmt show ?thesis by (auto simp: exec.simps(2) lives_def)
    qed (use Suc.prems CStmt in \<open>auto simp: exec.simps(2) lives_refl split: option.splits prod.splits dest: exec_assign\<close>)
  next
    case (CSeq cs)
    show ?thesis
    proof (cases cs)
      case Nil
      with Suc.prems CSeq show ?thesis by (auto simp: exec.simps(2) lives_refl)
    next
      case (Cons stm cs')
      from Suc.prems obtain o2 s2 where 1: "exec n R (CStmt stm) s = Some (o2, s2)"
        "if o2 = Normal then exec n R (CSeq cs') s2 = Some (o1, s1) else o1 = o2 \<and> s1 = s2"
        by (auto simp: CSeq Cons exec.simps(2) split: option.splits if_splits)
      have 2: "lives (managed [stm]) s s2" using Suc.IH [OF 1(1)] by simp
      have "lives (managed cs') s2 s1" using 1(2) Suc.IH [of "CSeq cs'" s2 o1 s1] by (simp add: lives_refl split: if_splits)
      from lives_trans [OF 2 this] show ?thesis using managed_append [of stm cs'] by (simp add: CSeq Cons)
    qed
  next
    case (CBlock b)
    with Suc.prems obtain s2 where 1: "exec n R (CSeq (blk_stmts b)) s = Some (o1, s2)" "s1 = leave (length (s_live s)) s2"
      by (auto simp: exec.simps(2))
    from Suc.IH [OF 1(1)] lives_leave show ?thesis by (simp add: CBlock 1(2) lives_Nil)
  next
    case (CBranches brs)
    have "lives [] s s1" if "exec n R (CBlock b) s = Some (o1, s1) \<or> exec n R (CBranches brs') s = Some (o1, s1)" for b brs'
      using that Suc.IH [of "CBlock b" s] Suc.IH [of "CBranches brs'" s] by auto
    with CBranches Suc.prems show ?thesis
      by (auto simp: exec.simps(2) lives_refl split: list.splits option.splits if_splits prod.splits)
  next
    case (CLoop e b stp)
    with Suc.prems have "o1 = Normal \<and> s1 = s \<or>
      (\<exists>o2 s2. exec n R (CBlock b) s = Some (o2, s2) \<and> (o1 = Normal \<and> s1 = s2 \<or> o1 = o2 \<and> s1 = s2 \<or>
        (stp = None \<and> exec n R (CLoop e b stp) s2 = Some (o1, s1)) \<or>
        (\<exists>stb o3 s3. stp = Some stb \<and> exec n R (CBlock stb) s2 = Some (o3, s3) \<and>
           (o1 = o3 \<and> s1 = s3 \<or> exec n R (CLoop e b stp) s3 = Some (o1, s1)))))"
      by (auto simp: exec.simps(2) split: option.splits if_splits)
    then show ?thesis using Suc.IH [of "CBlock b"] Suc.IH [of "CLoop e b stp"] Suc.IH [of "CBlock (the stp)"]
      by (auto simp: CLoop lives_Nil; fastforce simp: lives_Nil)
  qed
qed

section \<open>Objects the generator has created\<close>

fun gnames :: "'f gcode \<Rightarrow> string list" where
  "gnames (GStmt c) = names_stmt c"
| "gnames (GSeq cs) = names_seq cs"
| "gnames (GBlock b) = names_block b"
| "gnames (GBranches m brs) = names_branches brs"
| "gnames EmitActiveFinallyBlocks = []"

definition fnames :: "'f fins \<Rightarrow> string set" where
  "fnames fins = (\<Union>(d, f) \<in> set fins. set (names_block f))"

lemma fnames_simps [simp]: "fnames [] = {}" "fnames ((d, f) # rest) = set (names_block f) \<union> fnames rest"
  by (auto simp: fnames_def)

definition adds :: "string set \<Rightarrow> 'f bld \<Rightarrow> 'f bld \<Rightarrow> bool" where
  "adds N st st' \<longleftrightarrow> set (b_alloc st) \<subseteq> set (b_alloc st') \<and> set (b_alloc st') \<subseteq> set (b_alloc st) \<union> N"

lemma adds_same: "b_alloc st' = b_alloc st \<Longrightarrow> adds N st st'"
  by (simp add: adds_def)

lemma adds_trans: "adds M st st1 \<Longrightarrow> adds M st1 st' \<Longrightarrow> adds M st st'"
  by (auto simp: adds_def)

lemma adds_mono: "adds M st st' \<Longrightarrow> M \<subseteq> N \<Longrightarrow> adds N st st'"
  by (auto simp: adds_def)

lemma adds_left: "b_alloc st1 = b_alloc st \<Longrightarrow> adds N st1 st' \<Longrightarrow> adds N st st'"
  by (simp add: adds_def)

lemma adds_right: "adds N st st1 \<Longrightarrow> b_alloc st' = b_alloc st1 \<Longrightarrow> adds N st st'"
  by (simp add: adds_def)

lemma b_alloc_ends:
  "pad_block n t st = Some st' \<Longrightarrow> b_alloc st' = b_alloc st"
  "block_end sc t st = Some st' \<Longrightarrow> b_alloc st' = b_alloc st"
  "EmitOwnedObjectDestructors sc st = Some st' \<Longrightarrow> b_alloc st' = b_alloc st"
  "EmitOwnedObjectDestructorsUntil k scs st = Some st' \<Longrightarrow> b_alloc st' = b_alloc st"
  "jump k scs t st = Some st' \<Longrightarrow> b_alloc st' = b_alloc st"
  "gen_store P x e st = Some st' \<Longrightarrow> b_alloc st' = b_alloc st"
  "GenerateCallOrInvoke scs f st = Some st' \<Longrightarrow> b_alloc st' = b_alloc st"
  by (auto simp: pad_block_def block_end_def EmitOwnedObjectDestructors_def EmitOwnedObjectDestructorsUntil_def
      jump_def gen_store_def GenerateCallOrInvoke_def bind_eq_Some_conv dest: b_alloc_destroys
      split: if_splits option.splits)

lemma gen_branch_steps:
  assumes "gen P scs loops fins (GBranches m ((Some e, b) # brs)) st = Some st'"
    and n: "n = b_next st" and nx: "nx = (if brs = [] then m else Suc n)"
  obtains g st1 st2 st3 where "gen_cond P e = Some g"
    "terminate (TCondBr g n nx) (new_blocks (if brs = [] then 1 else 2) st) = Some st1"
    "gen P scs loops fins (GBlock b) (SetInsertPoint n st1) = Some st2" "terminate_open (TBr m) st2 = Some st3"
    "gen P scs loops fins (GBranches m brs) (SetInsertPoint nx st3) = Some st'"
  using assms(1) unfolding gen_branches n [symmetric] nx [symmetric] bind_eq_Some_conv by blast

lemma adds_block:
  assumes IH: "\<And>sc st st'. gen P (sc # scs) loops fins (GSeq (blk_stmts b)) st = Some st' \<Longrightarrow> adds N st st'"
    and r: "gen P scs loops fins (GBlock b) st = Some st'"
  shows "adds N st st'"
proof (cases "unwinds P b")
  case False
  from r obtain st1 where "gen P (body_scope P b 0 # scs) loops fins (GSeq (blk_stmts b)) st = Some st1"
    "st' = st1 \<or> EmitOwnedObjectDestructors (body_scope P b 0) st1 = Some st'"
    by (auto simp: gen_block_plain [OF False, where n = 0] bind_eq_Some_conv split: if_splits)
  with IH [OF this(1)] b_alloc_ends(3) show ?thesis by (auto intro: adds_right)
next
  case True
  from gen_block_unwind_steps [OF True r refl refl] show ?thesis
  proof cases
    case (1 st1 st2 st3 st4 st5)
    from IH [OF 1(1)] have "adds N st st1" by (rule adds_left [rotated]) simp
    then show ?thesis by (rule adds_right) (use b_alloc_ends(2) [OF 1(2)] b_alloc_ends(1) [OF 1(3)] b_alloc_ends(3) [OF 1(4)] 1(5,6) in simp)
  qed
qed

lemma adds_branches:
  assumes "\<And>e b st st'. (e, b) \<in> set brs \<Longrightarrow> gen P scs loops fins (GBlock b) st = Some st' \<Longrightarrow> adds N st st'"
    and "gen P scs loops fins (GBranches m brs) st = Some st'"
  shows "adds N st st'"
  using assms
proof (induction brs arbitrary: st)
  case Nil
  then show ?case by (auto simp: gen_branches adds_same)
next
  case (Cons eb brs)
  obtain e b where eb: "eb = (e, b)" by (cases eb)
  have br: "adds N st st'" if "gen P scs loops fins (GBlock b) st = Some st'" for st st'
    using Cons.prems(1) that by (auto simp: eb)
  have rest: "adds N st st'" if "gen P scs loops fins (GBranches m brs) st = Some st'" for st
    by (rule Cons.IH [OF _ that]) (use Cons.prems(1) in auto)
  show ?case
  proof (cases e)
    case None
    with Cons.prems(2) obtain st1 st2 where 1: "gen P scs loops fins (GBlock b) st = Some st1"
      "terminate_open (TBr m) st1 = Some st2" "gen P scs loops fins (GBranches m brs) st2 = Some st'"
      by (auto simp: eb gen_branches bind_eq_Some_conv)
    have "adds N st st2" by (rule adds_right [OF br [OF 1(1)]]) (use 1(2) in simp)
    then show ?thesis by (rule adds_trans) (rule rest [OF 1(3)])
  next
    case (Some e')
    show ?thesis using Cons.prems(2) unfolding eb Some
    proof (rule gen_branch_steps [OF _ refl refl])
      fix g st1 st2 st3
      let ?nx = "if brs = [] then m else Suc (b_next st)"
      assume 1: "terminate (TCondBr g (b_next st) ?nx) (new_blocks (if brs = [] then 1 else 2) st) = Some st1"
        "gen P scs loops fins (GBlock b) (SetInsertPoint (b_next st) st1) = Some st2" "terminate_open (TBr m) st2 = Some st3"
        "gen P scs loops fins (GBranches m brs) (SetInsertPoint ?nx st3) = Some st'"
      have "adds N st st2" by (rule adds_left [OF _ br [OF 1(2)]]) (use 1(1) in simp)
      then have "adds N st (SetInsertPoint ?nx st3)" by (rule adds_right) (use 1(3) in simp)
      then show ?thesis by (rule adds_trans) (rule rest [OF 1(4)])
    qed
  qed
qed

lemma adds_while:
  assumes b: "\<And>l st st'. gen P scs (l # loops) fins (GBlock b) st = Some st' \<Longrightarrow> adds N st st'"
    and r: "gen P scs loops fins (GStmt (OStmtWhile e b)) st = Some st'"
  shows "adds N st st'"
  using r refl
proof (rule gen_while_steps)
  fix g st1 st2 st3 st4
  assume 1: "terminate (TBr (b_next st)) (new_blocks 3 st) = Some st1"
    "terminate (TCondBr g (b_next st + 1) (b_next st + 2)) (SetInsertPoint (b_next st) st1) = Some st2"
    "gen P scs (while_ctx (b_next st) scs # loops) fins (GBlock b) (SetInsertPoint (b_next st + 1) st2) = Some st3"
    "terminate_open (TBr (b_next st)) st3 = Some st4" "st' = SetInsertPoint (b_next st + 2) st4"
  from b [OF 1(3)] have "adds N st st3" by (rule adds_left [rotated]) (use 1(1,2) in simp)
  then show ?thesis by (rule adds_right) (use 1(4,5) in simp)
qed

lemma adds_for_rest:
  assumes b: "\<And>sc l st st'. gen P (sc # scs) (l # loops) fins (GBlock b) st = Some st' \<Longrightarrow> adds N st st'"
    and s: "\<And>sc l st st'. gen P (sc # scs) (l # loops) fins (GBlock stp) st = Some st' \<Longrightarrow> adds N st st'"
    and r: "for_rest P scs loops fins i e b stp st0 = Some st'"
  shows "adds N st0 st'"
  using r refl
proof (rule for_rest_steps)
  fix g st1 st2 st3 st4 st5 st6
  assume 1: "terminate (TBr (b_next st0)) (new_blocks 4 st0) = Some st1"
    "terminate (TCondBr g (b_next st0 + 1) (b_next st0 + 3)) (SetInsertPoint (b_next st0) st1) = Some st2"
    "gen P (init_scope i # scs) (for_ctx (b_next st0) scs # loops) fins (GBlock b) (SetInsertPoint (b_next st0 + 1) st2) = Some st3"
    "terminate_open (TBr (b_next st0 + 2)) st3 = Some st4"
    "gen P (init_scope i # scs) (for_ctx (b_next st0) scs # loops) fins (GBlock stp) (SetInsertPoint (b_next st0 + 2) st4) = Some st5"
    "terminate_open (TBr (b_next st0)) st5 = Some st6" "st' = SetInsertPoint (b_next st0 + 3) st6"
  from b [OF 1(3)] have 2: "adds N st0 st3" by (rule adds_left [rotated]) (use 1(1,2) in simp)
  from s [OF 1(5)] have "adds N st3 st5" by (rule adds_left [rotated]) (use 1(4) in simp)
  from adds_trans [OF 2 this] show ?thesis by (rule adds_right) (use 1(6,7) in simp)
qed

lemma adds_for:
  assumes i: "\<And>st st'. gen P scs loops fins (GBlock i) st = Some st' \<Longrightarrow> adds N st st'"
    and b: "\<And>sc l st st'. gen P (sc # scs) (l # loops) fins (GBlock b) st = Some st' \<Longrightarrow> adds N st st'"
    and s: "\<And>sc l st st'. gen P (sc # scs) (l # loops) fins (GBlock stp) st = Some st' \<Longrightarrow> adds N st st'"
    and r: "gen P scs loops fins (GStmt (OStmtFor i e b stp)) st = Some st'"
  shows "adds N st st'"
proof -
  from r obtain st0 where 0: "gen P scs loops fins (GBlock i) st = Some st0"
    "st' = st0 \<or> for_rest P scs loops fins i e b stp st0 = Some st'"
    by (auto simp: gen_for_rest bind_eq_Some_conv split: if_splits)
  with i [OF 0(1)] adds_for_rest [OF b s] show ?thesis by (auto intro: adds_trans)
qed

lemma adds_try:
  assumes b: "\<And>sc d st st'. gen P (sc # scs) loops ((d, f) # fins) (GBlock b) st = Some st' \<Longrightarrow> adds N st st'"
    and f: "\<And>sc st st'. gen P (sc # scs) loops fins (GBlock f) st = Some st' \<Longrightarrow> adds N st st'"
    and r: "gen P (sc # scs) loops fins (GStmt (OStmtTry b f)) st = Some st'"
  shows "adds N st st'"
  using r refl
proof (rule gen_try_steps)
  fix st1 st2 st3 st4 st5 st6 st7 st8
  assume 1: "gen P (try_scope (b_next st) sc # scs) loops ((Suc (length scs), f) # fins) (GBlock b) (new_blocks 5 st) = Some st1"
    "terminate_open (TBr (b_next st + 2)) st1 = Some st2" "pad_block (b_next st) (TBr (b_next st + 1)) st2 = Some st3"
    "gen P (sc # scs) loops fins (GBlock f) (SetInsertPoint (b_next st + 1) st3) = Some st4"
    "terminate_open (unwind_to (sc_cleanup sc)) st4 = Some st5"
    "terminate (TBr (b_next st + 3)) (SetInsertPoint (b_next st + 2) st5) = Some st6"
    "gen P (sc # scs) loops fins (GBlock f) (SetInsertPoint (b_next st + 3) st6) = Some st7"
    "terminate_open (TBr (b_next st + 4)) st7 = Some st8" "st' = SetInsertPoint (b_next st + 4) st8"
  from b [OF 1(1)] have 2: "adds N st st1" by (rule adds_left [rotated]) simp
  from f [OF 1(4)] have 3: "adds N st1 st4" by (rule adds_left [rotated]) (use 1(2) b_alloc_ends(1) [OF 1(3)] in simp)
  from f [OF 1(7)] have "adds N st4 st7" by (rule adds_left [rotated]) (use 1(5,6) in simp)
  from adds_trans [OF adds_trans [OF 2 3] this] show ?thesis by (rule adds_right) (use 1(8,9) in simp)
qed

lemma names_branch: "(e, b) \<in> set brs \<Longrightarrow> set (names_block b) \<subseteq> set (names_branches brs)"
  by (induction brs) auto

lemma names_blk: "names_block b = names_seq (blk_stmts b)"
  by (cases b) simp

lemma gen_adds:
  "gen P scs loops fins c st = Some st' \<Longrightarrow> adds (set (gnames c) \<union> fnames fins) st st'"
proof (induction "gmeasure fins c" arbitrary: fins c scs loops st st' rule: less_induct)
  case less
  let ?N = "set (gnames c) \<union> fnames fins"
  have IH: "adds ?N st st'" if "gmeasure fins' c' < gmeasure fins c" "gen P scs loops fins' c' st = Some st'"
    "set (gnames c') \<union> fnames fins' \<subseteq> ?N" for fins' c' scs loops st st'
    using adds_mono [OF less(1) [OF that(1,2)] that(3)] .
  show ?case
  proof (cases c)
    case (GStmt s)
    have act: "adds ?N st st'" if "Option.bind (active P scs loops fins st) (jump k scs t) = Some st'" for k t st
      using that IH [of fins EmitActiveFinallyBlocks scs loops st]
      by (auto simp: bind_eq_Some_conv GStmt gmeasure_stmt intro: adds_right b_alloc_ends)
    note prems = less.prems [unfolded GStmt]
    show ?thesis
    proof (cases s)
      case (OStmtVarDecl x ty e)
      then show ?thesis using prems by (cases e) (auto simp: gen_simple intro: adds_same b_alloc_ends)
    next
      case (OStmtVarManaged x)
      then show ?thesis using prems by (auto simp: gen_simple adds_def GStmt)
    next
      case (OStmtAssign x ty e)
      then show ?thesis using prems by (auto simp: gen_simple intro: adds_same b_alloc_ends)
    next
      case (OStmtModifyAssign x ty op e)
      then show ?thesis using prems by (auto simp: gen_simple bind_eq_Some_conv intro: adds_same)
    next
      case (OStmtVoidCall f)
      then show ?thesis using prems by (auto simp: gen_simple intro: adds_same b_alloc_ends)
    next
      case (OStmtReturn e)
      with prems obtain st1 where 1: "(case e of None \<Rightarrow> Some st
                  | Some e \<Rightarrow> if o_result P then gen_store P ''result'' e st else None) = Some st1"
        "Option.bind (active P scs loops fins st1) (jump (length scs) scs TRet) = Some st'"
        by (auto simp: gen_jumps bind_eq_Some_conv)
      have "b_alloc st1 = b_alloc st" using 1(1) by (auto split: option.splits if_splits dest: b_alloc_ends)
      then show ?thesis by (rule adds_left) (rule act [OF 1(2)])
    next
      case OBreakStmt
      then show ?thesis using prems act by (cases loops) (simp_all add: gen_jumps)
    next
      case OContinueStmt
      then show ?thesis using prems act by (cases loops) (simp_all add: gen_jumps)
    next
      case (OStmtWhile e b)
      show ?thesis by (rule adds_while [OF IH prems [unfolded OStmtWhile]]) (auto simp: GStmt OStmtWhile gmeasure_stmt)
    next
      case (OStmtFor i e b stp)
      show ?thesis by (rule adds_for [OF IH IH IH prems [unfolded OStmtFor]]) (auto simp: GStmt OStmtFor gmeasure_stmt)
    next
      case (OStmtIf brs)
      with prems have "gen P scs loops fins (GBranches (b_next st) brs) (new_blocks 1 st) = Some st'" by (simp add: gen_if)
      from IH [OF _ this] show ?thesis by (auto simp: GStmt OStmtIf gmeasure_stmt adds_def)
    next
      case (OStmtTry b f)
      show ?thesis
      proof (cases scs)
        case Nil
        then show ?thesis using prems OStmtTry by (simp add: gen_try)
      next
        case (Cons sc outer)
        show ?thesis
          by (rule adds_try [OF IH IH prems [unfolded OStmtTry Cons]]) (auto simp: GStmt OStmtTry gmeasure_def)
      qed
    qed
  next
    case (GSeq cs)
    show ?thesis
    proof (cases cs)
      case Nil
      then show ?thesis using less.prems by (auto simp: GSeq gen_seq adds_same)
    next
      case (Cons s cs')
      with less.prems obtain st1 where 1: "gen P scs loops fins (GStmt s) st = Some st1"
        "st' = st1 \<or> gen P scs loops fins (GSeq cs') st1 = Some st'"
        by (auto simp: GSeq gen_seq bind_eq_Some_conv split: if_splits)
      have "adds ?N st st1" by (rule IH [OF _ 1(1)]) (auto simp: GSeq Cons gmeasure_seq)
      moreover have "adds ?N st1 st'" using 1(2) IH [of fins "GSeq cs'" scs loops st1 st']
        by (auto simp: GSeq Cons gmeasure_seq adds_same)
      ultimately show ?thesis by (rule adds_trans)
    qed
  next
    case (GBlock b)
    show ?thesis
      by (rule adds_block [OF IH less.prems [unfolded GBlock]]) (auto simp: GBlock gmeasure_block names_blk)
  next
    case (GBranches m brs)
    show ?thesis
      by (rule adds_branches [OF IH less.prems [unfolded GBranches]])
        (auto simp: GBranches gmeasure_branch dest: subsetD [OF names_branch])
  next
    case EmitActiveFinallyBlocks
    show ?thesis
    proof (cases fins)
      case Nil
      then show ?thesis using less.prems by (auto simp: EmitActiveFinallyBlocks gen_active adds_same)
    next
      case (Cons df rest)
      obtain d f where df: "df = (d, f)" by (cases df)
      from less.prems obtain scs' st1 where 1: "gen P scs' loops rest (GBlock f) st = Some st1"
        "st' = st1 \<or> gen P scs loops rest EmitActiveFinallyBlocks st1 = Some st'"
        by (auto simp: EmitActiveFinallyBlocks Cons df gen_active bind_eq_Some_conv split: if_splits)
      have "adds ?N st st1" by (rule IH [OF _ 1(1)]) (auto simp: EmitActiveFinallyBlocks Cons df gmeasure_active)
      moreover have "adds ?N st1 st'" using 1(2) IH [of rest EmitActiveFinallyBlocks scs loops st1 st']
        by (auto simp: EmitActiveFinallyBlocks Cons df gmeasure_active adds_same)
      ultimately show ?thesis by (rule adds_trans)
    qed
  qed
qed

lemma for_rest_adds:
  "for_rest P scs loops fins i e b stp st = Some st' \<Longrightarrow>
     adds (set (names_block b) \<union> set (names_block stp) \<union> fnames fins) st st'"
  by (rule adds_for_rest) (auto dest!: gen_adds elim: adds_mono)

end
