(* ===== verification/Stmt_Sim.thy ===== *)
theory Stmt_Sim
  imports Stmt_Ok
begin

text \<open>
  The simulation: the code generated for a statement takes the steps of its execution, whatever way the
  statement is left. Each construct has its own lemma, from the simulations of its parts.
\<close>

section \<open>Live objects\<close>

text \<open>The objects alive at a place of the code: those of its scopes that have been created.\<close>

definition live_of :: "string list \<Rightarrow> scopes \<Rightarrow> string list" where
  "live_of A scs = concat (map (\<lambda>sc. filter (\<lambda>x. x \<in> set A) (rev (sc_owned sc))) scs)"

lemma live_of_simps [simp]:
  "live_of A [] = []"
  "live_of A (sc # scs) = filter (\<lambda>x. x \<in> set A) (rev (sc_owned sc)) @ live_of A scs"
  by (simp_all add: live_of_def)

lemma live_of_append: "live_of A (scs @ scs') = live_of A scs @ live_of A scs'"
  by (simp add: live_of_def)

lemma live_of_take_drop: "live_of A scs = live_of A (take k scs) @ live_of A (drop k scs)"
  by (simp flip: live_of_append)

lemma live_of_filter: "live_of A scs = filter (\<lambda>x. x \<in> set A) (concat (map (rev \<circ> sc_owned) scs))"
  by (induction scs) simp_all

lemma live_of_all: "(\<forall>sc\<in>set scs. set (sc_owned sc) \<subseteq> set A) \<Longrightarrow> live_of A scs = concat (map (rev \<circ> sc_owned) scs)"
  unfolding live_of_filter by (rule filter_True) auto

definition agree :: "string list \<Rightarrow> string list \<Rightarrow> scopes \<Rightarrow> bool" where
  "agree A A' scs \<longleftrightarrow> (\<forall>sc\<in>set scs. \<forall>x\<in>set (sc_owned sc). (x \<in> set A') = (x \<in> set A))"

lemma agree_live: "agree A A' scs \<Longrightarrow> live_of A' scs = live_of A scs"
  unfolding live_of_filter by (rule filter_cong) (auto simp: agree_def)

lemma agree_drop: "agree A A' scs \<Longrightarrow> agree A A' (drop k scs)"
  unfolding agree_def by (meson in_set_dropD)

text \<open>
  The names that a piece of code creates: \<open>M\<close> in its own scope, \<open>N\<close> altogether. The scope has created
  the objects before it, none behind it, and no other scope knows the names.
\<close>

definition scoped :: "string list \<Rightarrow> scopes \<Rightarrow> string list \<Rightarrow> string list \<Rightarrow> bool" where
  "scoped A scs M N \<longleftrightarrow> scs \<noteq> [] \<and> set M \<subseteq> set N \<and> distinct N \<and>
     (N \<noteq> [] \<longrightarrow> set N \<inter> set A = {} \<and> distinct (sc_owned (hd scs)) \<and>
        (\<exists>D R. sc_owned (hd scs) = D @ M @ R \<and> set D \<subseteq> set A \<and> set R \<inter> (set A \<union> set N) = {}) \<and>
        (\<forall>sc\<in>set (tl scs). set N \<inter> set (sc_owned sc) = {}))"

lemma scoped_agree:
  assumes "scoped A scs [] N" "set A \<subseteq> set A'" "set A' \<subseteq> set A \<union> set N"
  shows "agree A A' scs"
proof (cases "N = []")
  case True
  with assms show ?thesis by (auto simp: agree_def)
next
  case False
  obtain sc rest where scs: "scs = sc # rest" using assms(1) by (cases scs) (auto simp: scoped_def)
  from assms(1) False obtain D R where sc: "sc_owned sc = D @ R" "set D \<subseteq> set A" "set R \<inter> (set A \<union> set N) = {}"
    and rest: "\<forall>sc\<in>set rest. set N \<inter> set (sc_owned sc) = {}"
    by (auto simp: scoped_def scs)
  from sc assms(2,3) have "agree A A' [sc]" by (auto simp: agree_def)
  moreover from rest assms(2,3) have "agree A A' rest" unfolding agree_def by blast
  ultimately show ?thesis by (simp add: agree_def scs)
qed

lemma scoped_agree_tl:
  assumes "scoped A scs M N" "set A \<subseteq> set A'" "set A' \<subseteq> set A \<union> set N"
  shows "agree A A' (tl scs)"
  using assms unfolding scoped_def agree_def by (cases "N = []") (auto, blast)

text \<open>Parts of a statement that are executed one behind the other.\<close>

lemma scoped_part:
  assumes "scoped A scs [] N" "set N' \<subseteq> set N" "distinct N'" "set A \<subseteq> set A'" "set A' \<subseteq> set A \<union> (set N - set N')"
  shows "scoped A' scs [] N'"
proof (cases "N' = []")
  case True
  with assms(1) show ?thesis by (simp add: scoped_def)
next
  case False
  with assms(2) have N: "N \<noteq> []" by auto
  with assms(1) obtain D R where D: "sc_owned (hd scs) = D @ R" "set D \<subseteq> set A" "set R \<inter> (set A \<union> set N) = {}"
    and sc: "set N \<inter> set A = {}" "distinct (sc_owned (hd scs))" "\<forall>sc\<in>set (tl scs). set N \<inter> set (sc_owned sc) = {}" "scs \<noteq> []"
    by (auto simp: scoped_def)
  have "\<exists>D R. sc_owned (hd scs) = D @ R \<and> set D \<subseteq> set A' \<and> set R \<inter> (set A' \<union> set N') = {}"
    by (rule exI [of _ D], rule exI [of _ R]) (use D assms(2,4,5) in auto)
  then show ?thesis using sc assms(2,3,5) unfolding scoped_def by auto
qed

lemma scoped_head:
  assumes "scoped A scs (M1 @ M2) (N1 @ N2)" "set M1 \<subseteq> set N1" "set M2 \<subseteq> set N2"
  shows "scoped A scs M1 N1"
proof (cases "N1 = []")
  case True
  with assms show ?thesis by (auto simp: scoped_def)
next
  case False
  with assms(1) obtain D R where D: "sc_owned (hd scs) = D @ M1 @ M2 @ R" "set D \<subseteq> set A"
    "set R \<inter> (set A \<union> set (N1 @ N2)) = {}" by (auto simp: scoped_def)
  have "\<exists>D R. sc_owned (hd scs) = D @ M1 @ R \<and> set D \<subseteq> set A \<and> set R \<inter> (set A \<union> set N1) = {}"
    by (rule exI [of _ D], rule exI [of _ "M2 @ R"]) (use D assms False in \<open>auto simp: scoped_def\<close>)
  then show ?thesis using assms False unfolding scoped_def by auto
qed

lemma scoped_tail:
  assumes "scoped A scs (M1 @ M2) (N1 @ N2)" "set M1 \<subseteq> set N1" "set M2 \<subseteq> set N2"
    and "set A \<union> set M1 \<subseteq> set A'" "set A' \<subseteq> set A \<union> set N1"
  shows "scoped A' scs M2 N2"
proof (cases "N2 = []")
  case True
  with assms show ?thesis by (auto simp: scoped_def)
next
  case False
  with assms(1) obtain D R where D: "sc_owned (hd scs) = D @ M1 @ M2 @ R" "set D \<subseteq> set A"
    "set R \<inter> (set A \<union> set (N1 @ N2)) = {}" by (auto simp: scoped_def)
  have "\<exists>D R. sc_owned (hd scs) = D @ M2 @ R \<and> set D \<subseteq> set A' \<and> set R \<inter> (set A' \<union> set N2) = {}"
    by (rule exI [of _ "D @ M1"], rule exI [of _ R]) (use D assms(4,5) in auto)
  then show ?thesis using assms False unfolding scoped_def by auto
qed

lemma scoped_push:
  assumes "scoped A scs [] N" "sc_owned sc = M" "set M \<subseteq> set N" "distinct M"
  shows "scoped A (sc # scs) M N"
proof (cases "N = []")
  case True
  with assms show ?thesis by (simp add: scoped_def)
next
  case False
  obtain s0 rest where scs: "scs = s0 # rest" using assms(1) by (cases scs) (auto simp: scoped_def)
  from assms(1) False obtain D R where D: "sc_owned s0 = D @ R" "set D \<subseteq> set A" "set R \<inter> (set A \<union> set N) = {}"
    "set N \<inter> set A = {}" "\<forall>sc\<in>set rest. set N \<inter> set (sc_owned sc) = {}" "distinct N" by (auto simp: scoped_def scs)
  then have "set N \<inter> set (sc_owned s0) = {}" by auto
  moreover have "\<exists>D R. sc_owned sc = D @ M @ R \<and> set D \<subseteq> set A \<and> set R \<inter> (set A \<union> set N) = {}"
    by (rule exI [of _ "[]"], rule exI [of _ "[]"]) (simp add: assms)
  ultimately show ?thesis using D assms unfolding scoped_def scs by auto
qed

section \<open>The simulation\<close>

text \<open>A function in the making: how it is compiled, run-time, its finished blocks and the calls that never raise.\<close>

record 'f senv =
  e_opts :: "'f opts"
  e_rt :: "'f rt"
  e_fun :: "'f bld"
  e_nothrow :: "string \<Rightarrow> bool"

definition env_ok :: "'f senv \<Rightarrow> bool" where
  "env_ok E \<longleftrightarrow> r_target (e_rt E) = o_target (e_opts E) \<and> r_fpu (e_rt E) = o_fpu (e_opts E) \<and>
     (\<forall>f m. e_nothrow E f \<longrightarrow> \<not> fst (r_call (e_rt E) f m))"

abbreviation goes :: "'f senv \<Rightarrow> config \<Rightarrow> config \<Rightarrow> bool" where
  "goes E \<equiv> reach (e_rt E) (e_fun E)"

abbreviation okb :: "'f senv \<Rightarrow> perm \<Rightarrow> 'f block \<Rightarrow> bool" where
  "okb E \<equiv> ok_block (e_nothrow E) (o_exceptions (e_opts E))"

text \<open>The \<open>finally\<close> blocks that are still to run when a jump leaves its \<open>try\<close> statements.\<close>

primrec fins_run :: "'f rt \<Rightarrow> 'f fins \<Rightarrow> sst \<Rightarrow> sst \<Rightarrow> bool" where
  "fins_run R [] s s2 \<longleftrightarrow> s2 = s"
| "fins_run R (df # rest) s s2 \<longleftrightarrow> (\<exists>n s1. exec n R (CBlock (snd df)) s = Some (Normal, s1) \<and> fins_run R rest s1 s2)"

text \<open>What holds where code is generated: handlers of the scopes, \<open>finally\<close> blocks, the loop, raising calls.\<close>

definition handlers :: "'f bld \<Rightarrow> scopes \<Rightarrow> bool" where
  "handlers G scs \<longleftrightarrow> (\<forall>sc\<in>set scs.
     case sc_lpad sc of
       None \<Rightarrow> sc_cleanup sc = None
     | Some l \<Rightarrow> \<exists>c. sc_cleanup sc = Some c \<and> b_code G l = [ILandingPad] \<and> b_term G l = Some (TBr c))"

definition fins_ok :: "'f senv \<Rightarrow> perm \<Rightarrow> scopes \<Rightarrow> 'f fins \<Rightarrow> bool" where
  "fins_ok E p scs fins \<longleftrightarrow> (\<not> x_try p \<longrightarrow> fins = []) \<and> sorted_wrt (\<ge>) (map fst fins) \<and>
     (\<forall>(d, f)\<in>set fins. 1 \<le> d \<and> d \<le> length scs \<and> okb E fin_perm f \<and>
        (x_brk p \<or> x_ret p \<longrightarrow> (\<forall>sc\<in>set (take (length scs - d) scs). sc_owned sc = [])))"

definition loop_ok :: "perm \<Rightarrow> nat \<Rightarrow> loopctx list \<Rightarrow> bool" where
  "loop_ok p k loops \<longleftrightarrow> (x_brk p \<longrightarrow> loops \<noteq> [] \<and> 1 \<le> l_depth (hd loops) \<and> l_depth (hd loops) \<le> k)"

definition raise_ok :: "'f senv \<Rightarrow> perm \<Rightarrow> scopes \<Rightarrow> string list \<Rightarrow> string list \<Rightarrow> bool" where
  "raise_ok E p scs M A \<longleftrightarrow> (x_raise p \<longrightarrow> o_exceptions (e_opts E) \<and>
     (\<forall>sc\<in>set scs. set (sc_owned sc) \<subseteq> set A \<union> set M) \<and>
     (x_cur p \<longleftrightarrow> sc_cleanup (hd scs) \<noteq> None) \<and> (\<not> x_out p \<longrightarrow> (\<forall>sc\<in>set (tl scs). sc_cleanup sc = None)))"

definition pre :: "'f senv \<Rightarrow> perm \<Rightarrow> nat \<Rightarrow> scopes \<Rightarrow> loopctx list \<Rightarrow> 'f fins \<Rightarrow> string list \<Rightarrow> string list \<Rightarrow> string list \<Rightarrow> bool" where
  "pre E p k scs loops fins M N A \<longleftrightarrow>
     scoped A scs M N \<and> handlers (e_fun E) scs \<and> fins_ok E p scs fins \<and> loop_ok p k loops \<and> raise_ok E p scs M A"

text \<open>Where an exception goes, and how many objects a jump to the loop leaves alive.\<close>

definition unwound :: "scopes \<Rightarrow> sst \<Rightarrow> config" where
  "unwound scs s = (case GetUnwindCleanupBB scs of Some t \<Rightarrow> start_of t s | None \<Rightarrow> Unwound (s_env s) (s_trace s))"

definition exit_base :: "string list \<Rightarrow> scopes \<Rightarrow> loopctx list \<Rightarrow> nat" where
  "exit_base A scs loops = length (live_of A (drop (Suc (length scs) - l_depth (hd loops)) scs))"

text \<open>The code, started in \<open>cfg\<close>, did what an execution with outcome \<open>oc\<close> and state \<open>s\<close> did.\<close>

definition post :: "'f senv \<Rightarrow> perm \<Rightarrow> scopes \<Rightarrow> loopctx list \<Rightarrow> 'f fins \<Rightarrow> string list \<Rightarrow> config \<Rightarrow> 'f bld \<Rightarrow> outcome \<Rightarrow> sst \<Rightarrow> bool" where
  "post E p scs loops fins A cfg st' oc s \<longleftrightarrow>
     (case oc of
        Normal \<Rightarrow> \<not> terminated st' \<and> s_live s = live_of (b_alloc st') scs \<and> goes E cfg (here st' s)
      | Break \<Rightarrow> x_brk p \<and> (\<forall>s2. fins_run (e_rt E) fins s s2 \<longrightarrow>
          goes E cfg (start_of (l_end (hd loops)) (leave (exit_base A scs loops) s2)))
      | Continue \<Rightarrow> x_brk p \<and> (\<forall>s2. fins_run (e_rt E) fins s s2 \<longrightarrow>
          goes E cfg (start_of (l_cond (hd loops)) (leave (exit_base A scs loops) s2)))
      | Return \<Rightarrow> x_ret p \<and> (\<forall>s2. fins_run (e_rt E) fins s s2 \<longrightarrow> goes E cfg (Done (s_env s2) (s_trace (leave 0 s2))))
      | Raise \<Rightarrow> x_raise p \<and> (\<forall>sc\<in>set scs. set (sc_owned sc) \<subseteq> set (b_alloc st')) \<and>
          s_live s = concat (map (rev \<circ> sc_owned) scs) \<and> goes E cfg (unwound scs s))"

definition sim :: "'f senv \<Rightarrow> perm \<Rightarrow> nat \<Rightarrow> scopes \<Rightarrow> loopctx list \<Rightarrow> 'f fins \<Rightarrow> 'f gcode \<Rightarrow> 'f code \<Rightarrow> string list \<Rightarrow> string list \<Rightarrow> bool" where
  "sim E p k scs loops fins c x M N \<longleftrightarrow>
     (\<forall>n st st' s oc s'. gen (e_opts E) scs loops fins c st = Some st' \<longrightarrow> wfb st \<longrightarrow> \<not> terminated st \<longrightarrow>
        ext (e_fun E) st' \<longrightarrow> pre E p k scs loops fins M N (b_alloc st) \<longrightarrow> s_live s = live_of (b_alloc st) scs \<longrightarrow>
        exec n (e_rt E) x s = Some (oc, s') \<longrightarrow> post E p scs loops fins (b_alloc st) (here st s) st' oc s')"

lemma simI:
  "(\<And>n st st' s oc s'. gen (e_opts E) scs loops fins c st = Some st' \<Longrightarrow> wfb st \<Longrightarrow> \<not> terminated st \<Longrightarrow>
     ext (e_fun E) st' \<Longrightarrow> pre E p k scs loops fins M N (b_alloc st) \<Longrightarrow> s_live s = live_of (b_alloc st) scs \<Longrightarrow>
     exec (Suc n) (e_rt E) x s = Some (oc, s') \<Longrightarrow> post E p scs loops fins (b_alloc st) (here st s) st' oc s') \<Longrightarrow>
   sim E p k scs loops fins c x M N"
  unfolding sim_def by (metis exec.simps(1) not0_implies_Suc option.distinct(1))

lemma simD:
  "sim E p k scs loops fins c x M N \<Longrightarrow> gen (e_opts E) scs loops fins c st = Some st' \<Longrightarrow> wfb st \<Longrightarrow> \<not> terminated st \<Longrightarrow>
     ext (e_fun E) st' \<Longrightarrow> pre E p k scs loops fins M N (b_alloc st) \<Longrightarrow> s_live s = live_of (b_alloc st) scs \<Longrightarrow>
     exec n (e_rt E) x s = Some (oc, s') \<Longrightarrow> post E p scs loops fins (b_alloc st) (here st s) st' oc s'"
  unfolding sim_def by blast

lemma post_before:
  assumes "post E p scs loops fins A cfg1 st' oc s" "goes E cfg cfg1"
    and "x_brk p \<Longrightarrow> exit_base A scs loops = exit_base A' scs loops"
  shows "post E p scs loops fins A' cfg st' oc s"
  using assms reach_trans [OF assms(2)] by (auto simp: post_def split: outcome.splits)

text \<open>A jump or an exception leaves the code behind a statement alone.\<close>

lemma post_after:
  assumes "post E p scs loops fins A cfg st1 oc s" "oc \<noteq> Normal" "set (b_alloc st1) \<subseteq> set (b_alloc st')"
    and "x_brk p \<Longrightarrow> x_brk p'" "x_ret p \<Longrightarrow> x_ret p'" "x_raise p \<Longrightarrow> x_raise p'"
  shows "post E p' scs loops fins A cfg st' oc s"
  using assms by (auto simp: post_def split: outcome.splits)

lemma fins_ok_names: "fins_ok E p scs fins \<Longrightarrow> fnames fins = {}"
  by (auto simp: fins_ok_def fnames_def fin_perm_def dest!: ok_no_names(3))

lemma exit_base_agree: "agree A A' (tl scs) \<Longrightarrow> l_depth (hd loops) \<le> length scs \<Longrightarrow> exit_base A' scs loops = exit_base A scs loops"
  unfolding exit_base_def
proof -
  assume a: "agree A A' (tl scs)" and l: "l_depth (hd loops) \<le> length scs"
  then have "drop (Suc (length scs) - l_depth (hd loops)) scs = drop (length scs - l_depth (hd loops)) (tl scs)"
    by (simp add: drop_Suc Suc_diff_le)
  with agree_live [OF agree_drop [OF a]] show "length (live_of A' (drop (Suc (length scs) - l_depth (hd loops)) scs)) =
      length (live_of A (drop (Suc (length scs) - l_depth (hd loops)) scs))" by simp
qed

text \<open>Blocks that have been created and are not yet used.\<close>

definition idle :: "nat \<Rightarrow> 'f bld \<Rightarrow> bool" where
  "idle b st \<longleftrightarrow> b_code st b = [] \<and> b_term st b = None \<and> b_cur st \<noteq> b \<and> b < b_next st"

lemma idle_new: "wfb st \<Longrightarrow> b_next st \<le> b \<Longrightarrow> b < b_next st + k \<Longrightarrow> idle b (new_blocks k st)"
  by (auto simp: idle_def wfb_def new_blocks_def)

lemma idle_new_old: "idle b st \<Longrightarrow> idle b (new_blocks k st)"
  by (auto simp: idle_def new_blocks_def)

lemma idle_prims:
  "emit i st = Some st' \<Longrightarrow> idle b st \<Longrightarrow> idle b st'" "terminate t st = Some st' \<Longrightarrow> idle b st \<Longrightarrow> idle b st'"
  "terminate_open t st = Some st' \<Longrightarrow> idle b st \<Longrightarrow> idle b st'"
  by (auto simp: idle_def emit_def terminate_def terminate_open_def split: if_splits)

lemma idle_destroys: "emit_destroys xs st = Some st' \<Longrightarrow> idle b st \<Longrightarrow> idle b st'"
  by (induction xs arbitrary: st) (auto simp: bind_eq_Some_conv dest: idle_prims split: if_splits)

lemma idle_set: "idle b st \<Longrightarrow> b \<noteq> c \<Longrightarrow> idle b (SetInsertPoint c st)"
  by (auto simp: idle_def SetInsertPoint_def)

lemma idle_frame: "frame st st' \<Longrightarrow> idle b st \<Longrightarrow> idle b st'"
  unfolding frame_def idle_def same_block_def by (metis linorder_not_less order_less_le_trans)

lemma idle_pad: "pad_block n t st = Some st' \<Longrightarrow> idle b st \<Longrightarrow> b \<noteq> n \<Longrightarrow> idle b st'"
  by (auto simp: pad_block_def bind_eq_Some_conv dest: idle_set idle_prims)

lemma idle_end: "block_end sc t st = Some st' \<Longrightarrow> idle b st \<Longrightarrow> idle b st'"
  by (auto simp: block_end_def EmitOwnedObjectDestructors_def bind_eq_Some_conv dest: idle_prims idle_destroys split: if_splits)

lemma idle_start: "idle b st \<Longrightarrow> here (SetInsertPoint b st) s = start_of b s \<and> \<not> terminated (SetInsertPoint b st)"
  unfolding idle_def terminated_def by (simp add: here_start) (simp add: SetInsertPoint_def)

lemma wfb_set: "wfb st \<Longrightarrow> b < b_next st \<Longrightarrow> wfb (SetInsertPoint b st)"
  by (simp add: wfb_def SetInsertPoint_def)

lemma wfb_new: "wfb st \<Longrightarrow> wfb (new_blocks k st)"
  by (auto simp: wfb_def new_blocks_def)

lemma wfb_terminate_open: "wfb st \<Longrightarrow> terminate_open t st = Some st' \<Longrightarrow> wfb st'"
  by (auto simp: terminate_open_def dest: terminate_wfb split: if_splits)

lemma pad_at:
  assumes "pad_block n t st = Some st'" "idle n st" "ext G st'"
  shows "b_code G n = [ILandingPad] \<and> b_term G n = Some t"
proof -
  from assms(1) obtain st1 where 1: "emit ILandingPad (SetInsertPoint n st) = Some st1" "terminate t st1 = Some st'"
    by (auto simp: pad_block_def bind_eq_Some_conv)
  have "b_cur st1 = n" "b_code st1 n = [ILandingPad]"
    using 1(1) assms(2) by (auto simp: emit_def SetInsertPoint_def idle_def split: if_splits)
  with terminate_at [OF 1(2) assms(3)] show ?thesis by simp
qed

lemma ext_pad: "pad_block n t st = Some st' \<Longrightarrow> ext st' st"
  by (auto simp: pad_block_def bind_eq_Some_conv) (metis ext_prims(1,2) ext_set(2) ext_trans)

lemma ext_end: "block_end sc t st = Some st' \<Longrightarrow> ext st' st"
  by (auto simp: block_end_def EmitOwnedObjectDestructors_def bind_eq_Some_conv split: if_splits
      intro: ext_trans ext_prims ext_destroys)

section \<open>Statements without parts\<close>

lemma gen_ext: "gen P scs loops fins c st = Some st' \<Longrightarrow> (\<forall>m brs. c \<noteq> GBranches m brs) \<Longrightarrow> wfb st \<Longrightarrow> ext st' st"
  by (rule ext_frame [OF gen_frame])

lemma gen_wfb: "gen P scs loops fins c st = Some st' \<Longrightarrow> (\<forall>m brs. c \<noteq> GBranches m brs) \<Longrightarrow> wfb st \<Longrightarrow> wfb st'"
  using gen_frame unfolding frame_def by blast

lemma emit_open: "emit i st = Some st' \<Longrightarrow> \<not> terminated st'"
  by (auto simp: emit_def terminated_def split: if_splits)

lemma destroys_open: "emit_destroys xs st = Some st' \<Longrightarrow> \<not> terminated st \<Longrightarrow> \<not> terminated st'"
  by (induction xs arbitrary: st) (auto simp: bind_eq_Some_conv dest: emit_open split: if_splits)

text \<open>One instruction that a statement emits.\<close>

lemma sim_emit:
  assumes "emit i st = Some st'" "ext (e_fun E) st'" "s_live s' = live_of (b_alloc st) scs"
    and "\<And>b k. b_code (e_fun E) b ! k = i \<Longrightarrow> k < length (b_code (e_fun E) b) \<Longrightarrow>
        cstep (e_rt E) (e_fun E) (At b k (s_env s) (s_trace s)) = Some (At b (Suc k) (s_env s') (s_trace s'))"
  shows "post E p scs loops fins A (here st s) st' Normal s'"
proof -
  note at = emit_at [OF assms(1,2)]
  have "cstep (e_rt E) (e_fun E) (here st s) = Some (here st' s')"
    unfolding at(3) unfolding here_def by (rule assms(4) [OF at(2,1)])
  then show ?thesis using assms(1,3) emit_open [OF assms(1)] by (simp add: post_def reach_step)
qed

lemma store_emit:
  assumes "emit (IStore x g) st = Some st'" "ext (e_fun E) st'" "s_live s = live_of (b_alloc st) scs"
    and "do_assign x (ll_eval (r_sem (e_rt E)) (s_env s) g) s = Some (oc, s')"
  shows "oc = Normal \<and> post E p scs loops fins A (here st s) st' Normal s'"
proof -
  from assms(4) obtain w v where v: "ll_eval (r_sem (e_rt E)) (s_env s) g = Some (w, v)" "oc = Normal"
    "s' = s\<lparr>s_env := (s_env s)(x := v)\<rparr>" by (auto simp: do_assign_def)
  have "post E p scs loops fins A (here st s) st' Normal s'"
    by (rule sim_emit [OF assms(1,2)]) (use v assms(3) in \<open>simp_all add: cstep_def\<close>)
  with v show ?thesis by simp
qed

lemma store_sim:
  assumes "gen_store (e_opts E) x e st = Some st'" "ext (e_fun E) st'" "s_live s = live_of (b_alloc st) scs" "env_ok E"
    and "do_assign x (eval_expr (e_rt E) e (s_env s)) s = Some (oc, s')"
  shows "oc = Normal \<and> post E p scs loops fins A (here st s) st' Normal s'"
proof -
  from assms(1) obtain g where g: "Generate (o_target (e_opts E)) (o_fpu (e_opts E)) e = Some g" "emit (IStore x g) st = Some st'"
    by (auto simp: gen_store_def bind_eq_Some_conv)
  then have "eval_expr (e_rt E) e (s_env s) = ll_eval (r_sem (e_rt E)) (s_env s) g"
    using assms(4) by (simp add: eval_expr_def run_expr_def env_ok_def)
  with store_emit [OF g(2) assms(2,3)] assms(5) show ?thesis by simp
qed

lemma sim_vardecl: "env_ok E \<Longrightarrow> sim E p k scs loops fins (GStmt (OStmtVarDecl x ty e)) (CStmt (OStmtVarDecl x ty e)) [] []"
proof (rule simI)
  fix n st st' s oc s'
  assume a: "env_ok E" "gen (e_opts E) scs loops fins (GStmt (OStmtVarDecl x ty e)) st = Some st'" "\<not> terminated st"
    "ext (e_fun E) st'" "s_live s = live_of (b_alloc st) scs"
    "exec (Suc n) (e_rt E) (CStmt (OStmtVarDecl x ty e)) s = Some (oc, s')"
  show "post E p scs loops fins (b_alloc st) (here st s) st' oc s'"
  proof (cases e)
    case None
    with a show ?thesis by (simp add: gen_simple exec.simps(2) post_def)
  next
    case (Some e)
    with a store_sim [OF _ a(4,5,1)] show ?thesis by (fastforce simp: gen_simple exec.simps(2))
  qed
qed

lemma sim_assign: "env_ok E \<Longrightarrow> sim E p k scs loops fins (GStmt (OStmtAssign x ty e)) (CStmt (OStmtAssign x ty e)) [] []"
  by (rule simI) (use store_sim in \<open>fastforce simp: gen_simple exec.simps(2)\<close>)

lemma sim_modify:
  assumes "env_ok E"
  shows "sim E p k scs loops fins (GStmt (OStmtModifyAssign x ty op e)) (CStmt (OStmtModifyAssign x ty op e)) [] []"
proof (rule simI)
  fix n st st' s oc s'
  assume a: "gen (e_opts E) scs loops fins (GStmt (OStmtModifyAssign x ty op e)) st = Some st'"
    "ext (e_fun E) st'" "s_live s = live_of (b_alloc st) scs"
    "exec (Suc n) (e_rt E) (CStmt (OStmtModifyAssign x ty op e)) s = Some (oc, s')"
  from a(1) obtain g v where g: "Generate (o_target (e_opts E)) (o_fpu (e_opts E)) e = Some g"
    "gen_binop op ty (LLoad (GetLlType ty) x) g = Some v" "emit (IStore x v) st = Some st'"
    by (auto simp: gen_simple GenerateModifyAssignValue_def bind_eq_Some_conv)
  then have "eval_expr (e_rt E) (OBinExpr op ty (OLValueVar x ty None) e) (s_env s) = ll_eval (r_sem (e_rt E)) (s_env s) v"
    using assms by (simp add: eval_expr_def run_expr_def env_ok_def bind2_def gen_var_def)
  with a(4) have "do_assign x (ll_eval (r_sem (e_rt E)) (s_env s) v) s = Some (oc, s')" by (simp add: exec.simps(2))
  from store_emit [OF g(3) a(2,3) this] show "post E p scs loops fins (b_alloc st) (here st s) st' oc s'" by blast
qed

lemma sim_managed:
  "sim E p k scs loops fins (GStmt (OStmtVarManaged x)) (CStmt (OStmtVarManaged x)) [x] [x]"
proof (rule simI)
  fix n st st' s oc s'
  assume a: "gen (e_opts E) scs loops fins (GStmt (OStmtVarManaged x)) st = Some st'" "ext (e_fun E) st'"
    "pre E p k scs loops fins [x] [x] (b_alloc st)" "s_live s = live_of (b_alloc st) scs"
    "exec (Suc n) (e_rt E) (CStmt (OStmtVarManaged x)) s = Some (oc, s')"
  let ?st = "st\<lparr>b_alloc := x # b_alloc st\<rparr>"
  from a(5) have s': "oc = Normal" "s' = s\<lparr>s_trace := s_trace s @ [EvInit x], s_live := x # s_live s\<rparr>"
    by (simp_all add: exec.simps(2))
  have sc: "scoped (b_alloc st) scs [x] [x]" using a(3) by (simp add: pre_def)
  then obtain sc rest where scs: "scs = sc # rest" by (cases scs) (auto simp: scoped_def)
  from sc obtain D R where D: "sc_owned sc = D @ x # R" "set D \<subseteq> set (b_alloc st)" "set R \<inter> (set (b_alloc st) \<union> {x}) = {}"
    "x \<notin> set (b_alloc st)" "\<forall>sc\<in>set rest. x \<notin> set (sc_owned sc)" "distinct (sc_owned sc)"
    by (auto simp: scoped_def scs)
  have "agree (b_alloc st) (x # b_alloc st) rest" using D(5) by (auto simp: agree_def)
  note rest = agree_live [OF this]
  have R: "filter (\<lambda>y. y \<in> set A) (rev R) = []" if "set R \<inter> set A = {}" for A
    using that by (auto simp: filter_empty_conv)
  have "filter (\<lambda>y. y = x \<or> y \<in> set (b_alloc st)) (rev D) = rev D" "filter (\<lambda>y. y \<in> set (b_alloc st)) (rev D) = rev D"
    by (rule filter_True, use D(2) in auto)+
  moreover have "filter (\<lambda>y. y = x \<or> y \<in> set (b_alloc st)) (rev R) = []" "filter (\<lambda>y. y \<in> set (b_alloc st)) (rev R) = []"
    using R [of "x # b_alloc st"] R [of "b_alloc st"] D(3) by auto
  ultimately have "live_of (x # b_alloc st) scs = x # live_of (b_alloc st) scs"
    using D(1,4) rest by (simp add: scs)
  then have l: "s_live s' = live_of (b_alloc ?st) scs" using a(4) s' by simp
  have "post E p scs loops fins (b_alloc st) (here ?st s) st' Normal s'"
    by (rule sim_emit [where i = "INull x", OF _ a(2) l]) (use a(1) s' in \<open>simp_all add: gen_simple cstep_def\<close>)
  then show "post E p scs loops fins (b_alloc st) (here st s) st' oc s'" using s'(1) by simp
qed

lemma handlers_first:
  "handlers G scs \<Longrightarrow>
    (case GetExceptionCleanupBB scs of
       None \<Rightarrow> GetUnwindCleanupBB scs = None
     | Some l \<Rightarrow> \<exists>c. GetUnwindCleanupBB scs = Some c \<and> b_code G l = [ILandingPad] \<and> b_term G l = Some (TBr c))"
  by (induction scs) (auto simp: handlers_def GetExceptionCleanupBB_def GetUnwindCleanupBB_def split: option.splits)

lemma landing:
  "b_code G l = [ILandingPad] \<Longrightarrow> b_term G l = Some (TBr c) \<Longrightarrow> reach R G (start_of l s) (start_of c s)"
proof -
  assume "b_code G l = [ILandingPad]" "b_term G l = Some (TBr c)"
  then have "cstep R G (start_of l s) = Some (At l 1 (s_env s) (s_trace s))"
    "cstep R G (At l 1 (s_env s) (s_trace s)) = Some (start_of c s)" by (simp_all add: cstep_def start_of_def)
  then show ?thesis by (rule reach_first [OF _ reach_step])
qed

lemma sim_call:
  assumes e: "env_ok E" and ok: "e_nothrow E f \<or> x_raise p"
  shows "sim E p k scs loops fins (GStmt (OStmtVoidCall f)) (CStmt (OStmtVoidCall f)) [] []"
proof (rule simI)
  fix n st st' s oc s'
  assume a: "gen (e_opts E) scs loops fins (GStmt (OStmtVoidCall f)) st = Some st'" "wfb st" "ext (e_fun E) st'"
    "pre E p k scs loops fins [] [] (b_alloc st)" "s_live s = live_of (b_alloc st) scs"
    "exec (Suc n) (e_rt E) (CStmt (OStmtVoidCall f)) s = Some (oc, s')"
  obtain raised env where c: "r_call (e_rt E) f (s_env s) = (raised, env)" by (cases "r_call (e_rt E) f (s_env s)")
  from a(6) c have s': "oc = (if raised then Raise else Normal)" "s' = s\<lparr>s_env := env, s_trace := s_trace s @ [EvCall f]\<rparr>"
    by (auto simp: exec.simps(2))
  have r: "x_raise p" if raised using ok e that c unfolding env_ok_def by (metis fst_conv)
  have h: "handlers (e_fun E) scs" using a(4) by (simp add: pre_def)
  have all: "\<forall>sc\<in>set scs. set (sc_owned sc) \<subseteq> set (b_alloc st)" if raised
    using a(4) r [OF that] by (simp add: pre_def raise_ok_def)
  show "post E p scs loops fins (b_alloc st) (here st s) st' oc s'"
  proof (cases "GetExceptionCleanupBB scs")
    case None
    with a(1) have em: "emit (ICall f) st = Some st'" by (simp add: gen_simple GenerateCallOrInvoke_def)
    have u: "unwound scs s' = Unwound (s_env s') (s_trace s')"
      using handlers_first [OF h] None by (simp add: unwound_def)
    have st: "cstep (e_rt E) (e_fun E) (here st s) = Some (if raised then unwound scs s' else here st' s')"
      using emit_at(1,2) [OF em a(3)] unfolding emit_at(3) [OF em a(3)] u by (simp add: here_def cstep_def c s')
    show ?thesis
    proof (cases raised)
      case True
      with st s' r all a(5) em live_of_all [OF all [OF True]] show ?thesis by (simp add: post_def reach_step)
    next
      case False
      with st s' a(5) em emit_open [OF em] show ?thesis by (simp add: post_def reach_step)
    qed
  next
    case (Some l)
    with a(1) obtain st1 where 1: "terminate (TInvoke f (b_next st) l) (new_blocks 1 st) = Some st1"
      "st' = SetInsertPoint (b_next st) st1"
      by (auto simp: gen_simple GenerateCallOrInvoke_def)
    have x: "ext (e_fun E) st1" using a(3) 1(2) by simp
    have i: "idle (b_next st) st1" by (rule idle_prims(2) [OF 1(1)]) (simp add: idle_new a(2))
    have st: "cstep (e_rt E) (e_fun E) (here st s) = Some (start_of (if raised then l else b_next st) s')"
      using terminate_cstep [OF 1(1) x, of _ s] by (simp add: c s')
    obtain cl where cl: "GetUnwindCleanupBB scs = Some cl" "b_code (e_fun E) l = [ILandingPad]" "b_term (e_fun E) l = Some (TBr cl)"
      using handlers_first [OF h] Some by auto
    show ?thesis
    proof (cases raised)
      case True
      have "goes E (here st s) (unwound scs s')"
        using reach_first [OF st [unfolded if_P [OF True]] landing [OF cl(2,3)]] by (simp add: unwound_def cl(1))
      with True s' r all a(5) 1 live_of_all [OF all [OF True]] show ?thesis by (simp add: post_def)
    next
      case False
      with st s' a(5) 1 idle_start [OF i, of s'] show ?thesis by (simp add: post_def reach_step)
    qed
  qed
qed

section \<open>Sequences\<close>

lemma managed_stmt_names: "set (managed [c]) \<subseteq> set (names_stmt c)"
  by (cases c) simp_all

lemma distinct_managed: "distinct (names_seq cs) \<Longrightarrow> distinct (managed cs)"
proof (induction cs rule: managed.induct)
  case (2 x cs)
  then show ?case using managed_names [of cs] by auto
qed simp_all

lemma managed_created:
  assumes "gen P scs loops fins (GStmt c) st = Some st'"
  shows "set (managed [c]) \<subseteq> set (b_alloc st')"
proof (cases c)
  case (OStmtVarManaged x)
  with assms show ?thesis by (auto simp: gen_simple)
qed simp_all

text \<open>The preconditions of the first statement and of those behind it.\<close>

lemma pre_head:
  assumes "pre E p k scs loops fins (managed (c # cs)) (names_seq (c # cs)) A"
  shows "pre E (before_perm cs p) k scs loops fins (managed [c]) (names_stmt c) A"
proof -
  from assms have "scoped A scs (managed [c] @ managed cs) (names_stmt c @ names_seq cs)"
    by (simp add: pre_def managed_append [of c cs])
  from scoped_head [OF this managed_stmt_names managed_names] assms show ?thesis
    by (cases "managed cs = []") (simp_all add: pre_def before_perm_def fins_ok_def loop_ok_def raise_ok_def managed_append [of c cs])
qed

lemma pre_tail:
  assumes "pre E p k scs loops fins (managed (c # cs)) (names_seq (c # cs)) (b_alloc st)"
    and g: "gen P scs loops fins (GStmt c) st = Some st1"
  shows "pre E p k scs loops fins (managed cs) (names_seq cs) (b_alloc st1)"
proof -
  have f: "fnames fins = {}" using assms(1) by (auto simp: pre_def fins_ok_names)
  from gen_adds [OF g] f have ad: "set (b_alloc st) \<subseteq> set (b_alloc st1)" "set (b_alloc st1) \<subseteq> set (b_alloc st) \<union> set (names_stmt c)"
    by (auto simp: adds_def)
  from assms(1) have "scoped (b_alloc st) scs (managed [c] @ managed cs) (names_stmt c @ names_seq cs)"
    by (simp add: pre_def managed_append [of c cs])
  from scoped_tail [OF this managed_stmt_names managed_names _ ad(2)] ad(1) managed_created [OF g]
  have "scoped (b_alloc st1) scs (managed cs) (names_seq cs)" by simp
  moreover have "set A \<subseteq> set (b_alloc st) \<union> set (managed (c # cs)) \<Longrightarrow> set A \<subseteq> set (b_alloc st1) \<union> set (managed cs)" for A
    using ad(1) managed_created [OF g] unfolding managed_append [of c cs] by auto
  ultimately show ?thesis using assms(1) by (simp add: pre_def raise_ok_def)
qed

lemma sim_seq:
  assumes c: "sim E (before_perm cs p) (length scs) scs loops fins (GStmt c) (CStmt c) (managed [c]) (names_stmt c)"
    and cs: "sim E p (length scs) scs loops fins (GSeq cs) (CSeq cs) (managed cs) (names_seq cs)"
  shows "sim E p (length scs) scs loops fins (GSeq (c # cs)) (CSeq (c # cs)) (managed (c # cs)) (names_seq (c # cs))"
proof (rule simI)
  fix n st st' s oc s'
  assume a: "gen (e_opts E) scs loops fins (GSeq (c # cs)) st = Some st'" "wfb st" "\<not> terminated st" "ext (e_fun E) st'"
    "pre E p (length scs) scs loops fins (managed (c # cs)) (names_seq (c # cs)) (b_alloc st)"
    "s_live s = live_of (b_alloc st) scs" "exec (Suc n) (e_rt E) (CSeq (c # cs)) s = Some (oc, s')"
  from a(1) obtain st1 where 1: "gen (e_opts E) scs loops fins (GStmt c) st = Some st1"
    "if terminated st1 then st' = st1 else gen (e_opts E) scs loops fins (GSeq cs) st1 = Some st'"
    by (auto simp: gen_seq bind_eq_Some_conv split: if_splits)
  from a(7) obtain o1 s1 where 2: "exec n (e_rt E) (CStmt c) s = Some (o1, s1)"
    "if o1 = Normal then exec n (e_rt E) (CSeq cs) s1 = Some (oc, s') else oc = o1 \<and> s' = s1"
    by (auto simp: exec.simps(2) split: option.splits if_splits)
  have w: "wfb st1" using gen_wfb [OF 1(1) _ a(2)] by simp
  have "ext st' st1" using 1(2) w by (auto split: if_splits intro: gen_ext)
  then have x: "ext (e_fun E) st1" using a(4) by (rule ext_trans [rotated])
  have f: "fnames fins = {}" using a(5) by (auto simp: pre_def fins_ok_names)
  have ad: "set (b_alloc st) \<subseteq> set (b_alloc st1)" "set (b_alloc st1) \<subseteq> set (b_alloc st) \<union> set (names_seq (c # cs))"
    using gen_adds [OF 1(1)] f by (auto simp: adds_def)
  have p1: "post E (before_perm cs p) scs loops fins (b_alloc st) (here st s) st1 o1 s1"
    by (rule simD [OF c 1(1) a(2,3) x pre_head [OF a(5)] a(6) 2(1)])
  show "post E p scs loops fins (b_alloc st) (here st s) st' oc s'"
  proof (cases "o1 = Normal")
    case False
    have m: "set (b_alloc st1) \<subseteq> set (b_alloc st')"
      using 1(2) gen_adds [of "e_opts E" scs loops fins "GSeq cs" st1 st'] by (auto simp: adds_def split: if_splits)
    have "oc = o1" "s' = s1" using 2(2) False by auto
    with post_after [OF p1 False m] show ?thesis by (simp add: before_perm_def)
  next
    case True
    with p1 have n1: "\<not> terminated st1" "s_live s1 = live_of (b_alloc st1) scs" "goes E (here st s) (here st1 s1)"
      by (auto simp: post_def)
    with 1(2) have g2: "gen (e_opts E) scs loops fins (GSeq cs) st1 = Some st'" by simp
    have "exec n (e_rt E) (CSeq cs) s1 = Some (oc, s')" using 2(2) True by simp
    from simD [OF cs g2 w n1(1) a(4) pre_tail [OF a(5) 1(1)] n1(2) this]
    have p2: "post E p scs loops fins (b_alloc st1) (here st1 s1) st' oc s'" .
    have "scoped (b_alloc st) scs (managed (c # cs)) (names_seq (c # cs))" using a(5) unfolding pre_def by blast
    from scoped_agree_tl [OF this ad] have ag: "agree (b_alloc st) (b_alloc st1) (tl scs)" .
    show ?thesis
      by (rule post_before [OF p2 n1(3)]) (rule exit_base_agree [OF ag], use a(5) in \<open>simp add: pre_def loop_ok_def\<close>)
  qed
qed

lemma sim_nil: "sim E p k scs loops fins (GSeq []) (CSeq []) [] []"
  by (rule simI) (auto simp: gen_seq exec.simps(2) post_def)

section \<open>Blocks\<close>

lemma handlers_Cons: "handlers G (sc # scs) \<longleftrightarrow> handlers G [sc] \<and> handlers G scs"
  by (auto simp: handlers_def)

lemma body_scope_owned [simp]: "sc_owned (body_scope P b n) = blk_owned b"
  by (simp add: body_scope_def)

lemma body_scope_cleanup: "sc_cleanup (body_scope P b n) = (if unwinds P b then Some (n + 1) else None)"
  by (simp add: body_scope_def)

lemma fins_ok_block: "fins_ok E p scs fins \<Longrightarrow> sc_owned sc = owned \<Longrightarrow> fins_ok E (block_perm ex owned p) (sc # scs) fins"
  unfolding fins_ok_def block_perm_def Let_def by (fastforce simp: Suc_diff_le split: prod.splits)

lemma pre_block:
  assumes pr: "pre E p (Suc (length scs)) scs loops fins [] (names_block b) A"
    and ok: "okb E p b" and h: "handlers (e_fun E) [body_scope (e_opts E) b n]"
  shows "pre E (block_perm (o_exceptions (e_opts E)) (blk_owned b) p) (length (body_scope (e_opts E) b n # scs))
    (body_scope (e_opts E) b n # scs) loops fins (managed (blk_stmts b)) (names_seq (blk_stmts b)) A"
proof -
  have o: "blk_owned b = managed (blk_stmts b)" using ok_blockD [OF ok] by simp
  have sc: "scoped A scs [] (names_seq (blk_stmts b))" using pr by (simp add: pre_def names_blk)
  then have "distinct (names_seq (blk_stmts b))" by (simp add: scoped_def)
  with distinct_managed have d: "distinct (managed (blk_stmts b))" .
  have "scoped A (body_scope (e_opts E) b n # scs) (managed (blk_stmts b)) (names_seq (blk_stmts b))"
    by (rule scoped_push [OF sc _ managed_names d]) (simp add: o)
  moreover have "handlers (e_fun E) (body_scope (e_opts E) b n # scs)"
    using pr h handlers_Cons [of "e_fun E" "body_scope (e_opts E) b n" scs] by (simp add: pre_def)
  moreover have "fins_ok E (block_perm (o_exceptions (e_opts E)) (blk_owned b) p) (body_scope (e_opts E) b n # scs) fins"
    by (rule fins_ok_block) (use pr in \<open>simp_all add: pre_def\<close>)
  moreover have "loop_ok (block_perm (o_exceptions (e_opts E)) (blk_owned b) p) (length (body_scope (e_opts E) b n # scs)) loops"
    using pr by (simp add: pre_def loop_ok_def block_perm_def Let_def)
  moreover have "scs \<noteq> []" using sc by (simp add: scoped_def)
  then have "raise_ok E (block_perm (o_exceptions (e_opts E)) (blk_owned b) p) (body_scope (e_opts E) b n # scs) (managed (blk_stmts b)) A"
    using pr by (cases scs)
      (auto simp: pre_def raise_ok_def block_perm_def Let_def o body_scope_cleanup unwinds_def)
  ultimately show ?thesis by (simp add: pre_def)
qed

text \<open>A jump out of a block destroys its objects with those of the blocks around it.\<close>

lemma block_jump:
  assumes po: "post E (block_perm ex (sc_owned sc) p) (sc # scs) loops fins A cfg st1 oc s1"
    and oc: "oc = Break \<or> oc = Continue \<or> oc = Return"
    and li: "lives (sc_owned sc) s s1" and s: "s_live s = live_of A scs"
    and f: "fins_ok E p scs fins" and l: "loop_ok p (Suc (length scs)) loops"
  shows "post E p scs loops fins A cfg st' oc (leave (length (s_live s)) s1)"
proof -
  let ?s = "leave (length (s_live s)) s1"
  have b: "exit_base A (sc # scs) loops = exit_base A scs loops" if "x_brk p"
    using l that by (simp add: exit_base_def loop_ok_def Suc_diff_le)
  have bl: "exit_base A scs loops \<le> length (s_live s)"
    unfolding exit_base_def s
    by (metis live_of_take_drop [of A scs "Suc (length scs) - l_depth (hd loops)"] length_append le_add2)
  have len: "length (s_live s) \<le> length (s_live s1)" using li by (auto simp: lives_def)
  have jump: "\<exists>s2'. fins_run (e_rt E) fins s1 s2' \<and> (\<forall>j \<le> length (s_live s). leave j s2' = leave j s2)"
    if r: "fins_run (e_rt E) fins ?s s2" and x: "x_brk (block_perm ex (sc_owned sc) p) \<or> x_ret (block_perm ex (sc_owned sc) p)" for s2
  proof (cases "x_try p")
    case False
    with f have "fins = []" by (simp add: fins_ok_def)
    with r leave_leave [OF _ len] show ?thesis by simp
  next
    case True
    with x have "sc_owned sc = []" by (auto simp: block_perm_def Let_def)
    with li have "s_live s1 = s_live s" by (simp add: lives_Nil)
    then have "?s = s1" by (metis leave_same)
    with r show ?thesis by auto
  qed
  from po oc have x: "x_brk (block_perm ex (sc_owned sc) p) \<or> x_ret (block_perm ex (sc_owned sc) p)"
    by (auto simp: post_def)
  have br: "x_brk (block_perm ex (sc_owned sc) p) \<Longrightarrow> x_brk p" "x_ret (block_perm ex (sc_owned sc) p) \<Longrightarrow> x_ret p"
    by (auto simp: block_perm_def Let_def)
  have env: "leave j s2' = leave j s2 \<Longrightarrow> s_env s2' = s_env s2" for j s2' s2 by (metis leave_simps)
  have fin: "goes E cfg (C s2)" if r: "fins_run (e_rt E) fins ?s s2"
    and g: "\<And>s2'. fins_run (e_rt E) fins s1 s2' \<Longrightarrow> goes E cfg (C' s2')"
    and c: "\<And>s2'. \<forall>j \<le> length (s_live s). leave j s2' = leave j s2 \<Longrightarrow> C' s2' = C s2" for C C' s2
    using jump [OF r x] g c by force
  from oc show ?thesis
  proof (elim disjE)
    assume o: "oc = Break"
    with po br have "x_brk p" by (simp add: post_def)
    note bb = b [OF this] bl
    show ?thesis unfolding post_def o outcome.case
      by (intro conjI allI impI \<open>x_brk p\<close>, erule fin [where C' = "\<lambda>s2. start_of (l_end (hd loops)) (leave (exit_base A (sc # scs) loops) s2)"])
        (use po bb in \<open>simp_all add: post_def o\<close>)
  next
    assume o: "oc = Continue"
    with po br have "x_brk p" by (simp add: post_def)
    note bb = b [OF this] bl
    show ?thesis unfolding post_def o outcome.case
      by (intro conjI allI impI \<open>x_brk p\<close>, erule fin [where C' = "\<lambda>s2. start_of (l_cond (hd loops)) (leave (exit_base A (sc # scs) loops) s2)"])
        (use po bb in \<open>simp_all add: post_def o\<close>)
  next
    assume o: "oc = Return"
    with po br have "x_ret p" by (simp add: post_def)
    show ?thesis unfolding post_def o outcome.case
    proof (intro conjI allI impI \<open>x_ret p\<close>, erule fin [where C' = "\<lambda>s2. Done (s_env s2) (s_trace (leave 0 s2))"])
      fix s2 s2'
      show "goes E cfg (Done (s_env s2') (s_trace (leave 0 s2')))" if "fins_run (e_rt E) fins s1 s2'"
        using po that by (simp add: post_def o)
      assume "\<forall>j \<le> length (s_live s). leave j s2' = leave j s2"
      then have "leave 0 s2' = leave 0 s2" by simp
      with env [OF this] show "Done (s_env s2') (s_trace (leave 0 s2')) = Done (s_env s2) (s_trace (leave 0 s2))" by simp
    qed
  qed
qed

lemma here_cong: "s_env s = s_env s' \<Longrightarrow> s_trace s = s_trace s' \<Longrightarrow> here st s = here st s'"
  "s_env s = s_env s' \<Longrightarrow> s_trace s = s_trace s' \<Longrightarrow> start_of b s = start_of b s'"
  "s_env s = s_env s' \<Longrightarrow> s_trace s = s_trace s' \<Longrightarrow> unwound scs s = unwound scs s'"
  by (simp_all add: here_def start_of_def unwound_def split: option.split)

lemma leave_destroyed:
  assumes "s_live s1 = X @ s_live s"
  shows "s_env (destroyed X s1) = s_env (leave (length (s_live s)) s1)"
    "s_trace (destroyed X s1) = s_trace (leave (length (s_live s)) s1)"
    "s_live (leave (length (s_live s)) s1) = s_live s"
  using leave_append [OF assms] by (simp_all add: destroyed_def)

lemma terminated_cur: "terminated (SetInsertPoint b st) \<longleftrightarrow> b_term st b \<noteq> None"
  by (simp add: terminated_def SetInsertPoint_def)

text \<open>Destruction of a scope's objects where all of them, or those created so far, are alive.\<close>

lemma owned_destroys:
  assumes "EmitOwnedObjectDestructors sc st = Some st'" "ext G st'" "X = filter (\<lambda>x. x \<in> set (b_alloc st)) (rev (sc_owned sc))"
  shows "reach R G (here st s) (here st' (destroyed X s)) \<and> b_alloc st' = b_alloc st"
  using destroys_reach [OF assms(1) [unfolded EmitOwnedObjectDestructors_def] assms(2)]
    b_alloc_ends(3) [OF assms(1)] assms(3) by simp

lemma sim_block:
  assumes ok: "okb E p b"
    and IH: "\<And>p sc. ok_seq (e_nothrow E) (o_exceptions (e_opts E)) p (blk_stmts b) \<Longrightarrow>
      sim E p (length (sc # scs)) (sc # scs) loops fins (GSeq (blk_stmts b)) (CSeq (blk_stmts b)) (managed (blk_stmts b)) (names_seq (blk_stmts b))"
  shows "sim E p (Suc (length scs)) scs loops fins (GBlock b) (CBlock b) [] (names_block b)"
proof (rule simI)
  fix n st st' s oc s'
  assume g: "gen (e_opts E) scs loops fins (GBlock b) st = Some st'" and w: "wfb st" and op: "\<not> terminated st"
    and x: "ext (e_fun E) st'" and pr: "pre E p (Suc (length scs)) scs loops fins [] (names_block b) (b_alloc st)"
    and lv: "s_live s = live_of (b_alloc st) scs" and ex: "exec (Suc n) (e_rt E) (CBlock b) s = Some (oc, s')"
  define P where "P = e_opts E"
  define owned where "owned = blk_owned b"
  define p' where "p' = block_perm (o_exceptions P) owned p"
  from ok_blockD [OF ok] have o: "owned = managed (blk_stmts b)" and okq: "ok_seq (e_nothrow E) (o_exceptions P) p' (blk_stmts b)"
    unfolding owned_def P_def p'_def by blast+
  from ex obtain s1 where 1: "exec n (e_rt E) (CSeq (blk_stmts b)) s = Some (oc, s1)" "s' = leave (length (s_live s)) s1"
    by (auto simp: exec.simps(2))
  have li: "lives owned s s1" using exec_lives [OF 1(1)] by (simp add: o)
  have fo: "fins_ok E p scs fins" "loop_ok p (Suc (length scs)) loops" using pr by (simp_all add: pre_def)
  have sim: "post E p' (sc # scs) loops fins (b_alloc st) (here st s) st1 oc s1"
    if "sc = body_scope P b m" "gen P (sc # scs) loops fins (GSeq (blk_stmts b)) st0 = Some st1" "wfb st0"
      "\<not> terminated st0" "b_alloc st0 = b_alloc st" "here st0 s = here st s" "ext (e_fun E) st1" "handlers (e_fun E) [sc]" for sc st0 st1 m
  proof -
    have "body_scope (e_opts E) b m = sc" using that(1) by (simp add: P_def)
    from pre_block [OF pr ok, of m] that(8)
    have "pre E p' (length (sc # scs)) (sc # scs) loops fins (managed (blk_stmts b)) (names_seq (blk_stmts b)) (b_alloc st0)"
      by (simp add: that(5) p'_def owned_def P_def \<open>body_scope (e_opts E) b m = sc\<close>)
    moreover have "s_live s = live_of (b_alloc st0) (sc # scs)"
    proof -
      have "filter (\<lambda>x. x \<in> set (b_alloc st)) (rev owned) = []"
        using pr managed_names [of "blk_stmts b"]
        by (cases "names_block b = []") (auto simp: pre_def scoped_def names_blk o filter_empty_conv)
      then show ?thesis using lv by (simp add: that(1,5) owned_def)
    qed
    ultimately show ?thesis
      using simD [OF IH [OF okq [unfolded P_def]] that(2) [unfolded P_def] that(3,4,7) _ _ 1(1)] that(5,6) by simp
  qed
  have agr: "live_of (b_alloc st1) scs = s_live s" if "gen P scs' loops fins (GSeq (blk_stmts b)) st0 = Some st1" "b_alloc st0 = b_alloc st" for st0 st1 scs'
  proof -
    have "fnames fins = {}" using fins_ok_names [OF fo(1)] .
    with gen_adds [OF that(1)] have "set (b_alloc st) \<subseteq> set (b_alloc st1)" "set (b_alloc st1) \<subseteq> set (b_alloc st) \<union> set (names_block b)"
      by (auto simp: adds_def names_blk that(2))
    with scoped_agree [of "b_alloc st" scs "names_block b" "b_alloc st1"] pr have "agree (b_alloc st) (b_alloc st1) scs" by (simp add: pre_def)
    from agree_live [OF this] lv show ?thesis by simp
  qed
  have bj: "post E p scs loops fins (b_alloc st) (here st s) st' oc s'"
    if "oc = Break \<or> oc = Continue \<or> oc = Return" "post E p' (sc # scs) loops fins (b_alloc st) (here st s) st1 oc s1"
      "sc_owned sc = owned" for sc st1
    unfolding 1(2)
    by (rule block_jump [where sc = sc and ex = "o_exceptions P" and ?st1.0 = st1, OF _ that(1) _ lv fo])
      (use that(2,3) li in \<open>simp_all add: p'_def\<close>)
  show "post E p scs loops fins (b_alloc st) (here st s) st' oc s'"
  proof (cases "unwinds P b")
    case False
    define sc where "sc = body_scope P b 0"
    from g obtain st1 where g1: "gen P (sc # scs) loops fins (GSeq (blk_stmts b)) st = Some st1"
      "if terminated st1 then st' = st1 else EmitOwnedObjectDestructors sc st1 = Some st'"
      by (auto simp: gen_block_plain [OF False, where n = 0, unfolded P_def] P_def sc_def bind_eq_Some_conv split: if_splits)
    have x1: "ext (e_fun E) st1"
      using g1(2) x ext_trans [OF x] ext_destroys by (auto simp: EmitOwnedObjectDestructors_def split: if_splits)
    have al: "b_alloc st' = b_alloc st1" using g1(2) b_alloc_ends(3) by (auto split: if_splits)
    have h: "handlers (e_fun E) [sc]" using False by (simp add: handlers_def sc_def body_scope_def)
    from sim [OF sc_def g1(1) w op refl refl x1 h] have po: "post E p' (sc # scs) loops fins (b_alloc st) (here st s) st1 oc s1" .
    have ow: "sc_owned sc = owned" by (simp add: sc_def owned_def)
    show ?thesis
    proof (cases oc)
      case Normal
      with po have n1: "\<not> terminated st1" "s_live s1 = live_of (b_alloc st1) (sc # scs)" "goes E (here st s) (here st1 s1)"
        by (auto simp: post_def)
      define X where "X = filter (\<lambda>x. x \<in> set (b_alloc st1)) (rev owned)"
      have "s_live s1 = X @ s_live s" using n1(2) agr [OF g1(1) refl] by (simp add: X_def ow)
      note le = leave_destroyed [OF this]
      have d: "EmitOwnedObjectDestructors sc st1 = Some st'" using g1(2) n1(1) by simp
      from owned_destroys [OF d x] have "goes E (here st1 s1) (here st' (destroyed X s1))" by (simp add: X_def ow)
      also have "here st' (destroyed X s1) = here st' s'" unfolding 1(2) by (rule here_cong) (rule le)+
      finally have "goes E (here st s) (here st' s')" using reach_trans [OF n1(3)] by blast
      moreover have "\<not> terminated st'" using destroys_open d n1(1) unfolding EmitOwnedObjectDestructors_def by blast
      ultimately show ?thesis using le(3) agr [OF g1(1) refl] by (simp add: post_def Normal 1(2) al)
    next
      case Raise
      with po have r: "x_raise p'" "\<forall>sc\<in>set (sc # scs). set (sc_owned sc) \<subseteq> set (b_alloc st1)"
        "s_live s1 = concat (map (rev \<circ> sc_owned) (sc # scs))" "goes E (here st s) (unwound (sc # scs) s1)"
        by (auto simp: post_def)
      have xr: "x_raise p" using r(1) by (simp add: p'_def block_perm_def Let_def)
      with pr have "o_exceptions P" by (simp add: pre_def raise_ok_def P_def)
      with False have e: "owned = []" by (simp add: unwinds_def owned_def)
      with li have "s_live s1 = s_live s" by (simp add: lives_Nil)
      then have "s' = s1" using 1(2) by (metis leave_same)
      moreover have "unwound (sc # scs) s1 = unwound scs s1"
        using False by (simp add: unwound_def GetUnwindCleanupBB_def sc_def body_scope_def)
      ultimately show ?thesis using r xr e ow al by (simp add: post_def Raise)
    qed (use bj [OF _ po ow] in simp_all)
  next
    case True
    define m where "m = b_next st"
    define sc where "sc = body_scope P b m"
    from gen_block_unwind_steps [OF True g [folded P_def] m_def sc_def] obtain st1 st2 st3 st4 st5 where g1:
      "gen P (sc # scs) loops fins (GSeq (blk_stmts b)) (new_blocks 3 st) = Some st1"
      "block_end sc (TBr (m + 2)) st1 = Some st2" "pad_block m (TBr (m + 1)) st2 = Some st3"
      "EmitOwnedObjectDestructors sc (SetInsertPoint (m + 1) st3) = Some st4"
      "terminate (unwind_to (GetUnwindCleanupBB scs)) st4 = Some st5" "st' = SetInsertPoint (m + 2) st5" .
    have fr: "frame (new_blocks 3 st) st1" by (rule gen_frame [OF g1(1) _ wfb_new [OF w]]) simp
    have i1: "idle j st1" if "j \<in> {m, m + 1, m + 2}" for j
      by (rule idle_frame [OF fr idle_new [OF w]]) (use that in \<open>auto simp: m_def\<close>)
    have i2: "idle j st2" if "j \<in> {m, m + 1, m + 2}" for j using idle_end [OF g1(2) i1 [OF that]] .
    have i3: "idle j st3" if "j \<in> {m + 1, m + 2}" for j using idle_pad [OF g1(3) i2] that by auto
    have i5: "idle (m + 2) st5"
    proof -
      have "idle (m + 2) st4"
        using idle_destroys [OF g1(4) [unfolded EmitOwnedObjectDestructors_def]] idle_set [OF i3] by simp
      from idle_prims(2) [OF g1(5) this] show ?thesis .
    qed
    have x5: "ext (e_fun E) st5" using x g1(6) by simp
    have x4: "ext (e_fun E) st4" by (rule ext_trans [OF x5 ext_prims(2) [OF g1(5)]])
    have x3: "ext (e_fun E) st3" using ext_trans [OF x4 ext_destroys] g1(4) unfolding EmitOwnedObjectDestructors_def by fastforce
    have x2: "ext (e_fun E) st2" by (rule ext_trans [OF x3 ext_pad [OF g1(3)]])
    have x1: "ext (e_fun E) st1" by (rule ext_trans [OF x2 ext_end [OF g1(2)]])
    have pad: "b_code (e_fun E) m = [ILandingPad] \<and> b_term (e_fun E) m = Some (TBr (m + 1))"
      by (rule pad_at [OF g1(3) i2 x3]) simp
    have h: "handlers (e_fun E) [sc]" using True pad by (simp add: handlers_def sc_def body_scope_def)
    have al: "b_alloc st3 = b_alloc st1" "b_alloc st' = b_alloc st1"
      using b_alloc_ends(1) [OF g1(3)] b_alloc_ends(2) [OF g1(2)] b_alloc_ends(3) [OF g1(4)] g1(5,6) by simp_all
    have op0: "\<not> terminated (new_blocks 3 st)" using op by (simp add: terminated_def new_blocks_def)
    from sim [OF sc_def g1(1) wfb_new [OF w] op0 _ _ x1 h]
    have po: "post E p' (sc # scs) loops fins (b_alloc st) (here st s) st1 oc s1" by simp
    have ow: "sc_owned sc = owned" by (simp add: sc_def owned_def)
    show ?thesis
    proof (cases oc)
      case Normal
      with po have n1: "\<not> terminated st1" "s_live s1 = live_of (b_alloc st1) (sc # scs)" "goes E (here st s) (here st1 s1)"
        by (auto simp: post_def)
      define X where "X = filter (\<lambda>x. x \<in> set (b_alloc st1)) (rev owned)"
      have "s_live s1 = X @ s_live s" using n1(2) agr [OF g1(1)] by (simp add: X_def ow)
      note le = leave_destroyed [OF this]
      from g1(2) n1(1) obtain st1' where d: "EmitOwnedObjectDestructors sc st1 = Some st1'" "terminate (TBr (m + 2)) st1' = Some st2"
        by (auto simp: block_end_def bind_eq_Some_conv)
      from owned_destroys [OF d(1) ext_trans [OF x2 ext_prims(2) [OF d(2)]]]
      have "goes E (here st1 s1) (here st1' (destroyed X s1))" by (simp add: X_def ow)
      also have "here st1' (destroyed X s1) = here st1' s'" unfolding 1(2) by (rule here_cong) (rule le)+
      finally have "goes E (here st s) (here st1' s')" using reach_trans [OF n1(3)] by blast
      from reach_trans [OF this terminate_br [OF d(2) x2]] have "goes E (here st s) (here st' s')"
        using idle_start [OF i5, of s'] by (simp add: g1(6))
      moreover have "\<not> terminated st'" using idle_start [OF i5] by (simp add: g1(6))
      ultimately show ?thesis using le(3) agr [OF g1(1)] by (simp add: post_def Normal 1(2) al)
    next
      case Raise
      with po have r: "x_raise p'" "\<forall>sc\<in>set (sc # scs). set (sc_owned sc) \<subseteq> set (b_alloc st1)"
        "s_live s1 = concat (map (rev \<circ> sc_owned) (sc # scs))" "goes E (here st s) (unwound (sc # scs) s1)"
        by (auto simp: post_def)
      have xr: "x_raise p" using r(1) by (simp add: p'_def block_perm_def Let_def)
      have "filter (\<lambda>x. x \<in> set (b_alloc st1)) (rev owned) = rev owned" by (rule filter_True) (use r(2) ow in auto)
      moreover have "live_of (b_alloc st1) scs = concat (map (rev \<circ> sc_owned) scs)" by (rule live_of_all) (use r(2) in simp)
      ultimately have sl: "s_live s1 = rev owned @ s_live s" using r(3) agr [OF g1(1)] by (simp add: ow)
      note le = leave_destroyed [OF this]
      have "unwound (sc # scs) s1 = here (SetInsertPoint (m + 1) st3) s1"
        using True idle_start [OF i3, of "m + 1" s1] by (simp add: unwound_def GetUnwindCleanupBB_def sc_def body_scope_def)
      also have "goes E \<dots> (here st4 (destroyed (rev owned) s1))"
        using owned_destroys [OF g1(4) x4 refl, of _ s1] al(1) ow
          \<open>filter (\<lambda>x. x \<in> set (b_alloc st1)) (rev owned) = rev owned\<close> by simp
      also have "here st4 (destroyed (rev owned) s1) = here st4 s'" unfolding 1(2) by (rule here_cong) (rule le)+
      also have "goes E (here st4 s') (unwound scs s')"
        using terminate_unwind [OF g1(5) x5, of _ s'] by (simp add: unwound_def)
      finally have "goes E (unwound (sc # scs) s1) (unwound scs s')" .
      from reach_trans [OF r(4) this] show ?thesis
        using r(2) xr le(3) agr [OF g1(1)] \<open>live_of (b_alloc st1) scs = concat (map (rev \<circ> sc_owned) scs)\<close>
        by (simp add: post_def Raise 1(2) al)
    qed (use bj [OF _ po ow] in simp_all)
  qed
qed

section \<open>Jumps\<close>

text \<open>The \<open>finally\<close> blocks in front of a jump.\<close>

definition fins_sim :: "'f senv \<Rightarrow> 'f fins \<Rightarrow> bool" where
  "fins_sim E fins \<longleftrightarrow> (\<forall>d f rest scs loops. suffix ((d, f) # rest) fins \<longrightarrow> okb E fin_perm f \<longrightarrow>
     sim E fin_perm (Suc (length scs)) scs loops rest (GBlock f) (CBlock f) [] (names_block f))"

lemma fin_perm_simps [simp]:
  "x_try fin_perm" "\<not> x_brk fin_perm" "\<not> x_ret fin_perm" "\<not> x_own fin_perm" "\<not> x_raise fin_perm"
  by (simp_all add: fin_perm_def)

lemma post_fin: "post E fin_perm scs loops fins A cfg st' oc s \<Longrightarrow> oc = Normal"
  by (cases oc) (simp_all add: post_def)

lemma ok_fin_names: "okb E fin_perm f \<Longrightarrow> names_block f = []"
  using ok_no_names(3) fin_perm_simps(4) by blast

lemma pre_fin:
  assumes "handlers (e_fun E) scs" "scs \<noteq> []" "fins_ok E p scs fins" "x_try p" "okb E fin_perm f"
  shows "pre E fin_perm k scs loops fins [] (names_block f) A"
  using assms by (auto simp: pre_def ok_fin_names scoped_def fins_ok_def loop_ok_def raise_ok_def)

lemma live_of_owns_nothing: "(\<forall>sc\<in>set scs. sc_owned sc = []) \<Longrightarrow> live_of A scs = []"
  by (induction scs) simp_all

lemma sim_active:
  assumes "gen (e_opts E) scs loops fins EmitActiveFinallyBlocks st = Some st'"
    and "fins_run (e_rt E) fins s s2" "fins_sim E fins" "fins_ok E p scs fins" "x_brk p \<or> x_ret p"
    and "handlers (e_fun E) scs" "wfb st" "\<not> terminated st" "ext (e_fun E) st'" "s_live s = live_of (b_alloc st) scs"
  shows "\<not> terminated st' \<and> set (b_alloc st') = set (b_alloc st) \<and> s_live s2 = s_live s \<and> wfb st' \<and> goes E (here st s) (here st' s2)"
  using assms
proof (induction fins arbitrary: st s)
  case Nil
  then show ?case by (simp add: gen_active)
next
  case (Cons df rest)
  obtain d f where df: "df = (d, f)" by (cases df)
  define scs' where "scs' = drop (length scs - d) scs"
  note prems = Cons.prems [unfolded df]
  from prems(1) obtain st1 where 1: "gen (e_opts E) scs' loops rest (GBlock f) st = Some st1"
    "if terminated st1 then st' = st1 else gen (e_opts E) scs loops rest EmitActiveFinallyBlocks st1 = Some st'"
    by (auto simp: gen_active bind_eq_Some_conv scs'_def split: if_splits)
  from prems(2) obtain n s1 where 2: "exec n (e_rt E) (CBlock f) s = Some (Normal, s1)" "fins_run (e_rt E) rest s1 s2" by auto
  have w: "wfb st1" using gen_wfb [OF 1(1) _ prems(7)] by simp
  have "ext st' st1" using 1(2) w by (auto split: if_splits intro: gen_ext)
  then have x: "ext (e_fun E) st1" using prems(9) by (rule ext_trans [rotated])
  from prems(4,5) have f: "1 \<le> d" "d \<le> length scs" "okb E fin_perm f" "\<forall>sc\<in>set (take (length scs - d) scs). sc_owned sc = []"
    "x_try p" by (auto simp: fins_ok_def)
  have fr: "fins_ok E p scs rest" using prems(4) by (auto simp: fins_ok_def)
  have fr': "fins_ok E fin_perm scs' rest"
  proof -
    have "d' \<le> d" if "(d', f') \<in> set rest" for d' f'
      using prems(4) that by (force simp: fins_ok_def)
    then show ?thesis using prems(4) f(1,2) by (auto simp: fins_ok_def scs'_def)
  qed
  have s': "scs' \<noteq> []" using f(1,2) by (simp add: scs'_def)
  have h: "handlers (e_fun E) scs'" using prems(6) unfolding handlers_def scs'_def by (meson in_set_dropD)
  have lv: "s_live s = live_of (b_alloc st) scs'"
    using prems(10) live_of_owns_nothing [OF f(4)] live_of_take_drop [of "b_alloc st" scs "length scs - d"] by (simp add: scs'_def)
  have fs: "sim E fin_perm (Suc (length scs')) scs' loops rest (GBlock f) (CBlock f) [] (names_block f)"
    by (rule prems(3) [unfolded fins_sim_def, rule_format, OF suffix_order.order_refl f(3)])
  have po: "post E fin_perm scs' loops rest (b_alloc st) (here st s) st1 Normal s1"
    by (rule simD [OF fs 1(1) prems(7,8) x pre_fin [OF h s' fr' _ f(3)] lv 2(1)]) simp
  have ad: "set (b_alloc st1) = set (b_alloc st)"
    using gen_adds [OF 1(1)] fins_ok_names [OF fr] ok_fin_names [OF f(3)] by (auto simp: adds_def)
  have ls: "s_live s1 = s_live s" using exec_lives [OF 2(1)] by (simp add: lives_Nil)
  have n1: "\<not> terminated st1" "goes E (here st s) (here st1 s1)" using po by (simp_all add: post_def)
  have g2: "gen (e_opts E) scs loops rest EmitActiveFinallyBlocks st1 = Some st'" using 1(2) n1(1) by simp
  have fsr: "fins_sim E rest" using prems(3) unfolding fins_sim_def by (meson suffix_ConsI)
  have "live_of (b_alloc st1) scs = live_of (b_alloc st) scs" by (rule agree_live) (simp add: agree_def ad)
  then have "s_live s1 = live_of (b_alloc st1) scs" using ls prems(10) by simp
  from Cons.IH [OF g2 2(2) fsr fr prems(5,6) w n1(1) prems(9) this] show ?case
    using n1(2) ad ls reach_trans by auto
qed

text \<open>The objects of the first \<open>k\<close> scopes are destroyed, then control is transferred.\<close>

lemma jump_reach:
  assumes "jump k scs t st = Some st'" "\<not> terminated st" "ext (e_fun E) st'" "s_live s = live_of (b_alloc st) scs"
    and "j = length (live_of (b_alloc st) (drop k scs))"
  shows "\<exists>st1. goes E (here st s) (here st1 (leave j s)) \<and> terminate t st1 = Some st'"
proof -
  from assms(1,2) obtain st1 where 1: "EmitOwnedObjectDestructorsUntil k scs st = Some st1" "terminate t st1 = Some st'"
    by (auto simp: jump_def bind_eq_Some_conv)
  define X where "X = live_of (b_alloc st) (take k scs)"
  have l: "s_live s = X @ live_of (b_alloc st) (drop k scs)"
    unfolding X_def assms(4) by (rule live_of_take_drop)
  from leave_append [OF this] assms(5) have "leave j s = s\<lparr>s_trace := s_trace s @ map EvDestroy X, s_live := live_of (b_alloc st) (drop k scs)\<rparr>"
    by simp
  then have "here st1 (destroyed X s) = here st1 (leave j s)" by (intro here_cong) (simp_all add: destroyed_def)
  moreover have "goes E (here st s) (here st1 (destroyed X s))"
    using destroys_reach [OF 1(1) [unfolded EmitOwnedObjectDestructorsUntil_def]] ext_trans [OF assms(3) ext_prims(2) [OF 1(2)]]
    by (simp add: X_def live_of_filter)
  ultimately show ?thesis using 1(2) by auto
qed

lemma sim_jump:
  assumes g: "Option.bind (active (e_opts E) scs loops fins st) (jump (Suc (length scs) - d) scs t) = Some st'"
    and st: "wfb st" "\<not> terminated st" "ext (e_fun E) st'" "pre E p k scs loops fins M N (b_alloc st)"
      "s_live s = live_of (b_alloc st) scs" "fins_sim E fins" "x_brk p \<or> x_ret p" "fins_run (e_rt E) fins s s2"
    and j: "j = length (live_of (b_alloc st) (drop (Suc (length scs) - d) scs))"
  shows "\<exists>st1. goes E (here st s) (here st1 (leave j s2)) \<and> terminate t st1 = Some st'"
proof -
  from g obtain st1 where 1: "active (e_opts E) scs loops fins st = Some st1" "jump (Suc (length scs) - d) scs t st1 = Some st'"
    by (auto simp: bind_eq_Some_conv)
  have w: "wfb st1" using gen_wfb [OF 1(1) _ st(1)] by simp
  have x: "ext (e_fun E) st1"
  proof (cases "terminated st1")
    case True
    with 1(2) st(3) show ?thesis by (simp add: jump_def)
  next
    case False
    with 1(2) obtain st2 where "emit_destroys (concat (map (rev \<circ> sc_owned) (take (Suc (length scs) - d) scs))) st1 = Some st2" "terminate t st2 = Some st'"
      by (auto simp: jump_def EmitOwnedObjectDestructorsUntil_def bind_eq_Some_conv)
    with st(3) show ?thesis using ext_destroys ext_prims(2) ext_trans by metis
  qed
  have "fins_ok E p scs fins" "handlers (e_fun E) scs" using st(4) by (simp_all add: pre_def)
  from sim_active [OF 1(1) st(8,6) this(1) st(7) this(2) st(1,2) x st(5)]
  have a: "\<not> terminated st1" "set (b_alloc st1) = set (b_alloc st)" "s_live s2 = s_live s" "goes E (here st s) (here st1 s2)"
    by simp_all
  have ag: "agree (b_alloc st) (b_alloc st1) ys" for ys by (simp add: agree_def a(2))
  have "s_live s2 = live_of (b_alloc st1) scs" using a(3) st(5) agree_live [OF ag] by simp
  from jump_reach [OF 1(2) a(1) st(3) this] j agree_live [OF ag] reach_trans [OF a(4)] show ?thesis by fastforce
qed

lemma sim_break_continue:
  assumes "c = OBreakStmt \<or> c = OContinueStmt" "x_brk p" "fins_sim E fins"
  shows "sim E p (length scs) scs loops fins (GStmt c) (CStmt c) [] []"
proof (rule simI)
  fix n st st' s oc s'
  assume a: "gen (e_opts E) scs loops fins (GStmt c) st = Some st'" "wfb st" "\<not> terminated st" "ext (e_fun E) st'"
    "pre E p (length scs) scs loops fins [] [] (b_alloc st)" "s_live s = live_of (b_alloc st) scs"
    "exec (Suc n) (e_rt E) (CStmt c) s = Some (oc, s')"
  from a(5) assms(2) obtain l ls where l: "loops = l # ls" by (cases loops) (auto simp: pre_def loop_ok_def)
  have dc: "\<exists>st1. goes E (here st s) (here st1 (leave (exit_base (b_alloc st) scs loops) s2)) \<and> terminate t st1 = Some st'"
    if "Option.bind (active (e_opts E) scs loops fins st) (jump (Suc (length scs) - l_depth l) scs t) = Some st'"
      "fins_run (e_rt E) fins s s2" for t s2
    by (rule sim_jump [OF that(1) a(2-6) assms(3) _ that(2)]) (simp_all add: assms(2) exit_base_def l)
  have "goes E (here st s) (start_of b (leave (exit_base (b_alloc st) scs loops) s2))"
    if "Option.bind (active (e_opts E) scs loops fins st) (jump (Suc (length scs) - l_depth l) scs (TBr b)) = Some st'"
      "fins_run (e_rt E) fins s s2" for b s2
    using dc [OF that] reach_trans [OF _ terminate_br [OF _ a(4)]] by blast
  with assms(1,2) a(1,7) l show "post E p scs loops fins (b_alloc st) (here st s) st' oc s'"
    by (auto simp: gen_jumps exec.simps(2) post_def)
qed

lemma sim_return:
  assumes e: "env_ok E" and "x_ret p" "fins_sim E fins"
  shows "sim E p k scs loops fins (GStmt (OStmtReturn e)) (CStmt (OStmtReturn e)) [] []"
proof (rule simI)
  fix n st st' s oc s'
  assume a: "gen (e_opts E) scs loops fins (GStmt (OStmtReturn e)) st = Some st'" "wfb st" "\<not> terminated st" "ext (e_fun E) st'"
    "pre E p k scs loops fins [] [] (b_alloc st)" "s_live s = live_of (b_alloc st) scs"
    "exec (Suc n) (e_rt E) (CStmt (OStmtReturn e)) s = Some (oc, s')"
  have ret: "post E p scs loops fins (b_alloc st) (here st s) st' Return s'"
    if g: "Option.bind (active (e_opts E) scs loops fins st1) (jump (length scs) scs TRet) = Some st'"
      and w: "wfb st1" "\<not> terminated st1" "goes E (here st s) (here st1 s')" "b_alloc st1 = b_alloc st" "s_live s' = s_live s" for st1
  proof -
    have "goes E (here st s) (Done (s_env s2) (s_trace (leave 0 s2)))" if r: "fins_run (e_rt E) fins s' s2" for s2
    proof -
      obtain st2 where 2: "goes E (here st1 s') (here st2 (leave 0 s2))" "terminate TRet st2 = Some st'"
        using sim_jump [of E scs loops fins st1 1 TRet st' p k "[]" "[]" s' s2 0] g w a(4,5,6) assms(2,3) r by auto
      have "cstep (e_rt E) (e_fun E) (here st2 (leave 0 s2)) = Some (Done (s_env s2) (s_trace (leave 0 s2)))"
        by (simp add: terminate_cstep [OF 2(2) a(4)])
      from reach_trans [OF w(3) reach_trans [OF 2(1) reach_step [OF this]]] show ?thesis .
    qed
    then show ?thesis using assms(2) by (simp add: post_def)
  qed
  show "post E p scs loops fins (b_alloc st) (here st s) st' oc s'"
  proof (cases e)
    case None
    with a ret [of st] show ?thesis by (auto simp: gen_jumps exec.simps(2))
  next
    case (Some e')
    with a(1) obtain st1 where 1: "gen_store (e_opts E) ''result'' e' st = Some st1"
      "Option.bind (active (e_opts E) scs loops fins st1) (jump (length scs) scs TRet) = Some st'"
      by (auto simp: gen_jumps bind_eq_Some_conv split: if_splits)
    from a(7) Some obtain o1 where 2: "do_assign ''result'' (eval_expr (e_rt E) e' (s_env s)) s = Some (o1, s')" "oc = Return"
      by (auto simp: exec.simps(2))
    have w: "wfb st1" using 1(1) emit_wfb [OF a(2)] by (auto simp: gen_store_def bind_eq_Some_conv)
    have x: "ext (e_fun E) st1"
    proof -
      obtain st2 where "active (e_opts E) scs loops fins st1 = Some st2" "jump (length scs) scs TRet st2 = Some st'"
        using 1(2) by (auto simp: bind_eq_Some_conv)
      moreover from this(2) have "ext st' st2"
        by (auto simp: jump_def EmitOwnedObjectDestructorsUntil_def bind_eq_Some_conv split: if_splits
            intro: ext_trans ext_prims ext_destroys)
      ultimately show ?thesis using gen_ext [OF _ _ w] ext_trans a(4) by (metis gcode.distinct(20))
    qed
    from store_sim [OF 1(1) x a(6) e 2(1)] have "\<not> terminated st1" "goes E (here st s) (here st1 s')" by (simp_all add: post_def)
    moreover have "b_alloc st1 = b_alloc st" by (rule b_alloc_ends(6) [OF 1(1)])
    moreover have "s_live s' = s_live s" using exec_assign [OF 2(1)] by simp
    ultimately show ?thesis using ret [OF 1(2) w] 2(2) by simp
  qed
qed

section \<open>Loops\<close>

lemma cond_step:
  assumes "env_ok E" "gen_cond (e_opts E) e = Some g" "terminate (TCondBr g t f) st = Some st'" "ext (e_fun E) st'"
    and "cond_val (e_rt E) e (s_env s) = Some v"
  shows "goes E (here st s) (start_of (if v then t else f) s)"
proof -
  have "Generate (o_target (e_opts E)) (o_fpu (e_opts E)) e = Some g"
    using assms(2) by (simp add: gen_cond_def split: if_splits)
  with assms(1,5) obtain w p where "ll_eval (r_sem (e_rt E)) (s_env s) g = Some (w, p)" "v = (p \<noteq> 0)"
    by (auto simp: cond_val_def eval_expr_def run_expr_def env_ok_def)
  then show ?thesis by (intro reach_step) (simp add: terminate_cstep [OF assms(3,4)])
qed

text \<open>A loop from its condition: \<open>Q\<close> is what holds when the loop is left by \<open>return\<close> or an exception.\<close>

definition quits :: "outcome \<Rightarrow> bool" where
  "quits oc \<longleftrightarrow> oc = Return \<or> oc = Raise"

lemma loop_reach:
  assumes cond: "\<And>s v. cond_val (e_rt E) e (s_env s) = Some v \<Longrightarrow> goes E (start_of c s) (start_of (if v then bb else eb) s)"
    and body: "\<And>m s oc s1. s_live s = L \<Longrightarrow> exec m (e_rt E) (CBlock b) s = Some (oc, s1) \<Longrightarrow>
      oc = Break \<and> goes E (start_of bb s) (start_of eb s1) \<or>
      (oc = Normal \<or> oc = Continue) \<and> goes E (start_of bb s) (start_of nx s1) \<or> quits oc \<and> Q (start_of bb s) oc s1"
    and step: "\<And>m s oc s1 sb. stp = Some sb \<Longrightarrow> s_live s = L \<Longrightarrow> exec m (e_rt E) (CBlock sb) s = Some (oc, s1) \<Longrightarrow>
      oc = Normal \<and> goes E (start_of nx s) (start_of c s1) \<or> quits oc \<and> Q (start_of nx s) oc s1"
    and none: "stp = None \<Longrightarrow> nx = c"
    and Q: "\<And>a b oc s. goes E a b \<Longrightarrow> Q b oc s \<Longrightarrow> Q a oc s"
    and ex: "exec n (e_rt E) (CLoop e b stp) s = Some (oc, s')" and lv: "s_live s = L"
  shows "oc = Normal \<and> goes E (start_of c s) (start_of eb s') \<or> quits oc \<and> Q (start_of c s) oc s'"
  using ex lv
proof (induction n arbitrary: s)
  case (Suc n)
  from Suc.prems(1) obtain v where v: "cond_val (e_rt E) e (s_env s) = Some v" by (auto simp: exec.simps(2) split: option.splits)
  note c = cond [OF v]
  show ?case
  proof (cases v)
    case False
    with Suc.prems(1) v c show ?thesis by (simp add: exec.simps(2))
  next
    case True
    with Suc.prems(1) v obtain o1 s1 where e1: "exec n (e_rt E) (CBlock b) s = Some (o1, s1)" by (auto simp: exec.simps(2) split: option.splits)
    have l1: "s_live s1 = L" using exec_lives [OF e1] Suc.prems(2) by (simp add: lives_Nil)
    from c True have c: "goes E (start_of c s) (start_of bb s)" by simp
    from body [OF Suc.prems(2) e1] consider "o1 = Break" "goes E (start_of bb s) (start_of eb s1)"
      | "o1 = Normal \<or> o1 = Continue" "goes E (start_of bb s) (start_of nx s1)" | "quits o1" "Q (start_of bb s) o1 s1" by blast
    then show ?thesis
    proof cases
      case 1
      with Suc.prems(1) v True e1 have "oc = Normal" "s' = s1" by (auto simp: exec.simps(2))
      with reach_trans [OF c 1(2)] show ?thesis by simp
    next
      case 3
      with Suc.prems(1) v True e1 have "oc = o1" "s' = s1" by (auto simp: exec.simps(2) quits_def)
      with 3 Q [OF c] show ?thesis by simp
    next
      case 2
      have again: "?thesis" if "exec n (e_rt E) (CLoop e b stp) s2 = Some (oc, s')" "s_live s2 = L" "goes E (start_of c s) (start_of c s2)" for s2
        using Suc.IH [OF that(1,2)] reach_trans [OF that(3)] Q [OF that(3)] by blast
      have nx: "goes E (start_of c s) (start_of nx s1)" by (rule reach_trans [OF c 2(2)])
      have rest: "(case stp of None \<Rightarrow> exec n (e_rt E) (CLoop e b stp) s1
           | Some stb \<Rightarrow> (case exec n (e_rt E) (CBlock stb) s1 of None \<Rightarrow> None
              | Some (o2, s2) \<Rightarrow> if o2 = Normal then exec n (e_rt E) (CLoop e b stp) s2 else Some (o2, s2))) = Some (oc, s')"
        using Suc.prems(1) v True e1 2(1) by (auto simp: exec.simps(2))
      show ?thesis
      proof (cases stp)
        case None
        with rest again [OF _ l1] nx none show ?thesis by simp
      next
        case (Some sb)
        with rest obtain o2 s2 where 3: "exec n (e_rt E) (CBlock sb) s1 = Some (o2, s2)"
          "if o2 = Normal then exec n (e_rt E) (CLoop e b stp) s2 = Some (oc, s') else oc = o2 \<and> s' = s2"
          by (auto split: option.splits if_splits)
        have l2: "s_live s2 = L" using exec_lives [OF 3(1)] l1 by (simp add: lives_Nil)
        from step [OF Some l1 3(1)] show ?thesis
        proof (elim disjE conjE)
          assume "o2 = Normal" "goes E (start_of nx s1) (start_of c s2)"
          with 3(2) again [OF _ l2] reach_trans [OF nx] show ?thesis by simp
        next
          assume "quits o2" "Q (start_of nx s1) o2 s2"
          with 3(2) Q [OF nx] show ?thesis by (auto simp: quits_def)
        qed
      qed
    qed
  qed
qed simp

text \<open>The body of a loop runs with the same live objects as the loop.\<close>

lemma fins_ok_loop: "fins_ok E p scs fins \<Longrightarrow> fins_ok E (loop_perm p) scs fins"
  unfolding fins_ok_def loop_perm_def by fastforce

lemma loop_body:
  assumes po: "post E (loop_perm p) scs (l # loops) fins A cfg st1 oc s1"
    and l: "l_depth l = Suc (length scs)" and lv: "s_live s1 = live_of A scs"
    and f: "fins_ok E p scs fins" and t: "terminate_open (TBr (l_cond l)) st1 = Some st2" "ext (e_fun E) st2"
    and m: "set (b_alloc st1) \<subseteq> set (b_alloc st')"
  shows "oc = Break \<and> goes E cfg (start_of (l_end l) s1) \<or>
    (oc = Normal \<or> oc = Continue) \<and> goes E cfg (start_of (l_cond l) s1) \<or>
    quits oc \<and> post E p scs loops fins A cfg st' oc s1"
proof -
  have b: "leave (exit_base A scs (l # loops)) s1 = s1"
    using l lv leave_same [of s1] by (simp add: exit_base_def)
  have nf: "fins = []" if "x_brk (loop_perm p)" using that f by (simp add: loop_perm_def fins_ok_def)
  show ?thesis
  proof (cases oc)
    case Normal
    with po have "\<not> terminated st1" "goes E cfg (here st1 s1)" by (simp_all add: post_def)
    with Normal reach_trans [OF this(2) terminate_open_br [OF t(1) this(1) t(2)]] show ?thesis by simp
  next
    case Break
    with po nf b show ?thesis by (simp add: post_def)
  next
    case Continue
    with po nf b show ?thesis by (simp add: post_def)
  next
    case Return
    with po show ?thesis by (simp add: post_def quits_def loop_perm_def)
  next
    case Raise
    with po m show ?thesis by (auto simp: post_def quits_def loop_perm_def)
  qed
qed

lemma sim_while:
  assumes e: "env_ok E" and b: "\<And>l. sim E (loop_perm p) (Suc (length scs)) scs (l # loops) fins (GBlock b) (CBlock b) [] (names_block b)"
  shows "sim E p (length scs) scs loops fins (GStmt (OStmtWhile e b)) (CStmt (OStmtWhile e b)) [] (names_block b)"
proof (rule simI)
  fix n st st' s oc s'
  assume g: "gen (e_opts E) scs loops fins (GStmt (OStmtWhile e b)) st = Some st'" and w: "wfb st" and op: "\<not> terminated st"
    and x: "ext (e_fun E) st'" and pr: "pre E p (length scs) scs loops fins [] (names_block b) (b_alloc st)"
    and lv: "s_live s = live_of (b_alloc st) scs" and ex: "exec (Suc n) (e_rt E) (CStmt (OStmtWhile e b)) s = Some (oc, s')"
  define m where "m = b_next st"
  from gen_while_steps [OF g m_def] obtain gc st1 st2 st3 st4 where 1:
    "gen_cond (e_opts E) e = Some gc" "terminate (TBr m) (new_blocks 3 st) = Some st1"
    "terminate (TCondBr gc (m + 1) (m + 2)) (SetInsertPoint m st1) = Some st2"
    "gen (e_opts E) scs (while_ctx m scs # loops) fins (GBlock b) (SetInsertPoint (m + 1) st2) = Some st3"
    "terminate_open (TBr m) st3 = Some st4" "st' = SetInsertPoint (m + 2) st4" .
  have i1: "idle j st1" if "j \<in> {m, m + 1, m + 2}" for j
    by (rule idle_prims(2) [OF 1(2)], rule idle_new [OF w]) (use that in \<open>auto simp: m_def\<close>)
  have i2: "idle j st2" if "j \<in> {m + 1, m + 2}" for j
    by (rule idle_prims(2) [OF 1(3) idle_set [OF i1]]) (use that in auto)
  have w1: "wfb (SetInsertPoint (m + 1) st2)"
  proof -
    have "wfb st1" by (rule terminate_wfb [OF wfb_new [OF w] 1(2)])
    then have "wfb (SetInsertPoint m st1)" by (rule wfb_set) (use i1 [of m] in \<open>simp add: idle_def\<close>)
    from terminate_wfb [OF this 1(3)] show ?thesis by (rule wfb_set) (use i2 [of "m + 1"] in \<open>simp add: idle_def\<close>)
  qed
  have fr: "frame (SetInsertPoint (m + 1) st2) st3" by (rule gen_frame [OF 1(4) _ w1]) simp
  have i4: "idle (m + 2) st4"
    by (rule idle_prims(3) [OF 1(5) idle_frame [OF fr idle_set [OF i2]]]) simp_all
  have x4: "ext (e_fun E) st4" using x 1(6) by simp
  have x3: "ext (e_fun E) st3" by (rule ext_trans [OF x4 ext_prims(3) [OF 1(5)]])
  have "ext (e_fun E) (SetInsertPoint (m + 1) st2)" by (rule ext_trans [OF x3 ext_frame [OF fr w1]])
  then have x2: "ext (e_fun E) st2" by simp
  have "ext (e_fun E) (SetInsertPoint m st1)" by (rule ext_trans [OF x2 ext_prims(2) [OF 1(3)]])
  then have x1: "ext (e_fun E) st1" by simp
  have al: "b_alloc st2 = b_alloc st" "b_alloc st' = b_alloc st3" using 1 by simp_all
  have f: "fins_ok E p scs fins" using pr by (simp add: pre_def)
  have ad: "set (b_alloc st) \<subseteq> set (b_alloc st3)" "set (b_alloc st3) \<subseteq> set (b_alloc st) \<union> set (names_block b)"
    using gen_adds [OF 1(4)] fins_ok_names [OF f] al by (auto simp: adds_def)
  have pb: "pre E (loop_perm p) (Suc (length scs)) scs (while_ctx m scs # loops) fins [] (names_block b) (b_alloc st)"
    using pr fins_ok_loop [OF f] by (simp add: pre_def loop_ok_def raise_ok_def loop_perm_def while_ctx_def)
  have bs: "here (SetInsertPoint (m + 1) st2) s = start_of (m + 1) s \<and> \<not> terminated (SetInsertPoint (m + 1) st2)" for s
    by (rule idle_start [OF i2]) simp
  have body: "oc = Break \<and> goes E (start_of (m + 1) s) (start_of (m + 2) s1) \<or>
      (oc = Normal \<or> oc = Continue) \<and> goes E (start_of (m + 1) s) (start_of m s1) \<or>
      quits oc \<and> post E p scs loops fins (b_alloc st) (start_of (m + 1) s) st' oc s1"
    if "s_live s = live_of (b_alloc st) scs" "exec k (e_rt E) (CBlock b) s = Some (oc, s1)" for k s oc s1
  proof -
    from simD [OF b 1(4) w1 _ x3, of s k oc s1] bs [of s] pb that al
    have po: "post E (loop_perm p) scs (while_ctx m scs # loops) fins (b_alloc st) (start_of (m + 1) s) st3 oc s1" by simp
    have "s_live s1 = live_of (b_alloc st) scs" using exec_lives [OF that(2)] that(1) by (simp add: lives_Nil)
    from loop_body [OF po _ this f _ x4] 1(5) al(2) show ?thesis by (simp add: while_ctx_def)
  qed
  from ex have lp: "exec n (e_rt E) (CLoop e b None) s = Some (oc, s')" by (simp add: exec.simps(2))
  have "oc = Normal \<and> goes E (start_of m s) (start_of (m + 2) s') \<or>
      quits oc \<and> post E p scs loops fins (b_alloc st) (start_of m s) st' oc s'"
  proof (rule loop_reach [OF _ body _ _ _ lp lv])
    fix s :: sst and v assume "cond_val (e_rt E) e (s_env s) = Some v"
    from cond_step [OF e 1(1,3) x2 this] idle_start [OF i1, of m s]
    show "goes E (start_of m s) (start_of (if v then m + 1 else m + 2) s)" by simp
  qed (simp_all, erule post_before, simp_all)
  moreover have st: "goes E (here st s) (start_of m s)" using terminate_br [OF 1(2) x1, of _ s] by simp
  ultimately show "post E p scs loops fins (b_alloc st) (here st s) st' oc s'"
  proof (elim disjE conjE)
    assume n: "oc = Normal" "goes E (start_of m s) (start_of (m + 2) s')"
    have "s_live s' = live_of (b_alloc st') scs"
      using exec_lives [OF ex] lv agree_live [OF scoped_agree [OF _ ad]] pr al by (simp add: lives_Nil pre_def)
    with n reach_trans [OF st] idle_start [OF i4, of s'] show ?thesis by (simp add: post_def 1(6))
  next
    assume "post E p scs loops fins (b_alloc st) (start_of m s) st' oc s'"
    from post_before [OF this st] show ?thesis by simp
  qed
qed

text \<open>The parts of a \<open>for\<close> loop are generated in the scope of its initialization, which owns nothing.\<close>

lemma init_scope_simps:
  assumes "blk_owned i = []"
  shows "live_of A (init_scope i # scs) = live_of A scs" "unwound (init_scope i # scs) s = unwound scs s"
    "exit_base A (init_scope i # scs) loops = exit_base A scs loops \<or> length scs < l_depth (hd loops)"
  using assms by (auto simp: init_scope_def unwound_def GetUnwindCleanupBB_def exit_base_def Suc_diff_le)

lemma pre_init:
  assumes pr: "pre E p k scs loops fins [] N A" and i: "blk_owned i = []"
    and q: "q = loop_perm (for_perm p) \<or> q = no_jump (for_perm p)" and N': "set N' \<subseteq> set N" "distinct N'"
    and A': "set A \<subseteq> set A'" "set A' \<subseteq> set A \<union> (set N - set N')" and d: "l_depth l = Suc (Suc (length scs))"
  shows "pre E q (Suc (length (init_scope i # scs))) (init_scope i # scs) (l # loops) fins [] N' A'"
proof -
  have "scoped A' scs [] N'" using scoped_part [OF _ N' A'] pr by (simp add: pre_def)
  from scoped_push [OF this, of "init_scope i" "[]"] i have "scoped A' (init_scope i # scs) [] N'" by (simp add: init_scope_def)
  moreover have "handlers (e_fun E) (init_scope i # scs)" using pr by (simp add: pre_def handlers_def init_scope_def)
  moreover have "fins_ok E q (init_scope i # scs) fins"
    using pr q i unfolding pre_def fins_ok_def loop_perm_def for_perm_def no_jump_def init_scope_def
    by (fastforce simp: Suc_diff_le)
  moreover have "loop_ok q (Suc (length (init_scope i # scs))) (l # loops)" using d by (simp add: loop_ok_def)
  moreover have "scs \<noteq> []" using pr by (simp add: pre_def scoped_def)
  then have "raise_ok E q (init_scope i # scs) [] A'"
    using pr q i A'(1) by (cases scs)
      (auto simp: pre_def raise_ok_def loop_perm_def for_perm_def no_jump_def init_scope_def)
  ultimately show ?thesis by (simp add: pre_def)
qed

lemma post_init:
  assumes "post E q (init_scope i # scs) (l # loops) fins A cfg st1 oc s" "quits oc" "blk_owned i = []"
    and "q = loop_perm (for_perm p) \<or> q = no_jump (for_perm p)" "set (b_alloc st1) \<subseteq> set (b_alloc st')"
  shows "post E p scs loops fins A cfg st' oc s"
proof -
  have "x_ret q \<Longrightarrow> x_ret p" "x_raise q = x_raise p" using assms(4) by (auto simp: loop_perm_def for_perm_def no_jump_def)
  moreover have "\<forall>sc\<in>set scs. set (sc_owned sc) \<subseteq> set (b_alloc st1) \<Longrightarrow> \<forall>sc\<in>set scs. set (sc_owned sc) \<subseteq> set (b_alloc st')"
    using assms(5) by blast
  ultimately show ?thesis
    using assms(1-3) init_scope_simps(2) [OF assms(3)] by (auto simp: quits_def post_def) (auto simp: init_scope_def)
qed

lemma sim_for_rest:
  assumes e: "env_ok E" and io: "blk_owned i = []"
    and b: "\<And>sc l. sim E (loop_perm (for_perm p)) (Suc (length (sc # scs))) (sc # scs) (l # loops) fins (GBlock b) (CBlock b) [] (names_block b)"
    and sb: "\<And>sc l. sim E (no_jump (for_perm p)) (Suc (length (sc # scs))) (sc # scs) (l # loops) fins (GBlock stp) (CBlock stp) [] (names_block stp)"
    and g: "for_rest (e_opts E) scs loops fins i e b stp st = Some st'" and w: "wfb st" and op: "\<not> terminated st"
    and x: "ext (e_fun E) st'" and pr: "pre E p (length scs) scs loops fins [] (names_block b @ names_block stp) (b_alloc st)"
    and lv: "s_live s = live_of (b_alloc st) scs" and ex: "exec n (e_rt E) (CLoop e b (Some stp)) s = Some (oc, s')"
  shows "post E p scs loops fins (b_alloc st) (here st s) st' oc s'"
proof -
  define m where "m = b_next st"
  define scs' where "scs' = init_scope i # scs"
  from for_rest_steps [OF g m_def] obtain gc st1 st2 st3 st4 st5 st6 where 1:
    "gen_cond (e_opts E) e = Some gc" "terminate (TBr m) (new_blocks 4 st) = Some st1"
    "terminate (TCondBr gc (m + 1) (m + 3)) (SetInsertPoint m st1) = Some st2"
    "gen (e_opts E) scs' (for_ctx m scs # loops) fins (GBlock b) (SetInsertPoint (m + 1) st2) = Some st3"
    "terminate_open (TBr (m + 2)) st3 = Some st4"
    "gen (e_opts E) scs' (for_ctx m scs # loops) fins (GBlock stp) (SetInsertPoint (m + 2) st4) = Some st5"
    "terminate_open (TBr m) st5 = Some st6" "st' = SetInsertPoint (m + 3) st6" unfolding scs'_def .
  have i1: "idle j st1" if "j \<in> {m, m + 1, m + 2, m + 3}" for j
    by (rule idle_prims(2) [OF 1(2)], rule idle_new [OF w]) (use that in \<open>auto simp: m_def\<close>)
  have i2: "idle j st2" if "j \<in> {m + 1, m + 2, m + 3}" for j
    by (rule idle_prims(2) [OF 1(3) idle_set [OF i1]]) (use that in auto)
  have w1: "wfb (SetInsertPoint (m + 1) st2)"
  proof -
    have "wfb st1" by (rule terminate_wfb [OF wfb_new [OF w] 1(2)])
    then have "wfb (SetInsertPoint m st1)" by (rule wfb_set) (use i1 [of m] in \<open>simp add: idle_def\<close>)
    from terminate_wfb [OF this 1(3)] show ?thesis by (rule wfb_set) (use i2 [of "m + 1"] in \<open>simp add: idle_def\<close>)
  qed
  have fr: "frame (SetInsertPoint (m + 1) st2) st3" by (rule gen_frame [OF 1(4) _ w1]) simp
  have i4: "idle j st4" if "j \<in> {m + 2, m + 3}" for j
    by (rule idle_prims(3) [OF 1(5) idle_frame [OF fr idle_set [OF i2]]]) (use that in auto)
  have "wfb st4" using wfb_terminate_open [OF _ 1(5)] fr by (simp add: frame_def)
  then have w4: "wfb (SetInsertPoint (m + 2) st4)" by (rule wfb_set) (use i4 [of "m + 2"] in \<open>simp add: idle_def\<close>)
  have fr5: "frame (SetInsertPoint (m + 2) st4) st5" by (rule gen_frame [OF 1(6) _ w4]) simp
  have i6: "idle (m + 3) st6"
    by (rule idle_prims(3) [OF 1(7) idle_frame [OF fr5 idle_set [OF i4]]]) simp_all
  have x6: "ext (e_fun E) st6" using x 1(8) by simp
  have x5: "ext (e_fun E) st5" by (rule ext_trans [OF x6 ext_prims(3) [OF 1(7)]])
  have "ext (e_fun E) (SetInsertPoint (m + 2) st4)" by (rule ext_trans [OF x5 ext_frame [OF fr5 w4]])
  then have x4: "ext (e_fun E) st4" by simp
  have x3: "ext (e_fun E) st3" by (rule ext_trans [OF x4 ext_prims(3) [OF 1(5)]])
  have "ext (e_fun E) (SetInsertPoint (m + 1) st2)" by (rule ext_trans [OF x3 ext_frame [OF fr w1]])
  then have x2: "ext (e_fun E) st2" by simp
  have "ext (e_fun E) (SetInsertPoint m st1)" by (rule ext_trans [OF x2 ext_prims(2) [OF 1(3)]])
  then have x1: "ext (e_fun E) st1" by simp
  have al: "b_alloc st2 = b_alloc st" "b_alloc st4 = b_alloc st3" "b_alloc st' = b_alloc st5" using 1 by simp_all
  have f: "fins_ok E p scs fins" using pr by (simp add: pre_def)
  have ad: "set (b_alloc st) \<subseteq> set (b_alloc st3)" "set (b_alloc st3) \<subseteq> set (b_alloc st) \<union> set (names_block b)"
    using gen_adds [OF 1(4)] fins_ok_names [OF f] al by (auto simp: adds_def)
  have ad5: "set (b_alloc st3) \<subseteq> set (b_alloc st5)" "set (b_alloc st5) \<subseteq> set (b_alloc st3) \<union> set (names_block stp)"
    using gen_adds [OF 1(6)] fins_ok_names [OF f] al by (auto simp: adds_def)
  have dn: "distinct (names_block b @ names_block stp)" using pr by (simp add: pre_def scoped_def)
  have q: "l_depth (for_ctx m scs) = Suc (Suc (length scs))" by (simp add: for_ctx_def)
  have pb: "pre E (loop_perm (for_perm p)) (Suc (length scs')) scs' (for_ctx m scs # loops) fins [] (names_block b) (b_alloc st)"
    unfolding scs'_def by (rule pre_init [OF pr io _ _ _ _ _ q]) (use dn in auto)
  have ps: "pre E (no_jump (for_perm p)) (Suc (length scs')) scs' (for_ctx m scs # loops) fins [] (names_block stp) (b_alloc st3)"
    unfolding scs'_def by (rule pre_init [OF pr io _ _ _ _ _ q]) (use dn ad in auto)
  have li: "live_of A scs' = live_of A scs" for A using init_scope_simps(1) [OF io] by (simp add: scs'_def)
  have l3: "live_of (b_alloc st3) scs = live_of (b_alloc st) scs"
    by (rule agree_live [OF scoped_agree [where N = "names_block b @ names_block stp"]]) (use pr ad in \<open>auto simp: pre_def\<close>)
  have l5: "live_of (b_alloc st5) scs = live_of (b_alloc st) scs"
    by (rule agree_live [OF scoped_agree [where N = "names_block b @ names_block stp"]]) (use pr ad ad5 in \<open>auto simp: pre_def\<close>)
  have bs: "here (SetInsertPoint (m + 1) st2) s = start_of (m + 1) s \<and> \<not> terminated (SetInsertPoint (m + 1) st2)" for s
    by (rule idle_start [OF i2]) simp
  have ss: "here (SetInsertPoint (m + 2) st4) s = start_of (m + 2) s \<and> \<not> terminated (SetInsertPoint (m + 2) st4)" for s
    by (rule idle_start [OF i4]) simp
  have body: "oc = Break \<and> goes E (start_of (m + 1) s) (start_of (m + 3) s1) \<or>
      (oc = Normal \<or> oc = Continue) \<and> goes E (start_of (m + 1) s) (start_of (m + 2) s1) \<or>
      quits oc \<and> post E p scs loops fins (b_alloc st) (start_of (m + 1) s) st' oc s1"
    if "s_live s = live_of (b_alloc st) scs" "exec k (e_rt E) (CBlock b) s = Some (oc, s1)" for k s oc s1
  proof -
    from simD [OF b 1(4) [unfolded scs'_def] w1 _ x3, of s k oc s1] bs [of s] pb [unfolded scs'_def] that al li [unfolded scs'_def]
    have po: "post E (loop_perm (for_perm p)) scs' (for_ctx m scs # loops) fins (b_alloc st) (start_of (m + 1) s) st3 oc s1"
      by (simp add: scs'_def)
    have f': "fins_ok E (for_perm p) scs' fins"
      using f io unfolding fins_ok_def for_perm_def scs'_def init_scope_def by (fastforce simp: Suc_diff_le)
    have "s_live s1 = live_of (b_alloc st) scs'" using exec_lives [OF that(2)] that(1) by (simp add: lives_Nil li)
    from loop_body [OF po _ this f' _ x4, of st3] 1(5)
    have "oc = Break \<and> goes E (start_of (m + 1) s) (start_of (m + 3) s1) \<or>
      (oc = Normal \<or> oc = Continue) \<and> goes E (start_of (m + 1) s) (start_of (m + 2) s1) \<or> quits oc"
      by (auto simp: for_ctx_def scs'_def)
    moreover have "quits oc \<Longrightarrow> post E p scs loops fins (b_alloc st) (start_of (m + 1) s) st' oc s1"
      by (rule post_init [OF po [unfolded scs'_def] _ io]) (use ad5 al in simp_all)
    ultimately show ?thesis by blast
  qed
  have step: "oc = Normal \<and> goes E (start_of (m + 2) s) (start_of m s1) \<or>
      quits oc \<and> post E p scs loops fins (b_alloc st) (start_of (m + 2) s) st' oc s1"
    if "s_live s = live_of (b_alloc st) scs" "exec k (e_rt E) (CBlock stp) s = Some (oc, s1)" for k s oc s1
  proof -
    from simD [OF sb 1(6) [unfolded scs'_def] w4 _ x5, of s k oc s1] ss [of s] ps [unfolded scs'_def] that al li [unfolded scs'_def] l3
    have po: "post E (no_jump (for_perm p)) scs' (for_ctx m scs # loops) fins (b_alloc st3) (start_of (m + 2) s) st5 oc s1"
      by (simp add: scs'_def)
    then have "oc = Normal \<or> quits oc" by (cases oc) (simp_all add: post_def no_jump_def quits_def)
    then show ?thesis
    proof
      assume n: "oc = Normal"
      with po have "\<not> terminated st5" "goes E (start_of (m + 2) s) (here st5 s1)" by (simp_all add: post_def)
      with n reach_trans [OF this(2) terminate_open_br [OF 1(7) this(1) x6]] show ?thesis by simp
    next
      assume qt: "quits oc"
      have "post E p scs loops fins (b_alloc st3) (start_of (m + 2) s) st' oc s1"
        by (rule post_init [OF po [unfolded scs'_def] qt io]) (use al in simp_all)
      with qt show ?thesis by (auto simp: post_def quits_def)
    qed
  qed
  have "oc = Normal \<and> goes E (start_of m s) (start_of (m + 3) s') \<or>
      quits oc \<and> post E p scs loops fins (b_alloc st) (start_of m s) st' oc s'"
  proof (rule loop_reach [OF _ body _ _ _ ex lv])
    fix s :: sst and v assume "cond_val (e_rt E) e (s_env s) = Some v"
    from cond_step [OF e 1(1,3) x2 this] idle_start [OF i1, of m s]
    show "goes E (start_of m s) (start_of (if v then m + 1 else m + 3) s)" by simp
  next
    fix a b oc and s :: sst
    assume "goes E a b" "post E p scs loops fins (b_alloc st) b st' oc s"
    from post_before [OF this(2,1)] show "post E p scs loops fins (b_alloc st) a st' oc s" by simp
  qed (use step in simp_all)
  moreover have st: "goes E (here st s) (start_of m s)" using terminate_br [OF 1(2) x1, of _ s] by simp
  ultimately show "post E p scs loops fins (b_alloc st) (here st s) st' oc s'"
  proof (elim disjE conjE)
    assume n: "oc = Normal" "goes E (start_of m s) (start_of (m + 3) s')"
    have "s_live s' = live_of (b_alloc st') scs"
      using exec_lives [OF ex] lv l5 al by (simp add: lives_Nil)
    with n reach_trans [OF st] idle_start [OF i6, of s'] show ?thesis by (simp add: post_def 1(8))
  next
    assume "post E p scs loops fins (b_alloc st) (start_of m s) st' oc s'"
    from post_before [OF this st] show ?thesis by simp
  qed
qed

lemma grows_ext: "grows F \<Longrightarrow> wfb st \<Longrightarrow> F st = Some st' \<Longrightarrow> ext st' st"
  using growsD [OF _ grown_refl] by (fastforce simp: grown_def intro: ext_frame)

lemma for_rest_ext: "for_rest P scs loops fins i e b stp st = Some st' \<Longrightarrow> wfb st \<Longrightarrow> ext st' st"
  by (rule grows_ext [OF grows_for_rest [OF gen_grows(3) gen_grows(3)]])

lemma fins_ok_mono:
  "fins_ok E p scs fins \<Longrightarrow> x_try q = x_try p \<Longrightarrow> (x_brk q \<or> x_ret q \<longrightarrow> x_brk p \<or> x_ret p) \<Longrightarrow> fins_ok E q scs fins"
  unfolding fins_ok_def by (auto split: prod.splits)

lemma sim_for:
  assumes e: "env_ok E" and io: "blk_owned i = []" "okb E (no_jump p) i"
    and i: "sim E (no_jump p) (Suc (length scs)) scs loops fins (GBlock i) (CBlock i) [] (names_block i)"
    and b: "\<And>sc l. sim E (loop_perm (for_perm p)) (Suc (length (sc # scs))) (sc # scs) (l # loops) fins (GBlock b) (CBlock b) [] (names_block b)"
    and sb: "\<And>sc l. sim E (no_jump (for_perm p)) (Suc (length (sc # scs))) (sc # scs) (l # loops) fins (GBlock stp) (CBlock stp) [] (names_block stp)"
  shows "sim E p (length scs) scs loops fins (GStmt (OStmtFor i e b stp)) (CStmt (OStmtFor i e b stp)) []
    (names_block i @ names_block b @ names_block stp)"
proof (rule simI)
  fix n st st' s oc s'
  let ?N = "names_block i @ names_block b @ names_block stp"
  assume g: "gen (e_opts E) scs loops fins (GStmt (OStmtFor i e b stp)) st = Some st'" and w: "wfb st" and op: "\<not> terminated st"
    and x: "ext (e_fun E) st'" and pr: "pre E p (length scs) scs loops fins [] ?N (b_alloc st)"
    and lv: "s_live s = live_of (b_alloc st) scs" and ex: "exec (Suc n) (e_rt E) (CStmt (OStmtFor i e b stp)) s = Some (oc, s')"
  from g obtain st0 where 1: "gen (e_opts E) scs loops fins (GBlock i) st = Some st0"
    "if terminated st0 then st' = st0 else for_rest (e_opts E) scs loops fins i e b stp st0 = Some st'"
    by (auto simp: gen_for_rest bind_eq_Some_conv split: if_splits)
  from ex obtain s2 where 2: "s' = leave (length (s_live s)) s2"
    "(case exec n (e_rt E) (CSeq (blk_stmts i)) s of None \<Rightarrow> None
      | Some (o1, s1) \<Rightarrow> if o1 = Normal then exec n (e_rt E) (CLoop e b (Some stp)) s1 else Some (o1, s1)) = Some (oc, s2)"
    by (auto simp: exec.simps(2))
  then obtain o1 s1 where 3: "exec n (e_rt E) (CSeq (blk_stmts i)) s = Some (o1, s1)"
    "if o1 = Normal then exec n (e_rt E) (CLoop e b (Some stp)) s1 = Some (oc, s2) else oc = o1 \<and> s2 = s1"
    by (auto split: option.splits if_splits)
  have l1: "s_live s1 = s_live s"
    using exec_lives [OF 3(1)] ok_blockD [OF io(2)] io(1) by (simp add: lives_Nil)
  have l2: "s_live s2 = s_live s" using 3(2) l1 exec_lives [of n "e_rt E" "CLoop e b (Some stp)" s1 oc s2]
    by (auto simp: lives_Nil split: if_splits)
  have s': "s' = s2" using 2(1) l2 by (metis leave_same)
  have exi: "exec (Suc n) (e_rt E) (CBlock i) s = Some (o1, s1)"
    using 3(1) l1 leave_same [of s1] by (simp add: exec.simps(2))
  have w0: "wfb st0" using gen_wfb [OF 1(1) _ w] by simp
  have "ext st' st0" using 1(2) for_rest_ext [OF _ w0] by (auto split: if_splits)
  then have x0: "ext (e_fun E) st0" by (rule ext_trans [OF x])
  have f: "fins_ok E p scs fins" using pr by (simp add: pre_def)
  have ad: "set (b_alloc st) \<subseteq> set (b_alloc st0)" "set (b_alloc st0) \<subseteq> set (b_alloc st) \<union> set (names_block i)"
    using gen_adds [OF 1(1)] fins_ok_names [OF f] by (auto simp: adds_def)
  have dn: "distinct ?N" and sc: "scoped (b_alloc st) scs [] ?N" using pr by (simp_all add: pre_def scoped_def)
  have "scoped (b_alloc st) scs [] (names_block i)" by (rule scoped_part [OF sc]) (use dn in auto)
  then have pi: "pre E (no_jump p) (Suc (length scs)) scs loops fins [] (names_block i) (b_alloc st)"
    using pr fins_ok_mono [OF f, of "no_jump p"] by (simp add: pre_def loop_ok_def raise_ok_def no_jump_def)
  have po: "post E (no_jump p) scs loops fins (b_alloc st) (here st s) st0 o1 s1"
    by (rule simD [OF i 1(1) w op x0 pi lv exi])
  show "post E p scs loops fins (b_alloc st) (here st s) st' oc s'"
  proof (cases "o1 = Normal")
    case False
    with 3(2) have "oc = o1" "s2 = s1" by simp_all
    moreover have "set (b_alloc st0) \<subseteq> set (b_alloc st')"
    proof (cases "terminated st0")
      case True
      with 1(2) show ?thesis by simp
    next
      case False
      with 1(2) have "for_rest (e_opts E) scs loops fins i e b stp st0 = Some st'" by simp
      from for_rest_adds [OF this] show ?thesis by (simp add: adds_def)
    qed
    ultimately show ?thesis using post_after [OF po False, of st' p] s' by (simp add: no_jump_def)
  next
    case True
    with po have n1: "\<not> terminated st0" "s_live s1 = live_of (b_alloc st0) scs" "goes E (here st s) (here st0 s1)"
      by (simp_all add: post_def)
    with 1(2) have g2: "for_rest (e_opts E) scs loops fins i e b stp st0 = Some st'" by simp
    have "scoped (b_alloc st0) scs [] (names_block b @ names_block stp)" by (rule scoped_part [OF sc]) (use dn ad in auto)
    then have p0: "pre E p (length scs) scs loops fins [] (names_block b @ names_block stp) (b_alloc st0)"
      using pr ad(1) by (fastforce simp: pre_def raise_ok_def)
    have e2: "exec n (e_rt E) (CLoop e b (Some stp)) s1 = Some (oc, s')" using 3(2) True s' by simp
    have "post E p scs loops fins (b_alloc st0) (here st0 s1) st' oc s'"
      by (rule sim_for_rest [OF e io(1) b sb g2 w0 n1(1) x p0 n1(2) e2])
    then show ?thesis
    proof (rule post_before [OF _ n1(3)])
      have "agree (b_alloc st) (b_alloc st0) scs" by (rule scoped_agree [OF sc]) (use ad in auto)
      from agree_live [OF agree_drop [OF this]] show "exit_base (b_alloc st0) scs loops = exit_base (b_alloc st) scs loops"
        by (simp add: exit_base_def)
    qed
  qed
qed

section \<open>Branches\<close>

text \<open>The merge block is not used before the branches end, and it is the insert point behind them.\<close>

definition merges :: "nat \<Rightarrow> 'f bld \<Rightarrow> bool" where
  "merges m st \<longleftrightarrow> b_code st m = [] \<and> b_term st m = None \<and> m < b_next st"

lemma idle_merges: "idle m st \<Longrightarrow> merges m st"
  by (simp add: idle_def merges_def)

lemma merges_set [simp]: "merges m (SetInsertPoint b st) = merges m st" "b_cur (SetInsertPoint b st) = b"
  by (simp_all add: merges_def SetInsertPoint_def)

lemma merges_wfb: "merges m st \<Longrightarrow> wfb st \<Longrightarrow> wfb (SetInsertPoint m st)"
  by (simp add: merges_def wfb_set)

lemma merges_start: "merges m st \<Longrightarrow> here (SetInsertPoint m st) s = start_of m s \<and> \<not> terminated (SetInsertPoint m st)"
  unfolding merges_def terminated_def by (simp add: here_start) (simp add: SetInsertPoint_def)

primrec else_last :: "('f expr option \<times> 'f block) list \<Rightarrow> bool" where
  "else_last [] \<longleftrightarrow> True"
| "else_last (eb # brs) \<longleftrightarrow> (fst eb = None \<longrightarrow> brs = []) \<and> else_last brs"

lemma ok_else_last: "ok_branches nt ex p brs \<Longrightarrow> else_last brs"
  by (induction brs) auto

text \<open>The states of the builder in a branch with a condition.\<close>

lemma branch_idle:
  assumes w: "wfb st" and i: "idle m st" and n: "n = b_next st" "nx = (if brs = [] then m else Suc n)"
    and 1: "terminate (TCondBr g n nx) (new_blocks (if brs = [] then 1 else 2) st) = Some st1"
      "gen P scs loops fins (GBlock b) (SetInsertPoint n st1) = Some st2" "terminate_open (TBr m) st2 = Some st3"
  shows "wfb (SetInsertPoint n st1) \<and> idle n st1 \<and> frame (SetInsertPoint n st1) st2 \<and> wfb (SetInsertPoint nx st3) \<and>
    merges m st3 \<and> \<not> terminated (SetInsertPoint nx st3) \<and> (brs \<noteq> [] \<longrightarrow> nx \<noteq> m) \<and>
    merges nx st3 \<and> ext st1 st \<and> ext (SetInsertPoint nx st3) st"
proof -
  have mn: "m < n" using i n(1) by (simp add: idle_def)
  have i1: "idle n st1" by (rule idle_prims(2) [OF 1(1) idle_new [OF w]]) (simp_all add: n)
  have m1: "idle m st1" by (rule idle_prims(2) [OF 1(1) idle_new_old [OF i]])
  have w1: "wfb st1" by (rule terminate_wfb [OF wfb_new [OF w] 1(1)])
  have w1': "wfb (SetInsertPoint n st1)" by (rule wfb_set [OF w1]) (use i1 in \<open>simp add: idle_def\<close>)
  have fr: "frame (SetInsertPoint n st1) st2" by (rule gen_frame [OF 1(2) _ w1']) simp
  have m3: "idle m st3" by (rule idle_prims(3) [OF 1(3) idle_frame [OF fr idle_set [OF m1]]]) (use mn in simp)
  have nx3: "idle nx st3"
  proof (cases "brs = []")
    case True
    with m3 n show ?thesis by simp
  next
    case False
    have "idle (Suc n) st1" by (rule idle_prims(2) [OF 1(1) idle_new [OF w]]) (use False n in simp_all)
    then have "idle (Suc n) st3" by (intro idle_prims(3) [OF 1(3) idle_frame [OF fr idle_set]]) simp_all
    with False n show ?thesis by simp
  qed
  have w3: "wfb st3" using wfb_terminate_open [OF _ 1(3)] fr by (simp add: frame_def)
  have x1: "ext st1 st" using ext_prims(2) [OF 1(1)] by simp
  have "ext st3 st2" by (rule ext_prims(3) [OF 1(3)])
  then have "ext st3 (SetInsertPoint n st1)" using ext_frame [OF fr w1'] by (rule ext_trans)
  then have "ext st3 st1" by simp
  then have "ext st3 st" using x1 by (rule ext_trans)
  then have x3: "ext (SetInsertPoint nx st3) st" using ext_trans [OF ext_set(1)] by blast
  show ?thesis
    using w1' i1 fr merges_wfb [OF idle_merges [OF nx3] w3] idle_merges [OF m3] merges_start [OF idle_merges [OF nx3]]
      idle_merges [OF nx3] mn n(2) x1 x3 by simp
qed

lemma branches_facts:
  assumes "gen P scs loops fins (GBranches m brs) st = Some st'" "wfb st" "merges m st" "brs \<noteq> [] \<longrightarrow> b_cur st \<noteq> m" "else_last brs"
  shows "ext st' st \<and> wfb st' \<and> b_cur st' = m \<and> merges m st'"
  using assms
proof (induction brs arbitrary: st)
  case Nil
  then show ?case by (auto simp: gen_branches merges_wfb)
next
  case (Cons eb brs)
  obtain e b where eb: "eb = (e, b)" by (cases eb)
  from Cons.prems have i: "idle m st" by (simp add: idle_def merges_def)
  show ?case
  proof (cases e)
    case None
    with Cons.prems(5) have "brs = []" by (simp add: eb)
    with None Cons.prems(1) obtain st1 st2 where 1: "gen P scs loops fins (GBlock b) st = Some st1"
      "terminate_open (TBr m) st1 = Some st2" "st' = SetInsertPoint m st2"
      by (auto simp: eb gen_branches bind_eq_Some_conv)
    have fr: "frame st st1" by (rule gen_frame [OF 1(1) _ Cons.prems(2)]) simp
    have w: "wfb st2" using wfb_terminate_open [OF _ 1(2)] fr by (simp add: frame_def)
    have i2: "merges m st2" using idle_merges [OF idle_prims(3) [OF 1(2) idle_frame [OF fr i]]] .
    have "ext st2 st" by (rule ext_trans [OF ext_prims(3) [OF 1(2)] ext_frame [OF fr Cons.prems(2)]])
    from ext_trans [OF ext_set(1) this] show ?thesis using i2 merges_wfb [OF i2 w] by (simp add: 1(3))
  next
    case (Some e')
    show ?thesis using Cons.prems(1) unfolding eb Some
    proof (rule gen_branch_steps [OF _ refl refl])
      fix g st1 st2 st3
      let ?nx = "if brs = [] then m else Suc (b_next st)"
      assume 1: "terminate (TCondBr g (b_next st) ?nx) (new_blocks (if brs = [] then 1 else 2) st) = Some st1"
        "gen P scs loops fins (GBlock b) (SetInsertPoint (b_next st) st1) = Some st2" "terminate_open (TBr m) st2 = Some st3"
        "gen P scs loops fins (GBranches m brs) (SetInsertPoint ?nx st3) = Some st'"
      note bi = branch_idle [OF Cons.prems(2) i refl refl 1(1-3)]
      have "ext st' (SetInsertPoint ?nx st3) \<and> wfb st' \<and> b_cur st' = m \<and> merges m st'"
        by (rule Cons.IH [OF 1(4)]) (use bi Cons.prems(5) in simp_all)
      with bi show ?thesis using ext_trans by blast
    qed
  qed
qed

lemma sim_branches:
  assumes e: "env_ok E" and "ok_branches (e_nothrow E) (o_exceptions (e_opts E)) p brs"
    and "\<And>b. okb E p b \<Longrightarrow> b \<in> snd ` set brs \<Longrightarrow> sim E p (Suc (length scs)) scs loops fins (GBlock b) (CBlock b) [] (names_block b)"
    and "gen (e_opts E) scs loops fins (GBranches m brs) st = Some st'" "wfb st" "merges m st" "brs \<noteq> [] \<longrightarrow> b_cur st \<noteq> m"
    and "brs = [] \<longrightarrow> b_cur st = m" "\<not> terminated st"
    and "ext (e_fun E) st'" "pre E p (length scs) scs loops fins [] (names_branches brs) (b_alloc st)"
    and "s_live s = live_of (b_alloc st) scs" "exec n (e_rt E) (CBranches brs) s = Some (oc, s')"
  shows "post E p scs loops fins (b_alloc st) (here st s) st' oc s'"
  using assms(2-)
proof (induction brs arbitrary: st s n)
  case Nil
  then obtain k where "n = Suc k" by (cases n) auto
  moreover have "SetInsertPoint m st = st" using Nil by (simp add: SetInsertPoint_def)
  ultimately show ?case using Nil by (simp add: gen_branches exec.simps(2) post_def)
next
  case (Cons eb brs)
  obtain e' b where eb: "eb = (e', b)" by (cases eb)
  note prems = Cons.prems [unfolded eb]
  from prems(6) have i: "idle m st" using prems(5) by (simp add: idle_def merges_def)
  obtain k where n: "n = Suc k" using prems(12) by (cases n) auto
  have ok: "okb E p b" "ok_branches (e_nothrow E) (o_exceptions (e_opts E)) p brs" "e' = None \<longrightarrow> brs = []" using prems(1) by auto
  have sb: "sim E p (Suc (length scs)) scs loops fins (GBlock b) (CBlock b) [] (names_block b)"
    by (rule prems(2) [OF ok(1)]) simp
  have f: "fnames fins = {}" using prems(10) by (auto simp: pre_def fins_ok_names)
  have sc: "scoped (b_alloc st) scs [] (names_block b @ names_branches brs)" using prems(10) by (simp add: pre_def)
  then have dn: "distinct (names_block b @ names_branches brs)" by (simp add: scoped_def)
  have "scoped (b_alloc st) scs [] (names_block b)" by (rule scoped_part [OF sc]) (use dn in auto)
  then have pb: "pre E p (Suc (length scs)) scs loops fins [] (names_block b) (b_alloc st)"
    using prems(10) by (auto simp: pre_def loop_ok_def)
  show ?case
  proof (cases e')
    case None
    with ok(3) prems(3) obtain st1 st2 where 1: "gen (e_opts E) scs loops fins (GBlock b) st = Some st1"
      "terminate_open (TBr m) st1 = Some st2" "st' = SetInsertPoint m st2" "brs = []"
      by (auto simp: gen_branches bind_eq_Some_conv)
    have fr: "frame st st1" by (rule gen_frame [OF 1(1) _ prems(4)]) simp
    have m2: "merges m st2" using idle_merges [OF idle_prims(3) [OF 1(2) idle_frame [OF fr i]]] .
    have x2: "ext (e_fun E) st2" using prems(9) 1(3) by simp
    have x1: "ext (e_fun E) st1" by (rule ext_trans [OF x2 ext_prims(3) [OF 1(2)]])
    have "exec k (e_rt E) (CBlock b) s = Some (oc, s')" using prems(12) None by (simp add: n exec.simps(2))
    from simD [OF sb 1(1) prems(4,8) x1 pb prems(11) this]
    have po: "post E p scs loops fins (b_alloc st) (here st s) st1 oc s'" .
    have al: "b_alloc st' = b_alloc st1" using 1 by simp
    show ?thesis
    proof (cases "oc = Normal")
      case True
      with po have "\<not> terminated st1" "goes E (here st s) (here st1 s')" "s_live s' = live_of (b_alloc st1) scs" by (simp_all add: post_def)
      with True reach_trans [OF this(2) terminate_open_br [OF 1(2) this(1) x2]] merges_start [OF m2] al
      show ?thesis by (simp add: post_def 1(3))
    next
      case False
      from post_after [OF po False, of st' p] al show ?thesis by simp
    qed
  next
    case (Some ec)
    show ?thesis using prems(3) unfolding Some
    proof (rule gen_branch_steps [OF _ refl refl])
      fix g st1 st2 st3
      let ?n = "b_next st"
      let ?nx = "if brs = [] then m else Suc ?n"
      assume 1: "gen_cond (e_opts E) ec = Some g"
        "terminate (TCondBr g ?n ?nx) (new_blocks (if brs = [] then 1 else 2) st) = Some st1"
        "gen (e_opts E) scs loops fins (GBlock b) (SetInsertPoint ?n st1) = Some st2" "terminate_open (TBr m) st2 = Some st3"
        "gen (e_opts E) scs loops fins (GBranches m brs) (SetInsertPoint ?nx st3) = Some st'"
      note bi = branch_idle [OF prems(4) i refl refl 1(2-4)]
      have bf: "ext st' (SetInsertPoint ?nx st3) \<and> wfb st' \<and> b_cur st' = m \<and> merges m st'"
        by (rule branches_facts [OF 1(5)]) (use bi ok_else_last [OF ok(2)] in simp_all)
      have "ext (e_fun E) (SetInsertPoint ?nx st3)" using bf ext_trans [OF prems(9)] by blast
      then have x3: "ext (e_fun E) st3" by simp
      have x2: "ext (e_fun E) st2" by (rule ext_trans [OF x3 ext_prims(3) [OF 1(4)]])
      have "ext (e_fun E) (SetInsertPoint ?n st1)" using ext_trans [OF x2 ext_frame] bi by blast
      then have x1: "ext (e_fun E) st1" by simp
      from prems(12) Some obtain v where v: "cond_val (e_rt E) ec (s_env s) = Some v"
        "(if v then exec k (e_rt E) (CBlock b) s else exec k (e_rt E) (CBranches brs) s) = Some (oc, s')"
        by (auto simp: n exec.simps(2) split: option.splits)
      have c: "goes E (here st s) (start_of (if v then ?n else ?nx) s)"
        using cond_step [OF e 1(1,2) x1 v(1)] by simp
      have al: "b_alloc st1 = b_alloc st" using 1(2) by simp
      have ad: "set (b_alloc st) \<subseteq> set (b_alloc st3)" "set (b_alloc st3) \<subseteq> set (b_alloc st) \<union> set (names_block b)"
        using gen_adds [OF 1(3)] f 1(4) al by (auto simp: adds_def)
      have ad': "set (b_alloc st3) \<subseteq> set (b_alloc st')" "set (b_alloc st') \<subseteq> set (b_alloc st3) \<union> set (names_branches brs)"
        using gen_adds [OF 1(5)] f by (auto simp: adds_def)
      show ?thesis
      proof (cases v)
        case True
        have hs: "here (SetInsertPoint ?n st1) s = start_of ?n s" "\<not> terminated (SetInsertPoint ?n st1)"
          using idle_start [of ?n st1 s] bi by simp_all
        have "exec k (e_rt E) (CBlock b) s = Some (oc, s')" using v(2) True by simp
        from simD [OF sb 1(3) _ hs(2) x2 _ _ this] bi pb prems(11) al hs(1)
        have po: "post E p scs loops fins (b_alloc st) (start_of ?n s) st2 oc s'" by simp
        have c': "goes E (here st s) (start_of ?n s)" using c True by simp
        show ?thesis
        proof (cases "oc = Normal")
          case n: True
          with po have n1: "\<not> terminated st2" "goes E (start_of ?n s) (here st2 s')" "s_live s' = live_of (b_alloc st2) scs"
            by (simp_all add: post_def)
          have "goes E (here st s) (start_of m s')"
            by (rule reach_trans [OF c' reach_trans [OF n1(2) terminate_open_br [OF 1(4) n1(1) x3]]])
          moreover have "st' = SetInsertPoint m st'" using bf by (simp add: SetInsertPoint_def)
          then have "here st' s' = start_of m s' \<and> \<not> terminated st'" using merges_start [of m st' s'] bf by simp
          moreover have "live_of (b_alloc st') scs = live_of (b_alloc st) scs"
            by (rule agree_live [OF scoped_agree [OF sc]]) (use ad ad' in auto)
          moreover have "live_of (b_alloc st3) scs = live_of (b_alloc st) scs"
            by (rule agree_live [OF scoped_agree [OF sc]]) (use ad in auto)
          ultimately show ?thesis using n n1(3) 1(4) by (simp add: post_def)
        next
          case False
          have "set (b_alloc st2) \<subseteq> set (b_alloc st')" using ad' 1(4) by simp
          from post_before [OF post_after [OF po False this] c'] show ?thesis by simp
        qed
      next
        case False
        have "scoped (b_alloc st3) scs [] (names_branches brs)" by (rule scoped_part [OF sc]) (use dn ad in auto)
        then have pr: "pre E p (length scs) scs loops fins [] (names_branches brs) (b_alloc (SetInsertPoint ?nx st3))"
          using prems(10) ad(1) by (fastforce simp: pre_def raise_ok_def)
        have l3: "live_of (b_alloc st3) scs = live_of (b_alloc st) scs"
          by (rule agree_live [OF scoped_agree [OF sc]]) (use ad in auto)
        have "exec k (e_rt E) (CBranches brs) s = Some (oc, s')" using v(2) False by simp
        have "post E p scs loops fins (b_alloc (SetInsertPoint ?nx st3)) (here (SetInsertPoint ?nx st3) s) st' oc s'"
        proof (rule Cons.IH [OF ok(2) _ 1(5) _ _ _ _ _ prems(9) pr _ \<open>exec k (e_rt E) (CBranches brs) s = Some (oc, s')\<close>])
          show "sim E p (Suc (length scs)) scs loops fins (GBlock b) (CBlock b) [] (names_block b)" if "okb E p b" "b \<in> snd ` set brs" for b
            by (rule prems(2) [OF that(1)]) (use that(2) in auto)
        qed (use bi prems(11) l3 in simp_all)
        then have "post E p scs loops fins (b_alloc st3) (start_of ?nx s) st' oc s'"
          using merges_start [of ?nx st3 s] bi by simp
        then show ?thesis
        proof (rule post_before)
          show "goes E (here st s) (start_of ?nx s)" using c False by simp
          have "agree (b_alloc st) (b_alloc st3) scs" by (rule scoped_agree [OF sc]) (use ad in auto)
          from agree_live [OF agree_drop [OF this]] show "exit_base (b_alloc st3) scs loops = exit_base (b_alloc st) scs loops"
            by (simp add: exit_base_def)
        qed
      qed
    qed
  qed
qed

lemma sim_if:
  assumes e: "env_ok E" and ok: "brs \<noteq> []" "ok_branches (e_nothrow E) (o_exceptions (e_opts E)) p brs"
    and b: "\<And>b. okb E p b \<Longrightarrow> b \<in> snd ` set brs \<Longrightarrow> sim E p (Suc (length scs)) scs loops fins (GBlock b) (CBlock b) [] (names_block b)"
  shows "sim E p (length scs) scs loops fins (GStmt (OStmtIf brs)) (CStmt (OStmtIf brs)) [] (names_branches brs)"
proof (rule simI)
  fix n st st' s oc s'
  assume a: "gen (e_opts E) scs loops fins (GStmt (OStmtIf brs)) st = Some st'" "wfb st" "\<not> terminated st" "ext (e_fun E) st'"
    "pre E p (length scs) scs loops fins [] (names_branches brs) (b_alloc st)" "s_live s = live_of (b_alloc st) scs"
    "exec (Suc n) (e_rt E) (CStmt (OStmtIf brs)) s = Some (oc, s')"
  have i: "idle (b_next st) (new_blocks 1 st)" by (rule idle_new [OF a(2)]) simp_all
  have c: "b_cur (new_blocks 1 st) \<noteq> b_next st" "\<not> terminated (new_blocks 1 st)"
    using i a(3) by (simp_all add: idle_def terminated_def new_blocks_def)
  have "post E p scs loops fins (b_alloc (new_blocks 1 st)) (here (new_blocks 1 st) s) st' oc s'"
    by (rule sim_branches [where m = "b_next st" and n = n and brs = brs, OF e ok(2) b _ wfb_new [OF a(2)] idle_merges [OF i] _ _ c(2) a(4)])
      (use a ok c in \<open>simp_all add: gen_if exec.simps(2)\<close>)
  then show "post E p scs loops fins (b_alloc st) (here st s) st' oc s'" by simp
qed

section \<open>Try\<close>

lemma try_scope_owned [simp]: "sc_owned (try_scope n sc) = sc_owned sc"
  by (simp add: try_scope_def)

lemma try_live: "live_of A (try_scope n sc # scs) = live_of A (sc # scs)"
  by simp

lemma try_exit_base: "exit_base A (try_scope n sc # scs) loops = exit_base A (sc # scs) loops"
  by (cases "Suc (length (sc # scs)) - l_depth (hd loops)") (simp_all add: exit_base_def)

lemma pre_try:
  assumes pr: "pre E p k (sc # scs) loops fins [] N A" and N': "set N' \<subseteq> set N" "distinct N'"
    and f: "okb E fin_perm f" and pad: "b_code (e_fun E) n = [ILandingPad] \<and> b_term (e_fun E) n = Some (TBr (n + 1))"
    and k: "k = length (sc # scs)"
  shows "pre E (try_perm p) (Suc (length (sc # scs))) (try_scope n sc # scs) loops ((Suc (length scs), f) # fins) [] N' A"
proof -
  have "scoped A (sc # scs) [] N'" by (rule scoped_part [OF _ N']) (use pr in \<open>auto simp: pre_def\<close>)
  then have "scoped A (try_scope n sc # scs) [] N'" by (simp add: scoped_def)
  moreover have "handlers (e_fun E) (try_scope n sc # scs)" using pr pad by (simp add: pre_def handlers_def try_scope_def)
  moreover have "fins_ok E (try_perm p) (try_scope n sc # scs) ((Suc (length scs), f) # fins)"
  proof -
    have fo: "fins_ok E p (sc # scs) fins" using pr by (simp add: pre_def)
    have "sc_owned ` set (take j (try_scope n sc # scs)) = sc_owned ` set (take j (sc # scs))" for j
      by (cases j) simp_all
    then have t: "(\<forall>s\<in>set (take j (try_scope n sc # scs)). sc_owned s = []) \<longleftrightarrow> (\<forall>s\<in>set (take j (sc # scs)). sc_owned s = [])" for j
      by (metis (no_types, lifting) image_iff)
    show ?thesis using fo f by (auto simp: fins_ok_def t [simplified] try_perm_def split: prod.splits)
  qed
  moreover have "loop_ok (try_perm p) (Suc (length (sc # scs))) loops" using pr k by (auto simp: pre_def loop_ok_def try_perm_def)
  moreover have "raise_ok E (try_perm p) (try_scope n sc # scs) [] A"
    using pr by (auto simp: pre_def raise_ok_def try_perm_def try_scope_def)
  ultimately show ?thesis by (simp add: pre_def)
qed

lemma sim_try:
  assumes ok: "x_raise p \<longrightarrow> x_cur p \<or> \<not> x_out p" "okb E fin_perm f"
    and b: "\<And>sc d. sim E (try_perm p) (Suc (length (sc # scs))) (sc # scs) loops ((d, f) # fins) (GBlock b) (CBlock b) [] (names_block b)"
    and f: "\<And>sc. sim E fin_perm (Suc (length (sc # scs))) (sc # scs) loops fins (GBlock f) (CBlock f) [] (names_block f)"
  shows "sim E p (length (sc # scs)) (sc # scs) loops fins (GStmt (OStmtTry b f)) (CStmt (OStmtTry b f)) [] (names_block b)"
proof (rule simI)
  fix n st st' s oc s'
  assume g: "gen (e_opts E) (sc # scs) loops fins (GStmt (OStmtTry b f)) st = Some st'" and w: "wfb st" and op: "\<not> terminated st"
    and x: "ext (e_fun E) st'" and pr: "pre E p (length (sc # scs)) (sc # scs) loops fins [] (names_block b) (b_alloc st)"
    and lv: "s_live s = live_of (b_alloc st) (sc # scs)" and ex: "exec (Suc n) (e_rt E) (CStmt (OStmtTry b f)) s = Some (oc, s')"
  define m where "m = b_next st"
  from gen_try_steps [OF g m_def] obtain st1 st2 st3 st4 st5 st6 st7 st8 where 1:
    "gen (e_opts E) (try_scope m sc # scs) loops ((Suc (length scs), f) # fins) (GBlock b) (new_blocks 5 st) = Some st1"
    "terminate_open (TBr (m + 2)) st1 = Some st2" "pad_block m (TBr (m + 1)) st2 = Some st3"
    "gen (e_opts E) (sc # scs) loops fins (GBlock f) (SetInsertPoint (m + 1) st3) = Some st4"
    "terminate_open (unwind_to (sc_cleanup sc)) st4 = Some st5"
    "terminate (TBr (m + 3)) (SetInsertPoint (m + 2) st5) = Some st6"
    "gen (e_opts E) (sc # scs) loops fins (GBlock f) (SetInsertPoint (m + 3) st6) = Some st7"
    "terminate_open (TBr (m + 4)) st7 = Some st8" "st' = SetInsertPoint (m + 4) st8" .
  from ex obtain o1 s1 o2 s2 where 2: "exec n (e_rt E) (CBlock b) s = Some (o1, s1)" "exec n (e_rt E) (CBlock f) s1 = Some (o2, s2)"
    "oc = (if o2 = Normal then o1 else o2)" "s' = s2"
    by (auto simp: exec.simps(2) split: option.splits)
  have wn: "wfb (new_blocks 5 st)" by (rule wfb_new [OF w])
  have fr1: "frame (new_blocks 5 st) st1" by (rule gen_frame [OF 1(1) _ wn]) simp
  have i2: "idle j st2" if "j \<in> {m..<m + 5}" for j
    by (rule idle_prims(3) [OF 1(2) idle_frame [OF fr1 idle_new [OF w]]]) (use that in \<open>auto simp: m_def\<close>)
  have i3: "idle j st3" if "j \<in> {m + 1..<m + 5}" for j
    by (rule idle_pad [OF 1(3) i2]) (use that in auto)
  have w3: "wfb (SetInsertPoint (m + 1) st3)"
  proof -
    have "wfb st2" using wfb_terminate_open [OF _ 1(2)] fr1 by (simp add: frame_def)
    then have "wfb (SetInsertPoint m st2)" by (rule wfb_set) (use i2 [of m] in \<open>simp add: idle_def\<close>)
    then have "wfb st3" using 1(3) by (auto simp: pad_block_def bind_eq_Some_conv dest: emit_wfb terminate_wfb)
    then show ?thesis by (rule wfb_set) (use i3 [of "m + 1"] in \<open>simp add: idle_def\<close>)
  qed
  have fr4: "frame (SetInsertPoint (m + 1) st3) st4" by (rule gen_frame [OF 1(4) _ w3]) simp
  have i5: "idle j st5" if "j \<in> {m + 2..<m + 5}" for j
    by (rule idle_prims(3) [OF 1(5) idle_frame [OF fr4 idle_set [OF i3]]]) (use that in auto)
  have w5: "wfb st5" using wfb_terminate_open [OF _ 1(5)] fr4 by (simp add: frame_def)
  have i6: "idle j st6" if "j \<in> {m + 3..<m + 5}" for j
    by (rule idle_prims(2) [OF 1(6) idle_set [OF i5]]) (use that in auto)
  have w6: "wfb (SetInsertPoint (m + 3) st6)"
  proof -
    have "wfb (SetInsertPoint (m + 2) st5)" by (rule wfb_set [OF w5]) (use i5 [of "m + 2"] in \<open>simp add: idle_def\<close>)
    from terminate_wfb [OF this 1(6)] show ?thesis by (rule wfb_set) (use i6 [of "m + 3"] in \<open>simp add: idle_def\<close>)
  qed
  have fr7: "frame (SetInsertPoint (m + 3) st6) st7" by (rule gen_frame [OF 1(7) _ w6]) simp
  have i8: "idle (m + 4) st8"
    by (rule idle_prims(3) [OF 1(8) idle_frame [OF fr7 idle_set [OF i6]]]) simp_all
  have x8: "ext (e_fun E) st8" using x 1(9) by simp
  have x7: "ext (e_fun E) st7" by (rule ext_trans [OF x8 ext_prims(3) [OF 1(8)]])
  have "ext (e_fun E) (SetInsertPoint (m + 3) st6)" by (rule ext_trans [OF x7 ext_frame [OF fr7 w6]])
  then have x6: "ext (e_fun E) st6" by simp
  have "ext (e_fun E) (SetInsertPoint (m + 2) st5)" by (rule ext_trans [OF x6 ext_prims(2) [OF 1(6)]])
  then have x5: "ext (e_fun E) st5" by simp
  have x4: "ext (e_fun E) st4" by (rule ext_trans [OF x5 ext_prims(3) [OF 1(5)]])
  have "ext (e_fun E) (SetInsertPoint (m + 1) st3)" by (rule ext_trans [OF x4 ext_frame [OF fr4 w3]])
  then have x3: "ext (e_fun E) st3" by simp
  have x2: "ext (e_fun E) st2" by (rule ext_trans [OF x3 ext_pad [OF 1(3)]])
  have x1: "ext (e_fun E) st1" by (rule ext_trans [OF x2 ext_prims(3) [OF 1(2)]])
  have pad: "b_code (e_fun E) m = [ILandingPad] \<and> b_term (e_fun E) m = Some (TBr (m + 1))"
    by (rule pad_at [OF 1(3) i2 x3]) simp
  have fo: "fins_ok E p (sc # scs) fins" and h: "handlers (e_fun E) (sc # scs)"
    and sc: "scoped (b_alloc st) (sc # scs) [] (names_block b)" using pr by (simp_all add: pre_def)
  have fn: "names_block f = []" by (rule ok_fin_names [OF ok(2)])
  have ad1: "set (b_alloc st) \<subseteq> set (b_alloc st1)" "set (b_alloc st1) \<subseteq> set (b_alloc st) \<union> set (names_block b)"
    using gen_adds [OF 1(1)] fins_ok_names [OF fo] by (auto simp: adds_def fn)
  have al: "b_alloc st3 = b_alloc st1" using 1(2) b_alloc_ends(1) [OF 1(3)] by simp
  have ad4: "set (b_alloc st4) = set (b_alloc st1)" using gen_adds [OF 1(4)] fins_ok_names [OF fo] al by (auto simp: adds_def fn)
  have ad7: "set (b_alloc st7) = set (b_alloc st1)" using gen_adds [OF 1(7)] fins_ok_names [OF fo] ad4 1(5,6) by (auto simp: adds_def fn)
  have al': "b_alloc st' = b_alloc st7" "b_alloc st6 = b_alloc st4" using 1 by simp_all
  have live: "live_of A (sc # scs) = live_of (b_alloc st) (sc # scs)" if "set A = set (b_alloc st1)" for A
    by (rule agree_live [OF scoped_agree [OF sc]]) (use that ad1 in auto)
  have ls: "s_live s1 = s_live s" "s_live s2 = s_live s1"
    using exec_lives [OF 2(1)] exec_lives [OF 2(2)] by (simp_all add: lives_Nil)
  have fin_pre: "pre E fin_perm (Suc (length (sc # scs))) (sc # scs) loops fins [] (names_block f) A" for A
  proof -
    have "fins_ok E fin_perm (sc # scs) fins" using fo by (auto simp: fins_ok_def)
    from pre_fin [OF h _ this _ ok(2)] show ?thesis by simp
  qed
  have run_f: "o2 = Normal \<and> \<not> terminated stb \<and> goes E (start_of j s1) (here stb s2)"
    if "gen (e_opts E) (sc # scs) loops fins (GBlock f) (SetInsertPoint j sta) = Some stb" "wfb (SetInsertPoint j sta)"
      "idle j sta" "ext (e_fun E) stb" "set (b_alloc sta) = set (b_alloc st1)" for j sta stb
  proof -
    have "s_live s1 = live_of (b_alloc sta) (sc # scs)" using ls(1) lv live [OF that(5)] by simp
    then have "post E fin_perm (sc # scs) loops fins (b_alloc sta) (start_of j s1) stb o2 s2"
      using simD [OF f that(1,2) _ that(4) _ _ 2(2)] fin_pre idle_start [OF that(3), of s1] by simp
    moreover from post_fin [OF this] have "o2 = Normal" .
    ultimately show ?thesis by (simp add: post_def)
  qed
  have op0: "\<not> terminated (new_blocks 5 st)" using op by (simp add: terminated_def new_blocks_def)
  have pt: "pre E (try_perm p) (Suc (length (sc # scs))) (try_scope m sc # scs) loops ((Suc (length scs), f) # fins) [] (names_block b) (b_alloc st)"
    by (rule pre_try [OF pr _ _ ok(2) pad refl]) (use sc in \<open>simp_all add: scoped_def\<close>)
  have po: "post E (try_perm p) (try_scope m sc # scs) loops ((Suc (length scs), f) # fins) (b_alloc st) (here st s) st1 o1 s1"
    using simD [OF b 1(1) wn op0 x1 _ _ 2(1)] pt lv by simp
  have f3: "o2 = Normal \<and> \<not> terminated st4 \<and> goes E (start_of (m + 1) s1) (here st4 s2)"
    by (rule run_f [OF 1(4) w3 i3 x4]) (simp_all add: al)
  then have oc: "oc = o1" using 2(3) by simp
  have run: "fins_run (e_rt E) ((Suc (length scs), f) # fins) s1 s3" if "fins_run (e_rt E) fins s2 s3" for s3
    using 2(2) f3 that by auto
  show "post E p (sc # scs) loops fins (b_alloc st) (here st s) st' oc s'"
  proof (cases o1)
    case Normal
    with po have n1: "\<not> terminated st1" "goes E (here st s) (here st1 s1)" by (simp_all add: post_def)
    have f7: "o2 = Normal \<and> \<not> terminated st7 \<and> goes E (start_of (m + 3) s1) (here st7 s2)"
      by (rule run_f [OF 1(7) w6 i6 x7]) (simp_all add: ad4 al')
    have "goes E (here st1 s1) (start_of (m + 2) s1)" by (rule terminate_open_br [OF 1(2) n1(1) x2])
    also have "goes E (start_of (m + 2) s1) (start_of (m + 3) s1)"
      using terminate_br [OF 1(6) x6, of _ s1] idle_start [OF i5, of "m + 2" s1] by simp
    also have "goes E (start_of (m + 3) s1) (here st7 s2)" using f7 by simp
    also have "goes E (here st7 s2) (start_of (m + 4) s2)" by (rule terminate_open_br [OF 1(8) _ x8]) (use f7 in simp)
    finally have "goes E (here st1 s1) (start_of (m + 4) s2)" .
    from reach_trans [OF n1(2) this] idle_start [OF i8, of s2] live [of "b_alloc st'"] ad7 al' lv ls
    show ?thesis by (simp add: post_def oc Normal 2(4) 1(9))
  next
    case Break
    with po run show ?thesis by (auto simp: post_def oc 2(4) try_exit_base try_perm_def)
  next
    case Continue
    with po run show ?thesis by (auto simp: post_def oc 2(4) try_exit_base try_perm_def)
  next
    case Return
    with po run show ?thesis by (auto simp: post_def oc 2(4) try_perm_def)
  next
    case Raise
    with po have r: "x_raise p" "\<forall>s\<in>set (sc # scs). set (sc_owned s) \<subseteq> set (b_alloc st1)"
      "s_live s1 = concat (map (rev \<circ> sc_owned) (sc # scs))" "goes E (here st s) (start_of (m + 1) s1)"
      by (auto simp: post_def try_perm_def unwound_def GetUnwindCleanupBB_def try_scope_def)
    have "raise_ok E p (sc # scs) [] (b_alloc st)" using pr by (simp add: pre_def)
    with r(1) ok(1) have u: "sc_cleanup sc = None \<Longrightarrow> GetUnwindCleanupBB scs = None"
      by (auto simp: raise_ok_def GetUnwindCleanupBB_def) (induction scs, auto)
    from f3 1(5) have "terminate (unwind_to (sc_cleanup sc)) st4 = Some st5" by (simp add: terminate_open_def)
    from terminate_unwind [OF this x5, where R = "e_rt E" and s = s2] have "goes E (here st4 s2) (unwound (sc # scs) s2)"
      using u by (cases "sc_cleanup sc") (simp_all add: unwound_def GetUnwindCleanupBB_def)
    with f3 r(4) have "goes E (here st s) (unwound (sc # scs) s2)" by (meson reach_trans)
    with r ls ad7 al' show ?thesis by (simp add: post_def oc Raise 2(4))
  qed
qed

section \<open>All statements\<close>

definition simulates :: "'f senv \<Rightarrow> 'f fins \<Rightarrow> 'f gcode \<Rightarrow> bool" where
  "simulates E fins c \<longleftrightarrow> (\<forall>p scs loops.
     case c of
       GStmt stm \<Rightarrow> ok_stmt (e_nothrow E) (o_exceptions (e_opts E)) p stm \<longrightarrow>
         sim E p (length scs) scs loops fins c (CStmt stm) (managed [stm]) (names_stmt stm)
     | GSeq cs \<Rightarrow> ok_seq (e_nothrow E) (o_exceptions (e_opts E)) p cs \<longrightarrow>
         sim E p (length scs) scs loops fins c (CSeq cs) (managed cs) (names_seq cs)
     | GBlock b \<Rightarrow> okb E p b \<longrightarrow> sim E p (Suc (length scs)) scs loops fins c (CBlock b) [] (names_block b)
     | _ \<Rightarrow> True)"

lemma simulatesD:
  "simulates E fins (GStmt stm) \<Longrightarrow> ok_stmt (e_nothrow E) (o_exceptions (e_opts E)) p stm \<Longrightarrow>
     sim E p (length scs) scs loops fins (GStmt stm) (CStmt stm) (managed [stm]) (names_stmt stm)"
  "simulates E fins (GSeq cs) \<Longrightarrow> ok_seq (e_nothrow E) (o_exceptions (e_opts E)) p cs \<Longrightarrow>
     sim E p (length scs) scs loops fins (GSeq cs) (CSeq cs) (managed cs) (names_seq cs)"
  "simulates E fins (GBlock b) \<Longrightarrow> okb E p b \<Longrightarrow> sim E p (Suc (length scs)) scs loops fins (GBlock b) (CBlock b) [] (names_block b)"
  by (simp_all add: simulates_def)

lemma gmeasure_fin: "suffix ((d, f) # rest) fins \<Longrightarrow> gmeasure rest (GBlock f) < gmeasure fins (GStmt c)"
  by (auto simp: suffix_def gmeasure_def)

lemma simulates_stmt:
  assumes e: "env_ok E" and IH: "\<And>fins' c'. gmeasure fins' c' < gmeasure fins (GStmt c) \<Longrightarrow> simulates E fins' c'"
  shows "simulates E fins (GStmt c)"
proof -
  have "sim E p (length scs) scs loops fins (GStmt c) (CStmt c) (managed [c]) (names_stmt c)"
    if ok: "ok_stmt (e_nothrow E) (o_exceptions (e_opts E)) p c" for p scs loops
  proof -
    have fs: "fins_sim E fins"
      unfolding fins_sim_def by (auto intro!: simulatesD(3) IH gmeasure_fin)
    show ?thesis
    proof (cases c)
      case (OStmtVarDecl x ty v)
      then show ?thesis using sim_vardecl [OF e] by simp
    next
      case (OStmtVarManaged x)
      then show ?thesis using sim_managed by simp
    next
      case (OStmtAssign x ty v)
      then show ?thesis using sim_assign [OF e] by simp
    next
      case (OStmtModifyAssign x ty op v)
      then show ?thesis using sim_modify [OF e] by simp
    next
      case (OStmtVoidCall f)
      then show ?thesis using sim_call [OF e] ok by simp
    next
      case (OStmtReturn v)
      then show ?thesis using sim_return [OF e _ fs] ok by simp
    next
      case OBreakStmt
      then show ?thesis using sim_break_continue [OF _ _ fs] ok by simp
    next
      case OContinueStmt
      then show ?thesis using sim_break_continue [OF _ _ fs] ok by simp
    next
      case (OStmtWhile v b)
      have "sim E p (length scs) scs loops fins (GStmt (OStmtWhile v b)) (CStmt (OStmtWhile v b)) [] (names_block b)"
        by (rule sim_while [OF e simulatesD(3) [OF IH]]) (use ok OStmtWhile in \<open>simp_all add: gmeasure_stmt\<close>)
      with OStmtWhile show ?thesis by simp
    next
      case (OStmtFor i v b stp)
      have "sim E p (length scs) scs loops fins (GStmt (OStmtFor i v b stp)) (CStmt (OStmtFor i v b stp)) []
          (names_block i @ names_block b @ names_block stp)"
        by (rule sim_for [OF e _ _ simulatesD(3) [OF IH] simulatesD(3) [OF IH] simulatesD(3) [OF IH]])
          (use ok OStmtFor in \<open>simp_all add: gmeasure_stmt\<close>)
      with OStmtFor show ?thesis by simp
    next
      case (OStmtIf brs)
      have "simulates E fins (GBlock b)" if "b \<in> snd ` set brs" for b
      proof (rule IH)
        from that obtain v where "(v, b) \<in> set brs" by auto
        from less_trans [OF gmeasure_branch [OF this] gmeasure_stmt(2)]
        show "gmeasure fins (GBlock b) < gmeasure fins (GStmt c)" by (simp add: OStmtIf)
      qed
      then have "sim E p (length scs) scs loops fins (GStmt (OStmtIf brs)) (CStmt (OStmtIf brs)) [] (names_branches brs)"
        by (intro sim_if [OF e] simulatesD(3)) (use ok OStmtIf in simp_all)
      with OStmtIf show ?thesis by simp
    next
      case (OStmtTry b f)
      with ok have o: "x_raise p \<longrightarrow> x_cur p \<or> \<not> x_out p" "okb E (try_perm p) b" "okb E fin_perm f" by simp_all
      show ?thesis
      proof (cases scs)
        case Nil
        then show ?thesis by (simp add: OStmtTry sim_def gen_try)
      next
        case (Cons sc outer)
        have "sim E p (length (sc # outer)) (sc # outer) loops fins (GStmt (OStmtTry b f)) (CStmt (OStmtTry b f)) [] (names_block b)"
        proof (rule sim_try [OF o(1,3)])
          fix sc d
          have "gmeasure ((d, f) # fins) (GBlock b) < gmeasure fins (GStmt c)" by (simp add: OStmtTry gmeasure_def)
          from simulatesD(3) [OF IH [OF this] o(2)]
          show "sim E (try_perm p) (Suc (length (sc # outer))) (sc # outer) loops ((d, f) # fins) (GBlock b) (CBlock b) [] (names_block b)" .
          have "gmeasure fins (GBlock f) < gmeasure fins (GStmt c)" by (simp add: OStmtTry gmeasure_def)
          from simulatesD(3) [OF IH [OF this] o(3)]
          show "sim E fin_perm (Suc (length (sc # outer))) (sc # outer) loops fins (GBlock f) (CBlock f) [] (names_block f)" .
        qed
        with ok_fin_names [OF o(3)] show ?thesis by (simp add: OStmtTry Cons)
      qed
    qed
  qed
  then show ?thesis by (simp add: simulates_def)
qed

lemma simulates_all: "env_ok E \<Longrightarrow> simulates E fins c"
proof (induction "gmeasure fins c" arbitrary: fins c rule: less_induct)
  case less
  show ?case
  proof (cases c)
    case (GStmt s)
    then show ?thesis using simulates_stmt less by blast
  next
    case (GSeq cs)
    show ?thesis
    proof (cases cs)
      case Nil
      then show ?thesis by (simp add: GSeq simulates_def sim_nil)
    next
      case (Cons s cs')
      have IH: "simulates E fins (GStmt s)" "simulates E fins (GSeq cs')"
        by (rule less(1) [OF _ less(2)], simp add: GSeq Cons gmeasure_seq)+
      have "sim E p (length scs) scs loops fins (GSeq (s # cs')) (CSeq (s # cs')) (managed (s # cs')) (names_seq (s # cs'))"
        if "ok_seq (e_nothrow E) (o_exceptions (e_opts E)) p (s # cs')" for p scs loops
        by (rule sim_seq [OF simulatesD(1) [OF IH(1)] simulatesD(2) [OF IH(2)]]) (use that in simp_all)
      then show ?thesis by (simp add: GSeq Cons simulates_def)
    qed
  next
    case (GBlock b)
    have IH: "simulates E fins (GSeq (blk_stmts b))"
      by (rule less(1) [OF _ less(2)]) (simp add: GBlock gmeasure_block)
    have "sim E p (Suc (length scs)) scs loops fins (GBlock b) (CBlock b) [] (names_block b)" if "okb E p b" for p scs loops
      by (rule sim_block [OF that simulatesD(2) [OF IH]])
    then show ?thesis by (simp add: GBlock simulates_def)
  qed (simp_all add: simulates_def)
qed

end
