(* ===== verification/Stmt_Func.thy ===== *)
theory Stmt_Func
  imports Stmt_Sim
begin

text \<open>
  A function's body (\<open>OValSymFunc::GenerateFuncBody\<close> in \<open>compiler/types/otype_func.cpp\<close>): the entry block, the
  \<open>result\<close> variable, the statements and the implicit return; and what running the code does.
\<close>

section \<open>The function\<close>

text \<open>
  The walks up the scopes stop at the body's scope; the scope above it owns nothing of the function.
\<close>

definition module_scope :: scope where
  "module_scope = \<lparr>sc_owned = [], sc_lpad = None, sc_cleanup = None\<rparr>"

definition entry :: "'f bld" where
  "entry = \<lparr>b_code = \<lambda>_. [], b_term = \<lambda>_. None, b_next = 1, b_cur = 0, b_alloc = []\<rparr>"

definition GenerateFuncBody :: "'f opts \<Rightarrow> 'f block \<Rightarrow> 'f bld option" where
  "GenerateFuncBody P body =
     Option.bind (if o_result P then emit (IZero ''result'') entry else Some entry) (\<lambda>st1.
     Option.bind (gen P [module_scope] [] [] (GBlock body) st1) (terminate_open TRet))"

text \<open>The language's meaning of a call of the function, and a run of its code from the entry block.\<close>

definition func_start :: "'f opts \<Rightarrow> mem \<Rightarrow> sst" where
  "func_start P env = \<lparr>s_env = (if o_result P then env(''result'' := 0) else env), s_trace = [], s_live = []\<rparr>"

definition call_func :: "nat \<Rightarrow> 'f rt \<Rightarrow> 'f opts \<Rightarrow> 'f block \<Rightarrow> mem \<Rightarrow> (outcome \<times> sst) option" where
  "call_func n R P body env = exec n R (CBlock body) (func_start P env)"

definition run_func :: "nat \<Rightarrow> 'f rt \<Rightarrow> 'f bld \<Rightarrow> mem \<Rightarrow> config" where
  "run_func k R G env = crun k R G (At 0 0 env [])"

definition body_perm :: "bool \<Rightarrow> perm" where
  "body_perm ex = \<lparr>x_try = False, x_brk = False, x_ret = True, x_own = True, x_raise = ex, x_cur = False, x_out = False\<rparr>"

definition ok_func :: "(string \<Rightarrow> bool) \<Rightarrow> 'f opts \<Rightarrow> 'f block \<Rightarrow> bool" where
  "ok_func nt P body \<longleftrightarrow> ok_block nt (o_exceptions P) (body_perm (o_exceptions P)) body \<and> distinct (names_block body)"

definition same_machine :: "'f rt \<Rightarrow> 'f opts \<Rightarrow> bool" where
  "same_machine R P \<longleftrightarrow> r_target R = o_target P \<and> r_fpu R = o_fpu P"

definition result_config :: "outcome \<Rightarrow> sst \<Rightarrow> config" where
  "result_config oc s = (if oc = Raise then Unwound (s_env s) (s_trace s) else Done (s_env s) (s_trace s))"

lemma entry_simps [simp]: "wfb entry" "\<not> terminated entry" "b_alloc entry = []" "here entry s = At 0 0 (s_env s) (s_trace s)"
  by (simp_all add: entry_def wfb_def terminated_def here_def)

lemma func_simulated:
  assumes m: "same_machine R P" and nt: "\<And>f env. nt f \<Longrightarrow> \<not> fst (r_call R f env)" and ok: "ok_func nt P body"
    and g: "GenerateFuncBody P body = Some G" and x: "call_func n R P body env = Some (oc, s)"
  shows "oc \<in> {Normal, Return, Raise} \<and> reach R G (At 0 0 env []) (result_config oc s)"
proof -
  define E where "E = \<lparr>e_opts = P, e_rt = R, e_fun = G, e_nothrow = nt\<rparr>"
  have E [simp]: "e_opts E = P" "e_rt E = R" "e_fun E = G" "e_nothrow E = nt" by (simp_all add: E_def)
  have eo: "env_ok E" using m nt by (auto simp: env_ok_def same_machine_def)
  let ?s = "func_start P env"
  from g obtain st1 st2 where 1: "(if o_result P then emit (IZero ''result'') entry else Some entry) = Some st1"
    "gen P [module_scope] [] [] (GBlock body) st1 = Some st2" "terminate_open TRet st2 = Some G"
    unfolding GenerateFuncBody_def bind_eq_Some_conv by blast
  have w: "wfb st1" using 1(1) emit_wfb [OF entry_simps(1)] by (auto split: if_splits)
  have t: "\<not> terminated st1" using 1(1) emit_open [of _ entry] by (auto split: if_splits)
  have al: "b_alloc st1 = []" using 1(1) by (auto split: if_splits)
  have x2: "ext G st2" by (rule ext_prims(3) [OF 1(3)])
  have x1: "ext G st1" using ext_trans [OF x2 gen_ext [OF 1(2) _ w]] by simp
  have start: "reach R G (At 0 0 env []) (here st1 ?s)"
  proof (cases "o_result P")
    case True
    with 1(1) have e: "emit (IZero ''result'') entry = Some st1" by simp
    have "cstep R G (At 0 0 env []) = Some (here st1 ?s)"
      using emit_at(1,2) [OF e x1] emit_at(3) [OF e x1, of ?s] True by (simp add: cstep_def entry_def func_start_def)
    then show ?thesis by (rule reach_step)
  next
    case False
    with 1(1) show ?thesis by (simp add: func_start_def)
  qed
  have okb: "okb E (body_perm (o_exceptions P)) body" and dn: "distinct (names_block body)" using ok by (simp_all add: ok_func_def)
  have "pre E (body_perm (o_exceptions P)) (Suc (length [module_scope])) [module_scope] [] [] [] (names_block body) []"
    using dn by (simp add: pre_def scoped_def handlers_def fins_ok_def loop_ok_def raise_ok_def module_scope_def body_perm_def)
  moreover have "s_live ?s = live_of [] [module_scope]" by (simp add: func_start_def module_scope_def)
  ultimately have po: "post E (body_perm (o_exceptions P)) [module_scope] [] [] [] (here st1 ?s) st2 oc s"
    using simD [OF simulatesD(3) [OF simulates_all [OF eo] okb], of "[module_scope]" "[]" "[]" st1 st2 ?s n oc s]
      1(2) w t x2 al x by (simp add: call_func_def)
  have sl: "s_live s = []" using exec_lives [OF x [unfolded call_func_def]] by (simp add: lives_Nil func_start_def)
  show ?thesis
  proof (cases oc)
    case Normal
    with po have n: "\<not> terminated st2" "reach R G (here st1 ?s) (here st2 s)" by (simp_all add: post_def)
    from n(1) 1(3) have "terminate TRet st2 = Some G" by (simp add: terminate_open_def)
    from terminate_cstep [OF this ext_refl, of R s] have "reach R G (here st2 s) (result_config oc s)"
      by (intro reach_step) (simp add: result_config_def Normal)
    with start n(2) show ?thesis by (auto intro: reach_trans simp: Normal)
  next
    case Return
    have "leave 0 s = s" using leave_same [of s] sl by simp
    with po Return have "reach R G (here st1 ?s) (result_config oc s)" by (simp add: post_def result_config_def)
    with start show ?thesis by (auto intro: reach_trans simp: Return)
  next
    case Raise
    with po have "reach R G (here st1 ?s) (result_config oc s)"
      by (simp add: post_def result_config_def unwound_def GetUnwindCleanupBB_def module_scope_def)
    with start show ?thesis by (auto intro: reach_trans simp: Raise)
  qed (use po in \<open>simp_all add: post_def body_perm_def\<close>)
qed

end
