(* ===== verification/Stmt_Total.thy ===== *)
theory Stmt_Total
  imports Stmt_Func Expr_Wt
begin

text \<open>
  Well-typed statements have code, and the code is a well-formed function: every block that was created
  ends with one terminator, and every target of a terminator is a block that was created.
\<close>

section \<open>Well-typed statements\<close>

text \<open>The target, whether there is a \<open>result\<close>, whether the statement is in a loop.\<close>

fun wt_stmt :: "target \<Rightarrow> bool \<Rightarrow> bool \<Rightarrow> 'f stmt \<Rightarrow> bool"
  and wt_seq :: "target \<Rightarrow> bool \<Rightarrow> bool \<Rightarrow> 'f stmt list \<Rightarrow> bool"
  and wt_block :: "target \<Rightarrow> bool \<Rightarrow> bool \<Rightarrow> 'f block \<Rightarrow> bool"
  and wt_branches :: "target \<Rightarrow> bool \<Rightarrow> bool \<Rightarrow> ('f expr option \<times> 'f block) list \<Rightarrow> bool" where
  "wt_stmt t r l (OStmtVarDecl x ty e) \<longleftrightarrow> (case e of None \<Rightarrow> True | Some e \<Rightarrow> wt t e)"
| "wt_stmt t r l (OStmtVarManaged x) \<longleftrightarrow> True"
| "wt_stmt t r l (OStmtAssign x ty e) \<longleftrightarrow> wt t e"
| "wt_stmt t r l (OStmtModifyAssign x ty op e) \<longleftrightarrow> wt t e \<and>
     (case ty of TInt _ _ \<Rightarrow> op \<noteq> BINOP_DIV | TFloat _ \<Rightarrow> fop op | _ \<Rightarrow> False)"
| "wt_stmt t r l (OStmtVoidCall f) \<longleftrightarrow> True"
| "wt_stmt t r l (OStmtReturn e) \<longleftrightarrow> (case e of None \<Rightarrow> True | Some e \<Rightarrow> r \<and> wt t e)"
| "wt_stmt t r l OBreakStmt \<longleftrightarrow> l"
| "wt_stmt t r l OContinueStmt \<longleftrightarrow> l"
| "wt_stmt t r l (OStmtWhile e b) \<longleftrightarrow> wt t e \<and> etype e = TBool \<and> wt_block t r True b"
| "wt_stmt t r l (OStmtFor i e b stp) \<longleftrightarrow>
     wt_block t r l i \<and> wt t e \<and> etype e = TBool \<and> wt_block t r True b \<and> wt_block t r True stp"
| "wt_stmt t r l (OStmtIf brs) \<longleftrightarrow> brs \<noteq> [] \<and> wt_branches t r l brs"
| "wt_stmt t r l (OStmtTry b f) \<longleftrightarrow> wt_block t r l b \<and> wt_block t r l f"
| "wt_seq t r l [] \<longleftrightarrow> True"
| "wt_seq t r l (c # cs) \<longleftrightarrow> wt_stmt t r l c \<and> wt_seq t r l cs"
| "wt_block t r l (OStmtBlock owned cs) \<longleftrightarrow> wt_seq t r l cs"
| "wt_branches t r l [] \<longleftrightarrow> True"
| "wt_branches t r l ((e, b) # brs) \<longleftrightarrow>
     (case e of None \<Rightarrow> brs = [] | Some e \<Rightarrow> wt t e \<and> etype e = TBool) \<and> wt_block t r l b \<and> wt_branches t r l brs"

lemma wt_blk: "wt_block t r l b \<longleftrightarrow> wt_seq t r l (blk_stmts b)"
  by (cases b) simp

lemma wt_else_last: "wt_branches t r l brs \<Longrightarrow> else_last brs"
  by (induction brs) (auto split: option.splits)

section \<open>Functions whose jumps have targets\<close>

fun targets :: "'f bterm \<Rightarrow> nat set" where
  "targets (TBr b) = {b}"
| "targets (TCondBr g b c) = {b, c}"
| "targets (TInvoke f b c) = {b, c}"
| "targets TRet = {}"
| "targets TResume = {}"

definition linked :: "'f bld \<Rightarrow> bool" where
  "linked st \<longleftrightarrow> wfb st \<and> (\<forall>b t. b_term st b = Some t \<longrightarrow> (\<forall>x\<in>targets t. x < b_next st))"

definition labels_ok :: "nat \<Rightarrow> scopes \<Rightarrow> loopctx list \<Rightarrow> bool" where
  "labels_ok n scs loops \<longleftrightarrow> (\<forall>sc\<in>set scs. \<forall>x. sc_lpad sc = Some x \<or> sc_cleanup sc = Some x \<longrightarrow> x < n) \<and>
     (\<forall>l\<in>set loops. l_cond l < n \<and> l_end l < n)"

lemma labels_ok_mono: "labels_ok n scs loops \<Longrightarrow> n \<le> n' \<Longrightarrow> labels_ok n' scs loops"
  unfolding labels_ok_def by (meson order_less_le_trans)

lemma labels_ok_simps [simp]:
  "labels_ok n (sc # scs) loops \<longleftrightarrow> (\<forall>x. sc_lpad sc = Some x \<or> sc_cleanup sc = Some x \<longrightarrow> x < n) \<and> labels_ok n scs loops"
  "labels_ok n scs (l # loops) \<longleftrightarrow> l_cond l < n \<and> l_end l < n \<and> labels_ok n scs loops"
  by (auto simp: labels_ok_def)

lemma labels_ok_drop: "labels_ok n scs loops \<Longrightarrow> labels_ok n (drop k scs) loops"
  unfolding labels_ok_def by (meson in_set_dropD)

lemma cleanup_label: "labels_ok n scs loops \<Longrightarrow> GetUnwindCleanupBB scs = Some x \<Longrightarrow> x < n"
  unfolding GetUnwindCleanupBB_def by (induction scs) (auto split: option.splits)

lemma lpad_label: "labels_ok n scs loops \<Longrightarrow> GetExceptionCleanupBB scs = Some x \<Longrightarrow> x < n"
  unfolding GetExceptionCleanupBB_def by (induction scs) (auto split: option.splits)

lemma linked_wfb: "linked st \<Longrightarrow> wfb st"
  by (simp add: linked_def)

text \<open>A step that cannot fail: it ends in a linked function, and no blocks but those of \<open>X\<close> are open.\<close>

definition lands :: "'f bld option \<Rightarrow> ('f bld \<Rightarrow> bool) \<Rightarrow> bool" where
  "lands r Q \<longleftrightarrow> (\<exists>st'. r = Some st' \<and> linked st' \<and> Q st')"

lemma landsE: "lands r Q \<Longrightarrow> (\<And>st'. r = Some st' \<Longrightarrow> linked st' \<Longrightarrow> Q st' \<Longrightarrow> P) \<Longrightarrow> P"
  by (auto simp: lands_def)

lemma emit_lands:
  "linked st \<Longrightarrow> \<not> terminated st \<Longrightarrow>
     lands (emit i st) (\<lambda>st'. opn st' = opn st \<and> b_cur st' = b_cur st \<and> b_next st' = b_next st \<and> \<not> terminated st')"
  by (auto simp: lands_def emit_def linked_def wfb_def opn_def terminated_def)

lemma terminate_lands:
  assumes "linked st" "\<not> terminated st" "\<forall>x\<in>targets t. x < b_next st"
  shows "lands (terminate t st) (\<lambda>st'. opn st' = opn st - {b_cur st} \<and> b_next st' = b_next st)"
proof -
  from assms(2) obtain st' where st': "terminate t st = Some st'" by (simp add: terminate_def)
  have "linked st'" using assms st' by (auto simp: linked_def terminate_def wfb_def split: if_splits)
  with st' opn_terminate [OF st'] b_next_prims(2) [OF st'] show ?thesis by (simp add: lands_def)
qed

lemma terminate_open_lands:
  assumes "linked st" "\<forall>x\<in>targets t. x < b_next st"
  shows "lands (terminate_open t st) (\<lambda>st'. opn st' \<subseteq> opn st - {b_cur st} \<and> b_next st' = b_next st)"
proof (cases "terminated st")
  case True
  with assms(1) show ?thesis by (auto simp: lands_def terminate_open_def opn_def terminated_def)
next
  case False
  from terminate_lands [OF assms(1) False assms(2)] show ?thesis by (auto simp: lands_def terminate_open_def False)
qed

lemma destroys_lands:
  "linked st \<Longrightarrow> \<not> terminated st \<Longrightarrow>
     lands (emit_destroys xs st) (\<lambda>st'. opn st' = opn st \<and> b_cur st' = b_cur st \<and> b_next st' = b_next st \<and> \<not> terminated st')"
proof (induction xs arbitrary: st)
  case (Cons x xs)
  show ?case
  proof (cases "x \<in> set (b_alloc st)")
    case False
    with Cons show ?thesis by simp
  next
    case True
    from emit_lands [OF Cons.prems, of "IDestroy x"] show ?thesis
    proof (rule landsE)
      fix st1 assume 1: "emit (IDestroy x) st = Some st1" "linked st1"
        "opn st1 = opn st \<and> b_cur st1 = b_cur st \<and> b_next st1 = b_next st \<and> \<not> terminated st1"
      with Cons.IH [of st1] True show ?thesis by (simp add: lands_def)
    qed
  qed
qed (simp add: lands_def)

lemma linked_set: "linked st \<Longrightarrow> b < b_next st \<Longrightarrow> linked (SetInsertPoint b st)"
  by (simp add: linked_def wfb_set) (simp add: SetInsertPoint_def)

lemma linked_new: "linked st \<Longrightarrow> linked (new_blocks k st)"
  by (simp add: linked_def wfb_new) (fastforce simp: new_blocks_def)

lemma set_simps [simp]: "b_next (SetInsertPoint b st) = b_next st" "b_next (new_blocks k st) = b_next st + k" "b_cur (new_blocks k st) = b_cur st"
  "terminated (new_blocks k st) = terminated st"
  by (simp_all add: SetInsertPoint_def new_blocks_def terminated_def)

lemma pad_lands:
  assumes "linked st" "idle n st" "\<forall>x\<in>targets t. x < b_next st"
  shows "lands (pad_block n t st) (\<lambda>st'. opn st' \<subseteq> opn st - {n} \<and> b_next st' = b_next st)"
proof -
  have "linked (SetInsertPoint n st)" using assms by (simp add: idle_def linked_set)
  from emit_lands [OF this, of ILandingPad] idle_start [OF assms(2)] obtain st1 where
    1: "emit ILandingPad (SetInsertPoint n st) = Some st1" "linked st1" "opn st1 = opn st" "b_cur st1 = n" "b_next st1 = b_next st" "\<not> terminated st1"
    by (auto simp: lands_def)
  from terminate_lands [OF 1(2,6), of t] assms(3) 1 show ?thesis by (auto simp: lands_def pad_block_def)
qed

lemma end_lands:
  assumes "linked st" "\<forall>x\<in>targets t. x < b_next st"
  shows "lands (block_end sc t st) (\<lambda>st'. opn st' \<subseteq> opn st - {b_cur st} \<and> b_next st' = b_next st)"
proof (cases "terminated st")
  case True
  with assms(1) show ?thesis by (auto simp: lands_def block_end_def opn_def terminated_def)
next
  case False
  from destroys_lands [OF assms(1) False, of "rev (sc_owned sc)"] obtain st1 where
    1: "emit_destroys (rev (sc_owned sc)) st = Some st1" "linked st1" "opn st1 = opn st" "b_cur st1 = b_cur st" "b_next st1 = b_next st" "\<not> terminated st1"
    by (auto simp: lands_def)
  from terminate_lands [OF 1(2,6), of t] assms(2) 1 show ?thesis
    by (auto simp: lands_def block_end_def EmitOwnedObjectDestructors_def False)
qed

lemma jump_lands:
  assumes "linked st" "\<forall>x\<in>targets t. x < b_next st"
  shows "lands (jump k scs t st) (\<lambda>st'. opn st' \<subseteq> opn st - {b_cur st} \<and> b_next st' = b_next st)"
proof (cases "terminated st")
  case True
  with assms(1) show ?thesis by (auto simp: lands_def jump_def opn_def terminated_def)
next
  case False
  let ?xs = "concat (map (rev \<circ> sc_owned) (take k scs))"
  from destroys_lands [OF assms(1) False, of ?xs] obtain st1 where
    1: "emit_destroys ?xs st = Some st1" "linked st1" "opn st1 = opn st" "b_cur st1 = b_cur st" "b_next st1 = b_next st" "\<not> terminated st1"
    by (auto simp: lands_def)
  from terminate_lands [OF 1(2,6), of t] assms(2) 1 show ?thesis
    by (auto simp: lands_def jump_def EmitOwnedObjectDestructorsUntil_def False)
qed

section \<open>Code generation succeeds\<close>

definition fine :: "'f opts \<Rightarrow> scopes \<Rightarrow> loopctx list \<Rightarrow> 'f fins \<Rightarrow> 'f gcode \<Rightarrow> bool" where
  "fine P scs loops fins c \<longleftrightarrow> (\<forall>st. linked st \<longrightarrow> \<not> terminated st \<longrightarrow> labels_ok (b_next st) scs loops \<longrightarrow>
     lands (gen P scs loops fins c st) (\<lambda>st'. opn st' \<subseteq> insert (b_cur st') (opn st - {b_cur st}) \<and> frame st st'))"

lemma fineI:
  assumes "\<forall>m brs. c \<noteq> GBranches m brs"
    and "\<And>st. linked st \<Longrightarrow> \<not> terminated st \<Longrightarrow> labels_ok (b_next st) scs loops \<Longrightarrow>
       lands (gen P scs loops fins c st) (\<lambda>st'. opn st' \<subseteq> insert (b_cur st') (opn st - {b_cur st}))"
  shows "fine P scs loops fins c"
  unfolding fine_def
proof (intro allI impI)
  fix st :: "'a bld" assume a: "linked st" "\<not> terminated st" "labels_ok (b_next st) scs loops"
  from assms(2) [OF this] obtain st' where 1: "gen P scs loops fins c st = Some st'" "linked st'" "opn st' \<subseteq> insert (b_cur st') (opn st - {b_cur st})"
    by (auto simp: lands_def)
  with gen_frame [OF 1(1) assms(1) linked_wfb [OF a(1)]]
  show "lands (gen P scs loops fins c st) (\<lambda>st'. opn st' \<subseteq> insert (b_cur st') (opn st - {b_cur st}) \<and> frame st st')"
    by (simp add: lands_def)
qed

lemma fineE:
  assumes "fine P scs loops fins c" "linked st" "\<not> terminated st" "labels_ok (b_next st) scs loops"
  obtains st' where "gen P scs loops fins c st = Some st'" "linked st'" "opn st' \<subseteq> insert (b_cur st') (opn st - {b_cur st})"
    "frame st st'" "b_next st \<le> b_next st'"
  using assms unfolding fine_def lands_def frame_def by blast

lemma opn_cur: "terminated st \<Longrightarrow> b_cur st \<notin> opn st"
  by (simp add: terminated_def opn_def)

lemma fine_active:
  assumes f: "fine P (drop (length scs - d) scs) loops rest (GBlock f)" and r: "fine P scs loops rest EmitActiveFinallyBlocks"
  shows "fine P scs loops ((d, f) # rest) EmitActiveFinallyBlocks"
proof (rule fineI)
  fix st :: "'a bld" assume a: "linked st" "\<not> terminated st" "labels_ok (b_next st) scs loops"
  from fineE [OF f a(1,2) labels_ok_drop [OF a(3)]] obtain st1 where
    1: "gen P (drop (length scs - d) scs) loops rest (GBlock f) st = Some st1" "linked st1"
      "opn st1 \<subseteq> insert (b_cur st1) (opn st - {b_cur st})" "b_next st \<le> b_next st1" .
  show "lands (gen P scs loops ((d, f) # rest) EmitActiveFinallyBlocks st) (\<lambda>st'. opn st' \<subseteq> insert (b_cur st') (opn st - {b_cur st}))"
  proof (cases "terminated st1")
    case True
    with 1 show ?thesis by (simp add: lands_def gen_active)
  next
    case False
    from fineE [OF r 1(2) False labels_ok_mono [OF a(3) 1(4)]] obtain st2 where
      2: "active P scs loops rest st1 = Some st2" "linked st2" "opn st2 \<subseteq> insert (b_cur st2) (opn st1 - {b_cur st1})" .
    with 1 False show ?thesis by (auto simp: lands_def gen_active)
  qed
qed simp

lemma fine_seq:
  assumes c: "fine P scs loops fins (GStmt c)" and cs: "fine P scs loops fins (GSeq cs)"
  shows "fine P scs loops fins (GSeq (c # cs))"
proof (rule fineI)
  fix st :: "'a bld" assume a: "linked st" "\<not> terminated st" "labels_ok (b_next st) scs loops"
  from fineE [OF c a] obtain st1 where
    1: "gen P scs loops fins (GStmt c) st = Some st1" "linked st1" "opn st1 \<subseteq> insert (b_cur st1) (opn st - {b_cur st})" "b_next st \<le> b_next st1" .
  show "lands (gen P scs loops fins (GSeq (c # cs)) st) (\<lambda>st'. opn st' \<subseteq> insert (b_cur st') (opn st - {b_cur st}))"
  proof (cases "terminated st1")
    case True
    with 1 show ?thesis by (simp add: lands_def gen_seq)
  next
    case False
    from fineE [OF cs 1(2) False labels_ok_mono [OF a(3) 1(4)]] obtain st2 where
      2: "gen P scs loops fins (GSeq cs) st1 = Some st2" "linked st2" "opn st2 \<subseteq> insert (b_cur st2) (opn st1 - {b_cur st1})" .
    with 1 False show ?thesis by (auto simp: lands_def gen_seq)
  qed
qed simp

lemma fine_block:
  assumes b: "\<And>sc. fine P (sc # scs) loops fins (GSeq (blk_stmts b))"
  shows "fine P scs loops fins (GBlock b)"
proof (rule fineI)
  fix st :: "'a bld" assume a: "linked st" "\<not> terminated st" "labels_ok (b_next st) scs loops"
  show "lands (gen P scs loops fins (GBlock b) st) (\<lambda>st'. opn st' \<subseteq> insert (b_cur st') (opn st - {b_cur st}))"
  proof (cases "unwinds P b")
    case False
    let ?sc = "body_scope P b 0"
    have "labels_ok (b_next st) (?sc # scs) loops" using a(3) False by (simp add: body_scope_def)
    from fineE [OF b a(1,2) this] obtain st1 where
      1: "gen P (?sc # scs) loops fins (GSeq (blk_stmts b)) st = Some st1" "linked st1" "opn st1 \<subseteq> insert (b_cur st1) (opn st - {b_cur st})" .
    show ?thesis
    proof (cases "terminated st1")
      case True
      with 1 show ?thesis by (simp add: lands_def gen_block_plain [OF False, where n = 0])
    next
      case t: False
      from destroys_lands [OF 1(2) t, of "rev (sc_owned ?sc)"] obtain st2 where
        "EmitOwnedObjectDestructors ?sc st1 = Some st2" "linked st2" "opn st2 = opn st1" "b_cur st2 = b_cur st1"
        by (auto simp: lands_def EmitOwnedObjectDestructors_def)
      with 1 t show ?thesis by (simp add: lands_def gen_block_plain [OF False, where n = 0])
    qed
  next
    case True
    define n where "n = b_next st"
    define sc where "sc = body_scope P b n"
    have w: "wfb st" using a(1) by (rule linked_wfb)
    have l: "labels_ok (b_next (new_blocks 3 st)) (sc # scs) loops"
      using labels_ok_mono [OF a(3), of "n + 3"] True by (simp add: sc_def body_scope_def n_def)
    from fineE [OF b linked_new [OF a(1)] _ l] a(2) obtain st1 where
      1: "gen P (sc # scs) loops fins (GSeq (blk_stmts b)) (new_blocks 3 st) = Some st1" "linked st1"
        "opn st1 \<subseteq> insert (b_cur st1) (opn (new_blocks 3 st) - {b_cur st})" "frame (new_blocks 3 st) st1" "n + 3 \<le> b_next st1"
      by (auto simp: n_def)
    have i1: "idle j st1" if "j \<in> {n, n + 1, n + 2}" for j
      by (rule idle_frame [OF 1(4) idle_new [OF w]]) (use that in \<open>auto simp: n_def\<close>)
    from end_lands [OF 1(2), of "TBr (n + 2)" sc] 1(5) obtain st2 where
      2: "block_end sc (TBr (n + 2)) st1 = Some st2" "linked st2" "opn st2 \<subseteq> opn st1 - {b_cur st1}" "b_next st2 = b_next st1"
      by (auto simp: lands_def)
    have i2: "idle j st2" if "j \<in> {n, n + 1, n + 2}" for j using idle_end [OF 2(1) i1 [OF that]] .
    from pad_lands [OF 2(2) i2, of n "TBr (n + 1)"] 2(4) 1(5) obtain st3 where
      3: "pad_block n (TBr (n + 1)) st2 = Some st3" "linked st3" "opn st3 \<subseteq> opn st2 - {n}" "b_next st3 = b_next st2"
      by (auto simp: lands_def)
    have i3: "idle j st3" if "j \<in> {n + 1, n + 2}" for j using idle_pad [OF 3(1) i2] that by auto
    have "linked (SetInsertPoint (n + 1) st3)" by (rule linked_set [OF 3(2)]) (use 3(4) 2(4) 1(5) in simp)
    from destroys_lands [OF this, of "rev (sc_owned sc)"] idle_start [OF i3, of "n + 1"] obtain st4 where
      4: "EmitOwnedObjectDestructors sc (SetInsertPoint (n + 1) st3) = Some st4" "linked st4" "opn st4 = opn st3" "b_cur st4 = n + 1"
        "b_next st4 = b_next st3" "\<not> terminated st4"
      by (auto simp: lands_def EmitOwnedObjectDestructors_def)
    have t: "\<forall>x\<in>targets (unwind_to (GetUnwindCleanupBB scs)). x < b_next st4"
      using cleanup_label [OF labels_ok_mono [OF a(3), of "b_next st4"]] 4(5) 3(4) 2(4) 1(5)
      by (auto simp: unwind_to_def n_def split: option.splits)
    from terminate_lands [OF 4(2,6) t] obtain st5 where
      5: "terminate (unwind_to (GetUnwindCleanupBB scs)) st4 = Some st5" "linked st5" "opn st5 = opn st4 - {n + 1}" "b_next st5 = b_next st4"
      by (auto simp: lands_def 4(4))
    have "gen P scs loops fins (GBlock b) st = Some (SetInsertPoint (n + 2) st5)"
      by (simp add: gen_block_unwind [OF True] n_def [symmetric] sc_def [symmetric] Let_def 1(1) 2(1) 3(1) 4(1) 5(1) del: add_2_eq_Suc' One_nat_def)
    moreover have "linked (SetInsertPoint (n + 2) st5)" by (rule linked_set [OF 5(2)]) (use 5(4) 4(5) 3(4) 2(4) 1(5) in simp)
    moreover have "{n..<n + 3} = {n, n + 1, n + 2}" by auto
    then have "opn st1 \<subseteq> insert (b_cur st1) (opn st \<union> {n, n + 1, n + 2} - {b_cur st})"
      using 1(3) opn_new [OF w, of 3] by (simp add: n_def [symmetric])
    then have "opn (SetInsertPoint (n + 2) st5) \<subseteq> insert (n + 2) (opn st - {b_cur st})"
      using 2(3) 3(3) 4(3) 5(3) by auto
    ultimately show ?thesis by (simp add: lands_def)
  qed
qed simp

lemma cond_gen: "wt (o_target P) e \<Longrightarrow> etype e = TBool \<Longrightarrow> \<exists>g. gen_cond P e = Some g"
  using Generate_total by (auto simp: gen_cond_def)

lemma term_new_lands:
  assumes "linked st" "\<not> terminated st" "\<forall>x\<in>targets t. x < b_next st + k"
  shows "lands (terminate t (new_blocks k st)) (\<lambda>st'. opn st' = opn st \<union> {b_next st..<b_next st + k} - {b_cur st} \<and> b_next st' = b_next st + k \<and>
     (\<forall>j. b_next st \<le> j \<longrightarrow> j < b_next st + k \<longrightarrow> idle j st'))"
proof -
  have w: "wfb st" using assms(1) by (rule linked_wfb)
  from terminate_lands [OF linked_new [OF assms(1)], of k t] assms(2,3) obtain st' where
    1: "terminate t (new_blocks k st) = Some st'" "linked st'" "opn st' = opn (new_blocks k st) - {b_cur st}" "b_next st' = b_next st + k"
    by (auto simp: lands_def)
  have "idle j st'" if "b_next st \<le> j" "j < b_next st + k" for j by (rule idle_prims(2) [OF 1(1) idle_new [OF w that]])
  with 1 show ?thesis by (simp add: lands_def opn_new [OF w])
qed

text \<open>A terminator, or a piece of code, in an idle block.\<close>

lemma term_at_lands:
  assumes "linked st" "idle b st" "\<forall>x\<in>targets t. x < b_next st"
  shows "lands (terminate t (SetInsertPoint b st)) (\<lambda>st'. opn st' = opn st - {b} \<and> b_next st' = b_next st \<and>
    (\<forall>j. j \<noteq> b \<longrightarrow> idle j st \<longrightarrow> idle j st'))"
proof -
  have "linked (SetInsertPoint b st)" by (rule linked_set [OF assms(1)]) (use assms(2) in \<open>simp add: idle_def\<close>)
  from terminate_lands [OF this, of t] idle_start [OF assms(2)] assms(3) obtain st' where
    1: "terminate t (SetInsertPoint b st) = Some st'" "linked st'" "opn st' = opn st - {b}" "b_next st' = b_next st"
    by (auto simp: lands_def)
  have "idle j st'" if "j \<noteq> b" "idle j st" for j by (rule idle_prims(2) [OF 1(1) idle_set [OF that(2,1)]])
  with 1 show ?thesis by (simp add: lands_def)
qed

lemma fine_at:
  assumes "fine P scs loops fins c" "linked st" "idle b st" "labels_ok (b_next st) scs loops"
  shows "lands (gen P scs loops fins c (SetInsertPoint b st)) (\<lambda>st'. opn st' \<subseteq> insert (b_cur st') (opn st - {b}) \<and>
    b_next st \<le> b_next st' \<and> (\<forall>j. j \<noteq> b \<longrightarrow> idle j st \<longrightarrow> idle j st'))"
proof -
  have "linked (SetInsertPoint b st)" by (rule linked_set [OF assms(2)]) (use assms(3) in \<open>simp add: idle_def\<close>)
  from fineE [OF assms(1) this] idle_start [OF assms(3)] assms(4) obtain st' where
    1: "gen P scs loops fins c (SetInsertPoint b st) = Some st'" "linked st'" "opn st' \<subseteq> insert (b_cur st') (opn st - {b})"
      "frame (SetInsertPoint b st) st'" "b_next st \<le> b_next st'" by auto
  have "idle j st'" if "j \<noteq> b" "idle j st" for j by (rule idle_frame [OF 1(4) idle_set [OF that(2,1)]])
  with 1 show ?thesis by (simp add: lands_def)
qed

lemma open_lands:
  assumes "linked st" "\<forall>x\<in>targets t. x < b_next st"
  shows "lands (terminate_open t st) (\<lambda>st'. opn st' \<subseteq> opn st - {b_cur st} \<and> b_next st' = b_next st \<and> (\<forall>j. idle j st \<longrightarrow> idle j st'))"
  using terminate_open_lands [OF assms] idle_prims(3) by (fastforce simp: lands_def)

lemma fine_while:
  assumes e: "wt (o_target P) e" "etype e = TBool" and b: "\<And>l. fine P scs (l # loops) fins (GBlock b)"
  shows "fine P scs loops fins (GStmt (OStmtWhile e b))"
proof (rule fineI)
  fix st :: "'a bld" assume a: "linked st" "\<not> terminated st" "labels_ok (b_next st) scs loops"
  define n where "n = b_next st"
  from cond_gen [OF e] obtain g where g: "gen_cond P e = Some g" ..
  from term_new_lands [OF a(1,2), of "TBr n" 3] obtain st1 where
    1: "terminate (TBr n) (new_blocks 3 st) = Some st1" "linked st1" "opn st1 = opn st \<union> {n..<n + 3} - {b_cur st}" "b_next st1 = n + 3"
      "\<forall>j. n \<le> j \<longrightarrow> j < n + 3 \<longrightarrow> idle j st1" by (auto simp: lands_def n_def)
  from term_at_lands [OF 1(2), of n "TCondBr g (n + 1) (n + 2)"] 1(4,5) obtain st2 where
    2: "terminate (TCondBr g (n + 1) (n + 2)) (SetInsertPoint n st1) = Some st2" "linked st2" "opn st2 = opn st1 - {n}" "b_next st2 = n + 3"
      "\<And>j. j \<noteq> n \<Longrightarrow> idle j st1 \<Longrightarrow> idle j st2" by (auto simp: lands_def)
  have i2: "idle j st2" if "j \<in> {n + 1, n + 2}" for j using 2(5) 1(5) that by auto
  have l: "labels_ok (b_next st2) scs (while_ctx n scs # loops)"
    using labels_ok_mono [OF a(3), of "n + 3"] 2(4) by (simp add: while_ctx_def n_def)
  from fine_at [OF b 2(2) i2 l, of "n + 1"] obtain st3 where
    3: "gen P scs (while_ctx n scs # loops) fins (GBlock b) (SetInsertPoint (n + 1) st2) = Some st3" "linked st3"
      "opn st3 \<subseteq> insert (b_cur st3) (opn st2 - {n + 1})" "b_next st2 \<le> b_next st3" "\<And>j. j \<noteq> n + 1 \<Longrightarrow> idle j st2 \<Longrightarrow> idle j st3" by (auto simp: lands_def)
  from open_lands [OF 3(2), of "TBr n"] 3(4) 2(4) obtain st4 where
    4: "terminate_open (TBr n) st3 = Some st4" "linked st4" "opn st4 \<subseteq> opn st3 - {b_cur st3}" "b_next st4 = b_next st3" by (auto simp: lands_def)
  have "gen P scs loops fins (GStmt (OStmtWhile e b)) st = Some (SetInsertPoint (n + 2) st4)"
    using g 1(1) 2(1) 3(1) 4(1) by (simp add: gen_while n_def [symmetric] Let_def del: add_2_eq_Suc' One_nat_def)
  moreover have "linked (SetInsertPoint (n + 2) st4)" by (rule linked_set [OF 4(2)]) (use 4(4) 3(4) 2(4) in simp)
  moreover have "{n..<n + 3} = {n, n + 1, n + 2}" by auto
  then have "opn st2 \<subseteq> (opn st - {b_cur st}) \<union> {n + 1, n + 2}" using 1(3) 2(3) by auto
  then have "opn (SetInsertPoint (n + 2) st4) \<subseteq> insert (n + 2) (opn st - {b_cur st})" using 3(3) 4(3) by auto
  ultimately show "lands (gen P scs loops fins (GStmt (OStmtWhile e b)) st) (\<lambda>st'. opn st' \<subseteq> insert (b_cur st') (opn st - {b_cur st}))"
    by (simp add: lands_def)
qed simp

lemma fine_for:
  assumes i: "fine P scs loops fins (GBlock i)" and e: "wt (o_target P) e" "etype e = TBool"
    and b: "\<And>sc l. fine P (sc # scs) (l # loops) fins (GBlock b)" and s: "\<And>sc l. fine P (sc # scs) (l # loops) fins (GBlock stp)"
  shows "fine P scs loops fins (GStmt (OStmtFor i e b stp))"
proof (rule fineI)
  fix st :: "'a bld" assume a: "linked st" "\<not> terminated st" "labels_ok (b_next st) scs loops"
  from fineE [OF i a] obtain st0 where
    0: "gen P scs loops fins (GBlock i) st = Some st0" "linked st0" "opn st0 \<subseteq> insert (b_cur st0) (opn st - {b_cur st})" "b_next st \<le> b_next st0" .
  show "lands (gen P scs loops fins (GStmt (OStmtFor i e b stp)) st) (\<lambda>st'. opn st' \<subseteq> insert (b_cur st') (opn st - {b_cur st}))"
  proof (cases "terminated st0")
    case True
    with 0 show ?thesis by (simp add: lands_def gen_for_rest)
  next
    case False
    define n where "n = b_next st0"
    from cond_gen [OF e] obtain g where g: "gen_cond P e = Some g" ..
    from term_new_lands [OF 0(2) False, of "TBr n" 4] obtain st1 where
      1: "terminate (TBr n) (new_blocks 4 st0) = Some st1" "linked st1" "opn st1 = opn st0 \<union> {n..<n + 4} - {b_cur st0}" "b_next st1 = n + 4"
        "\<forall>j. n \<le> j \<longrightarrow> j < n + 4 \<longrightarrow> idle j st1" by (auto simp: lands_def n_def)
    from term_at_lands [OF 1(2), of n "TCondBr g (n + 1) (n + 3)"] 1(4,5) obtain st2 where
      2: "terminate (TCondBr g (n + 1) (n + 3)) (SetInsertPoint n st1) = Some st2" "linked st2" "opn st2 = opn st1 - {n}" "b_next st2 = n + 4"
        "\<And>j. j \<noteq> n \<Longrightarrow> idle j st1 \<Longrightarrow> idle j st2" by (auto simp: lands_def)
    have i2: "idle j st2" if "j \<in> {n + 1, n + 2, n + 3}" for j using 2(5) 1(5) that by auto
    have l: "labels_ok (n + 4) (init_scope i # scs) (for_ctx n scs # loops)"
      using labels_ok_mono [OF a(3), of "n + 4"] 0(4) by (simp add: for_ctx_def init_scope_def n_def)
    from fine_at [OF b 2(2) i2, of "n + 1" "init_scope i" "for_ctx n scs"] l obtain st3 where
      3: "gen P (init_scope i # scs) (for_ctx n scs # loops) fins (GBlock b) (SetInsertPoint (n + 1) st2) = Some st3" "linked st3"
        "opn st3 \<subseteq> insert (b_cur st3) (opn st2 - {n + 1})" "b_next st2 \<le> b_next st3" "\<And>j. j \<noteq> n + 1 \<Longrightarrow> idle j st2 \<Longrightarrow> idle j st3"
      by (auto simp: lands_def 2(4))
    from open_lands [OF 3(2), of "TBr (n + 2)"] 3(4) 2(4) obtain st4 where
      4: "terminate_open (TBr (n + 2)) st3 = Some st4" "linked st4" "opn st4 \<subseteq> opn st3 - {b_cur st3}" "b_next st4 = b_next st3"
        "\<And>j. idle j st3 \<Longrightarrow> idle j st4" by (auto simp: lands_def)
    have i4: "idle (n + 2) st4" using 4(5) 3(5) i2 by simp
    have n4: "n + 4 \<le> b_next st4" using 4(4) 3(4) 2(4) by simp
    from fine_at [OF s 4(2) i4 labels_ok_mono [OF l n4]] obtain st5 where
      5: "gen P (init_scope i # scs) (for_ctx n scs # loops) fins (GBlock stp) (SetInsertPoint (n + 2) st4) = Some st5" "linked st5"
        "opn st5 \<subseteq> insert (b_cur st5) (opn st4 - {n + 2})" "b_next st4 \<le> b_next st5" by (auto simp: lands_def)
    from open_lands [OF 5(2), of "TBr n"] 5(4) n4 obtain st6 where
      6: "terminate_open (TBr n) st5 = Some st6" "linked st6" "opn st6 \<subseteq> opn st5 - {b_cur st5}" "b_next st6 = b_next st5" by (auto simp: lands_def)
    have "for_rest P scs loops fins i e b stp st0 = Some (SetInsertPoint (n + 3) st6)"
      using g 1(1) 2(1) 3(1) 4(1) 5(1) 6(1)
      by (simp add: for_rest_def n_def [symmetric] Let_def del: add_2_eq_Suc' One_nat_def)
    with 0(1) False have "gen P scs loops fins (GStmt (OStmtFor i e b stp)) st = Some (SetInsertPoint (n + 3) st6)"
      by (simp add: gen_for_rest)
    moreover have "linked (SetInsertPoint (n + 3) st6)" by (rule linked_set [OF 6(2)]) (use 6(4) 5(4) n4 in simp)
    moreover have "{n..<n + 4} = {n, n + 1, n + 2, n + 3}" by auto
    then have "opn st2 \<subseteq> (opn st0 - {b_cur st0}) \<union> {n + 1, n + 2, n + 3}" using 1(3) 2(3) by auto
    then have "opn st4 \<subseteq> (opn st0 - {b_cur st0}) \<union> {n + 2, n + 3}" using 3(3) 4(3) by auto
    then have "opn st6 \<subseteq> (opn st0 - {b_cur st0}) \<union> {n + 3}" using 5(3) 6(3) by auto
    then have "opn (SetInsertPoint (n + 3) st6) \<subseteq> insert (n + 3) (opn st - {b_cur st})" using 0(3) by auto
    ultimately show ?thesis by (simp add: lands_def)
  qed
qed simp

lemma fine_try:
  assumes b: "\<And>sc. fine P (sc # scs) loops ((Suc (length scs), f) # fins) (GBlock b)" and f: "fine P (sc # scs) loops fins (GBlock f)"
  shows "fine P (sc # scs) loops fins (GStmt (OStmtTry b f))"
proof (rule fineI)
  fix st :: "'a bld" assume a: "linked st" "\<not> terminated st" "labels_ok (b_next st) (sc # scs) loops"
  define n where "n = b_next st"
  have w: "wfb st" using a(1) by (rule linked_wfb)
  have l: "labels_ok (n + 5) (sc # scs) loops" using labels_ok_mono [OF a(3), of "n + 5"] by (simp add: n_def)
  then have l': "labels_ok (b_next (new_blocks 5 st)) (try_scope n sc # scs) loops"
    using labels_ok_mono [OF a(3), of "n + 5"] by (auto simp: try_scope_def n_def)
  from fineE [OF b linked_new [OF a(1)] _ l'] a(2) obtain st1 where
    1: "gen P (try_scope n sc # scs) loops ((Suc (length scs), f) # fins) (GBlock b) (new_blocks 5 st) = Some st1" "linked st1"
      "opn st1 \<subseteq> insert (b_cur st1) (opn (new_blocks 5 st) - {b_cur st})" "frame (new_blocks 5 st) st1" "n + 5 \<le> b_next st1"
    by (auto simp: n_def)
  have i1: "idle j st1" if "j \<in> {n..<n + 5}" for j
    by (rule idle_frame [OF 1(4) idle_new [OF w]]) (use that in \<open>auto simp: n_def\<close>)
  from open_lands [OF 1(2), of "TBr (n + 2)"] 1(5) obtain st2 where
    2: "terminate_open (TBr (n + 2)) st1 = Some st2" "linked st2" "opn st2 \<subseteq> opn st1 - {b_cur st1}" "b_next st2 = b_next st1"
      "\<And>j. idle j st1 \<Longrightarrow> idle j st2" by (auto simp: lands_def)
  have i2: "idle j st2" if "j \<in> {n..<n + 5}" for j using 2(5) i1 [OF that] by simp
  from pad_lands [OF 2(2) i2, of n "TBr (n + 1)"] 2(4) 1(5) obtain st3 where
    3: "pad_block n (TBr (n + 1)) st2 = Some st3" "linked st3" "opn st3 \<subseteq> opn st2 - {n}" "b_next st3 = b_next st2"
    by (auto simp: lands_def)
  have i3: "idle j st3" if "j \<in> {n + 1..<n + 5}" for j by (rule idle_pad [OF 3(1) i2]) (use that in auto)
  have n3: "n + 5 \<le> b_next st3" using 3(4) 2(4) 1(5) by simp
  from fine_at [OF f 3(2) i3 labels_ok_mono [OF l n3], of "n + 1"] obtain st4 where
    4: "gen P (sc # scs) loops fins (GBlock f) (SetInsertPoint (n + 1) st3) = Some st4" "linked st4"
      "opn st4 \<subseteq> insert (b_cur st4) (opn st3 - {n + 1})" "b_next st3 \<le> b_next st4" "\<And>j. j \<noteq> n + 1 \<Longrightarrow> idle j st3 \<Longrightarrow> idle j st4"
    by (auto simp: lands_def)
  have n4: "n + 5 \<le> b_next st4" using n3 4(4) by simp
  have "\<forall>x\<in>targets (unwind_to (sc_cleanup sc)). x < b_next st4"
    using l n4 by (auto simp: unwind_to_def split: option.splits)
  from open_lands [OF 4(2) this] obtain st5 where
    5: "terminate_open (unwind_to (sc_cleanup sc)) st4 = Some st5" "linked st5" "opn st5 \<subseteq> opn st4 - {b_cur st4}" "b_next st5 = b_next st4"
      "\<And>j. idle j st4 \<Longrightarrow> idle j st5" by (auto simp: lands_def)
  have i5: "idle j st5" if "j \<in> {n + 2..<n + 5}" for j using 5(5) 4(5) i3 that by simp
  from term_at_lands [OF 5(2) i5, of "n + 2" "TBr (n + 3)"] 5(4) n4 obtain st6 where
    6: "terminate (TBr (n + 3)) (SetInsertPoint (n + 2) st5) = Some st6" "linked st6" "opn st6 = opn st5 - {n + 2}" "b_next st6 = b_next st5"
      "\<And>j. j \<noteq> n + 2 \<Longrightarrow> idle j st5 \<Longrightarrow> idle j st6" by (auto simp: lands_def)
  have i6: "idle (n + 3) st6" using 6(5) i5 by simp
  have n6: "n + 5 \<le> b_next st6" using n4 5(4) 6(4) by simp
  from fine_at [OF f 6(2) i6 labels_ok_mono [OF l n6]] obtain st7 where
    7: "gen P (sc # scs) loops fins (GBlock f) (SetInsertPoint (n + 3) st6) = Some st7" "linked st7"
      "opn st7 \<subseteq> insert (b_cur st7) (opn st6 - {n + 3})" "b_next st6 \<le> b_next st7" by (auto simp: lands_def)
  from open_lands [OF 7(2), of "TBr (n + 4)"] 7(4) n6 obtain st8 where
    8: "terminate_open (TBr (n + 4)) st7 = Some st8" "linked st8" "opn st8 \<subseteq> opn st7 - {b_cur st7}" "b_next st8 = b_next st7"
    by (auto simp: lands_def)
  have "gen P (sc # scs) loops fins (GStmt (OStmtTry b f)) st = Some (SetInsertPoint (n + 4) st8)"
    using 1(1) 2(1) 3(1) 4(1) 5(1) 6(1) 7(1) 8(1)
    by (simp add: gen_try n_def [symmetric] Let_def del: add_2_eq_Suc' One_nat_def)
  moreover have "linked (SetInsertPoint (n + 4) st8)" by (rule linked_set [OF 8(2)]) (use 8(4) 7(4) n6 in simp)
  moreover have "{n..<n + 5} = {n, n + 1, n + 2, n + 3, n + 4}" by auto
  then have "opn st1 \<subseteq> insert (b_cur st1) ((opn st - {b_cur st}) \<union> {n, n + 1, n + 2, n + 3, n + 4})"
    using 1(3) opn_new [OF w, of 5] by (auto simp: n_def [symmetric])
  then have "opn st3 \<subseteq> (opn st - {b_cur st}) \<union> {n + 1, n + 2, n + 3, n + 4}" using 2(3) 3(3) by auto
  then have "opn st5 \<subseteq> (opn st - {b_cur st}) \<union> {n + 2, n + 3, n + 4}" using 4(3) 5(3) by auto
  then have "opn st6 \<subseteq> (opn st - {b_cur st}) \<union> {n + 3, n + 4}" using 6(3) by auto
  then have "opn (SetInsertPoint (n + 4) st8) \<subseteq> insert (n + 4) (opn st - {b_cur st})" using 7(3) 8(3) by auto
  ultimately show "lands (gen P (sc # scs) loops fins (GStmt (OStmtTry b f)) st) (\<lambda>st'. opn st' \<subseteq> insert (b_cur st') (opn st - {b_cur st}))"
    by (simp add: lands_def)
qed simp

lemma fine_branches:
  assumes b: "\<And>b. b \<in> snd ` set brs \<Longrightarrow> fine P scs loops fins (GBlock b)" and t: "wt_branches (o_target P) r l brs"
    and st: "linked st" "\<not> terminated st" "labels_ok (b_next st) scs loops" "merges m st" "brs \<noteq> [] \<longrightarrow> b_cur st \<noteq> m"
    and m: "brs = [] \<longrightarrow> b_cur st = m"
  shows "lands (gen P scs loops fins (GBranches m brs) st) (\<lambda>st'. opn st' \<subseteq> insert m (opn st - {b_cur st}))"
  using assms
proof (induction brs arbitrary: st)
  case Nil
  then show ?case by (auto simp: lands_def gen_branches merges_def linked_set)
next
  case (Cons eb brs)
  obtain e b where eb: "eb = (e, b)" by (cases eb)
  have fb: "fine P scs loops fins (GBlock b)" by (rule Cons.prems(1)) (simp add: eb)
  have i: "idle m st" using Cons.prems by (simp add: idle_def merges_def)
  note a = Cons.prems(3-5)
  show ?case
  proof (cases e)
    case None
    with Cons.prems(2) have [simp]: "brs = []" by (simp add: eb)
    from fineE [OF fb a] obtain st1 where
      1: "gen P scs loops fins (GBlock b) st = Some st1" "linked st1" "opn st1 \<subseteq> insert (b_cur st1) (opn st - {b_cur st})" "b_next st \<le> b_next st1" .
    have mn: "m < b_next st1" using i 1(4) by (simp add: idle_def)
    from open_lands [OF 1(2), of "TBr m"] mn obtain st2 where
      2: "terminate_open (TBr m) st1 = Some st2" "linked st2" "opn st2 \<subseteq> opn st1 - {b_cur st1}" "b_next st2 = b_next st1" by (auto simp: lands_def)
    have "linked (SetInsertPoint m st2)" by (rule linked_set [OF 2(2)]) (simp add: 2(4) mn)
    with 1 2 None show ?thesis by (auto simp: lands_def eb gen_branches)
  next
    case (Some e')
    with Cons.prems(2) have w: "wt (o_target P) e'" "etype e' = TBool" by (simp_all add: eb)
    from cond_gen [OF this] obtain g where g: "gen_cond P e' = Some g" ..
    define n where "n = b_next st"
    define j where "j = (if brs = [] then 1 else 2::nat)"
    define nx where "nx = (if brs = [] then m else Suc n)"
    have mn: "m < n" using i by (simp add: idle_def n_def)
    have tg: "\<forall>x\<in>targets (TCondBr g n nx). x < b_next st + j" using mn by (auto simp: nx_def j_def n_def)
    from term_new_lands [OF a(1,2) tg] obtain st1 where
      1: "terminate (TCondBr g n nx) (new_blocks j st) = Some st1" "linked st1" "opn st1 = opn st \<union> {n..<n + j} - {b_cur st}"
        "b_next st1 = n + j" "\<And>k. n \<le> k \<Longrightarrow> k < n + j \<Longrightarrow> idle k st1" by (auto simp: lands_def n_def)
    have i1: "idle n st1" using 1(5) [of n] by (simp add: j_def)
    have im: "idle m st1" by (rule idle_prims(2) [OF 1(1) idle_new_old [OF i]])
    have l1: "labels_ok (b_next st1) scs loops" by (rule labels_ok_mono [OF a(3)]) (simp add: 1(4) n_def)
    from fine_at [OF fb 1(2) i1 l1] obtain st2 where
      2: "gen P scs loops fins (GBlock b) (SetInsertPoint n st1) = Some st2" "linked st2" "opn st2 \<subseteq> insert (b_cur st2) (opn st1 - {n})"
        "b_next st1 \<le> b_next st2" "\<And>k. k \<noteq> n \<Longrightarrow> idle k st1 \<Longrightarrow> idle k st2" by (auto simp: lands_def)
    have mn2: "m < b_next st2" using mn 1(4) 2(4) by simp
    from open_lands [OF 2(2), of "TBr m"] mn2 obtain st3 where
      3: "terminate_open (TBr m) st2 = Some st3" "linked st3" "opn st3 \<subseteq> opn st2 - {b_cur st2}" "b_next st3 = b_next st2"
        "\<And>k. idle k st2 \<Longrightarrow> idle k st3" by (auto simp: lands_def)
    have im3: "idle m st3" by (rule 3(5) [OF 2(5) [OF _ im]]) (use mn in simp)
    have inx: "idle nx st3"
    proof (cases "brs = []")
      case True
      with im3 show ?thesis by (simp add: nx_def)
    next
      case False
      then have "idle (Suc n) st1" by (intro 1(5)) (simp_all add: j_def)
      from 3(5) [OF 2(5) [OF _ this]] False show ?thesis by (simp add: nx_def)
    qed
    have l3: "linked (SetInsertPoint nx st3)" by (rule linked_set [OF 3(2)]) (use inx in \<open>simp add: idle_def\<close>)
    have "lands (gen P scs loops fins (GBranches m brs) (SetInsertPoint nx st3))
        (\<lambda>st'. opn st' \<subseteq> insert m (opn (SetInsertPoint nx st3) - {b_cur (SetInsertPoint nx st3)}))"
    proof (rule Cons.IH [OF _ _ l3])
      show "labels_ok (b_next (SetInsertPoint nx st3)) scs loops"
        by (rule labels_ok_mono [OF l1]) (simp add: 3(4) 2(4))
      show "fine P scs loops fins (GBlock b)" if "b \<in> snd ` set brs" for b by (rule Cons.prems(1)) (use that in auto)
      show "wt_branches (o_target P) r l brs" using Cons.prems(2) by (simp add: eb)
      show "\<not> terminated (SetInsertPoint nx st3)" using idle_start [OF inx] by simp
      show "brs \<noteq> [] \<longrightarrow> b_cur (SetInsertPoint nx st3) \<noteq> m" "brs = [] \<longrightarrow> b_cur (SetInsertPoint nx st3) = m"
        using mn by (simp_all add: nx_def)
    qed (use idle_merges [OF im3] in simp)
    then obtain st4 where 4: "gen P scs loops fins (GBranches m brs) (SetInsertPoint nx st3) = Some st4" "linked st4"
      "opn st4 \<subseteq> insert m (opn st3 - {nx})" by (auto simp: lands_def)
    have "gen P scs loops fins (GBranches m (eb # brs)) st = Some st4"
      unfolding eb Some gen_branches using g 1(1) 2(1) 3(1) 4(1)
      by (cases "brs = []") (simp_all add: n_def [symmetric] j_def nx_def)
    moreover have "{n..<n + j} \<subseteq> insert n {nx}" by (auto simp: j_def nx_def)
    with 1(3) have "opn st1 \<subseteq> (opn st - {b_cur st}) \<union> {n, nx}" by auto
    then have "opn st3 \<subseteq> (opn st - {b_cur st}) \<union> {nx}" using 2(3) 3(3) by auto
    then have "opn st4 \<subseteq> insert m (opn st - {b_cur st})" using 4(3) by auto
    ultimately show ?thesis using 4(2) by (simp add: lands_def)
  qed
qed

lemma lands_bind: "lands r Q \<Longrightarrow> (\<And>st'. linked st' \<Longrightarrow> Q st' \<Longrightarrow> lands (F st') Q') \<Longrightarrow> lands (Option.bind r F) Q'"
  by (auto simp: lands_def)

lemma lands_mono: "lands r Q \<Longrightarrow> (\<And>st'. Q st' \<Longrightarrow> Q' st') \<Longrightarrow> lands r Q'"
  by (auto simp: lands_def)

lemma store_lands:
  assumes "wt (o_target P) e" "linked st" "\<not> terminated st"
  shows "lands (gen_store P x e st) (\<lambda>st'. opn st' = opn st \<and> b_cur st' = b_cur st \<and> b_next st' = b_next st \<and> \<not> terminated st')"
proof -
  from Generate_total [OF assms(1)] obtain g where "Generate (o_target P) (o_fpu P) e = Some g" by blast
  with emit_lands [OF assms(2,3)] show ?thesis by (simp add: gen_store_def)
qed

lemma call_lands:
  assumes "linked st" "\<not> terminated st" "labels_ok (b_next st) scs loops"
  shows "lands (GenerateCallOrInvoke scs f st) (\<lambda>st'. opn st' \<subseteq> insert (b_cur st') (opn st - {b_cur st}))"
proof (cases "GetExceptionCleanupBB scs")
  case None
  with emit_lands [OF assms(1,2), of "ICall f"] show ?thesis by (auto simp: GenerateCallOrInvoke_def lands_def)
next
  case (Some l)
  have "l < b_next st" by (rule lpad_label [OF assms(3) Some])
  then have "\<forall>x\<in>targets (TInvoke f (b_next st) l). x < b_next st + 1" by simp
  from term_new_lands [OF assms(1,2) this] obtain st1 where
    1: "terminate (TInvoke f (b_next st) l) (new_blocks 1 st) = Some st1" "linked st1"
      "opn st1 = opn st \<union> {b_next st..<b_next st + 1} - {b_cur st}" "b_next st1 = b_next st + 1" by (auto simp: lands_def)
  have "linked (SetInsertPoint (b_next st) st1)" by (rule linked_set [OF 1(2)]) (simp add: 1(4))
  moreover have "opn st1 \<subseteq> insert (b_next st) (opn st - {b_cur st})" unfolding 1(3) by auto
  ultimately show ?thesis using Some 1(1) by (simp add: GenerateCallOrInvoke_def lands_def)
qed

definition fins_wt :: "'f opts \<Rightarrow> loopctx list \<Rightarrow> 'f fins \<Rightarrow> bool" where
  "fins_wt P loops fins \<longleftrightarrow> (\<forall>(d, f)\<in>set fins. 1 \<le> d \<and> (\<exists>l. wt_block (o_target P) (o_result P) l f \<and> (l \<longrightarrow> loops \<noteq> [])))"

definition wt_code :: "'f opts \<Rightarrow> bool \<Rightarrow> 'f gcode \<Rightarrow> bool" where
  "wt_code P l c \<longleftrightarrow>
     (case c of
        GStmt s \<Rightarrow> wt_stmt (o_target P) (o_result P) l s
      | GSeq cs \<Rightarrow> wt_seq (o_target P) (o_result P) l cs
      | GBlock b \<Rightarrow> wt_block (o_target P) (o_result P) l b
      | EmitActiveFinallyBlocks \<Rightarrow> True
      | GBranches m brs \<Rightarrow> False)"

lemma jump_fine:
  assumes ac: "fine P scs loops fins EmitActiveFinallyBlocks" and st: "linked st" "\<not> terminated st" "labels_ok (b_next st) scs loops"
    and t: "\<forall>x\<in>targets t. x < b_next st"
  shows "lands (Option.bind (active P scs loops fins st) (jump k scs t)) (\<lambda>st'. opn st' \<subseteq> opn st - {b_cur st})"
proof -
  from fineE [OF ac st] obtain st1 where
    1: "active P scs loops fins st = Some st1" "linked st1" "opn st1 \<subseteq> insert (b_cur st1) (opn st - {b_cur st})" "b_next st \<le> b_next st1" .
  have "\<forall>x\<in>targets t. x < b_next st1" using t 1(4) by fastforce
  from jump_lands [OF 1(2) this, of k scs] 1 show ?thesis by (auto simp: lands_def)
qed

lemma fine_stmt:
  assumes t: "wt_stmt (o_target P) (o_result P) l c" and s: "scs \<noteq> []" and l: "l \<longrightarrow> loops \<noteq> []" and f: "fins_wt P loops fins"
    and IH: "\<And>scs loops fins' c' l'. gmeasure fins' c' < gmeasure fins (GStmt c) \<Longrightarrow> wt_code P l' c' \<Longrightarrow> scs \<noteq> [] \<Longrightarrow>
      (l' \<longrightarrow> loops \<noteq> []) \<Longrightarrow> fins_wt P loops fins' \<Longrightarrow> fine P scs loops fins' c'"
  shows "fine P scs loops fins (GStmt c)"
proof -
  have ac: "fine P scs loops fins EmitActiveFinallyBlocks"
    by (rule IH [OF gmeasure_stmt(1) _ s l f]) (simp add: wt_code_def)
  have IHb: "fine P scs' loops' fins (GBlock b)"
    if "gmeasure fins (GBlock b) < gmeasure fins (GStmt c)" "wt_block (o_target P) (o_result P) l' b" "scs' \<noteq> []"
      "l' \<longrightarrow> loops' \<noteq> []" "loops' = loops \<or> (\<exists>x. loops' = x # loops)" for b scs' loops' l'
    by (rule IH [OF that(1) _ that(3,4)]) (use that(2,5) f in \<open>auto simp: wt_code_def fins_wt_def\<close>)
  show ?thesis
  proof (cases c)
    case (OStmtWhile e b)
    show ?thesis unfolding OStmtWhile
      by (rule fine_while) (use t OStmtWhile s in \<open>auto intro!: IHb [where l' = True] simp: gmeasure_stmt\<close>)
  next
    case (OStmtFor i e b stp)
    show ?thesis unfolding OStmtFor
    proof (rule fine_for)
      show "fine P scs loops fins (GBlock i)" by (rule IHb [where l' = l]) (use t OStmtFor s l in \<open>auto simp: gmeasure_stmt\<close>)
      show "fine P (sc # scs) (x # loops) fins (GBlock b)" for sc x
        by (rule IHb [where l' = True]) (use t OStmtFor in \<open>auto simp: gmeasure_stmt\<close>)
      show "fine P (sc # scs) (x # loops) fins (GBlock stp)" for sc x
        by (rule IHb [where l' = True]) (use t OStmtFor in \<open>auto simp: gmeasure_stmt\<close>)
    qed (use t OStmtFor in simp_all)
  next
    case (OStmtTry b f')
    obtain sc outer where scs: "scs = sc # outer" using s by (cases scs) auto
    show ?thesis unfolding OStmtTry scs
    proof (rule fine_try)
      show "fine P (sc # outer) loops fins (GBlock f')" for sc
        by (rule IHb [where l' = l]) (use t OStmtTry l in \<open>auto simp: gmeasure_def\<close>)
      have fn: "\<exists>l. wt_block (o_target P) (o_result P) l f' \<and> (l \<longrightarrow> loops \<noteq> [])" using t OStmtTry l by auto
      show "fine P (x # outer) loops ((Suc (length outer), f') # fins) (GBlock b)" for x
        by (rule IH [where l' = l]) (use t OStmtTry l f fn in \<open>auto simp: gmeasure_def wt_code_def fins_wt_def\<close>)
    qed
  next
    case (OStmtIf brs)
    have br: "fine P scs loops fins (GBlock b)" if "b \<in> snd ` set brs" for b
    proof -
      from that obtain v where v: "(v, b) \<in> set brs" by auto
      have "wt_branches t r l brs \<Longrightarrow> wt_block t r l b" for t r using v by (induction brs) auto
      moreover have "gmeasure fins (GBlock b) < gmeasure fins (GStmt c)"
        unfolding OStmtIf by (rule less_trans [OF gmeasure_branch [OF v] gmeasure_stmt(2)])
      ultimately show ?thesis using t OStmtIf s l by (intro IHb [where l' = l]) simp_all
    qed
    show ?thesis unfolding OStmtIf
    proof (rule fineI)
      fix st :: "'a bld" assume a: "linked st" "\<not> terminated st" "labels_ok (b_next st) scs loops"
      have w: "wfb st" using a(1) by (rule linked_wfb)
      have i: "idle (b_next st) (new_blocks 1 st)" by (rule idle_new [OF w]) simp_all
      have "opn (new_blocks 1 st) \<subseteq> insert (b_next st) (opn st)" using opn_new [OF w, of 1] by auto
      moreover have "lands (gen P scs loops fins (GBranches (b_next st) brs) (new_blocks 1 st))
          (\<lambda>st'. opn st' \<subseteq> insert (b_next st) (opn (new_blocks 1 st) - {b_cur (new_blocks 1 st)}))"
        by (rule fine_branches [OF br _ linked_new [OF a(1)] _ labels_ok_mono [OF a(3)] idle_merges [OF i]])
          (use t OStmtIf a(2) i in \<open>auto simp: idle_def\<close>)
      then obtain st' where st': "gen P scs loops fins (GBranches (b_next st) brs) (new_blocks 1 st) = Some st'" "linked st'"
        "opn st' \<subseteq> insert (b_next st) (opn (new_blocks 1 st) - {b_cur st})" by (auto simp: lands_def)
      moreover have "b_cur st' = b_next st"
        using branches_facts [OF st'(1) wfb_new [OF w] idle_merges [OF i]] i t OStmtIf wt_else_last by (auto simp: idle_def)
      ultimately show "lands (gen P scs loops fins (GStmt (OStmtIf brs)) st) (\<lambda>st'. opn st' \<subseteq> insert (b_cur st') (opn st - {b_cur st}))"
        by (auto simp: lands_def gen_if)
    qed simp
  next
    case (OStmtReturn e)
    show ?thesis unfolding OStmtReturn
    proof (rule fineI)
      fix st :: "'a bld" assume a: "linked st" "\<not> terminated st" "labels_ok (b_next st) scs loops"
      have v: "lands (case e of None \<Rightarrow> Some st | Some e \<Rightarrow> if o_result P then gen_store P ''result'' e st else None)
          (\<lambda>st'. opn st' = opn st \<and> b_cur st' = b_cur st \<and> b_next st' = b_next st \<and> \<not> terminated st')"
        using t OStmtReturn store_lands [OF _ a(1,2)] a by (cases e) (auto simp: lands_def)
      show "lands (gen P scs loops fins (GStmt (OStmtReturn e)) st) (\<lambda>st'. opn st' \<subseteq> insert (b_cur st') (opn st - {b_cur st}))"
        unfolding gen_jumps
      proof (rule lands_bind [OF v])
        fix st1 :: "'a bld" assume 1: "linked st1" "opn st1 = opn st \<and> b_cur st1 = b_cur st \<and> b_next st1 = b_next st \<and> \<not> terminated st1"
        show "lands (Option.bind (active P scs loops fins st1) (jump (length scs) scs TRet)) (\<lambda>st'. opn st' \<subseteq> insert (b_cur st') (opn st - {b_cur st}))"
          by (rule lands_mono [OF jump_fine [OF ac 1(1)]]) (use 1 a(3) in auto)
      qed
    qed simp
  next
    case OBreakStmt
    then obtain x ls where ls: "loops = x # ls" using t l by (cases loops) auto
    show ?thesis unfolding OBreakStmt
    proof (rule fineI)
      fix st :: "'a bld" assume a: "linked st" "\<not> terminated st" "labels_ok (b_next st) scs loops"
      show "lands (gen P scs loops fins (GStmt OBreakStmt) st) (\<lambda>st'. opn st' \<subseteq> insert (b_cur st') (opn st - {b_cur st}))"
        unfolding ls gen_jumps by (rule lands_mono [OF jump_fine [OF ac [unfolded ls] a [unfolded ls]]]) (use a(3) ls in auto)
    qed simp
  next
    case OContinueStmt
    then obtain x ls where ls: "loops = x # ls" using t l by (cases loops) auto
    show ?thesis unfolding OContinueStmt
    proof (rule fineI)
      fix st :: "'a bld" assume a: "linked st" "\<not> terminated st" "labels_ok (b_next st) scs loops"
      show "lands (gen P scs loops fins (GStmt OContinueStmt) st) (\<lambda>st'. opn st' \<subseteq> insert (b_cur st') (opn st - {b_cur st}))"
        unfolding ls gen_jumps by (rule lands_mono [OF jump_fine [OF ac [unfolded ls] a [unfolded ls]]]) (use a(3) ls in auto)
    qed simp
  next
    case (OStmtVarDecl x ty e)
    show ?thesis unfolding OStmtVarDecl
    proof (rule fineI)
      fix st :: "'a bld" assume a: "linked st" "\<not> terminated st"
      show "lands (gen P scs loops fins (GStmt (OStmtVarDecl x ty e)) st) (\<lambda>st'. opn st' \<subseteq> insert (b_cur st') (opn st - {b_cur st}))"
        using t OStmtVarDecl a by (cases e) (auto simp: gen_simple lands_def [of "Some _"] intro: lands_mono [OF store_lands])
    qed simp
  next
    case (OStmtVarManaged x)
    show ?thesis unfolding OStmtVarManaged
    proof (rule fineI)
      fix st :: "'a bld" assume a: "linked st" "\<not> terminated st"
      have "linked (st\<lparr>b_alloc := x # b_alloc st\<rparr>)" "\<not> terminated (st\<lparr>b_alloc := x # b_alloc st\<rparr>)"
        using a by (simp_all add: linked_def wfb_def terminated_def)
      from emit_lands [OF this, of "INull x"]
      show "lands (gen P scs loops fins (GStmt (OStmtVarManaged x)) st) (\<lambda>st'. opn st' \<subseteq> insert (b_cur st') (opn st - {b_cur st}))"
        by (auto simp: gen_simple lands_def)
    qed simp
  next
    case (OStmtAssign x ty e)
    show ?thesis unfolding OStmtAssign
      by (rule fineI) (use t OStmtAssign in \<open>auto simp: gen_simple intro!: lands_mono [OF store_lands]\<close>)
  next
    case (OStmtModifyAssign x ty op e)
    show ?thesis unfolding OStmtModifyAssign
    proof (rule fineI)
      fix st :: "'a bld" assume a: "linked st" "\<not> terminated st"
      obtain g where g: "Generate (o_target P) (o_fpu P) e = Some g" using Generate_total t OStmtModifyAssign by fastforce
      obtain v where "gen_binop op ty (LLoad (GetLlType ty) x) g = Some v" using gen_binop_total t OStmtModifyAssign by fastforce
      with g emit_lands [OF a, of "IStore x v"]
      show "lands (gen P scs loops fins (GStmt (OStmtModifyAssign x ty op e)) st) (\<lambda>st'. opn st' \<subseteq> insert (b_cur st') (opn st - {b_cur st}))"
        by (auto simp: gen_simple GenerateModifyAssignValue_def lands_def)
    qed simp
  next
    case (OStmtVoidCall f)
    show ?thesis unfolding OStmtVoidCall by (rule fineI) (simp_all add: gen_simple call_lands)
  qed
qed

lemma wt_fine:
  "wt_code P l c \<Longrightarrow> scs \<noteq> [] \<Longrightarrow> (l \<longrightarrow> loops \<noteq> []) \<Longrightarrow> fins_wt P loops fins \<Longrightarrow> fine P scs loops fins c"
proof (induction "gmeasure fins c" arbitrary: fins c scs loops l rule: less_induct)
  case less
  note IH = less(1) and prems = less(2-5)
  show ?case
  proof (cases c)
    case (GStmt s)
    show ?thesis unfolding GStmt
    proof (rule fine_stmt [OF _ prems(2,3,4)])
      show "wt_stmt (o_target P) (o_result P) l s" using prems(1) by (simp add: wt_code_def GStmt)
      show "fine P scs loops fins' c'"
        if "gmeasure fins' c' < gmeasure fins (GStmt s)" "wt_code P l' c'" "scs \<noteq> []" "l' \<longrightarrow> loops \<noteq> []" "fins_wt P loops fins'"
        for scs loops fins' c' l'
        using IH [OF _ that(2-5)] that(1) by (simp add: GStmt)
    qed
  next
    case (GSeq cs)
    show ?thesis
    proof (cases cs)
      case Nil
      have "fine P scs loops fins (GSeq [])" by (rule fineI) (auto simp: gen_seq lands_def)
      then show ?thesis by (simp add: GSeq Nil)
    next
      case (Cons s cs')
      show ?thesis unfolding GSeq Cons
        by (rule fine_seq; rule IH [OF _ _ prems(2,3,4)]) (use prems(1) in \<open>simp_all add: GSeq Cons wt_code_def gmeasure_seq\<close>)
    qed
  next
    case (GBlock b)
    show ?thesis unfolding GBlock
      by (rule fine_block, rule IH [OF _ _ _ prems(3,4)]) (use prems(1) in \<open>simp_all add: GBlock wt_code_def wt_blk gmeasure_block\<close>)
  next
    case (GBranches m brs)
    with prems(1) show ?thesis by (simp add: wt_code_def)
  next
    case EmitActiveFinallyBlocks
    show ?thesis
    proof (cases fins)
      case Nil
      have "fine P scs loops [] EmitActiveFinallyBlocks" by (rule fineI) (auto simp: gen_active lands_def)
      then show ?thesis by (simp add: EmitActiveFinallyBlocks Nil)
    next
      case (Cons df rest)
      obtain d f where df: "df = (d, f)" by (cases df)
      from prems(4) obtain lf where f: "1 \<le> d" "wt_block (o_target P) (o_result P) lf f" "lf \<longrightarrow> loops \<noteq> []" "fins_wt P loops rest"
        by (auto simp: Cons df fins_wt_def)
      have dr: "drop (length scs - d) scs \<noteq> []" using f(1) prems(2) by (cases scs) auto
      show ?thesis unfolding EmitActiveFinallyBlocks Cons df
      proof (rule fine_active)
        show "fine P (drop (length scs - d) scs) loops rest (GBlock f)"
          by (rule IH [where l = lf]) (use f dr in \<open>simp_all add: EmitActiveFinallyBlocks Cons df gmeasure_active wt_code_def\<close>)
        show "fine P scs loops rest EmitActiveFinallyBlocks"
          by (rule IH [where l = l]) (use f prems in \<open>simp_all add: EmitActiveFinallyBlocks Cons df gmeasure_active wt_code_def\<close>)
      qed
    qed
  qed
qed

section \<open>The function is well formed\<close>

text \<open>What \<open>verifyFunction\<close> demands of the blocks: each has a terminator, whose targets exist.\<close>

definition verified :: "'f bld \<Rightarrow> bool" where
  "verified G \<longleftrightarrow> (\<forall>b<b_next G. case b_term G b of None \<Rightarrow> False | Some t \<Rightarrow> \<forall>x\<in>targets t. x < b_next G)"

lemma func_verified:
  fixes P :: "'f opts"
  assumes "wt_block (o_target P) (o_result P) False body"
  shows "\<exists>G. GenerateFuncBody P body = Some G \<and> verified G"
proof -
  have e: "linked entry" "opn entry = {0}" "b_cur entry = 0" by (auto simp: linked_def entry_def wfb_def opn_def)
  have "lands (if o_result P then emit (IZero ''result'') entry else Some (entry :: 'f bld))
      (\<lambda>st. opn st = {0} \<and> b_cur st = 0 \<and> \<not> terminated st)"
    using emit_lands [OF e(1) entry_simps(2), of "IZero ''result''"] e by (auto simp: lands_def)
  then obtain st1 :: "'f bld" where 1: "(if o_result P then emit (IZero ''result'') entry else Some entry) = Some st1" "linked st1"
    "opn st1 = {0}" "b_cur st1 = 0" "\<not> terminated st1" by (auto simp: lands_def)
  have "fine P [module_scope] [] [] (GBlock body)"
    by (rule wt_fine [where l = False]) (use assms in \<open>simp_all add: wt_code_def fins_wt_def\<close>)
  from fineE [OF this 1(2,5)] obtain st2 where 2: "gen P [module_scope] [] [] (GBlock body) st1 = Some st2" "linked st2"
    "opn st2 \<subseteq> insert (b_cur st2) (opn st1 - {b_cur st1})"
    by (auto simp: module_scope_def labels_ok_def)
  from terminate_open_lands [OF 2(2), of TRet] obtain G where 3: "terminate_open TRet st2 = Some G" "linked G" "opn G \<subseteq> opn st2 - {b_cur st2}"
    by (auto simp: lands_def)
  have "opn G = {}" using 1(3,4) 2(3) 3(3) by auto
  with 3(2) have "verified G" by (auto simp: verified_def linked_def opn_def split: option.splits)
  moreover have "GenerateFuncBody P body = Some G" using 1(1) 2(1) 3(1) by (simp add: GenerateFuncBody_def)
  ultimately show ?thesis by blast
qed

end
