(* ===== verification/Stmt_Props.thy ===== *)
theory Stmt_Props
  imports Stmt_Total Expr_Props
begin

text \<open>
  The properties of statement code generation: the code does what the language says, is well formed and
  destroys every object once; and programs outside the static condition, for which it does not.
\<close>

section \<open>Objects in a trace\<close>

text \<open>The objects alive after a trace: each is destroyed once, the last one created first.\<close>

fun stack_events :: "event list \<Rightarrow> string list \<Rightarrow> string list option" where
  "stack_events [] st = Some st"
| "stack_events (EvCall f # es) st = stack_events es st"
| "stack_events (EvInit x # es) st = stack_events es (x # st)"
| "stack_events (EvDestroy x # es) st =
     (case st of [] \<Rightarrow> None | y # ys \<Rightarrow> if x = y then stack_events es ys else None)"

lemma stack_events_append: "stack_events (xs @ ys) st = Option.bind (stack_events xs st) (stack_events ys)"
  by (induction xs st rule: stack_events.induct) (auto split: list.split)

lemma stack_events_destroy: "stack_events (map EvDestroy X) (X @ Y) = Some Y"
  by (induction X) simp_all

definition tracks :: "sst \<Rightarrow> bool" where
  "tracks s \<longleftrightarrow> stack_events (s_trace s) [] = Some (s_live s)"

lemma tracks_leave: "tracks s \<Longrightarrow> tracks (leave k s)"
  using stack_events_destroy [of "take (length (s_live s) - k) (s_live s)" "drop (length (s_live s) - k) (s_live s)"]
  by (simp add: tracks_def leave_def Let_def stack_events_append)

lemma tracks_assign: "do_assign x v s = Some (oc, s') \<Longrightarrow> tracks s \<Longrightarrow> tracks s'"
  by (auto simp: tracks_def do_assign_def)

lemma exec_tracks: "exec n R c s = Some (oc, s') \<Longrightarrow> tracks s \<Longrightarrow> tracks s'"
proof (induction n arbitrary: c s oc s')
  case (Suc n)
  note IH = Suc.IH and ex = Suc.prems(1) and tr = Suc.prems(2)
  show ?case
  proof (cases c)
    case (CStmt stm)
    show ?thesis
    proof (cases stm)
      case (OStmtVarManaged x)
      with ex tr CStmt show ?thesis by (auto simp: exec.simps(2) tracks_def stack_events_append)
    next
      case (OStmtVoidCall f)
      with ex tr CStmt show ?thesis by (auto simp: exec.simps(2) tracks_def stack_events_append split: prod.splits)
    next
      case (OStmtFor i e b stp)
      with ex CStmt obtain s2 where s': "s' = leave (length (s_live s)) s2"
        and x: "exec n R (CSeq (blk_stmts i)) s = Some (oc, s2) \<or>
          (\<exists>s3. exec n R (CSeq (blk_stmts i)) s = Some (Normal, s3) \<and> exec n R (CLoop e b (Some stp)) s3 = Some (oc, s2))"
        by (auto simp: exec.simps(2) split: option.splits if_splits)
      have "tracks s2" using x IH [OF _ tr] IH by blast
      then show ?thesis unfolding s' by (rule tracks_leave)
    next
      case (OStmtTry b f)
      with ex CStmt obtain o2 s2 o3 where "exec n R (CBlock b) s = Some (o2, s2)" "exec n R (CBlock f) s2 = Some (o3, s')"
        by (auto simp: exec.simps(2) split: option.splits)
      from IH [OF this(2) IH [OF this(1) tr]] show ?thesis .
    next
      case (OStmtWhile e b)
      with ex CStmt have "exec n R (CLoop e b None) s = Some (oc, s')" by (simp add: exec.simps(2))
      from IH [OF this tr] show ?thesis .
    next
      case (OStmtIf brs)
      with ex CStmt have "exec n R (CBranches brs) s = Some (oc, s')" by (simp add: exec.simps(2))
      from IH [OF this tr] show ?thesis .
    qed (use ex tr CStmt in \<open>auto simp: exec.simps(2) split: option.splits dest: tracks_assign\<close>)
  next
    case (CSeq cs)
    show ?thesis
    proof (cases cs)
      case Nil
      with ex tr CSeq show ?thesis by (simp add: exec.simps(2))
    next
      case (Cons stm cs')
      from ex obtain o2 s2 where 1: "exec n R (CStmt stm) s = Some (o2, s2)"
        "if o2 = Normal then exec n R (CSeq cs') s2 = Some (oc, s') else oc = o2 \<and> s' = s2"
        by (auto simp: CSeq Cons exec.simps(2) split: option.splits if_splits)
      from IH [OF 1(1) tr] have t: "tracks s2" .
      show ?thesis
      proof (cases "o2 = Normal")
        case True
        with 1(2) have "exec n R (CSeq cs') s2 = Some (oc, s')" by simp
        from IH [OF this t] show ?thesis .
      next
        case False
        with 1(2) t show ?thesis by simp
      qed
    qed
  next
    case (CBlock b)
    with ex obtain s2 where 1: "exec n R (CSeq (blk_stmts b)) s = Some (oc, s2)" "s' = leave (length (s_live s)) s2"
      by (auto simp: exec.simps(2))
    show ?thesis unfolding 1(2) by (rule tracks_leave [OF IH [OF 1(1) tr]])
  next
    case (CBranches brs)
    have "tracks s'" if "exec n R (CBlock b) s = Some (oc, s') \<or> exec n R (CBranches brs') s = Some (oc, s')" for b brs'
      using that IH [OF _ tr] by blast
    with CBranches ex tr show ?thesis
      by (auto simp: exec.simps(2) split: list.splits option.splits if_splits prod.splits)
  next
    case (CLoop e b stp)
    have one: "tracks s2" if "exec n R (CBlock b) s = Some (o2, s2)" for o2 s2 by (rule IH [OF that tr])
    have two: "tracks s3" if "exec n R (CBlock b) s = Some (o2, s2)" "exec n R x s2 = Some (o3, s3)" for o2 s2 x o3 s3
      by (rule IH [OF that(2) one [OF that(1)]])
    have three: "tracks s4" if "exec n R (CBlock b) s = Some (o2, s2)" "exec n R x s2 = Some (o3, s3)" "exec n R y s3 = Some (o4, s4)"
      for o2 s2 x o3 s3 y o4 s4
      by (rule IH [OF that(3) two [OF that(1,2)]])
    from CLoop ex tr have "s' = s \<or> (\<exists>o2 s2. exec n R (CBlock b) s = Some (o2, s2) \<and> (s' = s2 \<or>
        (\<exists>x o3 s3. exec n R x s2 = Some (o3, s3) \<and> (s' = s3 \<or> (\<exists>y o4. exec n R y s3 = Some (o4, s'))))))"
      by (auto simp: exec.simps(2) split: option.splits if_splits) metis+
    with tr one two three show ?thesis by metis
  qed
qed simp

section \<open>Sample programs\<close>

definition unit_opts :: "unit opts" where
  "unit_opts = \<lparr>o_exceptions = True, o_target = target64, o_fpu = unit_fpu, o_result = True\<rparr>"

text \<open>The function \<open>bad\<close> raises an exception, no other function does.\<close>

definition ref_rt :: "unit rt" where
  "ref_rt = \<lparr>r_target = target64, r_fpu = unit_fpu, r_sem = ref_llsem, r_call = \<lambda>f env. (f = ''bad'', env)\<rparr>"

definition never_raises :: "string \<Rightarrow> bool" where
  "never_raises f \<longleftrightarrow> f \<noteq> ''bad''"

text \<open>
  An object; a loop that leaves one iteration out, is left by \<open>break\<close> and calls \<open>use\<close> with a \<open>finally\<close>;
  a \<open>return\<close> in a \<open>try\<close> or an exception, as \<open>j\<close> says.
\<close>

definition sample_body :: "int64 \<Rightarrow> unit block" where
  "sample_body j =
     (let i = TInt 32 True; var = OLValueVar ''i'' i None; lit = (\<lambda>v. OIntLit v i) in
      OStmtBlock [''x'']
        [OStmtVarManaged ''x'', OStmtVarDecl ''i'' i (Some (lit 0)),
         OStmtWhile (OBoolLit True)
           (OStmtBlock [''y'']
             [OStmtVarManaged ''y'', OStmtModifyAssign ''i'' i BINOP_ADD (lit 1),
              OStmtIf [(Some (OCompareExpr COMPOP_EQ var (lit 2)), OStmtBlock [] [OContinueStmt]),
                       (Some (OCompareExpr COMPOP_GT var (lit 3)), OStmtBlock [] [OBreakStmt])],
              OStmtTry (OStmtBlock [] [OStmtVoidCall ''use'']) (OStmtBlock [] [OStmtVoidCall ''fin''])]),
         OStmtTry
           (OStmtBlock [] [OStmtIf [(Some (OCompareExpr COMPOP_EQ var (lit j)), OStmtBlock [] [OStmtReturn (Some var)]),
                                    (None, OStmtBlock [] [OStmtVoidCall ''bad''])]])
           (OStmtBlock [] [OStmtVoidCall ''done''])])"

definition config_trace :: "config \<Rightarrow> event list option" where
  "config_trace cfg = (case cfg of At _ _ _ _ \<Rightarrow> None | Done _ tr \<Rightarrow> Some tr | Unwound _ tr \<Rightarrow> Some tr)"

definition code_trace :: "nat \<Rightarrow> 'f rt \<Rightarrow> 'f opts \<Rightarrow> 'f block \<Rightarrow> event list option" where
  "code_trace k R P body = Option.bind (GenerateFuncBody P body) (\<lambda>G. config_trace (run_func k R G (\<lambda>_. 0)))"

definition lang_trace :: "nat \<Rightarrow> 'f rt \<Rightarrow> 'f opts \<Rightarrow> 'f block \<Rightarrow> event list option" where
  "lang_trace n R P body = map_option (\<lambda>(_, s). s_trace s) (call_func n R P body (\<lambda>_. 0))"


text \<open>Programs that \<open>ok_func\<close> rejects.\<close>

abbreviation blk :: "unit stmt list \<Rightarrow> unit block" where
  "blk cs \<equiv> OStmtBlock (managed cs) cs"

definition finally_early :: "unit block" where
  "finally_early = blk [OStmtTry (blk [OStmtWhile (OBoolLit True) (blk [OBreakStmt]), OStmtVoidCall ''use'']) (blk [OStmtVoidCall ''fin''])]"

definition finally_skipped :: "unit block" where
  "finally_skipped = blk [OStmtTry (blk [OStmtTry (blk [OStmtVoidCall ''bad'']) (blk [OStmtVoidCall ''in''])]) (blk [OStmtVoidCall ''out''])]"

definition uncreated_destroyed :: "unit block" where
  "uncreated_destroyed = blk [OStmtVoidCall ''bad'', OStmtVarManaged ''x'']"

definition loop_object_lost :: "unit block" where
  "loop_object_lost =
     (let i = TInt 32 True; var = OLValueVar ''i'' i None; lit = (\<lambda>v. OIntLit v i) in
      blk [OStmtFor (blk [OStmtVarManaged ''x'', OStmtVarDecl ''i'' i (Some (lit 0))]) (OCompareExpr COMPOP_LT var (lit 2))
        (blk [OStmtVoidCall ''use'']) (blk [OStmtModifyAssign ''i'' i BINOP_ADD (lit 1)])])"

definition finally_before_cleanup :: "unit block" where
  "finally_before_cleanup = blk [OStmtTry (blk [OStmtVarManaged ''x'', OStmtReturn None]) (blk [OStmtVoidCall ''fin''])]"

section \<open>Properties\<close>

lemma halts:
  assumes "reach R G (At 0 0 env []) cfg" "cstep R G cfg = None"
  shows "\<exists>k0. \<forall>k. run_func (k0 + k) R G env = cfg"
proof -
  from reach_crun [OF assms(1)] obtain k0 where "crun k0 R G (At 0 0 env []) = cfg" ..
  then have "run_func (k0 + k) R G env = cfg" for k by (simp add: run_func_def crun_add crun_stuck [OF assms(2)])
  then show ?thesis by blast
qed

lemma result_stuck: "cstep R G (result_config oc s) = None"
  by (simp add: result_config_def cstep_def)

text \<open>C1: Compiler correctness of statements: a well-typed function body that \<open>ok_func\<close> accepts has code, and when the language's execution of the body finishes, normally, by a \<open>return\<close> or by an exception, the code run from the entry block halts, from some number of steps on, in the configuration of that result: returned or unwinding, with the same variables and the same trace of calls, initializations and destructions.\<close>

theorem dq_statements_simulate:
  assumes "same_machine R P" and "\<forall>f env. nt f \<longrightarrow> \<not> fst (r_call R f env)"
    and "ok_func nt P body" and "wt_block (o_target P) (o_result P) False body"
    and "call_func n R P body env = Some (oc, s)"
  shows "\<exists>G k0. GenerateFuncBody P body = Some G \<and> (\<forall>k. run_func (k0 + k) R G env = result_config oc s)"
proof -
  from func_verified [OF assms(4)] obtain G where G: "GenerateFuncBody P body = Some G" by blast
  have "reach R G (At 0 0 env []) (result_config oc s)"
    by (rule func_simulated [OF assms(1) _ assms(3) G assms(5), THEN conjunct2]) (use assms(2) in blast)
  from halts [OF this result_stuck] G show ?thesis by blast
qed

definition sample_trace :: "event list" where
  "sample_trace = [EvInit ''x'', EvInit ''y'', EvCall ''use'', EvCall ''fin'', EvDestroy ''y'', EvInit ''y'', EvDestroy ''y'',
     EvInit ''y'', EvCall ''use'', EvCall ''fin'', EvDestroy ''y'', EvInit ''y'', EvDestroy ''y'', EvCall ''bad'', EvCall ''done'',
     EvDestroy ''x'']"

lemma sample_hyps:
  "same_machine ref_rt unit_opts" "\<forall>f env. never_raises f \<longrightarrow> \<not> fst (r_call ref_rt f env)"
  "ok_func never_raises unit_opts (sample_body 5)" "wt_block (o_target unit_opts) (o_result unit_opts) False (sample_body 5)"
proof -
  show "same_machine ref_rt unit_opts" by (simp add: same_machine_def ref_rt_def unit_opts_def)
  show "\<forall>f env. never_raises f \<longrightarrow> \<not> fst (r_call ref_rt f env)" by (simp add: never_raises_def ref_rt_def)
qed code_simp+

lemma sample_runs_to: "map_option (\<lambda>(oc, s). (oc, s_trace s)) (call_func 60 ref_rt unit_opts (sample_body 5) (\<lambda>_. 0)) = Some (Raise, sample_trace)"
  by code_simp

theorem dq_statements_simulate_witness:
  "\<exists>G k0. GenerateFuncBody unit_opts (sample_body 5) = Some G \<and>
     (\<forall>k. config_trace (run_func (k0 + k) ref_rt G (\<lambda>_. 0)) = Some sample_trace)"
proof -
  from sample_runs_to obtain s where s: "call_func 60 ref_rt unit_opts (sample_body 5) (\<lambda>_. 0) = Some (Raise, s)" "s_trace s = sample_trace"
    by auto
  from dq_statements_simulate [OF sample_hyps s(1)] obtain G k0 where
    "GenerateFuncBody unit_opts (sample_body 5) = Some G" "\<forall>k. run_func (k0 + k) ref_rt G (\<lambda>_. 0) = result_config Raise s" by blast
  then show ?thesis by (intro exI [of _ G] exI [of _ k0]) (simp add: result_config_def config_trace_def s(2))
qed

text \<open>C11: A well-typed function body always has code, without the exceptions of the generator, and the code is a function that \<open>verifyFunction\<close> accepts: every basic block that was created, of loops, branches, landing pads and cleanups alike, ends with a terminator and every target of a terminator is one of the blocks. It holds for all well-typed bodies, those included that \<open>ok_func\<close> rejects.\<close>

theorem dq_function_verified:
  assumes "wt_block (o_target P) (o_result P) False body"
  shows "\<exists>G. GenerateFuncBody P body = Some G \<and> verified G"
  by (rule func_verified [OF assms])

theorem dq_function_verified_witness:
  "\<exists>G. GenerateFuncBody unit_opts (sample_body 5) = Some G \<and> verified G"
  by (rule dq_function_verified) code_simp




end
