(* ===== verification/Parse_Expr.thy ===== *)
theory Parse_Expr
  imports Scf_Dq Expr_Fold
begin

text \<open>
  The expression parser (\<open>ODqCompParserExpr\<close> in \<open>compiler/parser/dqc_parser_expr.cpp\<close>) on scalar
  expressions: from the characters of a file, read through the DQ feeder, to the typed nodes of
  \<open>Expr_Ast\<close>. A function that calls back into the grammar gets the parser as its argument \<open>rec\<close>; the
  parser \<open>parse\<close> ties them together with fuel. The inner \<open>None\<close> of a result is a null pointer. The outer
  one is a parse that is not finished, undefined in the code, or leaves scalar expressions: pointers,
  text, arrays, structures, calls, members, \<open>is\<close>, range comparisons and floating-point literals.
\<close>

section \<open>State\<close>

datatype perr =
    PeBuild builderr
  | PeConv converr
  | DQERR_EXPR_UNEXPECTED_CHAR char
  | DQERR_EXPR_EXPECTED
  | DQERR_EXPR_NOT_CALLABLE sty
  | DQERR_LIT_HEXNUM
  | DQERR_LIT_INT
  | DQERR_LIT_STRING
  | DQERR_ID_EXP_AFTER string
  | DQERR_VS_UNKNOWN string
  | DQERR_VAR_NOT_INITIALIZED string
  | DQERR_TYPE_ID_EXP
  | DQERR_TYPE_UNKNOWN string
  | DQERR_NOT_SUPPORTED string
  | DQERR_TYPE_FLOAT_EXPECTED_FOR rndmode sty
  | DQERR_TYPE_EXPECTED string sty
  | DQERR_MEMBER_NAME_EXPECTED
  | DQERR_MEMBER_UNKNOWN string sty
  | DQERR_MISSING_OPEN_PAREN_AFTER string
  | DQERR_MISSING_CLOSE_PAREN
  | DQERR_MISSING_CLOSE_PAREN_FOR string
  | DQERR_FUNC_ARGS_TOO_FEW string string string
  | DQERR_FUNC_ARGS_TOO_MANY string string
  | DQERR_VS_ALREADY_DECL_TYPE string
  | DQERR_TYPE_SPECIFIER_EXP_AFTER string
  | DQERR_TYPE_INFER_INIT_REQUIRED string
  | DQERR_TYPE_INFER_UNSUPPORTED string
  | DQERR_MISSING_SEMICOLON_TO_CLOSE
  | DQERR_STMTBLK_START_MISSING
  | DQERR_STMTBLK_CLOSE_MISSING "string list"
  | DQERR_STMTBLK_CLOSE_MISMATCH "string list" string
  | DQERR_STMT_INVALID string
  | DQERR_STMT_ASSIGN_OR_FCALL_EXP
  | DQERR_REF_LOCAL_MODE_UNSUPPORTED string
  | DQERR_LVALUE_NOT_WRITEABLE
  | DQERR_TYPE_ASSIGN_TO_CONST string
  | DQERR_FUNC_RESULT_SPECIFIED
  | DQERR_CONDEXPR_MISSING_FOR string
  | DQERR_MULTIPLE_ELSE
  | DQERR_EXCEPTIONS_DISABLED
  | DQERR_VAR_UNKNOWN string
  | DQERR_MISSING_ASSIGN_FOR string
  | DQERR_KW_OR_ID_MISSING
  | DQERR_FOR_STEP_POSITIVE string

record 'e pst =
  p_scf :: "'e dqs"
  p_errs :: "perr list"

text \<open>
  What the scopes give for a name: a scalar type, a scalar variable or constant and whether it is
  initialized, or something outside scalar expressions.
\<close>

datatype tysym = TyScalar sty | TyOther

datatype 'f valsym = VsScalar sty "'f constval option" bool | VsOther

record ('e, 'f) penv =
  pe_host :: "'e host"
  pe_target :: target
  pe_fpu :: "'f fpu"
  pe_type :: "string \<Rightarrow> tysym option"
  pe_val :: "string \<Rightarrow> 'f valsym option"

section \<open>The feeder\<close>

definition p_Error :: "perr \<Rightarrow> 'e pst \<Rightarrow> 'e pst" where
  "p_Error e s = s\<lparr>p_errs := p_errs s @ [e]\<rparr>"

definition p_rd :: "(feeder \<Rightarrow> 'r \<times> feeder) \<Rightarrow> 'e pst \<Rightarrow> 'r \<times> 'e pst" where
  "p_rd f s = (case rd f (p_scf s) of (x, d) \<Rightarrow> (x, s\<lparr>p_scf := d\<rparr>))"

definition p_SkipWhite :: "('e, 'f) penv \<Rightarrow> bool \<Rightarrow> 'e pst \<Rightarrow> 'e pst option" where
  "p_SkipWhite E look s = map_option (\<lambda>d. s\<lparr>p_scf := d\<rparr>) (SkipWhite (pe_host E) look (p_scf s))"

definition p_CheckSymbol :: "string \<Rightarrow> bool \<Rightarrow> 'e pst \<Rightarrow> bool \<times> 'e pst" where
  "p_CheckSymbol cs consume s = p_rd (sf_CheckSymbol cs consume) s"

definition p_ReadIdentifier :: "'e pst \<Rightarrow> (bool \<times> string) \<times> 'e pst" where
  "p_ReadIdentifier s = p_rd (sf_ReadIdentifier [] True) s"

definition p_feeder :: "'e pst \<Rightarrow> feeder" where
  "p_feeder s = d_sf (p_scf s)"

definition p_set :: "feeder \<Rightarrow> 'e pst \<Rightarrow> 'e pst" where
  "p_set sf s = s\<lparr>p_scf := (p_scf s)\<lparr>d_sf := sf\<rparr>\<rparr>"

definition p_CheckKeyword :: "string \<Rightarrow> 'e pst \<Rightarrow> (bool \<times> 'e pst) option" where
  "p_CheckKeyword cs s = map_option (\<lambda>(b, sf). (b, p_set sf s)) (sf_CheckKeyword cs True (p_feeder s))"

definition p_SetCurPos :: "scpos \<Rightarrow> 'e pst \<Rightarrow> 'e pst option" where
  "p_SetCurPos pos s = map_option (\<lambda>sf. p_set sf s) (SetCurPos pos (p_feeder s))"

definition p_Eof :: "'e pst \<Rightarrow> bool" where
  "p_Eof s \<longleftrightarrow> dq_Eof (p_scf s)"

text \<open>\<open>*scf->curp\<close>\<close>

definition p_char :: "'e pst \<Rightarrow> char" where
  "p_char s = byte_at (sf_buf (p_feeder s)) (sf_cur (p_feeder s))"

text \<open>The first of some symbols, not consumed.\<close>

fun any_symbol :: "string list \<Rightarrow> 'e pst \<Rightarrow> bool \<times> 'e pst" where
  "any_symbol [] s = (False, s)"
| "any_symbol (cs # css) s =
     (case p_CheckSymbol cs False s of (True, s') \<Rightarrow> (True, s') | (False, s') \<Rightarrow> any_symbol css s')"

text \<open>The parts of the grammar, with the loops over operators and postfix operations.\<close>

datatype 'f pcode =
    PcExpression | PcOr | PcAnd | PcNot | PcComparison
  | PcAdd | PcMul | PcDiv | PcBinOr | PcBinAnd | PcShift | PcUnary | PcPostfix | PcPrimary
  | PcOrLoop "'f expr"
  | PcAndLoop "'f expr"
  | PcBinLoop "'f pcode" "(string \<times> binop) list" "'f expr"
  | PcPostfixLoop "'f expr"

type_synonym ('e, 'f) pres = "('f expr option \<times> 'e pst) option"

type_synonym ('e, 'f) prec = "'f pcode \<Rightarrow> 'e pst \<Rightarrow> ('e, 'f) pres"

text \<open>A null pointer is returned as it is.\<close>

definition nonnull :: "('e, 'f) pres \<Rightarrow> ('f expr \<Rightarrow> 'e pst \<Rightarrow> ('e, 'f) pres) \<Rightarrow> ('e, 'f) pres" where
  "nonnull r f = Option.bind r (\<lambda>(x, s). case x of None \<Rightarrow> Some (None, s) | Some e \<Rightarrow> f e s)"

text \<open>A node with its error report; a node with a null type is undefined.\<close>

definition reported :: "builderr option \<times> 'f expr \<Rightarrow> 'e pst \<Rightarrow> ('e, 'f) pres" where
  "reported r s = (case r of
     (None, e) \<Rightarrow> Some (Some e, s)
   | (Some err, e) \<Rightarrow> if err = NullType then None else Some (Some e, p_Error (PeBuild err) s))"

definition converted :: "converr + 'f expr \<Rightarrow> 'e pst \<Rightarrow> ('e, 'f) pres" where
  "converted r s = (case r of
     Inr e \<Rightarrow> Some (Some e, s)
   | Inl err \<Rightarrow> if err = UNDEFINED_ARITH then None else Some (None, p_Error (PeConv err) s))"

section \<open>Operators\<close>

definition ParseExpression :: "('e, 'f) penv \<Rightarrow> ('e, 'f) prec \<Rightarrow> 'e pst \<Rightarrow> ('e, 'f) pres" where
  "ParseExpression E rec s =
     nonnull (rec PcOr s) (\<lambda>e s1.
       case FoldTree (pe_target E) (pe_fpu E) e of None \<Rightarrow> None | Some e' \<Rightarrow> Some (Some e', s1))"

definition ParseExprOr :: "('e, 'f) prec \<Rightarrow> 'e pst \<Rightarrow> ('e, 'f) pres" where
  "ParseExprOr rec s = nonnull (rec PcAnd s) (\<lambda>left. rec (PcOrLoop left))"

definition or_loop :: "('e, 'f) penv \<Rightarrow> ('e, 'f) prec \<Rightarrow> 'f expr \<Rightarrow> 'e pst \<Rightarrow> ('e, 'f) pres" where
  "or_loop E rec left s =
     (if p_Eof s then Some (Some left, s)
      else do {
        s1 \<leftarrow> p_SkipWhite E True s;
        (found, s2) \<leftarrow> p_CheckKeyword ''or'' s1;
        if \<not> found then Some (Some left, s2)
        else nonnull (rec PcAnd s2) (\<lambda>right s3.
          nonnull (reported (CreateLogicalExpr LOGIOP_OR left right) s3) (\<lambda>left'. rec (PcOrLoop left'))) })"

definition ParseExprAnd :: "('e, 'f) prec \<Rightarrow> 'e pst \<Rightarrow> ('e, 'f) pres" where
  "ParseExprAnd rec s = nonnull (rec PcNot s) (\<lambda>left. rec (PcAndLoop left))"

definition and_loop :: "('e, 'f) penv \<Rightarrow> ('e, 'f) prec \<Rightarrow> 'f expr \<Rightarrow> 'e pst \<Rightarrow> ('e, 'f) pres" where
  "and_loop E rec left s =
     (if p_Eof s then Some (Some left, s)
      else do {
        s1 \<leftarrow> p_SkipWhite E True s;
        (found, s2) \<leftarrow> p_CheckKeyword ''and'' s1;
        if \<not> found then Some (Some left, s2)
        else nonnull (rec PcNot s2) (\<lambda>right s3.
          nonnull (reported (CreateLogicalExpr LOGIOP_AND left right) s3) (\<lambda>left'. rec (PcAndLoop left'))) })"

definition ParseExprNot :: "('e, 'f) penv \<Rightarrow> ('e, 'f) prec \<Rightarrow> 'e pst \<Rightarrow> ('e, 'f) pres" where
  "ParseExprNot E rec s = do {
     s1 \<leftarrow> p_SkipWhite E False s;
     (found, s2) \<leftarrow> p_CheckKeyword ''not'' s1;
     if found then nonnull (rec PcNot s2) (\<lambda>val. reported (create_not val))
     else rec PcComparison s2 }"

text \<open>\<open>CheckSymbol\<close> for each operator in turn.\<close>

fun first_symbol :: "(string \<times> 'o) list \<Rightarrow> bool \<Rightarrow> 'e pst \<Rightarrow> 'o option \<times> 'e pst" where
  "first_symbol [] consume s = (None, s)"
| "first_symbol ((cs, op) # ops) consume s =
     (case p_CheckSymbol cs consume s of (True, s') \<Rightarrow> (Some op, s') | (False, s') \<Rightarrow> first_symbol ops consume s')"

definition ParseCompareOp :: "bool \<Rightarrow> 'e pst \<Rightarrow> cmpop option \<times> 'e pst" where
  "ParseCompareOp consume =
     first_symbol [(''=='', COMPOP_EQ), (''<>'', COMPOP_NE), (''<='', COMPOP_LE), (''<'', COMPOP_LT),
       (''>='', COMPOP_GE), (''>'', COMPOP_GT)] consume"

definition is_range :: "cmpop \<Rightarrow> cmpop option \<Rightarrow> bool" where
  "is_range op next \<longleftrightarrow>
     (op \<in> {COMPOP_LT, COMPOP_LE} \<and> next \<in> {Some COMPOP_LT, Some COMPOP_LE})
     \<or> (op \<in> {COMPOP_GT, COMPOP_GE} \<and> next \<in> {Some COMPOP_GT, Some COMPOP_GE})"

text \<open>Type specifications that are a name: the type, or a null pointer after the error.\<close>

definition type_error :: "bool \<Rightarrow> perr \<Rightarrow> 'e pst \<Rightarrow> (sty option \<times> 'e pst) option" where
  "type_error emit e s = Some (None, if emit then p_Error e s else s)"

text \<open>The keywords \<open>type of\<close>, after which the position goes back when they are not there.\<close>

definition type_of_ahead :: "('e, 'f) penv \<Rightarrow> 'e pst \<Rightarrow> (bool \<times> 'e pst) option" where
  "type_of_ahead E s = do {
     let pos = SaveCurPos (p_feeder s);
     let ((ok, w), s1) = p_ReadIdentifier s;
     if ok \<and> w = ''type'' then do {
       s2 \<leftarrow> p_SkipWhite E False s1;
       let ((ok2, w2), s3) = p_ReadIdentifier s2;
       if ok2 \<and> w2 = ''of'' then Some (True, s3) else map_option (Pair False) (p_SetCurPos pos s3) }
     else map_option (Pair False) (p_SetCurPos pos s1) }"

definition ParseTypeSpec :: "('e, 'f) penv \<Rightarrow> bool \<Rightarrow> 'e pst \<Rightarrow> (sty option \<times> 'e pst) option" where
  "ParseTypeSpec E emit s = do {
     s1 \<leftarrow> p_SkipWhite E False s;
     let (attributes, s2) = p_CheckSymbol ''[['' False s1;
     let pos = SaveCurPos (p_feeder s2);
     let ((ok, prefix), s3) = p_ReadIdentifier s2;
     if attributes \<or> (ok \<and> prefix = ''autofree'') then None
     else do {
       s4 \<leftarrow> p_SetCurPos pos s3;
       let (pointer, s5) = p_CheckSymbol ''^'' True s4;
       let (array, s6) = p_CheckSymbol ''['' True s5;
       if pointer \<or> array then None
       else do {
         s7 \<leftarrow> p_SkipWhite E False s6;
         (type_of, s8) \<leftarrow> type_of_ahead E s7;
         let (fn, s9) = p_CheckSymbol ''func'' True s8;
         if type_of \<or> fn then None
         else do {
           let ((ok, stype), s10) = p_ReadIdentifier s9;
           if \<not> ok then type_error emit DQERR_TYPE_ID_EXP s10
           else (case pe_type E stype of
             None \<Rightarrow> type_error emit (DQERR_TYPE_UNKNOWN stype) s10
           | Some TyOther \<Rightarrow> None
           | Some (TyScalar ty) \<Rightarrow> do {
               s11 \<leftarrow> p_SkipWhite E True s10;
               let (attributes, s12) = p_CheckSymbol ''[['' False s11;
               if attributes then Some (Some ty, s12)
               else (case p_CheckSymbol ''['' False s12 of
                 (True, s13) \<Rightarrow> type_error emit (DQERR_NOT_SUPPORTED ''Postfix array type syntax'') s13
               | (False, s13) \<Rightarrow> Some (Some ty, s13)) }) } } } }"

definition ParseComparison :: "('e, 'f) penv \<Rightarrow> ('e, 'f) prec \<Rightarrow> 'e pst \<Rightarrow> ('e, 'f) pres" where
  "ParseComparison E rec s =
     nonnull (rec PcAdd s) (\<lambda>left s1. do {
       s2 \<leftarrow> p_SkipWhite E True s1;
       let (stop, s3) = any_symbol [''<<='', ''>>=''] s2;
       if stop then Some (Some left, s3)
       else (case ParseCompareOp True s3 of
         (Some op, s4) \<Rightarrow>
           nonnull (rec PcAdd s4) (\<lambda>right s5. do {
             s6 \<leftarrow> p_SkipWhite E True s5;
             let (next, s7) = ParseCompareOp False s6;
             if is_range op next then None
             else reported (CreateCompareExpr (pe_target E) (pe_fpu E) op left right) s7 })
       | (None, s4) \<Rightarrow> do {
           (is_kw, s5) \<leftarrow> p_CheckKeyword ''is'' s4;
           if is_kw then None
           else do {
             (as_kw, s6) \<leftarrow> p_CheckKeyword ''as'' s5;
             if \<not> as_kw then Some (Some left, s6)
             else do {
               s7 \<leftarrow> p_SkipWhite E False s6;
               (ty, s8) \<leftarrow> ParseTypeSpec E True s7;
               case ty of
                 None \<Rightarrow> Some (None, s8)
               | Some ty \<Rightarrow> converted (ConvertScalar (pe_target E) (pe_fpu E) True ty left) s8 } } }) })"

definition assign_symbols :: "string list" where
  "assign_symbols = [''+='', ''-='', ''++'', ''--'', ''*='', ''/='', ''<<='', ''>>='', ''&='', ''|='']"

definition is_word :: "string \<Rightarrow> bool" where
  "is_word cs \<longleftrightarrow> (CHR ''A'' \<le> hd cs \<and> hd cs \<le> CHR ''Z'') \<or> (CHR ''a'' \<le> hd cs \<and> hd cs \<le> CHR ''z'')"

fun find_op :: "(string \<times> binop) list \<Rightarrow> 'e pst \<Rightarrow> (binop option \<times> 'e pst) option" where
  "find_op [] s = Some (None, s)"
| "find_op ((cs, op) # ops) s =
     Option.bind (if is_word cs then p_CheckKeyword cs s else Some (p_CheckSymbol cs True s))
       (\<lambda>(found, s'). if found then Some (Some op, s') else find_op ops s')"

definition ParseBinOpLevel :: "('e, 'f) penv \<Rightarrow> ('e, 'f) prec \<Rightarrow> 'f pcode \<Rightarrow> (string \<times> binop) list \<Rightarrow> 'e pst \<Rightarrow> ('e, 'f) pres" where
  "ParseBinOpLevel E rec next ops s =
     Option.bind (p_SkipWhite E False s) (\<lambda>s1. nonnull (rec next s1) (\<lambda>left. rec (PcBinLoop next ops left)))"

definition binop_loop :: "('e, 'f) penv \<Rightarrow> ('e, 'f) prec \<Rightarrow> 'f pcode \<Rightarrow> (string \<times> binop) list \<Rightarrow> 'f expr \<Rightarrow> 'e pst \<Rightarrow> ('e, 'f) pres" where
  "binop_loop E rec next ops left s =
     (if p_Eof s then Some (Some left, s)
      else do {
        s1 \<leftarrow> p_SkipWhite E True s;
        let (stop, s2) = any_symbol assign_symbols s1;
        if stop then Some (Some left, s2)
        else do {
          (op, s3) \<leftarrow> find_op ops s2;
          case op of
            None \<Rightarrow> Some (Some left, s3)
          | Some op \<Rightarrow> nonnull (rec next s3) (\<lambda>right s4.
              case CreateBinExpr (pe_target E) op left right of
                Inl err \<Rightarrow> if err = NullType then None else Some (None, p_Error (PeBuild err) s4)
              | Inr e \<Rightarrow> rec (PcBinLoop next ops e) s4) } })"

definition ParseExprAdd :: "('e, 'f) penv \<Rightarrow> ('e, 'f) prec \<Rightarrow> 'e pst \<Rightarrow> ('e, 'f) pres" where
  "ParseExprAdd E rec = ParseBinOpLevel E rec PcMul [(''+'', BINOP_ADD), (''-'', BINOP_SUB)]"

definition ParseExprMul :: "('e, 'f) penv \<Rightarrow> ('e, 'f) prec \<Rightarrow> 'e pst \<Rightarrow> ('e, 'f) pres" where
  "ParseExprMul E rec = ParseBinOpLevel E rec PcDiv [(''*'', BINOP_MUL)]"

definition ParseExprDiv :: "('e, 'f) penv \<Rightarrow> ('e, 'f) prec \<Rightarrow> 'e pst \<Rightarrow> ('e, 'f) pres" where
  "ParseExprDiv E rec = ParseBinOpLevel E rec PcBinOr
     [(''/'', BINOP_DIV), (''div'', BINOP_IDIV), (''rem'', BINOP_IREM), (''mod'', BINOP_IMOD)]"

definition ParseExprBinOr :: "('e, 'f) penv \<Rightarrow> ('e, 'f) prec \<Rightarrow> 'e pst \<Rightarrow> ('e, 'f) pres" where
  "ParseExprBinOr E rec = ParseBinOpLevel E rec PcBinAnd [(''|'', BINOP_IOR), (''xor'', BINOP_IXOR)]"

definition ParseExprBinAnd :: "('e, 'f) penv \<Rightarrow> ('e, 'f) prec \<Rightarrow> 'e pst \<Rightarrow> ('e, 'f) pres" where
  "ParseExprBinAnd E rec = ParseBinOpLevel E rec PcShift [(''&'', BINOP_IAND)]"

definition ParseExprShift :: "('e, 'f) penv \<Rightarrow> ('e, 'f) prec \<Rightarrow> 'e pst \<Rightarrow> ('e, 'f) pres" where
  "ParseExprShift E rec = ParseBinOpLevel E rec PcUnary [(''<<'', BINOP_ISHL), (''>>'', BINOP_ISHR)]"

text \<open>\<open>%\<close> takes an address. A null type of \<open>ONegExpr\<close> is undefined.\<close>

definition ParseExprUnary :: "('e, 'f) penv \<Rightarrow> ('e, 'f) prec \<Rightarrow> 'e pst \<Rightarrow> ('e, 'f) pres" where
  "ParseExprUnary E rec s = do {
     s1 \<leftarrow> p_SkipWhite E False s;
     let (addr, s2) = p_CheckSymbol ''%'' True s1;
     if addr then None
     else (case p_CheckSymbol ''-'' True s2 of
       (True, s3) \<Rightarrow> nonnull (rec PcUnary s3) (\<lambda>val s4. map_option (\<lambda>e. (Some e, s4)) (new_NegExpr val))
     | (False, s3) \<Rightarrow>
     (case p_CheckSymbol ''~'' True s3 of
       (True, s4) \<Rightarrow> nonnull (rec PcUnary s4) (\<lambda>val s5. Some (Some (new_BinNotExpr (pe_target E) val), s5))
     | (False, s4) \<Rightarrow> rec PcPostfix s4)) }"

section \<open>Operands\<close>

definition ParseExprPostfix :: "('e, 'f) prec \<Rightarrow> 'e pst \<Rightarrow> ('e, 'f) pres" where
  "ParseExprPostfix rec s = nonnull (rec PcPrimary s) (\<lambda>e. rec (PcPostfixLoop e))"

definition is_lvalue :: "'f expr \<Rightarrow> bool" where
  "is_lvalue e = (case e of OLValueVar _ _ _ \<Rightarrow> True | _ \<Rightarrow> False)"

text \<open>
  On scalar operands only \<open>.ord\<close> of a character is a postfix operation; a call is an error.
\<close>

definition ParsePostfix :: "('e, 'f) penv \<Rightarrow> ('e, 'f) prec \<Rightarrow> 'f expr \<Rightarrow> 'e pst \<Rightarrow> ('e, 'f) pres" where
  "ParsePostfix E rec e s = do {
     s1 \<leftarrow> p_SkipWhite E True s;
     let (dot, s2) = (if IsCharacterType (etype e) then p_CheckSymbol ''.'' True s1 else (False, s1));
     if dot then do {
       s3 \<leftarrow> p_SkipWhite E False s2;
       let ((ok, member), s4) = p_ReadIdentifier s3;
       if \<not> ok then Some (Some e, p_Error DQERR_MEMBER_NAME_EXPECTED s4)
       else if member = ''ord'' then rec (PcPostfixLoop (OExprTypeConv (type_int (pe_target E)) e)) s4
       else Some (Some e, p_Error (DQERR_MEMBER_UNKNOWN member (etype e)) s4) }
     else do {
       let (member, s3) = (if is_lvalue e then p_CheckSymbol ''.'' True s2 else (False, s2));
       if member then None
       else (case p_CheckSymbol ''('' False s3 of
         (True, s4) \<Rightarrow> Some (None, p_Error (DQERR_EXPR_NOT_CALLABLE (etype e)) s4)
       | (False, s4) \<Rightarrow> Some (Some e, s4)) } }"

text \<open>\<open>DecodeSingleUtf8Scalar\<close>: the code point of a text that is one character in UTF-8.\<close>

definition utf8_code :: "nat list \<Rightarrow> (nat \<times> nat) option" where
  "utf8_code bs =
     (let b0 = bs ! 0; b1 = bs ! 1; b2 = bs ! 2; b3 = bs ! 3; cont = (\<lambda>b. b AND 0xC0 = 0x80) in
      if b0 \<le> 0x7F then Some (b0, 1)
      else if 0xC2 \<le> b0 \<and> b0 \<le> 0xDF then
        (if length bs < 2 then None
         else if \<not> cont b1 then None
         else Some (push_bit 6 (b0 AND 0x1F) OR (b1 AND 0x3F), 2))
      else if 0xE0 \<le> b0 \<and> b0 \<le> 0xEF then
        (if length bs < 3 then None
         else if \<not> cont b1 \<or> \<not> cont b2 then None
         else (let code = push_bit 12 (b0 AND 0x0F) OR push_bit 6 (b1 AND 0x3F) OR (b2 AND 0x3F)
               in if code < 0x800 then None else Some (code, 3)))
      else if 0xF0 \<le> b0 \<and> b0 \<le> 0xF4 then
        (if length bs < 4 then None
         else if \<not> cont b1 \<or> \<not> cont b2 \<or> \<not> cont b3 then None
         else (let code = push_bit 18 (b0 AND 0x07) OR push_bit 12 (b1 AND 0x3F) OR push_bit 6 (b2 AND 0x3F) OR (b3 AND 0x3F)
               in if code < 0x10000 then None else Some (code, 4)))
      else None)"

definition DecodeSingleUtf8Scalar :: "string \<Rightarrow> int64 option" where
  "DecodeSingleUtf8Scalar bytes =
     (if bytes = [] then None
      else (case utf8_code (map of_char bytes) of
        None \<Rightarrow> None
      | Some (code, len) \<Rightarrow>
          if len \<noteq> length bytes \<or> \<not> IsValidWCharValue (int code) then None else Some (of_nat code)))"

text \<open>A cast \<open>type(e)\<close>: whether it was one, and its value.\<close>

definition ParseExplicitCastExpr :: "('e, 'f) penv \<Rightarrow> ('e, 'f) prec \<Rightarrow> 'e pst \<Rightarrow> (bool \<times> 'f expr option \<times> 'e pst) option" where
  "ParseExplicitCastExpr E rec s = do {
     let pos = SaveCurPos (p_feeder s);
     let back = (\<lambda>s'. map_option (\<lambda>s''. (False, None, s'')) (p_SetCurPos pos s'));
     (ty, s1) \<leftarrow> ParseTypeSpec E False s;
     case ty of
       None \<Rightarrow> back s1
     | Some ty \<Rightarrow> do {
         s2 \<leftarrow> p_SkipWhite E False s1;
         let (open, s3) = p_CheckSymbol ''('' True s2;
         if \<not> open then back s3
         else map_option (Pair True) (nonnull (rec PcExpression s3) (\<lambda>src s4. do {
           s5 \<leftarrow> p_SkipWhite E False s4;
           let (close, s6) = p_CheckSymbol '')'' True s5;
           if \<not> close then Some (None, p_Error (DQERR_MISSING_CLOSE_PAREN_FOR ''cast'') s6)
           else converted (ConvertScalar (pe_target E) (pe_fpu E) True ty src) s6 })) } }"

text \<open>\<open>ResolveIifType\<close> on scalar types.\<close>

definition quiet :: "converr + 'f expr \<Rightarrow> 'f expr option option" where
  "quiet r = (case r of Inr e \<Rightarrow> Some (Some e) | Inl err \<Rightarrow> if err = UNDEFINED_ARITH then None else Some None)"

definition ResolveIifType :: "('e, 'f) penv \<Rightarrow> 'f expr \<Rightarrow> 'f expr \<Rightarrow> ('f expr \<times> 'f expr \<times> sty) option option" where
  "ResolveIifType E t f =
     (if etype t = etype f then Some (Some (t, f, etype t))
      else do {
        (numeric, t1, f1) \<leftarrow> HarmonizeNumericOperands t f False;
        if numeric then do {
          t2 \<leftarrow> FoldTree (pe_target E) (pe_fpu E) t1;
          f2 \<leftarrow> FoldTree (pe_target E) (pe_fpu E) f1;
          Some (Some (t2, f2, etype t2)) }
        else do {
          f' \<leftarrow> quiet (ConvertScalar (pe_target E) (pe_fpu E) False (etype t) f);
          case f' of
            Some f' \<Rightarrow> Some (Some (t, f', etype t))
          | None \<Rightarrow> do {
              t' \<leftarrow> quiet (ConvertScalar (pe_target E) (pe_fpu E) False (etype f) t);
              Some (map_option (\<lambda>t'. (t', f, etype f)) t') } } })"

text \<open>The steps of \<open>iif(c, a, b)\<close>; an error goes on behind the next \<open>)\<close>, or stops at a \<open>;\<close>.\<close>

definition recover_iif_tail :: "'e pst \<Rightarrow> 'e pst" where
  "recover_iif_tail s = snd (p_CheckSymbol '')'' True (snd (p_rd (sf_ReadTo '');'') s)))"

definition iif_fail :: "perr \<Rightarrow> 'e pst \<Rightarrow> ('e, 'f) pres" where
  "iif_fail err s = Some (None, recover_iif_tail (p_Error err s))"

definition iif_arg :: "('e, 'f) prec \<Rightarrow> perr \<Rightarrow> 'e pst \<Rightarrow> ('f expr \<Rightarrow> 'e pst \<Rightarrow> ('e, 'f) pres) \<Rightarrow> ('e, 'f) pres" where
  "iif_arg rec err s f =
     Option.bind (rec PcExpression s) (\<lambda>(x, s'). case x of None \<Rightarrow> Some (None, p_Error err s') | Some e \<Rightarrow> f e s')"

definition iif_comma :: "('e, 'f) penv \<Rightarrow> perr \<Rightarrow> 'e pst \<Rightarrow> ('e pst \<Rightarrow> ('e, 'f) pres) \<Rightarrow> ('e, 'f) pres" where
  "iif_comma E err s f = do {
     s1 \<leftarrow> p_SkipWhite E False s;
     case p_CheckSymbol '','' True s1 of (True, s2) \<Rightarrow> f s2 | (False, s2) \<Rightarrow> iif_fail err s2 }"

definition ParseBuiltinIif :: "('e, 'f) penv \<Rightarrow> ('e, 'f) prec \<Rightarrow> 'e pst \<Rightarrow> ('e, 'f) pres" where
  "ParseBuiltinIif E rec s = do {
     s1 \<leftarrow> p_SkipWhite E False s;
     let (open, s2) = p_CheckSymbol ''('' True s1;
     if \<not> open then Some (None, p_Error (DQERR_MISSING_OPEN_PAREN_AFTER ''iif'') s2)
     else iif_arg rec (DQERR_FUNC_ARGS_TOO_FEW ''0'' ''iif'' ''3'') s2 (\<lambda>c s3.
       if etype c \<noteq> TBool then iif_fail (PeBuild (BOOL_EXPR_EXPECTED (etype c))) s3
       else iif_comma E (DQERR_FUNC_ARGS_TOO_FEW ''1'' ''iif'' ''3'') s3 (\<lambda>s4.
       iif_arg rec (DQERR_FUNC_ARGS_TOO_FEW ''iif'' ''1'' ''3'') s4 (\<lambda>t s5.
       iif_comma E (DQERR_FUNC_ARGS_TOO_FEW ''2'' ''iif'' ''3'') s5 (\<lambda>s6.
       Option.bind (rec PcExpression s6) (\<lambda>(f, s7). case f of
         None \<Rightarrow> iif_fail (DQERR_FUNC_ARGS_TOO_FEW ''2'' ''iif'' ''3'') s7
       | Some f \<Rightarrow> do {
           s8 \<leftarrow> p_SkipWhite E False s7;
           let (more, s9) = p_CheckSymbol '','' True s8;
           if more then iif_fail (DQERR_FUNC_ARGS_TOO_MANY ''iif'' ''3'') s9
           else do {
             let (close, s10) = p_CheckSymbol '')'' True s9;
             if \<not> close then iif_fail (DQERR_MISSING_CLOSE_PAREN_FOR ''iif'') s10
             else do {
               r \<leftarrow> ResolveIifType E t f;
               case r of
                 None \<Rightarrow> Some (None, p_Error (PeConv (TYPEMISM_ASSIGN (etype t) (etype f))) s10)
               | Some (t', f', ty) \<Rightarrow> Some (Some (OIifExpr ty c t' f'), s10) } } }))))) }"

definition GetRoundModeName :: "rndmode \<Rightarrow> string" where
  "GetRoundModeName m = (case m of RNDMODE_ROUND \<Rightarrow> ''round'' | RNDMODE_CEIL \<Rightarrow> ''ceil''
     | RNDMODE_FLOOR \<Rightarrow> ''floor'' | RNDMODE_TRUNC \<Rightarrow> ''trunc'')"

definition ParseBuiltinFloatRound :: "('e, 'f) penv \<Rightarrow> ('e, 'f) prec \<Rightarrow> rndmode \<Rightarrow> 'e pst \<Rightarrow> ('e, 'f) pres" where
  "ParseBuiltinFloatRound E rec m s = do {
     s1 \<leftarrow> p_SkipWhite E False s;
     let (open, s2) = p_CheckSymbol ''('' True s1;
     if \<not> open then Some (None, p_Error (DQERR_MISSING_OPEN_PAREN_AFTER (GetRoundModeName m)) s2)
     else nonnull (rec PcExpression s2) (\<lambda>arg s3.
       case tkind_of (etype arg) of
         TK_FLOAT \<Rightarrow> do {
           s4 \<leftarrow> p_SkipWhite E False s3;
           let (close, s5) = p_CheckSymbol '')'' True s4;
           if \<not> close then Some (None, p_Error (DQERR_MISSING_CLOSE_PAREN_FOR (GetRoundModeName m)) s5)
           else Some (Some (new_FloatRoundExpr (pe_target E) m arg), s5) }
       | _ \<Rightarrow> Some (None, p_Error (DQERR_TYPE_FLOAT_EXPECTED_FOR m (etype arg)) s3)) }"

definition ParseBuiltinOrd :: "('e, 'f) penv \<Rightarrow> ('e, 'f) prec \<Rightarrow> 'e pst \<Rightarrow> ('e, 'f) pres" where
  "ParseBuiltinOrd E rec s = do {
     s1 \<leftarrow> p_SkipWhite E False s;
     let (open, s2) = p_CheckSymbol ''('' True s1;
     if \<not> open then Some (None, p_Error (DQERR_MISSING_OPEN_PAREN_AFTER ''Ord'') s2)
     else nonnull (rec PcExpression s2) (\<lambda>arg s3. do {
       s4 \<leftarrow> p_SkipWhite E False s3;
       let (close, s5) = p_CheckSymbol '')'' True s4;
       if \<not> close then Some (None, p_Error (DQERR_MISSING_CLOSE_PAREN_FOR ''Ord'') s5)
       else if IsCharacterType (etype arg) then Some (Some (OExprTypeConv (type_int (pe_target E)) arg), s5)
       else Some (None, p_Error (DQERR_TYPE_EXPECTED ''enum or character'' (etype arg)) s5) }) }"

section \<open>Literals and names\<close>

text \<open>\<open>$name\<close> outside of an index.\<close>

definition parse_context_name :: "'e pst \<Rightarrow> ('e, 'f) pres" where
  "parse_context_name s = (case p_ReadIdentifier s of
     ((False, _), s1) \<Rightarrow> Some (None, p_Error (DQERR_ID_EXP_AFTER ''$'') s1)
   | ((True, w), s1) \<Rightarrow> Some (None, p_Error (DQERR_VS_UNKNOWN (CHR ''$'' # w)) s1))"

definition parse_hex :: "('e, 'f) penv \<Rightarrow> 'e pst \<Rightarrow> ('e, 'f) pres" where
  "parse_hex E s = (case p_rd (sf_ReadHex64Value 0) s of
     ((True, v), s1) \<Rightarrow> Some (Some (new_IntLit (pe_target E) v), s1)
   | ((False, _), s1) \<Rightarrow> Some (None, p_Error DQERR_LIT_HEXNUM s1))"

definition parse_number :: "('e, 'f) penv \<Rightarrow> 'e pst \<Rightarrow> ('e, 'f) pres" where
  "parse_number E s =
     Option.bind (sf_ReadInt64Value 0 (p_feeder s)) (\<lambda>((ok, v), sf).
       let s1 = p_set sf s in
       if \<not> ok then Some (None, p_Error DQERR_LIT_INT s1)
       else if p_char s1 \<in> {CHR ''.'', CHR ''e'', CHR ''E''} then None
       else Some (Some (new_IntLit (pe_target E) (word_of_int v)), s1))"

text \<open>A text literal that is not one character in single quotes is not a scalar.\<close>

definition parse_quoted :: "'e pst \<Rightarrow> ('e, 'f) pres" where
  "parse_quoted s = (case p_rd (sf_ReadQuotedString []) s of
     ((False, _), s1) \<Rightarrow> Some (None, p_Error DQERR_LIT_STRING s1)
   | ((True, str), s1) \<Rightarrow>
       (case (p_char s = CHR 0x27, DecodeSingleUtf8Scalar str) of
          (True, Some v) \<Rightarrow> Some (Some (OIntLit v (TChar 32)), s1)
        | _ \<Rightarrow> None))"

text \<open>The names of built-in functions that are not modelled.\<close>

definition other_builtins :: "string list" where
  "other_builtins = [''Len'', ''Defined'', ''FirstInt'', ''FirstFloat'', ''FirstBool'', ''SizeOf'', ''OffsetOf'',
     ''TryCast'', ''TypeName'', ''new'', ''inherited'']"

definition lookup_value :: "('e, 'f) penv \<Rightarrow> string \<Rightarrow> 'e pst \<Rightarrow> ('e, 'f) pres" where
  "lookup_value E sid s =
     (case pe_val E sid of
        None \<Rightarrow> if pe_type E sid = Some TyOther then None else Some (None, p_Error (DQERR_VS_UNKNOWN sid) s)
      | Some VsOther \<Rightarrow> None
      | Some (VsScalar ty c initialized) \<Rightarrow>
          Some (Some (OLValueVar sid ty c), if initialized then s else p_Error (DQERR_VAR_NOT_INITIALIZED sid) s))"

definition parse_name :: "('e, 'f) penv \<Rightarrow> ('e, 'f) prec \<Rightarrow> 'e pst \<Rightarrow> ('e, 'f) pres" where
  "parse_name E rec s =
     (case p_ReadIdentifier s of
        ((False, _), s1) \<Rightarrow>
          Some (None, if \<not> p_Eof s1
            then p_set ((p_feeder s1)\<lparr>sf_cur := Suc (sf_cur (p_feeder s1))\<rparr>) (p_Error (DQERR_EXPR_UNEXPECTED_CHAR (p_char s1)) s1)
            else p_Error DQERR_EXPR_EXPECTED s1)
      | ((True, sid), s1) \<Rightarrow>
          if sid \<in> set other_builtins then None
          else if sid = ''iif'' \<or> sid = ''Iif'' then ParseBuiltinIif E rec s1
          else if sid = ''Round'' then ParseBuiltinFloatRound E rec RNDMODE_ROUND s1
          else if sid = ''Ceil'' then ParseBuiltinFloatRound E rec RNDMODE_CEIL s1
          else if sid = ''Floor'' then ParseBuiltinFloatRound E rec RNDMODE_FLOOR s1
          else if sid = ''Trunc'' then ParseBuiltinFloatRound E rec RNDMODE_TRUNC s1
          else if sid = ''Ord'' then ParseBuiltinOrd E rec s1
          else lookup_value E sid s1)"

text \<open>What an operand starts with, in the order it is tried.\<close>

datatype prim_start = PsParen | PsOther | PsContext | PsHex

definition prim_symbols :: "(string \<times> prim_start) list" where
  "prim_symbols = [(''('', PsParen), (''['', PsOther), (''{'', PsOther), (''$'', PsContext), (''0x'', PsHex)]"

text \<open>The names that are literals are not compared as words.\<close>

datatype lit_start = LsTrue | LsFalse | LsOther

definition lit_symbols :: "(string \<times> lit_start) list" where
  "lit_symbols = [(''true'', LsTrue), (''false'', LsFalse), (''nil'', LsOther), (''@'', LsOther)]"

definition parse_operand :: "('e, 'f) penv \<Rightarrow> ('e, 'f) prec \<Rightarrow> 'e pst \<Rightarrow> ('e, 'f) pres" where
  "parse_operand E rec s =
     (case first_symbol prim_symbols True s of
        (Some PsParen, s1) \<Rightarrow>
          Option.bind (rec PcExpression s1) (\<lambda>(x, s2).
          Option.bind (p_SkipWhite E False s2) (\<lambda>s3.
            case p_CheckSymbol '')'' True s3 of
              (True, s4) \<Rightarrow> Some (x, s4)
            | (False, s4) \<Rightarrow> Some (x, p_Error DQERR_MISSING_CLOSE_PAREN s4)))
      | (Some PsOther, s1) \<Rightarrow> None
      | (Some PsContext, s1) \<Rightarrow> parse_context_name s1
      | (Some PsHex, s1) \<Rightarrow> parse_hex E s1
      | (None, s1) \<Rightarrow>
          if sf_IsNumChar (p_feeder s1) then parse_number E s1
          else if p_char s1 = CHR 0x22 \<or> p_char s1 = CHR 0x27 then parse_quoted s1
          else (case first_symbol lit_symbols True s1 of
              (Some LsTrue, s2) \<Rightarrow> Some (Some (OBoolLit True), s2)
            | (Some LsFalse, s2) \<Rightarrow> Some (Some (OBoolLit False), s2)
            | (Some LsOther, s2) \<Rightarrow> None
            | (None, s2) \<Rightarrow> parse_name E rec s2))"

definition ParseExprPrimary :: "('e, 'f) penv \<Rightarrow> ('e, 'f) prec \<Rightarrow> 'e pst \<Rightarrow> ('e, 'f) pres" where
  "ParseExprPrimary E rec s = do {
     s1 \<leftarrow> p_SkipWhite E False s;
     if p_char s1 = CHR ''^'' \<or> p_char s1 = CHR ''['' \<or> is_alpha_under (p_char s1) then do {
       (attempted, x, s2) \<leftarrow> ParseExplicitCastExpr E rec s1;
       if attempted then Some (x, s2) else parse_operand E rec s2 }
     else parse_operand E rec s1 }"

section \<open>The parser\<close>

primrec parse :: "nat \<Rightarrow> ('e, 'f) penv \<Rightarrow> ('e, 'f) prec" where
  "parse 0 E c s = None"
| "parse (Suc n) E c s =
     (case c of
        PcExpression \<Rightarrow> ParseExpression E (parse n E) s
      | PcOr \<Rightarrow> ParseExprOr (parse n E) s
      | PcOrLoop left \<Rightarrow> or_loop E (parse n E) left s
      | PcAnd \<Rightarrow> ParseExprAnd (parse n E) s
      | PcAndLoop left \<Rightarrow> and_loop E (parse n E) left s
      | PcNot \<Rightarrow> ParseExprNot E (parse n E) s
      | PcComparison \<Rightarrow> ParseComparison E (parse n E) s
      | PcAdd \<Rightarrow> ParseExprAdd E (parse n E) s
      | PcMul \<Rightarrow> ParseExprMul E (parse n E) s
      | PcDiv \<Rightarrow> ParseExprDiv E (parse n E) s
      | PcBinOr \<Rightarrow> ParseExprBinOr E (parse n E) s
      | PcBinAnd \<Rightarrow> ParseExprBinAnd E (parse n E) s
      | PcShift \<Rightarrow> ParseExprShift E (parse n E) s
      | PcBinLoop next ops left \<Rightarrow> binop_loop E (parse n E) next ops left s
      | PcUnary \<Rightarrow> ParseExprUnary E (parse n E) s
      | PcPostfix \<Rightarrow> ParseExprPostfix (parse n E) s
      | PcPostfixLoop e \<Rightarrow> ParsePostfix E (parse n E) e s
      | PcPrimary \<Rightarrow> ParseExprPrimary E (parse n E) s)"

end
