(* ===== verification/Parse_Text.thy ===== *)
theory Parse_Text
  imports Parse_Expr Dq_White Scf_Strings
begin

text \<open>
  The operations the expression parser uses of the feeder, on the text that is left: what has been
  read and what is left make up the file. Each lemma is one operation; \<open>matched\<close> and \<open>table\<close>
  say on the text alone which operator the parser finds.
\<close>

section \<open>Where a parser stands\<close>

definition active_state :: "'e pst \<Rightarrow> bool" where
  "active_state s \<longleftrightarrow> \<not> d_expr (p_scf s) \<and> \<not> d_inactive (p_scf s) \<and> d_ret (p_scf s) = [] \<and> sf_file (p_feeder s) \<noteq> None"

text \<open>From \<open>s0\<close> on only the read position moved; \<open>pre\<close> is read, \<open>r\<close> is left.\<close>

definition stands :: "'e pst \<Rightarrow> string \<Rightarrow> string \<Rightarrow> 'e pst \<Rightarrow> bool" where
  "stands s0 pre r s \<longleftrightarrow>
     active_state s0 \<and> moved (p_scf s0) (p_scf s) \<and> p_errs s = p_errs s0 \<and> text_at (p_scf s) r
     \<and> sf_buf (p_feeder s0) = pre @ r"

lemma stands_fields:
  assumes "stands s0 pre r s"
  shows "\<not> d_expr (p_scf s)" "\<not> d_inactive (p_scf s)" "d_ret (p_scf s) = []" "sf_file (p_feeder s) \<noteq> None"
    "sf_buf (p_feeder s) = pre @ r" "sf_cur (p_feeder s) = length pre" "text_at (p_scf s) r"
proof -
  note f = moved_fields [of "p_scf s0" "p_scf s"]
  show 1: "\<not> d_expr (p_scf s)" "\<not> d_inactive (p_scf s)" "d_ret (p_scf s) = []" "sf_file (p_feeder s) \<noteq> None"
    "text_at (p_scf s) r" using assms f by (auto simp: stands_def active_state_def p_feeder_def)
  show b: "sf_buf (p_feeder s) = pre @ r" using assms f by (simp add: stands_def p_feeder_def sf_buf_def)
  then have "drop (sf_cur (p_feeder s)) (pre @ r) = r" "sf_cur (p_feeder s) \<le> length (pre @ r)"
    using 1(5) by (simp_all add: text_at_def sf_rest_def sf_inv_def p_feeder_def)
  then have "length (pre @ r) - sf_cur (p_feeder s) = length r" by (metis length_drop)
  with \<open>sf_cur (p_feeder s) \<le> _\<close> show "sf_cur (p_feeder s) = length pre" by simp
qed

lemma stands_move:
  assumes "stands s0 pre (w @ r) s" and "moved (p_scf s) (p_scf s')" and "text_at (p_scf s') r" and "p_errs s' = p_errs s"
  shows "stands s0 (pre @ w) r s'"
  using assms moved_trans [of "p_scf s0" "p_scf s" "p_scf s'"] by (simp add: stands_def)

lemmas stands_stay = stands_move [where w = "[]", simplified]

lemma stands_set:
  assumes "stands s0 pre (w @ r) s" and "sf_file sf = sf_file (p_feeder s)" and "sf_cur sf = sf_cur (p_feeder s) + length w"
  shows "stands s0 (pre @ w) r (p_set sf s)"
proof (rule stands_move [OF assms(1)])
  note f = stands_fields [OF assms(1)]
  show "moved (p_scf s) (p_scf (p_set sf s))" using assms(2) by (simp add: moved_def p_set_def p_feeder_def)
  have "sf_buf sf = pre @ w @ r" using f(5) assms(2) by (simp add: sf_buf_def)
  then show "text_at (p_scf (p_set sf s)) r" using f(6) assms(3) by (simp add: p_set_def text_at_def sf_inv_def sf_rest_def)
qed (simp add: p_set_def)

lemma stands_eof: "stands s0 pre r s \<Longrightarrow> p_Eof s \<longleftrightarrow> r = []"
  using stands_fields [of s0 pre r s] by (simp add: p_Eof_def dq_Eof_def p_feeder_def)

lemma stands_char: "stands s0 pre (c # r) s \<Longrightarrow> p_char s = c"
  using stands_fields [of s0 pre "c # r" s] by (simp add: p_char_def byte_at_def)

lemma stands_num: "stands s0 pre r s \<Longrightarrow> sf_IsNumChar (p_feeder s) \<longleftrightarrow> r \<noteq> [] \<and> is_dec (hd r)"
  using stands_fields [of s0 pre r s] by (cases r) (simp_all add: sf_IsNumChar_def)

section \<open>Reading\<close>

lemma p_rdI:
  assumes "rd f (p_scf s) = (x, d)" and "moved (p_scf s) d" and "text_at d r" and "stands s0 pre (w @ r) s"
  shows "\<exists>s'. p_rd f s = (x, s') \<and> stands s0 (pre @ w) r s'"
  using assms stands_move [OF assms(4), of "s\<lparr>p_scf := d\<rparr>"] by (simp add: p_rd_def)

text \<open>White space; a \<open>#\<close> behind it would be a directive.\<close>

definition no_hash :: "string \<Rightarrow> bool" where
  "no_hash t \<longleftrightarrow> t = [] \<or> hd t \<noteq> CHR ''#''"

lemma skip_stands:
  assumes "stands s0 pre r s" and "no_hash (ws_skip r)"
  shows "\<exists>s'. p_SkipWhite E look s = Some s' \<and> stands s0 (pre @ skipped r) (ws_skip r) s'"
proof -
  note f = stands_fields [OF assms(1)]
  from SkipWhite_active [OF f(7,1-3), of "pe_host E" look] assms(2) obtain d where
    d: "SkipWhite (pe_host E) look (p_scf s) = Some d" "moved (p_scf s) d" "text_at d (ws_skip r)"
    by (auto simp: no_hash_def)
  have "stands s0 pre (skipped r @ ws_skip r) s" using assms(1) by (simp add: skipped_append)
  from stands_move [OF this, of "s\<lparr>p_scf := d\<rparr>"] d show ?thesis by (simp add: p_SkipWhite_def)
qed

lemma symbol_stands:
  assumes "stands s0 pre (cs @ r) s"
  shows "\<exists>s'. p_CheckSymbol cs True s = (True, s') \<and> stands s0 (pre @ cs) r s'"
proof -
  from symbol_at [OF stands_fields(7) [OF assms]] obtain d where
    "rd (sf_CheckSymbol cs True) (p_scf s) = (True, d)" "moved (p_scf s) d" "text_at d r" by blast
  from p_rdI [OF this assms] show ?thesis by (simp add: p_CheckSymbol_def)
qed

lemma no_symbol_stands:
  assumes "stands s0 pre r s" and "take (length cs) r \<noteq> cs"
  shows "\<exists>s'. p_CheckSymbol cs b s = (False, s') \<and> stands s0 pre r s'"
proof -
  have "\<nexists>r'. r = cs @ r'" using assms(2) by auto
  from no_symbol_at [OF stands_fields(7) [OF assms(1)] this] obtain d where
    "rd (sf_CheckSymbol cs b) (p_scf s) = (False, d)" "moved (p_scf s) d" "text_at d r" by blast
  from p_rdI [OF this, of s0 pre "[]"] assms(1) show ?thesis by (simp add: p_CheckSymbol_def)
qed

lemma peek_stands:
  assumes "stands s0 pre r s"
  shows "\<exists>s'. p_CheckSymbol cs False s = (take (length cs) r = cs, s') \<and> stands s0 pre r s'"
proof (cases "take (length cs) r = cs")
  case True
  then obtain r' where r: "r = cs @ r'" by (metis append_take_drop_id)
  note f = stands_fields [OF assms]
  have i: "sf_inv (d_sf (p_scf s))" "sf_rest (d_sf (p_scf s)) = r" using f(7) by (simp_all add: text_at_def)
  from CheckSymbol_rest [OF i(1) prod.collapse [symmetric], of cs False] i(2) r have
    "fst (sf_CheckSymbol cs False (d_sf (p_scf s)))" "sf_same (d_sf (p_scf s)) (snd (sf_CheckSymbol cs False (d_sf (p_scf s))))"
    "sf_rest (snd (sf_CheckSymbol cs False (d_sf (p_scf s)))) = r" by auto
  then obtain d where "rd (sf_CheckSymbol cs False) (p_scf s) = (True, d)" "moved (p_scf s) d" "text_at d r"
    using rdI [of "sf_CheckSymbol cs False" "p_scf s" True r] by auto
  from p_rdI [OF this, of s0 pre "[]"] assms True show ?thesis by (simp add: p_CheckSymbol_def)
qed (use no_symbol_stands [OF assms] in auto)

text \<open>Before a keyword there is no character of a name.\<close>

definition clean :: "string \<Rightarrow> bool" where
  "clean pre \<longleftrightarrow> pre = [] \<or> \<not> id_char (last pre)"

definition word_at :: "string \<Rightarrow> string \<Rightarrow> bool" where
  "word_at cs r \<longleftrightarrow> take (length cs) r = cs \<and> id_ends (drop (length cs) r)"

lemma id_char_eq: "is_identifier_char c \<longleftrightarrow> id_char c"
  by (auto simp: is_identifier_char_def is_alpha_under_def is_dec_def)

lemma keyword_stands:
  assumes "stands s0 pre r s" and "clean pre \<or> \<not> word_at cs r"
  shows "\<exists>s'. p_CheckKeyword cs s = Some (word_at cs r, s')
    \<and> stands s0 (if word_at cs r then pre @ cs else pre) (if word_at cs r then drop (length cs) r else r) s'"
proof -
  note f = stands_fields [OF assms(1)]
  let ?sf = "p_feeder s"
  have prev: "sf_cur ?sf > 0 \<and> is_identifier_char (sf_buf ?sf ! (sf_cur ?sf - 1)) \<longleftrightarrow> \<not> clean pre"
    using f(5,6) by (auto simp: clean_def id_char_eq last_conv_nth nth_append)
  have nxt: "(sf_end ?sf - sf_cur ?sf > length cs \<and> is_identifier_char (sf_buf ?sf ! (sf_cur ?sf + length cs)))
      \<longleftrightarrow> \<not> id_ends (drop (length cs) r)"
    using f(5,6) by (auto simp: id_ends_def id_char_eq nth_append hd_drop_conv_nth)
  have i: "sf_inv ?sf" "sf_rest ?sf = r" using f(7) by (simp_all add: text_at_def p_feeder_def)
  let ?c = "sf_CheckSymbol cs True ?sf"
  from CheckSymbol_rest [OF i(1) prod.collapse [symmetric], of cs True] i(2) have
    c: "fst ?c \<longleftrightarrow> take (length cs) r = cs" "sf_same ?sf (snd ?c)" "sf_rest (snd ?c) = (if fst ?c then drop (length cs) r else r)"
    by (auto, metis append_eq_conv_conj append_take_drop_id)
  have eq: "sf_CheckKeyword cs True ?sf = Some (if clean pre \<and> id_ends (drop (length cs) r) then ?c else (False, ?sf))"
    using f(4) prev nxt by (auto simp: sf_CheckKeyword_def Let_def)
  show ?thesis
  proof (cases "clean pre \<and> id_ends (drop (length cs) r)")
    case False
    then have "\<not> word_at cs r" using assms(2) by (auto simp: word_at_def)
    then show ?thesis using eq assms(1) False by (simp add: p_CheckKeyword_def p_set_def p_feeder_def)
  next
    case True
    have m: "moved (p_scf s) (p_scf (p_set (snd ?c) s))" using c(2) by (simp add: moved_def p_set_def p_feeder_def sf_same_def)
    have t: "text_at (p_scf (p_set (snd ?c) s)) (if fst ?c then drop (length cs) r else r)"
      using c(2,3) by (simp add: text_at_def p_set_def sf_same_def)
    have e: "p_errs (p_set (snd ?c) s) = p_errs s" by (simp add: p_set_def)
    have w: "word_at cs r \<longleftrightarrow> fst ?c" using True c(1) by (simp add: word_at_def)
    have "stands s0 (if fst ?c then pre @ cs else pre) (if fst ?c then drop (length cs) r else r) (p_set (snd ?c) s)"
    proof (cases "fst ?c")
      case True
      then have "stands s0 pre (cs @ drop (length cs) r) s" using assms(1) c(1) append_take_drop_id [of "length cs" r] by simp
      from stands_move [OF this m] t e True show ?thesis by simp
    qed (use stands_stay [OF assms(1) m] t e in simp)
    then show ?thesis using eq True w by (simp add: p_CheckKeyword_def case_prod_beta)
  qed
qed

lemma ident_stands:
  assumes "stands s0 pre (w @ r) s" and "ident w" and "id_ends r"
  shows "\<exists>s'. p_ReadIdentifier s = ((True, w), s') \<and> stands s0 (pre @ w) r s'"
proof -
  from ident_at [OF stands_fields(7) [OF assms(1)] assms(2,3), of "[]"] obtain d where
    "rd (sf_ReadIdentifier [] True) (p_scf s) = ((True, w), d)" "moved (p_scf s) d" "text_at d r" by blast
  from p_rdI [OF this assms(1)] show ?thesis by (simp add: p_ReadIdentifier_def)
qed

lemma number_stands:
  assumes "stands s0 pre (ds @ r) s" and "ds \<noteq> []" and "list_all is_dec ds" and "r = [] \<or> \<not> is_dec (hd r)"
    and "dec_value 0 ds < 2 ^ 63"
  shows "\<exists>sf. sf_ReadInt64Value 0 (p_feeder s) = Some ((True, dec_value 0 ds), sf) \<and> stands s0 (pre @ ds) r (p_set sf s)"
proof -
  note f = stands_fields [OF assms(1)]
  let ?sf = "p_feeder s"
  have "drop (sf_cur ?sf) (sf_buf ?sf) = ds @ r" using f(5,6) by simp
  from int64_loop_digits [OF this assms(3,4), of "sf_cur ?sf" 0 1 False] assms(2,5) have
    l: "int64_loop (sf_buf ?sf) (sf_cur ?sf) (sf_cur ?sf) 0 1 False = Some (sf_cur ?sf + length ds, dec_value 0 ds, 1, True)"
    by simp
  let ?sf' = "sf_consume (sf_cur ?sf + length ds) (?sf\<lparr>sf_prevpos := SaveCurPos ?sf, sf_prev := sf_cur ?sf, sf_prevlen := length ds\<rparr>)"
  have "sf_ReadInt64Value 0 ?sf = Some ((True, dec_value 0 ds), ?sf')"
    using l by (simp add: sf_ReadInt64Value_def Let_def)
  moreover have "stands s0 (pre @ ds) r (p_set ?sf' s)"
    using assms(1) by (rule stands_set) (simp_all add: sf_consume_def RecalcCurCol_def)
  ultimately show ?thesis by blast
qed

text \<open>Going back to where a cast was tried.\<close>

lemma back_stands:
  assumes "stands s0 pre r s" and "stands s0 pre' r' s1"
  shows "\<exists>s2. p_SetCurPos (SaveCurPos (p_feeder s)) s1 = Some s2 \<and> stands s0 pre r s2"
proof -
  note f = stands_fields [OF assms(1)] and f1 = stands_fields [OF assms(2)]
  have m: "moved (p_scf s0) (p_scf s)" "moved (p_scf s0) (p_scf s1)" "p_errs s1 = p_errs s0"
    using assms by (simp_all add: stands_def)
  have same: "sf_file (p_feeder s) = sf_file (p_feeder s1)"
    using moved_fields(8) [OF m(1)] moved_fields(8) [OF m(2)] by (simp add: p_feeder_def)
  let ?sf = "goto_pos (SaveCurPos (p_feeder s)) (p_feeder s1)"
  have g: "sf_file ?sf = sf_file (p_feeder s)" "sf_cur ?sf = sf_cur (p_feeder s)"
    by (simp_all add: goto_pos_def SaveCurPos_def SearchClStart_def split: option.split)
  have "p_SetCurPos (SaveCurPos (p_feeder s)) s1 = Some (p_set ?sf s1)"
    using f(4) by (simp add: p_SetCurPos_def SetCurPos_def SaveCurPos_def)
  moreover have "stands s0 pre r (p_set ?sf s1)"
  proof -
    have "moved (p_scf s1) (p_scf (p_set ?sf s1))" using g(1) same by (simp add: moved_def p_set_def p_feeder_def)
    then have "moved (p_scf s0) (p_scf (p_set ?sf s1))" by (rule moved_trans [OF m(2)])
    moreover have "text_at (p_scf (p_set ?sf s1)) r"
      using f(5-7) g by (simp add: text_at_def p_set_def sf_inv_def sf_rest_def sf_buf_def p_feeder_def)
    ultimately show ?thesis using assms m(3) by (simp add: stands_def p_set_def)
  qed
  ultimately show ?thesis by blast
qed

section \<open>Tables of operators\<close>

definition op_match :: "string \<Rightarrow> string \<Rightarrow> bool" where
  "op_match cs r \<longleftrightarrow> (if is_word cs then word_at cs r else take (length cs) r = cs)"

lemma find_op_stands:
  assumes "stands s0 pre r s" and "clean pre \<or> (\<forall>(cs, _) \<in> set ops. \<not> word_at cs r)"
  shows "\<exists>s'. find_op ops s = Some (map_option snd (List.find (\<lambda>(cs, _). op_match cs r) ops), s') \<and>
    (case List.find (\<lambda>(cs, _). op_match cs r) ops of
       None \<Rightarrow> stands s0 pre r s' | Some (cs, _) \<Rightarrow> stands s0 (pre @ cs) (drop (length cs) r) s')"
  using assms
proof (induction ops arbitrary: s)
  case (Cons a ops)
  obtain cs op where a: "a = (cs, op)" by (cases a)
  have kw: "clean pre \<or> \<not> word_at cs r" and kws: "clean pre \<or> (\<forall>(cs, _) \<in> set ops. \<not> word_at cs r)"
    using Cons.prems(2) by (auto simp: a)
  have step: "\<exists>s'. (if is_word cs then p_CheckKeyword cs s else Some (p_CheckSymbol cs True s)) = Some (op_match cs r, s')
      \<and> stands s0 (if op_match cs r then pre @ cs else pre) (if op_match cs r then drop (length cs) r else r) s'"
  proof (cases "is_word cs")
    case True
    with keyword_stands [OF Cons.prems(1) kw] show ?thesis by (simp add: op_match_def)
  next
    case False
    show ?thesis
    proof (cases "take (length cs) r = cs")
      case True
      then have "stands s0 pre (cs @ drop (length cs) r) s" using Cons.prems(1) append_take_drop_id [of "length cs" r] by simp
      from symbol_stands [OF this] False True show ?thesis by (auto simp: op_match_def)
    next
      case no: False
      from no_symbol_stands [OF Cons.prems(1) no] False no show ?thesis by (auto simp: op_match_def)
    qed
  qed
  then obtain s1 where s1: "(if is_word cs then p_CheckKeyword cs s else Some (p_CheckSymbol cs True s)) = Some (op_match cs r, s1)"
    "stands s0 (if op_match cs r then pre @ cs else pre) (if op_match cs r then drop (length cs) r else r) s1" by blast
  show ?case
  proof (cases "op_match cs r")
    case True
    with s1 show ?thesis by (simp add: a)
  next
    case False
    with s1 Cons.IH [OF _ kws, of s1] show ?thesis by (simp add: a)
  qed
qed simp

lemma first_symbol_stands:
  assumes "stands s0 pre r s"
  shows "\<exists>s'. first_symbol ops consume s = (map_option snd (List.find (\<lambda>(cs, _). take (length cs) r = cs) ops), s') \<and>
    (case List.find (\<lambda>(cs, _). take (length cs) r = cs) ops of
       None \<Rightarrow> stands s0 pre r s'
     | Some (cs, _) \<Rightarrow> if consume then stands s0 (pre @ cs) (drop (length cs) r) s' else stands s0 pre r s')"
  using assms
proof (induction ops arbitrary: s)
  case (Cons a ops)
  obtain cs op where a: "a = (cs, op)" by (cases a)
  show ?case
  proof (cases "take (length cs) r = cs")
    case True
    then have "stands s0 pre (cs @ drop (length cs) r) s" using Cons.prems append_take_drop_id [of "length cs" r] by simp
    from symbol_stands [OF this] peek_stands [OF Cons.prems, of cs] True show ?thesis by (cases consume) (auto simp: a)
  next
    case False
    from no_symbol_stands [OF Cons.prems False, of consume] obtain s1 where
      "p_CheckSymbol cs consume s = (False, s1)" "stands s0 pre r s1" by blast
    with Cons.IH [of s1] False show ?thesis by (simp add: a)
  qed
qed simp

lemma any_symbol_stands:
  assumes "stands s0 pre r s"
  shows "\<exists>s'. any_symbol css s = (\<exists>cs \<in> set css. take (length cs) r = cs, s') \<and> stands s0 pre r s'"
  using assms
proof (induction css arbitrary: s)
  case (Cons cs css)
  from peek_stands [OF Cons.prems, of cs] obtain s1 where
    s1: "p_CheckSymbol cs False s = (take (length cs) r = cs, s1)" "stands s0 pre r s1" by blast
  show ?case
  proof (cases "take (length cs) r = cs")
    case False
    with s1 Cons.IH [OF s1(2)] show ?thesis by auto
  qed (use s1 in auto)
qed simp

section \<open>White space between tokens\<close>

fun no_close :: "string \<Rightarrow> bool" where
  "no_close (c # d # u) \<longleftrightarrow> \<not> (c = CHR ''*'' \<and> d = CHR ''/'') \<and> no_close (d # u)"
| "no_close u \<longleftrightarrow> True"

inductive white :: "string \<Rightarrow> bool" where
  white_Nil: "white []"
| white_blank: "is_blank True c \<Longrightarrow> white w \<Longrightarrow> white (c # w)"
| white_line: "list_all not_nl u \<Longrightarrow> white w \<Longrightarrow> white (''//'' @ u @ LF # w)"
| white_block: "no_close u \<Longrightarrow> white w \<Longrightarrow> white (''/*'' @ u @ ''*/'' @ w)"

text \<open>White space that separates: it starts with a blank.\<close>

definition sep :: "string \<Rightarrow> bool" where
  "sep w \<longleftrightarrow> white w \<and> w \<noteq> [] \<and> is_blank True (hd w)"

lemma after_comment_close: "no_close u \<Longrightarrow> after_comment (u @ ''*/'' @ w) = w"
proof (induction u rule: no_close.induct)
  case (1 c d u)
  then show ?case by (auto split: if_splits)
qed simp_all

lemma ws_skip_white: "white w \<Longrightarrow> ws_skip (w @ r) = ws_skip r"
proof (induction rule: white.induct)
  case (white_line u w)
  then have "dropWhile not_nl (u @ LF # w @ r) = LF # w @ r" by (induction u) auto
  with white_line show ?case by (simp add: is_blank_def)
next
  case (white_block u w)
  then show ?case using after_comment_close [of u "w @ r"] by simp
qed simp_all

lemma skipped_white: "white w \<Longrightarrow> ws_skip r = r \<Longrightarrow> skipped (w @ r) = w"
  by (rule skippedI) (simp add: ws_skip_white)

lemma white_last: "white w \<Longrightarrow> w \<noteq> [] \<Longrightarrow> \<not> id_char (last w)"
proof (induction rule: white.induct)
  case (white_blank c w)
  then show ?case by (cases "w = []") (auto simp: is_blank_def is_alpha_under_def is_dec_def less_eq_char_def)
next
  case (white_line u w)
  then show ?case by (cases "w = []") (auto simp: is_alpha_under_def is_dec_def less_eq_char_def)
next
  case (white_block u w)
  then show ?case by (cases "w = []") (auto simp: is_alpha_under_def is_dec_def less_eq_char_def)
qed simp

lemma clean_white: "clean pre \<Longrightarrow> white w \<Longrightarrow> clean (pre @ w)"
  using white_last [of w] by (cases "w = []") (auto simp: clean_def)

lemma clean_sep: "sep w \<Longrightarrow> clean (pre @ w)"
  using white_last [of w] by (auto simp: clean_def sep_def)

end
