(* ===== verification/Parse_Grammar.thy ===== *)
theory Parse_Grammar
  imports Parse_Text
begin

text \<open>
  The expression grammar of the language reference: surface expressions, the texts that render them
  by level of binding, with any white space the grammar allows, and the typed tree a surface
  expression stands for.
\<close>

section \<open>Operators\<close>

datatype tok = TkOr | TkAnd | TkCmp cmpop | TkBin binop

definition tok_text :: "tok \<Rightarrow> string" where
  "tok_text k = (case k of TkOr \<Rightarrow> ''or'' | TkAnd \<Rightarrow> ''and'' | TkCmp op \<Rightarrow> GetCompareSymbol op | TkBin op \<Rightarrow> GetBinopSymbol op)"

text \<open>The levels of the table of precedence, from the loosest on; 2 is \<open>not\<close>, 10 unary, 11 an operand.\<close>

definition bin_level :: "binop \<Rightarrow> nat" where
  "bin_level op = (case op of
     BINOP_ADD \<Rightarrow> 4 | BINOP_SUB \<Rightarrow> 4 | BINOP_MUL \<Rightarrow> 5
   | BINOP_DIV \<Rightarrow> 6 | BINOP_IDIV \<Rightarrow> 6 | BINOP_IREM \<Rightarrow> 6 | BINOP_IMOD \<Rightarrow> 6
   | BINOP_IOR \<Rightarrow> 7 | BINOP_IXOR \<Rightarrow> 7 | BINOP_IAND \<Rightarrow> 8 | BINOP_ISHL \<Rightarrow> 9 | BINOP_ISHR \<Rightarrow> 9)"

definition tok_level :: "tok \<Rightarrow> nat" where
  "tok_level k = (case k of TkOr \<Rightarrow> 0 | TkAnd \<Rightarrow> 1 | TkCmp _ \<Rightarrow> 3 | TkBin op \<Rightarrow> bin_level op)"

definition op_words :: "string list" where
  "op_words = [''or'', ''and'', ''is'', ''as'', ''div'', ''rem'', ''mod'', ''xor'']"

section \<open>Names\<close>

text \<open>A name where a type is looked for: \<open>func\<close> starts a function type.\<close>

definition type_name :: "string \<Rightarrow> bool" where
  "type_name w \<longleftrightarrow> ident w \<and> w \<noteq> ''autofree'' \<and> w \<noteq> ''type'' \<and> w \<noteq> ''not'' \<and> take 4 w \<noteq> ''func''"

text \<open>A name of a variable, not one that starts with a literal's name.\<close>

definition plain_name :: "string \<Rightarrow> bool" where
  "plain_name w \<longleftrightarrow> type_name w \<and> take 4 w \<noteq> ''true'' \<and> take 5 w \<noteq> ''false'' \<and> take 3 w \<noteq> ''nil''
     \<and> w \<notin> set (other_builtins @ op_words @ [''iif'', ''Iif'', ''Round'', ''Ceil'', ''Floor'', ''Trunc'', ''Ord''])"

section \<open>Surface expressions\<close>

datatype sx =
    SxNum string
  | SxBool bool
  | SxName string
  | SxParen sx
  | SxCast string sx
  | SxNeg sx
  | SxBitNot sx
  | SxBin binop sx sx
  | SxCmp cmpop sx sx
  | SxNot sx
  | SxAnd sx sx
  | SxOr sx sx

definition bool_text :: "bool \<Rightarrow> string" where
  "bool_text b = (if b then ''true'' else ''false'')"

text \<open>\<open>renders l e t\<close>: \<open>t\<close> is a text of \<open>e\<close> as an expression of level \<open>l\<close>.\<close>

inductive renders :: "nat \<Rightarrow> sx \<Rightarrow> string \<Rightarrow> bool" where
  r_up: "renders (Suc l) e t \<Longrightarrow> l < 11 \<Longrightarrow> renders l e t"
| r_or: "renders 0 a t1 \<Longrightarrow> renders 1 b t2 \<Longrightarrow> sep w1 \<Longrightarrow> sep w2 \<Longrightarrow>
    renders 0 (SxOr a b) (t1 @ w1 @ tok_text TkOr @ w2 @ t2)"
| r_and: "renders 1 a t1 \<Longrightarrow> renders 2 b t2 \<Longrightarrow> sep w1 \<Longrightarrow> sep w2 \<Longrightarrow>
    renders 1 (SxAnd a b) (t1 @ w1 @ tok_text TkAnd @ w2 @ t2)"
| r_not: "renders 2 e t \<Longrightarrow> white w \<Longrightarrow> id_ends (w @ t) \<Longrightarrow> renders 2 (SxNot e) (''not'' @ w @ t)"
| r_cmp: "renders 4 a t1 \<Longrightarrow> renders 4 b t2 \<Longrightarrow> sep w1 \<Longrightarrow> sep w2 \<Longrightarrow>
    renders 3 (SxCmp op a b) (t1 @ w1 @ tok_text (TkCmp op) @ w2 @ t2)"
| r_bin: "renders l a t1 \<Longrightarrow> renders (Suc l) b t2 \<Longrightarrow> sep w1 \<Longrightarrow> sep w2 \<Longrightarrow> bin_level op = l \<Longrightarrow>
    renders l (SxBin op a b) (t1 @ w1 @ tok_text (TkBin op) @ w2 @ t2)"
| r_neg: "renders 10 e t \<Longrightarrow> white w \<Longrightarrow> renders 10 (SxNeg e) (''-'' @ w @ t)"
| r_bnot: "renders 10 e t \<Longrightarrow> white w \<Longrightarrow> renders 10 (SxBitNot e) (''~'' @ w @ t)"
| r_paren: "renders 0 e t \<Longrightarrow> white w1 \<Longrightarrow> white w2 \<Longrightarrow> renders 11 (SxParen e) (''('' @ w1 @ t @ w2 @ '')'')"
| r_cast: "renders 0 e t \<Longrightarrow> white w0 \<Longrightarrow> white w1 \<Longrightarrow> white w2 \<Longrightarrow> type_name ty \<Longrightarrow>
    renders 11 (SxCast ty e) (ty @ w0 @ ''('' @ w1 @ t @ w2 @ '')'')"
| r_num: "ds \<noteq> [] \<Longrightarrow> list_all is_dec ds \<Longrightarrow> renders 11 (SxNum ds) ds"
| r_bool: "renders 11 (SxBool b) (bool_text b)"
| r_name: "plain_name w \<Longrightarrow> renders 11 (SxName w) w"

text \<open>The tree of a surface expression; parentheses and the operand of a cast are folded on the way.\<close>

definition fold_in :: "('e, 'f) penv \<Rightarrow> 'f expr \<Rightarrow> 'f expr option" where
  "fold_in E = FoldTree (pe_target E) (pe_fpu E)"

definition no_error :: "builderr option \<times> 'f expr \<Rightarrow> 'f expr option" where
  "no_error r = (case r of (None, e) \<Rightarrow> Some e | _ \<Rightarrow> None)"

definition right_option :: "'a + 'b \<Rightarrow> 'b option" where
  "right_option r = (case r of Inl _ \<Rightarrow> None | Inr x \<Rightarrow> Some x)"

fun tree :: "('e, 'f) penv \<Rightarrow> sx \<Rightarrow> 'f expr option" where
  "tree E (SxNum ds) =
     (if dec_value 0 ds < 2 ^ 63 then Some (new_IntLit (pe_target E) (word_of_int (dec_value 0 ds))) else None)"
| "tree E (SxBool b) = (if pe_type E (bool_text b) = None then Some (OBoolLit b) else None)"
| "tree E (SxName w) =
     (case (pe_type E w, pe_val E w) of
        (None, Some (VsScalar ty c True)) \<Rightarrow> Some (OLValueVar w ty c)
      | _ \<Rightarrow> None)"
| "tree E (SxParen a) = Option.bind (tree E a) (fold_in E)"
| "tree E (SxCast ty a) =
     (case pe_type E ty of
        Some (TyScalar t) \<Rightarrow>
          Option.bind (Option.bind (tree E a) (fold_in E))
            (\<lambda>v. right_option (ConvertScalar (pe_target E) (pe_fpu E) True t v))
      | _ \<Rightarrow> None)"
| "tree E (SxNeg a) = Option.bind (tree E a) new_NegExpr"
| "tree E (SxBitNot a) = map_option (new_BinNotExpr (pe_target E)) (tree E a)"
| "tree E (SxBin op a b) =
     Option.bind (tree E a) (\<lambda>x. Option.bind (tree E b) (\<lambda>y. right_option (CreateBinExpr (pe_target E) op x y)))"
| "tree E (SxCmp op a b) =
     Option.bind (tree E a) (\<lambda>x. Option.bind (tree E b) (\<lambda>y.
       no_error (CreateCompareExpr (pe_target E) (pe_fpu E) op x y)))"
| "tree E (SxNot a) = Option.bind (tree E a) (\<lambda>x. no_error (create_not x))"
| "tree E (SxAnd a b) =
     Option.bind (tree E a) (\<lambda>x. Option.bind (tree E b) (\<lambda>y. no_error (CreateLogicalExpr LOGIOP_AND x y)))"
| "tree E (SxOr a b) =
     Option.bind (tree E a) (\<lambda>x. Option.bind (tree E b) (\<lambda>y. no_error (CreateLogicalExpr LOGIOP_OR x y)))"

section \<open>What stands behind an expression\<close>

text \<open>The text behind the white space does not continue an expression.\<close>

definition stops :: "string \<Rightarrow> bool" where
  "stops t \<longleftrightarrow> t = [] \<or> hd t \<in> set '';,)]}:'' \<or> (is_alpha_under (hd t) \<and> (\<forall>cs \<in> set op_words. \<not> word_at cs t))"

text \<open>Nor does the text right behind it continue its last word or number.\<close>

definition ends :: "string \<Rightarrow> bool" where
  "ends r \<longleftrightarrow> r = [] \<or> (\<not> id_char (hd r) \<and> hd r \<noteq> CHR ''.'')"

text \<open>Behind an operand of level \<open>l\<close>: the end of the expression, or an operator of a looser level.\<close>

definition operator_at :: "tok \<Rightarrow> string \<Rightarrow> bool" where
  "operator_at k t \<longleftrightarrow> (\<exists>c u. t = tok_text k @ c # u \<and> is_blank True c)"

definition follow :: "nat \<Rightarrow> string \<Rightarrow> bool" where
  "follow l r \<longleftrightarrow> (ends r \<and> stops (ws_skip r)) \<or> (\<exists>w k t. r = w @ t \<and> sep w \<and> operator_at k t \<and> tok_level k < l)"

end
