(* ===== verification/Parse_Sound.thy ===== *)
theory Parse_Sound
  imports Parse_Grammar
begin

text \<open>
  The expression parser against the grammar: the tables of operators on the text behind an operand,
  one lemma per level, and the parse of every rendering.
\<close>

section \<open>The text behind an operand\<close>

lemma blankE:
  assumes "is_blank True c"
  obtains "c = CHR '' ''" | "c = TAB" | "c = CR" | "c = LF"
  using assms by (auto simp: is_blank_def)

lemma blank_id: "is_blank True c \<Longrightarrow> \<not> id_char c"
  by (elim blankE) (simp_all add: is_alpha_under_def is_dec_def less_eq_char_def)

lemma alpha_simps: "is_alpha_under c \<longleftrightarrow> (65 \<le> char_nat c \<and> char_nat c \<le> 90) \<or> (97 \<le> char_nat c \<and> char_nat c \<le> 122) \<or> c = CHR ''_''"
  by (auto simp: is_alpha_under_def less_eq_char_def)

lemma take_hd: "cs \<noteq> [] \<Longrightarrow> t = [] \<or> hd t \<noteq> hd cs \<Longrightarrow> take (length cs) t \<noteq> cs"
  by (cases t; cases cs) auto

text \<open>A text that starts neither white space nor a directive.\<close>

definition token_start :: "string \<Rightarrow> bool" where
  "token_start t \<longleftrightarrow> t = [] \<or> (\<not> is_blank True (hd t) \<and> hd t \<noteq> CHR ''#'' \<and> take 2 t \<notin> {''//'', ''/*''})"

lemma token_startD:
  assumes "token_start t"
  shows "ws_skip t = t" "skipped t = []" "no_hash t"
proof -
  show 1: "ws_skip t = t"
  proof (cases t)
    case (Cons c u)
    with assms show ?thesis by (auto simp: token_start_def intro!: ws_skip_token)
  qed simp
  then show "skipped t = []" by (simp add: skipped_def)
  show "no_hash t" using assms by (auto simp: token_start_def no_hash_def)
qed

definition all_toks :: "tok list" where
  "all_toks = [TkOr, TkAnd, TkCmp COMPOP_EQ, TkCmp COMPOP_NE, TkCmp COMPOP_LT, TkCmp COMPOP_LE, TkCmp COMPOP_GT, TkCmp COMPOP_GE,
     TkBin BINOP_ADD, TkBin BINOP_SUB, TkBin BINOP_MUL, TkBin BINOP_DIV, TkBin BINOP_IDIV, TkBin BINOP_IREM, TkBin BINOP_IMOD,
     TkBin BINOP_IAND, TkBin BINOP_IOR, TkBin BINOP_IXOR, TkBin BINOP_ISHL, TkBin BINOP_ISHR]"

lemma all_toks: "k \<in> set all_toks"
proof (cases k)
  case (TkCmp op)
  then show ?thesis by (cases op) (simp_all add: all_toks_def)
next
  case (TkBin op)
  then show ?thesis by (cases op) (simp_all add: all_toks_def)
qed (simp_all add: all_toks_def)

text \<open>A fact of all operators is checked on their list.\<close>

lemma tokI: "list_all P all_toks \<Longrightarrow> P k"
  using all_toks [of k] by (auto simp: list_all_iff)

text \<open>The character behind an operator is not one of an operator, so the operator alone decides.\<close>

definition op_chars :: string where
  "op_chars = ''+-*/|&<>=%~(.[^ordivemxasn''"

lemma operatorE:
  assumes "operator_at k t"
  obtains c u where "t = tok_text k @ c # u" "\<not> id_char c" "c \<notin> set op_chars"
proof -
  from assms obtain c u where t: "t = tok_text k @ c # u" "is_blank True c" by (auto simp: operator_at_def)
  moreover have "c \<notin> set op_chars" using t(2) by (elim blankE) (simp_all add: op_chars_def)
  ultimately show ?thesis using that blank_id by blast
qed

lemma take_stop: "c \<notin> set cs \<Longrightarrow> take (length cs) (x @ c # u) = cs \<longleftrightarrow> take (length cs) x = cs"
proof (cases "length cs \<le> length x")
  case False
  assume c: "c \<notin> set cs"
  have "c \<in> set (take (length cs) (x @ c # u))" using False by (simp add: take_Cons')
  with c False show ?thesis by (metis append.right_neutral append_Nil2 in_set_takeD length_take min.absorb4 nle_le order.order_iff_strict take_all)
qed simp

lemma word_stop: "c \<notin> set cs \<Longrightarrow> \<not> id_char c \<Longrightarrow> word_at cs (x @ c # u) \<longleftrightarrow> word_at cs x"
  unfolding word_at_def take_stop
  by (cases "drop (length cs) x") (auto simp: id_ends_def)

lemma match_stop: "c \<notin> set cs \<Longrightarrow> \<not> id_char c \<Longrightarrow> op_match cs (x @ c # u) \<longleftrightarrow> op_match cs x"
  unfolding op_match_def using take_stop [of c cs x u] word_stop [of c cs x u] by presburger

lemma operator_token: "operator_at k t \<Longrightarrow> token_start t"
proof (elim operatorE)
  fix c u
  assume c: "c \<notin> set op_chars" and t: "t = tok_text k @ c # u"
  have k: "tok_text k \<noteq> [] \<and> \<not> is_blank True (hd (tok_text k)) \<and> hd (tok_text k) \<noteq> CHR ''#''
      \<and> take (length ''//'') (tok_text k) \<noteq> ''//'' \<and> take (length ''/*'') (tok_text k) \<noteq> ''/*''"
    by (rule tokI) code_simp
  with take_stop [of c "''//''" "tok_text k" u] take_stop [of c "''/*''" "tok_text k" u] c show ?thesis
    by (simp add: t token_start_def op_chars_def numeral_2_eq_2)
qed

lemma stops_char:
  assumes "stops t" and "t \<noteq> []"
  shows "hd t \<notin> set ''+-*/|&<>=%~(.[^#'' \<and> \<not> is_blank True (hd t)"
  using assms by (auto simp: stops_def alpha_simps is_blank_def)

lemma stops_token: "stops t \<Longrightarrow> token_start t"
  using stops_char [of t] by (cases t) (auto simp: token_start_def)

text \<open>What \<open>follow\<close> says of the text \<open>t\<close> behind the white space and of what is read before it.\<close>

lemma followE:
  assumes "follow l r"
  obtains (stop) "stops (ws_skip r)" | (oper) k where "operator_at k (ws_skip r)" "tok_level k < l" "clean (pre @ skipped r)"
proof -
  from assms consider "ends r \<and> stops (ws_skip r)"
    | w k t where "r = w @ t" "sep w" "operator_at k t" "tok_level k < l" by (auto simp: follow_def)
  then show thesis
  proof cases
    case 1
    then show ?thesis using stop by blast
  next
    case 2
    note t = token_startD [OF operator_token [OF 2(3)]]
    have w: "white w" using 2(2) by (simp add: sep_def)
    then have "ws_skip r = t" "skipped r = w" using 2(1) t(1) ws_skip_white skipped_white by auto
    with 2 clean_sep show ?thesis by (intro oper [of k]) auto
  qed
qed

lemma follow_token: "follow l r \<Longrightarrow> token_start (ws_skip r)"
  by (erule followE) (auto intro: stops_token operator_token)

lemmas follow_skip = token_startD [OF follow_token]

lemma follow_ends: "follow l r \<Longrightarrow> ends r"
proof -
  assume "follow l r"
  then consider "ends r" | w t where "r = w @ t" "sep w" by (auto simp: follow_def)
  then show ?thesis
  proof cases
    case 2
    then have "hd r = hd w" "is_blank True (hd w)" by (auto simp: sep_def)
    with blank_id [of "hd w"] show ?thesis by (auto simp: ends_def is_blank_def)
  qed
qed

lemma follow_mono: "follow l r \<Longrightarrow> l \<le> l' \<Longrightarrow> follow l' r"
  by (auto simp: follow_def dest: order.strict_trans2)

lemma follow_op: "sep w \<Longrightarrow> operator_at k t \<Longrightarrow> tok_level k < l \<Longrightarrow> follow l (w @ t)"
  by (auto simp: follow_def)

lemma follow_close: "white w \<Longrightarrow> follow l (w @ CHR '')'' # r)"
proof -
  assume w: "white w"
  have s: "stops (CHR '')'' # r)" by (simp add: stops_def)
  with token_startD(1) [OF stops_token [OF s]] have "stops (ws_skip (w @ CHR '')'' # r))" by (simp add: ws_skip_white [OF w])
  moreover have "ends (w @ CHR '')'' # r)"
  proof (cases w)
    case Nil
    then show ?thesis by (simp add: ends_def is_dec_def less_eq_char_def is_alpha_under_def)
  next
    case (Cons c u)
    from w Cons have "is_blank True c \<or> c = CHR ''/''" by cases auto
    with Cons blank_id [of c] show ?thesis by (auto simp: ends_def is_blank_def is_dec_def less_eq_char_def is_alpha_under_def)
  qed
  ultimately show ?thesis by (simp add: follow_def)
qed

section \<open>The tables of operators\<close>

definition level_ops :: "nat \<Rightarrow> (string \<times> binop) list" where
  "level_ops l =
     (if l = 4 then [(''+'', BINOP_ADD), (''-'', BINOP_SUB)]
      else if l = 5 then [(''*'', BINOP_MUL)]
      else if l = 6 then [(''/'', BINOP_DIV), (''div'', BINOP_IDIV), (''rem'', BINOP_IREM), (''mod'', BINOP_IMOD)]
      else if l = 7 then [(''|'', BINOP_IOR), (''xor'', BINOP_IXOR)]
      else if l = 8 then [(''&'', BINOP_IAND)]
      else [(''<<'', BINOP_ISHL), (''>>'', BINOP_ISHR)])"

abbreviation op_in :: "(string \<times> 'o) list \<Rightarrow> string \<Rightarrow> (string \<times> 'o) option" where
  "op_in ops t \<equiv> List.find (\<lambda>(cs, _). op_match cs t) ops"

abbreviation sym_in :: "(string \<times> 'o) list \<Rightarrow> string \<Rightarrow> (string \<times> 'o) option" where
  "sym_in ops t \<equiv> List.find (\<lambda>(cs, _). take (length cs) t = cs) ops"

lemma op_word_start: "cs \<in> set op_words \<Longrightarrow> cs \<noteq> [] \<and> hd cs \<notin> set '';,)]}:''"
  by (auto simp: op_words_def)

lemma stops_word: "stops t \<Longrightarrow> cs \<in> set op_words \<Longrightarrow> \<not> word_at cs t"
  using op_word_start [of cs] take_hd [of cs t] unfolding stops_def by (auto simp: word_at_def)

lemma stops_symbol: "stops t \<Longrightarrow> cs \<noteq> [] \<Longrightarrow> hd cs \<in> set ''+-*/|&<>=%~(.[^'' \<Longrightarrow> take (length cs) t \<noteq> cs"
  using stops_char [of t] by (intro take_hd) auto

text \<open>The symbols and words of operators on a text that starts with one, by cases on the operator.\<close>

lemma operator_word:
  assumes "operator_at k t"
  shows "\<forall>cs \<in> set op_words. word_at cs t \<longleftrightarrow> cs = tok_text k"
proof (rule ballI)
  fix cs
  assume cs: "cs \<in> set op_words"
  from assms obtain c u where t: "t = tok_text k @ c # u" "\<not> id_char c" "c \<notin> set op_chars" by (rule operatorE)
  have "list_all (\<lambda>cs. word_at cs (tok_text k) = (cs = tok_text k)) op_words" by (rule tokI) code_simp
  moreover have "c \<notin> set cs" using t(3) cs by (auto simp: op_words_def op_chars_def)
  ultimately show "word_at cs t \<longleftrightarrow> cs = tok_text k" using cs t word_stop [of c cs] by (simp add: list_all_iff)
qed

text \<open>The tables of the binary levels and of comparisons behind an operand.\<close>

definition symbol_ops :: "string list" where
  "symbol_ops = [''+'', ''-'', ''*'', ''/'', ''|'', ''&'', ''<<'', ''>>'', ''=='', ''<>'', ''<='', ''<'', ''>='', ''>'',
     ''<<='', ''>>='', ''.'', ''('', ''['', ''[['']"

lemma operator_match:
  assumes "operator_at k t" and "cs \<in> set (symbol_ops @ op_words @ assign_symbols)"
  shows "op_match cs t \<longleftrightarrow> op_match cs (tok_text k)" "take (length cs) t = cs \<longleftrightarrow> take (length cs) (tok_text k) = cs"
proof -
  from assms(1) obtain c u where t: "t = tok_text k @ c # u" "\<not> id_char c" "c \<notin> set op_chars" by (rule operatorE)
  have "c \<notin> set cs"
    using t(3) assms(2) by (auto simp: symbol_ops_def op_words_def assign_symbols_def op_chars_def)
  with t match_stop take_stop show "op_match cs t \<longleftrightarrow> op_match cs (tok_text k)"
    "take (length cs) t = cs \<longleftrightarrow> take (length cs) (tok_text k) = cs" by simp_all
qed

lemma stops_match:
  assumes "stops t" and "cs \<in> set (symbol_ops @ op_words @ assign_symbols)"
  shows "\<not> op_match cs t" "cs \<in> set (symbol_ops @ assign_symbols) \<Longrightarrow> take (length cs) t \<noteq> cs"
proof -
  have s: "take (length cs) t \<noteq> cs" if "cs \<in> set (symbol_ops @ assign_symbols)"
    using stops_symbol [OF assms(1), of cs] that by (auto simp: symbol_ops_def assign_symbols_def)
  have w: "is_word cs" if "cs \<in> set op_words" using that by (auto simp: op_words_def is_word_def less_eq_char_def)
  show "\<not> op_match cs t"
    using s w stops_word [OF assms(1), of cs] assms(2) by (cases "is_word cs") (auto simp: op_match_def word_at_def)
  show "cs \<in> set (symbol_ops @ assign_symbols) \<Longrightarrow> take (length cs) t \<noteq> cs" by (rule s)
qed

lemma find_cong': "(\<And>x. x \<in> set xs \<Longrightarrow> P x = Q x) \<Longrightarrow> List.find P xs = List.find Q xs"
  by (induction xs) auto

lemma level_ops_set: "(cs, op) \<in> set (level_ops l) \<Longrightarrow> cs \<in> set (symbol_ops @ op_words)"
  by (auto simp: level_ops_def symbol_ops_def op_words_def split: if_splits)

text \<open>A binary operator is found by its own level only.\<close>

lemma level_finds:
  assumes "operator_at k t" and "4 \<le> l" and "l \<le> 9"
  shows "op_in (level_ops l) t
    = (case k of TkBin op \<Rightarrow> if bin_level op = l then Some (tok_text k, op) else None | _ \<Rightarrow> None)"
proof -
  have "op_in (level_ops l) t = op_in (level_ops l) (tok_text k)"
    by (rule find_cong') (use operator_match(1) [OF assms(1)] level_ops_set in fastforce)
  moreover have "list_all (\<lambda>l. op_in (level_ops l) (tok_text k)
      = (case k of TkBin op \<Rightarrow> if bin_level op = l then Some (tok_text k, op) else None | _ \<Rightarrow> None)) [4, 5, 6, 7, 8, 9]"
    by (rule tokI) code_simp
  moreover have "l \<in> set [4, 5, 6, 7, 8, 9]" using assms(2,3) by auto
  ultimately show ?thesis by (auto simp: list_all_iff)
qed

lemma level_stops: "stops t \<Longrightarrow> op_in (level_ops l) t = None"
  using stops_match(1) [of t] level_ops_set by (fastforce simp: find_None_iff)

lemma assign_none:
  assumes "follow l r"
  shows "\<not> (\<exists>cs \<in> set assign_symbols. take (length cs) (ws_skip r) = cs)"
  using assms
proof (cases rule: followE [where pre = "[]"])
  case stop
  then show ?thesis using stops_match(2) by auto
next
  case (oper k)
  have "list_all (\<lambda>cs. take (length cs) (tok_text k) \<noteq> cs) assign_symbols" by (rule tokI) code_simp
  with operator_match(2) [OF oper(1)] show ?thesis by (fastforce simp: list_all_iff)
qed

definition compare_ops :: "(string \<times> cmpop) list" where
  "compare_ops = [(''=='', COMPOP_EQ), (''<>'', COMPOP_NE), (''<='', COMPOP_LE), (''<'', COMPOP_LT), (''>='', COMPOP_GE), (''>'', COMPOP_GT)]"

lemma compare_finds:
  assumes "operator_at k t" and "tok_level k < 4"
  shows "sym_in compare_ops t = (case k of TkCmp op \<Rightarrow> Some (tok_text k, op) | _ \<Rightarrow> None)"
    and "take (length ''<<='') t \<noteq> ''<<=''" and "take (length ''>>='') t \<noteq> ''>>=''"
proof -
  have "sym_in compare_ops t = sym_in compare_ops (tok_text k)"
    by (rule find_cong') (use operator_match(2) [OF assms(1)] in \<open>fastforce simp: compare_ops_def symbol_ops_def\<close>)
  moreover have "tok_level k < 4 \<longrightarrow> sym_in compare_ops (tok_text k) = (case k of TkCmp op \<Rightarrow> Some (tok_text k, op) | _ \<Rightarrow> None)"
    by (rule tokI) code_simp
  ultimately show "sym_in compare_ops t = (case k of TkCmp op \<Rightarrow> Some (tok_text k, op) | _ \<Rightarrow> None)" using assms(2) by simp
  have "take (length ''<<='') (tok_text k) \<noteq> ''<<='' \<and> take (length ''>>='') (tok_text k) \<noteq> ''>>=''" by (rule tokI) code_simp
  then show "take (length ''<<='') t \<noteq> ''<<=''" "take (length ''>>='') t \<noteq> ''>>=''"
    using operator_match(2) [OF assms(1), of "''<<=''"] operator_match(2) [OF assms(1), of "''>>=''"]
    by (simp_all add: assign_symbols_def)
qed

lemma compare_stops: "stops t \<Longrightarrow> sym_in compare_ops t = None"
  using stops_match(2) [of t] by (fastforce simp: find_None_iff compare_ops_def symbol_ops_def)

section \<open>Levels of the parser\<close>

definition code_of :: "nat \<Rightarrow> 'f pcode" where
  "code_of l = [PcOr, PcAnd, PcNot, PcComparison, PcAdd, PcMul, PcDiv, PcBinOr, PcBinAnd, PcShift, PcUnary, PcPostfix] ! l"

definition loop_of :: "nat \<Rightarrow> 'f expr \<Rightarrow> 'f pcode" where
  "loop_of l v = (if l = 0 then PcOrLoop v else if l = 1 then PcAndLoop v else PcBinLoop (code_of (Suc l)) (level_ops l) v)"

definition chain_level :: "nat \<Rightarrow> bool" where
  "chain_level l \<longleftrightarrow> l \<in> {0, 1, 4, 5, 6, 7, 8, 9}"

lemma code_of_simps [simp]:
  "code_of 0 = PcOr" "code_of (Suc 0) = PcAnd" "code_of 2 = PcNot" "code_of 3 = PcComparison" "code_of 4 = PcAdd"
  "code_of 5 = PcMul" "code_of 6 = PcDiv" "code_of 7 = PcBinOr" "code_of 8 = PcBinAnd" "code_of 9 = PcShift"
  "code_of 10 = PcUnary" "code_of 11 = PcPostfix"
  by (simp_all add: code_of_def)

text \<open>
  \<open>parses\<close>: the parser of a level, started anywhere before a text that renders an operand of that level, returns its
  tree, with enough fuel, and stands behind the white space that follows. \<open>chains\<close>: where operators
  of the level itself follow, it comes to its loop with that tree. A name must not start right
  behind the characters of another.
\<close>

definition bound :: "string \<Rightarrow> string \<Rightarrow> bool" where
  "bound pre t \<longleftrightarrow> clean pre \<or> \<not> id_char (hd t)"

definition parses :: "('e, 'f) penv \<Rightarrow> nat \<Rightarrow> string \<Rightarrow> 'f expr \<Rightarrow> bool" where
  "parses E l t v \<longleftrightarrow> (\<forall>s0 pre w rest s. stands s0 pre (w @ t @ rest) s \<longrightarrow> bound (pre @ w) t \<longrightarrow> white w \<longrightarrow> follow l rest \<longrightarrow>
     (\<exists>N s'. (\<forall>n\<ge>N. parse n E (code_of l) s = Some (Some v, s')) \<and> stands s0 (pre @ w @ t @ skipped rest) (ws_skip rest) s'))"

definition chains :: "('e, 'f) penv \<Rightarrow> nat \<Rightarrow> string \<Rightarrow> 'f expr \<Rightarrow> bool" where
  "chains E l t v \<longleftrightarrow> (\<forall>s0 pre w rest s. stands s0 pre (w @ t @ rest) s \<longrightarrow> bound (pre @ w) t \<longrightarrow> white w \<longrightarrow> follow (Suc l) rest \<longrightarrow>
     (\<exists>N k s'. (\<forall>n\<ge>N. parse (n + k) E (code_of l) s = parse n E (loop_of l v) s')
       \<and> stands s0 (pre @ w @ t @ skipped rest) (ws_skip rest) s'))"

lemma parsesE:
  fixes E :: "('e, 'f) penv"
  assumes "parses E l t v" and "stands s0 pre (w @ t @ rest) s" and "bound (pre @ w) t" and "white w" and "follow l rest"
  obtains N s' where "\<And>n. N \<le> n \<Longrightarrow> parse n E (code_of l) s = Some (Some v, s')"
    "stands s0 (pre @ w @ t @ skipped rest) (ws_skip rest) s'"
  using assms unfolding parses_def by blast

lemma chainsE:
  fixes E :: "('e, 'f) penv"
  assumes "chains E l t v" and "stands s0 pre (w @ t @ rest) s" and "bound (pre @ w) t" and "white w" and "follow (Suc l) rest"
  obtains N k s' where "\<And>n. N \<le> n \<Longrightarrow> parse (n + k) E (code_of l) s = parse n E (loop_of l v) s'"
    "stands s0 (pre @ w @ t @ skipped rest) (ws_skip rest) s'"
  using assms unfolding chains_def by blast

lemma parse_Suc_at: "Suc N \<le> n \<Longrightarrow> (\<And>m. N \<le> m \<Longrightarrow> parse (Suc m) E c s = r) \<Longrightarrow> parse n E c s = r"
  by (cases n) auto

lemma nonnull_simps [simp]:
  "nonnull (Some (Some e, s)) f = f e s" "nonnull (Some (None, s)) f = Some (None, s)" "nonnull None f = None"
  by (simp_all add: nonnull_def)

text \<open>At the start of an operand.\<close>

lemma skip_to:
  assumes "stands s0 pre (w @ t @ rest) s" and "white w" and "token_start (t @ rest)"
  shows "\<exists>s'. p_SkipWhite E look s = Some s' \<and> stands s0 (pre @ w) (t @ rest) s'"
proof -
  note t = token_startD [OF assms(3)]
  have "ws_skip (w @ t @ rest) = t @ rest" "skipped (w @ t @ rest) = w"
    using ws_skip_white [OF assms(2)] skipped_white [OF assms(2)] t(1) by simp_all
  with skip_stands [OF assms(1), of E look] t(3) show ?thesis by simp
qed

text \<open>Behind an operand, where the white space has been skipped already.\<close>

lemma skip_again:
  assumes "stands s0 pre (ws_skip rest) s" and "follow l rest"
  shows "\<exists>s'. p_SkipWhite E look s = Some s' \<and> stands s0 pre (ws_skip rest) s'"
  using skip_to [of s0 pre "[]" "ws_skip rest" "[]" s E look] assms follow_token [OF assms(2)] by (simp add: white_Nil)

lemma eof_or_not: "stands s0 pre r s \<Longrightarrow> p_Eof s \<Longrightarrow> r = []"
  by (simp add: stands_eof)

lemma binop_ops_stop:
  assumes "stands s0 (pre @ skipped rest) (ws_skip rest) s" and "follow l rest" and "4 \<le> l" and "l \<le> 9"
  shows "\<exists>s'. (\<forall>rec. binop_loop E rec nxt (level_ops l) v s = Some (Some v, s')) \<and> stands s0 (pre @ skipped rest) (ws_skip rest) s'"
proof (cases "p_Eof s")
  case True
  with assms(1) show ?thesis by (auto simp: binop_loop_def)
next
  case False
  from skip_again [OF assms(1,2), of E True] obtain s1 where
    s1: "p_SkipWhite E True s = Some s1" "stands s0 (pre @ skipped rest) (ws_skip rest) s1" by blast
  from any_symbol_stands [OF s1(2), of assign_symbols] assign_none [OF assms(2)] obtain s2 where
    s2: "any_symbol assign_symbols s1 = (False, s2)" "stands s0 (pre @ skipped rest) (ws_skip rest) s2" by auto
  have none: "op_in (level_ops l) (ws_skip rest) = None
      \<and> (clean (pre @ skipped rest) \<or> (\<forall>(cs, _) \<in> set (level_ops l). \<not> word_at cs (ws_skip rest)))"
    using assms(2)
  proof (cases rule: followE [where pre = pre])
    case stop
    have "\<not> word_at cs (ws_skip rest)" if "(cs, op) \<in> set (level_ops l)" for cs op
    proof
      assume "word_at cs (ws_skip rest)"
      then have "take (length cs) (ws_skip rest) = cs" by (simp add: word_at_def)
      moreover have "cs \<in> set (symbol_ops @ op_words)" using that by (rule level_ops_set)
      ultimately show False using stops_match(2) [OF stop, of cs] stops_word [OF stop, of cs] \<open>word_at cs _\<close> by auto
    qed
    then show ?thesis using level_stops [OF stop] by auto
  next
    case (oper k)
    with level_finds [OF oper(1) assms(3,4)] show ?thesis by (auto split: tok.split simp: tok_level_def)
  qed
  with find_op_stands [OF s2(2), of "level_ops l"] obtain s3 where
    "find_op (level_ops l) s2 = Some (None, s3)" "stands s0 (pre @ skipped rest) (ws_skip rest) s3" by auto
  with False s1(1) s2(1) show ?thesis by (simp add: binop_loop_def)
qed

text \<open>The loop at an operator of its level.\<close>

lemma binop_ops_step:
  assumes "stands s0 pre t s" and "operator_at (TkBin op) t" and "clean pre" and "bin_level op = l"
  shows "\<exists>s'. stands s0 (pre @ tok_text (TkBin op)) (drop (length (tok_text (TkBin op))) t) s'
    \<and> (\<forall>rec. binop_loop E rec nxt (level_ops l) v s
      = nonnull (rec nxt s') (\<lambda>right s4.
          case CreateBinExpr (pe_target E) op v right of
            Inl err \<Rightarrow> if err = NullType then None else Some (None, p_Error (PeBuild err) s4)
          | Inr e \<Rightarrow> rec (PcBinLoop nxt (level_ops l) e) s4))"
proof -
  have l: "4 \<le> l" "l \<le> 9" using assms(4) by (auto simp: bin_level_def split: binop.splits)
  note tt = token_startD [OF operator_token [OF assms(2)]]
  have f: "follow (Suc (tok_level (TkBin op))) (CHR '' '' # t)"
    using follow_op [of "'' ''" "TkBin op" t] assms(2) by (simp add: sep_def white.intros is_blank_def)
  from assms(2) obtain c u where cu: "t = tok_text (TkBin op) @ c # u" by (auto simp: operator_at_def)
  have ne: "\<not> p_Eof s" using stands_eof [OF assms(1)] by (simp add: cu)
  from skip_to [of s0 pre "[]" t "[]" s E True] assms(1) operator_token [OF assms(2)] obtain s1 where
    s1: "p_SkipWhite E True s = Some s1" "stands s0 pre t s1" by (auto simp: white_Nil)
  have "ws_skip (CHR '' '' # t) = t" using tt(1) by (simp add: is_blank_def)
  with any_symbol_stands [OF s1(2), of assign_symbols] assign_none [OF f] obtain s2 where
    s2: "any_symbol assign_symbols s1 = (False, s2)" "stands s0 pre t s2" by auto
  from find_op_stands [OF s2(2), of "level_ops l"] assms(3,4) level_finds [OF assms(2) l] obtain s3 where
    s3: "find_op (level_ops l) s2 = Some (Some op, s3)"
      "stands s0 (pre @ tok_text (TkBin op)) (drop (length (tok_text (TkBin op))) t) s3" by auto
  with ne s1(1) s2(1) show ?thesis by (auto simp: binop_loop_def)
qed

lemma level_cases: "4 \<le> l \<Longrightarrow> l \<le> 9 \<Longrightarrow> l = 4 \<or> l = 5 \<or> l = 6 \<or> l = 7 \<or> l = 8 \<or> l = (9::nat)"
  by auto

lemma parse_level:
  assumes "4 \<le> l" and "l \<le> 9"
  shows "parse (Suc n) E (code_of l) s = ParseBinOpLevel E (parse n E) (code_of (Suc l)) (level_ops l) s"
  using level_cases [OF assms]
  by (elim disjE) (simp_all add: level_ops_def ParseExprAdd_def ParseExprMul_def ParseExprDiv_def ParseExprBinOr_def
    ParseExprBinAnd_def ParseExprShift_def eval_nat_numeral code_of_def)

lemma loop_of_bin: "4 \<le> l \<Longrightarrow> loop_of l v = PcBinLoop (code_of (Suc l)) (level_ops l) v"
  by (simp add: loop_of_def)

lemma chains_up:
  assumes "parses E (Suc l) t v" and "chain_level l" and "\<And>r. token_start (t @ r)"
  shows "chains E l t v"
  unfolding chains_def
proof (intro allI impI)
  fix s0 s :: "'a pst" and pre w rest
  assume a: "stands s0 pre (w @ t @ rest) s" "bound (pre @ w) t" "white w" "follow (Suc l) rest"
  show "\<exists>N k s'. (\<forall>n\<ge>N. parse (n + k) E (code_of l) s = parse n E (loop_of l v) s')
       \<and> stands s0 (pre @ w @ t @ skipped rest) (ws_skip rest) s'"
  proof (cases "4 \<le> l")
    case False
    then have l: "l = 0 \<or> l = 1" using assms(2) by (auto simp: chain_level_def)
    from parsesE [OF assms(1) a] obtain N s' where
      s': "\<And>n. N \<le> n \<Longrightarrow> parse n E (code_of (Suc l)) s = Some (Some v, s')"
        "stands s0 (pre @ w @ t @ skipped rest) (ws_skip rest) s'" by blast
    have "\<forall>n\<ge>N. parse (n + 1) E (code_of l) s = parse n E (loop_of l v) s'"
      using s'(1) l by (auto simp: ParseExprOr_def ParseExprAnd_def loop_of_def numeral_2_eq_2 [symmetric])
    with s'(2) show ?thesis by blast
  next
    case True
    then have l: "4 \<le> l" "l \<le> 9" using assms(2) by (auto simp: chain_level_def)
    from skip_to [OF a(1,3) assms(3), of E False] obtain s1 where
      s1: "p_SkipWhite E False s = Some s1" "stands s0 (pre @ w) ([] @ t @ rest) s1" by auto
    from parsesE [OF assms(1) s1(2) _ white_Nil a(4)] a(2) obtain N s' where
      s': "\<And>n. N \<le> n \<Longrightarrow> parse n E (code_of (Suc l)) s1 = Some (Some v, s')"
        "stands s0 (pre @ w @ t @ skipped rest) (ws_skip rest) s'" by auto
    have "\<forall>n\<ge>N. parse (n + 1) E (code_of l) s = parse n E (loop_of l v) s'"
      using s'(1) s1(1) by (simp add: parse_level [OF l] ParseBinOpLevel_def loop_of_bin [OF l(1)] del: parse.simps(2))
    with s'(2) show ?thesis by blast
  qed
qed

text \<open>\<open>or\<close> and \<open>and\<close>: their loops end, and go on at their word.\<close>

lemma word_loop_skip:
  assumes "stands s0 pre t s" and "token_start t" and "clean pre \<or> \<not> word_at kw t" and "t \<noteq> []"
  shows "\<exists>s1 s2. \<not> p_Eof s \<and> p_SkipWhite E True s = Some s1 \<and> p_CheckKeyword kw s1 = Some (word_at kw t, s2)
    \<and> stands s0 (if word_at kw t then pre @ kw else pre) (if word_at kw t then drop (length kw) t else t) s2"
proof -
  from skip_to [of s0 pre "[]" t "[]" s E True] assms(1,2) obtain s1 where
    s1: "p_SkipWhite E True s = Some s1" "stands s0 pre t s1" by (auto simp: white_Nil)
  from keyword_stands [OF s1(2) assms(3)] s1(1) stands_eof [OF assms(1)] assms(4) show ?thesis by blast
qed

lemma follow_not_word:
  assumes "follow l rest" and "cs \<in> set op_words" and "\<And>k. tok_level k < l \<Longrightarrow> tok_text k \<noteq> cs"
  shows "\<not> word_at cs (ws_skip rest)"
  using assms(1)
proof (cases rule: followE [where pre = "[]"])
  case (oper k)
  with operator_word [OF oper(1)] assms(2,3) show ?thesis by auto
qed (use stops_word assms(2) in blast)

lemma not_or: "tok_level k < 0 \<Longrightarrow> tok_text k \<noteq> ''or''"
  by simp

lemma not_and: "tok_level k < 1 \<Longrightarrow> tok_text k \<noteq> ''and''"
proof -
  have "tok_level k < 1 \<longrightarrow> tok_text k \<noteq> ''and''" by (rule tokI) code_simp
  then show "tok_level k < 1 \<Longrightarrow> tok_text k \<noteq> ''and''" by blast
qed

lemma word_loop_stop:
  assumes "stands s0 (pre @ skipped rest) (ws_skip rest) s" and "follow l rest" and "l = 0 \<or> l = 1"
  shows "\<exists>s'. (\<forall>rec. (if l = 0 then or_loop E rec v s else and_loop E rec v s) = Some (Some v, s'))
    \<and> stands s0 (pre @ skipped rest) (ws_skip rest) s'"
proof (cases "p_Eof s")
  case True
  with assms(1) show ?thesis by (auto simp: or_loop_def and_loop_def)
next
  case False
  then have ne: "ws_skip rest \<noteq> []" using stands_eof [OF assms(1)] by simp
  define kw where "kw = (if l = 0 then ''or'' else ''and'')"
  have "\<not> word_at kw (ws_skip rest)"
    unfolding kw_def using assms(3)
    by (intro follow_not_word [OF assms(2)]) (auto simp: op_words_def not_and)
  with word_loop_skip [OF assms(1) follow_token [OF assms(2)] _ ne, of kw E] obtain s1 s2 where
    "\<not> p_Eof s" "p_SkipWhite E True s = Some s1" "p_CheckKeyword kw s1 = Some (False, s2)"
    "stands s0 (pre @ skipped rest) (ws_skip rest) s2" by auto
  then show ?thesis by (auto simp: or_loop_def and_loop_def kw_def split: if_splits)
qed

lemma parses_of_chains:
  assumes "chains E l t v" and "chain_level l"
  shows "parses E l t v"
  unfolding parses_def
proof (intro allI impI)
  fix s0 s :: "'a pst" and pre w rest
  assume a: "stands s0 pre (w @ t @ rest) s" "bound (pre @ w) t" "white w" "follow l rest"
  from chainsE [OF assms(1) a(1-3) follow_mono [OF a(4)]] obtain N k s' where
    s': "\<And>n. N \<le> n \<Longrightarrow> parse (n + k) E (code_of l) s = parse n E (loop_of l v) s'"
      "stands s0 ((pre @ w @ t) @ skipped rest) (ws_skip rest) s'" by auto
  have stop: "\<exists>s''. (\<forall>n. parse (Suc n) E (loop_of l v) s' = Some (Some v, s''))
      \<and> stands s0 ((pre @ w @ t) @ skipped rest) (ws_skip rest) s''"
  proof (cases "4 \<le> l")
    case False
    then have l: "l = 0 \<or> l = 1" using assms(2) by (auto simp: chain_level_def)
    from word_loop_stop [OF s'(2) a(4) l, of E v] obtain s'' where
      "\<forall>rec. (if l = 0 then or_loop E rec v s' else and_loop E rec v s') = Some (Some v, s'')"
      "stands s0 ((pre @ w @ t) @ skipped rest) (ws_skip rest) s''" by blast
    with l show ?thesis by (auto simp: loop_of_def)
  next
    case True
    then have l: "4 \<le> l" "l \<le> 9" using assms(2) by (auto simp: chain_level_def)
    from binop_ops_stop [OF s'(2) a(4) l, of E "code_of (Suc l)" v] obtain s'' where
      "\<forall>rec. binop_loop E rec (code_of (Suc l)) (level_ops l) v s' = Some (Some v, s'')"
      "stands s0 ((pre @ w @ t) @ skipped rest) (ws_skip rest) s''" by blast
    then show ?thesis by (auto simp: loop_of_bin [OF l(1)])
  qed
  then obtain s'' where s'': "\<And>n. parse (Suc n) E (loop_of l v) s' = Some (Some v, s'')"
    "stands s0 (pre @ w @ t @ skipped rest) (ws_skip rest) s''" by auto
  have "parse n E (code_of l) s = Some (Some v, s'')" if n: "Suc N + k \<le> n" for n
  proof -
    define m where "m = n - Suc k"
    have m: "n = Suc m + k" "N \<le> m" using n by (simp_all add: m_def)
    with s'(1) [of "Suc m"] s''(1) [of m] show ?thesis by simp
  qed
  with s''(2) show "\<exists>N s'. (\<forall>n\<ge>N. parse n E (code_of l) s = Some (Some v, s')) \<and> stands s0 (pre @ w @ t @ skipped rest) (ws_skip rest) s'"
    by blast
qed

lemma chains_bin:
  assumes "chains E l t1 x" and "parses E (Suc l) t2 y" and "sep w1" and "sep w2" and "bin_level op = l" and "t1 \<noteq> []"
    and "CreateBinExpr (pe_target E) op x y = Inr v"
  shows "chains E l (t1 @ w1 @ tok_text (TkBin op) @ w2 @ t2) v"
  unfolding chains_def
proof (intro allI impI)
  fix s0 s :: "'a pst" and pre w rest
  let ?k = "tok_text (TkBin op)"
  let ?t = "t1 @ w1 @ ?k @ w2 @ t2"
  assume a: "stands s0 pre (w @ ?t @ rest) s" "bound (pre @ w) ?t" "white w" "follow (Suc l) rest"
  have l: "4 \<le> l" "l \<le> 9" using assms(5) by (auto simp: bin_level_def split: binop.splits)
  have o: "operator_at (TkBin op) (?k @ w2 @ t2 @ rest)"
    using assms(4) by (cases w2) (auto simp: operator_at_def sep_def)
  have lev: "tok_level (TkBin op) < Suc l" using assms(5) by (simp add: tok_level_def)
  note ot = token_startD [OF operator_token [OF o]]
  have w: "white w1" "white w2" using assms(3,4) by (simp_all add: sep_def)
  have sk: "skipped (w1 @ ?k @ w2 @ t2 @ rest) = w1" "ws_skip (w1 @ ?k @ w2 @ t2 @ rest) = ?k @ w2 @ t2 @ rest"
    using skipped_white [OF w(1) ot(1)] ws_skip_white [OF w(1)] ot(1) by simp_all
  have bt1: "bound (pre @ w) t1" using a(2) assms(6) by (simp add: bound_def)
  from chainsE [OF assms(1), of s0 pre w "w1 @ ?k @ w2 @ t2 @ rest" s] a(1-3) follow_op [OF assms(3) o lev] bt1
  obtain N k s1 where
    s1: "\<And>n. N \<le> n \<Longrightarrow> parse (n + k) E (code_of l) s = parse n E (loop_of l x) s1"
      "stands s0 (pre @ w @ t1 @ w1) (?k @ w2 @ t2 @ rest) s1" unfolding sk by auto
  have cl: "clean (pre @ w @ t1 @ w1)" using clean_sep [OF assms(3), of "pre @ w @ t1"] by simp
  from binop_ops_step [OF s1(2) o cl assms(5), of E "code_of (Suc l)" x] obtain s2 where
    s2: "stands s0 ((pre @ w @ t1 @ w1) @ ?k) (w2 @ t2 @ rest) s2"
      "\<And>rec. binop_loop E rec (code_of (Suc l)) (level_ops l) x s1
      = nonnull (rec (code_of (Suc l)) s2) (\<lambda>right s4.
          case CreateBinExpr (pe_target E) op x right of
            Inl err \<Rightarrow> if err = NullType then None else Some (None, p_Error (PeBuild err) s4)
          | Inr e \<Rightarrow> rec (PcBinLoop (code_of (Suc l)) (level_ops l) e) s4)" by auto
  have b2: "bound (((pre @ w @ t1 @ w1) @ ?k) @ w2) t2"
    using clean_sep [OF assms(4), of "pre @ w @ t1 @ w1 @ ?k"] by (simp add: bound_def)
  from parsesE [OF assms(2) s2(1) b2 w(2) a(4)] obtain M s3 where
    s3: "\<And>n. M \<le> n \<Longrightarrow> parse n E (code_of (Suc l)) s2 = Some (Some y, s3)"
      "stands s0 (pre @ w @ ?t @ skipped rest) (ws_skip rest) s3" by auto
  have "parse (m + Suc k) E (code_of l) s = parse m E (loop_of l v) s3" if m: "max N M \<le> m" for m
  proof -
    have "parse (Suc m + k) E (code_of l) s = parse (Suc m) E (loop_of l x) s1" using m by (intro s1(1)) simp
    also have "\<dots> = parse m E (loop_of l v) s3"
      using s2(2) s3(1) [of m] m assms(7) by (simp add: loop_of_bin [OF l(1)])
    finally show ?thesis by simp
  qed
  with s3(2) show "\<exists>N k s'. (\<forall>n\<ge>N. parse (n + k) E (code_of l) s = parse n E (loop_of l v) s')
       \<and> stands s0 (pre @ w @ ?t @ skipped rest) (ws_skip rest) s'" by blast
qed

text \<open>The word operators: \<open>or\<close> on level 0, \<open>and\<close> on level 1.\<close>

definition word_op :: "nat \<Rightarrow> tok \<Rightarrow> logop \<Rightarrow> bool" where
  "word_op l k lop \<longleftrightarrow> (l = 0 \<and> k = TkOr \<and> lop = LOGIOP_OR) \<or> (l = 1 \<and> k = TkAnd \<and> lop = LOGIOP_AND)"

lemma word_loop_step:
  assumes "stands s0 pre t s" and "operator_at k t" and "clean pre" and "word_op l k lop"
    and "CreateLogicalExpr lop x y = (None, v)"
  shows "\<exists>s'. stands s0 (pre @ tok_text k) (drop (length (tok_text k)) t) s'
    \<and> (\<forall>n s2. parse n E (code_of (Suc l)) s' = Some (Some y, s2) \<longrightarrow>
        parse (Suc n) E (loop_of l x) s = parse n E (loop_of l v) s2)"
proof -
  from assms(2) obtain c u where cu: "t = tok_text k @ c # u" by (auto simp: operator_at_def)
  have kw: "tok_text k \<in> set op_words" using assms(4) by (auto simp: word_op_def tok_text_def op_words_def)
  then have "word_at (tok_text k) t" using operator_word [OF assms(2)] by blast
  with word_loop_skip [OF assms(1) operator_token [OF assms(2)], of "tok_text k" E] assms(3) cu obtain s1 s2 where
    s2: "\<not> p_Eof s" "p_SkipWhite E True s = Some s1" "p_CheckKeyword (tok_text k) s1 = Some (True, s2)"
      "stands s0 (pre @ tok_text k) (drop (length (tok_text k)) t) s2" by auto
  with assms(4,5) show ?thesis
    by (intro exI [of _ s2]) (auto simp: word_op_def loop_of_def or_loop_def and_loop_def tok_text_def reported_def
      numeral_2_eq_2 [symmetric])
qed

lemma chains_word:
  assumes "chains E l t1 x" and "parses E (Suc l) t2 y" and "sep w1" and "sep w2" and "word_op l k lop" and "t1 \<noteq> []"
    and "CreateLogicalExpr lop x y = (None, v)"
  shows "chains E l (t1 @ w1 @ tok_text k @ w2 @ t2) v"
  unfolding chains_def
proof (intro allI impI)
  fix s0 s :: "'a pst" and pre w rest
  let ?k = "tok_text k"
  let ?t = "t1 @ w1 @ ?k @ w2 @ t2"
  assume a: "stands s0 pre (w @ ?t @ rest) s" "bound (pre @ w) ?t" "white w" "follow (Suc l) rest"
  have o: "operator_at k (?k @ w2 @ t2 @ rest)"
    using assms(4) by (cases w2) (auto simp: operator_at_def sep_def)
  have lev: "tok_level k < Suc l" using assms(5) by (auto simp: tok_level_def word_op_def)
  note ot = token_startD [OF operator_token [OF o]]
  have w: "white w1" "white w2" using assms(3,4) by (simp_all add: sep_def)
  have sk: "skipped (w1 @ ?k @ w2 @ t2 @ rest) = w1" "ws_skip (w1 @ ?k @ w2 @ t2 @ rest) = ?k @ w2 @ t2 @ rest"
    using skipped_white [OF w(1) ot(1)] ws_skip_white [OF w(1)] ot(1) by simp_all
  have bt1: "bound (pre @ w) t1" using a(2) assms(6) by (simp add: bound_def)
  from chainsE [OF assms(1), of s0 pre w "w1 @ ?k @ w2 @ t2 @ rest" s] a(1-3) follow_op [OF assms(3) o lev] bt1
  obtain N m s1 where
    s1: "\<And>n. N \<le> n \<Longrightarrow> parse (n + m) E (code_of l) s = parse n E (loop_of l x) s1"
      "stands s0 (pre @ w @ t1 @ w1) (?k @ w2 @ t2 @ rest) s1" unfolding sk by auto
  have cl: "clean (pre @ w @ t1 @ w1)" using clean_sep [OF assms(3), of "pre @ w @ t1"] by simp
  from word_loop_step [OF s1(2) o cl assms(5,7), of E] obtain s2 where
    s2: "stands s0 ((pre @ w @ t1 @ w1) @ ?k) (w2 @ t2 @ rest) s2"
      "\<And>n s3. parse n E (code_of (Suc l)) s2 = Some (Some y, s3) \<Longrightarrow>
        parse (Suc n) E (loop_of l x) s1 = parse n E (loop_of l v) s3" by auto
  have b2: "bound (((pre @ w @ t1 @ w1) @ ?k) @ w2) t2"
    using clean_sep [OF assms(4), of "pre @ w @ t1 @ w1 @ ?k"] by (simp add: bound_def)
  from parsesE [OF assms(2) s2(1) b2 w(2) a(4)] obtain M s3 where
    s3: "\<And>n. M \<le> n \<Longrightarrow> parse n E (code_of (Suc l)) s2 = Some (Some y, s3)"
      "stands s0 (pre @ w @ ?t @ skipped rest) (ws_skip rest) s3" by auto
  have "parse (i + Suc m) E (code_of l) s = parse i E (loop_of l v) s3" if i: "max N M \<le> i" for i
  proof -
    have "parse (Suc i + m) E (code_of l) s = parse (Suc i) E (loop_of l x) s1" using i by (intro s1(1)) simp
    also have "\<dots> = parse i E (loop_of l v) s3" using s2(2) s3(1) [of i] i by simp
    finally show ?thesis by simp
  qed
  with s3(2) show "\<exists>N k s'. (\<forall>n\<ge>N. parse (n + k) E (code_of l) s = parse n E (loop_of l v) s')
       \<and> stands s0 (pre @ w @ ?t @ skipped rest) (ws_skip rest) s'" by blast
qed

section \<open>\<open>not\<close> and comparisons\<close>

text \<open>A level that only passes on is one step.\<close>

lemma parses_step:
  fixes E :: "('e, 'f) penv"
  assumes "\<And>(s0 :: 'e pst) pre w rest s. stands s0 pre (w @ t @ rest) s \<Longrightarrow> bound (pre @ w) t \<Longrightarrow> white w \<Longrightarrow> follow l rest \<Longrightarrow>
      \<exists>N s'. (\<forall>n\<ge>N. parse (Suc n) E (code_of l) s = Some (Some v, s'))
        \<and> stands s0 (pre @ w @ t @ skipped rest) (ws_skip rest) s'"
  shows "parses E l t v"
  unfolding parses_def
proof (intro allI impI)
  fix s0 s :: "'e pst" and pre w rest
  assume "stands s0 pre (w @ t @ rest) s" "bound (pre @ w) t" "white w" "follow l rest"
  from assms [OF this] obtain N s' where s': "\<forall>n\<ge>N. parse (Suc n) E (code_of l) s = Some (Some v, s')"
    "stands s0 (pre @ w @ t @ skipped rest) (ws_skip rest) s'" by blast
  have "\<forall>n\<ge>Suc N. parse n E (code_of l) s = Some (Some v, s')"
  proof (intro allI impI)
    fix n
    assume "Suc N \<le> n"
    then show "parse n E (code_of l) s = Some (Some v, s')" using s'(1) by (cases n) (auto simp del: parse.simps)
  qed
  with s'(2) show "\<exists>N s'. (\<forall>n\<ge>N. parse n E (code_of l) s = Some (Some v, s')) \<and> stands s0 (pre @ w @ t @ skipped rest) (ws_skip rest) s'"
    by blast
qed

lemma parses_not_up:
  assumes "parses E 3 t v" and "\<And>r. token_start (t @ r)" and "\<And>r. ends r \<Longrightarrow> \<not> word_at ''not'' (t @ r)"
  shows "parses E 2 t v"
proof (rule parses_step)
  fix s0 s :: "'a pst" and pre w rest
  assume a: "stands s0 pre (w @ t @ rest) s" "bound (pre @ w) t" "white w" "follow 2 rest"
  from skip_to [OF a(1,3) assms(2), of E False] obtain s1 where
    s1: "p_SkipWhite E False s = Some s1" "stands s0 (pre @ w) (t @ rest) s1" by auto
  from keyword_stands [OF s1(2), of "''not''"] assms(3) [OF follow_ends [OF a(4)]] obtain s2 where
    s2: "p_CheckKeyword ''not'' s1 = Some (False, s2)" "stands s0 (pre @ w) ([] @ t @ rest) s2" by auto
  from parsesE [OF assms(1) s2(2) _ white_Nil follow_mono [OF a(4)]] a(2) obtain N s' where
    s': "\<And>n. N \<le> n \<Longrightarrow> parse n E PcComparison s2 = Some (Some v, s')"
      "stands s0 (pre @ w @ t @ skipped rest) (ws_skip rest) s'" by auto
  have "\<forall>n\<ge>N. parse (Suc n) E (code_of 2) s = Some (Some v, s')"
    using s1(1) s2(1) s'(1) by (simp add: ParseExprNot_def)
  with s'(2) show "\<exists>N s'. (\<forall>n\<ge>N. parse (Suc n) E (code_of 2) s = Some (Some v, s'))
        \<and> stands s0 (pre @ w @ t @ skipped rest) (ws_skip rest) s'" by blast
qed

lemma parses_not:
  assumes "parses E 2 t x" and "white w1" and "id_ends (w1 @ t)" and "t \<noteq> []" and "create_not x = (None, v)"
  shows "parses E 2 (''not'' @ w1 @ t) v"
proof (rule parses_step)
  fix s0 s :: "'a pst" and pre w rest
  assume a: "stands s0 pre (w @ (''not'' @ w1 @ t) @ rest) s" "bound (pre @ w) (''not'' @ w1 @ t)" "white w" "follow 2 rest"
  have cl: "clean (pre @ w)" using a(2) by (simp add: bound_def is_alpha_under_def less_eq_char_def)
  have tk: "token_start ((''not'' @ w1 @ t) @ rest)" by (simp add: token_start_def is_blank_def numeral_2_eq_2)
  from skip_to [OF a(1,3) tk, of E False] obtain s1 where
    s1: "p_SkipWhite E False s = Some s1" "stands s0 (pre @ w) (''not'' @ w1 @ t @ rest) s1" by auto
  have wd: "word_at ''not'' (''not'' @ w1 @ t @ rest)"
    using assms(3,4) by (cases w1) (auto simp: word_at_def id_ends_def)
  from keyword_stands [OF s1(2), of "''not''"] cl wd obtain s2 where
    s2: "p_CheckKeyword ''not'' s1 = Some (True, s2)" "stands s0 ((pre @ w) @ ''not'') (w1 @ t @ rest) s2" by auto
  have "bound (((pre @ w) @ ''not'') @ w1) t"
    using white_last [OF assms(2)] assms(3,4) by (cases "w1 = []") (auto simp: bound_def clean_def id_ends_def)
  from parsesE [OF assms(1) s2(2) this assms(2) a(4)] obtain N s' where
    s': "\<And>n. N \<le> n \<Longrightarrow> parse n E PcNot s2 = Some (Some x, s')"
      "stands s0 (pre @ w @ (''not'' @ w1 @ t) @ skipped rest) (ws_skip rest) s'" by auto
  have "\<forall>n\<ge>N. parse (Suc n) E (code_of 2) s = Some (Some v, s')"
    using s1(1) s2(1) s'(1) assms(5) by (simp add: ParseExprNot_def reported_def)
  with s'(2) show "\<exists>N s'. (\<forall>n\<ge>N. parse (Suc n) E (code_of 2) s = Some (Some v, s'))
        \<and> stands s0 (pre @ w @ (''not'' @ w1 @ t) @ skipped rest) (ws_skip rest) s'" by blast
qed

text \<open>The end of a comparison: no operator of comparison, no \<open>is\<close> and no \<open>as\<close>.\<close>

lemma no_compare:
  assumes "follow 3 rest"
  shows "sym_in compare_ops (ws_skip rest) = None" "\<not> word_at ''is'' (ws_skip rest)" "\<not> word_at ''as'' (ws_skip rest)"
    "\<not> (\<exists>cs \<in> set [''<<='', ''>>='']. take (length cs) (ws_skip rest) = cs)"
proof -
  have t: "tok_level k < 3 \<longrightarrow> tok_text k \<noteq> ''is'' \<and> tok_text k \<noteq> ''as''" for k
    by (rule tokI) code_simp
  show "\<not> word_at ''is'' (ws_skip rest)"
    by (rule follow_not_word [OF assms]) (use t in \<open>simp_all add: op_words_def\<close>)
  show "\<not> word_at ''as'' (ws_skip rest)"
    by (rule follow_not_word [OF assms]) (use t in \<open>simp_all add: op_words_def\<close>)
  have "sym_in compare_ops (ws_skip rest) = None \<and> \<not> (\<exists>cs \<in> set [''<<='', ''>>='']. take (length cs) (ws_skip rest) = cs)"
    using assms
  proof (cases rule: followE [where pre = "[]"])
    case stop
    then show ?thesis using stops_match(2) [OF stop, of "''<<=''"] stops_match(2) [OF stop, of "''>>=''"] compare_stops
      by (simp add: assign_symbols_def)
  next
    case (oper k)
    have "tok_level k < 4" using oper(2) by simp
    from compare_finds [OF oper(1) this] oper(2) show ?thesis by (cases k) (auto simp: tok_level_def)
  qed
  then show "sym_in compare_ops (ws_skip rest) = None"
    "\<not> (\<exists>cs \<in> set [''<<='', ''>>='']. take (length cs) (ws_skip rest) = cs)" by blast+
qed

lemma parses_cmp_up:
  assumes "parses E 4 t v"
  shows "parses E 3 t v"
proof (rule parses_step)
  fix s0 s :: "'a pst" and pre w rest
  assume a: "stands s0 pre (w @ t @ rest) s" "bound (pre @ w) t" "white w" "follow 3 rest"
  have f4: "follow 4 rest" by (rule follow_mono [OF a(4)]) simp
  let ?p = "pre @ w @ t @ skipped rest" and ?r = "ws_skip rest"
  note n = no_compare [OF a(4)]
  from parsesE [OF assms a(1-3) f4] obtain N s1 where
    s1: "\<And>n. N \<le> n \<Longrightarrow> parse n E PcAdd s = Some (Some v, s1)" "stands s0 ?p ?r s1" by auto
  from skip_again [OF s1(2) a(4), of E True] obtain s2 where
    s2: "p_SkipWhite E True s1 = Some s2" "stands s0 ?p ?r s2" by blast
  from any_symbol_stands [OF s2(2), of "[''<<='', ''>>='']"] n(4) obtain s3 where
    s3: "any_symbol [''<<='', ''>>=''] s2 = (False, s3)" "stands s0 ?p ?r s3" by auto
  from first_symbol_stands [OF s3(2), of compare_ops True] n(1) obtain s4 where
    s4: "ParseCompareOp True s3 = (None, s4)" "stands s0 ?p ?r s4" by (auto simp: ParseCompareOp_def compare_ops_def)
  from keyword_stands [OF s4(2), of "''is''"] n(2) obtain s5 where
    s5: "p_CheckKeyword ''is'' s4 = Some (False, s5)" "stands s0 ?p ?r s5" by auto
  from keyword_stands [OF s5(2), of "''as''"] n(3) obtain s6 where
    s6: "p_CheckKeyword ''as'' s5 = Some (False, s6)" "stands s0 ?p ?r s6" by auto
  have "\<forall>n\<ge>N. parse (Suc n) E (code_of 3) s = Some (Some v, s6)"
    using s1(1) s2(1) s3(1) s4(1) s5(1) s6(1) by (simp add: ParseComparison_def)
  with s6(2) show "\<exists>N s'. (\<forall>n\<ge>N. parse (Suc n) E (code_of 3) s = Some (Some v, s')) \<and> stands s0 ?p ?r s'" by blast
qed

lemma parses_cmp:
  assumes "parses E 4 t1 x" and "parses E 4 t2 y" and "sep w1" and "sep w2" and "t1 \<noteq> []"
    and "CreateCompareExpr (pe_target E) (pe_fpu E) op x y = (None, v)"
  shows "parses E 3 (t1 @ w1 @ tok_text (TkCmp op) @ w2 @ t2) v"
proof (rule parses_step)
  fix s0 s :: "'a pst" and pre w rest
  let ?k = "tok_text (TkCmp op)"
  let ?t = "t1 @ w1 @ ?k @ w2 @ t2"
  let ?u = "?k @ w2 @ t2 @ rest"
  assume a: "stands s0 pre (w @ ?t @ rest) s" "bound (pre @ w) ?t" "white w" "follow 3 rest"
  have o: "operator_at (TkCmp op) ?u"
    using assms(4) by (cases w2) (auto simp: operator_at_def sep_def)
  note ot = token_startD [OF operator_token [OF o]]
  have w: "white w1" "white w2" using assms(3,4) by (simp_all add: sep_def)
  have sk: "skipped (w1 @ ?u) = w1" "ws_skip (w1 @ ?u) = ?u"
    using skipped_white [OF w(1) ot(1)] ws_skip_white [OF w(1)] ot(1) by simp_all
  have bt1: "bound (pre @ w) t1" using a(2) assms(5) by (simp add: bound_def)
  have lev: "tok_level (TkCmp op) < 4" by (simp add: tok_level_def)
  let ?p1 = "pre @ w @ t1 @ w1"
  from parsesE [OF assms(1), of s0 pre w "w1 @ ?u" s] a(1,3) bt1 follow_op [OF assms(3) o lev]
  obtain N s1 where
    s1: "\<And>n. N \<le> n \<Longrightarrow> parse n E PcAdd s = Some (Some x, s1)" "stands s0 ?p1 ?u s1" unfolding sk by auto
  from skip_to [of s0 ?p1 "[]" ?u "[]" s1 E True] s1(2) operator_token [OF o] obtain s2 where
    s2: "p_SkipWhite E True s1 = Some s2" "stands s0 ?p1 ?u s2" by (auto simp: white_Nil)
  note c = compare_finds [OF o lev]
  have "\<not> (\<exists>cs \<in> set [''<<='', ''>>='']. take (length cs) ?u = cs)" using c(2,3) by simp
  with any_symbol_stands [OF s2(2), of "[''<<='', ''>>='']"] obtain s3 where
    s3: "any_symbol [''<<='', ''>>=''] s2 = (False, s3)" "stands s0 ?p1 ?u s3" by auto
  from first_symbol_stands [OF s3(2), of compare_ops True] c(1) obtain s4 where
    s4: "ParseCompareOp True s3 = (Some op, s4)" "stands s0 (?p1 @ ?k) (w2 @ t2 @ rest) s4"
    by (auto simp: ParseCompareOp_def compare_ops_def)
  have b2: "bound ((?p1 @ ?k) @ w2) t2"
    using clean_sep [OF assms(4), of "?p1 @ ?k"] by (simp add: bound_def)
  have f4: "follow 4 rest" by (rule follow_mono [OF a(4)]) simp
  let ?p = "pre @ w @ ?t @ skipped rest" and ?r = "ws_skip rest"
  from parsesE [OF assms(2) s4(2) b2 w(2) f4] obtain M s5 where
    s5: "\<And>n. M \<le> n \<Longrightarrow> parse n E PcAdd s4 = Some (Some y, s5)" "stands s0 ?p ?r s5" by auto
  from skip_again [OF s5(2) a(4), of E True] obtain s6 where
    s6: "p_SkipWhite E True s5 = Some s6" "stands s0 ?p ?r s6" by blast
  from first_symbol_stands [OF s6(2), of compare_ops False] no_compare(1) [OF a(4)] obtain s7 where
    s7: "ParseCompareOp False s6 = (None, s7)" "stands s0 ?p ?r s7" by (auto simp: ParseCompareOp_def compare_ops_def)
  have "\<forall>n\<ge>max N M. parse (Suc n) E (code_of 3) s = Some (Some v, s7)"
    using s1(1) s2(1) s3(1) s4(1) s5(1) s6(1) s7(1) assms(6)
    by (simp add: ParseComparison_def is_range_def reported_def)
  with s7(2) show "\<exists>N s'. (\<forall>n\<ge>N. parse (Suc n) E (code_of 3) s = Some (Some v, s')) \<and> stands s0 ?p ?r s'" by blast
qed

section \<open>Unary operators and operands\<close>

definition unary_free :: "string \<Rightarrow> bool" where
  "unary_free t \<longleftrightarrow> t \<noteq> [] \<and> hd t \<notin> set ''%-~''"

lemma parses_unary_up:
  assumes "parses E 11 t v" and "\<And>r. token_start (t @ r)" and "unary_free t"
  shows "parses E 10 t v"
proof (rule parses_step)
  fix s0 s :: "'a pst" and pre w rest
  assume a: "stands s0 pre (w @ t @ rest) s" "bound (pre @ w) t" "white w" "follow 10 rest"
  from skip_to [OF a(1,3) assms(2), of E False] obtain s1 where
    s1: "p_SkipWhite E False s = Some s1" "stands s0 (pre @ w) (t @ rest) s1" by auto
  have no: "take (length [c]) (t @ rest) \<noteq> [c]" if "c \<in> set ''%-~''" for c
    using assms(3) that by (cases t) (auto simp: unary_free_def)
  from no_symbol_stands [OF s1(2) no, of "CHR ''%''" True] obtain s2 where
    s2: "p_CheckSymbol ''%'' True s1 = (False, s2)" "stands s0 (pre @ w) (t @ rest) s2" by auto
  from no_symbol_stands [OF s2(2) no, of "CHR ''-''" True] obtain s3 where
    s3: "p_CheckSymbol ''-'' True s2 = (False, s3)" "stands s0 (pre @ w) (t @ rest) s3" by auto
  from no_symbol_stands [OF s3(2) no, of "CHR ''~''" True] obtain s4 where
    s4: "p_CheckSymbol ''~'' True s3 = (False, s4)" "stands s0 (pre @ w) ([] @ t @ rest) s4" by auto
  from parsesE [OF assms(1) s4(2) _ white_Nil follow_mono [OF a(4)]] a(2) obtain N s' where
    s': "\<And>n. N \<le> n \<Longrightarrow> parse n E PcPostfix s4 = Some (Some v, s')"
      "stands s0 (pre @ w @ t @ skipped rest) (ws_skip rest) s'" by auto
  have "\<forall>n\<ge>N. parse (Suc n) E (code_of 10) s = Some (Some v, s')"
    using s1(1) s2(1) s3(1) s4(1) s'(1) by (simp add: ParseExprUnary_def)
  with s'(2) show "\<exists>N s'. (\<forall>n\<ge>N. parse (Suc n) E (code_of 10) s = Some (Some v, s'))
        \<and> stands s0 (pre @ w @ t @ skipped rest) (ws_skip rest) s'" by blast
qed

lemma parses_unary:
  assumes "parses E 10 t x" and "white w1" and "t \<noteq> []"
    and "(c = CHR ''-'' \<and> new_NegExpr x = Some v) \<or> (c = CHR ''~'' \<and> v = new_BinNotExpr (pe_target E) x)"
  shows "parses E 10 ([c] @ w1 @ t) v"
proof (rule parses_step)
  fix s0 s :: "'a pst" and pre w rest
  assume a: "stands s0 pre (w @ ([c] @ w1 @ t) @ rest) s" "bound (pre @ w) ([c] @ w1 @ t)" "white w" "follow 10 rest"
  have tk: "token_start (([c] @ w1 @ t) @ rest)"
    using assms(4) by (auto simp: token_start_def is_blank_def numeral_2_eq_2)
  from skip_to [OF a(1,3) tk, of E False] obtain s1 where
    s1: "p_SkipWhite E False s = Some s1" "stands s0 (pre @ w) ([c] @ w1 @ t @ rest) s1" by auto
  from no_symbol_stands [OF s1(2), of "''%''" True] assms(4) obtain s2 where
    s2: "p_CheckSymbol ''%'' True s1 = (False, s2)" "stands s0 (pre @ w) ([c] @ w1 @ t @ rest) s2" by auto
  have s3: "\<exists>s3 s4. (c = CHR ''-'' \<and> p_CheckSymbol ''-'' True s2 = (True, s4)
      \<or> c = CHR ''~'' \<and> p_CheckSymbol ''-'' True s2 = (False, s3) \<and> p_CheckSymbol ''~'' True s3 = (True, s4))
      \<and> stands s0 ((pre @ w) @ [c]) (w1 @ t @ rest) s4"
    using assms(4)
  proof (elim disjE conjE)
    assume "c = CHR ''-''"
    with symbol_stands [OF s2(2)] show ?thesis by auto
  next
    assume c: "c = CHR ''~''"
    with no_symbol_stands [OF s2(2), of "''-''" True] obtain s3 where
      s3: "p_CheckSymbol ''-'' True s2 = (False, s3)" "stands s0 (pre @ w) ([c] @ w1 @ t @ rest) s3" by auto
    from symbol_stands [OF s3(2)] c s3(1) show ?thesis by auto
  qed
  then obtain s3 s4 where s4: "c = CHR ''-'' \<and> p_CheckSymbol ''-'' True s2 = (True, s4)
      \<or> c = CHR ''~'' \<and> p_CheckSymbol ''-'' True s2 = (False, s3) \<and> p_CheckSymbol ''~'' True s3 = (True, s4)"
      "stands s0 ((pre @ w) @ [c]) (w1 @ t @ rest) s4" by blast
  have "clean ((pre @ w) @ [c])" using assms(4) by (auto simp: clean_def is_alpha_under_def is_dec_def less_eq_char_def)
  then have b: "bound (((pre @ w) @ [c]) @ w1) t" using clean_white [OF _ assms(2), of "(pre @ w) @ [c]"] by (simp add: bound_def)
  from parsesE [OF assms(1) s4(2) b assms(2) a(4)] obtain N s' where
    s': "\<And>n. N \<le> n \<Longrightarrow> parse n E PcUnary s4 = Some (Some x, s')"
      "stands s0 (pre @ w @ ([c] @ w1 @ t) @ skipped rest) (ws_skip rest) s'" by auto
  have "\<forall>n\<ge>N. parse (Suc n) E (code_of 10) s = Some (Some v, s')"
    using s1(1) s2(1) s4(1) s'(1) assms(4) by (auto simp: ParseExprUnary_def)
  with s'(2) show "\<exists>N s'. (\<forall>n\<ge>N. parse (Suc n) E (code_of 10) s = Some (Some v, s'))
        \<and> stands s0 (pre @ w @ ([c] @ w1 @ t) @ skipped rest) (ws_skip rest) s'" by blast
qed

definition operand :: "('e, 'f) penv \<Rightarrow> string \<Rightarrow> 'f expr \<Rightarrow> bool" where
  "operand E t v \<longleftrightarrow> (\<forall>s0 pre w rest s. stands s0 pre (w @ t @ rest) s \<longrightarrow> white w \<longrightarrow> follow 11 rest \<longrightarrow>
     (\<exists>N s'. (\<forall>n\<ge>N. parse (Suc n) E PcPrimary s = Some (Some v, s')) \<and> stands s0 (pre @ w @ t) rest s'))"

lemma no_postfix:
  assumes "follow l rest" and "c \<in> set ''.([''"
  shows "take (length [c]) (ws_skip rest) \<noteq> [c]"
proof -
  have c: "[c] \<in> set (symbol_ops @ assign_symbols)" using assms(2) by (auto simp: symbol_ops_def)
  show ?thesis
    using assms(1)
  proof (cases rule: followE [where pre = "[]"])
    case stop
    with c show ?thesis using stops_match(2) [OF stop, of "[c]"] by auto
  next
    case (oper k)
    have "list_all (\<lambda>c. take (length [c]) (tok_text k) \<noteq> [c]) ''.([''" by (rule tokI) code_simp
    with operator_match(2) [OF oper(1), of "[c]"] c assms(2) show ?thesis by (auto simp: list_all_iff)
  qed
qed

lemma parses_postfix:
  fixes E :: "('e, 'f) penv"
  assumes "operand E t v"
  shows "parses E 11 t v"
proof (rule parses_step)
  fix s0 s :: "'e pst" and pre w rest
  assume a: "stands s0 pre (w @ t @ rest) s" "bound (pre @ w) t" "white w" "follow 11 rest"
  let ?p = "pre @ w @ t @ skipped rest" and ?r = "ws_skip rest"
  from assms a obtain N s1 where
    s1: "\<And>n. N \<le> n \<Longrightarrow> parse (Suc n) E PcPrimary s = Some (Some v, s1)" "stands s0 (pre @ w @ t) rest s1"
    unfolding operand_def by meson
  from skip_stands [OF s1(2) follow_skip(3) [OF a(4)], of E True] obtain s2 where
    s2: "p_SkipWhite E True s1 = Some s2" "stands s0 ?p ?r s2" by auto
  note no = no_postfix [OF a(4)]
  from no_symbol_stands [OF s2(2) no, of "CHR ''.''" True] obtain s3 where
    s3: "p_CheckSymbol ''.'' True s2 = (False, s3)" "stands s0 ?p ?r s3" by auto
  from no_symbol_stands [OF s3(2) no, of "CHR ''.''" True] obtain s4 where
    s4: "p_CheckSymbol ''.'' True s3 = (False, s4)" "stands s0 ?p ?r s4" by auto
  from no_symbol_stands [OF s2(2) no, of "CHR ''(''" False] obtain s5 where
    s5: "p_CheckSymbol ''('' False s2 = (False, s5)" "stands s0 ?p ?r s5" by auto
  from no_symbol_stands [OF s3(2) no, of "CHR ''(''" False] obtain s6 where
    s6: "p_CheckSymbol ''('' False s3 = (False, s6)" "stands s0 ?p ?r s6" by auto
  from no_symbol_stands [OF s4(2) no, of "CHR ''(''" False] obtain s7 where
    s7: "p_CheckSymbol ''('' False s4 = (False, s7)" "stands s0 ?p ?r s7" by auto
  have "\<exists>s'. (\<forall>n. parse (Suc n) E (PcPostfixLoop v) s1 = Some (Some v, s')) \<and> stands s0 ?p ?r s'"
    using s2(1) s3(1) s4(1) s5 s6 s7
    by (cases "IsCharacterType (etype v)"; cases "is_lvalue v") (auto simp: ParsePostfix_def)
  then obtain s' where s': "\<And>n. parse (Suc n) E (PcPostfixLoop v) s1 = Some (Some v, s')" "stands s0 ?p ?r s'" by blast
  have "parse (Suc n) E (code_of 11) s = Some (Some v, s')" if n: "Suc N \<le> n" for n
  proof -
    obtain m where m: "n = Suc m" "N \<le> m" using n by (cases n) auto
    have "parse (Suc (Suc m)) E PcPostfix s = nonnull (parse (Suc m) E PcPrimary s) (\<lambda>e. parse (Suc m) E (PcPostfixLoop e))"
      by (subst parse.simps(2)) (simp only: pcode.simps ParseExprPostfix_def)
    then show ?thesis using s1(1) [OF m(2)] s'(1) [of m] m(1) by simp
  qed
  with s'(2) show "\<exists>N s'. (\<forall>n\<ge>N. parse (Suc n) E (code_of 11) s = Some (Some v, s')) \<and> stands s0 ?p ?r s'" by blast
qed

text \<open>A type name at an operand.\<close>

lemma take_word:
  assumes "take (length cs) (w @ r) = cs" and "list_all id_char cs" and "id_ends r"
  shows "take (length cs) w = cs"
proof (cases "length cs \<le> length w")
  case False
  then obtain c u where r: "take (length cs - length w) r = c # u \<or> r = []" by (cases r) (auto simp: take_Cons')
  show ?thesis
  proof (cases r)
    case (Cons d v)
    with False assms(1) have "d \<in> set cs" by (metis append_eq_conv_conj diff_is_0_eq' in_set_conv_decomp length_take less_or_eq_imp_le
      linorder_not_le list.set_intros(1) take_Cons' take_all take_append zero_less_diff)
    with assms(2,3) Cons show ?thesis by (auto simp: list_all_iff id_ends_def)
  qed (use assms(1) in simp)
qed (use assms(1) in simp)

lemma typespec_stands:
  assumes "stands s0 pre (w @ r) s" and "type_name w" and "id_ends r"
  shows "pe_type E w = None \<Longrightarrow> \<exists>s'. ParseTypeSpec E False s = Some (None, s') \<and> stands s0 (pre @ w) r s'"
    and "pe_type E w = Some (TyScalar ty) \<Longrightarrow> token_start (ws_skip r) \<Longrightarrow> take (length ''['') (ws_skip r) \<noteq> ''['' \<Longrightarrow>
      \<exists>s'. ParseTypeSpec E False s = Some (Some ty, s') \<and> stands s0 (pre @ w @ skipped r) (ws_skip r) s'"
proof -
  have id: "ident w" and w: "w \<noteq> ''autofree''" "w \<noteq> ''type''" "take 4 w \<noteq> ''func''"
    using assms(2) by (simp_all add: type_name_def)
  obtain c u where c: "w = c # u" "is_alpha_under c" using id by (cases w) (auto simp: ident_def)
  have tk: "token_start (w @ r)"
    using c by (auto simp: token_start_def numeral_2_eq_2 is_blank_def is_alpha_under_def less_eq_char_def)
  have no: "take (length cs) (w @ r) \<noteq> cs" if "cs \<in> {''[['', ''^'', ''[''}" for cs
    using c that by (intro take_hd) (auto simp: is_alpha_under_def less_eq_char_def)
  have nf: "take (length ''func'') (w @ r) \<noteq> ''func''"
    using take_word [OF _ _ assms(3), of "''func''" w] w(3) by (auto simp: is_alpha_under_def less_eq_char_def numeral_eq_Suc)
  from skip_to [of s0 pre "[]" "w @ r" "[]" s E False] assms(1) tk obtain s1 where
    s1: "p_SkipWhite E False s = Some s1" "stands s0 pre (w @ r) s1" by (auto simp: white_Nil)
  from no_symbol_stands [OF s1(2) no, of "''[[''" False] obtain s2 where
    s2: "p_CheckSymbol ''[['' False s1 = (False, s2)" "stands s0 pre (w @ r) s2" by auto
  from ident_stands [OF s2(2) id assms(3)] obtain s3 where
    s3: "p_ReadIdentifier s2 = ((True, w), s3)" "stands s0 (pre @ w) r s3" by blast
  from back_stands [OF s2(2) s3(2)] obtain s4 where
    s4: "p_SetCurPos (SaveCurPos (p_feeder s2)) s3 = Some s4" "stands s0 pre (w @ r) s4" by blast
  from no_symbol_stands [OF s4(2) no, of "''^''" True] obtain s5 where
    s5: "p_CheckSymbol ''^'' True s4 = (False, s5)" "stands s0 pre (w @ r) s5" by auto
  from no_symbol_stands [OF s5(2) no, of "''[''" True] obtain s6 where
    s6: "p_CheckSymbol ''['' True s5 = (False, s6)" "stands s0 pre (w @ r) s6" by auto
  from skip_to [of s0 pre "[]" "w @ r" "[]" s6 E False] s6(2) tk obtain s7 where
    s7: "p_SkipWhite E False s6 = Some s7" "stands s0 pre (w @ r) s7" by (auto simp: white_Nil)
  from ident_stands [OF s7(2) id assms(3)] obtain s8 where
    s8: "p_ReadIdentifier s7 = ((True, w), s8)" "stands s0 (pre @ w) r s8" by blast
  from back_stands [OF s7(2) s8(2)] obtain s9 where
    s9: "p_SetCurPos (SaveCurPos (p_feeder s7)) s8 = Some s9" "stands s0 pre (w @ r) s9" by blast
  have ta: "type_of_ahead E s7 = Some (False, s9)" using s8(1) s9(1) w(2) by (simp add: type_of_ahead_def)
  from no_symbol_stands [OF s9(2) nf, of True] obtain s10 where
    s10: "p_CheckSymbol ''func'' True s9 = (False, s10)" "stands s0 pre (w @ r) s10" by auto
  from ident_stands [OF s10(2) id assms(3)] obtain s11 where
    s11: "p_ReadIdentifier s10 = ((True, w), s11)" "stands s0 (pre @ w) r s11" by blast
  note steps = s1(1) s2(1) s3(1) s4(1) s5(1) s6(1) s7(1) ta s10(1) s11(1)
  show "\<exists>s'. ParseTypeSpec E False s = Some (None, s') \<and> stands s0 (pre @ w) r s'" if "pe_type E w = None"
    using steps that w(1) s11(2) by (simp add: ParseTypeSpec_def type_error_def)
  show "\<exists>s'. ParseTypeSpec E False s = Some (Some ty, s') \<and> stands s0 (pre @ w @ skipped r) (ws_skip r) s'"
    if t: "pe_type E w = Some (TyScalar ty)" "token_start (ws_skip r)" "take (length ''['') (ws_skip r) \<noteq> ''[''"
  proof -
    from skip_stands [OF s11(2), of E True] token_startD(3) [OF t(2)] obtain s12 where
      s12: "p_SkipWhite E True s11 = Some s12" "stands s0 (pre @ w @ skipped r) (ws_skip r) s12" by auto
    have "take (length ''[['') (ws_skip r) \<noteq> ''[[''" using t(3) by (cases "ws_skip r") auto
    from no_symbol_stands [OF s12(2) this, of False] obtain s13 where
      s13: "p_CheckSymbol ''[['' False s12 = (False, s13)" "stands s0 (pre @ w @ skipped r) (ws_skip r) s13" by auto
    from no_symbol_stands [OF s13(2) t(3), of False] obtain s14 where
      s14: "p_CheckSymbol ''['' False s13 = (False, s14)" "stands s0 (pre @ w @ skipped r) (ws_skip r) s14" by auto
    show ?thesis using steps w(1) t(1) s12(1) s13(1) s14 by (simp add: ParseTypeSpec_def)
  qed
qed

section \<open>Operands\<close>

lemma ends_id: "ends r \<Longrightarrow> id_ends r"
  by (auto simp: ends_def id_ends_def)

text \<open>What an operand starts with decides where its parse goes.\<close>

lemma prim_none:
  assumes "stands s0 pre r s" and "r \<noteq> []" and "hd r \<notin> set ''([{$0''"
  shows "\<exists>s'. first_symbol prim_symbols True s = (None, s') \<and> stands s0 pre r s'"
proof -
  have "sym_in prim_symbols r = None"
    using assms(2,3) by (cases r) (auto simp: prim_symbols_def find_None_iff)
  with first_symbol_stands [OF assms(1), of prim_symbols True] show ?thesis by auto
qed

text \<open>A name, whatever it stands for, where no cast is found.\<close>

lemma primary_name:
  assumes "stands s0 pre (w @ t @ rest) s" and "white w" and "type_name t" and "id_ends rest" and "pe_type E t = None"
  shows "\<exists>s'. (\<forall>n. parse (Suc n) E PcPrimary s =
      (case first_symbol lit_symbols True s' of
         (Some LsTrue, s2) \<Rightarrow> Some (Some (OBoolLit True), s2)
       | (Some LsFalse, s2) \<Rightarrow> Some (Some (OBoolLit False), s2)
       | (Some LsOther, s2) \<Rightarrow> None
       | (None, s2) \<Rightarrow> parse_name E (parse n E) s2)) \<and> stands s0 (pre @ w) (t @ rest) s'"
proof -
  have id: "ident t" using assms(3) by (simp add: type_name_def)
  obtain c u where c: "t = c # u" "is_alpha_under c" using id by (cases t) (auto simp: ident_def)
  have tk: "token_start (t @ rest)"
    using c by (auto simp: token_start_def numeral_2_eq_2 is_blank_def is_alpha_under_def less_eq_char_def)
  from skip_to [OF assms(1,2) tk, of E False] obtain s1 where
    s1: "p_SkipWhite E False s = Some s1" "stands s0 (pre @ w) (t @ rest) s1" by auto
  have ch: "p_char s1 = c" using stands_char [of s0 "pre @ w" c "u @ rest" s1] s1(2) c by simp
  from typespec_stands(1) [OF s1(2) assms(3-5)] obtain s2 where
    s2: "ParseTypeSpec E False s1 = Some (None, s2)" "stands s0 ((pre @ w) @ t) rest s2" by blast
  from back_stands [OF s1(2) s2(2)] obtain s3 where
    s3: "p_SetCurPos (SaveCurPos (p_feeder s1)) s2 = Some s3" "stands s0 (pre @ w) (t @ rest) s3" by blast
  have cast: "ParseExplicitCastExpr E rec s1 = Some (False, None, s3)" for rec
    using s2(1) s3(1) by (simp add: ParseExplicitCastExpr_def Let_def)
  have "hd (t @ rest) \<notin> set ''([{$0''" using c by (auto simp: is_alpha_under_def less_eq_char_def)
  from prim_none [OF s3(2) _ this] c obtain s4 where
    s4: "first_symbol prim_symbols True s3 = (None, s4)" "stands s0 (pre @ w) (t @ rest) s4" by auto
  have num: "\<not> sf_IsNumChar (p_feeder s4)"
    using stands_num [OF s4(2)] c by (auto simp: is_dec_def is_alpha_under_def less_eq_char_def)
  have ch4: "p_char s4 = c" using stands_char [of s0 "pre @ w" c "u @ rest" s4] s4(2) c by simp
  have q: "c \<noteq> CHR 0x22" "c \<noteq> CHR 0x27" using c(2) by (auto simp: is_alpha_under_def less_eq_char_def)
  show ?thesis
    using s1(1) ch c(2) cast s4 num ch4 q
    by (intro exI [of _ s4]) (simp add: ParseExprPrimary_def parse_operand_def)
qed

lemma operand_bool:
  assumes "pe_type E (bool_text b) = None"
  shows "operand E (bool_text b) (OBoolLit b)"
  unfolding operand_def
proof (intro allI impI)
  fix s0 s :: "'a pst" and pre w rest
  assume a: "stands s0 pre (w @ bool_text b @ rest) s" "white w" "follow 11 rest"
  have tn: "type_name (bool_text b)"
    by (simp add: bool_text_def type_name_def ident_def is_alpha_under_def less_eq_char_def)
  from primary_name [OF a(1,2) tn ends_id [OF follow_ends [OF a(3)]] assms] obtain s1 where
    s1: "\<And>n. parse (Suc n) E PcPrimary s =
      (case first_symbol lit_symbols True s1 of
         (Some LsTrue, s2) \<Rightarrow> Some (Some (OBoolLit True), s2)
       | (Some LsFalse, s2) \<Rightarrow> Some (Some (OBoolLit False), s2)
       | (Some LsOther, s2) \<Rightarrow> None
       | (None, s2) \<Rightarrow> parse_name E (parse n E) s2)" "stands s0 (pre @ w) (bool_text b @ rest) s1" by blast
  have "sym_in lit_symbols (bool_text b @ rest) = Some (bool_text b, if b then LsTrue else LsFalse)"
    by (simp add: lit_symbols_def bool_text_def)
  with first_symbol_stands [OF s1(2), of lit_symbols True] obtain s2 where
    "first_symbol lit_symbols True s1 = (Some (if b then LsTrue else LsFalse), s2)"
    "stands s0 ((pre @ w) @ bool_text b) rest s2" by auto
  with s1(1) show "\<exists>N s'. (\<forall>n\<ge>N. parse (Suc n) E PcPrimary s = Some (Some (OBoolLit b), s')) \<and> stands s0 (pre @ w @ bool_text b) rest s'"
    by (intro exI [of _ 0] exI [of _ s2]) simp
qed

lemma operand_name:
  assumes "plain_name t" and "pe_type E t = None" and "pe_val E t = Some (VsScalar ty c True)"
  shows "operand E t (OLValueVar t ty c)"
  unfolding operand_def
proof (intro allI impI)
  fix s0 s :: "'a pst" and pre w rest
  assume a: "stands s0 pre (w @ t @ rest) s" "white w" "follow 11 rest"
  have tn: "type_name t" and id: "ident t"
    and nl: "take 4 t \<noteq> ''true''" "take 5 t \<noteq> ''false''" "take 3 t \<noteq> ''nil''"
    and nb: "t \<notin> set (other_builtins @ [''iif'', ''Iif'', ''Round'', ''Ceil'', ''Floor'', ''Trunc'', ''Ord''])"
    using assms(1) by (auto simp: plain_name_def type_name_def)
  have e: "id_ends rest" by (rule ends_id [OF follow_ends [OF a(3)]])
  from primary_name [OF a(1,2) tn e assms(2)] obtain s1 where
    s1: "\<And>n. parse (Suc n) E PcPrimary s =
      (case first_symbol lit_symbols True s1 of
         (Some LsTrue, s2) \<Rightarrow> Some (Some (OBoolLit True), s2)
       | (Some LsFalse, s2) \<Rightarrow> Some (Some (OBoolLit False), s2)
       | (Some LsOther, s2) \<Rightarrow> None
       | (None, s2) \<Rightarrow> parse_name E (parse n E) s2)" "stands s0 (pre @ w) (t @ rest) s1" by blast
  have "hd (t @ rest) \<noteq> CHR ''@''" using id by (cases t) (auto simp: ident_def is_alpha_under_def less_eq_char_def)
  then have "take (length ''@'') (t @ rest) \<noteq> ''@''" by (cases "t @ rest") auto
  then have "take (length cs) (t @ rest) \<noteq> cs" if "cs \<in> {''true'', ''false'', ''nil'', ''@''}" for cs
    using take_word [OF _ _ e, of cs t] nl that by (auto simp: is_alpha_under_def less_eq_char_def numeral_eq_Suc)
  then have "\<forall>x \<in> set lit_symbols. \<not> (case x of (cs, _) \<Rightarrow> take (length cs) (t @ rest) = cs)"
    unfolding lit_symbols_def by (simp only: set_simps ball_simps prod.case insert_iff simp_thms)
  then have "sym_in lit_symbols (t @ rest) = None" by (simp only: find_None_iff) blast
  with first_symbol_stands [OF s1(2), of lit_symbols True] obtain s2 where
    s2: "first_symbol lit_symbols True s1 = (None, s2)" "stands s0 (pre @ w) (t @ rest) s2" by auto
  from ident_stands [OF s2(2) id e] obtain s3 where
    s3: "p_ReadIdentifier s2 = ((True, t), s3)" "stands s0 ((pre @ w) @ t) rest s3" by blast
  have "parse_name E (parse n E) s2 = Some (Some (OLValueVar t ty c), s3)" for n
    using s3(1) nb assms(2,3) by (auto simp: parse_name_def lookup_value_def)
  with s1(1) s2(1) s3(2) show "\<exists>N s'. (\<forall>n\<ge>N. parse (Suc n) E PcPrimary s = Some (Some (OLValueVar t ty c), s')) \<and> stands s0 (pre @ w @ t) rest s'"
    by (intro exI [of _ 0] exI [of _ s3]) simp
qed

lemma operand_num:
  assumes "ds \<noteq> []" and "list_all is_dec ds" and "dec_value 0 ds < 2 ^ 63"
  shows "operand E ds (new_IntLit (pe_target E) (word_of_int (dec_value 0 ds)))"
  unfolding operand_def
proof (intro allI impI)
  fix s0 s :: "'a pst" and pre w rest
  assume a: "stands s0 pre (w @ ds @ rest) s" "white w" "follow 11 rest"
  obtain c u where c: "ds = c # u" "is_dec c" "list_all is_dec u" using assms(1,2) by (cases ds) auto
  have cn: "c \<notin> set ''([{$^['' \<and> \<not> is_alpha_under c \<and> \<not> is_blank True c \<and> c \<noteq> CHR ''#'' \<and> c \<noteq> CHR ''/''"
    using c(2) by (auto simp: is_dec_def is_alpha_under_def is_blank_def less_eq_char_def)
  have tk: "token_start (ds @ rest)" using c(1) cn by (auto simp: token_start_def numeral_2_eq_2)
  have e: "ends rest" by (rule follow_ends [OF a(3)])
  from skip_to [OF a(1,2) tk, of E False] obtain s1 where
    s1: "p_SkipWhite E False s = Some s1" "stands s0 (pre @ w) (ds @ rest) s1" by auto
  have ch: "p_char s1 = c" using stands_char [of s0 "pre @ w" c "u @ rest" s1] s1(2) c by simp
  have hx: "hd (u @ rest) \<noteq> CHR ''x'' \<or> u @ rest = []"
    using c(3) e by (cases u) (auto simp: ends_def is_dec_def is_alpha_under_def less_eq_char_def)
  have "sym_in prim_symbols (ds @ rest) = None"
    using cn hx by (cases "u @ rest") (auto simp: prim_symbols_def c(1))
  with first_symbol_stands [OF s1(2), of prim_symbols True] obtain s2 where
    s2: "first_symbol prim_symbols True s1 = (None, s2)" "stands s0 (pre @ w) (ds @ rest) s2" by auto
  have num: "sf_IsNumChar (p_feeder s2)" using stands_num [OF s2(2)] c by simp
  have rd: "rest = [] \<or> \<not> is_dec (hd rest)" using e by (auto simp: ends_def)
  from number_stands [OF s2(2) assms(1,2) rd assms(3)] obtain sf where
    sf: "sf_ReadInt64Value 0 (p_feeder s2) = Some ((True, dec_value 0 ds), sf)" "stands s0 ((pre @ w) @ ds) rest (p_set sf s2)"
    by blast
  have "p_char (p_set sf s2) \<notin> {CHR ''.'', CHR ''e'', CHR ''E''}"
  proof (cases rest)
    case Nil
    with stands_fields(5,6) [OF sf(2)] show ?thesis by (simp add: p_char_def byte_at_def)
  next
    case (Cons d v)
    with stands_char [of s0 _ d v] sf(2) e show ?thesis by (auto simp: ends_def is_alpha_under_def less_eq_char_def)
  qed
  then have "parse_number E s2 = Some (Some (new_IntLit (pe_target E) (word_of_int (dec_value 0 ds))), p_set sf s2)"
    using sf(1) by (simp add: parse_number_def)
  moreover have "c \<noteq> CHR ''^''" "c \<noteq> CHR ''[''" using cn by auto
  ultimately have "\<forall>n\<ge>0. parse (Suc n) E PcPrimary s
      = Some (Some (new_IntLit (pe_target E) (word_of_int (dec_value 0 ds))), p_set sf s2)"
    using s1(1) s2(1) ch cn num by (simp add: ParseExprPrimary_def parse_operand_def)
  with sf(2) show "\<exists>N s'. (\<forall>n\<ge>N. parse (Suc n) E PcPrimary s
      = Some (Some (new_IntLit (pe_target E) (word_of_int (dec_value 0 ds))), s')) \<and> stands s0 (pre @ w @ ds) rest s'"
    by auto
qed

text \<open>An expression in parentheses: \<open>ParseExpression\<close> folds it.\<close>

lemma inside:
  fixes E :: "('e, 'f) penv"
  assumes "parses E 0 t x" and "fold_in E x = Some v" and "white w1" and "white w2"
    and "stands s0 (pre @ ''('') (w1 @ t @ w2 @ '')'' @ rest) s"
  shows "\<exists>N s1 s2 s3. (\<forall>n\<ge>N. parse n E PcExpression s = Some (Some v, s1)) \<and> p_SkipWhite E False s1 = Some s2
    \<and> p_CheckSymbol '')'' True s2 = (True, s3) \<and> stands s0 (pre @ ''('' @ w1 @ t @ w2 @ '')'') rest s3"
proof -
  have "clean (pre @ ''('')" by (simp add: clean_def is_alpha_under_def is_dec_def less_eq_char_def)
  then have b: "bound ((pre @ ''('') @ w1) t" using clean_white [OF _ assms(3), of "pre @ ''(''"] by (simp add: bound_def)
  have f: "follow 0 (w2 @ '')'' @ rest)" using follow_close [OF assms(4)] by simp
  have tk: "token_start ('')'' @ rest)" by (simp add: token_start_def is_blank_def numeral_2_eq_2)
  have sk: "skipped (w2 @ '')'' @ rest) = w2" "ws_skip (w2 @ '')'' @ rest) = '')'' @ rest"
    using skipped_white [OF assms(4)] ws_skip_white [OF assms(4)] token_startD(1) [OF tk] by simp_all
  let ?p = "(pre @ ''('') @ w1 @ t @ w2"
  from parsesE [OF assms(1,5) b assms(3) f] obtain N s1 where
    s1: "\<And>n. N \<le> n \<Longrightarrow> parse n E PcOr s = Some (Some x, s1)" "stands s0 ?p ('')'' @ rest) s1"
    unfolding sk by auto
  from skip_to [of s0 ?p "[]" "'')''" rest s1 E False] s1(2) tk obtain s2 where
    s2: "p_SkipWhite E False s1 = Some s2" "stands s0 ?p ('')'' @ rest) s2" by (auto simp: white_Nil)
  from symbol_stands [OF s2(2)] obtain s3 where
    s3: "p_CheckSymbol '')'' True s2 = (True, s3)" "stands s0 (pre @ ''('' @ w1 @ t @ w2 @ '')'') rest s3" by auto
  have "parse n E PcExpression s = Some (Some v, s1)" if "Suc N \<le> n" for n
    using that s1(1) [of "n - 1"] assms(2) by (cases n) (auto simp: ParseExpression_def fold_in_def)
  with s2(1) s3 show ?thesis by blast
qed

lemma operand_paren:
  assumes "parses E 0 t x" and "fold_in E x = Some v" and "white w1" and "white w2"
  shows "operand E (''('' @ w1 @ t @ w2 @ '')'') v"
  unfolding operand_def
proof (intro allI impI)
  fix s0 s :: "'a pst" and pre w rest
  let ?t = "''('' @ w1 @ t @ w2 @ '')''"
  assume a: "stands s0 pre (w @ ?t @ rest) s" "white w" "follow 11 rest"
  have tk: "token_start (?t @ rest)" by (simp add: token_start_def is_blank_def numeral_2_eq_2)
  from skip_to [OF a(1,2) tk, of E False] obtain s1 where
    s1: "p_SkipWhite E False s = Some s1" "stands s0 (pre @ w) (''('' @ w1 @ t @ w2 @ '')'' @ rest) s1" by auto
  have ch: "p_char s1 = CHR ''(''" using stands_char [of s0 "pre @ w" _ _ s1] s1(2) by simp
  have "sym_in prim_symbols (''('' @ w1 @ t @ w2 @ '')'' @ rest) = Some (''('', PsParen)" by (simp add: prim_symbols_def)
  with first_symbol_stands [OF s1(2), of prim_symbols True] obtain s2 where
    s2: "first_symbol prim_symbols True s1 = (Some PsParen, s2)" "stands s0 ((pre @ w) @ ''('') (w1 @ t @ w2 @ '')'' @ rest) s2"
    by auto
  from inside [OF assms s2(2)] obtain N s3 s4 s5 where
    s5: "\<And>n. N \<le> n \<Longrightarrow> parse n E PcExpression s2 = Some (Some v, s3)" "p_SkipWhite E False s3 = Some s4"
      "p_CheckSymbol '')'' True s4 = (True, s5)" "stands s0 (pre @ w @ ?t) rest s5" by auto
  have "\<forall>n\<ge>N. parse (Suc n) E PcPrimary s = Some (Some v, s5)"
    using s1(1) ch s2(1) s5(1-3) by (simp add: ParseExprPrimary_def parse_operand_def is_alpha_under_def less_eq_char_def)
  with s5(4) show "\<exists>N s'. (\<forall>n\<ge>N. parse (Suc n) E PcPrimary s = Some (Some v, s')) \<and> stands s0 (pre @ w @ ?t) rest s'" by blast
qed

lemma white_ends: "white w \<Longrightarrow> \<not> id_char c \<Longrightarrow> id_ends (w @ c # r)"
proof -
  assume w: "white w" and c: "\<not> id_char c"
  show ?thesis
  proof (cases w)
    case (Cons d u)
    from w Cons have "is_blank True d \<or> d = CHR ''/''" by cases auto
    with Cons blank_id [of d] show ?thesis by (auto simp: id_ends_def is_dec_def less_eq_char_def is_alpha_under_def)
  qed (use c in \<open>simp add: id_ends_def\<close>)
qed

lemma operand_cast:
  assumes "parses E 0 t x" and "fold_in E x = Some y" and "white w0" and "white w1" and "white w2" and "type_name nm"
    and "pe_type E nm = Some (TyScalar ty)" and "ConvertScalar (pe_target E) (pe_fpu E) True ty y = Inr v"
  shows "operand E (nm @ w0 @ ''('' @ w1 @ t @ w2 @ '')'') v"
  unfolding operand_def
proof (intro allI impI)
  fix s0 s :: "'a pst" and pre w rest
  let ?r = "''('' @ w1 @ t @ w2 @ '')'' @ rest"
  let ?t = "nm @ w0 @ ''('' @ w1 @ t @ w2 @ '')''"
  assume a: "stands s0 pre (w @ ?t @ rest) s" "white w" "follow 11 rest"
  have id: "ident nm" using assms(6) by (simp add: type_name_def)
  obtain c u where c: "nm = c # u" "is_alpha_under c" using id by (cases nm) (auto simp: ident_def)
  have tk: "token_start (?t @ rest)"
    using c by (auto simp: token_start_def numeral_2_eq_2 is_blank_def is_alpha_under_def less_eq_char_def)
  have tr: "token_start ?r" by (simp add: token_start_def is_blank_def numeral_2_eq_2)
  have sk: "skipped (w0 @ ?r) = w0" "ws_skip (w0 @ ?r) = ?r"
    using skipped_white [OF assms(3)] ws_skip_white [OF assms(3)] token_startD(1) [OF tr] by simp_all
  have ie: "id_ends (w0 @ ?r)"
    using white_ends [OF assms(3), of "CHR ''(''" "w1 @ t @ w2 @ '')'' @ rest"]
    by (simp add: is_alpha_under_def is_dec_def less_eq_char_def)
  from skip_to [OF a(1,2) tk, of E False] obtain s1 where
    s1: "p_SkipWhite E False s = Some s1" "stands s0 (pre @ w) (nm @ w0 @ ?r) s1" by auto
  have ch: "p_char s1 = c" using stands_char [of s0 "pre @ w" c "u @ w0 @ ?r" s1] s1(2) c by simp
  from typespec_stands(2) [OF s1(2) assms(6) ie assms(7)] tr obtain s2 where
    s2: "ParseTypeSpec E False s1 = Some (Some ty, s2)" "stands s0 (pre @ w @ nm @ w0) ?r s2" unfolding sk by auto
  from skip_to [of s0 "pre @ w @ nm @ w0" "[]" ?r "[]" s2 E False] s2(2) tr obtain s3 where
    s3: "p_SkipWhite E False s2 = Some s3" "stands s0 (pre @ w @ nm @ w0) ?r s3" by (auto simp: white_Nil)
  from symbol_stands [OF s3(2)] obtain s4 where
    s4: "p_CheckSymbol ''('' True s3 = (True, s4)" "stands s0 ((pre @ w @ nm @ w0) @ ''('') (w1 @ t @ w2 @ '')'' @ rest) s4" by blast
  from inside [OF assms(1,2,4,5) s4(2)] obtain N s5 s6 s7 where
    s7: "\<And>n. N \<le> n \<Longrightarrow> parse n E PcExpression s4 = Some (Some y, s5)" "p_SkipWhite E False s5 = Some s6"
      "p_CheckSymbol '')'' True s6 = (True, s7)" "stands s0 (pre @ w @ ?t) rest s7" by auto
  have "ParseExplicitCastExpr E (parse n E) s1 = Some (True, Some v, s7)" if "N \<le> n" for n
    using s2(1) s3(1) s4(1) s7(1) [OF that] s7(2,3) assms(8) by (simp add: ParseExplicitCastExpr_def Let_def converted_def)
  then have "\<forall>n\<ge>N. parse (Suc n) E PcPrimary s = Some (Some v, s7)"
    using s1(1) ch c(2) by (simp add: ParseExprPrimary_def)
  with s7(4) show "\<exists>N s'. (\<forall>n\<ge>N. parse (Suc n) E PcPrimary s = Some (Some v, s')) \<and> stands s0 (pre @ w @ ?t) rest s'" by blast
qed

end
