(* ===== verification/Parse_Props.thy ===== *)
theory Parse_Props
  imports Parse_Sound Expr_Props Dq_Cond
begin

text \<open>
  The expression parser reads every text of the grammar: how a rendering starts, the induction over
  the renderings that puts the lemmas of the levels together, and the property of the parser.
\<close>

section \<open>How a rendering starts\<close>

lemma id_start: "id_char c \<Longrightarrow> \<not> is_blank True c \<and> c \<notin> set ''#/(-~%''"
  by (auto simp: is_blank_def is_alpha_under_def is_dec_def less_eq_char_def)

lemma ident_start: "ident w \<Longrightarrow> w \<noteq> [] \<and> id_char (hd w)"
  by (cases w) (auto simp: ident_def)

lemma renders_start:
  "renders l e t \<Longrightarrow> t \<noteq> [] \<and> (id_char (hd t) \<or> hd t = CHR ''('' \<or> (l \<le> 10 \<and> hd t \<in> set ''-~''))"
proof (induction rule: renders.induct)
  case (r_num ds)
  then show ?case by (cases ds) auto
next
  case (r_bool b)
  then show ?case by (simp add: bool_text_def is_alpha_under_def less_eq_char_def)
next
  case (r_name w)
  then show ?case using ident_start [of w] by (simp add: plain_name_def type_name_def)
next
  case (r_cast e t w0 w1 w2 ty)
  then show ?case using ident_start [of ty] by (simp add: type_name_def)
next
  case (r_not e t w)
  show ?case by (simp add: is_alpha_under_def less_eq_char_def)
qed auto

lemma renders_token: "renders l e t \<Longrightarrow> token_start (t @ r)"
  using renders_start [of l e t] id_start [of "hd t"]
  by (cases t) (auto simp: token_start_def numeral_2_eq_2 is_blank_def)

lemma renders_unary: "renders 11 e t \<Longrightarrow> unary_free t"
  using renders_start [of 11 e t] id_start [of "hd t"] by (auto simp: unary_free_def)

lemma takeWhile_end: "r = [] \<or> \<not> P (hd r) \<Longrightarrow> takeWhile P (t @ r) = takeWhile P t"
  by (induction t) (cases r, auto)

lemma word_first: "word_at cs t \<Longrightarrow> list_all id_char cs \<Longrightarrow> takeWhile id_char t = cs"
  using takeWhile_id [of id_char cs "drop (length cs) t"] append_take_drop_id [of "length cs" t]
  by (simp add: word_at_def id_ends_def)

lemma renders_word: "renders l e t \<Longrightarrow> 3 \<le> l \<Longrightarrow> takeWhile id_char t \<noteq> ''not''"
proof (induction rule: renders.induct)
  case (r_num ds)
  then show ?case by (cases ds) (auto simp: is_dec_def less_eq_char_def is_alpha_under_def)
next
  case (r_bool b)
  then show ?case by (simp add: bool_text_def is_alpha_under_def less_eq_char_def)
next
  case (r_name w)
  then have "takeWhile id_char w = w" "w \<noteq> ''not''" by (auto simp: plain_name_def type_name_def ident_def list_all_iff)
  then show ?case by metis
next
  case (r_cast e t w0 w1 w2 ty)
  have "\<not> id_char (CHR ''('')" by (simp add: is_alpha_under_def is_dec_def less_eq_char_def)
  from white_ends [OF r_cast(2) this, of "w1 @ t @ w2 @ '')''"]
  have "w0 @ ''('' @ w1 @ t @ w2 @ '')'' = [] \<or> \<not> id_char (hd (w0 @ ''('' @ w1 @ t @ w2 @ '')''))"
    by (simp add: id_ends_def)
  moreover have "list_all id_char ty" "ty \<noteq> ''not''" using r_cast(5) by (auto simp: type_name_def ident_def)
  ultimately show ?case using takeWhile_id [of id_char ty "w0 @ ''('' @ w1 @ t @ w2 @ '')''"] by metis
next
  case (r_cmp a t1 b t2 w1 w2 op)
  then show ?case using takeWhile_end [of "w1 @ tok_text (TkCmp op) @ w2 @ t2" id_char t1] blank_id [of "hd w1"] by (simp add: sep_def)
next
  case (r_bin l a t1 b t2 w1 w2 op)
  then show ?case using takeWhile_end [of "w1 @ tok_text (TkBin op) @ w2 @ t2" id_char t1] blank_id [of "hd w1"] by (simp add: sep_def)
qed (auto simp: is_alpha_under_def is_dec_def less_eq_char_def)

lemma renders_not: "renders l e t \<Longrightarrow> 3 \<le> l \<Longrightarrow> ends r \<Longrightarrow> \<not> word_at ''not'' (t @ r)"
  using word_first [of "''not''" "t @ r"] takeWhile_end [of r id_char t] renders_word [of l e t]
  by (auto simp: ends_def is_alpha_under_def less_eq_char_def)

section \<open>Every rendering is parsed\<close>

lemma right_optionD: "right_option r = Some v \<Longrightarrow> r = Inr v"
  by (simp add: right_option_def split: sum.splits)

lemma no_errorD: "no_error r = Some v \<Longrightarrow> r = (None, v)"
  by (cases r) (simp add: no_error_def split: option.splits)

lemma chains_or:
  assumes "chains E 0 t1 x" and "parses E 1 t2 y" and "sep w1" and "sep w2" and "t1 \<noteq> []"
    and "CreateLogicalExpr LOGIOP_OR x y = (None, v)"
  shows "chains E 0 (t1 @ w1 @ tok_text TkOr @ w2 @ t2) v"
  using chains_word [OF assms(1) _ assms(3,4) _ assms(5,6)] assms(2) by (simp add: word_op_def)

lemma chains_and:
  assumes "chains E 1 t1 x" and "parses E 2 t2 y" and "sep w1" and "sep w2" and "t1 \<noteq> []"
    and "CreateLogicalExpr LOGIOP_AND x y = (None, v)"
  shows "chains E 1 (t1 @ w1 @ tok_text TkAnd @ w2 @ t2) v"
  using chains_word [OF assms(1) _ assms(3,4) _ assms(5,6)] assms(2) by (simp add: word_op_def numeral_2_eq_2)

abbreviation rendered :: "('e, 'f) penv \<Rightarrow> nat \<Rightarrow> string \<Rightarrow> 'f expr \<Rightarrow> bool" where
  "rendered E l t v \<equiv> parses E l t v \<and> (chain_level l \<longrightarrow> chains E l t v)"

lemma renderedI: "chain_level l \<Longrightarrow> chains E l t v \<Longrightarrow> rendered E l t v"
  by (simp add: parses_of_chains)

lemma level_up:
  assumes "parses E (Suc l) t v" and "renders (Suc l) e t" and "l < 11"
  shows "rendered E l t v"
proof (cases "chain_level l")
  case True
  then show ?thesis using chains_up [OF assms(1) True renders_token [OF assms(2)]] by (rule renderedI)
next
  case False
  with assms(3) have "l = 2 \<or> l = 3 \<or> l = 10" by (simp add: chain_level_def) arith
  then have "parses E l t v"
    using assms parses_not_up [of E t v] parses_cmp_up [of E t v] parses_unary_up [of E t v] renders_token [OF assms(2)]
      renders_not [OF assms(2)] renders_unary [of e t] by auto
  with False show ?thesis by simp
qed

lemma bin_chain: "chain_level (bin_level op)"
  by (cases op) (simp_all add: chain_level_def bin_level_def)

lemma rendering: "renders l e t \<Longrightarrow> tree E e = Some v \<Longrightarrow> rendered E l t v"
proof (induction arbitrary: v rule: renders.induct)
  case (r_up l e t)
  then show ?case using level_up by blast
next
  case (r_or a t1 b t2 w1 w2)
  from r_or.prems obtain x y where xy: "tree E a = Some x" "tree E b = Some y" "CreateLogicalExpr LOGIOP_OR x y = (None, v)"
    by (auto simp: bind_eq_Some_conv dest: no_errorD)
  then show ?case
    using chains_or [OF _ _ r_or(3,4)] r_or.IH renders_start [OF r_or(1)] by (intro renderedI) (auto simp: chain_level_def)
next
  case (r_and a t1 b t2 w1 w2)
  from r_and.prems obtain x y where xy: "tree E a = Some x" "tree E b = Some y" "CreateLogicalExpr LOGIOP_AND x y = (None, v)"
    by (auto simp: bind_eq_Some_conv dest: no_errorD)
  then show ?case
    using chains_and [OF _ _ r_and(3,4)] r_and.IH renders_start [OF r_and(1)] by (intro renderedI) (auto simp: chain_level_def)
next
  case (r_not e t w)
  from r_not.prems obtain x where x: "tree E e = Some x" "create_not x = (None, v)"
    by (auto simp: bind_eq_Some_conv dest: no_errorD)
  then show ?case
    using parses_not [OF _ r_not(2,3)] r_not.IH renders_start [OF r_not(1)] by (auto simp: chain_level_def)
next
  case (r_cmp a t1 b t2 w1 w2 op)
  from r_cmp.prems obtain x y where xy: "tree E a = Some x" "tree E b = Some y"
    "CreateCompareExpr (pe_target E) (pe_fpu E) op x y = (None, v)" by (auto simp: bind_eq_Some_conv dest: no_errorD)
  then show ?case
    using parses_cmp [OF _ _ r_cmp(3,4)] r_cmp.IH renders_start [OF r_cmp(1)] by (auto simp: chain_level_def)
next
  case (r_bin l a t1 b t2 w1 w2 op)
  from r_bin.prems obtain x y where xy: "tree E a = Some x" "tree E b = Some y" "CreateBinExpr (pe_target E) op x y = Inr v"
    by (auto simp: bind_eq_Some_conv dest: right_optionD)
  have c: "chain_level l" using bin_chain [of op] r_bin(5) by simp
  from r_bin.IH xy c have "chains E l t1 x" "parses E (Suc l) t2 y" by auto
  from chains_bin [OF this r_bin(3,4,5) _ xy(3)] renders_start [OF r_bin(1)] c show ?case by (intro renderedI) auto
next
  case (r_neg e t w)
  then obtain x where x: "tree E e = Some x" "new_NegExpr x = Some v" by (auto simp: bind_eq_Some_conv)
  then show ?case
    using parses_unary [OF _ r_neg(2), of E t x "CHR ''-''" v] r_neg.IH renders_start [OF r_neg(1)] by (auto simp: chain_level_def)
next
  case (r_bnot e t w)
  then obtain x where x: "tree E e = Some x" "new_BinNotExpr (pe_target E) x = v" by auto
  then show ?case
    using parses_unary [OF _ r_bnot(2), of E t x "CHR ''~''" v] r_bnot.IH renders_start [OF r_bnot(1)] by (auto simp: chain_level_def)
next
  case (r_paren e t w1 w2)
  then obtain x where x: "tree E e = Some x" "fold_in E x = Some v" by (auto simp: bind_eq_Some_conv)
  then show ?case using parses_postfix [OF operand_paren [OF _ x(2) r_paren(2,3)]] r_paren.IH by (auto simp: chain_level_def)
next
  case (r_cast e t w0 w1 w2 ty)
  then obtain u x y where x: "tree E e = Some x" "fold_in E x = Some y" "pe_type E ty = Some (TyScalar u)"
    "ConvertScalar (pe_target E) (pe_fpu E) True u y = Inr v"
    by (auto simp: bind_eq_Some_conv split: option.splits tysym.splits dest: right_optionD)
  then show ?case
    using parses_postfix [OF operand_cast [OF _ x(2) r_cast(2-5) x(3,4)]] r_cast.IH by (auto simp: chain_level_def)
next
  case (r_num ds)
  then show ?case using parses_postfix [OF operand_num [of ds E]] by (auto simp: chain_level_def split: if_splits)
next
  case (r_bool b)
  then show ?case using parses_postfix [OF operand_bool [of E b]] by (auto simp: chain_level_def split: if_splits)
next
  case (r_name w)
  then show ?case using parses_postfix [OF operand_name [of w E]]
    by (auto simp: chain_level_def split: option.splits valsym.splits bool.splits)
qed

section \<open>The expression parser\<close>

lemma renders_up:
  assumes "renders k e t" and "k \<le> 11" and "l \<le> k"
  shows "renders l e t"
  using assms(3)
proof (induction rule: inc_induct)
  case (step n)
  show ?case by (rule r_up [OF step(3)]) (use step(2) assms(2) in linarith)
qed (rule assms(1))

definition sample_penv :: "(unit, unit) penv" where
  "sample_penv = \<lparr>pe_host = sample_host, pe_target = target64, pe_fpu = unit_fpu, pe_type = (\<lambda>_. None),
     pe_val = (\<lambda>w. if w = ''x'' then Some (VsScalar (TInt 32 True) None True) else None)\<rparr>"

definition sample_pst :: "string \<Rightarrow> unit pst" where
  "sample_pst b = \<lparr>p_scf = sample_dqs b, p_errs = []\<rparr>"

definition sample_sx :: sx where
  "sample_sx = SxNot (SxCmp COMPOP_LT (SxBin BINOP_SUB (SxName ''x'') (SxParen (SxNum ''1''))) (SxNum ''2''))"

lemma sample_renders: "renders 0 sample_sx ''not x - (1) < 2''"
proof -
  have s: "sep '' ''" "white '' ''" by (auto simp: sep_def is_blank_def intro: white_blank white_Nil)
  have x: "renders 4 (SxName ''x'') ''x''"
    by (rule renders_up [OF r_name]) (simp_all add: plain_name_def type_name_def ident_def is_alpha_under_def less_eq_char_def other_builtins_def op_words_def)
  have num: "renders l (SxNum [c]) [c]" if "is_dec c" "l \<le> 11" for l c
    by (rule renders_up [OF r_num]) (use that in simp_all)
  have "renders 11 (SxParen (SxNum ''1'')) (''('' @ [] @ ''1'' @ [] @ '')'')"
    by (intro r_paren num white_Nil) (simp_all add: is_dec_def less_eq_char_def)
  then have p: "renders 5 (SxParen (SxNum ''1'')) ''(1)''" using renders_up by auto
  have m: "renders 4 (SxBin BINOP_SUB (SxName ''x'') (SxParen (SxNum ''1''))) ''x - (1)''"
    using r_bin [of 4 _ _ _ _ "'' ''" "'' ''", OF x _ s(1) s(1), of _ _ BINOP_SUB] p by (simp add: bin_level_def tok_text_def GetBinopSymbol_def)
  have "renders 3 (SxCmp COMPOP_LT (SxBin BINOP_SUB (SxName ''x'') (SxParen (SxNum ''1''))) (SxNum ''2'')) ''x - (1) < 2''"
    using r_cmp [OF m num s(1) s(1), of "CHR ''2''" COMPOP_LT] by (simp add: tok_text_def GetCompareSymbol_def is_dec_def less_eq_char_def)
  then have "renders 2 sample_sx ''not x - (1) < 2''"
    using r_not [OF r_up s(2)] by (simp add: sample_sx_def id_ends_def numeral_eq_Suc is_alpha_under_def is_dec_def less_eq_char_def)
  then show ?thesis by (rule renders_up) simp_all
qed


definition sample_tree :: "unit expr" where
  "sample_tree = ONotExpr (OCompareExpr COMPOP_LT
     (OBinExpr BINOP_SUB (TInt 64 True) (OExprTypeConv (TInt 64 True) (OLValueVar ''x'' (TInt 32 True) None))
       (OIntLit 1 (TInt 64 True)))
     (OIntLit 2 (TInt 64 True)))"


end
