(* ===== verification/Parse_Stmt.thy ===== *)
theory Parse_Stmt
  imports Parse_Expr Stmt_Ast
begin

text \<open>
  The statement parser (\<open>ODqCompParserStmt\<close> in \<open>compiler/parser/dqc_parser_stmt.cpp\<close>) on programs of scalar
  variables: scopes and the tracking of first assignments (\<open>ast/oscope.cpp\<close>), the recovery after an
  error (\<open>src/dqc_base.cpp\<close>), and the statements but \<open>for\<close>, which is in \<open>Parse_For\<close>. A statement with blocks
  gets the block reader as its argument \<open>rb\<close>, the expression parser is \<open>pr\<close>. \<open>None\<close> is a parse that is
  not finished or leaves the model: attributes, references, local constants, objects, \<open>delete\<close>,
  \<open>raise\<close>, \<open>except\<close>, loops over arrays, calls, and a declaration that hides a visible variable (nodes name
  their variable). A statement that is abandoned after an error is left out of the tree: there is no
  code for a program with errors. Hints and warnings are left out.
\<close>

section \<open>State\<close>

text \<open>\<open>ps_first\<close> is \<open>firstassign\<close>.\<close>

record pscope =
  ps_vals :: "(string \<times> sty) list"
  ps_first :: "string list"

definition new_scope :: pscope where
  "new_scope = \<lparr>ps_vals = [], ps_first = []\<rparr>"

text \<open>
  \<open>q_scopes\<close> is the chain of \<open>curscope\<close> inside the function, \<open>q_init\<close> the local variables with
  \<open>initialized\<close>, \<open>q_block\<close> the statements of \<open>curblock\<close>, \<open>q_start\<close> the position of the statement.
\<close>

record ('e, 'f) qst =
  q_p :: "'e pst"
  q_scopes :: "pscope list"
  q_init :: "string list"
  q_block :: "'f stmt list"
  q_loop :: nat
  q_closers :: "string list list"
  q_start :: scpos

text \<open>The function: the type of its result, and whether exceptions are enabled.\<close>

record ('e, 'f) senv =
  se_p :: "('e, 'f) penv"
  se_result :: "sty option"
  se_exceptions :: bool

type_synonym ('e, 'f) exprp = "('e, 'f) penv \<Rightarrow> 'f pcode \<Rightarrow> 'e pst \<Rightarrow> ('e, 'f) pres"

definition qt :: "('e pst \<Rightarrow> 'a \<times> 'e pst) \<Rightarrow> ('e, 'f) qst \<Rightarrow> 'a \<times> ('e, 'f) qst" where
  "qt f q = (case f (q_p q) of (x, s) \<Rightarrow> (x, q\<lparr>q_p := s\<rparr>))"

definition qo :: "('e pst \<Rightarrow> 'e pst option) \<Rightarrow> ('e, 'f) qst \<Rightarrow> ('e, 'f) qst option" where
  "qo f q = map_option (\<lambda>s. q\<lparr>q_p := s\<rparr>) (f (q_p q))"

definition qx :: "('e pst \<Rightarrow> ('a \<times> 'e pst) option) \<Rightarrow> ('e, 'f) qst \<Rightarrow> ('a \<times> ('e, 'f) qst) option" where
  "qx f q = map_option (\<lambda>(x, s). (x, q\<lparr>q_p := s\<rparr>)) (f (q_p q))"

abbreviation q_white :: "('e, 'f) senv \<Rightarrow> bool \<Rightarrow> ('e, 'f) qst \<Rightarrow> ('e, 'f) qst option" where
  "q_white E look \<equiv> qo (p_SkipWhite (se_p E) look)"

abbreviation q_symbol :: "string \<Rightarrow> bool \<Rightarrow> ('e, 'f) qst \<Rightarrow> bool \<times> ('e, 'f) qst" where
  "q_symbol cs consume \<equiv> qt (p_CheckSymbol cs consume)"

abbreviation q_ident :: "('e, 'f) qst \<Rightarrow> (bool \<times> string) \<times> ('e, 'f) qst" where
  "q_ident \<equiv> qt p_ReadIdentifier"

text \<open>\<open>ReadIdentifier(sid, false)\<close>, and then \<open>ReadIdentifier\<close> when it is the word.\<close>

definition p_word :: "string \<Rightarrow> 'e pst \<Rightarrow> bool \<times> 'e pst" where
  "p_word w s = (case p_rd (sf_ReadIdentifier [] False) s of
     ((ok, v), s1) \<Rightarrow> if ok \<and> v = w then (True, snd (p_ReadIdentifier s1)) else (False, s1))"

abbreviation q_Error :: "perr \<Rightarrow> ('e, 'f) qst \<Rightarrow> ('e, 'f) qst" where
  "q_Error err q \<equiv> q\<lparr>q_p := p_Error err (q_p q)\<rparr>"

abbreviation q_eof :: "('e, 'f) qst \<Rightarrow> bool" where
  "q_eof q \<equiv> p_Eof (q_p q)"

section \<open>Scopes\<close>

definition find_local :: "('e, 'f) qst \<Rightarrow> string \<Rightarrow> sty option" where
  "find_local q w = map_of (concat (map ps_vals (q_scopes q))) w"

text \<open>What the expression parser sees: the scopes of the function before those of the module.\<close>

definition env_at :: "('e, 'f) senv \<Rightarrow> ('e, 'f) qst \<Rightarrow> ('e, 'f) penv" where
  "env_at E q = (se_p E)\<lparr>pe_val := (\<lambda>w. case find_local q w of
     Some ty \<Rightarrow> Some (VsScalar ty None (w \<in> set (q_init q)))
   | None \<Rightarrow> pe_val (se_p E) w)\<rparr>"

definition SetVarInitialized :: "string \<Rightarrow> ('e, 'f) qst \<Rightarrow> ('e, 'f) qst" where
  "SetVarInitialized w q =
     (if find_local q w = None \<or> w \<in> set (q_init q) then q
      else case q_scopes q of
        [] \<Rightarrow> q
      | sc # scs \<Rightarrow> q\<lparr>q_scopes := sc\<lparr>ps_first := ps_first sc @ [w]\<rparr> # scs, q_init := w # q_init q\<rparr>)"

definition RevertFirstAssignments :: "pscope \<Rightarrow> ('e, 'f) qst \<Rightarrow> ('e, 'f) qst" where
  "RevertFirstAssignments sc q = q\<lparr>q_init := filter (\<lambda>w. w \<notin> set (ps_first sc)) (q_init q)\<rparr>"

text \<open>A new variable in the current scope; hiding a visible one is left out.\<close>

definition DefineValSym :: "('e, 'f) senv \<Rightarrow> string \<Rightarrow> sty \<Rightarrow> bool \<Rightarrow> ('e, 'f) qst \<Rightarrow> ('e, 'f) qst option" where
  "DefineValSym E w ty initialized q =
     (if find_local q w \<noteq> None \<or> pe_val (se_p E) w \<noteq> None then None
      else case q_scopes q of
        [] \<Rightarrow> None
      | sc # scs \<Rightarrow> Some (q\<lparr>q_scopes := sc\<lparr>ps_vals := (w, ty) # ps_vals sc\<rparr> # scs,
          q_init := (if initialized then [w] else []) @ removeAll w (q_init q)\<rparr>))"

definition AddStatement :: "'f stmt \<Rightarrow> ('e, 'f) qst \<Rightarrow> ('e, 'f) qst" where
  "AddStatement st q = q\<lparr>q_block := q_block q @ [st]\<rparr>"

section \<open>Recovery\<close>

definition closer_words :: "string list" where
  "closer_words = [''endfor'', ''endwhile'', ''endif'', ''endfunc'', ''endsubfn'', ''endtry'', ''except'', ''finally'',
     ''else'', ''elif'', ''endstruct'', ''endobject'', ''endconst'', ''endenum'', ''endunion'']"

definition reserved_words :: "string list" where
  "reserved_words = [''var'', ''ref'', ''refin'', ''refout'', ''refnil'', ''for'', ''while'', ''if'', ''else'', ''return'',
     ''break'', ''continue'', ''endfor'', ''try'', ''except'', ''finally'', ''endtry'', ''raise'', ''new'', ''delete'', ''and'',
     ''not'', ''or'', ''is'', ''as'', ''xor'', ''div'', ''rem'', ''mod'', ''nil'', ''func'', ''subfn'', ''endsubfn'', ''use'',
     ''implementation'', ''struct'', ''endstruct'', ''union'', ''endunion'', ''object'', ''endobject'']"

definition root_words :: "string list" where
  "root_words = [''var'', ''const'', ''type'', ''enum'', ''func'', ''subfn'', ''use'', ''implementation'', ''struct'',
     ''union'', ''object'']"

text \<open>\<open>++scf->curp; scf->RecalcCurCol()\<close>\<close>

definition p_next :: "'e pst \<Rightarrow> 'e pst" where
  "p_next s = p_set (RecalcCurCol ((p_feeder s)\<lparr>sf_cur := Suc (sf_cur (p_feeder s))\<rparr>)) s"

text \<open>The loop of \<open>SkipCurStatement\<close>; each round goes on in the file, which bounds the fuel.\<close>

primrec skip_statement_loop :: "nat \<Rightarrow> ('e, 'f) penv \<Rightarrow> 'e pst \<Rightarrow> 'e pst option" where
  "skip_statement_loop 0 E s = None"
| "skip_statement_loop (Suc n) E s =
     (if p_Eof s then Some s
      else let s1 = snd (p_rd (sf_SkipSpaces False) s) in
      if p_Eof s1 then Some s1
      else if p_char s1 = CR \<or> p_char s1 = LF then p_SkipWhite E False s1
      else (case p_CheckSymbol '';'' True s1 of (True, s2) \<Rightarrow> Some s2 | (False, s2) \<Rightarrow>
        (case p_CheckSymbol ''}'' False s2 of (True, s3) \<Rightarrow> Some s3 | (False, s3) \<Rightarrow>
        (case p_rd (sf_ReadIdentifier [] False) s3 of
           ((True, w), s4) \<Rightarrow> if w \<in> set closer_words then Some s4 else skip_statement_loop n E (snd (p_ReadIdentifier s4))
         | ((False, _), s4) \<Rightarrow>
        (case p_rd (sf_ReadQuotedString []) s4 of ((True, _), s5) \<Rightarrow> skip_statement_loop n E s5 | ((False, _), s5) \<Rightarrow>
        (case p_CheckSymbol ''//'' True s5 of
           (True, s6) \<Rightarrow> skip_statement_loop n E (snd (p_rd (sf_ReadTo [CR, LF]) s6))
         | (False, s6) \<Rightarrow>
        (case p_CheckSymbol ''/*'' True s6 of
           (True, s7) \<Rightarrow> skip_statement_loop n E (snd (p_rd (sf_SearchPattern ''*/'' True) s7))
         | (False, s7) \<Rightarrow>
        (case p_CheckSymbol ''#'' False s7 of
           (True, s8) \<Rightarrow> Some s8
         | (False, s8) \<Rightarrow> skip_statement_loop n E (p_next s8)))))))))"

definition p_left :: "'e pst \<Rightarrow> nat" where
  "p_left s = sf_end (p_feeder s) - sf_cur (p_feeder s)"

definition SkipCurStatement :: "('e, 'f) penv \<Rightarrow> 'e pst \<Rightarrow> 'e pst option" where
  "SkipCurStatement E s =
     (let s1 = snd (p_rd (sf_SkipSpaces False) s) in
      if sf_lastline (p_feeder s1) < sf_line (p_feeder s1) then Some s1
      else skip_statement_loop (Suc (p_left s1)) E s1)"

definition StatementError :: "('e, 'f) senv \<Rightarrow> perr \<Rightarrow> ('e, 'f) qst \<Rightarrow> ('e, 'f) qst option" where
  "StatementError E err q = qo (SkipCurStatement (se_p E)) (q_Error err q)"

definition SkipToSymbol :: "string \<Rightarrow> 'e pst \<Rightarrow> 'e pst" where
  "SkipToSymbol cs s = (case p_rd (sf_SearchPattern cs False) s of
     (True, s1) \<Rightarrow> snd (p_CheckSymbol cs True s1) | (False, s1) \<Rightarrow> s1)"

primrec SkipToModuleStatementStart :: "nat \<Rightarrow> ('e, 'f) penv \<Rightarrow> 'e pst \<Rightarrow> 'e pst option" where
  "SkipToModuleStatementStart 0 E s = None"
| "SkipToModuleStatementStart (Suc n) E s =
     (if p_Eof s then Some s
      else do {
        s1 \<leftarrow> p_SkipWhite E False s;
        if p_Eof s1 then Some s1
        else (case p_CheckSymbol '';'' True s1 of (True, s2) \<Rightarrow> Some s2 | (False, s2) \<Rightarrow>
          (case p_ReadIdentifier s2 of
             ((True, w), s3) \<Rightarrow>
               if w \<in> set root_words then p_SetCurPos (SaveCurPos (p_feeder s2)) s3 else SkipToModuleStatementStart n E s3
           | ((False, _), s3) \<Rightarrow>
          (case p_CheckSymbol ''[['' False s3 of (True, s4) \<Rightarrow> Some s4 | (False, s4) \<Rightarrow>
          (case p_rd (sf_ReadQuotedString []) s4 of
             ((True, _), s5) \<Rightarrow> SkipToModuleStatementStart n E s5
           | ((False, _), s5) \<Rightarrow> SkipToModuleStatementStart n E (p_next s5))))) })"

section \<open>The end of a statement\<close>

definition CheckStatementClose :: "('e, 'f) senv \<Rightarrow> bool \<Rightarrow> ('e, 'f) qst \<Rightarrow> (bool \<times> ('e, 'f) qst) option" where
  "CheckStatementClose E emit q = do {
     let line_before = sf_lastline (p_feeder (q_p q));
     q1 \<leftarrow> q_white E True q;
     case q_symbol '';'' True q1 of
       (True, q2) \<Rightarrow> Some (True, q2)
     | (False, q2) \<Rightarrow>
         if line_before < sf_line (p_feeder (q_p q2)) then Some (True, q2)
         else if q_eof q2 then Some (True, q2)
         else (case q_symbol ''}'' False q2 of
           (True, q3) \<Rightarrow> Some (True, q3)
         | (False, q3) \<Rightarrow>
             if emit then map_option (Pair False) (StatementError E DQERR_MISSING_SEMICOLON_TO_CLOSE q3)
             else Some (False, q3)) }"

section \<open>Expressions in statements\<close>

definition q_expr :: "('e, 'f) exprp \<Rightarrow> ('e, 'f) senv \<Rightarrow> ('e, 'f) qst \<Rightarrow> ('f expr option \<times> ('e, 'f) qst) option" where
  "q_expr pr E q = qx (pr (env_at E q) PcExpression) q"

definition CheckAssignType :: "('e, 'f) senv \<Rightarrow> sty \<Rightarrow> 'f expr \<Rightarrow> ('e, 'f) qst \<Rightarrow> ('f expr option \<times> ('e, 'f) qst) option" where
  "CheckAssignType E ty e = qx (converted (ConvertScalar (pe_target (se_p E)) (pe_fpu (se_p E)) False ty e))"

text \<open>
  The left side is read with \<open>supress_varinit_check\<close>: the reports of variables that are not
  initialized are kept back.
\<close>

definition is_var_init :: "perr \<Rightarrow> bool" where
  "is_var_init err = (case err of DQERR_VAR_NOT_INITIALIZED _ \<Rightarrow> True | _ \<Rightarrow> False)"

definition q_left :: "('e, 'f) exprp \<Rightarrow> ('e, 'f) senv \<Rightarrow> 'f pcode \<Rightarrow> ('e, 'f) qst
    \<Rightarrow> ('f expr option \<times> perr list \<times> ('e, 'f) qst) option" where
  "q_left pr E c q = map_option (\<lambda>(x, s).
     let new = drop (length (p_errs (q_p q))) (p_errs s) in
     (x, filter is_var_init new, q\<lparr>q_p := s\<lparr>p_errs := p_errs (q_p q) @ filter (\<lambda>err. \<not> is_var_init err) new\<rparr>\<rparr>))
     (pr (env_at E q) c (q_p q))"

definition EmitLeftExprDiags :: "perr list \<Rightarrow> ('e, 'f) qst \<Rightarrow> ('e, 'f) qst" where
  "EmitLeftExprDiags ds q = q\<lparr>q_p := (q_p q)\<lparr>p_errs := p_errs (q_p q) @ ds\<rparr>\<rparr>"

text \<open>The target of a plain assignment need not be initialized.\<close>

definition EmitFilteredAssignLeftExprDiags :: "'f expr \<Rightarrow> binop option \<Rightarrow> perr list \<Rightarrow> ('e, 'f) qst \<Rightarrow> ('e, 'f) qst" where
  "EmitFilteredAssignLeftExprDiags e op ds =
     EmitLeftExprDiags (case (e, op) of
       (OLValueVar x _ _, None) \<Rightarrow> remove1 (DQERR_VAR_NOT_INITIALIZED x) ds
     | _ \<Rightarrow> ds)"

text \<open>\<open>BINOP_NONE\<close> is \<open>None\<close>; the variable of a scalar left side is the root symbol.\<close>

definition FinalizeStmtAssign :: "('e, 'f) senv \<Rightarrow> string \<Rightarrow> sty \<Rightarrow> 'f constval option \<Rightarrow> binop option \<Rightarrow> 'f expr
    \<Rightarrow> ('e, 'f) qst \<Rightarrow> ('e, 'f) qst option" where
  "FinalizeStmtAssign E x ty c op right q =
     (if c \<noteq> None then Some (q_Error (DQERR_TYPE_ASSIGN_TO_CONST x) q)
      else do {
        (r, q1) \<leftarrow> CheckAssignType E ty right q;
        case r of
          None \<Rightarrow> Some q1
        | Some e \<Rightarrow> Some (case op of
            None \<Rightarrow> SetVarInitialized x (AddStatement (OStmtAssign x ty e) q1)
          | Some op \<Rightarrow> AddStatement (OStmtModifyAssign x ty op e) q1) })"

section \<open>Simple statements\<close>

definition assign_ops :: "(string \<times> binop option) list" where
  "assign_ops = [(''+='', Some BINOP_ADD), (''-='', Some BINOP_SUB), (''*='', Some BINOP_MUL), (''/='', Some BINOP_DIV),
     (''<<='', Some BINOP_ISHL), (''>>='', Some BINOP_ISHR), (''&='', Some BINOP_IAND), (''|='', Some BINOP_IOR),
     (''=div='', Some BINOP_IDIV), (''=rem='', Some BINOP_IREM), (''=mod='', Some BINOP_IMOD), (''=xor='', Some BINOP_IXOR),
     (''='', None)]"

definition ParseAssignOp :: "('e, 'f) senv \<Rightarrow> ('e, 'f) qst \<Rightarrow> (binop option option \<times> ('e, 'f) qst) option" where
  "ParseAssignOp E q = map_option (qt (first_symbol assign_ops True)) (q_white E False q)"

definition errorcnt :: "('e, 'f) qst \<Rightarrow> nat" where
  "errorcnt q = length (p_errs (q_p q)) + length (d_errors (p_scf (q_p q)))"

definition expr_missing :: "nat \<Rightarrow> ('e, 'f) qst \<Rightarrow> ('e, 'f) qst" where
  "expr_missing prev q = (if errorcnt q = prev then q_Error DQERR_EXPR_EXPECTED q else q)"

definition ParseAssignOrCallStmt :: "('e, 'f) exprp \<Rightarrow> ('e, 'f) senv \<Rightarrow> ('e, 'f) qst \<Rightarrow> ('e, 'f) qst option" where
  "ParseAssignOrCallStmt pr E q = do {
     (x, ds, q1) \<leftarrow> q_left pr E PcExpression q;
     case x of
       None \<Rightarrow> qo (SkipCurStatement (se_p E)) (expr_missing (errorcnt q) (EmitLeftExprDiags ds q1))
     | Some e \<Rightarrow> do {
         q2 \<leftarrow> q_white E False q1;
         (binop, q3) \<leftarrow> ParseAssignOp E q2;
         case binop of
           Some op \<Rightarrow> do {
             q4 \<leftarrow> q_white E False q3;
             (r, q5) \<leftarrow> q_expr pr E q4;
             case r of
               None \<Rightarrow> qo (SkipCurStatement (se_p E))
                 (EmitFilteredAssignLeftExprDiags e op ds (expr_missing (errorcnt q4) q5))
             | Some right \<Rightarrow> do {
                 (_, q6) \<leftarrow> CheckStatementClose E True q5;
                 case e of
                   OLValueVar x ty c \<Rightarrow>
                     FinalizeStmtAssign E x ty c op right (EmitFilteredAssignLeftExprDiags e op ds q6)
                 | _ \<Rightarrow> Some (q_Error DQERR_LVALUE_NOT_WRITEABLE (EmitLeftExprDiags ds q6)) } }
         | None \<Rightarrow> do {
             q4 \<leftarrow> StatementError E DQERR_STMT_ASSIGN_OR_FCALL_EXP (EmitLeftExprDiags ds q3);
             q5 \<leftarrow> q_white E False q4;
             case q_symbol '';'' True q5 of
               (True, q6) \<Rightarrow> Some q6
             | (False, q6) \<Rightarrow> qo (SkipCurStatement (se_p E)) q6 } } }"

definition ParseStmtIncDec :: "('e, 'f) exprp \<Rightarrow> ('e, 'f) senv \<Rightarrow> binop \<Rightarrow> ('e, 'f) qst \<Rightarrow> ('e, 'f) qst option" where
  "ParseStmtIncDec pr E op q = do {
     (x, ds, q1) \<leftarrow> q_left pr E PcPostfix q;
     case x of
       None \<Rightarrow> qo (SkipCurStatement (se_p E)) (expr_missing (errorcnt q) (EmitLeftExprDiags ds q1))
     | Some e \<Rightarrow> do {
         (closed, q2) \<leftarrow> CheckStatementClose E True q1;
         if \<not> closed then Some q2
         else (case e of
           OLValueVar x ty c \<Rightarrow>
             FinalizeStmtAssign E x ty c (Some op) (new_IntLit (pe_target (se_p E)) 1)
               (EmitFilteredAssignLeftExprDiags e (Some op) ds q2)
         | _ \<Rightarrow> Some (q_Error DQERR_LVALUE_NOT_WRITEABLE (EmitLeftExprDiags ds q2))) } }"

definition loop_statement :: "('e, 'f) senv \<Rightarrow> string \<Rightarrow> 'f stmt \<Rightarrow> ('e, 'f) qst \<Rightarrow> ('e, 'f) qst option" where
  "loop_statement E word st q =
     (if q_loop q < 1 then StatementError E (DQERR_STMT_INVALID word) q
      else map_option (\<lambda>(closed, q1). if closed then AddStatement st q1 else q1) (CheckStatementClose E True q))"

definition ParseStmtBreak :: "('e, 'f) senv \<Rightarrow> ('e, 'f) qst \<Rightarrow> ('e, 'f) qst option" where
  "ParseStmtBreak E = loop_statement E ''break'' OBreakStmt"

definition ParseStmtContinue :: "('e, 'f) senv \<Rightarrow> ('e, 'f) qst \<Rightarrow> ('e, 'f) qst option" where
  "ParseStmtContinue E = loop_statement E ''continue'' OContinueStmt"

definition ParseStmtReturn :: "('e, 'f) exprp \<Rightarrow> ('e, 'f) senv \<Rightarrow> ('e, 'f) qst \<Rightarrow> ('e, 'f) qst option" where
  "ParseStmtReturn pr E q = do {
     (closed, q1) \<leftarrow> CheckStatementClose E False q;
     if closed then Some (AddStatement (OStmtReturn None) q1)
     else (case se_result E of
       None \<Rightarrow> Some (q_Error DQERR_FUNC_RESULT_SPECIFIED q1)
     | Some ty \<Rightarrow> do {
         (x, q2) \<leftarrow> q_expr pr E q1;
         (_, q3) \<leftarrow> CheckStatementClose E True q2;
         case x of
           None \<Rightarrow> Some q3
         | Some e \<Rightarrow> do {
             (r, q4) \<leftarrow> CheckAssignType E ty e q3;
             case r of
               None \<Rightarrow> Some q4
             | Some e' \<Rightarrow> Some (AddStatement (OStmtReturn (Some e')) (SetVarInitialized ''result'' q4)) } }) }"

text \<open>The type behind \<open>:\<close>, or \<open>?\<close>: whether it was read, the type, and whether it is inferred.\<close>

definition ParseTypeSpecOrInference :: "('e, 'f) senv \<Rightarrow> ('e, 'f) qst \<Rightarrow> ((bool \<times> sty option \<times> bool) \<times> ('e, 'f) qst) option" where
  "ParseTypeSpecOrInference E q = do {
     q1 \<leftarrow> q_white E False q;
     let pos = SaveCurPos (p_feeder (q_p q1));
     let ((ok, w), q2) = q_ident q1;
     if ok \<and> w = ''autofree'' then None
     else do {
       q3 \<leftarrow> qo (p_SetCurPos pos) q2;
       case q_symbol ''?'' True q3 of
         (True, q4) \<Rightarrow> Some ((True, None, True), q4)
       | (False, q4) \<Rightarrow> map_option (\<lambda>(ty, q5). ((ty \<noteq> None, ty, False), q5)) (qx (ParseTypeSpec (se_p E) True) q4) } }"

text \<open>A local variable: the initializer behind the type, then the declaration.\<close>

definition var_initializer :: "('e, 'f) exprp \<Rightarrow> ('e, 'f) senv \<Rightarrow> string \<Rightarrow> sty option \<Rightarrow> bool \<Rightarrow> ('e, 'f) qst \<Rightarrow> ('e, 'f) qst option" where
  "var_initializer pr E w ty infer q = do {
     q1 \<leftarrow> q_white E True q;
     let (assign, q2) = q_symbol ''='' False q1;
     if infer \<and> \<not> assign then StatementError E (DQERR_TYPE_INFER_INIT_REQUIRED w) q2
     else do {
       (x, q3) \<leftarrow> (case q_symbol ''='' True q2 of
          (True, q3) \<Rightarrow> Option.bind (q_white E False q3) (q_expr pr E)
        | (False, q3) \<Rightarrow> Some (None, q3));
       case ty of
         None \<Rightarrow> StatementError E (DQERR_TYPE_INFER_UNSUPPORTED w) q3
       | Some ty \<Rightarrow> do {
           (_, q4) \<leftarrow> CheckStatementClose E True q3;
           case x of
             None \<Rightarrow> map_option (AddStatement (OStmtVarDecl w ty None)) (DefineValSym E w ty False q4)
           | Some e \<Rightarrow> do {
               (r, q5) \<leftarrow> CheckAssignType E ty e q4;
               case r of
                 None \<Rightarrow> Some q5
               | Some e' \<Rightarrow> map_option (AddStatement (OStmtVarDecl w ty (Some e'))) (DefineValSym E w ty True q5) } } } }"

definition ParseStmtVar :: "nat \<Rightarrow> ('e, 'f) exprp \<Rightarrow> ('e, 'f) senv \<Rightarrow> ('e, 'f) qst \<Rightarrow> ('e, 'f) qst option" where
  "ParseStmtVar n pr E q = do {
     q1 \<leftarrow> q_white E False q;
     case q_ident q1 of
       ((False, _), q2) \<Rightarrow> StatementError E (DQERR_ID_EXP_AFTER ''var'') q2
     | ((True, w), q2) \<Rightarrow>
         if w \<in> set (concat (map (map fst \<circ> ps_vals) (take 1 (q_scopes q2))))
         then StatementError E (DQERR_VS_ALREADY_DECL_TYPE w) q2
         else do {
           q3 \<leftarrow> q_white E False q2;
           let (bind, q4) = q_symbol ''<-'' True q3;
           if bind then None
           else (case q_symbol '':'' True q4 of
             (True, q5) \<Rightarrow> do {
               ((ok, ty, infer), q6) \<leftarrow> ParseTypeSpecOrInference E q5;
               if \<not> ok then qo (SkipToModuleStatementStart n (se_p E)) q6
               else var_initializer pr E w ty infer q6 }
           | (False, q5) \<Rightarrow> (case q_symbol ''='' True q5 of
             (True, q6) \<Rightarrow> do {
               q7 \<leftarrow> q_white E False q6;
               (x, q8) \<leftarrow> q_expr pr E q7;
               if x = None then Some q8 else StatementError E (DQERR_TYPE_SPECIFIER_EXP_AFTER w) q8 }
           | (False, q6) \<Rightarrow> StatementError E (DQERR_TYPE_SPECIFIER_EXP_AFTER w) q6)) } }"

section \<open>Blocks\<close>

text \<open>
  The statements of a block that is being read, with its scope; the block reader goes on with them.
  It returns the closer that was found: none when the reading stopped before one.
\<close>

type_synonym 'f pblock = "'f stmt list \<times> pscope"

type_synonym ('e, 'f) blockp =
  "string list \<Rightarrow> 'f pblock \<Rightarrow> ('e, 'f) qst \<Rightarrow> ((string option \<times> 'f pblock) \<times> ('e, 'f) qst) option"

definition new_block :: "'f pblock" where
  "new_block = ([], new_scope)"

definition block_of :: "'f pblock \<Rightarrow> 'f block" where
  "block_of b = OStmtBlock [] (fst b)"

text \<open>\<open>loop\<close> is the loop over the statements, with the closers it looks for.\<close>

definition ReadStatementBlock :: "('e, 'f) senv \<Rightarrow> (string list \<Rightarrow> ('e, 'f) qst \<Rightarrow> (string option \<times> ('e, 'f) qst) option)
    \<Rightarrow> ('e, 'f) blockp" where
  "ReadStatementBlock E loop blockend b q = do {
     let q0 = q\<lparr>q_block := fst b, q_scopes := snd b # q_scopes q\<rparr>;
     q1 \<leftarrow> q_white E False q0;
     (closer, q2) \<leftarrow> (case q_symbol ''{'' True q1 of
        (True, q2) \<Rightarrow> Some ([''}''], q2)
      | (False, q2) \<Rightarrow> (case q_symbol '':'' True q2 of
          (True, q3) \<Rightarrow> Some (blockend, q3)
        | (False, q3) \<Rightarrow> map_option (Pair blockend) (StatementError E DQERR_STMTBLK_START_MISSING q3)));
     (rend, q3) \<leftarrow> loop closer (q2\<lparr>q_closers := q_closers q2 @ [closer]\<rparr>);
     Some ((rend, q_block q3, hd (q_scopes q3)),
       q3\<lparr>q_closers := q_closers q2, q_block := q_block q, q_scopes := tl (q_scopes q3)\<rparr>) }"

text \<open>A block of its own, whose first assignments are taken back.\<close>

definition read_block :: "('e, 'f) blockp \<Rightarrow> string list \<Rightarrow> ('e, 'f) qst \<Rightarrow> ((string option \<times> 'f pblock) \<times> ('e, 'f) qst) option" where
  "read_block rb blockend q =
     map_option (\<lambda>((rend, b), q1). ((rend, b), RevertFirstAssignments (snd b) q1)) (rb blockend new_block q)"

definition loop_body :: "('e, 'f) blockp \<Rightarrow> string list \<Rightarrow> ('e, 'f) qst \<Rightarrow> ('f block \<times> ('e, 'f) qst) option" where
  "loop_body rb blockend q =
     map_option (\<lambda>((_, b), q1). (block_of b, q1\<lparr>q_loop := q_loop q\<rparr>)) (read_block rb blockend (q\<lparr>q_loop := Suc (q_loop q)\<rparr>))"

definition ParseStmtWhile :: "('e, 'f) exprp \<Rightarrow> ('e, 'f) blockp \<Rightarrow> ('e, 'f) senv \<Rightarrow> ('e, 'f) qst \<Rightarrow> ('e, 'f) qst option" where
  "ParseStmtWhile pr rb E q = do {
     q1 \<leftarrow> q_white E False q;
     (x, q2) \<leftarrow> q_expr pr E q1;
     case x of
       None \<Rightarrow> StatementError E (DQERR_CONDEXPR_MISSING_FOR ''while'') q2
     | Some cond \<Rightarrow> do {
         (body, q3) \<leftarrow> loop_body rb [''endwhile''] q2;
         Some (AddStatement (OStmtWhile cond body) q3) } }"

text \<open>The branches of an \<open>if\<close>: the last one is \<open>branch\<close>.\<close>

type_synonym 'f pbranch = "'f expr option \<times> 'f pblock"

definition bool_checked :: "'f expr \<Rightarrow> ('e, 'f) qst \<Rightarrow> ('e, 'f) qst" where
  "bool_checked e q = (if etype e = TBool then q else q_Error (PeBuild (BOOL_EXPR_EXPECTED (etype e))) q)"

definition set_branch :: "'f pblock \<Rightarrow> 'f pbranch list \<Rightarrow> 'f pbranch list" where
  "set_branch b brs = butlast brs @ [(fst (last brs), b)]"

text \<open>Variables assigned first in every branch are initialized behind an \<open>if\<close> with \<open>else\<close>.\<close>

definition merge_branches :: "'f pbranch list \<Rightarrow> ('e, 'f) qst \<Rightarrow> ('e, 'f) qst" where
  "merge_branches brs q =
     (if None \<notin> set (map fst brs) then q
      else q\<lparr>q_init := filter (\<lambda>w. \<forall>(_, _, sc) \<in> set (tl brs). w \<in> set (ps_first sc)) (ps_first (snd (snd (hd brs)))) @ q_init q\<rparr>)"

definition end_if :: "'f pbranch list \<Rightarrow> ('e, 'f) qst \<Rightarrow> ('e, 'f) qst" where
  "end_if brs q = merge_branches brs (AddStatement (OStmtIf (map (\<lambda>(c, b). (c, block_of b)) brs)) q)"

text \<open>
  One round of the loop over the branches, \<open>rec\<close> the next one. Behind a closing brace, \<open>continue\<close>
  goes back to the top of the loop, where \<open>endstr\<close> is empty again.
\<close>

definition if_round :: "('e, 'f) exprp \<Rightarrow> ('e, 'f) blockp \<Rightarrow> ('e, 'f) senv \<Rightarrow> ('f pbranch list \<Rightarrow> ('e, 'f) qst \<Rightarrow> ('e, 'f) qst option)
    \<Rightarrow> 'f pbranch list \<Rightarrow> ('e, 'f) qst \<Rightarrow> ('e, 'f) qst option" where
  "if_round pr rb E rec brs q =
     (if q_eof q then Some (end_if brs q)
      else do {
        ((rend, b), q1) \<leftarrow> rb [''endif'', ''elif'', ''else''] (snd (last brs)) q;
        let brs1 = set_branch b brs;
        let q2 = RevertFirstAssignments (snd b) q1;
        if rend = Some ''elif'' then do {
          (x, q3) \<leftarrow> q_expr pr E q2;
          case x of
            None \<Rightarrow> map_option (end_if brs1) (StatementError E (DQERR_CONDEXPR_MISSING_FOR ''elif'') q3)
          | Some cond \<Rightarrow> rec (brs1 @ [(Some cond, new_block)]) (bool_checked cond q3) }
        else if rend = Some ''else'' then
          (if None \<in> set (map fst brs1) then map_option (end_if brs1) (StatementError E DQERR_MULTIPLE_ELSE q2)
           else rec (brs1 @ [(None, new_block)]) q2)
        else if rend = Some ''}'' then do {
          q3 \<leftarrow> q_white E False q2;
          case qt (first_symbol [(''endif'', ()), (''elif'', ()), (''else'', ())] True) q3 of
            (Some _, q4) \<Rightarrow> rec brs1 q4
          | (None, q4) \<Rightarrow> Some (end_if brs1 q4) }
        else Some (end_if brs1 q2) })"

primrec if_loop :: "nat \<Rightarrow> ('e, 'f) exprp \<Rightarrow> ('e, 'f) blockp \<Rightarrow> ('e, 'f) senv \<Rightarrow> 'f pbranch list \<Rightarrow> ('e, 'f) qst \<Rightarrow> ('e, 'f) qst option" where
  "if_loop 0 pr rb E brs q = None"
| "if_loop (Suc n) pr rb E brs q = if_round pr rb E (if_loop n pr rb E) brs q"

definition ParseStmtIf :: "nat \<Rightarrow> ('e, 'f) exprp \<Rightarrow> ('e, 'f) blockp \<Rightarrow> ('e, 'f) senv \<Rightarrow> ('e, 'f) qst \<Rightarrow> ('e, 'f) qst option" where
  "ParseStmtIf n pr rb E q = do {
     q1 \<leftarrow> q_white E False q;
     (x, q2) \<leftarrow> q_expr pr E q1;
     case x of
       None \<Rightarrow> StatementError E (DQERR_CONDEXPR_MISSING_FOR ''if'') q2
     | Some cond \<Rightarrow> if_loop n pr rb E [(Some cond, new_block)] (bool_checked cond q2) }"

text \<open>
  \<open>try\<close> with the run-time module of exceptions in use; a \<open>try\<close> without \<open>finally\<close> is an error here, as
  \<open>except\<close> is outside the model.
\<close>

definition ParseStmtTry :: "('e, 'f) blockp \<Rightarrow> ('e, 'f) senv \<Rightarrow> ('e, 'f) qst \<Rightarrow> ('e, 'f) qst option" where
  "ParseStmtTry rb E q =
     (if \<not> se_exceptions E
      then map_option (\<lambda>q1. q1\<lparr>q_p := SkipToSymbol ''endtry'' (q_p q1)\<rparr>) (StatementError E DQERR_EXCEPTIONS_DISABLED q)
      else do {
        ((rend, b), q1) \<leftarrow> read_block rb [''except'', ''finally'', ''endtry''] q;
        if q_eof q1 then StatementError E (DQERR_STMT_INVALID ''try without except or finally'') q1
        else if rend = Some ''except'' then None
        else if rend = Some ''finally'' then do {
          ((_, f), q2) \<leftarrow> read_block rb [''endtry''] q1;
          Some (AddStatement (OStmtTry (block_of b) (block_of f)) q2) }
        else StatementError E (DQERR_STMT_INVALID ''try without except or finally'') q1 })"

end
