(* ===== verification/Parse_For.thy ===== *)
theory Parse_For
  imports Parse_Stmt
begin

text \<open>
  \<open>ParseStmtFor\<close> (\<open>compiler/parser/dqc_parser_stmt.cpp\<close>): the loops over a range of integers, which it turns
  into blocks for initialization and step around a condition. Loops over arrays and with a reference are outside.
\<close>

section \<open>The loop that is built\<close>

datatype for_kind = FOR_TO | FOR_DOWNTO | FOR_COUNT | FOR_DOWNCOUNT | FOR_WHILE

definition for_kinds :: "(string \<times> for_kind) list" where
  "for_kinds = [(''to'', FOR_TO), (''downto'', FOR_DOWNTO), (''count'', FOR_COUNT), (''downcount'', FOR_DOWNCOUNT),
     (''while'', FOR_WHILE)]"

definition counts :: "for_kind \<Rightarrow> bool" where
  "counts kind \<longleftrightarrow> kind = FOR_COUNT \<or> kind = FOR_DOWNCOUNT"

definition step_op :: "for_kind \<Rightarrow> binop" where
  "step_op kind = (if kind = FOR_DOWNTO \<or> kind = FOR_DOWNCOUNT then BINOP_SUB else BINOP_ADD)"

definition for_condition :: "for_kind \<Rightarrow> string \<Rightarrow> sty \<Rightarrow> string \<Rightarrow> 'f expr \<Rightarrow> 'f expr" where
  "for_condition kind x ty cnt limit =
     (case kind of
        FOR_WHILE \<Rightarrow> limit
      | FOR_TO \<Rightarrow> OCompareExpr COMPOP_LE (OLValueVar x ty None) limit
      | FOR_DOWNTO \<Rightarrow> OCompareExpr COMPOP_GE (OLValueVar x ty None) limit
      | _ \<Rightarrow> OCompareExpr COMPOP_GT (OLValueVar cnt ty None) (OIntLit 0 ty))"

definition for_init :: "for_kind \<Rightarrow> sty \<Rightarrow> string \<Rightarrow> 'f expr \<Rightarrow> 'f stmt list" where
  "for_init kind ty cnt limit = (if counts kind then [OStmtVarDecl cnt ty (Some limit)] else [])"

definition for_step :: "for_kind \<Rightarrow> string \<Rightarrow> sty \<Rightarrow> string \<Rightarrow> 'f expr \<Rightarrow> 'f stmt list" where
  "for_step kind x ty cnt step =
     (if counts kind then [OStmtModifyAssign cnt ty BINOP_SUB (OIntLit 1 ty)] else [])
     @ [OStmtModifyAssign x ty (step_op kind) step]"

definition for_stmt :: "for_kind \<Rightarrow> string \<Rightarrow> sty \<Rightarrow> string \<Rightarrow> 'f stmt \<Rightarrow> 'f expr \<Rightarrow> 'f expr \<Rightarrow> 'f block \<Rightarrow> 'f stmt" where
  "for_stmt kind x ty cnt start limit step body =
     OStmtFor (OStmtBlock [] (start # for_init kind ty cnt limit)) (for_condition kind x ty cnt limit) body
       (OStmtBlock [] (for_step kind x ty cnt step))"

section \<open>Parsing\<close>

text \<open>\<open>abort_for\<close>; the scope is the one the caller goes on with.\<close>

definition abort_for :: "('e, 'f) qst \<Rightarrow> ('e, 'f) qst" where
  "abort_for q = q\<lparr>q_p := SkipToSymbol ''endfor'' (q_p q)\<rparr>"

definition is_int_type :: "sty \<Rightarrow> bool" where
  "is_int_type ty = (case ty of TInt _ _ \<Rightarrow> True | _ \<Rightarrow> False)"

definition is_positive_const_step :: "('e, 'f) senv \<Rightarrow> 'f expr \<Rightarrow> string \<Rightarrow> ('e, 'f) qst \<Rightarrow> (bool \<times> ('e, 'f) qst) option" where
  "is_positive_const_step E e form q =
     (if \<not> is_int_type (etype e) then Some (True, q)
      else (case calc_int (pe_target (se_p E)) (pe_fpu (se_p E)) (etype e) e of
          Undef \<Rightarrow> None
        | NotConst _ \<Rightarrow> Some (True, q)
        | Const v \<Rightarrow> Some (if sint v \<le> 0 then (False, q_Error (DQERR_FOR_STEP_POSITIVE form) q) else (True, q))))"

definition parse_optional_step :: "('e, 'f) exprp \<Rightarrow> ('e, 'f) senv \<Rightarrow> ('e, 'f) qst \<Rightarrow> ('f expr option \<times> ('e, 'f) qst) option" where
  "parse_optional_step pr E q = do {
     q1 \<leftarrow> q_white E False q;
     case qt (p_word ''step'') q1 of
       (False, q2) \<Rightarrow> Some (Some (new_IntLit (pe_target (se_p E)) 1), q2)
     | (True, q2) \<Rightarrow> do {
         q3 \<leftarrow> q_white E False q2;
         (x, q4) \<leftarrow> q_expr pr E q3;
         Some (x, if x = None then q_Error DQERR_EXPR_EXPECTED q4 else q4) } }"

text \<open>The limit or condition and the step, in the scope of the loop; nothing when the loop is abandoned.\<close>

definition for_limit :: "('e, 'f) exprp \<Rightarrow> ('e, 'f) senv \<Rightarrow> for_kind \<Rightarrow> string \<Rightarrow> sty \<Rightarrow> ('e, 'f) qst
    \<Rightarrow> (('f expr \<times> 'f expr) option \<times> ('e, 'f) qst) option" where
  "for_limit pr E kind form ty q = do {
     (x, q1) \<leftarrow> q_expr pr E q;
     case x of
       None \<Rightarrow> map_option (Pair None)
         (if kind = FOR_WHILE then StatementError E (DQERR_CONDEXPR_MISSING_FOR ''for'') q1 else Some (q_Error DQERR_EXPR_EXPECTED q1))
     | Some e \<Rightarrow> do {
         (limit, q2) \<leftarrow> (if kind = FOR_WHILE then Some (Some e, bool_checked e q1) else CheckAssignType E ty e q1);
         case limit of
           None \<Rightarrow> Some (None, q2)
         | Some limit \<Rightarrow> do {
             (st, q3) \<leftarrow> parse_optional_step pr E q2;
             case st of
               None \<Rightarrow> Some (None, q3)
             | Some st \<Rightarrow> do {
                 (ok, q4) \<leftarrow> (if kind = FOR_WHILE then Some (True, q3) else is_positive_const_step E st form q3);
                 if ok then Some (Some (limit, st), q4) else Some (None, q4) } } } }"

text \<open>\<open>__for_count_{line}_{col}\<close>\<close>

definition count_name :: "scpos \<Rightarrow> string" where
  "count_name pos = ''__for_count_'' @ int_to_string (pos_line pos) @ ''_'' @ int_to_string (pos_col pos)"

text \<open>Behind the start value, in the scope of the loop.\<close>

definition for_tail :: "('e, 'f) exprp \<Rightarrow> ('e, 'f) blockp \<Rightarrow> ('e, 'f) senv \<Rightarrow> string \<Rightarrow> sty \<Rightarrow> 'f stmt \<Rightarrow> ('e, 'f) qst
    \<Rightarrow> ('f stmt option \<times> ('e, 'f) qst) option" where
  "for_tail pr rb E x ty start q = do {
     q1 \<leftarrow> q_white E False q;
     let ((ok, form), q2) = q_ident q1;
     case (if ok then map_of for_kinds form else None) of
       None \<Rightarrow> Some (None, abort_for (q_Error (if ok \<and> form = ''in'' then DQERR_NOT_SUPPORTED ''for ... in'' else DQERR_KW_OR_ID_MISSING) q2))
     | Some kind \<Rightarrow> do {
         (parts, q3) \<leftarrow> for_limit pr E kind form ty q2;
         case parts of
           None \<Rightarrow> Some (None, abort_for q3)
         | Some (limit, st) \<Rightarrow> do {
             let cnt = count_name (q_start q3);
             q4 \<leftarrow> (if counts kind then DefineValSym E cnt ty True q3 else Some q3);
             (st', q5) \<leftarrow> CheckAssignType E ty st q4;
             case st' of
               None \<Rightarrow> Some (None, abort_for q5)
             | Some st' \<Rightarrow> do {
                 (body, q6) \<leftarrow> loop_body rb [''endfor''] q5;
                 Some (Some (for_stmt kind x ty cnt start limit st' body), q6) } } } }"

text \<open>The loop variable, in the scope of the loop that is opened: declared, or assigned.\<close>

definition for_variable :: "('e, 'f) senv \<Rightarrow> string \<Rightarrow> sty \<Rightarrow> bool \<Rightarrow> ('e, 'f) qst \<Rightarrow> ('e, 'f) qst option" where
  "for_variable E x ty declare q =
     (let q1 = q\<lparr>q_scopes := new_scope # q_scopes q\<rparr>
      in if declare then DefineValSym E x ty True q1 else Some (SetVarInitialized x q1))"

definition for_loop :: "('e, 'f) exprp \<Rightarrow> ('e, 'f) blockp \<Rightarrow> ('e, 'f) senv \<Rightarrow> string \<Rightarrow> sty \<Rightarrow> bool \<Rightarrow> 'f expr \<Rightarrow> ('e, 'f) qst
    \<Rightarrow> ('e, 'f) qst option" where
  "for_loop pr rb E x ty declare start q = do {
     (start', q1) \<leftarrow> CheckAssignType E ty start q;
     case start' of
       None \<Rightarrow> Some (abort_for q1)
     | Some e \<Rightarrow> do {
         q2 \<leftarrow> for_variable E x ty declare q1;
         (st, q3) \<leftarrow> for_tail pr rb E x ty (if declare then OStmtVarDecl x ty (Some e) else OStmtAssign x ty e) q2;
         let q4 = q3\<lparr>q_scopes := tl (q_scopes q3)\<rparr>;
         Some (case st of None \<Rightarrow> q4 | Some st \<Rightarrow> AddStatement st q4) } }"

text \<open>The type behind \<open>:\<close>, if any; nothing when the loop is abandoned.\<close>

definition for_type :: "('e, 'f) senv \<Rightarrow> ('e, 'f) qst \<Rightarrow> (sty option option \<times> ('e, 'f) qst) option" where
  "for_type E q = do {
     q1 \<leftarrow> q_white E False q;
     case q_symbol '':'' True q1 of
       (False, q2) \<Rightarrow> Some (Some None, q2)
     | (True, q2) \<Rightarrow> do {
         q3 \<leftarrow> q_white E False q2;
         let (is_ref, q4) = qt (p_word ''ref'') q3;
         if is_ref then None
         else do {
           ((ok, ty, _), q5) \<leftarrow> ParseTypeSpecOrInference E q4;
           Some (if ok then Some ty else None, q5) } } }"

definition ParseStmtFor :: "('e, 'f) exprp \<Rightarrow> ('e, 'f) blockp \<Rightarrow> ('e, 'f) senv \<Rightarrow> ('e, 'f) qst \<Rightarrow> ('e, 'f) qst option" where
  "ParseStmtFor pr rb E q = do {
     q1 \<leftarrow> q_white E False q;
     case q_ident q1 of
       ((False, _), q2) \<Rightarrow> StatementError E (DQERR_ID_EXP_AFTER ''for'') q2
     | ((True, x), q2) \<Rightarrow> do {
         (ty, q3) \<leftarrow> for_type E q2;
         case ty of
           None \<Rightarrow> Some (abort_for q3)
         | Some specified \<Rightarrow> do {
             q4 \<leftarrow> q_white E False q3;
             let (is_in, q5) = qt (p_word ''in'') q4;
             if is_in then None
             else (case q_symbol ''='' True q5 of
               (False, q6) \<Rightarrow> map_option abort_for (StatementError E (DQERR_MISSING_ASSIGN_FOR x) q6)
             | (True, q6) \<Rightarrow> do {
                 q7 \<leftarrow> q_white E False q6;
                 (start, q8) \<leftarrow> q_expr pr E q7;
                 case start of
                   None \<Rightarrow> Some (abort_for q8)
                 | Some e \<Rightarrow>
                     let loop = (\<lambda>ty declare. if is_int_type ty then for_loop pr rb E x ty declare e q8
                       else Some (abort_for (q_Error (DQERR_TYPE_EXPECTED ''integer'' ty) q8))) in
                     (case (pe_val (env_at E q8) x, specified) of
                        (None, None) \<Rightarrow> Some (abort_for (q_Error (DQERR_VAR_UNKNOWN x) q8))
                      | (None, Some ty) \<Rightarrow> loop ty True
                      | (Some VsOther, _) \<Rightarrow> None
                      | (Some (VsScalar ty c _), _) \<Rightarrow>
                          if specified \<noteq> None \<and> specified \<noteq> Some ty
                          then Some (abort_for (q_Error (PeConv (TYPEMISM_ASSIGN (the specified) ty)) q8))
                          else if is_int_type ty \<and> c \<noteq> None
                          then Some (abort_for (q_Error (DQERR_TYPE_ASSIGN_TO_CONST x) q8))
                          else loop ty False) }) } } }"

end
