(* ===== verification/Parse_Block.thy ===== *)
theory Parse_Block
  imports Parse_For
begin

text \<open>
  \<open>ParseStatement\<close>, the loop over the statements of a block, and the statement parser, which ties them to the
  expression parser with one fuel for both.
\<close>

section \<open>One statement\<close>

text \<open>A word that closes a block, but not this one: the reading of the block stops.\<close>

definition block_mismatch :: "('e, 'f) senv \<Rightarrow> string list \<Rightarrow> string \<Rightarrow> ('e, 'f) qst \<Rightarrow> (bool \<times> ('e, 'f) qst) option" where
  "block_mismatch E closer w q = do {
     q1 \<leftarrow> qo (p_SetCurPos (q_start q)) q;
     q2 \<leftarrow> StatementError E (DQERR_STMTBLK_CLOSE_MISMATCH closer w) q1;
     Some (False, if w \<in> set (concat (q_closers q2)) then q2 else snd (q_ident q2)) }"

text \<open>The statement that a word starts; none when the word is not one of a statement.\<close>

definition word_statement :: "nat \<Rightarrow> ('e, 'f) exprp \<Rightarrow> ('e, 'f) blockp \<Rightarrow> ('e, 'f) senv \<Rightarrow> string \<Rightarrow> ('e, 'f) qst
    \<Rightarrow> ('e, 'f) qst option option" where
  "word_statement n pr rb E w q =
     (if w \<in> {''subfn'', ''ref'', ''const'', ''raise'', ''delete'', ''inherited'', ''use''} then Some None
      else if w = ''var'' then Some (ParseStmtVar n pr E q)
      else if w \<in> {''refin'', ''refout'', ''refnil''} then Some (StatementError E (DQERR_REF_LOCAL_MODE_UNSUPPORTED w) q)
      else if w = ''return'' then Some (ParseStmtReturn pr E q)
      else if w = ''break'' then Some (ParseStmtBreak E q)
      else if w = ''continue'' then Some (ParseStmtContinue E q)
      else if w = ''while'' then Some (ParseStmtWhile pr rb E q)
      else if w = ''for'' then Some (ParseStmtFor pr rb E q)
      else if w = ''if'' then Some (ParseStmtIf n pr rb E q)
      else if w = ''try'' then Some (ParseStmtTry rb E q)
      else None)"

definition symbol_statement :: "('e, 'f) exprp \<Rightarrow> ('e, 'f) senv \<Rightarrow> ('e, 'f) qst \<Rightarrow> ('e, 'f) qst option" where
  "symbol_statement pr E q =
     (case q_symbol ''++'' True q of
        (True, q1) \<Rightarrow> ParseStmtIncDec pr E BINOP_ADD q1
      | (False, q1) \<Rightarrow>
          (case q_symbol ''--'' True q1 of
             (True, q2) \<Rightarrow> ParseStmtIncDec pr E BINOP_SUB q2
           | (False, q2) \<Rightarrow> ParseAssignOrCallStmt pr E q2))"

definition ParseStatement :: "nat \<Rightarrow> ('e, 'f) exprp \<Rightarrow> ('e, 'f) blockp \<Rightarrow> ('e, 'f) senv \<Rightarrow> string list \<Rightarrow> ('e, 'f) qst
    \<Rightarrow> (bool \<times> ('e, 'f) qst) option" where
  "ParseStatement n pr rb E closer q =
     (case q_symbol '';'' True q of
        (True, q1) \<Rightarrow> Some (True, q1)
      | (False, q1) \<Rightarrow> do {
          q2 \<leftarrow> (if q_eof q1 then Some q1 else q_white E False q1);
          let (attributes, q3) = (if q_eof q2 then (False, q2) else q_symbol ''[['' False q2);
          if attributes then None
          else do {
            let q4 = q3\<lparr>q_start := SaveCurPos (p_feeder (q_p q3))\<rparr>;
            let ((ok, w), q5) = q_ident q4;
            if \<not> ok then map_option (Pair True) (symbol_statement pr E q5)
            else (case word_statement n pr rb E w q5 of
              Some r \<Rightarrow> map_option (Pair True) r
            | None \<Rightarrow>
                if w \<in> set closer_words then block_mismatch E closer w q5
                else if w \<in> set reserved_words then map_option (Pair True) (StatementError E (DQERR_STMT_INVALID w) q5)
                else do {
                  q6 \<leftarrow> qo (p_SetCurPos (q_start q5)) q5;
                  map_option (Pair True) (symbol_statement pr E q6) }) } })"

section \<open>The parser\<close>

text \<open>One round of the loop of \<open>ReadStatementBlock\<close>, \<open>rec\<close> the next one.\<close>

definition block_round :: "nat \<Rightarrow> ('e, 'f) exprp \<Rightarrow> ('e, 'f) blockp \<Rightarrow> ('e, 'f) senv
    \<Rightarrow> (string list \<Rightarrow> ('e, 'f) qst \<Rightarrow> (string option \<times> ('e, 'f) qst) option)
    \<Rightarrow> string list \<Rightarrow> ('e, 'f) qst \<Rightarrow> (string option \<times> ('e, 'f) qst) option" where
  "block_round n pr rb E rec closer q =
     (if q_eof q then Some (None, q)
      else do {
        q1 \<leftarrow> q_white E False q;
        case qt (first_symbol (map (\<lambda>w. (w, w)) closer) True) q1 of
          (Some w, q2) \<Rightarrow> Some (Some w, q2)
        | (None, q2) \<Rightarrow>
            if q_eof q2 then map_option (Pair (Some [])) (StatementError E (DQERR_STMTBLK_CLOSE_MISSING closer) q2)
            else do {
              (go, q3) \<leftarrow> ParseStatement n pr rb E closer q2;
              if go then rec closer q3 else Some (None, q3) } })"

primrec block_loop :: "nat \<Rightarrow> ('e, 'f) senv \<Rightarrow> string list \<Rightarrow> ('e, 'f) qst \<Rightarrow> (string option \<times> ('e, 'f) qst) option" where
  "block_loop 0 E closer q = None"
| "block_loop (Suc n) E closer q =
     block_round n (parse n) (ReadStatementBlock E (block_loop n E)) E (block_loop n E) closer q"

definition read_statements :: "nat \<Rightarrow> ('e, 'f) senv \<Rightarrow> ('e, 'f) blockp" where
  "read_statements n E = ReadStatementBlock E (block_loop n E)"

end
