(* ===== verification/For_Loop.thy ===== *)
theory For_Loop
  imports Parse_For Expr_Props
begin

text \<open>
  What the loops over a range that \<open>ParseStmtFor\<close> builds do when they are executed: the values of the loop
  variable round by round, the loops that end, and the loops whose variable wraps around before their limit is passed.
\<close>

section \<open>The values of a range\<close>

text \<open>The integers of a type, and one of them as a bit pattern.\<close>

definition int_lo :: "nat \<Rightarrow> bool \<Rightarrow> int" where
  "int_lo b sg = (if sg then - (2 ^ (b - 1)) else 0)"

definition int_hi :: "nat \<Rightarrow> bool \<Rightarrow> int" where
  "int_hi b sg = (if sg then 2 ^ (b - 1) - 1 else 2 ^ b - 1)"

lemma val_pattern:
  assumes "0 < b" and "int_lo b sg \<le> i" and "i \<le> int_hi b sg"
  shows "val b sg (take_bit b i) = i"
  using assms sgnd_take_bit [of b i] by (auto simp: int_lo_def int_hi_def val_def take_bit_int_eq_self split: if_splits)

lemma pattern_range: "0 \<le> take_bit b (i :: int)" "take_bit b i < (2 :: int) ^ b"
  by simp_all

section \<open>The parts of the loop\<close>

lemma eval_var: "eval_expr R (OLValueVar x (TInt b sg) None) env = Some (b, take_bit b (env x))"
  by (simp add: eval_expr_def run_expr_def gen_var_def GetLlType_def)

lemma eval_lit:
  assumes "llvm_langref (r_sem R)" and "0 < b"
  shows "eval_expr R (OIntLit v (TInt b sg)) env = Some (b, pat b v)"
  using eval_int_const [OF assms(1), of "TInt b sg"] assms(2) by (simp add: eval_expr_def run_expr_def)

lemma eval_compare:
  assumes L: "llvm_langref (r_sem R)" and b: "0 < b"
    and e: "eval_expr R e env = Some (b, take_bit b j)"
  shows "cond_val R (OCompareExpr op (OLValueVar x (TInt b sg) None) e) env
    = Some (ref_icmp (icmp_pred op sg) b (take_bit b (env x)) (take_bit b j))"
proof -
  from e obtain g where g: "Generate (r_target R) (r_fpu R) e = Some g" "ll_eval (r_sem R) env g = Some (b, take_bit b j)"
    by (auto simp: eval_expr_def run_expr_def bind_eq_Some_conv)
  from langref_icmp [OF L b pattern_range [of b "env x"] pattern_range [of b j]] g show ?thesis
    by (simp add: cond_val_def eval_expr_def run_expr_def gen_compare_def gen_var_def GetLlType_def bind2_def)
qed

lemma eval_modify:
  assumes L: "llvm_langref (r_sem R)" and b: "0 < b"
    and e: "eval_expr R e env = Some (b, take_bit b k)" and op: "op = BINOP_ADD \<and> d = k \<or> op = BINOP_SUB \<and> d = - k"
  shows "eval_expr R (OBinExpr op (TInt b sg) (OLValueVar x (TInt b sg) None) e) env = Some (b, take_bit b (env x + d))"
proof -
  from e obtain g where g: "Generate (r_target R) (r_fpu R) e = Some g" "ll_eval (r_sem R) env g = Some (b, take_bit b k)"
    by (auto simp: eval_expr_def run_expr_def bind_eq_Some_conv)
  note l = langref_bin [OF L b pattern_range [of b "env x"] pattern_range [of b k]]
  show ?thesis
    using op
  proof
    assume "op = BINOP_ADD \<and> d = k"
    then show ?thesis using g l [of LAdd]
      by (simp add: eval_expr_def run_expr_def gen_binop_def gen_intop_def gen_var_def GetLlType_def bind2_def ref_bin_def take_bit_add)
  next
    assume "op = BINOP_SUB \<and> d = - k"
    then show ?thesis using g l [of LSub]
      by (simp add: eval_expr_def run_expr_def gen_binop_def gen_intop_def gen_var_def GetLlType_def bind2_def ref_bin_def take_bit_diff)
  qed
qed

section \<open>Executions that end\<close>

lemma exec_more: "exec n R c s = Some r \<Longrightarrow> exec (Suc n) R c s = Some r"
proof (induction n arbitrary: c s r)
  case (Suc n)
  obtain oc t where r: "r = (oc, t)" by fastforce
  note IH = Suc.IH and e = Suc.prems [unfolded exec.simps(2) [of n] r]
  show ?case
  proof (cases c)
    case (CStmt stm)
    with e IH r show ?thesis by (cases stm) (auto simp: exec.simps(2) [of "Suc n"] split: option.splits if_splits)
  next
    case (CLoop cnd b st)
    with e IH r show ?thesis by (auto simp: exec.simps(2) [of "Suc n"] split: option.splits if_splits)
  qed (use e IH r in \<open>auto simp: exec.simps(2) [of "Suc n"] split: option.splits if_splits list.splits prod.splits\<close>)
qed simp

definition returns :: "'f rt \<Rightarrow> 'f code \<Rightarrow> sst \<Rightarrow> outcome \<times> sst \<Rightarrow> bool" where
  "returns R c s r \<longleftrightarrow> (\<exists>n. exec n R c s = Some r)"

lemma exec_mono: "exec n R c s = Some r \<Longrightarrow> n \<le> m \<Longrightarrow> exec m R c s = Some r"
  by (induction m) (auto simp: le_Suc_eq exec_more)

lemma returns2:
  assumes "returns R c s r" and "returns R c' s' r'"
  obtains n where "exec n R c s = Some r" "exec n R c' s' = Some r'"
proof -
  from assms obtain n m where n: "exec n R c s = Some r" "exec m R c' s' = Some r'" by (auto simp: returns_def)
  show ?thesis by (rule that [of "max n m"]) (auto intro: exec_mono [OF n(1)] exec_mono [OF n(2)])
qed

lemma returns_at: "exec (Suc n) R c s = Some r \<Longrightarrow> returns R c s r"
  unfolding returns_def by blast

lemma returns_nil: "returns R (CSeq []) s (Normal, s)"
  by (rule returns_at [of 0]) (simp add: exec.simps(2))

lemma returns_cons:
  assumes "returns R (CStmt st) s (Normal, s1)" and "returns R (CSeq sts) s1 r"
  shows "returns R (CSeq (st # sts)) s r"
proof -
  from returns2 [OF assms] obtain n where n: "exec n R (CStmt st) s = Some (Normal, s1)" "exec n R (CSeq sts) s1 = Some r" .
  then show ?thesis by (intro returns_at [of n]) (simp add: exec.simps(2))
qed

lemma returns_block:
  assumes "returns R (CSeq (blk_stmts b)) s (Normal, s1)" and "s_live s1 = s_live s"
  shows "returns R (CBlock b) s (Normal, s1)"
proof -
  from assms(1) obtain n where n: "exec n R (CSeq (blk_stmts b)) s = Some (Normal, s1)" by (auto simp: returns_def)
  then show ?thesis using assms(2) by (intro returns_at [of n]) (simp add: exec.simps(2) leave_def)
qed

lemma returns_vardecl:
  "eval_expr R e (s_env s) = Some (w, p) \<Longrightarrow> returns R (CStmt (OStmtVarDecl x ty (Some e))) s (Normal, s\<lparr>s_env := (s_env s)(x := p)\<rparr>)"
  by (rule returns_at [of 0]) (simp add: exec.simps(2) do_assign_def)

lemma returns_assign:
  "eval_expr R e (s_env s) = Some (w, p) \<Longrightarrow> returns R (CStmt (OStmtAssign x ty e)) s (Normal, s\<lparr>s_env := (s_env s)(x := p)\<rparr>)"
  by (rule returns_at [of 0]) (simp add: exec.simps(2) do_assign_def)

lemma returns_modify:
  "eval_expr R (OBinExpr op ty (OLValueVar x ty None) e) (s_env s) = Some (w, p) \<Longrightarrow>
     returns R (CStmt (OStmtModifyAssign x ty op e)) s (Normal, s\<lparr>s_env := (s_env s)(x := p)\<rparr>)"
  by (rule returns_at [of 0]) (simp add: exec.simps(2) do_assign_def)

lemma loop_stop: "cond_val R e (s_env s) = Some False \<Longrightarrow> returns R (CLoop e b st) s (Normal, s)"
  by (rule returns_at [of 0]) (simp add: exec.simps(2))

lemma loop_go:
  assumes "cond_val R e (s_env s) = Some True" and "returns R (CBlock b) s (oc, s1)" and "oc = Normal \<or> oc = Continue"
    and "returns R (CBlock st) s1 (Normal, s2)" and "returns R (CLoop e b (Some st)) s2 r"
  shows "returns R (CLoop e b (Some st)) s r"
proof -
  from returns2 [OF assms(2,4)] obtain n where n: "exec n R (CBlock b) s = Some (oc, s1)" "exec n R (CBlock st) s1 = Some (Normal, s2)" .
  from assms(5) obtain m where m: "exec m R (CLoop e b (Some st)) s2 = Some r" by (auto simp: returns_def)
  have "exec (max n m) R (CBlock b) s = Some (oc, s1)" "exec (max n m) R (CBlock st) s1 = Some (Normal, s2)"
    "exec (max n m) R (CLoop e b (Some st)) s2 = Some r"
    using exec_mono [OF n(1)] exec_mono [OF n(2)] exec_mono [OF m] by simp_all
  then show ?thesis using assms(1,3) by (intro returns_at [of "max n m"]) (auto simp: exec.simps(2))
qed

lemma returns_for:
  assumes "returns R (CSeq (blk_stmts i)) s (Normal, s1)" and "returns R (CLoop e b (Some st)) s1 (Normal, s2)"
    and "s_live s2 = s_live s"
  shows "returns R (CStmt (OStmtFor i e b st)) s (Normal, s2)"
proof -
  from returns2 [OF assms(1,2)] obtain n where n: "exec n R (CSeq (blk_stmts i)) s = Some (Normal, s1)"
    "exec n R (CLoop e b (Some st)) s1 = Some (Normal, s2)" .
  then show ?thesis using assms(3) by (intro returns_at [of n]) (simp add: exec.simps(2) leave_def)
qed

text \<open>A loop whose condition holds a number of times.\<close>

lemma loop_times:
  assumes "j \<le> m" and "P j s"
    and "\<And>j s. j < m \<Longrightarrow> P j s \<Longrightarrow> cond_val R e (s_env s) = Some True
      \<and> (\<exists>oc. (oc = Normal \<or> oc = Continue) \<and> returns R (CBlock b) s (oc, B s))
      \<and> returns R (CBlock st) (B s) (Normal, F (B s)) \<and> P (Suc j) (F (B s))"
    and "\<And>s. P m s \<Longrightarrow> cond_val R e (s_env s) = Some False"
  shows "returns R (CLoop e b (Some st)) s (Normal, ((\<lambda>s. F (B s)) ^^ (m - j)) s) \<and> P m (((\<lambda>s. F (B s)) ^^ (m - j)) s)"
  using assms(1,2)
proof (induction "m - j" arbitrary: j s)
  case 0
  with assms(4) show ?case by (simp add: loop_stop)
next
  case (Suc d)
  then have j: "j < m" "d = m - Suc j" by auto
  from assms(3) [OF j(1) Suc.prems(2)] obtain oc where b: "cond_val R e (s_env s) = Some True"
    "oc = Normal \<or> oc = Continue" "returns R (CBlock b) s (oc, B s)" "returns R (CBlock st) (B s) (Normal, F (B s))"
    "P (Suc j) (F (B s))" by blast
  from Suc.hyps(1) [OF j(2) _ b(5)] j(1)
  have "returns R (CLoop e b (Some st)) (F (B s)) (Normal, ((\<lambda>s. F (B s)) ^^ d) (F (B s))) \<and> P m (((\<lambda>s. F (B s)) ^^ d) (F (B s)))"
    using j(2) by simp
  then show ?case unfolding Suc.hyps(2) [symmetric] funpow_Suc_right o_apply using loop_go [OF b(1,3,2,4)] by blast
qed

section \<open>The loops over a range\<close>

text \<open>The value of the loop variable in a round, the number of rounds, and the direction.\<close>

definition for_delta :: "for_kind \<Rightarrow> int \<Rightarrow> int" where
  "for_delta kind k = (if step_op kind = BINOP_SUB then - k else k)"

definition for_rounds :: "for_kind \<Rightarrow> int \<Rightarrow> int \<Rightarrow> int \<Rightarrow> nat" where
  "for_rounds kind a z k =
     (case kind of
        FOR_TO \<Rightarrow> if z < a then 0 else Suc (nat ((z - a) div k))
      | FOR_DOWNTO \<Rightarrow> if a < z then 0 else Suc (nat ((a - z) div k))
      | _ \<Rightarrow> nat z)"

text \<open>The memory at the start of round \<open>j\<close>: the loop variable, and for a count what is left of it.\<close>

definition at_round :: "for_kind \<Rightarrow> nat \<Rightarrow> string \<Rightarrow> string \<Rightarrow> int \<Rightarrow> int \<Rightarrow> int \<Rightarrow> nat \<Rightarrow> sst \<Rightarrow> sst" where
  "at_round kind b x cnt a z k j s =
     s\<lparr>s_env := (let env = (s_env s)(x := take_bit b (a + for_delta kind k * int j))
                 in if counts kind then env(cnt := take_bit b (z - int j)) else env)\<rparr>"

lemma le_div: "0 < k \<Longrightarrow> i \<le> d div k \<longleftrightarrow> k * i \<le> d" for k i d :: int
proof
  assume "0 < k" "i \<le> d div k"
  then have "k * i \<le> k * (d div k)" by simp
  also have "\<dots> \<le> d" using mult_div_mod_eq [of k d] pos_mod_sign [OF \<open>0 < k\<close>, of d] by linarith
  finally show "k * i \<le> d" .
next
  assume "0 < k" "k * i \<le> d"
  then show "i \<le> d div k" using zdiv_mono1 [of "k * i" d k] by simp
qed

lemma rounds_range:
  assumes "0 < k" and "0 \<le> d"
  shows "j < Suc (nat (d div k)) \<longleftrightarrow> k * int j \<le> d"
proof -
  have "0 \<le> d div k" using assms by (simp add: pos_imp_zdiv_nonneg_iff)
  then have "j < Suc (nat (d div k)) \<longleftrightarrow> int j \<le> d div k" by linarith
  then show ?thesis by (simp add: le_div [OF assms(1)])
qed

text \<open>Which rounds there are, by the condition of the loop on the numbers.\<close>

lemma rounds_cond:
  assumes "0 < k" and "j \<le> for_rounds kind a z k" and "kind \<noteq> FOR_WHILE"
  shows "j < for_rounds kind a z k \<longleftrightarrow>
    (case kind of FOR_TO \<Rightarrow> a + k * int j \<le> z | FOR_DOWNTO \<Rightarrow> z \<le> a - k * int j | _ \<Rightarrow> 0 < z - int j)"
proof (cases kind)
  case FOR_TO
  then show ?thesis using assms rounds_range [OF assms(1), of "z - a" j] by (auto simp: for_rounds_def)
next
  case FOR_DOWNTO
  then show ?thesis using assms rounds_range [OF assms(1), of "a - z" j] by (auto simp: for_rounds_def)
qed (use assms in \<open>auto simp: for_rounds_def\<close>)

text \<open>The step block: the count goes down, then the loop variable moves.\<close>

definition step_env :: "for_kind \<Rightarrow> nat \<Rightarrow> string \<Rightarrow> string \<Rightarrow> int \<Rightarrow> sst \<Rightarrow> sst" where
  "step_env kind b x cnt k s =
     (let s1 = (if counts kind then s\<lparr>s_env := (s_env s)(cnt := take_bit b (s_env s cnt - 1))\<rparr> else s)
      in s1\<lparr>s_env := (s_env s1)(x := take_bit b (s_env s1 x + for_delta kind k))\<rparr>)"

lemma pat_one: "0 < b \<Longrightarrow> pat b 1 = take_bit b 1"
  by (simp add: pat_def)

lemma returns_step:
  assumes L: "llvm_langref (r_sem R)" and b: "0 < b" and e: "\<And>env. eval_expr R step env = Some (b, take_bit b k)"
  shows "returns R (CBlock (OStmtBlock [] (for_step kind x (TInt b sg) cnt step))) s (Normal, step_env kind b x cnt k s)"
proof -
  have c: "eval_expr R (OBinExpr BINOP_SUB (TInt b sg) (OLValueVar cnt (TInt b sg) None) (OIntLit 1 (TInt b sg))) env
      = Some (b, take_bit b (env cnt - 1))" for env
    using eval_modify [OF L b, of "OIntLit 1 (TInt b sg)" env 1 BINOP_SUB "- 1" sg cnt] eval_lit [OF L b, of 1 sg env] pat_one [OF b]
    by simp
  have x: "eval_expr R (OBinExpr (step_op kind) (TInt b sg) (OLValueVar x (TInt b sg) None) step) env
      = Some (b, take_bit b (env x + for_delta kind k))" for env
    by (rule eval_modify [OF L b e]) (simp add: step_op_def for_delta_def)
  note mv = returns_cons [OF returns_modify [OF x] returns_nil]
  have "returns R (CSeq (for_step kind x (TInt b sg) cnt step)) s (Normal, step_env kind b x cnt k s)"
  proof (cases "counts kind")
    case True
    from returns_cons [OF returns_modify [OF c] mv] True show ?thesis by (simp add: for_step_def step_env_def Let_def)
  next
    case False
    with mv show ?thesis by (simp add: for_step_def step_env_def Let_def)
  qed
  then show ?thesis by (intro returns_block) (simp_all add: step_env_def Let_def)
qed

text \<open>What the memory holds in round \<open>j\<close>, and the condition of the loop there.\<close>

definition in_round :: "for_kind \<Rightarrow> nat \<Rightarrow> string \<Rightarrow> string \<Rightarrow> int \<Rightarrow> int \<Rightarrow> int \<Rightarrow> nat \<Rightarrow> sst \<Rightarrow> bool" where
  "in_round kind b x cnt a z k j s \<longleftrightarrow>
     s_env s x = take_bit b (a + for_delta kind k * int j) \<and> (counts kind \<longrightarrow> s_env s cnt = take_bit b (z - int j))"

lemma step_round:
  assumes "in_round kind b x cnt a z k j s" and "x \<noteq> cnt"
  shows "step_env kind b x cnt k s = at_round kind b x cnt a z k (Suc j) s"
proof -
  have m: "take_bit b (take_bit b u + d) = take_bit b (u + d)" "take_bit b (take_bit b u - d) = take_bit b (u - d)" for u d :: int
    by (simp_all add: take_bit_eq_mod mod_simps)
  have "take_bit b (take_bit b (a + for_delta kind k * int j) + for_delta kind k) = take_bit b (a + for_delta kind k * int (Suc j))"
    unfolding m by (simp add: algebra_simps)
  moreover have "take_bit b (take_bit b (z - int j) - 1) = take_bit b (z - int (Suc j))"
    unfolding m by (simp add: algebra_simps)
  ultimately show ?thesis
    using assms by (auto simp: in_round_def step_env_def at_round_def Let_def fun_upd_twist)
qed

lemma at_in_round: "x \<noteq> cnt \<Longrightarrow> in_round kind b x cnt a z k j (at_round kind b x cnt a z k j s)"
  by (simp add: in_round_def at_round_def Let_def)

lemma cond_round:
  assumes L: "llvm_langref (r_sem R)" and b: "0 < b" and e: "\<And>env. eval_expr R limit env = Some (b, take_bit b z)"
    and i: "in_round kind b x cnt a z k j s" and w: "kind \<noteq> FOR_WHILE"
    and z: "int_lo b sg \<le> z" "z \<le> int_hi b sg"
    and v: "counts kind \<or> (int_lo b sg \<le> a + for_delta kind k * int j \<and> a + for_delta kind k * int j \<le> int_hi b sg)"
    and c: "counts kind \<Longrightarrow> int j \<le> z \<or> j = 0"
  shows "cond_val R (for_condition kind x (TInt b sg) cnt limit) (s_env s) =
    Some (case kind of FOR_TO \<Rightarrow> a + k * int j \<le> z | FOR_DOWNTO \<Rightarrow> z \<le> a - k * int j | _ \<Rightarrow> 0 < z - int j)"
proof (cases "counts kind")
  case True
  have z0: "int_lo b sg \<le> 0" "0 \<le> int_hi b sg" using z b by (auto simp: int_lo_def int_hi_def)
  have zj: "int_lo b sg \<le> z - int j" "z - int j \<le> int_hi b sg" using c [OF True] z z0(1) by auto
  have cn: "s_env s cnt = take_bit b (z - int j)" using i True by (simp add: in_round_def)
  have "eval_expr R (OIntLit 0 (TInt b sg)) (s_env s) = Some (b, take_bit b 0)" using eval_lit [OF L b, of 0 sg] by (simp add: pat_def)
  from eval_compare [OF L b this, of COMPOP_GT cnt sg] val_pattern [OF b zj] val_pattern [OF b z0]
  have "cond_val R (OCompareExpr COMPOP_GT (OLValueVar cnt (TInt b sg) None) (OIntLit 0 (TInt b sg))) (s_env s) = Some (0 < z - int j)"
    unfolding cn by (cases sg) (simp_all add: icmp_pred_def ref_icmp_def val_def)
  with True show ?thesis by (auto simp: counts_def for_condition_def)
next
  case False
  with v have r: "int_lo b sg \<le> a + for_delta kind k * int j" "a + for_delta kind k * int j \<le> int_hi b sg" by auto
  have xn: "s_env s x = take_bit b (a + for_delta kind k * int j)" using i by (simp add: in_round_def)
  note ev = eval_compare [OF L b e, of _ x sg "s_env s", unfolded xn]
  from False w have "kind = FOR_TO \<or> kind = FOR_DOWNTO" by (cases kind) (auto simp: counts_def)
  then show ?thesis
    using ev [of COMPOP_LE] ev [of COMPOP_GE] val_pattern [OF b r] val_pattern [OF b z]
    by (cases sg) (auto simp: for_condition_def icmp_pred_def ref_icmp_def val_def for_delta_def step_op_def)
qed

text \<open>The loop from its first round on.\<close>

lemma for_loop_runs:
  assumes L: "llvm_langref (r_sem R)" and b: "0 < b" and w: "kind \<noteq> FOR_WHILE" and xc: "x \<noteq> cnt" and k: "0 < k"
    and e: "\<And>env. eval_expr R limit env = Some (b, take_bit b z)" "\<And>env. eval_expr R step env = Some (b, take_bit b k)"
    and r: "int_lo b sg \<le> a" "a \<le> int_hi b sg" "int_lo b sg \<le> z" "z \<le> int_hi b sg"
    and f: "counts kind \<or> (int_lo b sg \<le> a + for_delta kind k * int m \<and> a + for_delta kind k * int m \<le> int_hi b sg)"
    and m: "m = for_rounds kind a z k"
    and body: "\<And>s. \<exists>oc. (oc = Normal \<or> oc = Continue) \<and> returns R (CBlock body) s (oc, B s)"
      "\<And>s. s_env (B s) x = s_env s x \<and> s_env (B s) cnt = s_env s cnt \<and> s_live (B s) = s_live s"
    and s: "in_round kind b x cnt a z k 0 s"
  shows "returns R (CLoop (for_condition kind x (TInt b sg) cnt limit) body (Some (OStmtBlock [] (for_step kind x (TInt b sg) cnt step))))
      s (Normal, ((\<lambda>s. step_env kind b x cnt k (B s)) ^^ m) s)"
proof -
  let ?P = "in_round kind b x cnt a z k"
  have cj: "counts kind \<Longrightarrow> int j \<le> z \<or> j = 0" if "j \<le> m" for j
    using that m by (auto simp: for_rounds_def counts_def split: for_kind.splits)
  have mono: "int_lo b sg \<le> a + for_delta kind k * int j \<and> a + for_delta kind k * int j \<le> int_hi b sg"
    if "j \<le> m" "\<not> counts kind" for j
  proof -
    have "k * int j \<le> k * int m" "0 \<le> k * int j" using that(1) k by simp_all
    then show ?thesis using f that(2) r(1,2) by (auto simp: for_delta_def)
  qed
  have cond: "cond_val R (for_condition kind x (TInt b sg) cnt limit) (s_env s) = Some (j < m)" if "j \<le> m" "?P j s" for j s
  proof -
    have "counts kind \<or> (int_lo b sg \<le> a + for_delta kind k * int j \<and> a + for_delta kind k * int j \<le> int_hi b sg)"
      using mono [OF that(1)] by blast
    from cond_round [OF L b e(1) that(2) w r(3,4) this cj [OF that(1)]] rounds_cond [OF k _ w, of j a z] that(1) m
    show ?thesis by simp
  qed
  have round: "cond_val R (for_condition kind x (TInt b sg) cnt limit) (s_env s) = Some True
      \<and> (\<exists>oc. (oc = Normal \<or> oc = Continue) \<and> returns R (CBlock body) s (oc, B s))
      \<and> returns R (CBlock (OStmtBlock [] (for_step kind x (TInt b sg) cnt step))) (B s) (Normal, step_env kind b x cnt k (B s))
      \<and> ?P (Suc j) (step_env kind b x cnt k (B s))" if "j < m" "?P j s" for j s
  proof -
    have "?P j (B s)" using that(2) body(2) [of s] by (simp add: in_round_def)
    from step_round [OF this xc] at_in_round [OF xc] have "?P (Suc j) (step_env kind b x cnt k (B s))" by simp
    with cond [of j s] that body(1) returns_step [OF L b e(2)] show ?thesis by simp
  qed
  from loop_times [of 0 m ?P s, OF _ s round] cond [of m] show ?thesis by simp
qed

lemma rounds_fold:
  assumes xc: "x \<noteq> cnt" and B: "\<And>s. s_env (B s) x = s_env s x \<and> s_env (B s) cnt = s_env s cnt \<and> s_live (B s) = s_live s"
  shows "((\<lambda>s. step_env kind b x cnt k (B s)) ^^ m) (at_round kind b x cnt a z k 0 s)
    = at_round kind b x cnt a z k m (fold (\<lambda>j s. B (at_round kind b x cnt a z k j s)) [0..<m] s)"
proof (induction m)
  case (Suc m)
  let ?s = "at_round kind b x cnt a z k m (fold (\<lambda>j s. B (at_round kind b x cnt a z k j s)) [0..<m] s)"
  have "in_round kind b x cnt a z k m (B ?s)" using at_in_round [OF xc] B [of ?s] by (simp add: in_round_def)
  from step_round [OF this xc] show ?case using Suc by simp
qed simp

lemma rounds_live:
  assumes "\<And>s. s_live (B s) = s_live s"
  shows "s_live (at_round kind b x cnt a z k m (fold (\<lambda>j s. B (at_round kind b x cnt a z k j s)) js s)) = s_live s"
  using assms by (induction js arbitrary: s) (simp_all add: at_round_def)

text \<open>A loop whose condition never fails.\<close>

lemma returns_unique: "returns R c s r \<Longrightarrow> exec n R c s = None \<or> exec n R c s = Some r"
proof (cases "exec n R c s")
  case (Some r')
  assume "returns R c s r"
  with Some have "returns R c s r'" "returns R c s r" by (auto simp: returns_def)
  from returns2 [OF this] Some show ?thesis by (metis option.inject)
qed simp

text \<open>The condition of a loop is reached again after a number of rounds.\<close>

inductive loop_reaches :: "'f rt \<Rightarrow> 'f expr \<Rightarrow> 'f block \<Rightarrow> 'f block \<Rightarrow> nat \<Rightarrow> sst \<Rightarrow> sst \<Rightarrow> bool"
  for R e b st where
  start: "loop_reaches R e b st 0 s s"
| round: "\<lbrakk> loop_reaches R e b st j s s1; cond_val R e (s_env s1) = Some True; exec n R (CBlock b) s1 = Some (oc, s2);
       oc = Normal \<or> oc = Continue; exec m R (CBlock st) s2 = Some (Normal, s3) \<rbrakk> \<Longrightarrow> loop_reaches R e b st (Suc j) s s3"

lemma loop_goes_on:
  assumes "\<And>env. cond_val R e env = Some True"
    and "\<And>s. \<exists>n oc. (oc = Normal \<or> oc = Continue) \<and> exec n R (CBlock b) s = Some (oc, B s)"
    and "\<And>s. returns R (CBlock st) s (Normal, F s)"
  shows "loop_reaches R e b st j s (((\<lambda>s. F (B s)) ^^ j) s)"
proof (induction j)
  case (Suc j)
  let ?s = "((\<lambda>s. F (B s)) ^^ j) s"
  from assms(2) [of ?s] assms(3) [of "B ?s"] obtain n oc m where "oc = Normal \<or> oc = Continue"
    "exec n R (CBlock b) ?s = Some (oc, B ?s)" "exec m R (CBlock st) (B ?s) = Some (Normal, F (B ?s))" by (auto simp: returns_def)
  with loop_reaches.round [OF Suc assms(1)] show ?case by simp
qed (simp add: loop_reaches.start)

lemma loop_never:
  assumes "\<And>env. cond_val R e env = Some True"
    and "\<And>s. \<exists>n oc. (oc = Normal \<or> oc = Continue) \<and> exec n R (CBlock b) s = Some (oc, B s)"
    and "\<And>s. returns R (CBlock st) s (Normal, F s)"
  shows "exec n R (CLoop e b (Some st)) s = None"
proof (induction n arbitrary: s)
  case (Suc n)
  from assms(2) [of s] obtain oc where oc: "oc = Normal \<or> oc = Continue" "returns R (CBlock b) s (oc, B s)" by (auto simp: returns_def)
  from returns_unique [OF oc(2), of n] returns_unique [OF assms(3) [of "B s"], of n] oc(1) Suc show ?case
    by (auto simp: exec.simps(2) assms(1))
qed simp


text \<open>C7: A loop \<open>to\<close> the largest value of the type of its variable, or \<open>downto\<close> the smallest one, never ends: the variable
  wraps around before the condition fails, as in \<open>for i : uint8 = 5 downto 0\<close>. However many rounds have been made, the condition
  is reached once more, and no amount of fuel is enough.\<close>

theorem dq_for_loop_wraps:
  assumes "llvm_langref (r_sem R)" and "0 < b"
    and "kind = FOR_TO \<and> z = int_hi b sg \<or> kind = FOR_DOWNTO \<and> z = int_lo b sg"
    and "\<And>env. eval_expr R start env = Some (b, take_bit b a)" and "\<And>env. eval_expr R limit env = Some (b, take_bit b z)"
    and "\<And>env. eval_expr R step env = Some (b, take_bit b k)"
    and "\<And>s. \<exists>n oc. (oc = Normal \<or> oc = Continue) \<and> exec n R (CBlock body) s = Some (oc, B s)"
    and "OStmtFor init cond body' stp =
      for_stmt kind x (TInt b sg) cnt (OStmtVarDecl x (TInt b sg) (Some start)) limit step body"
  shows "exec n R (CStmt (OStmtFor init cond body' stp)) s = None \<and>
    (\<exists>m s1 s2. exec m R (CSeq (blk_stmts init)) s = Some (Normal, s1) \<and> loop_reaches R cond body' stp j s1 s2)"
proof -
  have p: "init = OStmtBlock [] (OStmtVarDecl x (TInt b sg) (Some start) # for_init kind (TInt b sg) cnt limit)"
    "cond = for_condition kind x (TInt b sg) cnt limit" "body' = body" "stp = OStmtBlock [] (for_step kind x (TInt b sg) cnt step)"
    using assms(8) by (simp_all add: for_stmt_def)
  have r: "int_lo b sg \<le> val b sg (take_bit b p)" "val b sg (take_bit b p) \<le> int_hi b sg" for p
    using sgnd_range [OF assms(2), of "take_bit b p"] pattern_range [of b p] by (auto simp: int_lo_def int_hi_def val_def)
  have le: "int_lo b sg \<le> int_hi b sg" by (simp add: int_lo_def int_hi_def)
  have z: "val b sg (take_bit b z) = z" using val_pattern [OF assms(2)] assms(3) le by auto
  have c: "cond_val R cond env = Some True" for env
    using eval_compare [OF assms(1,2,5), of COMPOP_LE x sg env] eval_compare [OF assms(1,2,5), of COMPOP_GE x sg env]
      assms(3) z r [of "env x"]
    by (cases sg) (auto simp: p for_condition_def icmp_pred_def ref_icmp_def val_def)
  have st: "returns R (CBlock stp) s (Normal, step_env kind b x cnt k s)" for s
    unfolding p by (rule returns_step [OF assms(1,2,6)])
  note loop = loop_never [OF c assms(7) st, folded p(3)]
  let ?s1 = "s\<lparr>s_env := (s_env s)(x := take_bit b a)\<rparr>"
  have "\<not> counts kind" using assms(3) by (auto simp: counts_def)
  then have init: "returns R (CSeq (blk_stmts init)) s (Normal, ?s1)"
    using returns_cons [OF returns_vardecl [where s = s and x = x and ty = "TInt b sg", OF assms(4)] returns_nil]
    by (simp add: p for_init_def)
  from init obtain m where m: "exec m R (CSeq (blk_stmts init)) s = Some (Normal, ?s1)" by (auto simp: returns_def)
  have "exec n R (CStmt (OStmtFor init cond body' stp)) s = None"
  proof (cases n)
    case (Suc n')
    with returns_unique [OF init, of n'] loop [of n'] show ?thesis by (auto simp: exec.simps(2))
  qed simp
  with m loop_goes_on [OF c assms(7) st, folded p(3)] show ?thesis by blast
qed

section \<open>Two loops\<close>

definition no_body :: "unit block" where
  "no_body = OStmtBlock [] []"

lemma no_body_runs: "\<exists>n oc. (oc = Normal \<or> oc = Continue) \<and> exec n R (CBlock no_body) s = Some (oc, s)"
  by (rule exI [of _ 2], rule exI [of _ Normal]) (simp add: no_body_def exec.simps(2) leave_def numeral_2_eq_2)

definition plain_rt :: "unit rt" where
  "plain_rt = \<lparr>r_target = target64, r_fpu = unit_fpu, r_sem = ref_llsem, r_call = (\<lambda>_ env. (False, env))\<rparr>"

lemma plain_sem: "r_sem plain_rt = ref_llsem"
  by (simp add: plain_rt_def)

lemma plain_lit: "eval_expr plain_rt (OIntLit v (TInt 8 False)) env = Some (8, pat 8 v)"
  using eval_lit [of plain_rt 8 v False env] ref_llsem_ok by (simp add: plain_rt_def)


text \<open>\<open>for i : uint8 = 5 downto 0\<close>.\<close>

theorem dq_for_loop_wraps_witness:
  "\<forall>n s j. exec n plain_rt (CStmt (OStmtFor
        (OStmtBlock [] [OStmtVarDecl ''i'' (TInt 8 False) (Some (OIntLit 5 (TInt 8 False)))])
        (OCompareExpr COMPOP_GE (OLValueVar ''i'' (TInt 8 False) None) (OIntLit 0 (TInt 8 False))) no_body
        (OStmtBlock [] [OStmtModifyAssign ''i'' (TInt 8 False) BINOP_SUB (OIntLit 1 (TInt 8 False))]))) s = None \<and>
   (\<exists>m s1 s2. exec m plain_rt (CSeq (blk_stmts
        (OStmtBlock [] [OStmtVarDecl ''i'' (TInt 8 False) (Some (OIntLit 5 (TInt 8 False)))]))) s = Some (Normal, s1) \<and>
      loop_reaches plain_rt (OCompareExpr COMPOP_GE (OLValueVar ''i'' (TInt 8 False) None) (OIntLit 0 (TInt 8 False))) no_body
        (OStmtBlock [] [OStmtModifyAssign ''i'' (TInt 8 False) BINOP_SUB (OIntLit 1 (TInt 8 False))]) j s1 s2)"
  by (intro allI, rule dq_for_loop_wraps [where kind = FOR_DOWNTO and sg = False and b = 8 and a = 5 and z = 0 and k = 1 and B = "\<lambda>s. s"
        and start = "OIntLit 5 (TInt 8 False)" and limit = "OIntLit 0 (TInt 8 False)" and step = "OIntLit 1 (TInt 8 False)" and cnt = "''c''"])
    (simp_all add: plain_lit no_body_runs pat_def int_lo_def int_hi_def for_stmt_def for_init_def for_condition_def for_step_def
      counts_def step_op_def ref_llsem_ok plain_sem)

end
